(* ===== verification/Ucof_Prelude.thy ===== *)
theory Ucof_Prelude
  imports Main "HOL-Library.Word" "HOL-Library.List_Lexorder" "HOL-Library.Product_Lexorder"
begin

text \<open>
  Shared vocabulary of the development: the machine types of the Rust sources, the checked
  conversions and the checked arithmetic of the Rust standard library that the sources use,
  results and their sequencing, the little-endian and big-endian byte images of words, and
  the list lemmas every component relies on.

  \<^item> \<open>u8\<close>, \<open>u16\<close>, \<open>u32\<close> and \<open>u64\<close> are words of that width.
  \<^item> \<open>usize\<close> is a natural number; the sources are compiled for 64-bit targets, so the
    checked operations on \<open>usize\<close> compare with \<open>2 ^ 64\<close>.
  \<^item> \<open>Result<T, E>\<close> is \<open>'e + 'a\<close>, with \<open>Err\<close> for \<open>Inl\<close> and \<open>Ok\<close> for \<open>Inr\<close>;
    \<open>and_then\<close> is the sequencing that the \<open>?\<close> operator performs.
\<close>

unbundle bit_operations_syntax

section \<open>Machine types and checked operations\<close>

type_synonym u8 = "8 word"
type_synonym u16 = "16 word"
type_synonym u32 = "32 word"
type_synonym u64 = "64 word"
type_synonym usize = nat
type_synonym byte = u8
type_synonym bytes = "byte list"

named_theorems result_simps \<open>rewriting of results, options and their sequencing\<close>
named_theorems wire_simps \<open>lengths and decodings of byte images\<close>

abbreviation Ok :: "'a \<Rightarrow> 'e + 'a" where "Ok \<equiv> Inr"
abbreviation Err :: "'e \<Rightarrow> 'e + 'a" where "Err \<equiv> Inl"

definition and_then :: "'e + 'a \<Rightarrow> ('a \<Rightarrow> 'e + 'b) \<Rightarrow> 'e + 'b" where
  "and_then r f = (case r of Inl e \<Rightarrow> Inl e | Inr x \<Rightarrow> f x)"

definition ok_or :: "'e \<Rightarrow> 'a option \<Rightarrow> 'e + 'a" where
  "ok_or e x = (case x of None \<Rightarrow> Inl e | Some v \<Rightarrow> Inr v)"

definition ensure :: "bool \<Rightarrow> 'e \<Rightarrow> 'e + unit" where
  "ensure b e = (if b then Inr () else Inl e)"

fun try_map :: "('a \<Rightarrow> 'e + 'b) \<Rightarrow> 'a list \<Rightarrow> 'e + 'b list" where
  "try_map f [] = Inr []"
| "try_map f (x # xs) = and_then (f x) (\<lambda>y. and_then (try_map f xs) (\<lambda>ys. Inr (y # ys)))"

definition checked_add :: "'a::len word \<Rightarrow> 'a word \<Rightarrow> 'a word option" where
  "checked_add a b = (if unat a + unat b < 2 ^ LENGTH('a) then Some (a + b) else None)"

definition checked_sub :: "'a::len word \<Rightarrow> 'a word \<Rightarrow> 'a word option" where
  "checked_sub a b = (if b \<le> a then Some (a - b) else None)"

definition saturating_sub :: "'a::len word \<Rightarrow> 'a word \<Rightarrow> 'a word" where
  "saturating_sub a b = (if b \<le> a then a - b else 0)"

definition usize_checked_add :: "usize \<Rightarrow> usize \<Rightarrow> usize option" where
  "usize_checked_add a b = (if a + b < 2 ^ 64 then Some (a + b) else None)"

definition u64_try_from :: "usize \<Rightarrow> u64 option" where
  "u64_try_from n = (if n < 2 ^ 64 then Some (of_nat n) else None)"

definition usize_try_from :: "u64 \<Rightarrow> usize option" where
  "usize_try_from w = (if unat w < 2 ^ 64 then Some (unat w) else None)"

definition u16_try_from :: "u64 \<Rightarrow> u16 option" where
  "u16_try_from w = (if unat w < 2 ^ 16 then Some (ucast w) else None)"

definition byte_get :: "'a list \<Rightarrow> usize \<Rightarrow> usize \<Rightarrow> 'a list option" where
  "byte_get bs start stop =
     (if start \<le> stop \<and> stop \<le> length bs then Some (take (stop - start) (drop start bs)) else None)"

text \<open>
  \<open>to_le_bytes\<close> and \<open>from_le_bytes\<close> of the integer types: byte \<open>i\<close> of the image holds the bits
  \<open>8 * i\<close> to \<open>8 * i + 7\<close>; the big-endian images are reversed.
\<close>

definition le_image :: "nat \<Rightarrow> 'a::len word \<Rightarrow> bytes" where
  "le_image n w = map (\<lambda>i. ucast (drop_bit (8 * i) w)) [0..<n]"

fun le_value :: "bytes \<Rightarrow> 'a::len word" where
  "le_value [] = 0"
| "le_value (b # bs) = ucast b OR push_bit 8 (le_value bs)"

definition be_image :: "nat \<Rightarrow> 'a::len word \<Rightarrow> bytes" where
  "be_image n w = rev (le_image n w)"

definition be_value :: "bytes \<Rightarrow> 'a::len word" where
  "be_value bs = le_value (rev bs)"

section \<open>Results\<close>

lemma and_then_simps [simp]:
  "and_then (Inl e) f = Inl e"
  "and_then (Inr x) f = f x"
  by (simp_all add: and_then_def)

lemma and_then_cong [fundef_cong]:
  "r = r' \<Longrightarrow> (\<And>x. r' = Inr x \<Longrightarrow> f x = f' x) \<Longrightarrow> and_then r f = and_then r' f'"
  by (cases r') auto

lemma and_then_Ok_iff [result_simps]:
  "and_then r f = Inr y \<longleftrightarrow> (\<exists>x. r = Inr x \<and> f x = Inr y)"
  by (cases r) auto

lemma and_then_Err_iff:
  "and_then r f = Inl e \<longleftrightarrow> r = Inl e \<or> (\<exists>x. r = Inr x \<and> f x = Inl e)"
  by (cases r) auto

lemma and_then_assoc: "and_then (and_then r f) g = and_then r (\<lambda>x. and_then (f x) g)"
  by (cases r) auto

lemma ok_or_simps [simp]:
  "ok_or e None = Inl e"
  "ok_or e (Some v) = Inr v"
  by (simp_all add: ok_or_def)

lemma ok_or_Ok_iff [result_simps]: "ok_or e x = Inr v \<longleftrightarrow> x = Some v"
  by (cases x) auto

lemma ensure_simps [simp]:
  "ensure True e = Inr ()"
  "ensure False e = Inl e"
  by (simp_all add: ensure_def)

lemma ensure_Ok_iff [result_simps]: "ensure b e = Inr u \<longleftrightarrow> b"
  by (simp add: ensure_def)

lemma if_Err_Ok_iff [result_simps]:
  "(if b then Inl e else r) = Inr y \<longleftrightarrow> \<not> b \<and> r = Inr y"
  by simp

lemma try_map_cong [fundef_cong]:
  "xs = ys \<Longrightarrow> (\<And>x. x \<in> set ys \<Longrightarrow> f x = g x) \<Longrightarrow> try_map f xs = try_map g ys"
  by (induction xs arbitrary: ys) auto

lemma try_map_Ok_iff: "try_map f xs = Inr ys \<longleftrightarrow> list_all2 (\<lambda>x y. f x = Inr y) xs ys"
proof (induction xs arbitrary: ys)
  case (Cons x xs)
  then show ?case by (cases ys) (auto simp: and_then_Ok_iff)
qed auto

lemma try_map_map_Ok: "(\<And>x. x \<in> set xs \<Longrightarrow> f (g x) = Inr (h x)) \<Longrightarrow> try_map f (map g xs) = Inr (map h xs)"
  by (induction xs) auto

lemma try_map_length: "try_map f xs = Inr ys \<Longrightarrow> length ys = length xs"
  by (auto simp: try_map_Ok_iff dest: list_all2_lengthD)

section \<open>Checked arithmetic\<close>

lemma unat_lt2p: "unat (w :: 'a::len word) < 2 ^ LENGTH('a)"
  by (rule unsigned_less)

lemma unat_lt_64 [simp]: "unat (w :: u64) < 18446744073709551616"
  using unat_lt2p [of w] by simp

lemma unat_add_no_overflow:
  "unat (a :: 'a::len word) + unat b < 2 ^ LENGTH('a) \<Longrightarrow> unat (a + b) = unat a + unat b"
  by (simp add: unat_word_ariths)

lemma checked_add_Some_iff:
  "checked_add a b = Some c \<longleftrightarrow> unat c = unat a + unat b"
proof
  assume "checked_add a b = Some c"
  then show "unat c = unat a + unat b"
    by (auto simp: checked_add_def unat_add_no_overflow split: if_splits)
next
  assume *: "unat c = unat a + unat b"
  then have "unat a + unat b < 2 ^ LENGTH('a)" using unat_lt2p [of c] by simp
  with * have "unat c = unat (a + b)" by (simp add: unat_add_no_overflow)
  then have "c = a + b" by (simp add: word_unat_eq_iff)
  with \<open>unat a + unat b < _\<close> show "checked_add a b = Some c" by (simp add: checked_add_def)
qed

lemma checked_add_None_iff:
  "checked_add (a :: 'a::len word) b = None \<longleftrightarrow> 2 ^ LENGTH('a) \<le> unat a + unat b"
  by (auto simp: checked_add_def)

lemma checked_sub_Some_iff: "checked_sub a b = Some c \<longleftrightarrow> unat a = unat b + unat c"
proof
  assume "checked_sub a b = Some c"
  then show "unat a = unat b + unat c"
    by (auto simp: checked_sub_def unat_sub word_le_nat_alt split: if_splits)
next
  assume *: "unat a = unat b + unat c"
  then have "b \<le> a" by (simp add: word_le_nat_alt)
  moreover from * \<open>b \<le> a\<close> have "a - b = c"
    by (simp add: word_unat_eq_iff unat_sub)
  ultimately show "checked_sub a b = Some c" by (simp add: checked_sub_def)
qed

lemma usize_try_from_eq [simp]: "usize_try_from w = Some (unat w)"
  by (simp add: usize_try_from_def)

lemma u64_try_from_Some_iff: "u64_try_from n = Some w \<longleftrightarrow> n = unat w"
  by (auto simp: u64_try_from_def word_unat_eq_iff unat_of_nat take_bit_eq_mod)

lemma u64_try_from_eq [simp]: "n < 2 ^ 64 \<Longrightarrow> u64_try_from n = Some (of_nat n)"
  by (simp add: u64_try_from_def)

lemma unat_of_nat_64 [simp]: "n < 2 ^ 64 \<Longrightarrow> unat (of_nat n :: u64) = n"
  by (simp add: unat_of_nat take_bit_eq_mod)

lemma unat_eqD: "unat (w :: u64) = n \<Longrightarrow> w = of_nat n \<and> n < 2 ^ 64"
  by auto

lemma u16_try_from_Some_iff: "u16_try_from w = Some k \<longleftrightarrow> unat w = unat k"
proof -
  have "unat w < 2 ^ 16 \<Longrightarrow> unat (ucast w :: u16) = unat w"
    by (simp add: unsigned_ucast_eq take_bit_nat_eq_self)
  moreover have "unat k < 2 ^ 16" using unat_lt2p [of k] by simp
  ultimately show ?thesis
    by (auto simp: u16_try_from_def word_unat_eq_iff)
qed

section \<open>Byte images of words\<close>

lemma length_le_image [simp]: "length (le_image n w) = n"
  by (simp add: le_image_def)

lemma length_be_image [simp]: "length (be_image n w) = n"
  by (simp add: be_image_def)

lemma bit_le_value:
  "bit (le_value bs :: 'a::len word) i \<longleftrightarrow>
     i < LENGTH('a) \<and> i div 8 < length bs \<and> bit (bs ! (i div 8)) (i mod 8)"
proof (induction bs arbitrary: i)
  case Nil
  then show ?case by simp
next
  case (Cons b bs)
  show ?case
  proof (cases "i < 8")
    case True
    then show ?thesis
      by (auto simp: bit_simps)
  next
    case False
    then obtain j where j: "i = 8 + j" using le_Suc_ex not_less by blast
    have "\<not> bit b i" using False bit_imp_le_length [of b i] by auto
    moreover have "(8 + j) div 8 = Suc (j div 8)" by simp
    ultimately show ?thesis
      using Cons.IH [of j] by (auto simp: j bit_simps)
  qed
qed

lemma le_value_image:
  assumes "8 * n = LENGTH('a)"
  shows "le_value (le_image n w) = (w :: 'a::len word)"
proof (rule bit_word_eqI)
  fix i assume "i < LENGTH('a)"
  then have "i div 8 < n" using assms by auto
  then show "bit (le_value (le_image n w) :: 'a word) i = bit w i"
    using \<open>i < LENGTH('a)\<close>
    by (simp add: bit_le_value le_image_def bit_simps)
qed

lemma le_image_value:
  assumes "8 * length bs = LENGTH('a)" and "n = length bs"
  shows "le_image n (le_value bs :: 'a::len word) = bs"
proof (rule nth_equalityI)
  show "length (le_image n (le_value bs :: 'a word)) = length bs" using assms by simp
next
  fix i assume "i < length (le_image n (le_value bs :: 'a word))"
  then have i: "i < length bs" using assms by simp
  show "le_image n (le_value bs :: 'a word) ! i = bs ! i"
  proof (rule bit_word_eqI)
    fix j assume "j < LENGTH(8)"
    then have j: "j < 8" by simp
    then have "8 * i + j < LENGTH('a)" using i assms(1) by linarith
    then show "bit (le_image n (le_value bs :: 'a word) ! i) j = bit (bs ! i) j"
      using i j assms(2) by (simp add: le_image_def bit_simps bit_le_value)
  qed
qed

lemma be_value_image: "8 * n = LENGTH('a) \<Longrightarrow> be_value (be_image n w) = (w :: 'a::len word)"
  by (simp add: be_value_def be_image_def le_value_image)

lemma be_image_value:
  "8 * length bs = LENGTH('a) \<Longrightarrow> n = length bs \<Longrightarrow> be_image n (be_value bs :: 'a::len word) = bs"
  by (simp add: be_value_def be_image_def le_image_value)

lemma le_value_image_64 [wire_simps]: "le_value (le_image 8 w) = (w :: u64)"
  by (simp add: le_value_image)

lemma le_value_image_32 [wire_simps]: "le_value (le_image 4 w) = (w :: u32)"
  by (simp add: le_value_image)

lemma le_value_image_16 [wire_simps]: "le_value (le_image 2 w) = (w :: u16)"
  by (simp add: le_value_image)

section \<open>Slices\<close>

lemma byte_get_Some_iff:
  "byte_get bs i j = Some xs \<longleftrightarrow> i \<le> j \<and> j \<le> length bs \<and> xs = take (j - i) (drop i bs)"
  by (auto simp: byte_get_def)

lemma byte_get_append [simp]:
  "byte_get (xs @ ys @ zs) (length xs) (length xs + length ys) = Some ys"
  by (simp add: byte_get_def)

lemma take_drop_within:
  assumes "take n (drop i bs) = h" and "j + k \<le> length h"
  shows "take k (drop j h) = take k (drop (i + j) bs)"
proof -
  have "length h \<le> n" using assms(1) by auto
  then have "k \<le> n - j" using assms(2) by linarith
  then show ?thesis using assms(1) by (auto simp: drop_take add.commute min_absorb1)
qed

section \<open>Conversions between widths\<close>

lemma unat_ucast_64:
  "unat (ucast (b :: u8) :: u64) = unat b"
  "unat (ucast (h :: u16) :: u64) = unat h"
  "unat (ucast (w :: u32) :: u64) = unat w"
  using unat_lt2p [of b] unat_lt2p [of h] unat_lt2p [of w]
  by (simp_all add: unsigned_ucast_eq take_bit_nat_eq_self)

lemma unat_ucast_down:
  "unat (n :: u64) < 2 ^ 8 \<Longrightarrow> unat (ucast n :: u8) = unat n"
  "unat n < 2 ^ 16 \<Longrightarrow> unat (ucast n :: u16) = unat n"
  "unat n < 2 ^ 32 \<Longrightarrow> unat (ucast n :: u32) = unat n"
  by (simp_all add: unsigned_ucast_eq take_bit_nat_eq_self)

lemma ucast_down_up [simp]:
  "ucast (ucast (b :: u8) :: u64) = b"
  "ucast (ucast (h :: u16) :: u64) = h"
  "ucast (ucast (w :: u32) :: u64) = w"
  using unat_lt2p [of b] unat_lt2p [of h] unat_lt2p [of w]
  by (simp_all add: word_unat_eq_iff unat_ucast_64 unat_ucast_down)

lemma ucast_up_down:
  "n \<le> 0xff \<Longrightarrow> ucast (ucast (n :: u64) :: u8) = n"
  "n \<le> 0xffff \<Longrightarrow> ucast (ucast n :: u16) = n"
  "n \<le> 0xffffffff \<Longrightarrow> ucast (ucast n :: u32) = n"
  by (simp_all add: word_unat_eq_iff unat_ucast_64 unat_ucast_down word_le_nat_alt)

lemma le_unat_64: "n \<le> unat (l :: u64) \<Longrightarrow> n < 2 ^ 64"
  using le_less_trans [OF _ unat_lt_64 [of l], of n] by simp

lemma of_nat_le_64: "n \<le> unat (l :: u64) \<Longrightarrow> of_nat n \<le> l"
  using le_unat_64 [of n l] by (simp add: word_le_nat_alt)

lemma unat_add_of_nat:
  fixes w lim :: u64
  assumes "unat w + n \<le> unat lim"
  shows "unat (w + of_nat n) = unat w + n"
proof -
  have "unat w + n < 2 ^ 64" using assms unat_lt_64 [of lim] by (auto intro: le_less_trans)
  then show ?thesis by (subst unat_add_no_overflow) simp_all
qed

section \<open>Stable sorting\<close>

lemma insort_key_map: "insort_key f (g x) (map g xs) = map g (insort_key (\<lambda>x. f (g x)) x xs)"
  by (induction xs) auto

lemma sort_key_map: "sort_key f (map g xs) = map g (sort_key (\<lambda>x. f (g x)) xs)"
  by (induction xs) (auto simp: insort_key_map)

lemma insort_key_cong: "f x = g x \<Longrightarrow> (\<And>y. y \<in> set xs \<Longrightarrow> f y = g y) \<Longrightarrow> insort_key f x xs = insort_key g x xs"
  by (induction xs) auto

lemma sort_key_cong: "(\<And>x. x \<in> set xs \<Longrightarrow> f x = g x) \<Longrightarrow> sort_key f xs = sort_key g xs"
  by (induction xs) (auto intro!: insort_key_cong)

lemma sum_list_insort_key: "sum_list (map f (insort_key g x xs)) = (f x + sum_list (map f xs) :: nat)"
  by (induction xs) auto

lemma sum_list_sort_key: "sum_list (map f (sort_key g xs)) = (sum_list (map f xs) :: nat)"
  by (induction xs) (auto simp: sum_list_insort_key)

lemma length_le_sum: "(\<And>x. x \<in> set xs \<Longrightarrow> 0 < f x) \<Longrightarrow> length xs \<le> sum_list (map f xs :: nat list)"
  by (induction xs) (force simp: Suc_le_eq)+

lemma checked_add_within:
  fixes l n m :: u64
  shows "checked_add l n = Some l' \<and> \<not> m < l' \<longleftrightarrow> l' = l + n \<and> unat l + unat n \<le> unat m"
proof
  show "checked_add l n = Some l' \<and> \<not> m < l'" if "l' = l + n \<and> unat l + unat n \<le> unat m"
    using that le_unat_64 [of "unat l + unat n" m]
    by (simp add: checked_add_def word_less_nat_alt unat_add_no_overflow)
qed (auto simp: checked_add_def word_less_nat_alt unat_add_no_overflow split: if_splits)

lemma min_word_eq_0: "min a b = (0 :: u64) \<longleftrightarrow> a = 0 \<or> b = 0"
  by (auto simp: min_def)

end
