(* ===== verification/Ucof_Error.thy ===== *)
theory Ucof_Error
  imports Ucof_Prelude
begin

text \<open>
  \<open>ucof-core/src/error.rs\<close> and \<open>ucof-core/src/limits.rs\<close>: the error values every operation of
  the core returns, their conformance categories, the text that \<open>Display\<close> prints for them, and
  the caller-controlled limits. Static context strings are HOL strings.
\<close>

section \<open>Errors\<close>

datatype error_category =
    CatTruncated
  | CatInvalidMagic
  | CatUnsupportedEpoch
  | CatUnsupportedFlags
  | CatInvalidReserved
  | CatInvalidLength
  | CatRangeOutOfBounds
  | CatDuplicateObjectId
  | CatInvalidRecordOrder
  | CatUnsupportedRecordKind
  | CatNonCanonicalMetadata
  | CatInvalidMetadataSchema
  | CatDirectoryMismatch
  | CatMissingManifest
  | CatUnsupportedRequiredCapability
  | CatDigestMismatch
  | CatLimitExceeded
  | CatIo

datatype error =
    Truncated string
  | InvalidMagic string
  | UnsupportedEpoch u32
  | UnsupportedFlags string u64
  | InvalidReserved string
  | InvalidLength string
  | RangeOutOfBounds string
  | DuplicateObjectId u64
  | InvalidRecordOrder string
  | UnsupportedRecordKind u16
  | NonCanonicalMetadata string
  | InvalidMetadataSchema string
  | DirectoryMismatch string
  | MissingManifest u64
  | UnsupportedRequiredCapability u64
  | DigestMismatch
  | LimitExceeded string
  | Io string

type_synonym 'a result = "error + 'a"

fun category :: "error \<Rightarrow> error_category" where
  "category (Truncated _) = CatTruncated"
| "category (InvalidMagic _) = CatInvalidMagic"
| "category (UnsupportedEpoch _) = CatUnsupportedEpoch"
| "category (UnsupportedFlags _ _) = CatUnsupportedFlags"
| "category (InvalidReserved _) = CatInvalidReserved"
| "category (InvalidLength _) = CatInvalidLength"
| "category (RangeOutOfBounds _) = CatRangeOutOfBounds"
| "category (DuplicateObjectId _) = CatDuplicateObjectId"
| "category (InvalidRecordOrder _) = CatInvalidRecordOrder"
| "category (UnsupportedRecordKind _) = CatUnsupportedRecordKind"
| "category (NonCanonicalMetadata _) = CatNonCanonicalMetadata"
| "category (InvalidMetadataSchema _) = CatInvalidMetadataSchema"
| "category (DirectoryMismatch _) = CatDirectoryMismatch"
| "category (MissingManifest _) = CatMissingManifest"
| "category (UnsupportedRequiredCapability _) = CatUnsupportedRequiredCapability"
| "category DigestMismatch = CatDigestMismatch"
| "category (LimitExceeded _) = CatLimitExceeded"
| "category (Io _) = CatIo"

section \<open>Display\<close>

text \<open>
  The formatting of integers by \<open>write!\<close>: \<open>{n}\<close> prints decimal digits without leading zeros,
  \<open>{n:x}\<close> lower-case hexadecimal digits.
\<close>

definition digit_char :: "nat \<Rightarrow> char" where
  "digit_char d = ''0123456789abcdef'' ! d"

fun show_radix :: "nat \<Rightarrow> nat \<Rightarrow> string" where
  "show_radix r n = (if r < 2 \<or> n < r then [digit_char n] else show_radix r (n div r) @ [digit_char (n mod r)])"

declare show_radix.simps [simp del]

definition show_dec :: "nat \<Rightarrow> string" where
  "show_dec n = show_radix 10 n"

definition show_hex :: "nat \<Rightarrow> string" where
  "show_hex n = show_radix 16 n"

fun display :: "error \<Rightarrow> string" where
  "display (Truncated c) = ''truncated '' @ c"
| "display (InvalidMagic c) = ''invalid '' @ c @ '' magic''"
| "display (UnsupportedEpoch e) = ''unsupported experimental epoch '' @ show_dec (unat e)"
| "display (UnsupportedFlags c f) = ''unsupported '' @ c @ '' flags 0x'' @ show_hex (unat f)"
| "display (InvalidReserved c) = ''non-zero reserved '' @ c @ '' bytes''"
| "display (InvalidLength c) = ''invalid '' @ c @ '' length''"
| "display (RangeOutOfBounds c) = c @ '' range is out of bounds''"
| "display (DuplicateObjectId i) = ''duplicate object identifier '' @ show_dec (unat i)"
| "display (InvalidRecordOrder c) = ''invalid record order: '' @ c"
| "display (UnsupportedRecordKind k) = ''unsupported record kind '' @ show_dec (unat k)"
| "display (NonCanonicalMetadata c) = ''non-canonical metadata: '' @ c"
| "display (InvalidMetadataSchema c) = ''invalid metadata schema: '' @ c"
| "display (DirectoryMismatch c) = ''directory mismatch: '' @ c"
| "display (MissingManifest i) = ''active manifest '' @ show_dec (unat i) @ '' is missing or invalid''"
| "display (UnsupportedRequiredCapability i) = ''unsupported required capability '' @ show_dec (unat i)"
| "display DigestMismatch = ''committed-prefix digest mismatch''"
| "display (LimitExceeded l) = ''resource limit exceeded: '' @ l"
| "display (Io c) = ''I/O failure during '' @ c"

section \<open>Limits\<close>

record limits =
  max_file_bytes :: u64
  max_total_bytes_read :: u64
  max_logical_decoded_bytes :: u64
  max_records :: u64
  max_payload_bytes :: u64
  max_metadata_bytes :: u64
  max_metadata_depth :: usize
  max_container_items :: u64
  max_text_bytes :: u64
  max_byte_string_bytes :: u64
  max_dependency_depth :: usize
  max_allocation_bytes :: u64
  max_stream_chunk_bytes :: u64
  max_diagnostics :: usize
  max_transform_expansion_ratio :: u64

definition default_limits :: limits where
  "default_limits = \<lparr>
     max_file_bytes = 64 * 1024 * 1024,
     max_total_bytes_read = 64 * 1024 * 1024,
     max_logical_decoded_bytes = 64 * 1024 * 1024,
     max_records = 100000,
     max_payload_bytes = 32 * 1024 * 1024,
     max_metadata_bytes = 8 * 1024 * 1024,
     max_metadata_depth = 64,
     max_container_items = 100000,
     max_text_bytes = 1024 * 1024,
     max_byte_string_bytes = 8 * 1024 * 1024,
     max_dependency_depth = 128,
     max_allocation_bytes = 8 * 1024 * 1024,
     max_stream_chunk_bytes = 64 * 1024,
     max_diagnostics = 100,
     max_transform_expansion_ratio = 1000\<rparr>"

end
