(* ===== verification/Ucof_Format.thy ===== *)
theory Ucof_Format
  imports Ucof_Error
begin

text \<open>
  \<open>ucof-core/src/format.rs\<close>: the magic values and fixed lengths of \<open>UCOF-EXP-0001\<close>, the
  little-endian appends and reads, and the checked slices. A \<open>&mut Vec<u8>\<close> target is passed and
  returned.
\<close>

definition FILE_MAGIC :: bytes where
  "FILE_MAGIC = [0x55, 0x43, 0x4f, 0x46, 0x0d, 0x0a, 0x1a, 0x0a]"

definition RECORD_MAGIC :: bytes where
  "RECORD_MAGIC = [0x55, 0x43, 0x52, 0x44]"

definition FOOTER_MAGIC :: bytes where
  "FOOTER_MAGIC = [0x55, 0x43, 0x46, 0x54, 0x52, 0x30, 0x30, 0x31]"

definition HEADER_LEN :: usize where "HEADER_LEN = 32"
definition RECORD_HEADER_LEN :: usize where "RECORD_HEADER_LEN = 40"
definition FOOTER_LEN :: usize where "FOOTER_LEN = 80"
definition EXPERIMENTAL_EPOCH :: u32 where "EXPERIMENTAL_EPOCH = 1"

definition push_u16_le :: "bytes \<Rightarrow> u16 \<Rightarrow> bytes" where
  "push_u16_le target v = target @ le_image 2 v"

definition push_u32_le :: "bytes \<Rightarrow> u32 \<Rightarrow> bytes" where
  "push_u32_le target v = target @ le_image 4 v"

definition push_u64_le :: "bytes \<Rightarrow> u64 \<Rightarrow> bytes" where
  "push_u64_le target v = target @ le_image 8 v"

definition take_slice :: "bytes \<Rightarrow> usize \<Rightarrow> usize \<Rightarrow> string \<Rightarrow> bytes result" where
  "take_slice bs offset len context =
     and_then (ok_or (RangeOutOfBounds context) (usize_checked_add offset len)) (\<lambda>stop.
     ok_or (Truncated context) (byte_get bs offset stop))"

definition read_u16_le :: "bytes \<Rightarrow> usize \<Rightarrow> string \<Rightarrow> u16 result" where
  "read_u16_le bs offset context =
     and_then (take_slice bs offset 2 context) (\<lambda>raw. Ok (le_value raw))"

definition read_u32_le :: "bytes \<Rightarrow> usize \<Rightarrow> string \<Rightarrow> u32 result" where
  "read_u32_le bs offset context =
     and_then (take_slice bs offset 4 context) (\<lambda>raw. Ok (le_value raw))"

definition read_u64_le :: "bytes \<Rightarrow> usize \<Rightarrow> string \<Rightarrow> u64 result" where
  "read_u64_le bs offset context =
     and_then (take_slice bs offset 8 context) (\<lambda>raw. Ok (le_value raw))"

text \<open>\<open>checked_range\<close> returns \<open>start..end\<close> as a pair.\<close>

definition checked_range :: "u64 \<Rightarrow> u64 \<Rightarrow> usize \<Rightarrow> string \<Rightarrow> (usize \<times> usize) result" where
  "checked_range offset len upper_bound context =
     and_then (ok_or (RangeOutOfBounds context) (checked_add offset len)) (\<lambda>stop.
     and_then (ok_or (RangeOutOfBounds context) (usize_try_from offset)) (\<lambda>start.
     and_then (ok_or (RangeOutOfBounds context) (usize_try_from stop)) (\<lambda>stop.
     if stop > upper_bound then Err (RangeOutOfBounds context) else Ok (start, stop))))"

section \<open>Reads\<close>

lemmas length_defs [simp] = HEADER_LEN_def RECORD_HEADER_LEN_def FOOTER_LEN_def

lemma magic_lengths [simp]:
  "length FILE_MAGIC = 8" "length RECORD_MAGIC = 4" "length FOOTER_MAGIC = 8"
  by (simp_all add: FILE_MAGIC_def RECORD_MAGIC_def FOOTER_MAGIC_def)

lemma take_slice_Ok_iff:
  "take_slice bs i n c = Inr xs \<longleftrightarrow>
     i + n < 2 ^ 64 \<and> i + n \<le> length bs \<and> xs = take n (drop i bs)"
  by (auto simp: take_slice_def result_simps usize_checked_add_def byte_get_Some_iff)

lemma take_slice_eq:
  "i + n \<le> length bs \<Longrightarrow> i + n < 2 ^ 64 \<Longrightarrow> take_slice bs i n c = Inr (take n (drop i bs))"
  by (simp add: take_slice_Ok_iff)

lemma take_slice_Truncated:
  "length bs < i + n \<Longrightarrow> i + n < 2 ^ 64 \<Longrightarrow> take_slice bs i n c = Inl (Truncated c)"
  by (simp add: take_slice_def usize_checked_add_def byte_get_def)

lemma read_u16_Ok_iff:
  "read_u16_le bs i c = Inr v \<longleftrightarrow>
     i + 2 < 2 ^ 64 \<and> i + 2 \<le> length bs \<and> v = le_value (take 2 (drop i bs))"
  by (auto simp: read_u16_le_def result_simps take_slice_Ok_iff)

lemma read_u32_Ok_iff:
  "read_u32_le bs i c = Inr v \<longleftrightarrow>
     i + 4 < 2 ^ 64 \<and> i + 4 \<le> length bs \<and> v = le_value (take 4 (drop i bs))"
  by (auto simp: read_u32_le_def result_simps take_slice_Ok_iff)

lemma read_u64_Ok_iff:
  "read_u64_le bs i c = Inr v \<longleftrightarrow>
     i + 8 < 2 ^ 64 \<and> i + 8 \<le> length bs \<and> v = le_value (take 8 (drop i bs))"
  by (auto simp: read_u64_le_def result_simps take_slice_Ok_iff)

text \<open>Reading inside a block of the file is reading the block: the field parsers of the in-memory
  reader, which address the whole file, agree with those of the source and stream readers, which
  address a copied header.\<close>

lemma take_slice_block:
  assumes "h = take n (drop i bs)" and "i + n \<le> length bs" and "j + k \<le> n" and "length bs < 2 ^ 64"
  shows "take_slice bs (i + j) k c = take_slice h j k c"
proof -
  have "length h = n" using assms(1,2) by simp
  then have "take k (drop j h) = take k (drop (i + j) bs)"
    using assms(1,3) take_drop_within [of n i bs h j k] by simp
  then show ?thesis
    using assms \<open>length h = n\<close> by (simp add: take_slice_eq)
qed

lemma take_slice_block_0:
  "h = take n (drop i bs) \<Longrightarrow> i + n \<le> length bs \<Longrightarrow> k \<le> n \<Longrightarrow> length bs < 2 ^ 64 \<Longrightarrow>
     take_slice bs i k c = take_slice h 0 k c"
  using take_slice_block [of h n i bs 0 k c] by simp

lemma read_block:
  assumes "h = take n (drop i bs)" and "i + n \<le> length bs" and "length bs < 2 ^ 64"
  shows "j + 2 \<le> n \<Longrightarrow> read_u16_le bs (i + j) c = read_u16_le h j c"
    and "j + 4 \<le> n \<Longrightarrow> read_u32_le bs (i + j) c = read_u32_le h j c"
    and "j + 8 \<le> n \<Longrightarrow> read_u64_le bs (i + j) c = read_u64_le h j c"
  using take_slice_block [OF assms(1,2) _ assms(3)]
  by (simp_all add: read_u16_le_def read_u32_le_def read_u64_le_def)

text \<open>Reading back what was pushed, with anything before and after it.\<close>

lemma read_pushed:
  assumes "length xs = i" and "i + 8 < 2 ^ 64"
  shows "read_u16_le (xs @ le_image 2 v @ ys) i c = Inr v"
    and "read_u32_le (xs @ le_image 4 w @ ys) i c = Inr w"
    and "read_u64_le (xs @ le_image 8 u @ ys) i c = Inr u"
  using assms by (simp_all add: read_u16_Ok_iff read_u32_Ok_iff read_u64_Ok_iff wire_simps)

lemma checked_range_Ok_iff:
  "checked_range off len ub c = Inr (s, e) \<longleftrightarrow>
     s = unat off \<and> e = unat off + unat len \<and> e \<le> ub \<and> e < 2 ^ 64"
proof
  assume "checked_range off len ub c = Inr (s, e)"
  then obtain w where w: "checked_add off len = Some w" "s = unat off" "e = unat w" "e \<le> ub"
    by (auto simp: checked_range_def result_simps split: if_splits)
  then show "s = unat off \<and> e = unat off + unat len \<and> e \<le> ub \<and> e < 2 ^ 64"
    using unat_lt2p [of w] by (simp add: checked_add_Some_iff)
next
  assume *: "s = unat off \<and> e = unat off + unat len \<and> e \<le> ub \<and> e < 2 ^ 64"
  then have "checked_add off len = Some (off + len)" by (simp add: checked_add_def)
  moreover from * have "unat (off + len) = e" by (simp add: unat_add_no_overflow)
  ultimately show "checked_range off len ub c = Inr (s, e)"
    using * by (simp add: checked_range_def)
qed

end
