(* ===== verification/Ucof_Cbor.thy ===== *)
theory Ucof_Cbor
  imports Ucof_Error
begin

text \<open>
  \<open>ucof-core/src/cbor.rs\<close>: the restricted deterministic CBOR subset of manifests and directories.
  The encoder threads the output vector, the decoder threads its offset and its item counter; the
  byte slice and the limits of the decoder are fixed arguments. A \<open>String\<close> is its UTF-8 bytes.
\<close>

section \<open>Values and key order\<close>

datatype cbor =
    Unsigned u64
  | Bytes bytes
  | Text bytes
  | Array "cbor list"
  | Map "(cbor \<times> cbor) list"
  | Bool bool
  | Null

datatype ordering = Less | Equal | Greater

definition compare_key_bytes :: "bytes \<Rightarrow> bytes \<Rightarrow> ordering" where
  "compare_key_bytes left right =
     (if length left < length right then Less
      else if length right < length left then Greater
      else if left < right then Less
      else if left = right then Equal
      else Greater)"

text \<open>The order that \<open>compare_key_bytes\<close> decides; \<open>sort_by\<close> is a stable sort along it.\<close>

definition key_order :: "bytes \<Rightarrow> nat \<times> bytes" where
  "key_order k = (length k, k)"

fun strictly_ordered :: "bytes list \<Rightarrow> bool" where
  "strictly_ordered [] = True"
| "strictly_ordered [k] = True"
| "strictly_ordered (k # l # ks) = (compare_key_bytes k l = Less \<and> strictly_ordered (l # ks))"

section \<open>Encoder\<close>

definition encode_head :: "u8 \<Rightarrow> u64 \<Rightarrow> bytes \<Rightarrow> bytes" where
  "encode_head major argument output =
     (let prefix = push_bit 5 major in
      if argument \<le> 23 then output @ [prefix OR ucast argument]
      else if argument \<le> 0xff then output @ [prefix OR 24] @ [ucast argument]
      else if argument \<le> 0xffff then output @ [prefix OR 25] @ be_image 2 (ucast argument :: u16)
      else if argument \<le> 0xffffffff then output @ [prefix OR 26] @ be_image 4 (ucast argument :: u32)
      else output @ [prefix OR 27] @ be_image 8 argument)"

function (sequential) encode_into :: "cbor \<Rightarrow> bytes \<Rightarrow> bytes result"
  and encode_items :: "cbor list \<Rightarrow> bytes \<Rightarrow> bytes result"
  and encode_pairs :: "(cbor \<times> cbor) list \<Rightarrow> (bytes \<times> bytes) list result" where
  "encode_into (Unsigned v) output = Ok (encode_head 0 v output)"
| "encode_into (Bytes bs) output =
     and_then (ok_or (InvalidLength ''CBOR byte string'') (u64_try_from (length bs))) (\<lambda>n.
     Ok (encode_head 2 n output @ bs))"
| "encode_into (Text t) output =
     and_then (ok_or (InvalidLength ''CBOR text string'') (u64_try_from (length t))) (\<lambda>n.
     Ok (encode_head 3 n output @ t))"
| "encode_into (Array vs) output =
     and_then (ok_or (InvalidLength ''CBOR array'') (u64_try_from (length vs))) (\<lambda>n.
     encode_items vs (encode_head 4 n output))"
| "encode_into (Map es) output =
     and_then (encode_pairs es) (\<lambda>encoded.
     let encoded = sort_key (\<lambda>p. key_order (fst p)) encoded in
     if \<not> strictly_ordered (map fst encoded) then Err (NonCanonicalMetadata ''duplicate map key'')
     else
     and_then (ok_or (InvalidLength ''CBOR map'') (u64_try_from (length encoded))) (\<lambda>n.
     Ok (encode_head 5 n output @ concat (map (\<lambda>p. fst p @ snd p) encoded))))"
| "encode_into (Bool False) output = Ok (output @ [0xf4])"
| "encode_into (Bool True) output = Ok (output @ [0xf5])"
| "encode_into Null output = Ok (output @ [0xf6])"
| "encode_items [] output = Ok output"
| "encode_items (v # vs) output = and_then (encode_into v output) (\<lambda>output. encode_items vs output)"
| "encode_pairs [] = Ok []"
| "encode_pairs ((k, v) # es) =
     and_then (encode_into k []) (\<lambda>key.
     and_then (encode_into v []) (\<lambda>val.
     and_then (encode_pairs es) (\<lambda>rest. Ok ((key, val) # rest))))"
  by pat_completeness auto
termination
  by (relation "measure (\<lambda>x. case x of
        Inl (v, _) \<Rightarrow> size v
      | Inr (Inl (vs, _)) \<Rightarrow> size_list size vs
      | Inr (Inr es) \<Rightarrow> size_list (size_prod size size) es)") auto

definition encode_canonical :: "cbor \<Rightarrow> bytes result" where
  "encode_canonical v = encode_into v []"

section \<open>Decoder\<close>

text \<open>\<open>std::str::from_utf8\<close>: the well-formed byte sequences of the Unicode standard.\<close>

definition in_range :: "byte \<Rightarrow> byte \<Rightarrow> byte \<Rightarrow> bool" where
  "in_range lo hi b \<longleftrightarrow> lo \<le> b \<and> b \<le> hi"

abbreviation continuation :: "byte \<Rightarrow> bool" where
  "continuation \<equiv> in_range 0x80 0xbf"

fun valid_utf8 :: "bytes \<Rightarrow> bool" where
  "valid_utf8 [] = True"
| "valid_utf8 (b # bs) =
     (if b < 0x80 then valid_utf8 bs
      else if in_range 0xc2 0xdf b then
        (case bs of c # r \<Rightarrow> continuation c \<and> valid_utf8 r | _ \<Rightarrow> False)
      else if in_range 0xe0 0xef b then
        (case bs of
           c # d # r \<Rightarrow>
             (if b = 0xe0 then in_range 0xa0 0xbf c
              else if b = 0xed then in_range 0x80 0x9f c
              else continuation c) \<and> continuation d \<and> valid_utf8 r
         | _ \<Rightarrow> False)
      else if in_range 0xf0 0xf4 b then
        (case bs of
           c # d # e # r \<Rightarrow>
             (if b = 0xf0 then in_range 0x90 0xbf c
              else if b = 0xf4 then in_range 0x80 0x8f c
              else continuation c) \<and> continuation d \<and> continuation e \<and> valid_utf8 r
         | _ \<Rightarrow> False)
      else False)"

record decoder =
  dec_offset :: usize
  dec_items :: u64

definition dec_byte :: "bytes \<Rightarrow> string \<Rightarrow> decoder \<Rightarrow> (byte \<times> decoder) result" where
  "dec_byte bs context d =
     (if dec_offset d < length bs
      then Ok (bs ! dec_offset d, d\<lparr>dec_offset := dec_offset d + 1\<rparr>)
      else Err (Truncated context))"

definition dec_fixed :: "usize \<Rightarrow> bytes \<Rightarrow> string \<Rightarrow> decoder \<Rightarrow> (bytes \<times> decoder) result" where
  "dec_fixed n bs context d =
     and_then (ok_or (RangeOutOfBounds context) (usize_checked_add (dec_offset d) n)) (\<lambda>stop.
     and_then (ok_or (Truncated context) (byte_get bs (dec_offset d) stop)) (\<lambda>raw.
     Ok (raw, d\<lparr>dec_offset := stop\<rparr>)))"

definition dec_bytes :: "u64 \<Rightarrow> bytes \<Rightarrow> string \<Rightarrow> decoder \<Rightarrow> (bytes \<times> decoder) result" where
  "dec_bytes len bs context d =
     and_then (ok_or (RangeOutOfBounds context) (usize_try_from len)) (\<lambda>len.
     and_then (ok_or (RangeOutOfBounds context) (usize_checked_add (dec_offset d) len)) (\<lambda>stop.
     and_then (ok_or (Truncated context) (byte_get bs (dec_offset d) stop)) (\<lambda>raw.
     Ok (raw, d\<lparr>dec_offset := stop\<rparr>))))"

definition dec_argument :: "bytes \<Rightarrow> u8 \<Rightarrow> decoder \<Rightarrow> (u64 \<times> decoder) result" where
  "dec_argument bs additional d =
     (if additional \<le> 23 then Ok (ucast additional, d)
      else if additional = 24 then
        and_then (dec_byte bs ''CBOR argument'' d) (\<lambda>(b, d).
        let val = ucast b in
        if val < 24 then Err (NonCanonicalMetadata ''non-shortest CBOR argument'') else Ok (val, d))
      else if additional = 25 then
        and_then (dec_fixed 2 bs ''CBOR argument'' d) (\<lambda>(raw, d).
        let val = ucast (be_value raw :: u16) in
        if val \<le> 0xff then Err (NonCanonicalMetadata ''non-shortest CBOR argument'') else Ok (val, d))
      else if additional = 26 then
        and_then (dec_fixed 4 bs ''CBOR argument'' d) (\<lambda>(raw, d).
        let val = ucast (be_value raw :: u32) in
        if val \<le> 0xffff then Err (NonCanonicalMetadata ''non-shortest CBOR argument'') else Ok (val, d))
      else if additional = 27 then
        and_then (dec_fixed 8 bs ''CBOR argument'' d) (\<lambda>(raw, d).
        let val = be_value raw in
        if val \<le> 0xffffffff then Err (NonCanonicalMetadata ''non-shortest CBOR argument'') else Ok (val, d))
      else if additional = 31 then
        Err (NonCanonicalMetadata ''indefinite-length CBOR is not permitted'')
      else Err (NonCanonicalMetadata ''reserved CBOR argument''))"

definition check_container_length :: "limits \<Rightarrow> u64 \<Rightarrow> unit result" where
  "check_container_length lim len =
     (if len > max_container_items lim then Err (LimitExceeded ''CBOR container items'') else Ok ())"

function (sequential) dec_value :: "bytes \<Rightarrow> limits \<Rightarrow> usize \<Rightarrow> decoder \<Rightarrow> (cbor \<times> decoder) result"
  and dec_values :: "bytes \<Rightarrow> limits \<Rightarrow> usize \<Rightarrow> nat \<Rightarrow> decoder \<Rightarrow> (cbor list \<times> decoder) result"
  and dec_entries :: "bytes \<Rightarrow> limits \<Rightarrow> usize \<Rightarrow> nat \<Rightarrow> bytes option \<Rightarrow> decoder
        \<Rightarrow> ((cbor \<times> cbor) list \<times> decoder) result" where
  "dec_value bs lim depth d =
     (if depth > max_metadata_depth lim then Err (LimitExceeded ''metadata depth'')
      else
      and_then (ok_or (LimitExceeded ''metadata item count'') (checked_add (dec_items d) 1)) (\<lambda>items.
      if items > max_container_items lim then Err (LimitExceeded ''metadata item count'')
      else
      and_then (dec_byte bs ''CBOR initial byte'' (d\<lparr>dec_items := items\<rparr>)) (\<lambda>(initial, d).
      let major = drop_bit 5 initial; additional = initial AND 0x1f in
      if major = 0 then
        and_then (dec_argument bs additional d) (\<lambda>(v, d). Ok (Unsigned v, d))
      else if major = 2 then
        and_then (dec_argument bs additional d) (\<lambda>(len, d).
        if len > max_byte_string_bytes lim then Err (LimitExceeded ''CBOR byte-string bytes'')
        else and_then (dec_bytes len bs ''CBOR byte string'' d) (\<lambda>(raw, d). Ok (Bytes raw, d)))
      else if major = 3 then
        and_then (dec_argument bs additional d) (\<lambda>(len, d).
        if len > max_text_bytes lim then Err (LimitExceeded ''CBOR text bytes'')
        else and_then (dec_bytes len bs ''CBOR text string'' d) (\<lambda>(raw, d).
        if \<not> valid_utf8 raw then Err (NonCanonicalMetadata ''invalid UTF-8 text'')
        else Ok (Text raw, d)))
      else if major = 4 then
        and_then (dec_argument bs additional d) (\<lambda>(len, d).
        and_then (check_container_length lim len) (\<lambda>_.
        and_then (ok_or (LimitExceeded ''CBOR array items'') (usize_try_from len)) (\<lambda>capacity.
        and_then (dec_values bs lim (depth + 1) (unat len) d) (\<lambda>(vs, d).
        Ok (Array vs, d)))))
      else if major = 5 then
        and_then (dec_argument bs additional d) (\<lambda>(len, d).
        and_then (check_container_length lim len) (\<lambda>_.
        and_then (ok_or (LimitExceeded ''CBOR map entries'') (usize_try_from len)) (\<lambda>capacity.
        and_then (dec_entries bs lim (depth + 1) (unat len) None d) (\<lambda>(es, d).
        Ok (Map es, d)))))
      else if major = 7 then
        (if additional = 20 then Ok (Bool False, d)
         else if additional = 21 then Ok (Bool True, d)
         else if additional = 22 then Ok (Null, d)
         else Err (NonCanonicalMetadata ''unsupported CBOR simple or floating-point value''))
      else Err (NonCanonicalMetadata ''unsupported CBOR major type''))))"
| "dec_values bs lim depth 0 d = Ok ([], d)"
| "dec_values bs lim depth (Suc n) d =
     and_then (dec_value bs lim depth d) (\<lambda>(v, d).
     and_then (dec_values bs lim depth n d) (\<lambda>(vs, d).
     Ok (v # vs, d)))"
| "dec_entries bs lim depth 0 previous d = Ok ([], d)"
| "dec_entries bs lim depth (Suc n) previous d =
     and_then (dec_value bs lim depth d) (\<lambda>(key, d).
     and_then (encode_canonical key) (\<lambda>key_bytes.
     if (case previous of Some p \<Rightarrow> compare_key_bytes p key_bytes \<noteq> Less | None \<Rightarrow> False)
     then Err (NonCanonicalMetadata ''map keys are duplicate or out of order'')
     else
     and_then (dec_value bs lim depth d) (\<lambda>(v, d).
     and_then (dec_entries bs lim depth n (Some key_bytes) d) (\<lambda>(es, d).
     Ok ((key, v) # es, d)))))"
  by pat_completeness auto
termination
  by (relation "measures [
        \<lambda>x. case x of
            Inl (bs, lim, depth, d) \<Rightarrow> max_metadata_depth lim + 1 - depth
          | Inr (Inl (bs, lim, depth, n, d)) \<Rightarrow> max_metadata_depth lim + 1 - depth
          | Inr (Inr (bs, lim, depth, n, p, d)) \<Rightarrow> max_metadata_depth lim + 1 - depth,
        \<lambda>x. case x of
            Inl _ \<Rightarrow> 0
          | Inr (Inl (bs, lim, depth, n, d)) \<Rightarrow> Suc n
          | Inr (Inr (bs, lim, depth, n, p, d)) \<Rightarrow> Suc n]") auto

definition decode_canonical :: "bytes \<Rightarrow> limits \<Rightarrow> cbor result" where
  "decode_canonical bs lim =
     and_then (ok_or (LimitExceeded ''metadata bytes'') (u64_try_from (length bs))) (\<lambda>n.
     if n > max_metadata_bytes lim then Err (LimitExceeded ''metadata bytes'')
     else
     and_then (dec_value bs lim 0 \<lparr>dec_offset = 0, dec_items = 0\<rparr>) (\<lambda>(v, d).
     if dec_offset d \<noteq> length bs then Err (NonCanonicalMetadata ''trailing CBOR bytes'')
     else Ok v))"

declare dec_value.simps [simp del]

end
