(* ===== verification/Ucof_Model.thy ===== *)
theory Ucof_Model
  imports Ucof_Cbor
begin

text \<open>
  \<open>ucof-core/src/model.rs\<close>: record kinds, directory entries and manifests with their CBOR images
  and shape checks. A \<open>BTreeSet\<close> is a set.
\<close>

datatype record_kind = Opaque | Manifest | Directory

definition record_kind_try_from :: "u16 \<Rightarrow> record_kind result" where
  "record_kind_try_from v =
     (if v = 1 then Ok Opaque
      else if v = 2 then Ok Manifest
      else if v = 3 then Ok Directory
      else Err (UnsupportedRecordKind v))"

fun u16_from_kind :: "record_kind \<Rightarrow> u16" where
  "u16_from_kind Opaque = 1"
| "u16_from_kind Manifest = 2"
| "u16_from_kind Directory = 3"

record directory_entry =
  de_id :: u64
  de_kind :: record_kind
  de_offset :: u64
  de_stored_len :: u64
  de_logical_len :: u64

definition str_bytes :: "string \<Rightarrow> bytes" where
  "str_bytes s = map of_char s"

definition text_value :: "string \<Rightarrow> cbor" where
  "text_value s = Text (str_bytes s)"

definition entry_to_cbor :: "directory_entry \<Rightarrow> cbor" where
  "entry_to_cbor e = Map [
     (text_value ''id'', Unsigned (de_id e)),
     (text_value ''kind'', Unsigned (ucast (u16_from_kind (de_kind e)))),
     (text_value ''offset'', Unsigned (de_offset e)),
     (text_value ''stored_len'', Unsigned (de_stored_len e)),
     (text_value ''logical_len'', Unsigned (de_logical_len e))]"

record manifest =
  roots :: "u64 list"
  required_capabilities :: "u64 list"
  optional_capabilities :: "u64 list"

definition manifest_new :: "u64 list \<Rightarrow> manifest" where
  "manifest_new rs = \<lparr>roots = rs, required_capabilities = [], optional_capabilities = []\<rparr>"

fun unique_loop :: "u64 set \<Rightarrow> u64 list \<Rightarrow> string \<Rightarrow> unit result" where
  "unique_loop seen [] context = Ok ()"
| "unique_loop seen (v # vs) context =
     (if v \<in> seen then Err (InvalidMetadataSchema context)
      else unique_loop (insert v seen) vs context)"

definition unique :: "u64 list \<Rightarrow> string \<Rightarrow> unit result" where
  "unique vs context = unique_loop {} vs context"

definition unique_nonzero :: "u64 list \<Rightarrow> string \<Rightarrow> unit result" where
  "unique_nonzero vs context =
     (if 0 \<in> set vs then Err (InvalidMetadataSchema context) else unique vs context)"

definition validate_shape :: "manifest \<Rightarrow> unit result" where
  "validate_shape m =
     and_then (unique_nonzero (roots m) ''manifest roots'') (\<lambda>_.
     and_then (unique (required_capabilities m) ''required capabilities'') (\<lambda>_.
     and_then (unique (optional_capabilities m) ''optional capabilities'') (\<lambda>_.
     Ok ())))"

definition manifest_to_cbor :: "manifest \<Rightarrow> cbor" where
  "manifest_to_cbor m = Map [
     (text_value ''roots'', Array (map Unsigned (roots m))),
     (text_value ''required'', Array (map Unsigned (required_capabilities m))),
     (text_value ''optional'', Array (map Unsigned (optional_capabilities m)))]"

section \<open>Kinds and shapes\<close>

lemma record_kind_round_trip [simp]: "record_kind_try_from (u16_from_kind k) = Inr k"
  by (cases k) (simp_all add: record_kind_try_from_def)

lemma record_kind_Ok_iff: "record_kind_try_from v = Inr k \<longleftrightarrow> v = u16_from_kind k"
  by (cases k) (auto simp: record_kind_try_from_def split: if_splits)

lemma unique_loop_Ok_iff: "unique_loop S vs c = Inr u \<longleftrightarrow> distinct vs \<and> set vs \<inter> S = {}"
  by (induction vs arbitrary: S) auto

lemma unique_Ok_iff [result_simps]: "unique vs c = Inr u \<longleftrightarrow> distinct vs"
  by (simp add: unique_def unique_loop_Ok_iff)

lemma unique_nonzero_Ok_iff [result_simps]: "unique_nonzero vs c = Inr u \<longleftrightarrow> distinct vs \<and> 0 \<notin> set vs"
  by (auto simp: unique_nonzero_def result_simps)

lemma validate_shape_Ok_iff:
  "validate_shape m = Inr u \<longleftrightarrow>
     distinct (roots m) \<and> 0 \<notin> set (roots m) \<and>
     distinct (required_capabilities m) \<and> distinct (optional_capabilities m)"
  by (auto simp: validate_shape_def result_simps)

end
