(* ===== verification/Ucof_Reader.thy ===== *)
theory Ucof_Reader
  imports Ucof_Format Ucof_Model
begin

text \<open>
  \<open>ucof-core/src/reader.rs\<close>: strict validation of a whole file in memory. The SHA-256 function of
  the \<open>sha2\<close> crate is the parameter \<open>sha\<close>. \<open>BTreeMap\<close> is a map, \<open>BTreeSet\<close> a set; a
  \<open>Range<usize>\<close> is the pair of its bounds.
\<close>

section \<open>State\<close>

record record_info =
  ri_kind :: record_kind
  ri_object_id :: u64
  ri_offset :: u64
  ri_stored_len :: u64
  ri_logical_len :: u64
  ri_payload_range :: "usize \<times> usize"

record validated_file =
  vf_bytes :: bytes
  vf_epoch :: u32
  vf_manifest_id :: u64
  vf_manifest :: manifest
  vf_records :: "record_info list"
  vf_by_id :: "u64 \<rightharpoonup> usize"

record footer =
  ft_directory_offset :: u64
  ft_directory_len :: u64
  ft_manifest_id :: u64
  ft_record_count :: u64
  ft_digest :: bytes

section \<open>Header, footer and record framing\<close>

definition validate_header :: "bytes \<Rightarrow> unit result" where
  "validate_header bs =
     and_then (take_slice bs 0 (length FILE_MAGIC) ''file magic'') (\<lambda>magic.
     if magic \<noteq> FILE_MAGIC then Err (InvalidMagic ''file'') else
     and_then (read_u32_le bs 8 ''epoch'') (\<lambda>epoch.
     if epoch \<noteq> EXPERIMENTAL_EPOCH then Err (UnsupportedEpoch epoch) else
     and_then (read_u32_le bs 12 ''file flags'') (\<lambda>flags.
     if flags \<noteq> 0 then Err (UnsupportedFlags ''file'' (ucast flags)) else
     and_then (read_u32_le bs 16 ''file header length'') (\<lambda>len.
     if len \<noteq> of_nat HEADER_LEN then Err (InvalidLength ''file header'') else
     and_then (take_slice bs 20 12 ''file reserved bytes'') (\<lambda>reserved.
     if list_ex (\<lambda>b. b \<noteq> 0) reserved then Err (InvalidReserved ''file header'')
     else Ok ())))))"

definition parse_footer :: "bytes \<Rightarrow> usize \<Rightarrow> footer result" where
  "parse_footer bs offset =
     and_then (take_slice bs offset (length FOOTER_MAGIC) ''footer magic'') (\<lambda>magic.
     if magic \<noteq> FOOTER_MAGIC then Err (InvalidMagic ''footer'') else
     and_then (read_u32_le bs (offset + 8) ''footer length'') (\<lambda>len.
     if len \<noteq> of_nat FOOTER_LEN then Err (InvalidLength ''footer'') else
     and_then (read_u32_le bs (offset + 12) ''footer flags'') (\<lambda>flags.
     if flags \<noteq> 0 then Err (UnsupportedFlags ''footer'' (ucast flags)) else
     and_then (take_slice bs (offset + 48) 32 ''footer digest'') (\<lambda>digest.
     and_then (read_u64_le bs (offset + 16) ''directory offset'') (\<lambda>directory_offset.
     and_then (read_u64_le bs (offset + 24) ''directory length'') (\<lambda>directory_len.
     and_then (read_u64_le bs (offset + 32) ''manifest identifier'') (\<lambda>manifest_id.
     and_then (read_u64_le bs (offset + 40) ''record count'') (\<lambda>record_count.
     Ok \<lparr>ft_directory_offset = directory_offset, ft_directory_len = directory_len,
         ft_manifest_id = manifest_id, ft_record_count = record_count, ft_digest = digest\<rparr>))))))))"

text \<open>One iteration of the loop of \<open>scan_records\<close>: the record at \<open>offset\<close> and the identifiers seen.\<close>

definition scan_record :: "bytes \<Rightarrow> usize \<Rightarrow> limits \<Rightarrow> usize \<Rightarrow> usize \<Rightarrow> u64 set
    \<Rightarrow> (record_info \<times> u64 set) result" where
  "scan_record bs footer_offset lim count offset ids =
     and_then (ok_or (LimitExceeded ''record count'') (u64_try_from count)) (\<lambda>n.
     if n \<ge> max_records lim then Err (LimitExceeded ''record count'') else
     if footer_offset - offset < RECORD_HEADER_LEN then Err (Truncated ''record header'') else
     and_then (take_slice bs offset (length RECORD_MAGIC) ''record magic'') (\<lambda>magic.
     if magic \<noteq> RECORD_MAGIC then Err (InvalidMagic ''record'') else
     and_then (read_u16_le bs (offset + 4) ''record kind'') (\<lambda>raw_kind.
     and_then (record_kind_try_from raw_kind) (\<lambda>kind.
     and_then (read_u16_le bs (offset + 6) ''record flags'') (\<lambda>flags.
     if flags \<noteq> 0 then Err (UnsupportedFlags ''record'' (ucast flags)) else
     and_then (read_u32_le bs (offset + 8) ''record header length'') (\<lambda>len.
     if len \<noteq> of_nat RECORD_HEADER_LEN then Err (InvalidLength ''record header'') else
     and_then (read_u64_le bs (offset + 12) ''stored length'') (\<lambda>stored_len.
     and_then (read_u64_le bs (offset + 20) ''logical length'') (\<lambda>logical_len.
     if stored_len \<noteq> logical_len then Err (InvalidLength ''transformed logical length'') else
     if stored_len > max_payload_bytes lim then Err (LimitExceeded ''record payload bytes'') else
     and_then (read_u64_le bs (offset + 28) ''object identifier'') (\<lambda>object_id.
     and_then (read_u32_le bs (offset + 36) ''record reserved'') (\<lambda>reserved.
     if reserved \<noteq> 0 then Err (InvalidReserved ''record header'') else
     and_then
       (if kind = Directory then
          (if object_id \<noteq> 0 then Err (InvalidRecordOrder ''directory identifier must be zero'') else Ok ids)
        else if object_id = 0 then Err (InvalidRecordOrder ''non-directory identifier is zero'')
        else if object_id \<in> ids then Err (DuplicateObjectId object_id)
        else Ok (insert object_id ids)) (\<lambda>ids.
     and_then (ok_or (RangeOutOfBounds ''record payload'') (usize_checked_add offset RECORD_HEADER_LEN)) (\<lambda>payload_offset.
     and_then (ok_or (RangeOutOfBounds ''record payload'') (u64_try_from payload_offset)) (\<lambda>payload_start.
     and_then (checked_range payload_start stored_len footer_offset ''record payload'') (\<lambda>payload_range.
     and_then (ok_or (RangeOutOfBounds ''record offset'') (u64_try_from offset)) (\<lambda>record_offset.
     Ok (\<lparr>ri_kind = kind, ri_object_id = object_id, ri_offset = record_offset, ri_stored_len = stored_len,
          ri_logical_len = logical_len, ri_payload_range = payload_range\<rparr>, ids))))))))))))))))"

lemma scan_record_range:
  assumes "scan_record bs fo lim n i ids = Inr (r, ids')"
  shows "fst (ri_payload_range r) = i + 40 \<and>
    snd (ri_payload_range r) = i + 40 + unat (ri_stored_len r) \<and>
    snd (ri_payload_range r) \<le> fo \<and> i + 40 < 2 ^ 64"
proof -
  from assms obtain p w rng where
    "usize_checked_add i RECORD_HEADER_LEN = Some p" "u64_try_from p = Some w"
    "checked_range w (ri_stored_len r) fo ''record payload'' = Inr rng" "ri_payload_range r = rng"
    by (auto simp: scan_record_def result_simps split: if_splits)
  then show ?thesis
    by (cases rng) (auto simp: checked_range_Ok_iff u64_try_from_Some_iff usize_checked_add_def split: if_splits)
qed

function scan_loop :: "bytes \<Rightarrow> usize \<Rightarrow> limits \<Rightarrow> usize \<Rightarrow> record_info list \<Rightarrow> u64 set
    \<Rightarrow> record_info list result" where
  "scan_loop bs footer_offset lim offset records ids =
     (if offset < footer_offset then
        and_then (scan_record bs footer_offset lim (length records) offset ids) (\<lambda>(record, ids).
        scan_loop bs footer_offset lim (snd (ri_payload_range record)) (records @ [record]) ids)
      else if offset \<noteq> footer_offset then Err (InvalidRecordOrder ''records do not end at footer'')
      else Ok records)"
  by pat_completeness auto
termination
proof (relation "measure (\<lambda>(bs, fo, lim, offset, records, ids). fo - offset)")
qed (auto dest!: scan_record_range)

declare scan_loop.simps [simp del]

definition scan_records :: "bytes \<Rightarrow> usize \<Rightarrow> limits \<Rightarrow> record_info list result" where
  "scan_records bs footer_offset lim = scan_loop bs footer_offset lim HEADER_LEN [] {}"

section \<open>Metadata schemas\<close>

text \<open>The loop of \<open>exact_map\<close>, then the whole function: a CBOR map with exactly the expected text
  keys, as a map from the bytes of the key.\<close>

fun exact_map_loop :: "(cbor \<times> cbor) list \<Rightarrow> string list \<Rightarrow> string \<Rightarrow> (bytes \<rightharpoonup> cbor)
    \<Rightarrow> (bytes \<rightharpoonup> cbor) result" where
  "exact_map_loop [] expected context m = Ok m"
| "exact_map_loop ((k, v) # entries) expected context m =
     (case k of
        Text key \<Rightarrow>
          if key \<notin> set (map str_bytes expected) \<or> m key \<noteq> None then Err (InvalidMetadataSchema context)
          else exact_map_loop entries expected context (m(key \<mapsto> v))
      | _ \<Rightarrow> Err (InvalidMetadataSchema ''metadata map key must be text''))"

definition exact_map :: "cbor \<Rightarrow> string list \<Rightarrow> string \<Rightarrow> (bytes \<rightharpoonup> cbor) result" where
  "exact_map v expected context =
     (case v of
        Map entries \<Rightarrow>
          if length entries \<noteq> length expected then Err (InvalidMetadataSchema context)
          else exact_map_loop entries expected context Map.empty
      | _ \<Rightarrow> Err (InvalidMetadataSchema context))"

fun unsigned :: "cbor option \<Rightarrow> string \<Rightarrow> u64 result" where
  "unsigned (Some (Unsigned n)) context = Ok n"
| "unsigned _ context = Err (InvalidMetadataSchema context)"

fun unsigned_array :: "cbor option \<Rightarrow> string \<Rightarrow> u64 list result" where
  "unsigned_array (Some (Array vs)) context = try_map (\<lambda>v. unsigned (Some v) context) vs"
| "unsigned_array _ context = Err (InvalidMetadataSchema context)"

definition parse_directory_entry :: "cbor \<Rightarrow> directory_entry result" where
  "parse_directory_entry v =
     and_then (exact_map v [''id'', ''kind'', ''offset'', ''stored_len'', ''logical_len''] ''directory entry'') (\<lambda>m.
     and_then (unsigned (m (str_bytes ''kind'')) ''directory kind'') (\<lambda>raw_kind.
     and_then (ok_or (InvalidMetadataSchema ''directory kind range'') (u16_try_from raw_kind)) (\<lambda>raw_kind.
     and_then (unsigned (m (str_bytes ''id'')) ''directory id'') (\<lambda>id.
     and_then (record_kind_try_from raw_kind) (\<lambda>kind.
     and_then (unsigned (m (str_bytes ''offset'')) ''directory offset'') (\<lambda>offset.
     and_then (unsigned (m (str_bytes ''stored_len'')) ''directory stored length'') (\<lambda>stored_len.
     and_then (unsigned (m (str_bytes ''logical_len'')) ''directory logical length'') (\<lambda>logical_len.
     Ok \<lparr>de_id = id, de_kind = kind, de_offset = offset, de_stored_len = stored_len,
         de_logical_len = logical_len\<rparr>))))))))"

definition parse_directory :: "cbor \<Rightarrow> directory_entry list result" where
  "parse_directory v =
     and_then (exact_map v [''entries''] ''directory'') (\<lambda>m.
     and_then (ok_or (InvalidMetadataSchema ''directory entries'') (m (str_bytes ''entries''))) (\<lambda>entries_value.
     case entries_value of
       Array entries \<Rightarrow> try_map parse_directory_entry entries
     | _ \<Rightarrow> Err (InvalidMetadataSchema ''directory entries must be an array'')))"

definition entry_matches :: "record_info \<Rightarrow> directory_entry \<Rightarrow> bool" where
  "entry_matches r e \<longleftrightarrow> \<not> (ri_object_id r \<noteq> de_id e \<or> ri_kind r \<noteq> de_kind e \<or> ri_offset r \<noteq> de_offset e
     \<or> ri_stored_len r \<noteq> de_stored_len e \<or> ri_logical_len r \<noteq> de_logical_len e)"

definition compare_directory :: "record_info list \<Rightarrow> directory_entry list \<Rightarrow> unit result" where
  "compare_directory records entries =
     (if length records \<noteq> length entries then Err (DirectoryMismatch ''entry count'')
      else if list_ex (\<lambda>(r, e). \<not> entry_matches r e) (zip records entries)
      then Err (DirectoryMismatch ''entry does not match framing'')
      else Ok ())"

definition parse_manifest :: "cbor \<Rightarrow> manifest result" where
  "parse_manifest v =
     and_then (exact_map v [''roots'', ''required'', ''optional''] ''manifest'') (\<lambda>m.
     and_then (unsigned_array (m (str_bytes ''roots'')) ''manifest roots'') (\<lambda>rs.
     and_then (unsigned_array (m (str_bytes ''required'')) ''manifest required capabilities'') (\<lambda>req.
     and_then (unsigned_array (m (str_bytes ''optional'')) ''manifest optional capabilities'') (\<lambda>opt.
     let manifest = \<lparr>roots = rs, required_capabilities = req, optional_capabilities = opt\<rparr> in
     and_then (validate_shape manifest) (\<lambda>_. Ok manifest)))))"

section \<open>Whole-file validation\<close>

definition payload_of :: "bytes \<Rightarrow> record_info \<Rightarrow> bytes" where
  "payload_of bs r = take (snd (ri_payload_range r) - fst (ri_payload_range r))
     (drop (fst (ri_payload_range r)) bs)"

text \<open>\<open>Iterator::position\<close> and the loop that fills \<open>by_id\<close>.\<close>

fun position :: "('a \<Rightarrow> bool) \<Rightarrow> 'a list \<Rightarrow> usize option" where
  "position P [] = None"
| "position P (x # xs) = (if P x then Some 0 else map_option Suc (position P xs))"

fun index_records :: "usize \<Rightarrow> record_info list \<Rightarrow> (u64 \<rightharpoonup> usize) \<Rightarrow> (u64 \<rightharpoonup> usize)" where
  "index_records n [] m = m"
| "index_records n (r # rs) m =
     index_records (Suc n) rs (if ri_object_id r \<noteq> 0 then m(ri_object_id r \<mapsto> n) else m)"

definition parse :: "(bytes \<Rightarrow> bytes) \<Rightarrow> bytes \<Rightarrow> limits \<Rightarrow> validated_file result" where
  "parse sha bs lim =
     and_then (ok_or (LimitExceeded ''file bytes'') (u64_try_from (length bs))) (\<lambda>file_len.
     if file_len > max_file_bytes lim then Err (LimitExceeded ''file bytes'') else
     if length bs < HEADER_LEN + FOOTER_LEN then Err (Truncated ''file header or footer'') else
     and_then (validate_header bs) (\<lambda>_.
     let footer_offset = length bs - FOOTER_LEN in
     and_then (parse_footer bs footer_offset) (\<lambda>footer.
     and_then (checked_range (ft_directory_offset footer) (ft_directory_len footer) footer_offset ''directory'')
       (\<lambda>(directory_start, directory_stop).
     if directory_stop \<noteq> footer_offset then Err (InvalidRecordOrder ''directory must end at footer'') else
     and_then (scan_records bs footer_offset lim) (\<lambda>records.
     and_then (ok_or (InvalidLength ''record count'') (u64_try_from (length records))) (\<lambda>n.
     if n \<noteq> ft_record_count footer then Err (InvalidLength ''footer record count'') else
     if records = [] then Err (InvalidRecordOrder ''missing directory record'') else
     let directory_index = length records - 1; directory_record = records ! directory_index in
     if ri_kind directory_record \<noteq> Directory then Err (InvalidRecordOrder ''last record is not directory'') else
     if ri_object_id directory_record \<noteq> 0 then Err (InvalidRecordOrder ''directory identifier is not zero'') else
     and_then (ok_or (RangeOutOfBounds ''directory offset'') (usize_try_from (ri_offset directory_record)))
       (\<lambda>actual_directory_start.
     and_then (if actual_directory_start \<noteq> directory_start then Ok True else
       and_then (ok_or (RangeOutOfBounds ''directory length'') (usize_try_from (ft_directory_len footer)))
         (\<lambda>len. Ok (directory_stop - directory_start \<noteq> len))) (\<lambda>moved.
     if moved then Err (DirectoryMismatch ''footer location does not match framing'') else
     if sha (take footer_offset bs) \<noteq> ft_digest footer then Err DigestMismatch else
     and_then (decode_canonical (payload_of bs directory_record) lim) (\<lambda>directory_value.
     and_then (parse_directory directory_value) (\<lambda>directory_entries.
     and_then (compare_directory (take directory_index records) directory_entries) (\<lambda>_.
     and_then (ok_or (MissingManifest (ft_manifest_id footer))
       (position (\<lambda>r. ri_object_id r = ft_manifest_id footer) records)) (\<lambda>manifest_index.
     let manifest_record = records ! manifest_index in
     if ri_kind manifest_record \<noteq> Manifest then Err (MissingManifest (ft_manifest_id footer)) else
     and_then (decode_canonical (payload_of bs manifest_record) lim) (\<lambda>manifest_value.
     and_then (parse_manifest manifest_value) (\<lambda>manifest.
     let available = set (map ri_object_id (take directory_index records)) in
     if list_ex (\<lambda>root. root \<notin> available) (roots manifest)
     then Err (InvalidMetadataSchema ''manifest root does not exist'') else
     case required_capabilities manifest of
       capability # _ \<Rightarrow> Err (UnsupportedRequiredCapability capability)
     | [] \<Rightarrow>
       Ok \<lparr>vf_bytes = bs, vf_epoch = EXPERIMENTAL_EPOCH, vf_manifest_id = ft_manifest_id footer,
           vf_manifest = manifest, vf_records = records,
           vf_by_id = index_records 0 records Map.empty\<rparr>))))))))))))))"

definition vf_object :: "validated_file \<Rightarrow> u64 \<Rightarrow> bytes option" where
  "vf_object vf object_id =
     (case vf_by_id vf object_id of
        None \<Rightarrow> None
      | Some index \<Rightarrow> Some (payload_of (vf_bytes vf) (vf_records vf ! index)))"

definition vf_record :: "validated_file \<Rightarrow> u64 \<Rightarrow> record_info option" where
  "vf_record vf object_id =
     (case vf_by_id vf object_id of
        None \<Rightarrow> None
      | Some index \<Rightarrow> if index < length (vf_records vf) then Some (vf_records vf ! index) else None)"

fun show_kind :: "record_kind \<Rightarrow> string" where
  "show_kind Opaque = ''Opaque''"
| "show_kind Manifest = ''Manifest''"
| "show_kind Directory = ''Directory''"

text \<open>The derived \<open>Debug\<close> image of a vector of integers.\<close>

fun join_with :: "string \<Rightarrow> string list \<Rightarrow> string" where
  "join_with sep [] = []"
| "join_with sep [x] = x"
| "join_with sep (x # xs) = x @ sep @ join_with sep xs"

definition show_vec :: "u64 list \<Rightarrow> string" where
  "show_vec vs = ''['' @ join_with '', '' (map (show_dec \<circ> unat) vs) @ '']''"

abbreviation newline :: string where
  "newline \<equiv> [CHR 0x0A]"

definition inspect_line :: "record_info \<Rightarrow> string" where
  "inspect_line r = ''  id='' @ show_dec (unat (ri_object_id r)) @ '' kind='' @ show_kind (ri_kind r) @
     '' offset='' @ show_dec (unat (ri_offset r)) @ '' stored='' @ show_dec (unat (ri_stored_len r)) @
     '' logical='' @ show_dec (unat (ri_logical_len r)) @ newline"

definition inspect :: "validated_file \<Rightarrow> string" where
  "inspect vf = ''UCOF-EXP-0001'' @ newline @
     ''bytes: '' @ show_dec (length (vf_bytes vf)) @ newline @
     ''records: '' @ show_dec (length (vf_records vf)) @ newline @
     ''active manifest: '' @ show_dec (unat (vf_manifest_id vf)) @ newline @
     ''roots: '' @ show_vec (roots (vf_manifest vf)) @ newline @
     ''inventory:'' @ newline @ concat (map inspect_line (vf_records vf))"

end
