(* ===== verification/Ucof_Cbor_Canonical.thy ===== *)
theory Ucof_Cbor_Canonical
  imports Ucof_Cbor
begin

text \<open>
  The two directions that make the metadata encoding canonical. \<^emph>\<open>Soundness\<close>: a byte string that
  the decoder accepts is the encoding of the value it returns, so no value has two accepted
  encodings. \<^emph>\<open>Completeness\<close>: within the limits the decoder accepts every encoding and returns the
  value with its map entries in key order.
\<close>

section \<open>Key order\<close>

lemma compare_key_bytes_Less: "compare_key_bytes k l = Less \<longleftrightarrow> key_order k < key_order l"
  by (auto simp: compare_key_bytes_def key_order_def less_prod_def less_eq_prod_def split: if_splits)

lemma key_order_inject [simp]: "key_order k = key_order l \<longleftrightarrow> k = l"
  by (auto simp: key_order_def)

lemma strictly_ordered_iff:
  "strictly_ordered ks \<longleftrightarrow> sorted_wrt (\<lambda>k l. key_order k < key_order l) ks"
proof (induction ks rule: strictly_ordered.induct)
  case (3 k l ks)
  have "strictly_ordered (k # l # ks) \<longleftrightarrow>
          key_order k < key_order l \<and> sorted_wrt (\<lambda>k l. key_order k < key_order l) (l # ks)"
    using 3 by (simp add: compare_key_bytes_Less)
  also have "\<dots> \<longleftrightarrow> sorted_wrt (\<lambda>k l. key_order k < key_order l) (k # l # ks)"
    by (auto intro: less_trans)
  finally show ?case .
qed auto

lemma strictly_ordered_sorted:
  "strictly_ordered (map fst ps) \<Longrightarrow> sorted (map (\<lambda>p. key_order (fst p)) ps)"
  by (induction ps) (auto simp: strictly_ordered_iff sorted_wrt_map intro: less_imp_le)

lemma strictly_ordered_Cons:
  "strictly_ordered (k # ks) \<longleftrightarrow>
     (case ks of [] \<Rightarrow> True | l # _ \<Rightarrow> compare_key_bytes k l = Less) \<and> strictly_ordered ks"
  by (cases ks) auto

section \<open>The encoder appends\<close>

definition head_bytes :: "u8 \<Rightarrow> u64 \<Rightarrow> bytes" where
  "head_bytes m n = encode_head m n []"

lemma encode_head_append [simp]: "encode_head m n out = out @ head_bytes m n"
  by (simp add: head_bytes_def encode_head_def Let_def)

lemma encode_into_append_all:
  fixes out0 out1 :: bytes and es :: "(cbor \<times> cbor) list"
  shows "\<forall>out. encode_into v out = and_then (encode_into v []) (\<lambda>e. Ok (out @ e))"
  and "\<forall>out. encode_items vs out = and_then (encode_items vs []) (\<lambda>e. Ok (out @ e))"
  and "True"
proof (induction v out0 and vs out1 and es rule: encode_into_encode_items_encode_pairs.induct)
  case (4 vs out2)
  show ?case
  proof (cases "u64_try_from (length vs)")
    case (Some n)
    have IH: "\<forall>out. encode_items vs out = and_then (encode_items vs []) (\<lambda>e. Ok (out @ e))"
      by (rule "4.IH") (simp add: Some)
    have "encode_items vs (encode_head 4 n out) =
        and_then (encode_items vs []) (\<lambda>e. Ok (out @ head_bytes 4 n @ e))" for out
      by (subst IH [rule_format]) simp
    moreover from this [of "[]"] have "encode_items vs (head_bytes 4 n) =
        and_then (encode_items vs []) (\<lambda>e. Ok (head_bytes 4 n @ e))" by simp
    ultimately show ?thesis using Some by (simp add: and_then_assoc)
  qed simp
next
  case (10 v vs out2)
  show ?case
  proof (cases "encode_into v []")
    case (Inr e)
    have v: "\<And>out. encode_into v out = Inr (out @ e)" using Inr "10.IH"(1) by (metis and_then_simps(2))
    then have IH: "\<And>out. encode_items vs out = and_then (encode_items vs []) (\<lambda>e. Ok (out @ e))"
      using "10.IH"(2) by blast
    have "encode_items (v # vs) out = and_then (encode_items vs []) (\<lambda>e'. Ok (out @ e @ e'))" for out
    proof -
      have "encode_items (v # vs) out = encode_items vs (out @ e)" by (simp add: v)
      then show ?thesis by (simp only: IH [of "out @ e"] append_assoc)
    qed
    then show ?thesis by (simp add: and_then_assoc)
  next
    case (Inl a)
    then have "\<And>out. encode_into v out = Inl a" using "10.IH"(1) by (metis and_then_simps(1))
    then show ?thesis by simp
  qed
next
  case (5 es out2)
  show ?case
    by (cases "encode_pairs es") (auto simp: Let_def and_then_assoc)
next
  case (12 k v es)
  show ?case by simp
qed (auto simp: and_then_assoc Let_def)


lemma encode_into_canonical: "encode_into v out = and_then (encode_canonical v) (\<lambda>e. Ok (out @ e))"
  unfolding encode_canonical_def using encode_into_append_all(1) by blast

definition item_bytes :: "cbor list \<Rightarrow> bytes list result" where
  "item_bytes vs = try_map encode_canonical vs"

lemma encode_items_eq: "encode_items vs out = and_then (item_bytes vs) (\<lambda>es. Ok (out @ concat es))"
proof (induction vs arbitrary: out)
  case (Cons v vs)
  then show ?case
    by (cases "encode_canonical v") (auto simp: item_bytes_def encode_into_canonical and_then_assoc)
qed (simp add: item_bytes_def)

lemma encode_pairs_eq:
  "encode_pairs es = try_map (\<lambda>(k, v).
     and_then (encode_canonical k) (\<lambda>a. and_then (encode_canonical v) (\<lambda>b. Ok (a, b)))) es"
proof (induction es)
  case (Cons e es)
  then show ?case by (cases e) (auto simp: encode_canonical_def and_then_assoc)
qed simp

text \<open>The encoder, case by case, in terms of the encodings of the parts.\<close>

lemma encode_canonical_simps:
  "encode_canonical (Unsigned n) = Ok (head_bytes 0 n)"
  "encode_canonical (Bytes bs) =
     and_then (ok_or (InvalidLength ''CBOR byte string'') (u64_try_from (length bs))) (\<lambda>n. Ok (head_bytes 2 n @ bs))"
  "encode_canonical (Text t) =
     and_then (ok_or (InvalidLength ''CBOR text string'') (u64_try_from (length t))) (\<lambda>n. Ok (head_bytes 3 n @ t))"
  "encode_canonical (Array vs) =
     and_then (ok_or (InvalidLength ''CBOR array'') (u64_try_from (length vs))) (\<lambda>n.
     and_then (item_bytes vs) (\<lambda>es. Ok (head_bytes 4 n @ concat es)))"
  "encode_canonical (Bool b) = Ok [if b then 0xf5 else 0xf4]"
  "encode_canonical Null = Ok [0xf6]"
  by (cases b; simp add: encode_canonical_def encode_items_eq)+

lemma encode_canonical_Map:
  "encode_canonical (Map es) =
     and_then (encode_pairs es) (\<lambda>ps.
     let ps = sort_key (\<lambda>p. key_order (fst p)) ps in
     if \<not> strictly_ordered (map fst ps) then Err (NonCanonicalMetadata ''duplicate map key'')
     else and_then (ok_or (InvalidLength ''CBOR map'') (u64_try_from (length ps))) (\<lambda>n.
     Ok (head_bytes 5 n @ concat (map (\<lambda>p. fst p @ snd p) ps))))"
  by (simp add: encode_canonical_def Let_def cong: if_cong)

section \<open>Heads\<close>

lemma and_31: "(b AND 0x1f :: u8) = take_bit 5 b"
  by (simp add: take_bit_eq_mask mask_eq_exp_minus_1)

lemma head_split: "push_bit 5 (drop_bit 5 b) OR (b AND 0x1f) = (b :: u8)"
  by (rule bit_word_eqI) (auto simp: and_31 bit_simps)

lemma small_take_bit: "a < 32 \<Longrightarrow> take_bit 5 a = (a :: u8)"
  by (simp add: word_unat_eq_iff word_less_nat_alt unsigned_take_bit_eq take_bit_nat_eq_self)

lemma head_join:
  assumes "m < 8" and "a < 32"
  shows "drop_bit 5 (push_bit 5 m OR a) = (m :: u8)" and "(push_bit 5 m OR a) AND 0x1f = (a :: u8)"
proof -
  have m: "take_bit 3 m = m" using assms(1) by (simp add: word_unat_eq_iff word_less_nat_alt unsigned_take_bit_eq take_bit_nat_eq_self)
  have a: "take_bit 5 a = a" using assms(2) by (rule small_take_bit)
  have bit_m: "bit m i \<Longrightarrow> i < 3" for i by (metis bit_take_bit_iff m)
  have bit_a: "bit a i \<Longrightarrow> i < 5" for i by (metis bit_take_bit_iff a)
  show "drop_bit 5 (push_bit 5 m OR a) = m"
    by (rule bit_word_eqI) (auto simp: bit_simps dest: bit_m bit_a)
  show "(push_bit 5 m OR a) AND 0x1f = a"
    by (rule bit_word_eqI) (auto simp: and_31 bit_simps dest: bit_a)
qed


section \<open>Spans of the input\<close>

definition spans :: "bytes \<Rightarrow> usize \<Rightarrow> bytes \<Rightarrow> usize \<Rightarrow> bool" where
  "spans bs i e j \<longleftrightarrow> j = i + length e \<and> j \<le> length bs \<and> take (length e) (drop i bs) = e"

lemma spans_Nil: "i \<le> length bs \<Longrightarrow> spans bs i [] i"
  by (simp add: spans_def)

lemma spans_append: "spans bs i (a @ b) k \<longleftrightarrow> (\<exists>j. spans bs i a j \<and> spans bs j b k)"
  by (auto simp: spans_def take_add add.commute)

lemma spans_Cons: "spans bs i (b # e) k \<longleftrightarrow> i < length bs \<and> bs ! i = b \<and> spans bs (Suc i) e k"
proof -
  have "i < length bs \<Longrightarrow> drop i bs = bs ! i # drop (Suc i) bs" by (rule Cons_nth_drop_Suc [symmetric])
  then show ?thesis by (cases "i < length bs") (auto simp: spans_def)
qed

lemma spans_single: "spans bs i [b] j \<longleftrightarrow> j = Suc i \<and> i < length bs \<and> bs ! i = b"
  unfolding spans_Cons by (auto simp: spans_def)

lemma spans_whole: "spans bs 0 e (length bs) \<longleftrightarrow> e = bs"
  by (auto simp: spans_def)

lemma dec_byte_Ok_iff:
  "dec_byte bs c d = Inr (b, d') \<longleftrightarrow>
     d' = d\<lparr>dec_offset := dec_offset d + 1\<rparr> \<and> dec_offset d < length bs \<and> bs ! dec_offset d = b"
  by (auto simp: dec_byte_def)

lemma dec_fixed_Ok_iff:
  "dec_fixed n bs c d = Inr (raw, d') \<longleftrightarrow>
     d' = d\<lparr>dec_offset := dec_offset d + n\<rparr> \<and> dec_offset d + n < 2 ^ 64 \<and> length raw = n \<and>
     spans bs (dec_offset d) raw (dec_offset d + n)"
  by (auto simp: dec_fixed_def result_simps usize_checked_add_def byte_get_Some_iff spans_def)

lemma dec_bytes_eq: "dec_bytes n bs c d = dec_fixed (unat n) bs c d"
  by (simp add: dec_bytes_def dec_fixed_def)

lemma head_bytes_cases:
  "n \<le> 23 \<Longrightarrow> head_bytes m n = [push_bit 5 m OR ucast n]"
  "\<not> n \<le> 23 \<Longrightarrow> n \<le> 0xff \<Longrightarrow> head_bytes m n = [push_bit 5 m OR 24, ucast n]"
  "\<not> n \<le> 0xff \<Longrightarrow> n \<le> 0xffff \<Longrightarrow> head_bytes m n = (push_bit 5 m OR 25) # be_image 2 (ucast n :: u16)"
  "\<not> n \<le> 0xffff \<Longrightarrow> n \<le> 0xffffffff \<Longrightarrow> head_bytes m n = (push_bit 5 m OR 26) # be_image 4 (ucast n :: u32)"
  "\<not> n \<le> 0xffffffff \<Longrightarrow> head_bytes m n = (push_bit 5 m OR 27) # be_image 8 n"
proof -
  have le: "\<not> n \<le> 0xff \<Longrightarrow> \<not> n \<le> 23" "\<not> n \<le> 0xffff \<Longrightarrow> \<not> n \<le> 0xff"
      "\<not> n \<le> 0xffffffff \<Longrightarrow> \<not> n \<le> 0xffff"
    by (simp_all add: word_le_nat_alt)
  show "n \<le> 23 \<Longrightarrow> head_bytes m n = [push_bit 5 m OR ucast n]"
    "\<not> n \<le> 23 \<Longrightarrow> n \<le> 0xff \<Longrightarrow> head_bytes m n = [push_bit 5 m OR 24, ucast n]"
    by (simp_all add: head_bytes_def encode_head_def del: encode_head_append)
  show "\<not> n \<le> 0xff \<Longrightarrow> n \<le> 0xffff \<Longrightarrow>
      head_bytes m n = (push_bit 5 m OR 25) # be_image 2 (ucast n :: u16)"
    "\<not> n \<le> 0xffff \<Longrightarrow> n \<le> 0xffffffff \<Longrightarrow>
      head_bytes m n = (push_bit 5 m OR 26) # be_image 4 (ucast n :: u32)"
    "\<not> n \<le> 0xffffffff \<Longrightarrow> head_bytes m n = (push_bit 5 m OR 27) # be_image 8 n"
    using le by (simp_all add: head_bytes_def encode_head_def del: encode_head_append)
qed

lemma dec_argument_sound:
  assumes "dec_argument bs a d = Inr (n, d')" and "dec_offset d \<le> length bs"
  shows "\<exists>e. head_bytes m n = (push_bit 5 m OR a) # e \<and> spans bs (dec_offset d) e (dec_offset d')"
proof -
  consider "a \<le> 23" | "a = 24" | "a = 25" | "a = 26" | "a = 27"
    using assms(1) by (auto simp: dec_argument_def split: if_splits)
  then show ?thesis
  proof cases
    case 1
    then have n: "n = ucast a" "d' = d" using assms(1) by (simp_all add: dec_argument_def)
    have "(ucast a :: u64) \<le> 23" using 1 by (simp add: word_le_nat_alt unat_ucast_64)
    from head_bytes_cases(1) [OF this] have "head_bytes m n = [push_bit 5 m OR a]" by (simp add: n)
    with n spans_Nil [OF assms(2)] show ?thesis by blast
  next
    case 2
    then obtain b where b: "n = ucast b" "\<not> (ucast b :: u64) < 24" "dec_offset d < length bs"
        "bs ! dec_offset d = b" "d' = d\<lparr>dec_offset := dec_offset d + 1\<rparr>"
      using assms(1) by (auto simp: dec_argument_def result_simps dec_byte_Ok_iff Let_def split: if_splits)
    have "\<not> n \<le> 23" "n \<le> 0xff" using unat_lt2p [of b] b(1,2)
      by (auto simp: word_le_nat_alt word_less_nat_alt unat_ucast_64)
    from head_bytes_cases(2) [OF this] have "head_bytes m n = (push_bit 5 m OR a) # [b]"
      by (simp add: b(1) 2)
    moreover have "spans bs (dec_offset d) [b] (dec_offset d')"
      using b(3,4,5) by (simp add: spans_Cons spans_Nil)
    ultimately show ?thesis by blast
  next
    case 3
    then obtain raw where r: "n = ucast (be_value raw :: u16)" "\<not> n \<le> 0xff" "length raw = 2"
        "spans bs (dec_offset d) raw (dec_offset d')"
      using assms(1) by (auto simp: dec_argument_def result_simps dec_fixed_Ok_iff Let_def split: if_splits)
    have "n \<le> 0xffff" using unat_lt2p [of "be_value raw :: u16"] r(1)
      by (auto simp: word_le_nat_alt unat_ucast_64)
    from head_bytes_cases(3) [OF r(2) this] have "head_bytes m n = (push_bit 5 m OR a) # raw"
      by (simp add: r(1,3) 3 be_image_value)
    with r(4) show ?thesis by blast
  next
    case 4
    then obtain raw where r: "n = ucast (be_value raw :: u32)" "\<not> n \<le> 0xffff" "length raw = 4"
        "spans bs (dec_offset d) raw (dec_offset d')"
      using assms(1) by (auto simp: dec_argument_def result_simps dec_fixed_Ok_iff Let_def split: if_splits)
    have "n \<le> 0xffffffff" using unat_lt2p [of "be_value raw :: u32"] r(1)
      by (auto simp: word_le_nat_alt unat_ucast_64)
    from head_bytes_cases(4) [OF r(2) this] have "head_bytes m n = (push_bit 5 m OR a) # raw"
      by (simp add: r(1,3) 4 be_image_value)
    with r(4) show ?thesis by blast
  next
    case 5
    then obtain raw where r: "n = be_value raw" "\<not> n \<le> 0xffffffff" "length raw = 8"
        "spans bs (dec_offset d) raw (dec_offset d')"
      using assms(1) by (auto simp: dec_argument_def result_simps dec_fixed_Ok_iff Let_def split: if_splits)
    from head_bytes_cases(5) [OF r(2)] have "head_bytes m n = (push_bit 5 m OR a) # raw"
      by (simp add: r(1,3) 5 be_image_value)
    with r(4) show ?thesis by blast
  qed
qed


section \<open>Soundness\<close>

lemma encode_head_span:
  assumes "dec_argument bs (b AND 0x1f) d = Inr (n, d')" and "dec_offset d = Suc i"
    and "i < length bs" and "bs ! i = b" and "drop_bit 5 b = m"
  shows "spans bs i (head_bytes m n) (dec_offset d')"
proof -
  obtain e where "head_bytes m n = (push_bit 5 m OR (b AND 0x1f)) # e" "spans bs (Suc i) e (dec_offset d')"
    using dec_argument_sound [OF assms(1), of m] assms(2,3) by auto
  moreover have "push_bit 5 m OR (b AND 0x1f) = b" using head_split [of b] assms(5) by simp
  ultimately show ?thesis using assms(3,4) by (simp add: spans_Cons)
qed

lemma sort_key_strict:
  "strictly_ordered (map fst ps) \<Longrightarrow> sort_key (\<lambda>p. key_order (fst p)) ps = ps"
  by (rule sort_key_id_if_sorted) (rule strictly_ordered_sorted)

text \<open>
  \<open>started\<close>: the depth and item checks of \<open>Decoder::value\<close> passed and the initial byte \<open>b\<close> was read;
  the decoder is then \<open>d1\<close>. An accepted value took exactly one of the six branches after that.
\<close>

definition started :: "bytes \<Rightarrow> limits \<Rightarrow> usize \<Rightarrow> decoder \<Rightarrow> byte \<Rightarrow> decoder \<Rightarrow> bool" where
  "started bs lim depth d b d1 \<longleftrightarrow>
     \<not> max_metadata_depth lim < depth \<and> checked_add (dec_items d) 1 = Some (dec_items d1) \<and>
     \<not> max_container_items lim < dec_items d1 \<and>
     dec_byte bs ''CBOR initial byte'' (d\<lparr>dec_items := dec_items d1\<rparr>) = Inr (b, d1)"

lemma started_span: "started bs lim depth d b d1 \<Longrightarrow> spans bs (dec_offset d) [b] (dec_offset d1)"
  by (auto simp: started_def dec_byte_Ok_iff spans_single dest: arg_cong [where f = dec_offset])

lemma dec_value_cases:
  assumes "dec_value bs lim depth d = Inr (v, d')"
  obtains
    (uns) b d1 n where "started bs lim depth d b d1" "drop_bit 5 b = 0"
      "dec_argument bs (b AND 0x1f) d1 = Inr (n, d')" "v = Unsigned n"
  | (bstr) b d1 n d2 raw where "started bs lim depth d b d1" "drop_bit 5 b = 2"
      "dec_argument bs (b AND 0x1f) d1 = Inr (n, d2)" "n \<le> max_byte_string_bytes lim"
      "dec_bytes n bs ''CBOR byte string'' d2 = Inr (raw, d')" "v = Bytes raw"
  | (tstr) b d1 n d2 raw where "started bs lim depth d b d1" "drop_bit 5 b = 3"
      "dec_argument bs (b AND 0x1f) d1 = Inr (n, d2)" "n \<le> max_text_bytes lim"
      "dec_bytes n bs ''CBOR text string'' d2 = Inr (raw, d')" "valid_utf8 raw" "v = Text raw"
  | (arr) b d1 n d2 vs where "started bs lim depth d b d1" "drop_bit 5 b = 4"
      "dec_argument bs (b AND 0x1f) d1 = Inr (n, d2)" "check_container_length lim n = Inr ()"
      "dec_values bs lim (depth + 1) (unat n) d2 = Inr (vs, d')" "v = Array vs"
  | (map) b d1 n d2 es where "started bs lim depth d b d1" "drop_bit 5 b = 5"
      "dec_argument bs (b AND 0x1f) d1 = Inr (n, d2)" "check_container_length lim n = Inr ()"
      "dec_entries bs lim (depth + 1) (unat n) None d2 = Inr (es, d')" "v = Map es"
  | (simple) b where "started bs lim depth d b d'" "drop_bit 5 b = 7"
      "v = Bool False \<and> b AND 0x1f = 20 \<or> v = Bool True \<and> b AND 0x1f = 21 \<or> v = Null \<and> b AND 0x1f = 22"
proof -
  from assms obtain items where 1: "\<not> max_metadata_depth lim < depth"
    "checked_add (dec_items d) 1 = Some items" "\<not> max_container_items lim < items"
    "dec_offset d < length bs"
    by (auto simp: dec_value.simps [of bs lim depth d] result_simps dec_byte_def split: if_splits)
  define b d1 where 2: "b = bs ! dec_offset d" "d1 = \<lparr>dec_offset = Suc (dec_offset d), dec_items = items\<rparr>"
  have eq: "dec_byte bs ''CBOR initial byte'' (d\<lparr>dec_items := items\<rparr>) = Inr (b, d1)"
    using 1 by (simp add: dec_byte_Ok_iff 2)
  then have st: "started bs lim depth d b d1" using 1 by (simp add: started_def 2)
  note eqs = assms [unfolded dec_value.simps [of bs lim depth d] if_not_P [OF 1(1)] 1(2) ok_or_simps
      and_then_simps if_not_P [OF 1(3)] eq Let_def prod.case]
  consider "drop_bit 5 b = 0" | "drop_bit 5 b = 2" | "drop_bit 5 b = 3" | "drop_bit 5 b = 4"
    | "drop_bit 5 b = 5" | "drop_bit 5 b = 7"
    using eqs by (auto split: if_splits)
  then show thesis
  proof cases
    case 1 then show ?thesis using eqs uns [OF st] by (auto simp: result_simps)
  next
    case 2 then show ?thesis using eqs bstr [OF st] by (auto simp: result_simps not_less split: if_splits)
  next
    case 3 then show ?thesis using eqs tstr [OF st] by (auto simp: result_simps not_less split: if_splits)
  next
    case 4 then show ?thesis using eqs arr [OF st] by (auto simp: result_simps)
  next
    case 5 then show ?thesis using eqs map [OF st] by (auto simp: result_simps)
  next
    case 6 then show ?thesis using eqs st simple by (auto split: if_splits)
  qed
qed

lemma length_encode_pairs: "encode_pairs es = Inr ps \<Longrightarrow> length ps = length es"
  by (simp add: encode_pairs_eq try_map_length)

lemma encode_Map_ordered:
  assumes "encode_pairs es = Inr ps" and "strictly_ordered (map fst ps)" and "length es = unat (n :: u64)"
  shows "encode_canonical (Map es) = Inr (head_bytes 5 n @ concat (map (\<lambda>p. fst p @ snd p) ps))"
  using assms by (simp add: encode_canonical_Map sort_key_strict length_encode_pairs Let_def)

lemma started_head_span:
  assumes "started bs lim depth d b d1" and "dec_argument bs (b AND 0x1f) d1 = Inr (n, d2)"
  shows "spans bs (dec_offset d) (head_bytes (drop_bit 5 b) n) (dec_offset d2)"
    and "dec_offset d2 \<le> length bs"
proof -
  show "spans bs (dec_offset d) (head_bytes (drop_bit 5 b) n) (dec_offset d2)"
    using started_span [OF assms(1)]
    by (intro encode_head_span [OF assms(2)]) (auto simp: spans_single)
  then show "dec_offset d2 \<le> length bs" by (simp add: spans_def)
qed

lemma simple_value_sound:
  assumes "started bs lim depth d b d'" and "drop_bit 5 b = 7"
    and "v = Bool False \<and> b AND 0x1f = 20 \<or> v = Bool True \<and> b AND 0x1f = 21 \<or> v = Null \<and> b AND 0x1f = 22"
  shows "\<exists>e. encode_canonical v = Inr e \<and> spans bs (dec_offset d) e (dec_offset d')"
proof -
  have "encode_canonical v = Inr [push_bit 5 7 OR (b AND 0x1f)]"
    using assms(3) by (auto simp: encode_canonical_simps)
  also have "push_bit 5 7 OR (b AND 0x1f) = b" using head_split [of b] assms(2) by simp
  finally show ?thesis using started_span [OF assms(1)] by blast
qed

lemma dec_value_sound:
  "dec_value bs lim depth d = Inr (v, d') \<Longrightarrow>
     \<exists>e. encode_canonical v = Inr e \<and> spans bs (dec_offset d) e (dec_offset d')"
  "dec_values bs lim depth n d = Inr (vs, d') \<Longrightarrow> dec_offset d \<le> length bs \<Longrightarrow>
     length vs = n \<and> (\<exists>es. item_bytes vs = Inr es \<and> spans bs (dec_offset d) (concat es) (dec_offset d'))"
  "dec_entries bs lim depth n prev d = Inr (es, d') \<Longrightarrow> dec_offset d \<le> length bs \<Longrightarrow>
     length es = n \<and> (\<exists>ps. encode_pairs es = Inr ps \<and>
       strictly_ordered (case prev of None \<Rightarrow> map fst ps | Some p \<Rightarrow> p # map fst ps) \<and>
       spans bs (dec_offset d) (concat (map (\<lambda>p. fst p @ snd p) ps)) (dec_offset d'))"
proof (induction bs lim depth d and bs lim depth n d and bs lim depth n prev d
    arbitrary: v d' and vs d' and es d' rule: dec_value_dec_values_dec_entries.induct)
  case (1 bs lim depth d)
  from "1.prems" show ?case
  proof (cases rule: dec_value_cases)
    case (uns b d1 n)
    then show ?thesis using started_head_span(1) [OF uns(1,3)] by (auto simp: encode_canonical_simps)
  next
    case (bstr b d1 n d2 raw)
    then show ?thesis using started_head_span(1) [OF bstr(1,3)]
      by (auto simp: encode_canonical_simps dec_bytes_eq dec_fixed_Ok_iff spans_append)
  next
    case (tstr b d1 n d2 raw)
    then show ?thesis using started_head_span(1) [OF tstr(1,3)]
      by (auto simp: encode_canonical_simps dec_bytes_eq dec_fixed_Ok_iff spans_append)
  next
    case (arr b d1 n d2 vs)
    then show ?thesis using started_head_span [OF arr(1,3)]
      "1.IH"(1) [OF _ _ _ _ refl refl refl _ _ _ _ arr(3) refl arr(4) _ arr(5), of "dec_items d1"]
      by (auto simp: started_def encode_canonical_simps spans_append)
  next
    case (map b d1 n d2 es)
    then show ?thesis using started_head_span [OF map(1,3)]
      "1.IH"(2) [OF _ _ _ _ refl refl refl _ _ _ _ _ map(3) refl map(4) _ map(5), of "dec_items d1"]
      by (auto simp: started_def encode_Map_ordered spans_append)
  next
    case (simple b)
    then show ?thesis by (rule simple_value_sound)
  qed
next
  case (3 bs lim depth n d)
  from "3.prems" obtain v d1 vs' where
    v: "dec_value bs lim depth d = Inr (v, d1)" and vs': "dec_values bs lim depth n d1 = Inr (vs', d')" "vs = v # vs'"
    by (auto simp: result_simps)
  from "3.IH"(1) [OF v] obtain e where e: "encode_canonical v = Inr e" "spans bs (dec_offset d) e (dec_offset d1)"
    by blast
  from e(2) have "dec_offset d1 \<le> length bs" by (simp add: spans_def)
  from "3.IH"(2) [OF v refl vs'(1) this] e vs'(2) show ?case
    by (auto simp: item_bytes_def spans_append)
next
  case (5 bs lim depth n prev d)
  from "5.prems" obtain k d1 kb v d2 es' where
    k: "dec_value bs lim depth d = Inr (k, d1)" and kb: "encode_canonical k = Inr kb"
    and ord: "case prev of None \<Rightarrow> True | Some p \<Rightarrow> compare_key_bytes p kb = Less"
    and v: "dec_value bs lim depth d1 = Inr (v, d2)"
    and es': "dec_entries bs lim depth n (Some kb) d2 = Inr (es', d')" "es = (k, v) # es'"
    by (auto simp: result_simps split: if_splits option.splits)
  from "5.IH"(1) [OF k] obtain e where e: "encode_canonical k = Inr e" "spans bs (dec_offset d) e (dec_offset d1)"
    by blast
  with kb have kspan: "spans bs (dec_offset d) kb (dec_offset d1)" by simp
  from "5.IH"(2) [OF k refl kb _ v] ord obtain ve where
    ve: "encode_canonical v = Inr ve" "spans bs (dec_offset d1) ve (dec_offset d2)"
    by (auto split: option.splits)
  then have "dec_offset d2 \<le> length bs" by (simp add: spans_def)
  from "5.IH"(3) [OF k refl kb _ v refl es'(1) this] ord obtain ps where
    ps: "length es' = n" "encode_pairs es' = Inr ps" "strictly_ordered (kb # map fst ps)"
      "spans bs (dec_offset d2) (concat (map (\<lambda>p. fst p @ snd p) ps)) (dec_offset d')"
    by (auto split: option.splits)
  have "encode_pairs es = Inr ((kb, ve) # ps)"
    using kb ve(1) ps(2) es'(2) by (simp add: encode_canonical_def)
  moreover have "strictly_ordered (case prev of None \<Rightarrow> kb # map fst ps | Some p \<Rightarrow> p # kb # map fst ps)"
    using ord ps(3) by (auto split: option.splits)
  moreover have "spans bs (dec_offset d) (concat (map (\<lambda>p. fst p @ snd p) ((kb, ve) # ps))) (dec_offset d')"
    using kspan ve(2) ps(4) by (auto simp: spans_append)
  ultimately show ?case using ps(1) es'(2) by (auto split: option.splits)
qed (auto simp: item_bytes_def spans_Nil strictly_ordered.simps split: option.splits)


lemma decode_canonical_encode:
  assumes "decode_canonical bs lim = Inr v"
  shows "encode_canonical v = Inr bs"
proof -
  from assms obtain d where
    "dec_value bs lim 0 \<lparr>dec_offset = 0, dec_items = 0\<rparr> = Inr (v, d)" "dec_offset d = length bs"
    by (auto simp: decode_canonical_def result_simps split: if_splits)
  then show ?thesis using dec_value_sound(1) by (fastforce simp: spans_whole)
qed

section \<open>Completeness\<close>

text \<open>
  What the decoder returns for an encoded value: the same value with the entries of every map in
  the order of their encoded keys. \<open>cbor_fits\<close> states the limits on nesting and string lengths and
  that texts are UTF-8; \<open>cbor_items\<close> counts the values the decoder counts.
\<close>

definition encoding :: "cbor \<Rightarrow> bytes" where
  "encoding v = (case encode_canonical v of Inr e \<Rightarrow> e | Inl _ \<Rightarrow> [])"

primrec canon :: "cbor \<Rightarrow> cbor" where
  "canon (Unsigned n) = Unsigned n"
| "canon (Bytes bs) = Bytes bs"
| "canon (Text t) = Text t"
| "canon (Array vs) = Array (map canon vs)"
| "canon (Map es) = Map (sort_key (\<lambda>p. key_order (encoding (fst p))) (map (map_prod canon canon) es))"
| "canon (Bool b) = Bool b"
| "canon Null = Null"

primrec cbor_items :: "cbor \<Rightarrow> nat" where
  "cbor_items (Unsigned n) = 1"
| "cbor_items (Bytes bs) = 1"
| "cbor_items (Text t) = 1"
| "cbor_items (Array vs) = 1 + sum_list (map cbor_items vs)"
| "cbor_items (Map es) = 1 + sum_list (map (\<lambda>p. fst p + snd p) (map (map_prod cbor_items cbor_items) es))"
| "cbor_items (Bool b) = 1"
| "cbor_items Null = 1"

primrec cbor_fits :: "limits \<Rightarrow> cbor \<Rightarrow> nat \<Rightarrow> bool" where
  "cbor_fits lim (Unsigned n) = (\<lambda>depth. depth \<le> max_metadata_depth lim)"
| "cbor_fits lim (Bytes bs) = (\<lambda>depth. depth \<le> max_metadata_depth lim \<and> length bs \<le> unat (max_byte_string_bytes lim))"
| "cbor_fits lim (Text t) =
     (\<lambda>depth. depth \<le> max_metadata_depth lim \<and> length t \<le> unat (max_text_bytes lim) \<and> valid_utf8 t)"
| "cbor_fits lim (Array vs) =
     (\<lambda>depth. depth \<le> max_metadata_depth lim \<and> list_all (\<lambda>f. f (Suc depth)) (map (cbor_fits lim) vs))"
| "cbor_fits lim (Map es) =
     (\<lambda>depth. depth \<le> max_metadata_depth lim \<and>
       list_all (\<lambda>p. fst p (Suc depth) \<and> snd p (Suc depth)) (map (map_prod (cbor_fits lim) (cbor_fits lim)) es))"
| "cbor_fits lim (Bool b) = (\<lambda>depth. depth \<le> max_metadata_depth lim)"
| "cbor_fits lim Null = (\<lambda>depth. depth \<le> max_metadata_depth lim)"

lemma encode_pairs_Ok_iff:
  "encode_pairs es = Inr ps \<longleftrightarrow>
     (\<forall>p \<in> set es. encode_canonical (fst p) = Inr (encoding (fst p)) \<and>
                   encode_canonical (snd p) = Inr (encoding (snd p))) \<and>
     ps = map (\<lambda>p. (encoding (fst p), encoding (snd p))) es"
proof (induction es arbitrary: ps)
  case (Cons p es)
  obtain k v where p: "p = (k, v)" by (cases p)
  have enc: "encode_canonical w = Inr e \<longleftrightarrow> encode_canonical w = Inr (encoding w) \<and> e = encoding w" for w e
    by (auto simp: encoding_def split: sum.splits)
  show ?case
    unfolding p encode_pairs.simps encode_canonical_def [symmetric] and_then_Ok_iff Cons.IH
    by (subst enc, subst (2) enc) auto
qed auto

lemma encode_pairs_sorted:
  assumes "encode_pairs es = Inr ps"
  shows "encode_pairs (sort_key (\<lambda>p. key_order (encoding (fst p))) es) = Inr (sort_key (\<lambda>p. key_order (fst p)) ps)"
  using assms by (auto simp: encode_pairs_Ok_iff sort_key_map)

lemma encoding_eq: "encode_canonical v = Inr e \<Longrightarrow> encoding v = e"
  by (simp add: encoding_def)

lemma item_bytes_Ok_iff: "item_bytes vs = Inr es \<longleftrightarrow> list_all2 (\<lambda>v e. encode_canonical v = Inr e) vs es"
  by (simp add: item_bytes_def try_map_Ok_iff)

lemma encode_pairs_canon:
  assumes "encode_pairs es = Inr ps"
    and "\<And>p e. p \<in> set es \<Longrightarrow> encode_canonical (fst p) = Inr e \<Longrightarrow> encode_canonical (canon (fst p)) = Inr e"
    and "\<And>p e. p \<in> set es \<Longrightarrow> encode_canonical (snd p) = Inr e \<Longrightarrow> encode_canonical (canon (snd p)) = Inr e"
  shows "encode_pairs (map (map_prod canon canon) es) = Inr ps"
  using assms by (fastforce simp: encode_pairs_Ok_iff dest: encoding_eq)

lemma encode_canon: "encode_canonical v = Inr e \<Longrightarrow> encode_canonical (canon v) = Inr e"
proof (induction v arbitrary: e)
  case (Array vs)
  then have "item_bytes vs = Inr es \<Longrightarrow> item_bytes (map canon vs) = Inr es" for es
    by (auto simp: item_bytes_Ok_iff list.rel_map intro: list.rel_mono_strong)
  then show ?case using Array.prems by (auto simp: encode_canonical_simps result_simps)
next
  case (Map es)
  let ?sort = "sort_key (\<lambda>p. key_order (encoding (fst p)))"
  from Map.prems obtain ps where ps: "encode_pairs es = Inr ps"
      "strictly_ordered (map fst (sort_key (\<lambda>p. key_order (fst p)) ps))"
    by (auto simp: encode_canonical_Map result_simps Let_def split: if_splits)
  have "encode_pairs (map (map_prod canon canon) es) = Inr ps"
    using Map.IH by (intro encode_pairs_canon [OF ps(1)]) (auto intro: prod_set_simps simp: fsts.simps snds.simps)
  from encode_pairs_sorted [OF this] show ?case
    using Map.prems ps by (simp add: encode_canonical_Map sort_key_strict Let_def)
qed (simp_all add: encode_canonical_simps)

text \<open>The decoder on the head of an encoded value.\<close>

lemma dec_fixed_complete:
  "spans bs (dec_offset d) raw j \<Longrightarrow> length raw = n \<Longrightarrow> length bs < 2 ^ 64 \<Longrightarrow>
     dec_fixed n bs c d = Inr (raw, d\<lparr>dec_offset := j\<rparr>)"
  by (auto simp: dec_fixed_Ok_iff spans_def)

lemma dec_argument_complete:
  assumes "head_bytes m n = b # e" and "m < 8" and "spans bs (dec_offset d) e j" and "length bs < 2 ^ 64"
  shows "drop_bit 5 b = m \<and> dec_argument bs (b AND 0x1f) d = Inr (n, d\<lparr>dec_offset := j\<rparr>)"
proof -
  consider "n \<le> 23" | "\<not> n \<le> 23" "n \<le> 0xff" | "\<not> n \<le> 0xff" "n \<le> 0xffff"
    | "\<not> n \<le> 0xffff" "n \<le> 0xffffffff" | "\<not> n \<le> 0xffffffff" by blast
  then show ?thesis
  proof cases
    case 1
    then have "unat (ucast n :: u8) = unat n" by (simp add: unat_ucast_down word_le_nat_alt)
    then have small: "(ucast n :: u8) \<le> 23" "(ucast n :: u8) < 32"
      using 1 by (simp_all add: word_le_nat_alt word_less_nat_alt)
    have be: "b = push_bit 5 m OR ucast n" "e = []" using assms(1) head_bytes_cases(1) [OF 1, of m] by auto
    have "n \<le> 0xff" using 1 by (simp add: word_le_nat_alt)
    moreover have "d\<lparr>dec_offset := j\<rparr> = d" using assms(3) be(2) by (simp add: spans_def)
    ultimately show ?thesis
      using head_join [OF assms(2) small(2)] small(1)
      by (simp only: be dec_argument_def if_True ucast_up_down)
  next
    case 2
    have be: "b = push_bit 5 m OR 24" "e = [ucast n]" using assms(1) head_bytes_cases(2) [OF 2, of m] by auto
    have "dec_byte bs ''CBOR argument'' d = Inr (ucast n, d\<lparr>dec_offset := j\<rparr>)"
      using assms(3) be(2) by (simp add: spans_single dec_byte_Ok_iff)
    moreover have "\<not> n < 24" using 2(1) by (simp add: word_le_nat_alt word_less_nat_alt)
    ultimately show ?thesis
      using head_join [OF assms(2), of 24] 2(2) by (simp add: be(1) dec_argument_def ucast_up_down)
  next
    case 3
    have be: "b = push_bit 5 m OR 25" "e = be_image 2 (ucast n :: u16)"
      using assms(1) head_bytes_cases(3) [OF 3, of m] by auto
    from dec_fixed_complete [OF assms(3) _ assms(4), of 2] show ?thesis
      using head_join [OF assms(2), of 25] 3 by (simp add: be dec_argument_def ucast_up_down be_value_image)
  next
    case 4
    have be: "b = push_bit 5 m OR 26" "e = be_image 4 (ucast n :: u32)"
      using assms(1) head_bytes_cases(4) [OF 4, of m] by auto
    from dec_fixed_complete [OF assms(3) _ assms(4), of 4] show ?thesis
      using head_join [OF assms(2), of 26] 4 by (simp add: be dec_argument_def ucast_up_down be_value_image)
  next
    case 5
    have be: "b = push_bit 5 m OR 27" "e = be_image 8 n"
      using assms(1) head_bytes_cases(5) [OF 5, of m] by auto
    from dec_fixed_complete [OF assms(3) _ assms(4), of 8] show ?thesis
      using head_join [OF assms(2), of 27] 5 by (simp add: be dec_argument_def be_value_image)
  qed
qed


lemma head_bytes_Cons: obtains b e where "head_bytes m n = b # e"
  using head_bytes_cases [of n m] by (cases "head_bytes m n") auto

lemma dec_value_head:
  assumes "depth \<le> max_metadata_depth lim" and "unat (dec_items d) + 1 \<le> unat (max_container_items lim)"
    and "spans bs (dec_offset d) (head_bytes m n) j" and "m < 8" and "length bs < 2 ^ 64"
  obtains b d1 where "started bs lim depth d b d1" "drop_bit 5 b = m"
    "dec_argument bs (b AND 0x1f) d1 = Inr (n, \<lparr>dec_offset = j, dec_items = dec_items d + 1\<rparr>)"
proof -
  obtain b e where be: "head_bytes m n = b # e" by (rule head_bytes_Cons)
  define d1 where "d1 = \<lparr>dec_offset = Suc (dec_offset d), dec_items = dec_items d + 1\<rparr>"
  have e: "dec_offset d < length bs" "bs ! dec_offset d = b" "spans bs (dec_offset d1) e j"
    using assms(3) by (auto simp: be spans_Cons d1_def)
  have items: "unat (dec_items d + 1) = unat (dec_items d) + 1"
    using unat_add_of_nat [OF assms(2)] by simp
  then have "checked_add (dec_items d) 1 = Some (dec_items d + 1)" by (simp add: checked_add_Some_iff)
  moreover have "\<not> max_container_items lim < dec_items d + 1"
    using assms(2) items by (simp add: word_less_nat_alt)
  ultimately have "started bs lim depth d b d1"
    using assms(1) e by (simp add: started_def d1_def dec_byte_Ok_iff)
  moreover have "drop_bit 5 b = m \<and> dec_argument bs (b AND 0x1f) d1 = Inr (n, d1\<lparr>dec_offset := j\<rparr>)"
    by (rule dec_argument_complete [OF be assms(4) e(3) assms(5)])
  ultimately show thesis using that by (simp add: d1_def)
qed

lemma dec_value_branch:
  assumes "started bs lim depth d b d1" and "dec_argument bs (b AND 0x1f) d1 = Inr (n, d2)"
  shows "drop_bit 5 b = 0 \<Longrightarrow> dec_value bs lim depth d = Inr (Unsigned n, d2)"
    and "drop_bit 5 b = 2 \<Longrightarrow> n \<le> max_byte_string_bytes lim \<Longrightarrow>
      dec_bytes n bs ''CBOR byte string'' d2 = Inr (raw, d3) \<Longrightarrow> dec_value bs lim depth d = Inr (Bytes raw, d3)"
    and "drop_bit 5 b = 3 \<Longrightarrow> n \<le> max_text_bytes lim \<Longrightarrow>
      dec_bytes n bs ''CBOR text string'' d2 = Inr (raw, d3) \<Longrightarrow> valid_utf8 raw \<Longrightarrow>
      dec_value bs lim depth d = Inr (Text raw, d3)"
    and "drop_bit 5 b = 4 \<Longrightarrow> n \<le> max_container_items lim \<Longrightarrow>
      dec_values bs lim (Suc depth) (unat n) d2 = Inr (vs, d3) \<Longrightarrow> dec_value bs lim depth d = Inr (Array vs, d3)"
    and "drop_bit 5 b = 5 \<Longrightarrow> n \<le> max_container_items lim \<Longrightarrow>
      dec_entries bs lim (Suc depth) (unat n) None d2 = Inr (es, d3) \<Longrightarrow> dec_value bs lim depth d = Inr (Map es, d3)"
  using assms by (simp_all add: started_def dec_value.simps [of bs lim depth d] check_container_length_def leD)

definition decodes :: "bytes \<Rightarrow> limits \<Rightarrow> cbor \<Rightarrow> bool" where
  "decodes bs lim v \<longleftrightarrow> (\<forall>e depth d j. encode_canonical v = Inr e \<longrightarrow> cbor_fits lim v depth \<longrightarrow>
     unat (dec_items d) + cbor_items v \<le> unat (max_container_items lim) \<longrightarrow> spans bs (dec_offset d) e j \<longrightarrow>
     dec_value bs lim depth d = Inr (canon v, \<lparr>dec_offset = j, dec_items = dec_items d + of_nat (cbor_items v)\<rparr>))"

lemma dec_values_complete:
  assumes "\<And>v. v \<in> set vs \<Longrightarrow> decodes bs lim v" and "item_bytes vs = Inr es"
    and "\<And>v. v \<in> set vs \<Longrightarrow> cbor_fits lim v depth"
    and "unat (dec_items d) + sum_list (map cbor_items vs) \<le> unat (max_container_items lim)"
    and "spans bs (dec_offset d) (concat es) j"
  shows "dec_values bs lim depth (length vs) d =
    Inr (map canon vs, \<lparr>dec_offset = j, dec_items = dec_items d + of_nat (sum_list (map cbor_items vs))\<rparr>)"
  using assms
proof (induction vs arbitrary: es d)
  case Nil
  then show ?case by (cases d) (auto simp: item_bytes_Ok_iff spans_def)
next
  case (Cons v vs)
  from Cons.prems(2) obtain e es' where es: "encode_canonical v = Inr e" "item_bytes vs = Inr es'" "es = e # es'"
    by (auto simp: item_bytes_Ok_iff list_all2_Cons1)
  from Cons.prems(5) obtain k where k: "spans bs (dec_offset d) e k" "spans bs k (concat es') j"
    by (auto simp: es spans_append)
  let ?d = "\<lparr>dec_offset = k, dec_items = dec_items d + of_nat (cbor_items v)\<rparr>"
  have "dec_value bs lim depth d = Inr (canon v, ?d)"
    using Cons.prems(1,3,4) es(1) k(1) by (simp add: decodes_def)
  moreover have "unat (dec_items ?d) = unat (dec_items d) + cbor_items v"
    using Cons.prems(4) by (simp add: unat_add_of_nat [where lim = "max_container_items lim"])
  then have "dec_values bs lim depth (length vs) ?d =
    Inr (map canon vs, \<lparr>dec_offset = j, dec_items = dec_items ?d + of_nat (sum_list (map cbor_items vs))\<rparr>)"
    using Cons.prems k(2) by (intro Cons.IH [OF _ es(2)]) auto
  ultimately show ?case by (simp add: add.assoc)
qed


lemma dec_entries_complete:
  assumes "\<And>p. p \<in> set es \<Longrightarrow> decodes bs lim (fst p) \<and> decodes bs lim (snd p)" and "encode_pairs es = Inr ps"
    and "\<And>p. p \<in> set es \<Longrightarrow> cbor_fits lim (fst p) depth \<and> cbor_fits lim (snd p) depth"
    and "unat (dec_items d) + sum_list (map (\<lambda>p. cbor_items (fst p) + cbor_items (snd p)) es)
           \<le> unat (max_container_items lim)"
    and "spans bs (dec_offset d) (concat (map (\<lambda>p. fst p @ snd p) ps)) j"
    and "strictly_ordered (case prev of None \<Rightarrow> map fst ps | Some p \<Rightarrow> p # map fst ps)"
  shows "dec_entries bs lim depth (length es) prev d =
    Inr (map (map_prod canon canon) es, \<lparr>dec_offset = j, dec_items = dec_items d +
      of_nat (sum_list (map (\<lambda>p. cbor_items (fst p) + cbor_items (snd p)) es))\<rparr>)"
  using assms
proof (induction es arbitrary: ps d prev)
  case Nil
  then show ?case by (cases d) (auto simp: spans_def)
next
  case (Cons p es)
  obtain k v where p: "p = (k, v)" by (cases p)
  from Cons.prems(2) obtain ke ve ps' where
    ps: "encode_canonical k = Inr ke" "encode_canonical v = Inr ve" "encode_pairs es = Inr ps'" "ps = (ke, ve) # ps'"
    by (auto simp: p encode_canonical_def result_simps)
  from Cons.prems(5) obtain i1 i2 where spans: "spans bs (dec_offset d) ke i1" "spans bs i1 ve i2"
      "spans bs i2 (concat (map (\<lambda>p. fst p @ snd p) ps')) j"
    by (auto simp: ps(4) spans_append)
  define d1 where "d1 = \<lparr>dec_offset = i1, dec_items = dec_items d + of_nat (cbor_items k)\<rparr>"
  define d2 where "d2 = \<lparr>dec_offset = i2, dec_items = dec_items d1 + of_nat (cbor_items v)\<rparr>"
  have 1: "dec_value bs lim depth d = Inr (canon k, d1)"
    using Cons.prems(1,3) [of p] Cons.prems(4) ps(1) spans(1) by (simp add: p decodes_def d1_def)
  have u1: "unat (dec_items d1) = unat (dec_items d) + cbor_items k"
    using Cons.prems(4) by (simp add: p d1_def unat_add_of_nat [where lim = "max_container_items lim"])
  have 2: "dec_value bs lim depth d1 = Inr (canon v, d2)"
    using Cons.prems(1,3) [of p] Cons.prems(4) ps(2) spans(2) u1 by (simp add: p decodes_def d1_def d2_def)
  have u2: "unat (dec_items d2) = unat (dec_items d) + (cbor_items k + cbor_items v)"
    using Cons.prems(4) u1 by (simp add: p d2_def unat_add_of_nat [where lim = "max_container_items lim"])
  have "dec_entries bs lim depth (length es) (Some ke) d2 =
    Inr (map (map_prod canon canon) es, \<lparr>dec_offset = j, dec_items = dec_items d2 +
      of_nat (sum_list (map (\<lambda>p. cbor_items (fst p) + cbor_items (snd p)) es))\<rparr>)"
    using Cons.prems spans(3) u2
    by (intro Cons.IH [OF _ ps(3)]) (auto simp: ps(4) p d2_def strictly_ordered_Cons split: option.splits list.splits)
  moreover have "\<not> (case prev of Some p \<Rightarrow> compare_key_bytes p ke \<noteq> Less | None \<Rightarrow> False)"
    using Cons.prems(6) by (auto simp: ps(4) split: option.splits)
  ultimately show ?case
    using 1 2 encode_canon [OF ps(1)] by (simp add: p d1_def d2_def add.assoc)
qed


lemma cbor_items_pos: "0 < cbor_items v"
  by (cases v) auto

lemma decodesI:
  assumes "\<And>e depth d j. encode_canonical v = Inr e \<Longrightarrow> cbor_fits lim v depth \<Longrightarrow>
     unat (dec_items d) + cbor_items v \<le> unat (max_container_items lim) \<Longrightarrow> spans bs (dec_offset d) e j \<Longrightarrow>
     dec_value bs lim depth d = Inr (canon v, \<lparr>dec_offset = j, dec_items = dec_items d + of_nat (cbor_items v)\<rparr>)"
  shows "decodes bs lim v"
  using assms by (simp add: decodes_def)

lemma cbor_fits_depth: "cbor_fits lim v depth \<Longrightarrow> depth \<le> max_metadata_depth lim"
  by (cases v) auto

text \<open>The head of every compound or string value, given the span of the whole encoding.\<close>

lemma dec_head_complete:
  assumes "cbor_fits lim v depth" and "unat (dec_items d) + cbor_items v \<le> unat (max_container_items lim)"
    and "spans bs (dec_offset d) (head_bytes m n @ e) j" and "m < 8" and "length bs < 2 ^ 64"
  obtains b d1 k where "started bs lim depth d b d1" "drop_bit 5 b = m"
    "dec_argument bs (b AND 0x1f) d1 = Inr (n, \<lparr>dec_offset = k, dec_items = dec_items d + 1\<rparr>)" "spans bs k e j"
proof -
  obtain k where k: "spans bs (dec_offset d) (head_bytes m n) k" "spans bs k e j"
    using assms(3) by (auto simp: spans_append)
  have "unat (dec_items d) + 1 \<le> unat (max_container_items lim)"
    using assms(2) cbor_items_pos [of v] by linarith
  from dec_value_head [OF cbor_fits_depth [OF assms(1)] this k(1) assms(4,5)] k(2) that show thesis by blast
qed

lemma decodes_Unsigned: "length bs < 2 ^ 64 \<Longrightarrow> decodes bs lim (Unsigned n)"
proof (rule decodesI)
  fix e depth and d :: decoder and j
  assume *: "length bs < 2 ^ 64" "encode_canonical (Unsigned n) = Inr e" "cbor_fits lim (Unsigned n) depth"
    "unat (dec_items d) + cbor_items (Unsigned n) \<le> unat (max_container_items lim)" "spans bs (dec_offset d) e j"
  from *(2,5) have "spans bs (dec_offset d) (head_bytes 0 n @ []) j" by (simp add: encode_canonical_simps)
  then show "dec_value bs lim depth d =
      Inr (canon (Unsigned n), \<lparr>dec_offset = j, dec_items = dec_items d + of_nat (cbor_items (Unsigned n))\<rparr>)"
    by (rule dec_head_complete [OF *(3,4) _ _ *(1)]) (auto simp: dec_value_branch(1) spans_def)
qed

lemma decodes_string:
  assumes "length bs < 2 ^ 64"
  shows "decodes bs lim (Bytes b)" and "decodes bs lim (Text b)"
proof -
  show "decodes bs lim (Bytes b)"
  proof (rule decodesI)
    fix e depth and d :: decoder and j
    assume *: "encode_canonical (Bytes b) = Inr e" "cbor_fits lim (Bytes b) depth"
      "unat (dec_items d) + cbor_items (Bytes b) \<le> unat (max_container_items lim)" "spans bs (dec_offset d) e j"
    have lb: "length b < 2 ^ 64" by (rule le_unat_64 [of _ "max_byte_string_bytes lim"]) (use *(2) in simp)
    then have "spans bs (dec_offset d) (head_bytes 2 (of_nat (length b)) @ b) j"
      using *(1,4) by (simp add: encode_canonical_simps)
    then show "dec_value bs lim depth d =
      Inr (canon (Bytes b), \<lparr>dec_offset = j, dec_items = dec_items d + of_nat (cbor_items (Bytes b))\<rparr>)"
      using *(2) lb assms by (elim dec_head_complete [OF *(2,3) _ _ assms])
        (auto simp: dec_bytes_eq dec_fixed_complete of_nat_le_64 intro!: dec_value_branch(2))
  qed
  show "decodes bs lim (Text b)"
  proof (rule decodesI)
    fix e depth and d :: decoder and j
    assume *: "encode_canonical (Text b) = Inr e" "cbor_fits lim (Text b) depth"
      "unat (dec_items d) + cbor_items (Text b) \<le> unat (max_container_items lim)" "spans bs (dec_offset d) e j"
    have lb: "length b < 2 ^ 64" by (rule le_unat_64 [of _ "max_text_bytes lim"]) (use *(2) in simp)
    then have "spans bs (dec_offset d) (head_bytes 3 (of_nat (length b)) @ b) j"
      using *(1,4) by (simp add: encode_canonical_simps)
    then show "dec_value bs lim depth d =
      Inr (canon (Text b), \<lparr>dec_offset = j, dec_items = dec_items d + of_nat (cbor_items (Text b))\<rparr>)"
      using *(2) lb assms by (elim dec_head_complete [OF *(2,3) _ _ assms])
        (auto simp: dec_bytes_eq dec_fixed_complete of_nat_le_64 intro!: dec_value_branch(3))
  qed
qed


lemma decodes_simple:
  assumes "length bs < 2 ^ 64"
  shows "decodes bs lim (Bool b)" and "decodes bs lim Null"
proof -
  have main: "dec_value bs lim depth d =
      Inr (canon v, \<lparr>dec_offset = j, dec_items = dec_items d + of_nat (cbor_items v)\<rparr>)"
    if *: "v \<in> {Bool True, Bool False, Null}" "encode_canonical v = Inr e" "cbor_fits lim v depth"
      "unat (dec_items d) + cbor_items v \<le> unat (max_container_items lim)" "spans bs (dec_offset d) e j"
    for v e depth and d :: decoder and j
  proof -
    define n :: u64 where "n = (if v = Bool False then 20 else if v = Bool True then 21 else 22)"
    have n: "e = head_bytes 7 n @ []" and vn: "v = (if n = 20 then Bool False else if n = 21 then Bool True else Null)"
        "n \<in> {20, 21, 22}"
      using *(1,2) n_def head_bytes_cases(1) [of 20 7] head_bytes_cases(1) [of 21 7] head_bytes_cases(1) [of 22 7]
      by (auto simp: encode_canonical_simps)
    from *(5) have "spans bs (dec_offset d) (head_bytes 7 n @ []) j" by (simp add: n)
    then obtain c d1 k where c: "started bs lim depth d c d1" "drop_bit 5 c = 7" 
        "spans bs k [] j" "dec_argument bs (c AND 0x1f) d1 = Inr (n, \<lparr>dec_offset = k, dec_items = dec_items d + 1\<rparr>)"
      by (rule dec_head_complete [OF *(3,4) _ _ assms]) auto
    have "head_bytes 7 n = [push_bit 5 7 OR ucast n]" using vn(2) by (intro head_bytes_cases(1)) auto
    then have "c = push_bit 5 7 OR ucast n" "j = dec_offset d1"
      using started_span [OF c(1)] *(5) by (auto simp: n spans_single)
    moreover have "d1 = \<lparr>dec_offset = dec_offset d1, dec_items = dec_items d + 1\<rparr>"
      using c(1) by (cases d1) (auto simp: started_def checked_add_def split: if_splits)
    ultimately show ?thesis
      using c(1) vn by (auto simp: started_def dec_value.simps [of bs lim depth d])
  qed
  show "decodes bs lim (Bool b)" by (rule decodesI) (rule main, cases b, auto)
  show "decodes bs lim Null" by (rule decodesI) (rule main, auto)
qed

lemma decodes_Array:
  assumes "length bs < 2 ^ 64" and "\<And>v. v \<in> set vs \<Longrightarrow> decodes bs lim v"
  shows "decodes bs lim (Array vs)"
proof (rule decodesI)
  fix e depth and d :: decoder and j
  assume *: "encode_canonical (Array vs) = Inr e" "cbor_fits lim (Array vs) depth"
    "unat (dec_items d) + cbor_items (Array vs) \<le> unat (max_container_items lim)" "spans bs (dec_offset d) e j"
  have len: "length vs \<le> unat (max_container_items lim)"
    using *(3) length_le_sum [of vs cbor_items] cbor_items_pos by simp
  then have lt: "length vs < 2 ^ 64" by (rule le_unat_64)
  obtain es where es: "item_bytes vs = Inr es" "e = head_bytes 4 (of_nat (length vs)) @ concat es"
    using *(1) lt by (auto simp: encode_canonical_simps result_simps)
  have u: "unat (dec_items d + 1) = unat (dec_items d) + 1"
    using *(3) unat_add_of_nat [of "dec_items d" 1 "max_container_items lim"] by simp
  from *(4) have "spans bs (dec_offset d) (head_bytes 4 (of_nat (length vs)) @ concat es) j" by (simp add: es)
  then obtain b d1 k where b: "started bs lim depth d b d1" "drop_bit 5 b = 4"
      "dec_argument bs (b AND 0x1f) d1 = Inr (of_nat (length vs), \<lparr>dec_offset = k, dec_items = dec_items d + 1\<rparr>)"
      and k: "spans bs k (concat es) j"
    by (rule dec_head_complete [OF *(2,3) _ _ assms(1)]) auto
  have "dec_values bs lim (Suc depth) (length vs) \<lparr>dec_offset = k, dec_items = dec_items d + 1\<rparr> =
      Inr (map canon vs, \<lparr>dec_offset = j, dec_items = dec_items d + of_nat (cbor_items (Array vs))\<rparr>)"
    using *(2,3) u k assms(2) dec_values_complete [OF _ es(1), of bs lim "Suc depth" "\<lparr>dec_offset = k, dec_items = dec_items d + 1\<rparr>" j]
    by (simp add: list_all_iff add.assoc)
  then show "dec_value bs lim depth d =
      Inr (canon (Array vs), \<lparr>dec_offset = j, dec_items = dec_items d + of_nat (cbor_items (Array vs))\<rparr>)"
    using dec_value_branch(4) [OF b(1,3,2)] len lt by (simp add: of_nat_le_64)
qed


lemma canon_Map_sorted:
  assumes "encode_pairs es = Inr ps"
  shows "canon (Map es) = Map (map (map_prod canon canon) (sort_key (\<lambda>p. key_order (encoding (fst p))) es))"
proof -
  have "encoding (canon (fst p)) = encoding (fst p)" if "p \<in> set es" for p
    using assms that by (auto simp: encode_pairs_Ok_iff dest: encode_canon encoding_eq)
  then have "sort_key (\<lambda>p. key_order (encoding (canon (fst p)))) es = sort_key (\<lambda>p. key_order (encoding (fst p))) es"
    by (intro sort_key_cong) simp
  then show ?thesis by (simp add: sort_key_map)
qed

lemma decodes_Map:
  assumes "length bs < 2 ^ 64" and "\<And>p. p \<in> set es \<Longrightarrow> decodes bs lim (fst p) \<and> decodes bs lim (snd p)"
  shows "decodes bs lim (Map es)"
proof (rule decodesI)
  fix e depth and d :: decoder and j
  assume *: "encode_canonical (Map es) = Inr e" "cbor_fits lim (Map es) depth"
    "unat (dec_items d) + cbor_items (Map es) \<le> unat (max_container_items lim)" "spans bs (dec_offset d) e j"
  let ?w = "\<lambda>p. cbor_items (fst p) + cbor_items (snd p)"
  define after where "after k = \<lparr>dec_offset = k, dec_items = dec_items d + 1\<rparr>" for k
  define ss where "ss = sort_key (\<lambda>p. key_order (encoding (fst p))) es"
  have ss: "length ss = length es" "set ss = set es" "sum_list (map ?w ss) = sum_list (map ?w es)"
    by (simp_all add: ss_def sum_list_sort_key)
  have items: "cbor_items (Map es) = 1 + sum_list (map ?w es)" by (simp add: comp_def)
  have len: "length es \<le> unat (max_container_items lim)"
    using *(3) length_le_sum [of es ?w] cbor_items_pos unfolding items by fastforce
  then have lt: "length es < 2 ^ 64" by (rule le_unat_64)
  obtain ps where ps: "encode_pairs ss = Inr ps" "strictly_ordered (map fst ps)"
      "e = head_bytes 5 (of_nat (length es)) @ concat (map (\<lambda>p. fst p @ snd p) ps)"
    using *(1) lt encode_pairs_sorted unfolding ss_def
    by (fastforce simp: encode_canonical_Map result_simps Let_def length_encode_pairs split: if_splits)
  have u: "unat (dec_items d + 1) = unat (dec_items d) + 1"
    using *(3) unat_add_of_nat [of "dec_items d" 1 "max_container_items lim"] by simp
  from *(4) have "spans bs (dec_offset d) (head_bytes 5 (of_nat (length es)) @ concat (map (\<lambda>p. fst p @ snd p) ps)) j"
    by (simp add: ps)
  then obtain b d1 k where b: "started bs lim depth d b d1" "drop_bit 5 b = 5"
      "dec_argument bs (b AND 0x1f) d1 = Inr (of_nat (length es), after k)"
      and k: "spans bs k (concat (map (\<lambda>p. fst p @ snd p) ps)) j"
    by (rule dec_head_complete [OF *(2,3) _ _ assms(1)]) (auto simp: after_def)
  have "dec_entries bs lim (Suc depth) (length ss) None (after k) =
      Inr (map (map_prod canon canon) ss, \<lparr>dec_offset = j, dec_items = dec_items (after k) + of_nat (sum_list (map ?w ss))\<rparr>)"
    by (rule dec_entries_complete [OF _ ps(1)])
      (use *(2,3) u k assms(2) ps(2) ss in \<open>auto simp: after_def list_all_iff comp_def\<close>)
  moreover have "canon (Map es) = Map (map (map_prod canon canon) ss)"
    using *(1) canon_Map_sorted unfolding ss_def by (auto simp: encode_canonical_Map result_simps)
  ultimately show "dec_value bs lim depth d =
      Inr (canon (Map es), \<lparr>dec_offset = j, dec_items = dec_items d + of_nat (cbor_items (Map es))\<rparr>)"
    using dec_value_branch(5) [OF b(1,3,2)] len lt ss by (simp add: of_nat_le_64 after_def add.assoc comp_def)
qed


lemma decodes_all:
  assumes "length bs < 2 ^ 64"
  shows "decodes bs lim v"
proof (induction v)
  case (Map es)
  then show ?case by (intro decodes_Map [OF assms]) (auto simp: fsts.simps snds.simps)
qed (auto intro: assms decodes_Unsigned decodes_string decodes_Array decodes_simple)

lemma decode_canonical_complete:
  assumes "encode_canonical v = Inr bs" and "cbor_fits lim v 0"
    and "cbor_items v \<le> unat (max_container_items lim)" and "length bs \<le> unat (max_metadata_bytes lim)"
  shows "decode_canonical bs lim = Inr (canon v)"
proof -
  have lt: "length bs < 2 ^ 64" using assms(4) by (rule le_unat_64)
  have "dec_value bs lim 0 \<lparr>dec_offset = 0, dec_items = 0\<rparr> =
      Inr (canon v, \<lparr>dec_offset = length bs, dec_items = of_nat (cbor_items v)\<rparr>)"
    using decodes_all [OF lt, of lim v, unfolded decodes_def, rule_format, OF assms(1,2),
        of "\<lparr>dec_offset = 0, dec_items = 0\<rparr>" "length bs"] assms(3) by (simp add: spans_whole)
  moreover have "\<not> max_metadata_bytes lim < of_nat (length bs)"
    using of_nat_le_64 [OF assms(4)] by (simp add: not_less)
  ultimately show ?thesis using lt by (simp add: decode_canonical_def)
qed

end
