(* ===== verification/Ucof_Writer.thy ===== *)
theory Ucof_Writer
  imports Ucof_Format Ucof_Model Ucof_Cbor_Canonical
begin

text \<open>
  \<open>ucof-core/src/writer.rs\<close>: the in-memory writer. A method with \<open>&mut self\<close> returns its result
  and the writer it leaves, so that what a failing call leaves behind is part of the model; the
  SHA-256 function is the parameter \<open>sha\<close>. The file layout the writer produces is stated on its own
  (\<open>file_header\<close>, \<open>record_image\<close>, \<open>layout\<close>, \<open>footer_image\<close>, \<open>file_image\<close>) and the writer is proved to
  produce it.
\<close>

section \<open>Operations\<close>

record writer =
  w_bytes :: bytes
  w_entries :: "directory_entry list"
  w_object_ids :: "u64 set"

definition writer_new :: writer where
  "writer_new =
     (let bs = FILE_MAGIC;
          bs = push_u32_le bs EXPERIMENTAL_EPOCH;
          bs = push_u32_le bs 0;
          bs = push_u32_le bs (of_nat HEADER_LEN);
          bs = bs @ replicate 12 0
      in \<lparr>w_bytes = bs, w_entries = [], w_object_ids = {}\<rparr>)"

definition append_record :: "bytes \<Rightarrow> record_kind \<Rightarrow> u64 \<Rightarrow> bytes \<Rightarrow> bytes result" where
  "append_record target kind object_id payload =
     and_then (ok_or (InvalidLength ''payload'') (u64_try_from (length payload))) (\<lambda>payload_len.
     let target = target @ RECORD_MAGIC;
         target = push_u16_le target (u16_from_kind kind);
         target = push_u16_le target 0;
         target = push_u32_le target (of_nat RECORD_HEADER_LEN);
         target = push_u64_le target payload_len;
         target = push_u64_le target payload_len;
         target = push_u64_le target object_id;
         target = push_u32_le target 0
     in Ok (target @ payload))"

definition add_record :: "writer \<Rightarrow> record_kind \<Rightarrow> u64 \<Rightarrow> bytes \<Rightarrow> unit result \<times> writer" where
  "add_record w kind object_id payload =
     (if kind = Directory then (Err (InvalidRecordOrder ''directory is created during finalization''), w)
      else if object_id = 0 then (Err (InvalidMetadataSchema ''object identifier zero is reserved''), w)
      else if object_id \<in> w_object_ids w then (Err (DuplicateObjectId object_id), w)
      else let w = w\<lparr>w_object_ids := insert object_id (w_object_ids w)\<rparr> in
        case u64_try_from (length (w_bytes w)) of
          None \<Rightarrow> (Err (RangeOutOfBounds ''writer offset''), w)
        | Some offset \<Rightarrow>
          (case u64_try_from (length payload) of
             None \<Rightarrow> (Err (InvalidLength ''record payload''), w)
           | Some stored_len \<Rightarrow>
             (case append_record (w_bytes w) kind object_id payload of
                Inl e \<Rightarrow> (Err e, w)
              | Inr bs \<Rightarrow>
                (Ok (), w\<lparr>w_bytes := bs, w_entries := w_entries w @ [\<lparr>de_id = object_id, de_kind = kind,
                   de_offset = offset, de_stored_len = stored_len, de_logical_len = stored_len\<rparr>]\<rparr>))))"

definition add_opaque :: "writer \<Rightarrow> u64 \<Rightarrow> bytes \<Rightarrow> unit result \<times> writer" where
  "add_opaque w object_id payload = add_record w Opaque object_id payload"

definition add_manifest :: "writer \<Rightarrow> u64 \<Rightarrow> manifest \<Rightarrow> unit result \<times> writer" where
  "add_manifest w object_id m =
     (case validate_shape m of
        Inl e \<Rightarrow> (Err e, w)
      | Inr _ \<Rightarrow>
        (case encode_canonical (manifest_to_cbor m) of
           Inl e \<Rightarrow> (Err e, w)
         | Inr payload \<Rightarrow> add_record w Manifest object_id payload))"

definition directory_value :: "directory_entry list \<Rightarrow> cbor" where
  "directory_value entries = Map [(text_value ''entries'', Array (map entry_to_cbor entries))]"

text \<open>\<open>finish\<close> consumes the writer.\<close>

definition writer_finish :: "(bytes \<Rightarrow> bytes) \<Rightarrow> writer \<Rightarrow> u64 \<Rightarrow> bytes result" where
  "writer_finish sha w manifest_id =
     and_then (ok_or (MissingManifest manifest_id) (List.find (\<lambda>e. de_id e = manifest_id) (w_entries w))) (\<lambda>selected.
     if de_kind selected \<noteq> Manifest then Err (MissingManifest manifest_id) else
     and_then (encode_canonical (directory_value (w_entries w))) (\<lambda>directory_payload.
     and_then (ok_or (RangeOutOfBounds ''directory offset'') (u64_try_from (length (w_bytes w)))) (\<lambda>directory_offset.
     and_then (append_record (w_bytes w) Directory 0 directory_payload) (\<lambda>bs.
     and_then (ok_or (InvalidLength ''directory record'') (u64_try_from (length directory_payload))) (\<lambda>payload_len.
     let directory_total_len = of_nat RECORD_HEADER_LEN + payload_len in
     and_then (ok_or (InvalidLength ''record count'') (u64_try_from (length (w_entries w)))) (\<lambda>n.
     and_then (ok_or (InvalidLength ''record count'') (checked_add n 1)) (\<lambda>record_count.
     let digest = sha bs;
         bs = bs @ FOOTER_MAGIC;
         bs = push_u32_le bs (of_nat FOOTER_LEN);
         bs = push_u32_le bs 0;
         bs = push_u64_le bs directory_offset;
         bs = push_u64_le bs directory_total_len;
         bs = push_u64_le bs manifest_id;
         bs = push_u64_le bs record_count
     in Ok (bs @ digest))))))))"

section \<open>The file layout\<close>

text \<open>A record of a file, as its kind, identifier and payload.\<close>

type_synonym record_spec = "record_kind \<times> u64 \<times> bytes"

abbreviation spec_id :: "record_spec \<Rightarrow> u64" where
  "spec_id r \<equiv> fst (snd r)"

abbreviation spec_payload :: "record_spec \<Rightarrow> bytes" where
  "spec_payload r \<equiv> snd (snd r)"

definition file_header :: bytes where
  "file_header = FILE_MAGIC @ le_image 4 EXPERIMENTAL_EPOCH @ le_image 4 (0 :: u32) @
     le_image 4 (32 :: u32) @ replicate 12 0"

definition record_header :: "record_kind \<Rightarrow> u64 \<Rightarrow> u64 \<Rightarrow> bytes" where
  "record_header kind object_id n = RECORD_MAGIC @ le_image 2 (u16_from_kind kind) @ le_image 2 (0 :: u16) @
     le_image 4 (40 :: u32) @ le_image 8 n @ le_image 8 n @ le_image 8 object_id @ le_image 4 (0 :: u32)"

fun record_image :: "record_spec \<Rightarrow> bytes" where
  "record_image (kind, object_id, payload) =
     record_header kind object_id (of_nat (length payload)) @ payload"

definition body_image :: "record_spec list \<Rightarrow> bytes" where
  "body_image rs = file_header @ concat (map record_image rs)"

fun layout :: "nat \<Rightarrow> record_spec list \<Rightarrow> directory_entry list" where
  "layout offset [] = []"
| "layout offset ((kind, object_id, payload) # rs) =
     \<lparr>de_id = object_id, de_kind = kind, de_offset = of_nat offset,
      de_stored_len = of_nat (length payload), de_logical_len = of_nat (length payload)\<rparr>
     # layout (offset + 40 + length payload) rs"

definition footer_image :: "u64 \<Rightarrow> u64 \<Rightarrow> u64 \<Rightarrow> u64 \<Rightarrow> bytes \<Rightarrow> bytes" where
  "footer_image directory_offset directory_len manifest_id record_count digest =
     FOOTER_MAGIC @ le_image 4 (80 :: u32) @ le_image 4 (0 :: u32) @ le_image 8 directory_offset @
     le_image 8 directory_len @ le_image 8 manifest_id @ le_image 8 record_count @ digest"

text \<open>The file of the records \<open>rs\<close> with directory payload \<open>d\<close> and active manifest \<open>mid\<close>.\<close>

definition file_image :: "(bytes \<Rightarrow> bytes) \<Rightarrow> record_spec list \<Rightarrow> bytes \<Rightarrow> u64 \<Rightarrow> bytes" where
  "file_image sha rs d mid =
     (let body = body_image (rs @ [(Directory, 0, d)])
      in body @ footer_image (of_nat (length (body_image rs))) (of_nat (40 + length d)) mid
           (of_nat (length rs + 1)) (sha body))"

section \<open>The writer produces the layout\<close>

lemma length_file_header [simp]: "length file_header = 32"
  by (simp add: file_header_def)

lemma length_record_header [simp]: "length (record_header k i n) = 40"
  by (simp add: record_header_def)

lemma length_record_image [simp]: "length (record_image (k, i, p)) = 40 + length p"
  by simp

lemma length_footer_image [simp]: "length (footer_image a b c d e) = 48 + length e"
  by (simp add: footer_image_def)

lemma body_image_Nil [simp]: "body_image [] = file_header"
  by (simp add: body_image_def)

lemma body_image_snoc: "body_image (rs @ [r]) = body_image rs @ record_image r"
  by (simp add: body_image_def)

lemma layout_append:
  "layout n (rs @ rs') = layout n rs @ layout (n + length (concat (map record_image rs))) rs'"
  by (induction rs arbitrary: n) (auto simp: add.assoc)

lemma layout_snoc:
  "layout 32 (rs @ [(k, i, p)]) = layout 32 rs @
     [\<lparr>de_id = i, de_kind = k, de_offset = of_nat (length (body_image rs)),
       de_stored_len = of_nat (length p), de_logical_len = of_nat (length p)\<rparr>]"
  by (simp add: layout_append body_image_def)

lemma length_layout [simp]: "length (layout n rs) = length rs"
  by (induction n rs rule: layout.induct) auto

lemma map_de_id_layout [simp]: "map de_id (layout n rs) = map (\<lambda>(k, i, p). i) rs"
  by (induction n rs rule: layout.induct) auto

lemma map_de_kind_layout [simp]: "map de_kind (layout n rs) = map fst rs"
  by (induction n rs rule: layout.induct) auto

lemma append_record_eq:
  "length p < 2 ^ 64 \<Longrightarrow> append_record t k i p = Inr (t @ record_image (k, i, p))"
  by (simp add: append_record_def push_u16_le_def push_u32_le_def push_u64_le_def record_header_def)

section \<open>Writers and the records they hold\<close>

text \<open>\<open>writes w rs\<close>: a sequence of public calls on a new writer, some of which may have failed, has left
  \<open>w\<close>, and the records of the calls that succeeded are \<open>rs\<close>.\<close>

inductive writes :: "writer \<Rightarrow> record_spec list \<Rightarrow> bool" where
  writes_new: "writes writer_new []"
| writes_opaque: "writes w rs \<Longrightarrow> add_opaque w oid p = (Inr (), w') \<Longrightarrow> writes w' (rs @ [(Opaque, oid, p)])"
| writes_manifest: "writes w rs \<Longrightarrow> add_manifest w oid m = (Inr (), w') \<Longrightarrow>
    encode_canonical (manifest_to_cbor m) = Inr p \<Longrightarrow> writes w' (rs @ [(Manifest, oid, p)])"
| writes_opaque_fails: "writes w rs \<Longrightarrow> add_opaque w oid p = (Inl e, w') \<Longrightarrow> writes w' rs"
| writes_manifest_fails: "writes w rs \<Longrightarrow> add_manifest w oid m = (Inl e, w') \<Longrightarrow> writes w' rs"

definition writer_inv :: "writer \<Rightarrow> record_spec list \<Rightarrow> bool" where
  "writer_inv w rs \<longleftrightarrow>
     w_bytes w = body_image rs \<and> w_entries w = layout 32 rs \<and>
     distinct (map spec_id rs) \<and> 0 \<notin> spec_id ` set rs \<and> spec_id ` set rs \<subseteq> w_object_ids w \<and>
     Directory \<notin> fst ` set rs \<and>
     (\<forall>oid p. (Manifest, oid, p) \<in> set rs \<longrightarrow>
        (\<exists>m. validate_shape m = Inr () \<and> encode_canonical (manifest_to_cbor m) = Inr p))"

lemma writer_inv_new: "writer_inv writer_new []"
  by (simp add: writer_inv_def writer_new_def push_u32_le_def file_header_def)

lemma add_record_Ok:
  assumes "add_record w k oid p = (Inr (), w')"
  shows "k \<noteq> Directory" "oid \<noteq> 0" "oid \<notin> w_object_ids w"
    "w' = \<lparr>w_bytes = w_bytes w @ record_image (k, oid, p),
       w_entries = w_entries w @ [\<lparr>de_id = oid, de_kind = k, de_offset = of_nat (length (w_bytes w)),
         de_stored_len = of_nat (length p), de_logical_len = of_nat (length p)\<rparr>],
       w_object_ids = insert oid (w_object_ids w)\<rparr>"
    "length (w_bytes w) < 2 ^ 64" "length p < 2 ^ 64"
proof -
  have lens: "length (w_bytes w) < 2 ^ 64" "length p < 2 ^ 64"
    using assms by (auto simp: add_record_def Let_def u64_try_from_def split: if_splits option.splits)
  show "k \<noteq> Directory" "oid \<noteq> 0" "oid \<notin> w_object_ids w"
    "w' = \<lparr>w_bytes = w_bytes w @ record_image (k, oid, p),
       w_entries = w_entries w @ [\<lparr>de_id = oid, de_kind = k, de_offset = of_nat (length (w_bytes w)),
         de_stored_len = of_nat (length p), de_logical_len = of_nat (length p)\<rparr>],
       w_object_ids = insert oid (w_object_ids w)\<rparr>"
    using assms lens append_record_eq [OF lens(2)]
    by (auto simp: add_record_def Let_def split: if_splits)
  show "length (w_bytes w) < 2 ^ 64" "length p < 2 ^ 64" by fact+
qed

lemma add_record_fails:
  assumes "add_record w k oid p = (Inl e, w')"
  shows "w_bytes w' = w_bytes w" "w_entries w' = w_entries w" "w_object_ids w \<subseteq> w_object_ids w'"
  using assms
  by (auto simp: add_record_def Let_def split: if_splits option.splits sum.splits)

lemma writer_inv_add:
  assumes "writer_inv w rs" and "add_record w k oid p = (Inr (), w')"
    and "k = Manifest \<Longrightarrow> \<exists>m. validate_shape m = Inr () \<and> encode_canonical (manifest_to_cbor m) = Inr p"
  shows "writer_inv w' (rs @ [(k, oid, p)])"
  using assms add_record_Ok [OF assms(2)]
  by (auto simp: writer_inv_def body_image_snoc layout_snoc simp del: record_image.simps)

lemma writer_inv_fails:
  "writer_inv w rs \<Longrightarrow> add_record w k oid p = (Inl e, w') \<Longrightarrow> writer_inv w' rs"
  using add_record_fails [of w k oid p e w'] by (auto simp: writer_inv_def)

lemma writes_inv: "writes w rs \<Longrightarrow> writer_inv w rs"
proof (induction rule: writes.induct)
  case (writes_manifest w rs oid m w' p)
  then show ?case
    by (auto simp: add_manifest_def intro: writer_inv_add split: sum.splits)
next
  case (writes_manifest_fails w rs oid m e w')
  then show ?case
    by (auto simp: add_manifest_def intro: writer_inv_fails split: sum.splits)
qed (auto simp: add_opaque_def writer_inv_new intro: writer_inv_add writer_inv_fails)

lemma nth_layout:
  "i < length rs \<Longrightarrow> de_kind (layout n rs ! i) = fst (rs ! i)"
  "i < length rs \<Longrightarrow> de_id (layout n rs ! i) = spec_id (rs ! i)"
  by (induction n rs arbitrary: i rule: layout.induct; simp add: nth_Cons')+

lemma writer_finish_Ok:
  assumes "writer_inv w rs" and "writer_finish sha w mid = Inr bs"
  obtains d p where "encode_canonical (directory_value (layout 32 rs)) = Inr d"
    and "(Manifest, mid, p) \<in> set rs" and "bs = file_image sha rs d mid"
    and "length (body_image rs) < 2 ^ 64" "length d < 2 ^ 64" 
proof -
  have w: "w_bytes w = body_image rs" "w_entries w = layout 32 rs" using assms(1) by (simp_all add: writer_inv_def)
  from assms(2) obtain e d where e: "List.find (\<lambda>e. de_id e = mid) (layout 32 rs) = Some e" "de_kind e = Manifest"
    and d: "encode_canonical (directory_value (layout 32 rs)) = Inr d"
    and lens: "length (body_image rs) < 2 ^ 64" "length d < 2 ^ 64" "length rs < 2 ^ 64"
    by (auto simp: writer_finish_def result_simps w u64_try_from_def split: if_splits)
  have "bs = file_image sha rs d mid"
    using assms(2) e d lens append_record_eq [OF lens(2)]
    by (auto simp: writer_finish_def w result_simps Let_def file_image_def footer_image_def push_u32_le_def push_u64_le_def
        body_image_snoc checked_add_def add.commute [of "1 :: u64"] split: if_splits)
  obtain i where i: "i < length rs" "layout 32 rs ! i = e" "de_id e = mid"
    using e(1) by (auto simp: find_Some_iff)
  have "fst (rs ! i) = Manifest" "spec_id (rs ! i) = mid"
    using i e(2) by (auto simp: nth_layout)
  then have "(Manifest, mid, spec_payload (rs ! i)) \<in> set rs"
    using nth_mem [OF i(1)] by (metis prod.collapse)
  with d lens \<open>bs = _\<close> show thesis by (intro that)
qed

lemma writer_finish_complete:
  assumes "writer_inv w rs" and "(Manifest, mid, p) \<in> set rs"
    and "encode_canonical (directory_value (layout 32 rs)) = Inr d"
    and "length (body_image rs) < 2 ^ 64" and "length d < 2 ^ 64" and "length rs + 1 < 2 ^ 64"
  shows "writer_finish sha w mid = Inr (file_image sha rs d mid)"
proof -
  have w: "w_bytes w = body_image rs" "w_entries w = layout 32 rs" "distinct (map spec_id rs)"
    using assms(1) by (simp_all add: writer_inv_def)
  obtain i where i: "i < length rs" "rs ! i = (Manifest, mid, p)" using assms(2) by (auto simp: in_set_conv_nth)
  have "spec_id (rs ! j) \<noteq> mid" if "j < i" for j
    using nth_eq_iff_index_eq [OF w(3), of j i] i that by auto
  then have "List.find (\<lambda>e. de_id e = mid) (layout 32 rs) = Some (layout 32 rs ! i)"
    using i unfolding find_Some_iff by (intro exI [of _ i]) (simp add: nth_layout)
  moreover have "de_kind (layout 32 rs ! i) = Manifest" using i by (simp add: nth_layout)
  moreover have "append_record (body_image rs) Directory 0 d = Inr (body_image (rs @ [(Directory, 0, d)]))"
    using append_record_eq [OF assms(5)] by (simp add: body_image_snoc)
  moreover have "checked_add (of_nat (length rs)) (1 :: u64) = Some (of_nat (length rs + 1))"
    using assms(6) by (simp add: checked_add_def)
  ultimately show ?thesis
    using assms(3-6)
    by (simp add: writer_finish_def w Let_def file_image_def push_u32_le_def push_u64_le_def footer_image_def)
qed
section \<open>The metadata always encodes\<close>

lemma encode_text_value:
  assumes "length s < 24"
  shows "encode_canonical (text_value s) = Inr ((0x60 OR of_nat (length s)) # str_bytes s)"
proof -
  have "of_nat (length s) \<le> (23 :: u64)" using assms of_nat_le_64 [of "length s" 23] by simp
  moreover have "ucast (of_nat (length s) :: u64) = (of_nat (length s) :: u8)"
    using assms by (simp add: word_unat_eq_iff unat_of_nat unat_ucast_down take_bit_nat_eq_self)
  ultimately have "head_bytes 3 (of_nat (length s)) = [0x60 OR of_nat (length s)]"
    by (simp add: head_bytes_def encode_head_def del: encode_head_append)
  moreover have "length (str_bytes s) = length s" by (simp add: str_bytes_def)
  ultimately show ?thesis using assms by (simp add: text_value_def encode_canonical_simps)
qed

lemma encode_entry_Ok: "\<exists>b. encode_canonical (entry_to_cbor e) = Inr b"
  by (simp add: entry_to_cbor_def encode_canonical_Map encode_pairs_eq encode_text_value encode_canonical_simps
      Let_def strictly_ordered_iff key_order_def str_bytes_def)

lemma item_bytes_total: "(\<And>v. v \<in> set vs \<Longrightarrow> \<exists>b. encode_canonical v = Inr b) \<Longrightarrow> \<exists>bs. item_bytes vs = Inr bs"
  by (induction vs) (fastforce simp: item_bytes_def)+

lemma encode_unsigned_array:
  "length ns < 2 ^ 64 \<Longrightarrow> \<exists>b. encode_canonical (Array (map Unsigned ns)) = Inr b"
  using item_bytes_total [of "map Unsigned ns"] by (fastforce simp: encode_canonical_simps)

lemma encode_manifest_Ok:
  assumes "length (roots m) < 2 ^ 64" and "length (required_capabilities m) < 2 ^ 64"
    and "length (optional_capabilities m) < 2 ^ 64"
  shows "\<exists>b. encode_canonical (manifest_to_cbor m) = Inr b"
proof -
  obtain b1 b2 b3 where "encode_canonical (Array (map Unsigned (roots m))) = Inr b1"
    "encode_canonical (Array (map Unsigned (required_capabilities m))) = Inr b2"
    "encode_canonical (Array (map Unsigned (optional_capabilities m))) = Inr b3"
    using assms [THEN encode_unsigned_array] by blast
  then show ?thesis
    by (simp add: manifest_to_cbor_def encode_canonical_Map encode_pairs_eq encode_text_value Let_def
        strictly_ordered_iff key_order_def str_bytes_def)
qed

lemma encode_directory_Ok:
  assumes "length es < 2 ^ 64"
  shows "\<exists>b. encode_canonical (directory_value es) = Inr b"
proof -
  obtain bs where "item_bytes (map entry_to_cbor es) = Inr bs"
    using item_bytes_total [of "map entry_to_cbor es"] encode_entry_Ok by auto
  then show ?thesis using assms
    by (simp add: directory_value_def encode_canonical_Map encode_pairs_eq encode_text_value encode_canonical_simps
        Let_def strictly_ordered_iff key_order_def str_bytes_def)
qed

end
