(* ===== verification/Ucof_Metadata.thy ===== *)
theory Ucof_Metadata
  imports Ucof_Reader Ucof_Writer Ucof_Cbor_Canonical "HOL-Library.Multiset"
begin

text \<open>
  The metadata schemas of \<open>reader.rs\<close> against the CBOR images of \<open>model.rs\<close> and \<open>writer.rs\<close>: a
  directory or a manifest that is written is read back, and one that is read has exactly the bytes
  that would be written for it.
\<close>

section \<open>Maps with exactly the expected keys\<close>

definition keyed :: "bytes list \<Rightarrow> (cbor \<times> cbor) list \<Rightarrow> bytes list \<Rightarrow> bool" where
  "keyed allowed es ks \<longleftrightarrow> map fst es = map Text ks \<and> distinct ks \<and> set ks \<subseteq> set allowed"

lemma keyed_simps [simp]:
  "keyed al [] ks \<longleftrightarrow> ks = []"
  "keyed al ((k, v) # es) ks \<longleftrightarrow>
     (\<exists>t ts. k = Text t \<and> ks = t # ts \<and> t \<in> set al \<and> t \<notin> set ts \<and> keyed al es ts)"
  by (auto simp: keyed_def Cons_eq_map_conv)

lemma keyed_length: "keyed al es ks \<Longrightarrow> length ks = length es"
  by (auto simp: keyed_def dest: arg_cong [where f = length])

lemma map_add_Cons: "t \<notin> set ts \<Longrightarrow> 
   m0(t \<mapsto> v) ++ map_of (zip ts vs) = m0 ++ map_of (zip (t # ts) (v # vs))"
  by (auto simp: map_add_def fun_eq_iff split: option.splits dest: map_of_SomeD set_zip_leftD)

lemma exact_map_loop_Ok_iff:
  "exact_map_loop es ex c m0 = Inr m \<longleftrightarrow>
     (\<exists>ks. keyed (map str_bytes ex) es ks \<and> set ks \<inter> dom m0 = {} \<and> m = m0 ++ map_of (zip ks (map snd es)))"
proof (induction es ex c m0 rule: exact_map_loop.induct)
  case (2 k v es ex c m0)
  show ?case
  proof (cases k)
    case (Text key)
    show ?thesis
    proof (cases "key \<notin> set (map str_bytes ex) \<or> m0 key \<noteq> None")
      case False
      then have "exact_map_loop ((k, v) # es) ex c m0 = Inr m \<longleftrightarrow>
          (\<exists>ts. keyed (map str_bytes ex) es ts \<and> set ts \<inter> dom (m0(key \<mapsto> v)) = {} \<and>
            m = m0(key \<mapsto> v) ++ map_of (zip ts (map snd es)))"
        using Text 2(1) [OF Text False] by (simp add: fun_upd_def)
      also have "\<dots> \<longleftrightarrow> (\<exists>ts. keyed (map str_bytes ex) es ts \<and> key \<notin> set ts \<and> set ts \<inter> dom m0 = {} \<and>
            m = m0 ++ map_of (zip (key # ts) (v # map snd es)))"
        using map_add_Cons [of key _ m0 v] by (intro ex_cong1) auto
      also have "\<dots> \<longleftrightarrow> (\<exists>ts. keyed (map str_bytes ex) ((k, v) # es) (key # ts) \<and> set (key # ts) \<inter> dom m0 = {} \<and>
            m = m0 ++ map_of (zip (key # ts) (map snd ((k, v) # es))))"
        using False Text by (simp add: domIff conj_ac cong: conj_cong)
      also have "\<dots> \<longleftrightarrow> (\<exists>ks. keyed (map str_bytes ex) ((k, v) # es) ks \<and> set ks \<inter> dom m0 = {} \<and>
            m = m0 ++ map_of (zip ks (map snd ((k, v) # es))))"
        using Text by (metis (no_types, lifting) cbor.inject(3) keyed_simps(2))
      finally show ?thesis .
    qed (auto simp: Text domIff)
  qed auto
qed auto

lemma keyed_mset:
  assumes "keyed al es ks" and "length es = length al" and "distinct al"
  shows "mset es = mset (map (\<lambda>k. (Text k, the (map_of (zip ks (map snd es)) k))) al)"
proof -
  have len: "length ks = length es" and "distinct ks" and sub: "set ks \<subseteq> set al" and fst: "map fst es = map Text ks"
    using assms(1) by (auto simp: keyed_def keyed_length)
  then have "set ks = set al"
    using assms(2,3) by (metis card_subset_eq distinct_card List.finite_set)
  then have "mset al = mset ks" using \<open>distinct ks\<close> assms(3) by (simp add: set_eq_iff_mset_eq_distinct)
  moreover have "es = map (\<lambda>k. (Text k, the (map_of (zip ks (map snd es)) k))) ks"
  proof (rule nth_equalityI)
    fix i assume i: "i < length es"
    then have "map_of (zip ks (map snd es)) (ks ! i) = Some (snd (es ! i))"
      using len \<open>distinct ks\<close> by (simp add: map_of_zip_nth)
    then show "es ! i = map (\<lambda>k. (Text k, the (map_of (zip ks (map snd es)) k))) ks ! i"
      using i len arg_cong [OF fst, of "\<lambda>xs. xs ! i"] by (simp add: prod_eq_iff)
  qed (use len in simp)
  ultimately show ?thesis by (metis mset_map)
qed

lemma exact_map_Ok_cases:
  assumes "exact_map v ex c = Inr m" and "distinct (map str_bytes ex)"
  obtains es where "v = Map es" "mset es = mset (map (\<lambda>k. (text_value k, the (m (str_bytes k)))) ex)"
proof -
  from assms(1) obtain es where v: "v = Map es" "length es = length ex" "exact_map_loop es ex c Map.empty = Inr m"
    by (auto simp: exact_map_def split: cbor.splits if_splits)
  then obtain ks where "keyed (map str_bytes ex) es ks" "m = map_of (zip ks (map snd es))"
    by (auto simp: exact_map_loop_Ok_iff)
  from keyed_mset [OF this(1) _ assms(2)] this(2) v(2)
  have "mset es = mset (map (\<lambda>k. (text_value k, the (m (str_bytes k)))) ex)"
    by (simp add: text_value_def comp_def)
  with v(1) show thesis by (rule that)
qed

lemma exact_map_perm:
  assumes "mset es = mset (map (\<lambda>k. (text_value k, f k)) ex)" and "distinct (map str_bytes ex)"
  obtains m where "exact_map (Map es) ex c = Inr m" "\<forall>k \<in> set ex. m (str_bytes k) = Some (f k)"
proof -
  let ?ks = "map (\<lambda>p. case fst p of Text t \<Rightarrow> t | _ \<Rightarrow> []) es"
  have mem: "p \<in> set es \<longleftrightarrow> (\<exists>k \<in> set ex. p = (text_value k, f k))" for p
    using mset_eq_setD [OF assms(1)] by auto
  have "mset ?ks = mset (map str_bytes ex)"
    using arg_cong [OF assms(1), of "image_mset (\<lambda>p. case fst p of Text t \<Rightarrow> t | _ \<Rightarrow> [])"]
    by (simp add: text_value_def image_mset.compositionality comp_def flip: mset_map)
  then have dist: "distinct ?ks" and set: "set ?ks = set (map str_bytes ex)"
    using assms(2) by (metis mset_eq_imp_distinct_iff, metis mset_eq_setD)
  have keyed: "keyed (map str_bytes ex) es ?ks"
    using dist set mem by (auto simp: keyed_def text_value_def)
  have len: "length es = length ex" using arg_cong [OF assms(1), of size] by simp
  let ?m = "map_of (zip ?ks (map snd es))"
  have "exact_map (Map es) ex c = Inr ?m"
    using keyed len by (auto simp: exact_map_def exact_map_loop_Ok_iff intro!: exI [of _ ?ks])
  moreover have "?m (str_bytes k) = Some (f k)" if k: "k \<in> set ex" for k
  proof -
    obtain i where i: "i < length es" "es ! i = (text_value k, f k)"
      using k mem [of "(text_value k, f k)"] by (metis in_set_conv_nth)
    then have "?m (?ks ! i) = Some (map snd es ! i)"
      using dist by (intro map_of_zip_nth) auto
    with i show ?thesis by (simp add: text_value_def)
  qed
  ultimately show thesis by (blast intro: that)
qed

section \<open>The encoder does not depend on the order of map entries\<close>

lemma strictly_ordered_distinct: "strictly_ordered ks \<Longrightarrow> distinct ks"
  by (induction ks) (auto simp: strictly_ordered_iff)

lemma encode_Map_mset:
  assumes "encode_canonical (Map es) = Inr b" and "mset es = mset es'"
  shows "encode_canonical (Map es') = Inr b"
proof -
  let ?f = "\<lambda>p. (encoding (fst p), encoding (snd p))" and ?sort = "sort_key (\<lambda>p. key_order (fst p))"
  from assms(1) have pairs: "encode_pairs es = Inr (map ?f es)"
    and ord: "strictly_ordered (map fst (?sort (map ?f es)))"
    by (auto simp: encode_canonical_Map result_simps Let_def encode_pairs_Ok_iff split: if_splits)
  have pairs': "encode_pairs es' = Inr (map ?f es')"
    using pairs mset_eq_setD [OF assms(2)] by (simp add: encode_pairs_Ok_iff)
  have "mset (map fst (?sort (map ?f es))) = mset (map fst (map ?f es))"
    by (simp add: image_mset.compositionality)
  from mset_eq_imp_distinct_iff [OF this] have "distinct (map fst (map ?f es))"
    using strictly_ordered_distinct [OF ord] by blast
  then have "inj_on (\<lambda>p. key_order (fst p)) (set (map ?f es))"
    unfolding distinct_map inj_on_def key_order_def by blast
  then have "?sort (map ?f es) = ?sort (map ?f es')"
    using assms(2) by (intro sort_key_inj_key_eq) auto
  then show ?thesis using assms(1) pairs pairs' by (simp add: encode_canonical_Map)
qed

section \<open>Manifests\<close>

lemma unsigned_Ok_iff [result_simps]: "unsigned x c = Inr n \<longleftrightarrow> x = Some (Unsigned n)"
  by (induction x c rule: unsigned.induct) auto

lemma try_map_unsigned: "try_map (\<lambda>v. unsigned (Some v) c) vs = Inr ns \<longleftrightarrow> vs = map Unsigned ns"
  by (induction vs arbitrary: ns) (auto simp: result_simps Cons_eq_map_conv)

lemma unsigned_array_Ok_iff [result_simps]:
  "unsigned_array x c = Inr ns \<longleftrightarrow> x = Some (Array (map Unsigned ns))"
  by (induction x c rule: unsigned_array.induct) (auto simp: try_map_unsigned)

lemma unsigned_array_image [simp]: "unsigned_array (Some (Array (map Unsigned ns))) c = Inr ns"
  by (simp only: unsigned_array_Ok_iff)

lemma str_bytes_simps [simp]:
  "str_bytes [] = []" "str_bytes (c # cs) = of_char c # str_bytes cs"
  by (simp_all add: str_bytes_def)

lemma manifest_keys: "distinct (map str_bytes [''roots'', ''required'', ''optional''])"
  by (simp)

lemma directory_entry_keys: "distinct (map str_bytes [''id'', ''kind'', ''offset'', ''stored_len'', ''logical_len''])"
  by (simp)

lemma parse_manifest_encode:
  assumes "parse_manifest v = Inr m" and "encode_canonical v = Inr b"
  shows "encode_canonical (manifest_to_cbor m) = Inr b"
proof -
  from assms(1) obtain mp where mp: "exact_map v [''roots'', ''required'', ''optional''] ''manifest'' = Inr mp"
    and arrs: "mp (str_bytes ''roots'') = Some (Array (map Unsigned (roots m)))"
      "mp (str_bytes ''required'') = Some (Array (map Unsigned (required_capabilities m)))"
      "mp (str_bytes ''optional'') = Some (Array (map Unsigned (optional_capabilities m)))"
    by (auto simp: parse_manifest_def result_simps Let_def simp del: str_bytes_simps)
  from exact_map_Ok_cases [OF mp manifest_keys] obtain es where
    es: "v = Map es" "mset es = mset (map (\<lambda>k. (text_value k, the (mp (str_bytes k)))) [''roots'', ''required'', ''optional''])"
    .
  then have "encode_canonical (Map (map (\<lambda>k. (text_value k, the (mp (str_bytes k)))) [''roots'', ''required'', ''optional''])) = Inr b"
    using assms(2) encode_Map_mset by blast
  then show ?thesis by (simp add: manifest_to_cbor_def arrs del: str_bytes_simps)
qed

lemma canon_unsigned [simp]: "map (canon \<circ> Unsigned) ns = map Unsigned ns"
  by simp

lemma canon_text_value [simp]: "canon (text_value s) = text_value s"
  by (simp add: text_value_def)

lemma parse_manifest_canon:
  assumes "validate_shape m = Inr ()"
  shows "parse_manifest (canon (manifest_to_cbor m)) = Inr m"
proof -
  define f where "f = (\<lambda>k. if k = ''roots'' then Array (map Unsigned (roots m))
     else if k = ''required'' then Array (map Unsigned (required_capabilities m))
     else Array (map Unsigned (optional_capabilities m)))"
  obtain es where es: "canon (manifest_to_cbor m) = Map es"
    "mset es = mset (map (\<lambda>k. (text_value k, f k)) [''roots'', ''required'', ''optional''])"
    by (simp add: manifest_to_cbor_def f_def)
  from exact_map_perm [OF es(2) manifest_keys, of "''manifest''"] obtain mp where
    mp: "exact_map (Map es) [''roots'', ''required'', ''optional''] ''manifest'' = Inr mp"
      "\<forall>k \<in> set [''roots'', ''required'', ''optional'']. mp (str_bytes k) = Some (f k)" .
  have "mp (str_bytes ''roots'') = Some (Array (map Unsigned (roots m)))"
    "mp (str_bytes ''required'') = Some (Array (map Unsigned (required_capabilities m)))"
    "mp (str_bytes ''optional'') = Some (Array (map Unsigned (optional_capabilities m)))"
    using mp(2) by (simp_all add: f_def)
  moreover have "m = \<lparr>roots = roots m, required_capabilities = required_capabilities m,
      optional_capabilities = optional_capabilities m\<rparr>" by simp
  ultimately show ?thesis
    using assms unfolding es(1) parse_manifest_def mp(1)
    by (metis (no_types, lifting) and_then_simps(2) unsigned_array_image)
qed

section \<open>Directories\<close>

abbreviation entry_keys :: "string list" where
  "entry_keys \<equiv> [''id'', ''kind'', ''offset'', ''stored_len'', ''logical_len'']"

definition entry_field :: "directory_entry \<Rightarrow> string \<Rightarrow> cbor" where
  "entry_field e k = Unsigned
     (if k = ''id'' then de_id e
      else if k = ''kind'' then ucast (u16_from_kind (de_kind e))
      else if k = ''offset'' then de_offset e
      else if k = ''stored_len'' then de_stored_len e
      else de_logical_len e)"

lemma entry_to_cbor_fields: "entry_to_cbor e = Map (map (\<lambda>k. (text_value k, entry_field e k)) entry_keys)"
  by (simp add: entry_to_cbor_def entry_field_def)

lemma parse_directory_entry_fields:
  "parse_directory_entry v = Inr e \<longleftrightarrow>
     (\<exists>mp. exact_map v entry_keys ''directory entry'' = Inr mp \<and>
        (\<forall>k \<in> set entry_keys. mp (str_bytes k) = Some (entry_field e k)))"
proof -
  have k: "u16_try_from w = Some v \<longleftrightarrow> w = ucast v" for w v
    by (auto simp: u16_try_from_Some_iff word_unat_eq_iff unat_ucast_64)
  show ?thesis
    by (cases e) (auto simp: parse_directory_entry_def result_simps entry_field_def record_kind_Ok_iff k
      simp del: str_bytes_simps)
qed

lemma parse_directory_entry_encode:
  assumes "parse_directory_entry v = Inr e" and "encode_canonical v = Inr b"
  shows "encode_canonical (entry_to_cbor e) = Inr b"
proof -
  from assms(1) obtain mp where mp: "exact_map v entry_keys ''directory entry'' = Inr mp"
    and "\<forall>k \<in> set entry_keys. mp (str_bytes k) = Some (entry_field e k)"
    unfolding parse_directory_entry_fields by blast
  then have eq: "map (\<lambda>k. (text_value k, the (mp (str_bytes k)))) entry_keys =
      map (\<lambda>k. (text_value k, entry_field e k)) entry_keys"
    by (intro map_cong) auto
  from exact_map_Ok_cases [OF mp directory_entry_keys, unfolded eq] obtain es where
    "v = Map es" "mset es = mset (map (\<lambda>k. (text_value k, entry_field e k)) entry_keys)" .
  then show ?thesis
    unfolding entry_to_cbor_fields using assms(2) encode_Map_mset by blast
qed

lemma canon_entry_field [simp]: "canon (entry_field e k) = entry_field e k"
  by (simp add: entry_field_def)

lemma parse_directory_entry_canon: "parse_directory_entry (canon (entry_to_cbor e)) = Inr e"
proof -
  obtain es where es: "canon (entry_to_cbor e) = Map es"
    "mset es = mset (map (\<lambda>k. (text_value k, entry_field e k)) entry_keys)"
    by (simp add: entry_to_cbor_fields)
  from exact_map_perm [OF es(2) directory_entry_keys, of "''directory entry''"] obtain mp where
    "exact_map (Map es) entry_keys ''directory entry'' = Inr mp"
    "\<forall>k \<in> set entry_keys. mp (str_bytes k) = Some (entry_field e k)" .
  then show ?thesis
    unfolding parse_directory_entry_fields es(1) by blast
qed

lemma directory_key: "distinct (map str_bytes [''entries''])"
  by simp

lemma case_array_Ok:
  "(case v of Array vs \<Rightarrow> f vs | _ \<Rightarrow> Err e) = Inr x \<longleftrightarrow> (\<exists>vs. v = Array vs \<and> f vs = Inr x)"
  by (cases v) auto

lemma parse_directory_Ok_iff:
  "parse_directory v = Inr es \<longleftrightarrow>
     (\<exists>vs. v = Map [(text_value ''entries'', Array vs)] \<and> try_map parse_directory_entry vs = Inr es)"
proof
  assume "parse_directory v = Inr es"
  then obtain mp vs where mp: "exact_map v [''entries''] ''directory'' = Inr mp"
    and vs: "mp (str_bytes ''entries'') = Some (Array vs)" "try_map parse_directory_entry vs = Inr es"
    by (auto simp: parse_directory_def result_simps case_array_Ok simp del: str_bytes_simps)
  from exact_map_Ok_cases [OF mp directory_key] vs(1) have "v = Map [(text_value ''entries'', Array vs)]"
    by (auto simp del: str_bytes_simps)
  with vs(2) show "\<exists>vs. v = Map [(text_value ''entries'', Array vs)] \<and> try_map parse_directory_entry vs = Inr es"
    by blast
qed (auto simp: parse_directory_def exact_map_def text_value_def)

lemma parse_directory_encode:
  assumes "parse_directory v = Inr es" and "encode_canonical v = Inr b"
  shows "encode_canonical (directory_value es) = Inr b"
proof -
  from assms(1) obtain vs where v: "v = Map [(text_value ''entries'', Array vs)]"
    and vs: "try_map parse_directory_entry vs = Inr es"
    unfolding parse_directory_Ok_iff by blast
  have "item_bytes vs = Inr bs \<Longrightarrow> item_bytes (map entry_to_cbor es) = Inr bs" for bs
    using vs
  proof (induction vs arbitrary: es bs)
    case (Cons v vs)
    then show ?case by (auto simp: item_bytes_def result_simps dest: parse_directory_entry_encode)
  qed (simp add: item_bytes_def)
  moreover have "length es = length vs" using vs by (rule try_map_length)
  ultimately have "encode_canonical (Array vs) = Inr c \<Longrightarrow> encode_canonical (Array (map entry_to_cbor es)) = Inr c" for c
    by (auto simp: encode_canonical_simps result_simps)
  then show ?thesis
    using assms(2) unfolding v directory_value_def
    by (auto simp: encode_canonical_Map encode_pairs_eq result_simps)
qed

lemma parse_directory_canon: "parse_directory (canon (directory_value es)) = Inr es"
proof -
  have "try_map parse_directory_entry (map (canon \<circ> entry_to_cbor) es) = Inr es"
    by (induction es) (simp_all add: parse_directory_entry_canon)
  then show ?thesis by (simp add: parse_directory_Ok_iff directory_value_def)
qed

section \<open>Sizes\<close>

definition manifest_fits :: "limits \<Rightarrow> manifest \<Rightarrow> bool" where
  "manifest_fits lim m \<longleftrightarrow> 2 \<le> max_metadata_depth lim \<and> 8 \<le> unat (max_text_bytes lim) \<and>
     7 + length (roots m) + length (required_capabilities m) + length (optional_capabilities m)
       \<le> unat (max_container_items lim)"

definition directory_fits :: "limits \<Rightarrow> nat \<Rightarrow> bool" where
  "directory_fits lim n \<longleftrightarrow> 3 \<le> max_metadata_depth lim \<and> 11 \<le> unat (max_text_bytes lim) \<and>
     3 + 11 * n \<le> unat (max_container_items lim)"

lemma manifest_decodes:
  assumes "encode_canonical (manifest_to_cbor m) = Inr p" and "validate_shape m = Inr ()"
    and "manifest_fits lim m" and "length p \<le> unat (max_metadata_bytes lim)"
  shows "and_then (decode_canonical p lim) parse_manifest = Inr m"
proof -
  have "cbor_items (manifest_to_cbor m) \<le> unat (max_container_items lim)"
    using assms(3) by (simp add: manifest_to_cbor_def manifest_fits_def text_value_def comp_def sum_list_triv)
  moreover have "cbor_fits lim (manifest_to_cbor m) 0"
    using assms(3) by (simp add: manifest_to_cbor_def manifest_fits_def text_value_def list_all_iff)
  ultimately have "decode_canonical p lim = Inr (canon (manifest_to_cbor m))"
    using decode_canonical_complete assms(1,4) by blast
  then show ?thesis using parse_manifest_canon [OF assms(2)] by simp
qed

lemma directory_decodes:
  assumes "encode_canonical (directory_value es) = Inr p"
    and "directory_fits lim (length es)" and "length p \<le> unat (max_metadata_bytes lim)"
  shows "and_then (decode_canonical p lim) parse_directory = Inr es"
proof -
  have "cbor_items (directory_value es) \<le> unat (max_container_items lim)"
    using assms(2) by (simp add: directory_value_def directory_fits_def text_value_def comp_def entry_to_cbor_def sum_list_triv)
  moreover have "cbor_fits lim (directory_value es) 0"
    using assms(2) by (simp add: directory_value_def directory_fits_def text_value_def entry_to_cbor_def list_all_iff)
  ultimately have "decode_canonical p lim = Inr (canon (directory_value es))"
    using decode_canonical_complete assms(1,3) by blast
  then show ?thesis using parse_directory_canon by simp
qed

end
