(* ===== verification/Ucof_File.thy ===== *)
theory Ucof_File
  imports Ucof_Metadata
begin

text \<open>
  The reader (\<open>reader.rs\<close>) against the file layout of the writer (\<open>writer.rs\<close>): what validation
  accepts is exactly a well-formed sequence of records with its directory, footer and digest.
\<close>

section \<open>Framing\<close>

lemma take_eq_append_iff:
  assumes "length a = m" and "m \<le> n" and "n \<le> length xs"
  shows "take n xs = a @ b \<longleftrightarrow> take m xs = a \<and> take (n - m) (drop m xs) = b"
proof -
  have "take n xs = take m xs @ take (n - m) (drop m xs)"
    using assms(2) by (metis le_add_diff_inverse take_add)
  then show ?thesis using assms by simp
qed

lemma le_value_eq_iff:
  "length xs = 2 \<Longrightarrow> le_value xs = (h :: u16) \<longleftrightarrow> xs = le_image 2 h"
  "length xs = 4 \<Longrightarrow> le_value xs = (w :: u32) \<longleftrightarrow> xs = le_image 4 w"
  "length xs = 8 \<Longrightarrow> le_value xs = (d :: u64) \<longleftrightarrow> xs = le_image 8 d"
  using le_image_value [of xs, where 'a = 16] le_image_value [of xs, where 'a = 32] le_image_value [of xs, where 'a = 64]
  by (auto simp: wire_simps)

lemma replicate_zero_iff: "length xs = n \<Longrightarrow> xs = replicate n (0 :: byte) \<longleftrightarrow> \<not> list_ex (\<lambda>b. b \<noteq> 0) xs"
  by (auto simp: list_ex_iff intro: replicate_eqI) (metis in_set_replicate)

lemma validate_header_Ok_iff:
  assumes "length bs < 2 ^ 64"
  shows "validate_header bs = Inr u \<longleftrightarrow> 32 \<le> length bs \<and> take 32 bs = file_header"
proof (cases "32 \<le> length bs")
  case True
  then show ?thesis
    using assms
    by (simp add: validate_header_def file_header_def take_eq_append_iff take_slice_eq read_u32_le_def replicate_zero_iff result_simps le_value_eq_iff)
next
  case False
  then have "take_slice bs 20 12 c = Inr x \<Longrightarrow> False" for c x
    by (simp add: take_slice_Ok_iff)
  with False show ?thesis by (auto simp: validate_header_def result_simps split: if_splits)
qed

lemma parse_footer_Ok_iff:
  assumes "length bs < 2 ^ 64" and "n + 80 \<le> length bs"
  shows "parse_footer bs n = Inr ft \<longleftrightarrow>
    take 80 (drop n bs) = footer_image (ft_directory_offset ft) (ft_directory_len ft) (ft_manifest_id ft)
      (ft_record_count ft) (ft_digest ft)"
  using assms
  by (cases ft) (simp add: parse_footer_def footer_image_def take_eq_append_iff take_slice_eq read_u32_le_def
      read_u64_le_def result_simps le_value_eq_iff add.commute cong: conj_cong; (auto simp: le_value_eq_iff[symmetric])?)

lemma record_header_fields:
  assumes "length bs < 2 ^ 64" and "i + 40 \<le> length bs"
  shows "take 40 (drop i bs) = record_header k oid n \<longleftrightarrow>
    take_slice bs i 4 c1 = Inr RECORD_MAGIC \<and> read_u16_le bs (i + 4) c2 = Inr (u16_from_kind k) \<and>
    read_u16_le bs (i + 6) c3 = Inr 0 \<and> read_u32_le bs (i + 8) c4 = Inr 40 \<and>
    read_u64_le bs (i + 12) c5 = Inr n \<and> read_u64_le bs (i + 20) c6 = Inr n \<and>
    read_u64_le bs (i + 28) c7 = Inr oid \<and> read_u32_le bs (i + 36) c8 = Inr 0"
  using assms
  by (simp add: record_header_def take_eq_append_iff take_slice_eq read_u16_le_def read_u32_le_def
      read_u64_le_def le_value_eq_iff add.commute)

lemma u64_try_from_cases: "u64_try_from n = (if n < 2 ^ 64 then Some (of_nat n) else None)"
  by (simp add: u64_try_from_def)

lemma scan_record_complete:
  assumes "length bs < 2 ^ 64" and "fo \<le> length bs" and "i + 40 + unat len \<le> fo"
    and "take 40 (drop i bs) = record_header k oid len"
    and "len \<le> max_payload_bytes lim" and "n < unat (max_records lim)"
    and "if k = Directory then oid = 0 \<and> ids' = ids else oid \<noteq> 0 \<and> oid \<notin> ids \<and> ids' = insert oid ids"
  shows "scan_record bs fo lim n i ids = Inr (\<lparr>ri_kind = k, ri_object_id = oid, ri_offset = of_nat i,
    ri_stored_len = len, ri_logical_len = len, ri_payload_range = (i + 40, i + 40 + unat len)\<rparr>, ids')"
proof -
  have n: "u64_try_from n = Some (of_nat n)" "\<not> max_records lim \<le> of_nat n"
    using assms(6) le_unat_64 [of n "max_records lim"] 
    by (simp_all add: word_le_nat_alt)
  have i: "i + 40 < 2 ^ 64" "u64_try_from i = Some (of_nat i)" "u64_try_from (i + 40) = Some (of_nat (i + 40))"
    using assms(1-3) by simp_all
  have "checked_range (of_nat (i + 40)) len fo ''record payload'' = Inr (i + 40, i + 40 + unat len)"
    using assms(1-3) i by (simp add: checked_range_Ok_iff del: of_nat_add)
  then show ?thesis
    using assms i n record_header_fields [of bs i k oid len]
    by (simp add: scan_record_def usize_checked_add_def not_less del: of_nat_add split: if_splits)
qed

lemma scan_record_sound:
  assumes "length bs < 2 ^ 64" and "fo \<le> length bs" and "scan_record bs fo lim n i ids = Inr (r, ids')"
  shows "i + 40 + unat (ri_stored_len r) \<le> fo"
    "take 40 (drop i bs) = record_header (ri_kind r) (ri_object_id r) (ri_stored_len r)"
    "r = \<lparr>ri_kind = ri_kind r, ri_object_id = ri_object_id r, ri_offset = of_nat i,
      ri_stored_len = ri_stored_len r, ri_logical_len = ri_stored_len r,
      ri_payload_range = (i + 40, i + 40 + unat (ri_stored_len r))\<rparr>"
    "if ri_kind r = Directory then ri_object_id r = 0 \<and> ids' = ids
     else ri_object_id r \<noteq> 0 \<and> ri_object_id r \<notin> ids \<and> ids' = insert (ri_object_id r) ids"
    "ri_stored_len r \<le> max_payload_bytes lim" "n < unat (max_records lim)"
proof -
  show le: "i + 40 + unat (ri_stored_len r) \<le> fo"
    using scan_record_range [OF assms(3)] by simp
  show "take 40 (drop i bs) = record_header (ri_kind r) (ri_object_id r) (ri_stored_len r)"
    using assms le
    by (subst record_header_fields) (auto simp: scan_record_def result_simps record_kind_Ok_iff split: if_splits)
  show "r = \<lparr>ri_kind = ri_kind r, ri_object_id = ri_object_id r, ri_offset = of_nat i,
      ri_stored_len = ri_stored_len r, ri_logical_len = ri_stored_len r,
      ri_payload_range = (i + 40, i + 40 + unat (ri_stored_len r))\<rparr>"
    using assms scan_record_range [OF assms(3)] by (auto simp: scan_record_def result_simps u64_try_from_cases split: if_splits)
  show "if ri_kind r = Directory then ri_object_id r = 0 \<and> ids' = ids
     else ri_object_id r \<noteq> 0 \<and> ri_object_id r \<notin> ids \<and> ids' = insert (ri_object_id r) ids"
    using assms by (auto simp: scan_record_def result_simps split: if_splits)
  show "ri_stored_len r \<le> max_payload_bytes lim"
    using assms by (auto simp: scan_record_def result_simps split: if_splits)
  show "n < unat (max_records lim)"
    using assms by (auto simp: scan_record_def result_simps u64_try_from_Some_iff word_le_nat_alt split: if_splits)
qed

section \<open>Scanning a sequence of records\<close>

fun infos :: "nat \<Rightarrow> record_spec list \<Rightarrow> record_info list" where
  "infos i [] = []"
| "infos i ((k, oid, p) # rs) =
     \<lparr>ri_kind = k, ri_object_id = oid, ri_offset = of_nat i, ri_stored_len = of_nat (length p),
      ri_logical_len = of_nat (length p), ri_payload_range = (i + 40, i + 40 + length p)\<rparr>
     # infos (i + 40 + length p) rs"

fun ids_ok :: "u64 set \<Rightarrow> record_spec list \<Rightarrow> bool" where
  "ids_ok S [] = True"
| "ids_ok S ((k, oid, p) # rs) =
     (if k = Directory then oid = 0 \<and> ids_ok S rs
      else oid \<noteq> 0 \<and> oid \<notin> S \<and> ids_ok (insert oid S) rs)"

definition sizes_ok :: "limits \<Rightarrow> record_spec list \<Rightarrow> bool" where
  "sizes_ok lim rs \<longleftrightarrow> (\<forall>(k, oid, p) \<in> set rs. length p \<le> unat (max_payload_bytes lim))"

lemma sizes_ok_simps [simp]:
  "sizes_ok lim []"
  "sizes_ok lim ((k, oid, p) # rs) \<longleftrightarrow> length p \<le> unat (max_payload_bytes lim) \<and> sizes_ok lim rs"
  by (auto simp: sizes_ok_def)

lemma scan_loop_complete:
  assumes "length bs < 2 ^ 64" and "fo \<le> length bs" and "i \<le> fo"
    and "drop i (take fo bs) = concat (map record_image rs)"
    and "ids_ok ids rs" and "sizes_ok lim rs" and "length acc + length rs \<le> unat (max_records lim)"
  shows "scan_loop bs fo lim i acc ids = Inr (acc @ infos i rs)"
  using assms(3-)
proof (induction rs arbitrary: i acc ids)
  case Nil
  then have "fo = i" using assms(2) by simp
  then show ?case by (simp add: scan_loop.simps)
next
  case (Cons r rs)
  obtain k oid p where r: "r = (k, oid, p)" by (cases r)
  let ?n = "40 + length p" and ?len = "of_nat (length p) :: u64"
  let ?r = "\<lparr>ri_kind = k, ri_object_id = oid, ri_offset = of_nat i, ri_stored_len = ?len,
      ri_logical_len = ?len, ri_payload_range = (i + 40, i + 40 + length p)\<rparr>"
  have cat: "drop i (take fo bs) = record_header k oid ?len @ p @ concat (map record_image rs)"
    using Cons.prems(2) by (simp add: r)
  from arg_cong [OF cat, of length] have fo: "fo = i + ?n + length (concat (map record_image rs))"
    using assms(2) Cons.prems(1) by simp
  have len: "unat ?len = length p" using fo assms(1,2) by simp
  have hd: "take 40 (drop i bs) = record_header k oid ?len"
    using arg_cong [OF cat, of "take 40"] fo by (simp add: take_drop)
  have tl: "drop (i + ?n) (take fo bs) = concat (map record_image rs)"
    using arg_cong [OF cat, of "drop ?n"] by (simp add: add.commute)
  obtain ids' where ids': "if k = Directory then oid = 0 \<and> ids' = ids else oid \<noteq> 0 \<and> oid \<notin> ids \<and> ids' = insert oid ids"
    "ids_ok ids' rs" using Cons.prems(3) by (auto simp: r split: if_splits)
  have "scan_record bs fo lim (length acc) i ids = Inr (?r, ids')"
    using scan_record_complete [OF assms(1,2) _ hd _ _ ids'(1), of lim "length acc"] fo len Cons.prems(4,5)
    by (simp add: r word_le_nat_alt)
  moreover have "scan_loop bs fo lim (i + ?n) (acc @ [?r]) ids' = Inr ((acc @ [?r]) @ infos (i + ?n) rs)"
    using Cons.prems fo by (intro Cons.IH tl ids') (simp_all add: r)
  ultimately show ?case
    using fo by (subst scan_loop.simps) (simp add: r add.assoc)
qed

lemma scan_loop_sound:
  assumes "scan_loop bs fo lim i acc ids = Inr out" and "length bs < 2 ^ 64" and "fo \<le> length bs" and "i \<le> fo"
  shows "\<exists>rs. out = acc @ infos i rs \<and> drop i (take fo bs) = concat (map record_image rs) \<and>
    ids_ok ids rs \<and> sizes_ok lim rs \<and> length acc + length rs \<le> max (length acc) (unat (max_records lim))"
  using assms
proof (induction bs fo lim i acc ids rule: scan_loop.induct)
  case (1 bs fo lim i acc ids)
  show ?case
  proof (cases "i < fo")
    case True
    with "1.prems"(1) obtain r ids' where sr: "scan_record bs fo lim (length acc) i ids = Inr (r, ids')"
      and rest: "scan_loop bs fo lim (snd (ri_payload_range r)) (acc @ [r]) ids' = Inr out"
      by (subst (asm) (2) scan_loop.simps) (auto simp: result_simps)
    note r = scan_record_sound [OF "1.prems"(2,3) sr]
    let ?j = "i + 40 + unat (ri_stored_len r)"
    have j: "snd (ri_payload_range r) = ?j" by (subst r(3)) simp
    from "1.IH" [OF True sr refl rest] j r(1) "1.prems"(2,3) obtain rs where
      rs: "out = (acc @ [r]) @ infos ?j rs" "drop ?j (take fo bs) = concat (map record_image rs)"
        "ids_ok ids' rs" "sizes_ok lim rs"
        "length (acc @ [r]) + length rs \<le> max (length (acc @ [r])) (unat (max_records lim))"
      by auto
    define p where "p = take (unat (ri_stored_len r)) (drop (i + 40) bs)"
    have p: "length p = unat (ri_stored_len r)" "of_nat (length p) = ri_stored_len r"
      using r(1) "1.prems"(3) by (simp_all add: p_def)
    let ?r = "(ri_kind r, ri_object_id r, p)"
    have "drop i (take fo bs) = take 40 (drop i bs) @ p @ drop ?j (take fo bs)"
    proof -
      have "drop i (take fo bs) = take (fo - i) (drop i bs)" by (simp add: drop_take)
      also have "\<dots> = take 40 (drop i bs) @ take (unat (ri_stored_len r) + (fo - ?j)) (drop (i + 40) bs)"
        using take_add [of 40 "unat (ri_stored_len r) + (fo - ?j)" "drop i bs"] r(1) by (simp add: add.commute)
      also have "take (unat (ri_stored_len r) + (fo - ?j)) (drop (i + 40) bs) = p @ drop ?j (take fo bs)"
        by (simp add: take_add p_def drop_take add.commute)
      finally show ?thesis .
    qed
    then have "drop i (take fo bs) = concat (map record_image (?r # rs))"
      using rs(2) r(2) p by simp
    moreover have "out = acc @ infos i (?r # rs)"
      using rs(1) p r(3) by simp
    moreover have "ids_ok ids (?r # rs)" using rs(3) r(4) by (auto split: if_splits)
    moreover have "sizes_ok lim (?r # rs)" using rs(4) r(5) p by (simp add: word_le_nat_alt)
    ultimately show ?thesis using rs(5) r(6) by (intro exI [of _ "?r # rs"]) simp
  next
    case False
    with "1.prems" show ?thesis
      by (simp add: scan_loop.simps) (auto intro!: exI [of _ "[]"] split: if_splits)
  qed
qed

lemma length_infos [simp]: "length (infos i rs) = length rs"
  by (induction i rs rule: infos.induct) auto

lemma map_infos [simp]:
  "map ri_object_id (infos i rs) = map spec_id rs"
  "map ri_kind (infos i rs) = map fst rs"
  by (induction i rs rule: infos.induct) auto

lemma infos_append: "infos i (rs @ rs') = infos i rs @ infos (i + length (concat (map record_image rs))) rs'"
  by (induction i rs rule: infos.induct) (auto simp: add.assoc)

lemma nth_infos [simp]:
  "j < length rs \<Longrightarrow> ri_object_id (infos i rs ! j) = spec_id (rs ! j)"
  "j < length rs \<Longrightarrow> ri_kind (infos i rs ! j) = fst (rs ! j)"
  by (induction i rs arbitrary: j rule: infos.induct; simp add: nth_Cons')+

lemma compare_directory_Ok_iff:
  "compare_directory rs es = Inr u \<longleftrightarrow> list_all2 entry_matches rs es"
  by (auto simp: compare_directory_def list_all2_iff list_ex_iff)

lemma entry_matches_iff:
  "entry_matches r e \<longleftrightarrow> e = \<lparr>de_id = ri_object_id r, de_kind = ri_kind r, de_offset = ri_offset r,
     de_stored_len = ri_stored_len r, de_logical_len = ri_logical_len r\<rparr>"
  by (cases e) (auto simp: entry_matches_def)

lemma entry_matches_infos: "list_all2 entry_matches (infos i rs) es \<longleftrightarrow> es = layout i rs"
proof (induction i rs arbitrary: es rule: infos.induct)
  case (2 i k oid p rs)
  then show ?case
    by (cases es) (simp_all add: entry_matches_iff)
qed auto

lemma payload_of_infos:
  assumes "drop i (take fo bs) = concat (map record_image rs)" and "j < length rs" and "fo \<le> length bs" and "i \<le> fo"
  shows "payload_of bs (infos i rs ! j) = spec_payload (rs ! j)"
  using assms
proof (induction i rs arbitrary: j rule: infos.induct)
  case (2 i k oid p rs)
  let ?n = "40 + length p"
  from arg_cong [OF "2.prems"(1), of length] have fo: "fo = i + ?n + length (concat (map record_image rs))"
    using "2.prems"(3,4) by simp
  have "take ?n (drop i bs) = record_image (k, oid, p)"
    using arg_cong [OF "2.prems"(1), of "take ?n"] fo by (simp add: drop_take)
  from arg_cong [OF this, of "drop 40"] have p: "take (length p) (drop (i + 40) bs) = p"
    by (simp add: drop_take add.commute)
  have "drop (i + ?n) (take fo bs) = concat (map record_image rs)"
    using arg_cong [OF "2.prems"(1), of "drop ?n"] by (simp add: add.commute)
  with "2.IH" "2.prems" fo have "j' < length rs \<Longrightarrow> payload_of bs (infos (i + ?n) rs ! j') = spec_payload (rs ! j')" for j'
    by (simp add: add.assoc)
  then show ?case using p "2.prems"(2) by (cases j) (simp_all add: payload_of_def add.assoc)
qed simp

lemma position_Some_iff:
  "position P xs = Some j \<longleftrightarrow> j < length xs \<and> P (xs ! j) \<and> (\<forall>k < j. \<not> P (xs ! k))"
proof (induction xs arbitrary: j)
  case (Cons x xs)
  then show ?case by (cases j) (auto simp: less_Suc_eq_0_disj)
qed simp

lemma ids_ok_distinct:
  "ids_ok S rs \<longleftrightarrow> distinct (map spec_id (filter (\<lambda>r. fst r \<noteq> Directory) rs)) \<and>
     (\<forall>r \<in> set rs. if fst r = Directory then spec_id r = 0 else spec_id r \<noteq> 0 \<and> spec_id r \<notin> S)"
  by (induction S rs rule: ids_ok.induct) auto

lemma ids_ok_append_directory [simp]: "ids_ok S (rs @ [(Directory, 0, d)]) \<longleftrightarrow> ids_ok S rs"
  by (simp add: ids_ok_distinct)

lemma index_records_other:
  "oid = 0 \<or> oid \<notin> set (map ri_object_id rs) \<Longrightarrow> index_records n rs m oid = m oid"
  by (induction n rs m rule: index_records.induct) auto

lemma index_records_at:
  assumes "oid \<noteq> 0" and "j < length rs" and "ri_object_id (rs ! j) = oid"
    and "\<forall>k < length rs. ri_object_id (rs ! k) = oid \<longrightarrow> k = j"
  shows "index_records n rs m oid = Some (n + j)"
  using assms
proof (induction n rs m arbitrary: j rule: index_records.induct)
  case (2 n r rs m)
  show ?case
  proof (cases j)
    case 0
    with "2.prems" have "oid \<notin> set (map ri_object_id rs)" by (fastforce simp: in_set_conv_nth)
    with 0 "2.prems" show ?thesis by (simp add: index_records_other)
  next
    case (Suc j')
    with "2.prems" "2.IH" [of j'] show ?thesis by fastforce
  qed
qed simp

section \<open>Whole files\<close>

text \<open>What validation asks of the records \<open>rs\<close>, the directory payload \<open>d\<close> and the active manifest,
  and the view of the file it returns.\<close>

definition accepted :: "limits \<Rightarrow> record_spec list \<Rightarrow> bytes \<Rightarrow> u64 \<Rightarrow> manifest \<Rightarrow> bool" where
  "accepted lim rs d mid m \<longleftrightarrow>
     ids_ok {} rs \<and> sizes_ok lim (rs @ [(Directory, 0, d)]) \<and> length rs < unat (max_records lim) \<and>
     and_then (decode_canonical d lim) parse_directory = Inr (layout 32 rs) \<and>
     (\<exists>p. (Manifest, mid, p) \<in> set rs \<and> and_then (decode_canonical p lim) parse_manifest = Inr m) \<and>
     set (roots m) \<subseteq> spec_id ` set rs \<and> required_capabilities m = []"

definition view :: "(bytes \<Rightarrow> bytes) \<Rightarrow> record_spec list \<Rightarrow> bytes \<Rightarrow> u64 \<Rightarrow> manifest \<Rightarrow> validated_file" where
  "view sha rs d mid m =
     \<lparr>vf_bytes = file_image sha rs d mid, vf_epoch = EXPERIMENTAL_EPOCH, vf_manifest_id = mid,
      vf_manifest = m, vf_records = infos 32 (rs @ [(Directory, 0, d)]),
      vf_by_id = index_records 0 (infos 32 (rs @ [(Directory, 0, d)])) Map.empty\<rparr>"

lemma body_image_cat: "body_image rs = file_header @ concat (map record_image rs)"
  by (simp add: body_image_def)

lemma scan_records_Ok_iff:
  assumes "length bs < 2 ^ 64" and "fo \<le> length bs" and "32 \<le> fo" and "take 32 bs = file_header"
  shows "scan_records bs fo lim = Inr out \<longleftrightarrow>
    (\<exists>rs. out = infos 32 rs \<and> take fo bs = body_image rs \<and> ids_ok {} rs \<and> sizes_ok lim rs \<and>
       length rs \<le> unat (max_records lim))"
proof -
  have body: "take fo bs = body_image rs \<longleftrightarrow> drop 32 (take fo bs) = concat (map record_image rs)" for rs
    unfolding body_image_def using assms by (subst take_eq_append_iff) (auto simp: drop_take)
  show ?thesis
    unfolding body scan_records_def HEADER_LEN_def
    using scan_loop_sound [OF _ assms(1,2,3), of lim "[]" "{}" out]
      scan_loop_complete [OF assms(1,2,3), of _ "{}" lim "[]"] by auto
qed

lemma case_list_Ok: "(case xs of [] \<Rightarrow> y | x # _ \<Rightarrow> Err (f x)) = Inr z \<longleftrightarrow> xs = [] \<and> y = Inr z"
  by (cases xs) auto

text \<open>The facts that every check of \<open>parse\<close> establishes, on the scanned records.\<close>

definition parse_checks :: "(bytes \<Rightarrow> bytes) \<Rightarrow> bytes \<Rightarrow> limits \<Rightarrow> footer \<Rightarrow> record_info list \<Rightarrow> manifest \<Rightarrow> bool" where
  "parse_checks sha bs lim ft recs m \<longleftrightarrow>
    (let fo = length bs - 80 in
     length bs \<le> unat (max_file_bytes lim) \<and> 112 \<le> length bs \<and> validate_header bs = Inr () \<and>
     parse_footer bs fo = Inr ft \<and> scan_records bs fo lim = Inr recs \<and>
     recs \<noteq> [] \<and> length recs < 2 ^ 64 \<and> ft_record_count ft = of_nat (length recs) \<and>
     ri_kind (last recs) = Directory \<and> ri_object_id (last recs) = 0 \<and>
     checked_range (ft_directory_offset ft) (ft_directory_len ft) fo ''directory'' =
       Inr (unat (ri_offset (last recs)), fo) \<and>
     sha (take fo bs) = ft_digest ft \<and>
     (\<exists>es. and_then (decode_canonical (payload_of bs (last recs)) lim) parse_directory = Inr es \<and>
        compare_directory (butlast recs) es = Inr ()) \<and>
     (\<exists>j. position (\<lambda>r. ri_object_id r = ft_manifest_id ft) recs = Some j \<and> ri_kind (recs ! j) = Manifest \<and>
        and_then (decode_canonical (payload_of bs (recs ! j)) lim) parse_manifest = Inr m) \<and>
     set (roots m) \<subseteq> ri_object_id ` set (butlast recs) \<and> required_capabilities m = [])"

definition parsed :: "bytes \<Rightarrow> footer \<Rightarrow> record_info list \<Rightarrow> manifest \<Rightarrow> validated_file" where
  "parsed bs ft recs m =
     \<lparr>vf_bytes = bs, vf_epoch = EXPERIMENTAL_EPOCH, vf_manifest_id = ft_manifest_id ft, vf_manifest = m,
      vf_records = recs, vf_by_id = index_records 0 recs Map.empty\<rparr>"

lemma parse_Ok_iff:
  "parse sha bs lim = Inr vf \<longleftrightarrow> (\<exists>ft recs m. parse_checks sha bs lim ft recs m \<and> vf = parsed bs ft recs m)"
  (is "?L \<longleftrightarrow> ?R")
proof
  assume ?L
  then have len: "length bs < 2 ^ 64"
    by (auto simp: parse_def result_simps u64_try_from_def split: if_splits)
  note unfold = parse_def result_simps Let_def case_list_Ok last_conv_nth butlast_conv_take u64_try_from_eq [OF len]
    unat_of_nat_64 [OF len]
  from \<open>?L\<close> show ?R
    by (auto simp: unfold parse_checks_def parsed_def word_less_nat_alt list_ex_iff u64_try_from_Some_iff
        subset_iff image_iff split: if_splits)
next
  assume ?R
  then obtain ft recs m es j where checks: "parse_checks sha bs lim ft recs m" and vf: "vf = parsed bs ft recs m"
    by blast
  have len: "length bs < 2 ^ 64" and "\<not> max_file_bytes lim < of_nat (length bs)"
    using checks le_unat_64 [of "length bs" "max_file_bytes lim"] by (auto simp: parse_checks_def Let_def word_less_nat_alt)
  moreover have "length bs - 80 - unat (ri_offset (last recs)) = unat (ft_directory_len ft)"
    using checks by (auto simp: parse_checks_def Let_def checked_range_Ok_iff)
  ultimately show ?L
    using checks
    by (auto simp: vf parse_def parse_checks_def parsed_def Let_def result_simps case_list_Ok last_conv_nth butlast_conv_take
        list_ex_iff subset_iff image_iff)
qed

lemma ids_ok_mem:
  "ids_ok S rs \<Longrightarrow> r \<in> set rs \<Longrightarrow> if fst r = Directory then spec_id r = 0 else spec_id r \<noteq> 0 \<and> spec_id r \<notin> S"
  by (simp add: ids_ok_distinct)

lemma ids_ok_unique:
  assumes "ids_ok S rs" and "j < length rs" and "k < length rs" and "fst (rs ! j) \<noteq> Directory"
    and "spec_id (rs ! k) = spec_id (rs ! j)"
  shows "k = j"
  using assms
proof (induction S rs arbitrary: j k rule: ids_ok.induct)
  case (2 S kind oid p rs)
  have rest: "ids_ok (if kind = Directory then S else insert oid S) rs" "kind = Directory \<longleftrightarrow> oid = 0"
    using "2.prems"(1) by (auto split: if_splits)
  have other: "spec_id (rs ! i) \<noteq> oid"
    if "i < length rs" "oid \<noteq> 0 \<or> fst (rs ! i) \<noteq> Directory" for i
    using ids_ok_mem [OF rest(1) nth_mem [OF that(1)]] that rest(2) by (auto split: if_splits)
  show ?case
  proof (cases j; cases k)
    fix j' k' assume "j = Suc j'" "k = Suc k'"
    then show ?thesis using 2 rest by (auto split: if_splits)
  qed (use "2.prems" other rest(2) in auto)
qed simp

lemma ids_ok_position:
  assumes "ids_ok {} rs" and "(Manifest, mid, p) \<in> set rs"
  obtains j where "j < length rs" "rs ! j = (Manifest, mid, p)"
    "position (\<lambda>r. ri_object_id r = mid) (infos 32 (rs @ [(Directory, 0, d)])) = Some j"
proof -
  obtain j where j: "j < length rs" "rs ! j = (Manifest, mid, p)" using assms(2) by (auto simp: in_set_conv_nth)
  moreover have "spec_id (rs ! k) \<noteq> mid" if "k < j" for k
    using ids_ok_unique [OF assms(1) j(1), of k] j that by auto
  ultimately show thesis
    by (intro that [of j]) (auto simp: position_Some_iff nth_append)
qed

lemma length_file_image: "length (sha (body_image (rs @ [(Directory, 0, d)]))) = 32 \<Longrightarrow>
  length (file_image sha rs d mid) = length (body_image rs) + length d + 120"
  by (simp add: file_image_def body_image_snoc Let_def)

lemma directory_info:
  fixes rs d defines "recs \<equiv> infos 32 (rs @ [(Directory, 0, d)])"
  shows "recs \<noteq> []" "length recs = length rs + 1" "butlast recs = infos 32 rs"
    "last recs = \<lparr>ri_kind = Directory, ri_object_id = 0, ri_offset = of_nat (length (body_image rs)),
       ri_stored_len = of_nat (length d), ri_logical_len = of_nat (length d),
       ri_payload_range = (length (body_image rs) + 40, length (body_image rs) + 40 + length d)\<rparr>"
    "last recs = recs ! length rs"
  by (simp_all add: recs_def infos_append body_image_def nth_append)

lemma image_set_infos: "ri_object_id ` set (infos i rs) = spec_id ` set rs"
  by (metis list.set_map map_infos(1))

lemma payload_of_body:
  assumes "take fo bs = body_image rs" and "fo \<le> length bs" and "j < length rs"
  shows "payload_of bs (infos 32 rs ! j) = spec_payload (rs ! j)"
proof -
  have "length (take fo bs) = length (body_image rs)" using assms(1) by simp
  then have "32 \<le> fo" using assms(2) by (simp add: body_image_def)
  then show ?thesis
    using payload_of_infos [of 32 fo bs rs j] assms by (simp add: body_image_def)
qed

definition footer_of :: "(bytes \<Rightarrow> bytes) \<Rightarrow> record_spec list \<Rightarrow> bytes \<Rightarrow> u64 \<Rightarrow> footer" where
  "footer_of sha rs d mid =
     \<lparr>ft_directory_offset = of_nat (length (body_image rs)), ft_directory_len = of_nat (40 + length d),
      ft_manifest_id = mid, ft_record_count = of_nat (length rs + 1),
      ft_digest = sha (body_image (rs @ [(Directory, 0, d)]))\<rparr>"

lemma file_image_frame:
  fixes sha rs d mid
  defines "bs \<equiv> file_image sha rs d mid" and "fo \<equiv> length (body_image (rs @ [(Directory, 0, d)]))"
  assumes "length bs < 2 ^ 64" and "length (sha (body_image (rs @ [(Directory, 0, d)]))) = 32"
  shows "length bs = fo + 80" "take fo bs = body_image (rs @ [(Directory, 0, d)])" "take 32 bs = file_header"
    "parse_footer bs fo = Inr (footer_of sha rs d mid)" "fo = length (body_image rs) + 40 + length d" "32 \<le> fo"
proof -
  show len: "length bs = fo + 80" and body: "take fo bs = body_image (rs @ [(Directory, 0, d)])"
    using assms(4) by (simp_all add: bs_def fo_def file_image_def Let_def)
  show fo: "fo = length (body_image rs) + 40 + length d" "32 \<le> fo"
    by (simp_all add: fo_def body_image_def)
  have "take 32 (take fo bs) = file_header" unfolding body by (simp add: body_image_def)
  then show "take 32 bs = file_header" using fo(2) by simp
  have "drop fo bs = footer_image (of_nat (length (body_image rs))) (of_nat (40 + length d)) mid
      (of_nat (length rs + 1)) (sha (body_image (rs @ [(Directory, 0, d)])))"
    by (simp add: bs_def fo_def file_image_def Let_def)
  then show "parse_footer bs fo = Inr (footer_of sha rs d mid)"
    using assms(3,4) len by (subst parse_footer_Ok_iff) (simp_all add: footer_of_def)
qed

lemma parse_complete:
  assumes "length (file_image sha rs d mid) \<le> unat (max_file_bytes lim)"
    and "length (sha (body_image (rs @ [(Directory, 0, d)]))) = 32"
    and "accepted lim rs d mid m"
  shows "parse sha (file_image sha rs d mid) lim = Inr (view sha rs d mid m)"
proof -
  define bs where "bs = file_image sha rs d mid"
  define fo where "fo = length (body_image (rs @ [(Directory, 0, d)]))"
  define recs where "recs = infos 32 (rs @ [(Directory, 0, d)])"
  let ?ft = "footer_of sha rs d mid"
  note dir = directory_info [of rs d, folded recs_def]
  have len: "length bs < 2 ^ 64" "length bs \<le> unat (max_file_bytes lim)"
    using assms(1) le_unat_64 by (auto simp: bs_def)
  note fr = file_image_frame [OF len(1) [unfolded bs_def] assms(2), folded bs_def fo_def]
  have scan: "scan_records bs fo lim = Inr recs"
    using assms(3) len(1) fr
    by (subst scan_records_Ok_iff) (auto simp: accepted_def recs_def intro!: exI [of _ "rs @ [(Directory, 0, d)]"])
  have range: "checked_range (ft_directory_offset ?ft) (ft_directory_len ?ft) fo ''directory'' = Inr (unat (ri_offset (last recs)), fo)"
    using len(1) fr(1,5) by (simp add: checked_range_Ok_iff footer_of_def dir(4) del: of_nat_add)
  have pay: "payload_of bs (last recs) = d"
    using payload_of_body [of fo bs "rs @ [(Directory, 0, d)]" "length rs"] fr
    unfolding dir(5) by (simp add: recs_def)
  obtain p j where p: "and_then (decode_canonical p lim) parse_manifest = Inr m"
    and j: "j < length rs" "rs ! j = (Manifest, mid, p)" "position (\<lambda>r. ri_object_id r = mid) recs = Some j"
    using assms(3) ids_ok_position unfolding accepted_def recs_def by metis
  have payj: "payload_of bs (recs ! j) = p" "ri_kind (recs ! j) = Manifest"
    using payload_of_body [of fo bs "rs @ [(Directory, 0, d)]" j] fr j by (simp_all add: recs_def nth_append)
  have "length (rs @ [(Directory, 0, d)]) < 2 ^ 64"
    using assms(3) le_unat_64 [of "length rs + 1" "max_records lim"] by (simp add: accepted_def)
  then have "parse_checks sha bs lim ?ft recs m"
    using assms(3) len scan range pay p j payj dir fr(1-4,6) validate_header_Ok_iff [OF len(1)]
    by (auto simp: parse_checks_def Let_def compare_directory_Ok_iff entry_matches_infos accepted_def
        image_set_infos footer_of_def)
  then show ?thesis
    unfolding parse_Ok_iff bs_def [symmetric]
    by (intro exI [of _ ?ft] exI [of _ recs] exI [of _ m]) (simp add: parsed_def view_def recs_def footer_of_def bs_def)
qed

lemma parse_checks_image:
  assumes "parse_checks sha bs lim ft recs m"
  obtains rs d where "recs = infos 32 (rs @ [(Directory, 0, d)])"
    and "take (length bs - 80) bs = body_image (rs @ [(Directory, 0, d)])"
    and "ids_ok {} rs" and "sizes_ok lim (rs @ [(Directory, 0, d)])" and "length rs < unat (max_records lim)"
    and "bs = file_image sha rs d (ft_manifest_id ft)"
    and "length (sha (body_image (rs @ [(Directory, 0, d)]))) = 32"
proof -
  define fo where "fo = length bs - 80"
  note c = assms [unfolded parse_checks_def Let_def, folded fo_def]
  have len: "length bs < 2 ^ 64" using c le_unat_64 by blast
  have fo: "fo + 80 = length bs" "32 \<le> fo" using c by (auto simp: fo_def)
  have hdr: "take 32 bs = file_header" using c validate_header_Ok_iff [OF len] by auto
  obtain rs' where rs': "recs = infos 32 rs'" "take fo bs = body_image rs'" "ids_ok {} rs'" "sizes_ok lim rs'"
      "length rs' \<le> unat (max_records lim)"
    using c fo hdr scan_records_Ok_iff [OF len, of fo lim recs] by auto
  have "rs' \<noteq> []" using c rs'(1) by auto
  then obtain rs k oid d where r: "rs' = rs @ [(k, oid, d)]" by (metis rev_exhaust prod_cases3)
  have k: "k = Directory" "oid = 0" using c by (simp_all add: rs'(1) r infos_append)
  note r = r [unfolded k] and dir = directory_info [of rs d]
  have recs: "recs = infos 32 (rs @ [(Directory, 0, d)])" using rs'(1) r by simp
  have fo': "fo = length (body_image rs) + 40 + length d"
    using arg_cong [OF rs'(2), of length] fo(1) by (simp add: r body_image_snoc)
  have "unat (ri_offset (last recs)) = length (body_image rs)"
    using len fo(1) fo' dir(4) by (simp add: recs)
  then have "unat (ft_directory_offset ft) = length (body_image rs)" "unat (ft_directory_len ft) = 40 + length d"
    using c fo' by (auto simp: checked_range_Ok_iff)
  then have ft: "footer_of sha rs d (ft_manifest_id ft) = ft"
    using c rs'(2) len fo(1) fo' dir(2)
    by (cases ft) (auto simp: footer_of_def r recs word_unat_eq_iff simp del: of_nat_add)
  have "bs = take fo bs @ take 80 (drop fo bs)" using fo(1) by simp
  also have "take 80 (drop fo bs) = footer_image (ft_directory_offset ft) (ft_directory_len ft) (ft_manifest_id ft)
      (ft_record_count ft) (ft_digest ft)"
    by (rule parse_footer_Ok_iff [OF len, THEN iffD1]) (use c fo(1) in auto)
  finally have bs: "bs = file_image sha rs d (ft_manifest_id ft)"
    unfolding rs'(2) r file_image_def Let_def by (subst (asm) (1 2 3 4 5) ft [symmetric]) (simp add: footer_of_def)
  have "length (sha (body_image (rs @ [(Directory, 0, d)]))) = 32"
    using arg_cong [OF bs, of length] fo(1) fo' by (simp add: file_image_def Let_def body_image_snoc)
  then show thesis
    using that [OF recs] rs'(2-5) bs by (simp add: r fo_def)
qed

lemma parse_sound:
  assumes "parse sha bs lim = Inr vf"
  obtains rs d where "bs = file_image sha rs d (vf_manifest_id vf)"
    and "length bs \<le> unat (max_file_bytes lim)" and "accepted lim rs d (vf_manifest_id vf) (vf_manifest vf)"
    and "vf = view sha rs d (vf_manifest_id vf) (vf_manifest vf)"
    and "length (sha (body_image (rs @ [(Directory, 0, d)]))) = 32"
proof -
  from assms obtain ft recs m where ck: "parse_checks sha bs lim ft recs m" and vf: "vf = parsed bs ft recs m"
    unfolding parse_Ok_iff by blast
  note c = ck [unfolded parse_checks_def Let_def]
  from parse_checks_image [OF ck] obtain rs d where
    recs: "recs = infos 32 (rs @ [(Directory, 0, d)])"
    and body: "take (length bs - 80) bs = body_image (rs @ [(Directory, 0, d)])"
    and ok: "ids_ok {} rs" "sizes_ok lim (rs @ [(Directory, 0, d)])" "length rs < unat (max_records lim)"
    and bs: "bs = file_image sha rs d (ft_manifest_id ft)"
    and dig: "length (sha (body_image (rs @ [(Directory, 0, d)]))) = 32" .
  note dir = directory_info [of rs d, folded recs]
  have pay: "payload_of bs (last recs) = d"
    using payload_of_body [OF body, of "length rs"] unfolding dir(5) by (simp add: recs)
  obtain j where j: "position (\<lambda>r. ri_object_id r = ft_manifest_id ft) recs = Some j" "ri_kind (recs ! j) = Manifest"
    and jm: "and_then (decode_canonical (payload_of bs (recs ! j)) lim) parse_manifest = Inr m"
    using c by blast
  have jlt: "j < length rs"
    using j by (auto simp: position_Some_iff recs less_Suc_eq nth_append)
  then have "payload_of bs (recs ! j) = spec_payload (rs ! j)" "fst (rs ! j) = Manifest" "spec_id (rs ! j) = ft_manifest_id ft"
    using payload_of_body [OF body, of j] j by (simp_all add: recs nth_append position_Some_iff)
  then have "(Manifest, ft_manifest_id ft, payload_of bs (recs ! j)) \<in> set rs"
    using nth_mem [OF jlt] by (metis prod.collapse)
  then have acc: "accepted lim rs d (ft_manifest_id ft) m"
    using c ok pay jm dir(3)
    by (auto simp: accepted_def compare_directory_Ok_iff entry_matches_infos image_set_infos)
  show thesis
    by (rule that [of rs d]) (use bs acc c dig in \<open>simp_all add: vf parsed_def view_def recs\<close>)
qed

section \<open>Lookup\<close>

lemma object_view:
  assumes "ids_ok {} rs" and "length (file_image sha rs d mid) < 2 ^ 64"
    and "length (sha (body_image (rs @ [(Directory, 0, d)]))) = 32"
  shows "vf_object (view sha rs d mid m) oid = Some p \<longleftrightarrow> (\<exists>k. (k, oid, p) \<in> set rs \<and> k \<noteq> Directory)"
proof -
  let ?rs = "rs @ [(Directory, 0, d)]"
  note fr = file_image_frame [OF assms(2,3)]
  have at: "vf_object (view sha rs d mid m) (spec_id (rs ! j)) = Some (spec_payload (rs ! j))"
    if j: "j < length rs" "fst (rs ! j) \<noteq> Directory" for j
  proof -
    have "index_records 0 (infos 32 ?rs) Map.empty (spec_id (rs ! j)) = Some (0 + j)"
    proof (rule index_records_at)
      show "spec_id (rs ! j) \<noteq> 0" using ids_ok_mem [OF assms(1) nth_mem [OF j(1)]] j(2) by simp
      show "\<forall>k < length (infos 32 ?rs). ri_object_id (infos 32 ?rs ! k) = spec_id (rs ! j) \<longrightarrow> k = j"
        using ids_ok_unique [of "{}" ?rs j] assms(1) j by (auto simp: nth_append)
    qed (use j in \<open>simp_all add: nth_append\<close>)
    then show ?thesis
      using payload_of_body [OF fr(2), of j] fr(1) j by (simp add: vf_object_def view_def nth_append)
  qed
  show ?thesis
  proof
    assume p: "vf_object (view sha rs d mid m) oid = Some p"
    then have "oid \<noteq> 0" "oid \<in> spec_id ` set ?rs"
      using index_records_other [of oid "infos 32 ?rs" 0 Map.empty]
      by (auto simp: vf_object_def view_def split: option.splits)
    then obtain j where j: "j < length rs" "spec_id (rs ! j) = oid"
      by (auto simp: in_set_conv_nth image_iff)
    then have k: "fst (rs ! j) \<noteq> Directory" using ids_ok_mem [OF assms(1) nth_mem [OF j(1)]] \<open>oid \<noteq> 0\<close> by auto
    with at [OF j(1)] j p have "rs ! j = (fst (rs ! j), oid, p)" by (simp add: prod_eq_iff)
    with k nth_mem [OF j(1)] show "\<exists>k. (k, oid, p) \<in> set rs \<and> k \<noteq> Directory" by metis
  next
    assume "\<exists>k. (k, oid, p) \<in> set rs \<and> k \<noteq> Directory"
    then show "vf_object (view sha rs d mid m) oid = Some p"
      using at by (fastforce simp: in_set_conv_nth)
  qed
qed

section \<open>Writing and reading\<close>

text \<open>What a set of limits must allow for a file to be read.\<close>

definition limits_admit :: "limits \<Rightarrow> record_spec list \<Rightarrow> bytes \<Rightarrow> bool" where
  "limits_admit lim rs bs \<longleftrightarrow>
     length bs \<le> unat (max_file_bytes lim) \<and> length bs \<le> unat (max_metadata_bytes lim) \<and>
     length bs \<le> unat (max_payload_bytes lim) \<and> length rs < unat (max_records lim) \<and>
     directory_fits lim (length rs)"

lemma writer_inv_ids_ok: "writer_inv w rs \<Longrightarrow> ids_ok {} rs"
  unfolding writer_inv_def ids_ok_distinct by (auto simp: distinct_map_filter rev_image_eqI)

lemma payload_within: "(k, oid, p) \<in> set rs \<Longrightarrow> length p \<le> length (body_image rs)"
  by (induction rs) (auto simp: body_image_def)

lemma writer_accepted:
  assumes "writer_inv w rs" and "encode_canonical (directory_value (layout 32 rs)) = Inr d"
    and "length (sha (body_image (rs @ [(Directory, 0, d)]))) = 32"
    and "limits_admit lim rs (file_image sha rs d mid)" and "(Manifest, mid, p) \<in> set rs"
    and "encode_canonical (manifest_to_cbor m) = Inr p" and "validate_shape m = Inr ()" and "manifest_fits lim m"
    and "required_capabilities m = []" and "set (roots m) \<subseteq> spec_id ` set rs"
  shows "accepted lim rs d mid m"
proof -
  note adm = assms(4) [unfolded limits_admit_def length_file_image [of sha rs d mid, OF assms(3)]]
  have small: "length q \<le> unat (max_payload_bytes lim) \<and> length q \<le> unat (max_metadata_bytes lim)"
    if "(k, oid, q) \<in> set rs" for k oid q
    using payload_within [OF that] adm by auto
  then have "sizes_ok lim (rs @ [(Directory, 0, d)])"
    using adm by (auto simp: sizes_ok_def)
  moreover have "and_then (decode_canonical d lim) parse_directory = Inr (layout 32 rs)"
    using adm by (intro directory_decodes assms(2)) auto
  moreover have "and_then (decode_canonical p lim) parse_manifest = Inr m"
    using small [OF assms(5)] by (intro manifest_decodes assms) auto
  ultimately show ?thesis
    using assms adm writer_inv_ids_ok [OF assms(1)] by (auto simp: accepted_def)
qed

end
