(* ===== verification/Ucof_Sample.thy ===== *)
theory Ucof_Sample
  imports Ucof_File
begin

text \<open>
  A concrete file: an opaque object and the manifest that names it as its root, written by the model
  of the writer. The properties of the readers are applied to it. The digest function of the sample is
  constant; the readers only ask that a digest has 32 bytes.
\<close>

lemmas cbor_eval = encode_canonical_Map encode_pairs_eq encode_text_value encode_canonical_simps item_bytes_def
  Let_def strictly_ordered_iff key_order_def str_bytes_def

lemma head_bytes_small [simp]:
  "n \<le> 23 \<Longrightarrow> head_bytes m n = [push_bit 5 m OR ucast n]"
  "23 < n \<Longrightarrow> n \<le> 0xff \<Longrightarrow> head_bytes m n = [push_bit 5 m OR 24, ucast n]"
  by (simp_all add: head_bytes_def encode_head_def not_le [symmetric] del: encode_head_append)

definition sample_sha :: "bytes \<Rightarrow> bytes" where
  "sample_sha x = replicate 32 0"

definition sample_manifest :: manifest where
  "sample_manifest = manifest_new [2]"

definition sample_manifest_bytes :: bytes where
  "sample_manifest_bytes = [163, 101, 114, 111, 111, 116, 115, 129, 2, 104, 111, 112, 116, 105,
     111, 110, 97, 108, 128, 104, 114, 101, 113, 117, 105, 114, 101, 100, 128]"

definition sample_records :: "record_spec list" where
  "sample_records = [(Opaque, 2, [7, 8]), (Manifest, 1, sample_manifest_bytes)]"

definition sample_directory :: bytes where
  "sample_directory = [161, 103, 101, 110, 116, 114, 105, 101, 115, 130, 165, 98, 105, 100, 2,
     100, 107, 105, 110, 100, 1, 102, 111, 102, 102, 115, 101, 116, 24, 32,
     106, 115, 116, 111, 114, 101, 100, 95, 108, 101, 110, 2, 107, 108, 111,
     103, 105, 99, 97, 108, 95, 108, 101, 110, 2, 165, 98, 105, 100, 1, 100,
     107, 105, 110, 100, 2, 102, 111, 102, 102, 115, 101, 116, 24, 74, 106,
     115, 116, 111, 114, 101, 100, 95, 108, 101, 110, 24, 29, 107, 108, 111,
     103, 105, 99, 97, 108, 95, 108, 101, 110, 24, 29]"

definition sample_writer :: writer where
  "sample_writer = snd (add_manifest (snd (add_opaque writer_new 2 [7, 8])) 1 sample_manifest)"

definition sample_file :: bytes where
  "sample_file = file_image sample_sha sample_records sample_directory 1"

lemma sample_sha_length [simp]: "length (sample_sha x) = 32"
  by (simp add: sample_sha_def)

lemma sample_manifest_encode: "encode_canonical (manifest_to_cbor sample_manifest) = Inr sample_manifest_bytes"
  by (simp add: sample_manifest_def manifest_to_cbor_def manifest_new_def cbor_eval sample_manifest_bytes_def)

lemma sample_manifest_shape: "validate_shape sample_manifest = Inr ()"
  by (simp add: validate_shape_Ok_iff sample_manifest_def manifest_new_def)

lemma sample_directory_encode: "encode_canonical (directory_value (layout 32 sample_records)) = Inr sample_directory"
  by (simp add: sample_records_def sample_manifest_bytes_def directory_value_def entry_to_cbor_def cbor_eval
      sample_directory_def)

lemma writer_new_eq: "writer_new = \<lparr>w_bytes = body_image [], w_entries = layout 32 [], w_object_ids = {}\<rparr>"
  using writer_inv_new by (simp add: writer_inv_def writer_new_def)

lemma sample_add_opaque:
  "add_opaque writer_new 2 [7, 8] = (Inr (), \<lparr>w_bytes = body_image [(Opaque, 2, [7, 8])],
     w_entries = layout 32 [(Opaque, 2, [7, 8])], w_object_ids = {2}\<rparr>)"
  using append_record_eq [of "[7, 8]" "body_image []" Opaque 2]
  by (simp add: add_opaque_def add_record_def writer_new_eq Let_def body_image_def)

lemma sample_add_manifest:
  "add_manifest (snd (add_opaque writer_new 2 [7, 8])) 1 sample_manifest = (Inr (), sample_writer)"
  "sample_writer = \<lparr>w_bytes = body_image sample_records, w_entries = layout 32 sample_records, w_object_ids = {1, 2}\<rparr>"
proof -
  have "append_record (body_image [(Opaque, 2, [7, 8])]) Manifest 1 sample_manifest_bytes = Inr (body_image sample_records)"
    using append_record_eq [of sample_manifest_bytes] by (simp add: sample_manifest_bytes_def sample_records_def body_image_def)
  then have "add_manifest (snd (add_opaque writer_new 2 [7, 8])) 1 sample_manifest =
      (Inr (), \<lparr>w_bytes = body_image sample_records, w_entries = layout 32 sample_records, w_object_ids = {1, 2}\<rparr>)"
    by (simp add: sample_add_opaque add_manifest_def sample_manifest_shape sample_manifest_encode add_record_def Let_def
        sample_records_def body_image_def sample_manifest_bytes_def)
  then show "add_manifest (snd (add_opaque writer_new 2 [7, 8])) 1 sample_manifest = (Inr (), sample_writer)"
    "sample_writer = \<lparr>w_bytes = body_image sample_records, w_entries = layout 32 sample_records, w_object_ids = {1, 2}\<rparr>"
    by (simp_all add: sample_writer_def)
qed

lemma sample_writes: "writes sample_writer sample_records"
proof -
  have "writes (snd (add_opaque writer_new 2 [7, 8])) ([] @ [(Opaque, 2, [7, 8])])"
    by (rule writes_opaque [OF writes_new]) (simp add: sample_add_opaque)
  from writes_manifest [OF this sample_add_manifest(1) sample_manifest_encode] show ?thesis
    by (simp add: sample_records_def)
qed

lemma sample_finish: "writer_finish sample_sha sample_writer 1 = Inr sample_file"
  unfolding sample_file_def
  by (rule writer_finish_complete [OF writes_inv [OF sample_writes] _ sample_directory_encode, where p = sample_manifest_bytes])
    (simp_all add: sample_records_def body_image_def sample_directory_def sample_manifest_bytes_def)

lemma sample_limits: "limits_admit default_limits sample_records sample_file"
  by (simp add: limits_admit_def default_limits_def directory_fits_def sample_file_def file_image_def Let_def body_image_def
      sample_records_def sample_manifest_bytes_def sample_directory_def)

lemma sample_manifest_fits: "manifest_fits default_limits sample_manifest"
  by (simp add: manifest_fits_def default_limits_def sample_manifest_def manifest_new_def)

lemma sample_roots: "required_capabilities sample_manifest = []" "set (roots sample_manifest) \<subseteq> spec_id ` set sample_records"
  "(Manifest, 1, sample_manifest_bytes) \<in> set sample_records"
  by (simp_all add: sample_manifest_def manifest_new_def sample_records_def)

lemma sample_parse:
  "parse sample_sha sample_file default_limits = Inr (view sample_sha sample_records sample_directory 1 sample_manifest)"
  unfolding sample_file_def
proof (rule parse_complete)
  show "length (file_image sample_sha sample_records sample_directory 1) \<le> unat (max_file_bytes default_limits)"
    using sample_limits by (simp add: limits_admit_def sample_file_def)
  show "accepted default_limits sample_records sample_directory 1 sample_manifest"
    by (rule writer_accepted [OF writes_inv [OF sample_writes] sample_directory_encode sample_sha_length
          sample_limits [unfolded sample_file_def] sample_roots(3) sample_manifest_encode sample_manifest_shape
          sample_manifest_fits sample_roots(1,2)])
qed (rule sample_sha_length)

end
