(* ===== verification/Ucof_Well_Formed.thy ===== *)
theory Ucof_Well_Formed
  imports Ucof_Sample
begin

text \<open>
  The decoder of canonical CBOR accepts exactly the canonical encodings of the values within its limits,
  and what the in-memory reader returns is well formed.
\<close>

section \<open>Decoded values are within the limits\<close>

lemma dec_argument_items: "dec_argument bs a d = Inr (n, d') \<Longrightarrow> dec_items d' = dec_items d"
  by (auto simp: dec_argument_def result_simps dec_byte_def dec_fixed_def Let_def split: if_splits)

lemma dec_bytes_items: "dec_bytes n bs c d = Inr (raw, d') \<Longrightarrow> dec_items d' = dec_items d \<and> length raw = unat n"
  by (auto simp: dec_bytes_def result_simps byte_get_Some_iff usize_checked_add_def usize_try_from_def split: if_splits)

lemma started_items:
  "started bs lim depth d b d1 \<Longrightarrow> depth \<le> max_metadata_depth lim \<and> unat (dec_items d1) = unat (dec_items d) + 1 \<and>
     unat (dec_items d1) \<le> unat (max_container_items lim)"
  by (auto simp: started_def checked_add_Some_iff not_less word_le_nat_alt)

definition counted :: "limits \<Rightarrow> decoder \<Rightarrow> nat \<Rightarrow> decoder \<Rightarrow> bool" where
  "counted lim d n d' \<longleftrightarrow> unat (dec_items d') = unat (dec_items d) + n \<and>
     (unat (dec_items d) \<le> unat (max_container_items lim) \<longrightarrow> unat (dec_items d') \<le> unat (max_container_items lim))"

lemma counted_trans: "counted lim d m d1 \<Longrightarrow> counted lim d1 n d2 \<Longrightarrow> counted lim d (m + n) d2"
  by (auto simp: counted_def)

lemma dec_value_fits:
  "dec_value bs lim depth d = Inr (v, d') \<Longrightarrow> cbor_fits lim v depth \<and> counted lim d (cbor_items v) d'"
  "dec_values bs lim depth n d = Inr (vs, d') \<Longrightarrow>
     list_all (\<lambda>v. cbor_fits lim v depth) vs \<and> counted lim d (sum_list (map cbor_items vs)) d'"
  "dec_entries bs lim depth n prev d = Inr (es, d') \<Longrightarrow>
     list_all (\<lambda>p. cbor_fits lim (fst p) depth \<and> cbor_fits lim (snd p) depth) es \<and>
     counted lim d (sum_list (map (\<lambda>p. cbor_items (fst p) + cbor_items (snd p)) es)) d'"
proof (induction bs lim depth d and bs lim depth n d and bs lim depth n prev d
    arbitrary: v d' and vs d' and es d' rule: dec_value_dec_values_dec_entries.induct)
  case (1 bs lim depth d)
  from "1.prems" show ?case
  proof (cases rule: dec_value_cases)
    case (uns b d1 n)
    then show ?thesis using started_items [OF uns(1)] dec_argument_items [OF uns(3)] by (simp add: counted_def)
  next
    case (bstr b d1 n d2 raw)
    then show ?thesis using started_items [OF bstr(1)] dec_argument_items [OF bstr(3)] dec_bytes_items [OF bstr(5)]
      by (simp add: counted_def word_le_nat_alt)
  next
    case (tstr b d1 n d2 raw)
    then show ?thesis using started_items [OF tstr(1)] dec_argument_items [OF tstr(3)] dec_bytes_items [OF tstr(5)]
      by (simp add: counted_def word_le_nat_alt)
  next
    case (arr b d1 n d2 vs)
    have "list_all (\<lambda>v. cbor_fits lim v (depth + 1)) vs \<and> counted lim d2 (sum_list (map cbor_items vs)) d'"
      using arr(1,2) by (intro "1.IH"(1) [OF _ _ _ _ refl refl refl _ _ _ _ arr(3) refl arr(4) _ arr(5), of "dec_items d1"]) (auto simp: started_def)
    then show ?thesis using arr(6) started_items [OF arr(1)] dec_argument_items [OF arr(3)]
      by (auto simp: counted_def list_all_iff)
  next
    case (map b d1 n d2 es)
    have "list_all (\<lambda>p. cbor_fits lim (fst p) (depth + 1) \<and> cbor_fits lim (snd p) (depth + 1)) es \<and>
        counted lim d2 (sum_list (List.map (\<lambda>p. cbor_items (fst p) + cbor_items (snd p)) es)) d'"
      using map(1,2) by (intro "1.IH"(2) [OF _ _ _ _ refl refl refl _ _ _ _ _ map(3) refl map(4) _ map(5), of "dec_items d1"]) (auto simp: started_def)
    then show ?thesis using map(6) started_items [OF map(1)] dec_argument_items [OF map(3)]
      by (auto simp: counted_def list_all_iff comp_def)
  next
    case (simple b)
    then show ?thesis using started_items [OF simple(1)] by (auto simp: counted_def)
  qed
next
  case (3 bs lim depth n d)
  from "3.prems" obtain v d1 vs' where
    v: "dec_value bs lim depth d = Inr (v, d1)" and vs': "dec_values bs lim depth n d1 = Inr (vs', d')" "vs = v # vs'"
    by (auto simp: result_simps)
  show ?case using "3.IH"(1) [OF v] "3.IH"(2) [OF v refl vs'(1)] vs'(2) by (auto intro: counted_trans)
next
  case (5 bs lim depth n prev d)
  from "5.prems" obtain k d1 kb v d2 es' where
    k: "dec_value bs lim depth d = Inr (k, d1)" and kb: "encode_canonical k = Inr kb"
    and ord: "\<not> (case prev of None \<Rightarrow> False | Some p \<Rightarrow> compare_key_bytes p kb \<noteq> Less)"
    and v: "dec_value bs lim depth d1 = Inr (v, d2)"
    and es': "dec_entries bs lim depth n (Some kb) d2 = Inr (es', d')" "es = (k, v) # es'"
    by (auto simp: result_simps split: if_splits)
  show ?case
    using "5.IH"(1) [OF k] "5.IH"(2) [OF k refl kb ord v] "5.IH"(3) [OF k refl kb ord v refl es'(1)] es'(2)
    by (auto intro: counted_trans)
qed (auto simp: counted_def)

lemma decode_canonical_fits:
  assumes "decode_canonical bs lim = Inr v"
  shows "cbor_fits lim v 0" "cbor_items v \<le> unat (max_container_items lim)" "length bs \<le> unat (max_metadata_bytes lim)"
proof -
  from assms obtain d where run: "dec_value bs lim 0 \<lparr>dec_offset = 0, dec_items = 0\<rparr> = Inr (v, d)"
    by (auto simp: decode_canonical_def result_simps split: if_splits)
  from dec_value_fits(1) [OF run] show "cbor_fits lim v 0" "cbor_items v \<le> unat (max_container_items lim)"
    by (auto simp: counted_def)
  show "length bs \<le> unat (max_metadata_bytes lim)"
    using assms by (auto simp: decode_canonical_def result_simps u64_try_from_Some_iff word_less_nat_alt not_less split: if_splits)
qed

section \<open>Properties\<close>

text \<open>
  C8. The decoder accepts a byte string exactly when it is the canonical encoding of a value whose maps
  are in key order (\<open>canon\<close> sorts them) and whose nesting, item count, string lengths, UTF-8 and size are
  within the limits, and returns that value; so no value has two accepted encodings.
\<close>

theorem cbor_decode_exact:
  "decode_canonical bs lim = Inr v \<longleftrightarrow>
     encode_canonical v = Inr bs \<and> canon v = v \<and> cbor_fits lim v 0 \<and>
     cbor_items v \<le> unat (max_container_items lim) \<and> length bs \<le> unat (max_metadata_bytes lim)"
proof
  assume dec: "decode_canonical bs lim = Inr v"
  note fits = decode_canonical_fits [OF dec] and enc = decode_canonical_encode [OF dec]
  from decode_canonical_complete [OF enc fits] dec have "canon v = v" by simp
  with fits enc show "encode_canonical v = Inr bs \<and> canon v = v \<and> cbor_fits lim v 0 \<and>
     cbor_items v \<le> unat (max_container_items lim) \<and> length bs \<le> unat (max_metadata_bytes lim)" by blast
next
  assume "encode_canonical v = Inr bs \<and> canon v = v \<and> cbor_fits lim v 0 \<and>
     cbor_items v \<le> unat (max_container_items lim) \<and> length bs \<le> unat (max_metadata_bytes lim)"
  then show "decode_canonical bs lim = Inr v" using decode_canonical_complete [of v bs lim] by simp
qed

text \<open>A record description that lies inside a file of \<open>n\<close> bytes, with its payload behind its header.\<close>

definition info_within :: "nat \<Rightarrow> record_info \<Rightarrow> bool" where
  "info_within n r \<longleftrightarrow> fst (ri_payload_range r) = unat (ri_offset r) + 40 \<and>
     snd (ri_payload_range r) = fst (ri_payload_range r) + unat (ri_stored_len r) \<and>
     ri_logical_len r = ri_stored_len r \<and> snd (ri_payload_range r) \<le> n"

lemma infos_within:
  assumes "i + length (concat (map record_image rs)) \<le> n" and "n < 2 ^ 64"
  shows "list_all (info_within n) (infos i rs)"
  using assms(1)
proof (induction i rs rule: infos.induct)
  case (2 i k oid p rs)
  then have "i < 2 ^ 64" "length p < 2 ^ 64" using assms(2) by simp_all
  then show ?case using 2 by (simp add: info_within_def add.assoc)
qed simp

text \<open>
  C24. What the in-memory reader returns is well formed: every record and its payload range lie inside
  the file behind its 40-byte header, the manifest has distinct non-zero roots, and \<open>object\<close> finds the
  active manifest and every root it names.
\<close>

theorem parsed_file_well_formed:
  assumes "parse sha bs lim = Inr vf"
  shows "vf_bytes vf = bs \<and> list_all (info_within (length bs)) (vf_records vf) \<and> validate_shape (vf_manifest vf) = Inr () \<and>
    vf_object vf (vf_manifest_id vf) \<noteq> None \<and> (\<forall>root \<in> set (roots (vf_manifest vf)). vf_object vf root \<noteq> None)"
proof -
  from parse_sound [OF assms] obtain rs d where
    bs: "bs = file_image sha rs d (vf_manifest_id vf)" and len: "length bs \<le> unat (max_file_bytes lim)"
    and acc: "accepted lim rs d (vf_manifest_id vf) (vf_manifest vf)"
    and vf: "vf = view sha rs d (vf_manifest_id vf) (vf_manifest vf)"
    and dig: "length (sha (body_image (rs @ [(Directory, 0, d)]))) = 32" .
  have lt: "length bs < 2 ^ 64" by (rule le_unat_64 [OF len])
  have obj: "vf_object vf oid = Some q \<longleftrightarrow> (\<exists>k. (k, oid, q) \<in> set rs \<and> k \<noteq> Directory)" for oid q
    using object_view [of rs sha d "vf_manifest_id vf" "vf_manifest vf" oid q] acc dig lt vf bs by (simp add: accepted_def)
  from acc obtain p where p: "(Manifest, vf_manifest_id vf, p) \<in> set rs"
    and pm: "and_then (decode_canonical p lim) parse_manifest = Inr (vf_manifest vf)" by (auto simp: accepted_def)
  have shape: "validate_shape (vf_manifest vf) = Inr ()"
    using pm by (auto simp: result_simps parse_manifest_def Let_def)
  have "vf_object vf root \<noteq> None" if "root \<in> set (roots (vf_manifest vf))" for root
  proof -
    from that acc obtain r where r: "r \<in> set rs" "spec_id r = root" by (auto simp: accepted_def)
    have "root \<noteq> 0" using that shape by (auto simp: validate_shape_Ok_iff)
    then have "fst r \<noteq> Directory" using ids_ok_mem [of "{}" rs r] acc r by (auto simp: accepted_def)
    then have "vf_object vf root = Some (spec_payload r)" using obj [of root "spec_payload r"] r by (metis prod.collapse)
    then show ?thesis by simp
  qed
  moreover have "list_all (info_within (length bs)) (infos 32 (rs @ [(Directory, 0, d)]))"
    by (rule infos_within) (use lt bs in \<open>simp_all add: file_image_def Let_def body_image_def\<close>)
  moreover have "vf_object vf (vf_manifest_id vf) = Some p" using obj [of "vf_manifest_id vf" p] p by blast
  ultimately show ?thesis using shape vf bs by (simp add: view_def) (metis validated_file.select_convs(1,5))
qed

theorem parsed_file_well_formed_witness:
  "\<exists>vf. parse sample_sha sample_file default_limits = Inr vf \<and> list_all (info_within (length sample_file)) (vf_records vf) \<and>
     vf_object vf 1 \<noteq> None \<and> vf_object vf 2 \<noteq> None"
proof -
  let ?vf = "view sample_sha sample_records sample_directory 1 sample_manifest"
  have "vf_manifest_id ?vf = 1" "2 \<in> set (roots (vf_manifest ?vf))" by (simp_all add: view_def sample_manifest_def manifest_new_def)
  with parsed_file_well_formed [OF sample_parse] sample_parse show ?thesis by auto
qed

end
