(* ===== verification/Ucof_Io.thy ===== *)
theory Ucof_Io
  imports Ucof_Error
begin

text \<open>
  Operations with \<open>&mut self\<close> that can fail, as functions from the state to a result and the state
  they leave (also when they fail), and the kinds of \<open>std::io::Error\<close> the code distinguishes.
\<close>

datatype io_error = InvalidData | InvalidInput | UnexpectedEof | Interrupted | WriteZero | OtherIo

type_synonym 'a io_result = "io_error + 'a"

type_synonym ('s, 'a) op = "'s \<Rightarrow> 'a result \<times> 's"

definition op_return :: "'a \<Rightarrow> ('s, 'a) op" where
  "op_return x = (\<lambda>s. (Inr x, s))"

definition op_fail :: "error \<Rightarrow> ('s, 'a) op" where
  "op_fail e = (\<lambda>s. (Inl e, s))"

text \<open>A computation that does not touch the state.\<close>

definition op_lift :: "'a result \<Rightarrow> ('s, 'a) op" where
  "op_lift r = (\<lambda>s. (r, s))"

definition op_bind :: "('s, 'a) op \<Rightarrow> ('a \<Rightarrow> ('s, 'b) op) \<Rightarrow> ('s, 'b) op" where
  "op_bind m f = (\<lambda>s. case m s of (Inl e, s') \<Rightarrow> (Inl e, s') | (Inr x, s') \<Rightarrow> f x s')"

definition op_get :: "('s \<Rightarrow> 'a) \<Rightarrow> ('s, 'a) op" where
  "op_get f = (\<lambda>s. (Inr (f s), s))"

definition op_modify :: "('s \<Rightarrow> 's) \<Rightarrow> ('s, unit) op" where
  "op_modify f = (\<lambda>s. (Inr (), f s))"

named_theorems op_simps

lemma op_run [op_simps]:
  "op_return x s = (Inr x, s)" "op_fail e s = (Inl e, s)" "op_lift r s = (r, s)"
  "op_get f s = (Inr (f s), s)" "op_modify g s = (Inr (), g s)"
  by (simp_all add: op_return_def op_fail_def op_lift_def op_get_def op_modify_def)

lemma op_bind_Ok_iff [op_simps]:
  "op_bind m f s = (Inr y, s'') \<longleftrightarrow> (\<exists>x s'. m s = (Inr x, s') \<and> f x s' = (Inr y, s''))"
  by (auto simp: op_bind_def split: prod.splits sum.splits)

lemma op_bind_Err_iff:
  "op_bind m f s = (Inl e, s'') \<longleftrightarrow>
     m s = (Inl e, s'') \<or> (\<exists>x s'. m s = (Inr x, s') \<and> f x s' = (Inl e, s''))"
  by (auto simp: op_bind_def split: prod.splits sum.splits)

lemma op_bind_run:
  "m s = (Inr x, s') \<Longrightarrow> op_bind m f s = f x s'"
  "m s = (Inl e, s') \<Longrightarrow> op_bind m f s = (Inl e, s')"
  by (simp_all add: op_bind_def)

text \<open>\<open>preserves P m\<close>: the operation keeps \<open>P\<close>, whether it succeeds or fails.\<close>

definition preserves :: "('s \<Rightarrow> bool) \<Rightarrow> ('s, 'a) op \<Rightarrow> bool" where
  "preserves P m \<longleftrightarrow> (\<forall>s. P s \<longrightarrow> P (snd (m s)))"

lemma preservesD: "preserves P m \<Longrightarrow> P s \<Longrightarrow> m s = (r, s') \<Longrightarrow> P s'"
  by (force simp: preserves_def)

named_theorems preserves_rules

lemma preserves_bind [preserves_rules]:
  "preserves P m \<Longrightarrow> (\<And>x. preserves P (f x)) \<Longrightarrow> preserves P (op_bind m f)"
  by (fastforce simp: preserves_def op_bind_def split: prod.splits sum.splits)

lemma preserves_basic [preserves_rules]:
  "preserves P (op_return x)" "preserves P (op_fail e)" "preserves P (op_lift r)" "preserves P (op_get f)"
  by (simp_all add: preserves_def op_simps)

lemma preserves_if [preserves_rules]:
  "(b \<Longrightarrow> preserves P m) \<Longrightarrow> (\<not> b \<Longrightarrow> preserves P n) \<Longrightarrow> preserves P (if b then m else n)"
  by simp

end
