(* ===== verification/Ucof_Source.thy ===== *)
theory Ucof_Source
  imports Ucof_Io Ucof_Reader
begin

text \<open>
  \<open>ucof-core/src/source.rs\<close>: random-access sources and the metadata inspector. A \<open>ReadAt\<close>
  implementation is the record of its two methods on a source state; \<open>read_exact_at\<close> returns the
  bytes that fill the buffer. \<open>SeekSource\<close> is built from the \<open>seek\<close> and \<open>read_exact\<close> of the wrapped
  \<open>Read + Seek\<close> value, which are parameters.
\<close>

section \<open>Sources\<close>

record 's read_at =
  ra_len :: "'s \<Rightarrow> u64 io_result \<times> 's"
  ra_read_exact_at :: "'s \<Rightarrow> u64 \<Rightarrow> usize \<Rightarrow> bytes io_result \<times> 's"

definition ra_is_empty :: "'s read_at \<Rightarrow> 's \<Rightarrow> bool io_result \<times> 's" where
  "ra_is_empty S s = (case ra_len S s of (Inl e, s') \<Rightarrow> (Inl e, s') | (Inr n, s') \<Rightarrow> (Inr (n = 0), s'))"

definition slice_len :: "bytes \<Rightarrow> u64 io_result \<times> bytes" where
  "slice_len bs = (ok_or InvalidData (u64_try_from (length bs)), bs)"

definition slice_read_exact_at :: "bytes \<Rightarrow> u64 \<Rightarrow> usize \<Rightarrow> bytes io_result \<times> bytes" where
  "slice_read_exact_at bs offset n =
     (and_then (ok_or InvalidInput (usize_try_from offset)) (\<lambda>start.
      and_then (ok_or InvalidInput (usize_checked_add start n)) (\<lambda>stop.
      ok_or UnexpectedEof (byte_get bs start stop))), bs)"

definition slice_source :: "bytes read_at" where
  "slice_source = \<lparr>ra_len = slice_len, ra_read_exact_at = slice_read_exact_at\<rparr>"

datatype seek_from = SeekStart u64 | SeekEnd int

definition seek_source :: "('s \<Rightarrow> seek_from \<Rightarrow> u64 io_result \<times> 's) \<Rightarrow> ('s \<Rightarrow> usize \<Rightarrow> bytes io_result \<times> 's)
    \<Rightarrow> 's read_at" where
  "seek_source seek read_exact =
     \<lparr>ra_len = (\<lambda>s. seek s (SeekEnd 0)),
      ra_read_exact_at = (\<lambda>s offset n.
        case seek s (SeekStart offset) of
          (Inl e, s') \<Rightarrow> (Inl e, s')
        | (Inr _, s') \<Rightarrow> read_exact s' n)\<rparr>"

section \<open>The budgeted reader\<close>

record read_stats =
  read_operations :: u64
  bytes_read :: u64
  largest_allocation :: u64

definition read_stats_default :: read_stats where
  "read_stats_default = \<lparr>read_operations = 0, bytes_read = 0, largest_allocation = 0\<rparr>"

datatype integrity_status = NotChecked | Verified

record 's budgeted_source =
  bu_source :: 's
  bu_file_len :: u64
  bu_limits :: limits
  bu_stats :: read_stats

definition budgeted_new :: "'s \<Rightarrow> u64 \<Rightarrow> limits \<Rightarrow> 's budgeted_source" where
  "budgeted_new source file_len lim =
     \<lparr>bu_source = source, bu_file_len = file_len, bu_limits = lim, bu_stats = read_stats_default\<rparr>"

definition checked_end :: "u64 \<Rightarrow> u64 \<Rightarrow> u64 \<Rightarrow> string \<Rightarrow> u64 result" where
  "checked_end offset len upper_bound context =
     and_then (ok_or (RangeOutOfBounds context) (checked_add offset len)) (\<lambda>stop.
     if stop > upper_bound then Err (RangeOutOfBounds context) else Ok stop)"

definition bu_read_exact :: "'s read_at \<Rightarrow> u64 \<Rightarrow> usize \<Rightarrow> string \<Rightarrow> ('s budgeted_source, bytes) op" where
  "bu_read_exact S offset n context =
     op_bind (op_lift (ok_or (LimitExceeded ''total bytes read'') (u64_try_from n))) (\<lambda>len.
     op_bind (op_get bu_file_len) (\<lambda>file_len.
     op_bind (op_lift (checked_end offset len file_len context)) (\<lambda>_.
     op_bind (op_get (bytes_read \<circ> bu_stats)) (\<lambda>total.
     op_bind (op_lift (ok_or (LimitExceeded ''total bytes read'') (checked_add total len))) (\<lambda>next_total.
     op_bind (op_get (max_total_bytes_read \<circ> bu_limits)) (\<lambda>limit.
     if next_total > limit then op_fail (LimitExceeded ''total bytes read'') else
     op_bind (\<lambda>r. case ra_read_exact_at S (bu_source r) offset n of
                (Inl _, s') \<Rightarrow> (Inl (Io context), r\<lparr>bu_source := s'\<rparr>)
              | (Inr bs, s') \<Rightarrow> (Inr bs, r\<lparr>bu_source := s', bu_stats := (bu_stats r)\<lparr>bytes_read := next_total\<rparr>\<rparr>)) (\<lambda>bs.
     op_bind (op_get (read_operations \<circ> bu_stats)) (\<lambda>operations.
     op_bind (op_lift (ok_or (LimitExceeded ''read operations'') (checked_add operations 1))) (\<lambda>operations.
     op_bind (op_modify (\<lambda>r. r\<lparr>bu_stats := (bu_stats r)\<lparr>read_operations := operations,
                largest_allocation := max (largest_allocation (bu_stats r)) len\<rparr>\<rparr>)) (\<lambda>_.
     op_return bs))))))))))"

definition bu_read_array :: "'s read_at \<Rightarrow> usize \<Rightarrow> u64 \<Rightarrow> string \<Rightarrow> ('s budgeted_source, bytes) op" where
  "bu_read_array S n offset context = bu_read_exact S offset n context"

definition bu_read_vec :: "'s read_at \<Rightarrow> u64 \<Rightarrow> u64 \<Rightarrow> string \<Rightarrow> ('s budgeted_source, bytes) op" where
  "bu_read_vec S offset len context =
     op_bind (op_get (max_allocation_bytes \<circ> bu_limits)) (\<lambda>limit.
     if len > limit then op_fail (LimitExceeded ''single allocation bytes'') else
     op_bind (op_lift (ok_or (LimitExceeded ''single allocation bytes'') (usize_try_from len))) (\<lambda>n.
     bu_read_exact S offset n context))"

section \<open>Fixed-length structures\<close>

record source_footer =
  sf_directory_offset :: u64
  sf_directory_len :: u64
  sf_manifest_id :: u64
  sf_record_count :: u64

record source_record_header =
  rh_kind :: record_kind
  rh_object_id :: u64
  rh_stored_len :: u64
  rh_logical_len :: u64
  rh_payload_offset :: u64

definition source_validate_header :: "bytes \<Rightarrow> unit result" where
  "source_validate_header bs =
     (if take (length FILE_MAGIC) bs \<noteq> FILE_MAGIC then Err (InvalidMagic ''file'') else
      and_then (read_u32_le bs 8 ''epoch'') (\<lambda>epoch.
      if epoch \<noteq> EXPERIMENTAL_EPOCH then Err (UnsupportedEpoch epoch) else
      and_then (read_u32_le bs 12 ''file flags'') (\<lambda>flags.
      if flags \<noteq> 0 then Err (UnsupportedFlags ''file'' (ucast flags)) else
      and_then (read_u32_le bs 16 ''file header length'') (\<lambda>len.
      if len \<noteq> of_nat HEADER_LEN then Err (InvalidLength ''file header'') else
      if list_ex (\<lambda>b. b \<noteq> 0) (drop 20 bs) then Err (InvalidReserved ''file header'') else Ok ()))))"

definition source_parse_footer :: "bytes \<Rightarrow> source_footer result" where
  "source_parse_footer bs =
     (if take (length FOOTER_MAGIC) bs \<noteq> FOOTER_MAGIC then Err (InvalidMagic ''footer'') else
      and_then (read_u32_le bs 8 ''footer length'') (\<lambda>len.
      if len \<noteq> of_nat FOOTER_LEN then Err (InvalidLength ''footer'') else
      and_then (read_u32_le bs 12 ''footer flags'') (\<lambda>flags.
      if flags \<noteq> 0 then Err (UnsupportedFlags ''footer'' (ucast flags)) else
      and_then (read_u64_le bs 16 ''directory offset'') (\<lambda>directory_offset.
      and_then (read_u64_le bs 24 ''directory length'') (\<lambda>directory_len.
      and_then (read_u64_le bs 32 ''manifest identifier'') (\<lambda>manifest_id.
      and_then (read_u64_le bs 40 ''record count'') (\<lambda>record_count.
      Ok \<lparr>sf_directory_offset = directory_offset, sf_directory_len = directory_len,
          sf_manifest_id = manifest_id, sf_record_count = record_count\<rparr>)))))))"

definition source_parse_record_header :: "bytes \<Rightarrow> u64 \<Rightarrow> limits \<Rightarrow> source_record_header result" where
  "source_parse_record_header bs offset lim =
     (if take (length RECORD_MAGIC) bs \<noteq> RECORD_MAGIC then Err (InvalidMagic ''record'') else
      and_then (read_u16_le bs 4 ''record kind'') (\<lambda>raw_kind.
      and_then (record_kind_try_from raw_kind) (\<lambda>kind.
      and_then (read_u16_le bs 6 ''record flags'') (\<lambda>flags.
      if flags \<noteq> 0 then Err (UnsupportedFlags ''record'' (ucast flags)) else
      and_then (read_u32_le bs 8 ''record header length'') (\<lambda>len.
      if len \<noteq> of_nat RECORD_HEADER_LEN then Err (InvalidLength ''record header'') else
      and_then (read_u64_le bs 12 ''stored length'') (\<lambda>stored_len.
      and_then (read_u64_le bs 20 ''logical length'') (\<lambda>logical_len.
      if stored_len \<noteq> logical_len then Err (InvalidLength ''transformed logical length'') else
      if stored_len > max_payload_bytes lim then Err (LimitExceeded ''record payload bytes'') else
      and_then (read_u64_le bs 28 ''object identifier'') (\<lambda>object_id.
      and_then (read_u32_le bs 36 ''record reserved'') (\<lambda>reserved.
      if reserved \<noteq> 0 then Err (InvalidReserved ''record header'') else
      and_then (ok_or (RangeOutOfBounds ''record payload'') (checked_add offset (of_nat RECORD_HEADER_LEN))) (\<lambda>payload_offset.
      Ok \<lparr>rh_kind = kind, rh_object_id = object_id, rh_stored_len = stored_len,
          rh_logical_len = logical_len, rh_payload_offset = payload_offset\<rparr>))))))))))"

section \<open>Metadata schemas\<close>

fun source_exact_map_loop :: "(cbor \<times> cbor) list \<Rightarrow> string list \<Rightarrow> string \<Rightarrow> (bytes \<rightharpoonup> cbor)
    \<Rightarrow> (bytes \<rightharpoonup> cbor) result" where
  "source_exact_map_loop [] expected context m = Ok m"
| "source_exact_map_loop ((Text key, v) # entries) expected context m =
     (if key \<notin> set (map str_bytes expected) \<or> m key \<noteq> None then Err (InvalidMetadataSchema context)
      else source_exact_map_loop entries expected context (m(key \<mapsto> v)))"
| "source_exact_map_loop ((_, v) # entries) expected context m =
     Err (InvalidMetadataSchema ''metadata map key must be text'')"

fun source_exact_map :: "cbor \<Rightarrow> string list \<Rightarrow> string \<Rightarrow> (bytes \<rightharpoonup> cbor) result" where
  "source_exact_map (Map entries) expected context =
     (if length entries \<noteq> length expected then Err (InvalidMetadataSchema context)
      else source_exact_map_loop entries expected context Map.empty)"
| "source_exact_map _ expected context = Err (InvalidMetadataSchema context)"

definition source_unsigned :: "cbor option \<Rightarrow> string \<Rightarrow> u64 result" where
  "source_unsigned v context =
     (case v of Some (Unsigned n) \<Rightarrow> Ok n | _ \<Rightarrow> Err (InvalidMetadataSchema context))"

definition source_unsigned_array :: "cbor option \<Rightarrow> string \<Rightarrow> u64 list result" where
  "source_unsigned_array v context =
     (case v of
        Some (Array vs) \<Rightarrow>
          try_map (\<lambda>v. case v of Unsigned n \<Rightarrow> Ok n | _ \<Rightarrow> Err (InvalidMetadataSchema context)) vs
      | _ \<Rightarrow> Err (InvalidMetadataSchema context))"

definition source_parse_directory_entry :: "cbor \<Rightarrow> directory_entry result" where
  "source_parse_directory_entry v =
     and_then (source_exact_map v [''id'', ''kind'', ''offset'', ''stored_len'', ''logical_len''] ''directory entry'') (\<lambda>m.
     and_then (source_unsigned (m (str_bytes ''kind'')) ''directory kind'') (\<lambda>raw_kind.
     and_then (ok_or (InvalidMetadataSchema ''directory kind range'') (u16_try_from raw_kind)) (\<lambda>raw_kind.
     and_then (source_unsigned (m (str_bytes ''id'')) ''directory id'') (\<lambda>id.
     and_then (record_kind_try_from raw_kind) (\<lambda>kind.
     and_then (source_unsigned (m (str_bytes ''offset'')) ''directory offset'') (\<lambda>offset.
     and_then (source_unsigned (m (str_bytes ''stored_len'')) ''directory stored length'') (\<lambda>stored_len.
     and_then (source_unsigned (m (str_bytes ''logical_len'')) ''directory logical length'') (\<lambda>logical_len.
     Ok \<lparr>de_id = id, de_kind = kind, de_offset = offset, de_stored_len = stored_len,
         de_logical_len = logical_len\<rparr>))))))))"

definition source_parse_directory :: "cbor \<Rightarrow> directory_entry list result" where
  "source_parse_directory v =
     and_then (source_exact_map v [''entries''] ''directory'') (\<lambda>m.
     and_then (ok_or (InvalidMetadataSchema ''directory entries'') (m (str_bytes ''entries''))) (\<lambda>entries.
     case entries of
       Array entries \<Rightarrow> try_map source_parse_directory_entry entries
     | _ \<Rightarrow> Err (InvalidMetadataSchema ''directory entries must be an array'')))"

definition source_parse_manifest :: "cbor \<Rightarrow> manifest result" where
  "source_parse_manifest v =
     and_then (source_exact_map v [''roots'', ''required'', ''optional''] ''manifest'') (\<lambda>m.
     and_then (source_unsigned_array (m (str_bytes ''roots'')) ''manifest roots'') (\<lambda>rs.
     and_then (source_unsigned_array (m (str_bytes ''required'')) ''manifest required capabilities'') (\<lambda>req.
     and_then (source_unsigned_array (m (str_bytes ''optional'')) ''manifest optional capabilities'') (\<lambda>opt.
     let manifest = \<lparr>roots = rs, required_capabilities = req, optional_capabilities = opt\<rparr> in
     and_then (validate_shape manifest) (\<lambda>_. Ok manifest)))))"

section \<open>Inspection\<close>

record inspection_report =
  in_file_len :: u64
  in_epoch :: u32
  in_manifest_id :: u64
  in_manifest :: manifest
  in_entries :: "directory_entry list"
  in_unsupported_required_capabilities :: "u64 list"
  in_integrity :: integrity_status
  in_stats :: read_stats

definition in_is_fully_interpretable :: "inspection_report \<Rightarrow> bool" where
  "in_is_fully_interpretable r \<longleftrightarrow> in_unsupported_required_capabilities r = []"

text \<open>The loop of \<open>validate_inventory_headers\<close>, then the check after it.\<close>

fun inventory_loop :: "'s read_at \<Rightarrow> directory_entry list \<Rightarrow> u64 \<Rightarrow> limits \<Rightarrow> u64 \<Rightarrow> u64 set
    \<Rightarrow> ('s budgeted_source, u64) op" where
  "inventory_loop S [] directory_offset lim expected_offset ids = op_return expected_offset"
| "inventory_loop S (entry # entries) directory_offset lim expected_offset ids =
     (if de_id entry = 0 \<or> de_id entry \<in> ids then op_fail (DuplicateObjectId (de_id entry))
      else if de_offset entry \<noteq> expected_offset then op_fail (DirectoryMismatch ''non-contiguous record offset'')
      else
      op_bind (bu_read_array S RECORD_HEADER_LEN (de_offset entry) ''inventory record header'') (\<lambda>header_bytes.
      op_bind (op_lift (source_parse_record_header header_bytes (de_offset entry) lim)) (\<lambda>header.
      if rh_kind header = Directory \<or> rh_object_id header = 0
      then op_fail (InvalidRecordOrder ''directory entry describes structural record'')
      else if rh_kind header \<noteq> de_kind entry \<or> rh_object_id header \<noteq> de_id entry
        \<or> rh_stored_len header \<noteq> de_stored_len entry \<or> rh_logical_len header \<noteq> de_logical_len entry
      then op_fail (DirectoryMismatch ''entry does not match record header'')
      else
      op_bind (op_lift (checked_end (rh_payload_offset header) (rh_stored_len header) directory_offset
        ''inventory record payload'')) (\<lambda>expected_offset.
      inventory_loop S entries directory_offset lim expected_offset (insert (de_id entry) ids)))))"

definition validate_inventory_headers :: "'s read_at \<Rightarrow> directory_entry list \<Rightarrow> u64 \<Rightarrow> limits
    \<Rightarrow> ('s budgeted_source, unit) op" where
  "validate_inventory_headers S entries directory_offset lim =
     op_bind (inventory_loop S entries directory_offset lim (of_nat HEADER_LEN) {}) (\<lambda>expected_offset.
     if expected_offset \<noteq> directory_offset
     then op_fail (DirectoryMismatch ''inventory does not end at directory'') else op_return ())"

text \<open>\<open>MetadataInspector::inspect\<close> after the length of the source is known and the reader is built.\<close>

definition inspect_directory :: "'s read_at \<Rightarrow> limits \<Rightarrow> source_footer
    \<Rightarrow> ('s budgeted_source, directory_entry list) op" where
  "inspect_directory S lim footer =
     op_bind (bu_read_array S RECORD_HEADER_LEN (sf_directory_offset footer) ''directory record header'') (\<lambda>header_bytes.
     op_bind (op_lift (source_parse_record_header header_bytes (sf_directory_offset footer) lim)) (\<lambda>header.
     if rh_kind header \<noteq> Directory \<or> rh_object_id header \<noteq> 0
     then op_fail (InvalidRecordOrder ''invalid directory record'') else
     op_bind (op_lift (ok_or (RangeOutOfBounds ''directory record'')
       (checked_add (of_nat RECORD_HEADER_LEN) (rh_stored_len header)))) (\<lambda>directory_total.
     if directory_total \<noteq> sf_directory_len footer then op_fail (DirectoryMismatch ''footer directory length'') else
     if rh_stored_len header > max_metadata_bytes lim then op_fail (LimitExceeded ''directory metadata bytes'') else
     op_bind (bu_read_vec S (rh_payload_offset header) (rh_stored_len header) ''directory payload'') (\<lambda>payload.
     op_bind (op_lift (decode_canonical payload lim)) (\<lambda>value.
     op_bind (op_lift (source_parse_directory value)) (\<lambda>entries.
     op_bind (op_lift (ok_or (LimitExceeded ''record count'') (u64_try_from (length entries)))) (\<lambda>n.
     op_bind (op_lift (ok_or (LimitExceeded ''record count'') (checked_add n 1))) (\<lambda>expected_record_count.
     if expected_record_count \<noteq> sf_record_count footer then op_fail (InvalidLength ''footer record count'') else
     if expected_record_count > max_records lim then op_fail (LimitExceeded ''record count'') else
     op_return entries))))))))"

definition inspect_manifest :: "'s read_at \<Rightarrow> limits \<Rightarrow> source_footer \<Rightarrow> directory_entry list
    \<Rightarrow> ('s budgeted_source, manifest) op" where
  "inspect_manifest S lim footer entries =
     op_bind (op_lift (ok_or (MissingManifest (sf_manifest_id footer))
       (List.find (\<lambda>e. de_id e = sf_manifest_id footer) entries))) (\<lambda>entry.
     if de_kind entry \<noteq> Manifest then op_fail (MissingManifest (sf_manifest_id footer)) else
     if de_stored_len entry > max_metadata_bytes lim then op_fail (LimitExceeded ''manifest metadata bytes'') else
     op_bind (op_lift (ok_or (RangeOutOfBounds ''manifest payload'')
       (checked_add (de_offset entry) (of_nat RECORD_HEADER_LEN)))) (\<lambda>payload_offset.
     op_bind (bu_read_vec S payload_offset (de_stored_len entry) ''manifest payload'') (\<lambda>payload.
     op_bind (op_lift (decode_canonical payload lim)) (\<lambda>value.
     op_bind (op_lift (source_parse_manifest value)) (\<lambda>manifest.
     let available = set (map de_id entries) in
     if list_ex (\<lambda>root. root \<notin> available) (roots manifest)
     then op_fail (InvalidMetadataSchema ''manifest root does not exist'') else
     op_return manifest)))))"

definition inspect_body :: "'s read_at \<Rightarrow> limits \<Rightarrow> u64 \<Rightarrow> ('s budgeted_source, inspection_report) op" where
  "inspect_body S lim file_len =
     op_bind (bu_read_array S HEADER_LEN 0 ''file header'') (\<lambda>header.
     op_bind (op_lift (source_validate_header header)) (\<lambda>_.
     op_bind (op_lift (ok_or (Truncated ''footer'') (checked_sub file_len (of_nat FOOTER_LEN)))) (\<lambda>footer_offset.
     op_bind (bu_read_array S FOOTER_LEN footer_offset ''footer'') (\<lambda>footer_bytes.
     op_bind (op_lift (source_parse_footer footer_bytes)) (\<lambda>footer.
     op_bind (op_lift (checked_end (sf_directory_offset footer) (sf_directory_len footer) footer_offset ''directory''))
       (\<lambda>directory_end.
     if directory_end \<noteq> footer_offset then op_fail (InvalidRecordOrder ''directory must end at footer'') else
     if sf_directory_len footer < of_nat RECORD_HEADER_LEN then op_fail (InvalidLength ''directory record'') else
     op_bind (inspect_directory S lim footer) (\<lambda>entries.
     op_bind (validate_inventory_headers S entries (sf_directory_offset footer) lim) (\<lambda>_.
     op_bind (inspect_manifest S lim footer entries) (\<lambda>manifest.
     op_bind (op_get bu_stats) (\<lambda>stats.
     op_return \<lparr>in_file_len = file_len, in_epoch = EXPERIMENTAL_EPOCH, in_manifest_id = sf_manifest_id footer,
       in_manifest = manifest, in_entries = entries,
       in_unsupported_required_capabilities = required_capabilities manifest,
       in_integrity = NotChecked, in_stats = stats\<rparr>))))))))))"

definition metadata_inspect :: "'s read_at \<Rightarrow> limits \<Rightarrow> ('s, inspection_report) op" where
  "metadata_inspect S lim source =
     (case ra_len S source of
        (Inl _, source) \<Rightarrow> (Inl (Io ''source length''), source)
      | (Inr file_len, source) \<Rightarrow>
        if file_len > max_file_bytes lim then (Inl (LimitExceeded ''file bytes''), source) else
        if file_len < of_nat (HEADER_LEN + FOOTER_LEN) then (Inl (Truncated ''file header or footer''), source) else
        (case inspect_body S lim file_len (budgeted_new source file_len lim) of
           (r, reader) \<Rightarrow> (r, bu_source reader)))"

end
