(* ===== verification/Ucof_Source_Validate.thy ===== *)
theory Ucof_Source_Validate
  imports Ucof_Source
begin

text \<open>
  \<open>ucof-core/src/source_validate.rs\<close>: strict validation of a stable random-access source. The
  incremental SHA-256 state is the list of the bytes fed to it, finalised by the parameter \<open>sha\<close>.
\<close>

record source_validation_stats =
  sv_read_operations :: u64
  sv_bytes_read :: u64
  sv_bytes_hashed :: u64
  sv_largest_allocation :: u64

record source_validation_report =
  sr_file_len :: u64
  sr_epoch :: u32
  sr_manifest_id :: u64
  sr_manifest :: manifest
  sr_entries :: "directory_entry list"
  sr_unsupported_required_capabilities :: "u64 list"
  sr_integrity :: integrity_status
  sr_stats :: source_validation_stats

definition sr_is_fully_interpretable :: "source_validation_report \<Rightarrow> bool" where
  "sr_is_fully_interpretable r \<longleftrightarrow> sr_unsupported_required_capabilities r = []"

record 's validation_reader =
  vr_source :: 's
  vr_file_len :: u64
  vr_limits :: limits
  vr_stats :: source_validation_stats

definition validation_reader_new :: "'s \<Rightarrow> u64 \<Rightarrow> limits \<Rightarrow> source_validation_stats \<Rightarrow> 's validation_reader" where
  "validation_reader_new source file_len lim stats =
     \<lparr>vr_source = source, vr_file_len = file_len, vr_limits = lim, vr_stats = stats\<rparr>"

definition vr_read_exact :: "'s read_at \<Rightarrow> u64 \<Rightarrow> usize \<Rightarrow> string \<Rightarrow> ('s validation_reader, bytes) op" where
  "vr_read_exact S offset n context =
     op_bind (op_lift (ok_or (LimitExceeded ''total bytes read'') (u64_try_from n))) (\<lambda>len.
     op_bind (op_lift (ok_or (RangeOutOfBounds context) (checked_add offset len))) (\<lambda>stop.
     op_bind (op_get vr_file_len) (\<lambda>file_len.
     if stop > file_len then op_fail (RangeOutOfBounds context) else
     op_bind (op_get (sv_bytes_read \<circ> vr_stats)) (\<lambda>total.
     op_bind (op_lift (ok_or (LimitExceeded ''total bytes read'') (checked_add total len))) (\<lambda>next_total.
     op_bind (op_get (max_total_bytes_read \<circ> vr_limits)) (\<lambda>limit.
     if next_total > limit then op_fail (LimitExceeded ''total bytes read'') else
     op_bind (\<lambda>r. case ra_read_exact_at S (vr_source r) offset n of
                (Inl _, s') \<Rightarrow> (Inl (Io context), r\<lparr>vr_source := s'\<rparr>)
              | (Inr bs, s') \<Rightarrow> (Inr bs, r\<lparr>vr_source := s', vr_stats := (vr_stats r)\<lparr>sv_bytes_read := next_total\<rparr>\<rparr>)) (\<lambda>bs.
     op_bind (op_get (sv_read_operations \<circ> vr_stats)) (\<lambda>operations.
     op_bind (op_lift (ok_or (LimitExceeded ''read operations'') (checked_add operations 1))) (\<lambda>operations.
     op_bind (op_modify (\<lambda>r. r\<lparr>vr_stats := (vr_stats r)\<lparr>sv_read_operations := operations\<rparr>\<rparr>)) (\<lambda>_.
     op_return bs))))))))))"

definition vr_read_array :: "'s read_at \<Rightarrow> usize \<Rightarrow> u64 \<Rightarrow> string \<Rightarrow> ('s validation_reader, bytes) op" where
  "vr_read_array S n offset context = vr_read_exact S offset n context"

definition validate_parse_footer :: "bytes \<Rightarrow> footer result" where
  "validate_parse_footer bs =
     (if take (length FOOTER_MAGIC) bs \<noteq> FOOTER_MAGIC then Err (InvalidMagic ''footer'') else
      and_then (read_u32_le bs 8 ''footer length'') (\<lambda>len.
      if len \<noteq> of_nat FOOTER_LEN then Err (InvalidLength ''footer'') else
      and_then (read_u32_le bs 12 ''footer flags'') (\<lambda>flags.
      if flags \<noteq> 0 then Err (UnsupportedFlags ''footer'' (ucast flags)) else
      let digest = take (80 - 48) (drop 48 bs) in
      and_then (read_u64_le bs 16 ''directory offset'') (\<lambda>directory_offset.
      and_then (read_u64_le bs 24 ''directory length'') (\<lambda>directory_len.
      and_then (read_u64_le bs 32 ''manifest identifier'') (\<lambda>manifest_id.
      and_then (read_u64_le bs 40 ''record count'') (\<lambda>record_count.
      Ok \<lparr>ft_directory_offset = directory_offset, ft_directory_len = directory_len,
          ft_manifest_id = manifest_id, ft_record_count = record_count, ft_digest = digest\<rparr>)))))))"

definition validate_footer_against_inspection :: "footer \<Rightarrow> u64 \<Rightarrow> directory_entry list \<Rightarrow> u64 \<Rightarrow> unit result" where
  "validate_footer_against_inspection footer footer_offset entries manifest_id =
     (if ft_manifest_id footer \<noteq> manifest_id then Err (DirectoryMismatch ''footer manifest changed during validation'') else
      and_then (ok_or (LimitExceeded ''record count'') (u64_try_from (length entries))) (\<lambda>n.
      and_then (ok_or (LimitExceeded ''record count'') (checked_add n 1)) (\<lambda>expected_count.
      if ft_record_count footer \<noteq> expected_count then Err (InvalidLength ''footer record count'') else
      and_then (if entries = [] then Ok (of_nat HEADER_LEN)
        else ok_or (RangeOutOfBounds ''directory offset'')
          (Option.bind (checked_add (de_offset (last entries)) (of_nat RECORD_HEADER_LEN))
             (\<lambda>v. checked_add v (de_stored_len (last entries))))) (\<lambda>directory_offset.
      if ft_directory_offset footer \<noteq> directory_offset then Err (DirectoryMismatch ''footer directory offset'') else
      and_then (ok_or (RangeOutOfBounds ''directory length'') (checked_sub footer_offset directory_offset)) (\<lambda>directory_len.
      if ft_directory_len footer \<noteq> directory_len then Err (DirectoryMismatch ''footer directory length'') else
      Ok ())))))"

lemma chunk_progress:
  assumes "offset < fo" and "c \<noteq> 0" and "checked_sub fo offset = Some rest"
    and "checked_add offset (min rest c) = Some offset'"
  shows "unat fo - unat offset' < unat fo - unat (offset :: u64)"
proof -
  have "rest \<noteq> 0" using assms(1,3) by (auto simp: checked_sub_Some_iff word_less_nat_alt)
  then have "0 < unat (min rest c)" using assms(2) by (simp add: min_def unat_gt_0)
  then show ?thesis
    using assms by (simp add: checked_add_Some_iff word_less_nat_alt)
qed

text \<open>The hashing loop of \<open>validate\<close>. The code refuses \<open>chunk_limit = 0\<close> before the loop; the function
  repeats that test so that it is total.\<close>

function hash_loop :: "'s read_at \<Rightarrow> u64 \<Rightarrow> u64 \<Rightarrow> u64 \<Rightarrow> bytes \<Rightarrow> ('s validation_reader, bytes) op" where
  "hash_loop S chunk_limit footer_offset offset hashed r =
     (if offset < footer_offset then
        if chunk_limit = 0 then (Inl (LimitExceeded ''hash chunk bytes''), r) else
        case checked_sub footer_offset offset of
          None \<Rightarrow> (Inl (RangeOutOfBounds ''committed prefix''), r)
        | Some remaining \<Rightarrow>
          let len = min remaining chunk_limit in
          (case vr_read_exact S offset (unat len) ''committed prefix'' r of
             (Inl e, r) \<Rightarrow> (Inl e, r)
           | (Inr bs, r) \<Rightarrow>
             (case checked_add (sv_bytes_hashed (vr_stats r)) len of
                None \<Rightarrow> (Inl (LimitExceeded ''bytes hashed''), r)
              | Some next_hashed \<Rightarrow>
                let r = r\<lparr>vr_stats := (vr_stats r)\<lparr>sv_bytes_hashed := next_hashed\<rparr>\<rparr> in
                (case checked_add offset len of
                   None \<Rightarrow> (Inl (RangeOutOfBounds ''committed prefix''), r)
                 | Some offset \<Rightarrow> hash_loop S chunk_limit footer_offset offset (hashed @ bs) r)))
      else (Inr hashed, r))"
  by pat_completeness auto
termination
proof (relation "measure (\<lambda>(S, c, fo, offset, h, r). unat fo - unat offset)", goal_cases)
  case 1
  then show ?case by simp
next
  case (2 S c fo offset h r)
  then show ?case by (simp add: chunk_progress)
qed

declare hash_loop.simps [simp del]

definition source_validate :: "(bytes \<Rightarrow> bytes) \<Rightarrow> 's read_at \<Rightarrow> limits \<Rightarrow> ('s, source_validation_report) op" where
  "source_validate sha S lim source =
     (case metadata_inspect S lim source of
        (Inl e, source) \<Rightarrow> (Inl e, source)
      | (Inr inspection, source) \<Rightarrow>
        (case checked_sub (in_file_len inspection) (of_nat FOOTER_LEN) of
           None \<Rightarrow> (Inl (Truncated ''footer''), source)
         | Some footer_offset \<Rightarrow>
           let initial_stats = \<lparr>sv_read_operations = read_operations (in_stats inspection),
                 sv_bytes_read = bytes_read (in_stats inspection), sv_bytes_hashed = 0,
                 sv_largest_allocation = largest_allocation (in_stats inspection)\<rparr>;
               reader = validation_reader_new source (in_file_len inspection) lim initial_stats;
               chunk_limit = min (max_stream_chunk_bytes lim) (max_allocation_bytes lim) in
           if chunk_limit = 0 then (Inl (LimitExceeded ''hash chunk bytes''), source) else
           let reader = reader\<lparr>vr_stats := (vr_stats reader)\<lparr>sv_largest_allocation :=
                 max (sv_largest_allocation (vr_stats reader)) chunk_limit\<rparr>\<rparr> in
           (case op_bind (hash_loop S chunk_limit footer_offset 0 []) (\<lambda>hashed.
              op_bind (vr_read_array S FOOTER_LEN footer_offset ''footer'') (\<lambda>footer_bytes.
              op_bind (op_lift (validate_parse_footer footer_bytes)) (\<lambda>footer.
              op_bind (op_lift (validate_footer_against_inspection footer footer_offset
                (in_entries inspection) (in_manifest_id inspection))) (\<lambda>_.
              if sha hashed \<noteq> ft_digest footer then op_fail DigestMismatch else
              op_bind (op_get vr_stats) (\<lambda>stats.
              op_return \<lparr>sr_file_len = in_file_len inspection, sr_epoch = in_epoch inspection,
                sr_manifest_id = in_manifest_id inspection, sr_manifest = in_manifest inspection,
                sr_entries = in_entries inspection,
                sr_unsupported_required_capabilities = in_unsupported_required_capabilities inspection,
                sr_integrity = Verified, sr_stats = stats\<rparr>))))) reader of
              (r, reader) \<Rightarrow> (r, vr_source reader))))"

end
