(* ===== verification/Ucof_Source_Sound.thy ===== *)
theory Ucof_Source_Sound
  imports Ucof_Source_Validate Ucof_File
begin

text \<open>
  The contract of a random-access source, and what the inspector and the validator establish over any
  source that keeps it: every read stays within the budget, and a verified report describes exactly
  the file the source presents.
\<close>

section \<open>The private parsers of the source readers agree with the in-memory reader\<close>

lemma source_exact_map_loop_eq: "source_exact_map_loop es ex c m = exact_map_loop es ex c m"
  by (induction es ex c m rule: source_exact_map_loop.induct) (auto simp: fun_upd_def)

lemma source_exact_map_eq: "source_exact_map v ex c = exact_map v ex c"
  by (cases v) (simp_all add: exact_map_def source_exact_map_loop_eq)

lemma source_unsigned_eq: "source_unsigned v c = unsigned v c"
  by (induction v c rule: unsigned.induct) (simp_all add: source_unsigned_def)

lemma source_unsigned_array_eq: "source_unsigned_array v c = unsigned_array v c"
proof -
  have "(\<lambda>v. case v of Unsigned n \<Rightarrow> Ok n | _ \<Rightarrow> Err (InvalidMetadataSchema c)) = (\<lambda>v. unsigned (Some v) c)"
    by (rule ext) (simp split: cbor.splits)
  then show ?thesis
    by (induction v c rule: unsigned_array.induct) (simp_all add: source_unsigned_array_def)
qed

lemma source_parse_directory_entry_eq: "source_parse_directory_entry = parse_directory_entry"
  by (rule ext) (simp add: source_parse_directory_entry_def parse_directory_entry_def source_exact_map_eq source_unsigned_eq)

lemma source_parse_directory_eq: "source_parse_directory = parse_directory"
  unfolding source_parse_directory_def parse_directory_def source_exact_map_eq source_parse_directory_entry_eq ..

lemma source_parse_manifest_eq: "source_parse_manifest = parse_manifest"
  by (rule ext) (simp add: source_parse_manifest_def parse_manifest_def source_exact_map_eq source_unsigned_array_eq)

lemma source_validate_header_eq:
  assumes "length bs < 2 ^ 64" and "32 \<le> length bs"
  shows "source_validate_header (take 32 bs) = validate_header bs"
proof -
  let ?h = "take 32 bs"
  note blk = read_block [of ?h 32 0 bs, simplified, OF assms(2,1) [simplified]]
  have "take_slice bs 0 8 c = Inr (take 8 ?h)" "take_slice bs 20 12 c = Inr (drop 20 ?h)" for c
    using assms by (simp_all add: take_slice_eq drop_take)
  then show ?thesis
    unfolding validate_header_def source_validate_header_def by (simp add: blk cong: if_cong)
qed

lemma source_parse_footer_eq:
  assumes "length bs < 2 ^ 64" and "n + 80 \<le> length bs"
  shows "source_parse_footer (take 80 (drop n bs)) = map_sum id (\<lambda>ft. \<lparr>sf_directory_offset = ft_directory_offset ft,
     sf_directory_len = ft_directory_len ft, sf_manifest_id = ft_manifest_id ft, sf_record_count = ft_record_count ft\<rparr>)
     (parse_footer bs n)"
proof -
  let ?h = "take 80 (drop n bs)"
  note blk = read_block [of ?h 80 n bs, OF refl assms(2,1)]
  have "take_slice bs n 8 c = Inr (take 8 ?h)" "take_slice bs (n + 48) 32 c = Inr (drop 48 ?h)" for c
    using assms by (simp_all add: take_slice_eq drop_take add.commute)
  then show ?thesis
    unfolding parse_footer_def source_parse_footer_def by (simp add: blk and_then_def cong: if_cong split: sum.splits)
qed

lemma validate_parse_footer_eq:
  assumes "length bs < 2 ^ 64" and "n + 80 \<le> length bs"
  shows "validate_parse_footer (take 80 (drop n bs)) = parse_footer bs n"
proof -
  let ?h = "take 80 (drop n bs)"
  note blk = read_block [of ?h 80 n bs, OF refl assms(2,1)]
  have "take_slice bs n 8 c = Inr (take 8 ?h)" "take_slice bs (n + 48) 32 c = Inr (take 32 (drop 48 ?h))" for c
    using assms by (simp_all add: take_slice_eq drop_take add.commute)
  then show ?thesis
    unfolding parse_footer_def validate_parse_footer_def by (simp add: blk cong: if_cong)
qed

lemma source_record_header_Ok_iff:
  assumes "length h = 40"
  shows "source_parse_record_header h offset lim = Inr rh \<longleftrightarrow>
    h = record_header (rh_kind rh) (rh_object_id rh) (rh_stored_len rh) \<and>
    rh_stored_len rh \<le> max_payload_bytes lim \<and> rh_logical_len rh = rh_stored_len rh \<and>
    checked_add offset 40 = Some (rh_payload_offset rh)"
proof -
  have "h = record_header k oid n \<longleftrightarrow> take 4 h = RECORD_MAGIC \<and>
      read_u16_le h 4 ''record kind'' = Inr (u16_from_kind k) \<and> read_u16_le h 6 ''record flags'' = Inr 0 \<and>
      read_u32_le h 8 ''record header length'' = Inr 40 \<and> read_u64_le h 12 ''stored length'' = Inr n \<and>
      read_u64_le h 20 ''logical length'' = Inr n \<and> read_u64_le h 28 ''object identifier'' = Inr oid \<and>
      read_u32_le h 36 ''record reserved'' = Inr 0" for k oid n
    using record_header_fields [of h 0 k oid n "''magic''" "''record kind''" "''record flags''" "''record header length''"
        "''stored length''" "''logical length''" "''object identifier''" "''record reserved''"] assms
    by (simp add: take_slice_eq)
  then show ?thesis
    by (cases rh) (auto simp: source_parse_record_header_def result_simps record_kind_Ok_iff split: if_splits)
qed

section \<open>The read budget\<close>

text \<open>The reads of the budgeted reader, for any source.\<close>

lemma bu_read_exact_Ok:
  assumes "bu_read_exact S off n c r = (Inr bs, r')"
  shows "\<exists>s'. ra_read_exact_at S (bu_source r) off n = (Inr bs, s') \<and>
    n < 2 ^ 64 \<and> unat off + n \<le> unat (bu_file_len r) \<and>
    unat (bytes_read (bu_stats r)) + n \<le> unat (max_total_bytes_read (bu_limits r)) \<and>
    r' = r\<lparr>bu_source := s', bu_stats := \<lparr>read_operations = read_operations (bu_stats r) + 1,
      bytes_read = bytes_read (bu_stats r) + of_nat n,
      largest_allocation = max (largest_allocation (bu_stats r)) (of_nat n)\<rparr>\<rparr>"
  using assms
  by (cases "bu_stats r") (auto simp: bu_read_exact_def op_simps result_simps checked_end_def checked_add_def u64_try_from_def word_less_nat_alt unat_add_no_overflow
     split: if_splits prod.splits sum.splits)

definition within_budget :: "limits \<Rightarrow> 's budgeted_source \<Rightarrow> bool" where
  "within_budget lim r \<longleftrightarrow> bu_limits r = lim \<and> bytes_read (bu_stats r) \<le> max_total_bytes_read lim \<and>
     largest_allocation (bu_stats r) \<le> max 80 (max_allocation_bytes lim)"

lemma bu_read_exact_budget:
  assumes "of_nat n \<le> max 80 (max_allocation_bytes lim)"
  shows "preserves (within_budget lim) (bu_read_exact S off n c)"
  using assms
  unfolding preserves_def within_budget_def bu_read_exact_def
  by (auto simp: op_bind_def op_run result_simps u64_try_from_def split: if_splits prod.splits sum.splits)

lemma bu_read_array_budget [preserves_rules]:
  "n \<le> 80 \<Longrightarrow> preserves (within_budget lim) (bu_read_array S n off c)"
  unfolding bu_read_array_def
  using of_nat_le_64 [of n 80] by (intro bu_read_exact_budget max.coboundedI1) simp

lemma bu_read_vec_budget [preserves_rules]: "preserves (within_budget lim) (bu_read_vec S off len c)"
proof -
  have "within_budget lim (snd (bu_read_vec S off len c r))" if r: "within_budget lim r" for r
  proof (cases "len > max_allocation_bytes lim")
    case False
    then have "preserves (within_budget lim) (bu_read_exact S off (unat len) c)"
      by (intro bu_read_exact_budget) (simp add: le_max_iff_disj not_less)
    then show ?thesis
      using False r by (simp add: bu_read_vec_def op_bind_def op_run within_budget_def preserves_def)
  qed (use r in \<open>simp add: bu_read_vec_def op_bind_def op_run within_budget_def\<close>)
  then show ?thesis by (simp add: preserves_def)
qed

lemma inventory_loop_budget [preserves_rules]: "preserves (within_budget lim) (inventory_loop S es doff l off ids)"
  by (induction es arbitrary: off ids) (auto intro!: preserves_rules)

lemma inspect_body_budget: "preserves (within_budget lim) (inspect_body S l n)"
  unfolding inspect_body_def inspect_directory_def inspect_manifest_def validate_inventory_headers_def Let_def
  by (intro preserves_rules) simp_all

lemma inspect_budget:
  assumes "metadata_inspect S lim s = (Inr rep, s')"
  shows "bytes_read (in_stats rep) \<le> max_total_bytes_read lim"
    "largest_allocation (in_stats rep) \<le> max 80 (max_allocation_bytes lim)"
proof -
  from assms obtain n s1 r where run: "inspect_body S lim n (budgeted_new s1 n lim) = (Inr rep, r)"
    by (auto simp: metadata_inspect_def split: prod.splits sum.splits if_splits)
  have "within_budget lim (budgeted_new s1 n lim)"
    by (simp add: within_budget_def budgeted_new_def read_stats_default_def le_max_iff_disj)
  then have "within_budget lim r" using preservesD [OF inspect_body_budget _ run] by blast
  moreover have "in_stats rep = bu_stats r"
    using run by (auto simp: inspect_body_def op_simps split: if_splits)
  ultimately show "bytes_read (in_stats rep) \<le> max_total_bytes_read lim"
    "largest_allocation (in_stats rep) \<le> max 80 (max_allocation_bytes lim)"
    by (simp_all add: within_budget_def)
qed

section \<open>Sources\<close>

text \<open>
  \<open>read_at_source\<close> is the contract of \<open>ReadAt\<close>: a read that succeeds fills the buffer.
  \<open>stable_source\<close> adds what \<open>SourceValidator\<close> asks of its callers: the source presents the same
  length and bytes throughout. \<open>ready_source\<close> adds that reads within the content succeed.
\<close>

locale read_at_source =
  fixes S :: "'s read_at"
  assumes read_fills: "ra_read_exact_at S s off n = (Inr bs, s') \<Longrightarrow> length bs = n"

locale stable_source =
  fixes S :: "'s read_at" and content :: "'s \<Rightarrow> bytes"
  assumes len_content: "ra_len S s = (Inr w, s') \<Longrightarrow> unat w = length (content s) \<and> content s' = content s"
    and read_content: "ra_read_exact_at S s off n = (Inr bs, s') \<Longrightarrow>
      length bs = n \<and> bs = take n (drop (unat off) (content s)) \<and> content s' = content s"

sublocale stable_source \<subseteq> read_at_source S
proof
  show "length bs = n" if "ra_read_exact_at S s off n = (Inr bs, s')" for s off n bs s'
    using read_content [OF that] by blast
qed

locale ready_source = stable_source S content for S :: "'s read_at" and content +
  assumes len_ready: "length (content s) < 2 ^ 64 \<Longrightarrow> \<exists>w s'. ra_len S s = (Inr w, s')"
    and read_ready: "length (content s) < 2 ^ 64 \<Longrightarrow> unat off + n \<le> length (content s) \<Longrightarrow>
      \<exists>bs s'. ra_read_exact_at S s off n = (Inr bs, s')"

interpretation slice: ready_source slice_source "\<lambda>bs. bs"
proof
  show "unat n = length s \<and> s' = s" if "ra_len slice_source s = (Inr n, s')" for s n s'
    using that by (auto simp: slice_source_def slice_len_def result_simps u64_try_from_Some_iff)
  show "length bs = n \<and> bs = take n (drop (unat off) s) \<and> s' = s"
    if "ra_read_exact_at slice_source s off n = (Inr bs, s')" for s off n bs s'
    using that by (auto simp: slice_source_def slice_read_exact_at_def result_simps byte_get_Some_iff
        usize_checked_add_def split: if_splits)
  show "\<exists>n s'. ra_len slice_source s = (Inr n, s')" if "length s < 2 ^ 64" for s
    using that by (simp add: slice_source_def slice_len_def)
  show "\<exists>bs s'. ra_read_exact_at slice_source s off n = (Inr bs, s')"
    if "length s < 2 ^ 64" "unat off + n \<le> length s" for s off n
    using that by (simp add: slice_source_def slice_read_exact_at_def usize_checked_add_def byte_get_def)
qed

text \<open>A seekable reader as \<open>Seek\<close> and \<open>Read\<close> document it: \<open>seek\<close> sets the position, \<open>read_exact\<close> takes the
  next bytes. The adapter \<open>SeekSource\<close> over one is a stable source.\<close>

locale seekable =
  fixes seek :: "'s \<Rightarrow> seek_from \<Rightarrow> u64 io_result \<times> 's" and read_exact :: "'s \<Rightarrow> usize \<Rightarrow> bytes io_result \<times> 's"
    and content :: "'s \<Rightarrow> bytes" and pos :: "'s \<Rightarrow> nat"
  assumes seek_start: "seek s (SeekStart w) = (Inr m, s') \<Longrightarrow> content s' = content s \<and> pos s' = unat w"
    and seek_end: "seek s (SeekEnd 0) = (Inr m, s') \<Longrightarrow> content s' = content s \<and> unat m = length (content s)"
    and read_next: "read_exact s n = (Inr bs, s') \<Longrightarrow>
      content s' = content s \<and> length bs = n \<and> bs = take n (drop (pos s) (content s))"

sublocale seekable \<subseteq> sought: stable_source "seek_source seek read_exact" content
proof
  show "unat n = length (content s) \<and> content s' = content s"
    if "ra_len (seek_source seek read_exact) s = (Inr n, s')" for s n s'
    using that seek_end [of s n s'] by (simp add: seek_source_def)
  show "length bs = n \<and> bs = take n (drop (unat off) (content s)) \<and> content s' = content s"
    if "ra_read_exact_at (seek_source seek read_exact) s off n = (Inr bs, s')" for s off n bs s'
  proof -
    from that obtain m s1 where "seek s (SeekStart off) = (Inr m, s1)" "read_exact s1 n = (Inr bs, s')"
      by (auto simp: seek_source_def split: prod.splits sum.splits)
    from seek_start [OF this(1)] read_next [OF this(2)] show ?thesis by metis
  qed
qed

text \<open>\<open>std::io::Cursor\<close> over a byte vector.\<close>

record cursor =
  cu_bytes :: bytes
  cu_pos :: u64

definition cursor_seek :: "cursor \<Rightarrow> seek_from \<Rightarrow> u64 io_result \<times> cursor" where
  "cursor_seek c w =
     (case w of
        SeekStart n \<Rightarrow> (Inr n, c\<lparr>cu_pos := n\<rparr>)
      | SeekEnd d \<Rightarrow>
        let p = int (length (cu_bytes c)) + d in
        if 0 \<le> p \<and> p < 2 ^ 64 then (Inr (word_of_int p), c\<lparr>cu_pos := word_of_int p\<rparr>) else (Inl InvalidInput, c))"

definition cursor_read_exact :: "cursor \<Rightarrow> usize \<Rightarrow> bytes io_result \<times> cursor" where
  "cursor_read_exact c n =
     (let start = min (unat (cu_pos c)) (length (cu_bytes c)) in
      if start + n \<le> length (cu_bytes c)
      then (Inr (take n (drop start (cu_bytes c))), c\<lparr>cu_pos := cu_pos c + of_nat n\<rparr>)
      else (Inl UnexpectedEof, c\<lparr>cu_pos := of_nat (length (cu_bytes c))\<rparr>))"

interpretation cursor: seekable cursor_seek cursor_read_exact cu_bytes "\<lambda>c. unat (cu_pos c)"
proof
  show "cu_bytes s' = cu_bytes s \<and> unat (cu_pos s') = unat w" if "cursor_seek s (SeekStart w) = (Inr m, s')" for s w m s'
    using that by (auto simp: cursor_seek_def)
  show "cu_bytes s' = cu_bytes s \<and> unat m = length (cu_bytes s)" if "cursor_seek s (SeekEnd 0) = (Inr m, s')" for s m s'
    using that by (auto simp: cursor_seek_def Let_def split: if_splits)
  show "cu_bytes s' = cu_bytes s \<and> length bs = n \<and> bs = take n (drop (unat (cu_pos s)) (cu_bytes s))"
    if "cursor_read_exact s n = (Inr bs, s')" for s n bs s'
    using that by (auto simp: cursor_read_exact_def Let_def min_def split: if_splits)
qed

lemma take_drop_split:
  assumes "i + a + b \<le> j"
  shows "take (j - i) (drop i xs) =
    take a (drop i xs) @ take b (drop (i + a) xs) @ take (j - (i + a + b)) (drop (i + a + b) xs)"
proof -
  have "j - i = a + (b + (j - (i + a + b)))" using assms by simp
  then show ?thesis by (simp only: take_add drop_drop add.commute add.left_commute)
qed

section \<open>What a report says of a stable source\<close>

lemma infos_layout:
  assumes "n + length (concat (map record_image rs)) < 2 ^ 64" and "i < length rs"
  shows "ri_payload_range (infos n rs ! i) =
    (unat (de_offset (layout n rs ! i)) + 40, unat (de_offset (layout n rs ! i)) + 40 + unat (de_stored_len (layout n rs ! i)))"
  using assms
proof (induction n rs arbitrary: i rule: infos.induct)
  case (2 n k oid p rs)
  then show ?case by (cases i) (simp_all add: add.assoc)
qed simp

lemma layout_payload:
  assumes "take fo X = body_image rs" and "fo \<le> length X" and "length X < 2 ^ 64" and "i < length rs"
  shows "take (unat (de_stored_len (layout 32 rs ! i))) (drop (unat (de_offset (layout 32 rs ! i)) + 40) X) = spec_payload (rs ! i)"
proof -
  have "32 + length (concat (map record_image rs)) = fo"
    using arg_cong [OF assms(1), of length] assms(2) by (simp add: body_image_def)
  then have "ri_payload_range (infos 32 rs ! i) = (unat (de_offset (layout 32 rs ! i)) + 40,
      unat (de_offset (layout 32 rs ! i)) + 40 + unat (de_stored_len (layout 32 rs ! i)))"
    using infos_layout [of 32 rs i] assms by simp
  then show ?thesis
    using payload_of_body [OF assms(1,2,4)] by (simp add: payload_of_def)
qed

text \<open>What every reader establishes of a file, before the capabilities are looked at.\<close>

definition structured :: "limits \<Rightarrow> record_spec list \<Rightarrow> bytes \<Rightarrow> u64 \<Rightarrow> manifest \<Rightarrow> bool" where
  "structured lim rs d mid m \<longleftrightarrow>
     ids_ok {} rs \<and> sizes_ok lim (rs @ [(Directory, 0, d)]) \<and> length rs < unat (max_records lim) \<and>
     and_then (decode_canonical d lim) parse_directory = Inr (layout 32 rs) \<and>
     (\<exists>p. (Manifest, mid, p) \<in> set rs \<and> and_then (decode_canonical p lim) parse_manifest = Inr m) \<and>
     set (roots m) \<subseteq> spec_id ` set rs"

lemma accepted_iff: "accepted lim rs d mid m \<longleftrightarrow> structured lim rs d mid m \<and> required_capabilities m = []"
  by (auto simp: accepted_def structured_def)

text \<open>A file of the layout whose digest has not been checked.\<close>

definition framed :: "record_spec list \<Rightarrow> bytes \<Rightarrow> u64 \<Rightarrow> bytes \<Rightarrow> bytes" where
  "framed rs d mid digest = body_image (rs @ [(Directory, 0, d)]) @
     footer_image (of_nat (length (body_image rs))) (of_nat (40 + length d)) mid (of_nat (length rs + 1)) digest"

lemma file_image_framed: "file_image sha rs d mid = framed rs d mid (sha (body_image (rs @ [(Directory, 0, d)])))"
  by (simp add: file_image_def framed_def Let_def)

lemma framed_intro:
  assumes "length X < 2 ^ 64" and "fo + 80 = length X" and "take 32 X = file_header"
    and "source_parse_footer (take 80 (drop fo X)) = Inr ft"
    and "unat (sf_directory_offset ft) + unat (sf_directory_len ft) = fo" and "32 \<le> unat (sf_directory_offset ft)"
    and "take (unat (sf_directory_offset ft) - 32) (drop 32 X) = concat (map record_image rs)"
    and "take (fo - unat (sf_directory_offset ft)) (drop (unat (sf_directory_offset ft)) X) = record_image (Directory, 0, d)"
    and "sf_record_count ft = of_nat (length rs + 1)"
  shows "take (unat (sf_directory_offset ft)) X = body_image rs"
    "\<exists>dig. X = framed rs d (sf_manifest_id ft) dig \<and> length dig = 32"
proof -
  let ?o = "unat (sf_directory_offset ft)"
  have "take ?o X = take 32 X @ take (?o - 32) (drop 32 X)"
    using take_drop_split [of 0 32 "?o - 32" ?o X] assms(6) by simp
  then show rs: "take ?o X = body_image rs" using assms(3,7) by (simp add: body_image_def)
  have olen: "?o = length (body_image rs)"
    using arg_cong [OF rs, of length] assms(2,5) by simp
  have "take fo X = body_image rs @ record_image (Directory, 0, d)"
    using take_drop_split [of 0 ?o 0 fo X] assms(5,8) rs by simp
  then have body: "take fo X = body_image (rs @ [(Directory, 0, d)])" by (simp add: body_image_snoc)
  have "length (take (fo - ?o) (drop ?o X)) = 40 + length d" using assms(8) by simp
  then have dl: "unat (sf_directory_len ft) = 40 + length d" using assms(2,5) by simp
  obtain ft' where ft': "parse_footer X fo = Inr ft'"
      "ft = \<lparr>sf_directory_offset = ft_directory_offset ft', sf_directory_len = ft_directory_len ft',
        sf_manifest_id = ft_manifest_id ft', sf_record_count = ft_record_count ft'\<rparr>"
    using source_parse_footer_eq [of X fo] assms(1,2,4) by (cases "parse_footer X fo") (simp_all del: take_all)
  have eqs: "ft_directory_offset ft' = of_nat (length (body_image rs))" "ft_directory_len ft' = of_nat (40 + length d)"
    unfolding olen [symmetric] dl [symmetric] by (simp_all add: ft'(2))
  have raw: "take 80 (drop fo X) = footer_image (ft_directory_offset ft') (ft_directory_len ft') (ft_manifest_id ft')
      (ft_record_count ft') (ft_digest ft')"
    by (rule parse_footer_Ok_iff [OF assms(1), THEN iffD1]) (use assms(2) ft'(1) in auto)
  have eqs': "ft_record_count ft' = of_nat (length rs + 1)" "ft_manifest_id ft' = sf_manifest_id ft"
    using assms(9) by (simp_all add: ft'(2))
  have "take 80 (drop fo X) = footer_image (of_nat (length (body_image rs))) (of_nat (40 + length d))
      (sf_manifest_id ft) (of_nat (length rs + 1)) (ft_digest ft')"
    using raw unfolding eqs eqs' .
  moreover have "X = take fo X @ take 80 (drop fo X)" using assms(2) by simp
  ultimately have X: "X = framed rs d (sf_manifest_id ft) (ft_digest ft')" by (simp only: framed_def body)
  moreover have "length (ft_digest ft') = 32"
    using arg_cong [OF X, of length] assms(2) arg_cong [OF body, of length] by (simp add: framed_def)
  ultimately show "\<exists>dig. X = framed rs d (sf_manifest_id ft) dig \<and> length dig = 32" by blast
qed

context stable_source
begin

definition presents :: "bytes \<Rightarrow> 's budgeted_source \<Rightarrow> bool" where
  "presents X r \<longleftrightarrow> content (bu_source r) = X \<and> unat (bu_file_len r) = length X"

lemma read_exact_presents:
  assumes "bu_read_exact S off n c r = (Inr bs, r')" and "presents X r"
  shows "unat off + n \<le> length X \<and> bs = take n (drop (unat off) X) \<and> length bs = n \<and> presents X r'"
  using bu_read_exact_Ok [OF assms(1)] assms(2) read_content
  by (auto simp: presents_def)

lemma read_array_presents:
  "bu_read_array S n off c r = (Inr bs, r') \<Longrightarrow> presents X r \<Longrightarrow>
     unat off + n \<le> length X \<and> bs = take n (drop (unat off) X) \<and> length bs = n \<and> presents X r'"
  unfolding bu_read_array_def by (rule read_exact_presents)

lemma read_vec_presents:
  "bu_read_vec S off len c r = (Inr bs, r') \<Longrightarrow> presents X r \<Longrightarrow>
     unat off + unat len \<le> length X \<and> bs = take (unat len) (drop (unat off) X) \<and> presents X r'"
  by (auto simp: bu_read_vec_def op_simps result_simps dest: read_exact_presents split: if_splits)

text \<open>The inventory: the entries are the layout of the records that lie between the header and the directory.\<close>

lemma inventory_sound:
  assumes "inventory_loop S es doff lim off ids r = (Inr final, r')" and "presents X r"
    and "unat final \<le> unat doff" and "unat doff \<le> length X"
  shows "presents X r' \<and>
    (\<exists>rs. es = layout (unat off) rs \<and>
      take (unat final - unat off) (drop (unat off) X) = concat (map record_image rs) \<and> unat off \<le> unat final \<and>
      ids_ok ids rs \<and> Directory \<notin> fst ` set rs \<and> sizes_ok lim rs)"
  using assms
proof (induction es arbitrary: off ids r)
  case Nil
  then show ?case by (auto simp: op_simps intro!: exI [of _ "[]"])
next
  case (Cons e es)
  from Cons.prems(1) obtain h r1 rh off' where
    e: "de_id e \<noteq> 0" "de_id e \<notin> ids" "de_offset e = off"
    and h: "bu_read_array S 40 off ''inventory record header'' r = (Inr h, r1)"
    and rh: "source_parse_record_header h off lim = Inr rh"
    and same: "rh_kind rh \<noteq> Directory" "rh_kind rh = de_kind e" "rh_object_id rh = de_id e"
      "rh_stored_len rh = de_stored_len e" "rh_logical_len rh = de_logical_len e"
    and off': "checked_end (rh_payload_offset rh) (rh_stored_len rh) doff ''inventory record payload'' = Inr off'"
    and rest: "inventory_loop S es doff lim off' (insert (de_id e) ids) r1 = (Inr final, r')"
    by (auto simp: op_simps split: if_splits)
  let ?len = "unat (de_stored_len e)"
  from read_array_presents [OF h Cons.prems(2)] have hX: "h = take 40 (drop (unat off) X)" "length h = 40"
    and X: "presents X r1" by auto
  from rh [unfolded source_record_header_Ok_iff [OF hX(2)]] same
  have hdr: "h = record_header (de_kind e) (de_id e) (de_stored_len e)" "de_stored_len e \<le> max_payload_bytes lim"
    "de_logical_len e = de_stored_len e" "unat (rh_payload_offset rh) = unat off + 40"
    by (auto simp: checked_add_Some_iff)
  have o: "unat off' = unat off + 40 + ?len" "unat off' \<le> unat doff"
    using off' hdr(4) same(4) by (auto simp: checked_end_def result_simps checked_add_Some_iff word_less_nat_alt split: if_splits)
  from Cons.IH [OF rest X Cons.prems(3,4)] obtain rs where
    ih: "presents X r'" "es = layout (unat off') rs" "unat off' \<le> unat final"
      "take (unat final - unat off') (drop (unat off') X) = concat (map record_image rs)"
      "ids_ok (insert (de_id e) ids) rs" "Directory \<notin> fst ` set rs" "sizes_ok lim rs"
    by blast
  define p where "p = take ?len (drop (unat off + 40) X)"
  have p: "length p = ?len" using o Cons.prems(4) by (simp add: p_def)
  let ?r = "(de_kind e, de_id e, p)"
  have "e # es = layout (unat off) (?r # rs)"
    using ih(2) p o(1) e(3) hdr(3) by (cases e) simp
  moreover have "take (unat final - unat off) (drop (unat off) X) = concat (map record_image (?r # rs))"
    using take_drop_split [of "unat off" 40 ?len "unat final" X] ih(3,4) o(1) hX(1) hdr(1) p
    by (simp add: p_def [symmetric])
  moreover have "ids_ok ids (?r # rs)" "Directory \<notin> fst ` set (?r # rs)" "sizes_ok lim (?r # rs)"
    using ih(5-7) e same hdr(2) p by (auto simp: word_le_nat_alt)
  ultimately show ?case
    using ih(1,3) o(1) by (intro conjI exI [of _ "?r # rs"]) simp_all
qed

lemma directory_sound:
  assumes "inspect_directory S lim ft r = (Inr es, r')" and "presents X r"
    and "unat (sf_directory_offset ft) + unat (sf_directory_len ft) = fo"
  shows "presents X r' \<and> length es < unat (max_records lim) \<and> sf_record_count ft = of_nat (length es + 1) \<and>
    (\<exists>d. take (fo - unat (sf_directory_offset ft)) (drop (unat (sf_directory_offset ft)) X) =
        record_image (Directory, 0, d) \<and> unat (sf_directory_len ft) = 40 + length d \<and>
        length d \<le> unat (max_payload_bytes lim) \<and>
        and_then (decode_canonical d lim) parse_directory = Inr es)"
proof -
  let ?o = "sf_directory_offset ft"
  from assms(1) obtain h r1 rh tot d v n where
    h: "bu_read_array S 40 ?o ''directory record header'' r = (Inr h, r1)"
    and rh: "source_parse_record_header h ?o lim = Inr rh" "rh_kind rh = Directory" "rh_object_id rh = 0"
    and tot: "checked_add 40 (rh_stored_len rh) = Some (sf_directory_len ft)"
    and d: "bu_read_vec S (rh_payload_offset rh) (rh_stored_len rh) ''directory payload'' r1 = (Inr d, r')"
    and es: "decode_canonical d lim = Inr v" "source_parse_directory v = Inr es"
    and n: "u64_try_from (length es) = Some n" "checked_add n 1 = Some (sf_record_count ft)" "sf_record_count ft \<le> max_records lim"
    by (auto simp: inspect_directory_def op_simps result_simps split: if_splits)
  from read_array_presents [OF h assms(2)] have hX: "h = take 40 (drop (unat ?o) X)" "length h = 40" and X: "presents X r1"
    by auto
  from rh [unfolded source_record_header_Ok_iff [OF hX(2)]]
  have hdr: "h = record_header Directory 0 (rh_stored_len rh)" "rh_stored_len rh \<le> max_payload_bytes lim"
    "unat (rh_payload_offset rh) = unat ?o + 40"
    by (auto simp: checked_add_Some_iff)
  from read_vec_presents [OF d X] hdr(3) have dX: "d = take (unat (rh_stored_len rh)) (drop (unat ?o + 40) X)"
    "unat ?o + 40 + unat (rh_stored_len rh) \<le> length X" and X': "presents X r'" by auto
  have len: "length d = unat (rh_stored_len rh)" using dX by simp
  have dl: "unat (sf_directory_len ft) = 40 + length d" using tot len by (simp add: checked_add_Some_iff)
  then have fo: "fo = unat ?o + 40 + length d" using assms(3) by simp
  then have "take (fo - unat ?o) (drop (unat ?o) X) = take 40 (drop (unat ?o) X) @ d"
    using take_drop_split [of "unat ?o" 40 "length d" fo X] dX(1) len by simp
  then have "take (fo - unat ?o) (drop (unat ?o) X) = record_image (Directory, 0, d)"
    using hX(1) hdr(1) len by simp
  moreover have count: "length es + 1 = unat (sf_record_count ft)" "length es < unat (max_records lim)"
    using n by (auto simp: u64_try_from_Some_iff checked_add_Some_iff word_le_nat_alt)
  moreover have "sf_record_count ft = of_nat (length es + 1)" unfolding count(1) by simp
  ultimately show ?thesis
    using X' dl es hdr(2) len by (auto simp: source_parse_directory_eq word_le_nat_alt)
qed

lemma manifest_sound:
  assumes "inspect_manifest S lim ft (layout 32 rs) r = (Inr m, r')" and "presents X r"
    and "take fo X = body_image rs" and "fo \<le> length X" and "length X < 2 ^ 64"
  shows "presents X r' \<and> set (roots m) \<subseteq> spec_id ` set rs \<and>
    (\<exists>p. (Manifest, sf_manifest_id ft, p) \<in> set rs \<and> and_then (decode_canonical p lim) parse_manifest = Inr m)"
proof -
  from assms(1) obtain e po p v where
    e: "List.find (\<lambda>e. de_id e = sf_manifest_id ft) (layout 32 rs) = Some e" "de_kind e = Manifest"
    and po: "checked_add (de_offset e) 40 = Some po"
    and p: "bu_read_vec S po (de_stored_len e) ''manifest payload'' r = (Inr p, r')"
    and m: "decode_canonical p lim = Inr v" "source_parse_manifest v = Inr m"
    and roots: "set (roots m) \<subseteq> (\<lambda>(k, i, p). i) ` set rs"
    by (auto simp: inspect_manifest_def op_simps result_simps Let_def list_ex_iff subset_iff split: if_splits)
  from read_vec_presents [OF p assms(2)] have pX: "p = take (unat (de_stored_len e)) (drop (unat po) X)" and X: "presents X r'"
    by auto
  obtain i where i: "i < length rs" "layout 32 rs ! i = e" "de_id e = sf_manifest_id ft"
    using e(1) by (auto simp: find_Some_iff)
  have "p = spec_payload (rs ! i)"
    using layout_payload [OF assms(3,4,5) i(1)] pX po i(2) by (simp add: checked_add_Some_iff)
  moreover have "fst (rs ! i) = Manifest" "spec_id (rs ! i) = sf_manifest_id ft"
    using i e(2) nth_layout [OF i(1), of 32] by simp_all
  ultimately have "(Manifest, sf_manifest_id ft, p) \<in> set rs"
    using nth_mem [OF i(1)] by (metis prod.collapse)
  then show ?thesis using X m roots by (auto simp: source_parse_manifest_eq split_beta)
qed

lemma inspect_sound:
  assumes "metadata_inspect S lim s = (Inr rep, s')"
  shows "content s' = content s \<and> unat (in_file_len rep) = length (content s) \<and>
    in_epoch rep = EXPERIMENTAL_EPOCH \<and> in_integrity rep = NotChecked \<and>
    in_unsupported_required_capabilities rep = required_capabilities (in_manifest rep) \<and>
    length (content s) \<le> unat (max_file_bytes lim) \<and>
    (\<exists>rs d dig. content s = framed rs d (in_manifest_id rep) dig \<and> length dig = 32 \<and>
       in_entries rep = layout 32 rs \<and> Directory \<notin> fst ` set rs \<and>
       structured lim rs d (in_manifest_id rep) (in_manifest rep))"
proof -
  define X where "X = content s"
  from assms obtain w s1 r where w: "ra_len S s = (Inr w, s1)" "\<not> w > max_file_bytes lim" "\<not> w < 112"
    and run: "inspect_body S lim w (budgeted_new s1 w lim) = (Inr rep, r)" and s': "s' = bu_source r"
    by (auto simp: metadata_inspect_def split: prod.splits sum.splits if_splits)
  have X: "presents X (budgeted_new s1 w lim)" and wX: "unat w = length X"
    using len_content [OF w(1)] by (simp_all add: presents_def budgeted_new_def X_def)
  have len: "length X < 2 ^ 64" "112 \<le> length X" "length X \<le> unat (max_file_bytes lim)"
    using wX w(2,3) unat_lt2p [of w] by (simp_all add: word_less_nat_alt)
  from run obtain h r1 fo fb r2 ft es r3 r4 r5 m where
    h: "bu_read_array S 32 0 ''file header'' (budgeted_new s1 w lim) = (Inr h, r1)" "source_validate_header h = Inr ()"
    and fo: "checked_sub w 80 = Some fo"
    and fb: "bu_read_array S 80 fo ''footer'' r1 = (Inr fb, r2)" "source_parse_footer fb = Inr ft"
    and de: "checked_end (sf_directory_offset ft) (sf_directory_len ft) fo ''directory'' = Inr fo"
    and es: "inspect_directory S lim ft r2 = (Inr es, r3)"
    and inv: "validate_inventory_headers S es (sf_directory_offset ft) lim r3 = (Inr (), r4)"
    and m: "inspect_manifest S lim ft es r4 = (Inr m, r)"
    and rep: "rep = \<lparr>in_file_len = w, in_epoch = EXPERIMENTAL_EPOCH, in_manifest_id = sf_manifest_id ft,
       in_manifest = m, in_entries = es, in_unsupported_required_capabilities = required_capabilities m,
       in_integrity = NotChecked, in_stats = bu_stats r\<rparr>"
    by (auto simp: inspect_body_def op_simps result_simps split: if_splits)
  let ?o = "sf_directory_offset ft"
  have h': "h = take 32 X" and X1: "presents X r1" using read_array_presents [OF h(1) X] by auto
  have hdr: "take 32 X = file_header"
    using h(2) validate_header_Ok_iff [OF len(1)] len by (simp add: h' source_validate_header_eq)
  have foX: "unat fo + 80 = length X" using fo wX by (simp add: checked_sub_Some_iff)
  have fb': "fb = take 80 (drop (unat fo) X)" and X2: "presents X r2" using read_array_presents [OF fb(1) X1] by auto
  have dir: "unat ?o + unat (sf_directory_len ft) = unat fo"
    using de by (auto simp: checked_end_def result_simps checked_add_Some_iff split: if_splits)
  from directory_sound [OF es X2 dir] obtain d where X3: "presents X r3" and n: "length es < unat (max_records lim)"
    "sf_record_count ft = of_nat (length es + 1)" and d: "take (unat fo - unat ?o) (drop (unat ?o) X) = record_image (Directory, 0, d)"
    "length d \<le> unat (max_payload_bytes lim)" "and_then (decode_canonical d lim) parse_directory = Inr es" by blast
  from inv have "inventory_loop S es ?o lim 32 {} r3 = (Inr ?o, r4)"
    by (auto simp: validate_inventory_headers_def op_simps split: if_splits)
  from inventory_sound [OF this X3] foX dir obtain rs where X4: "presents X r4" and rs: "es = layout 32 rs"
    "take (unat ?o - 32) (drop 32 X) = concat (map record_image rs)" "32 \<le> unat ?o" "ids_ok {} rs"
    "Directory \<notin> fst ` set rs" "sizes_ok lim rs" by auto
  note fr = framed_intro [OF len(1) foX hdr fb(2) [unfolded fb'] dir rs(3,2) d(1) n(2) [unfolded rs(1) length_layout]]
  from manifest_sound [OF m [unfolded rs(1)] X4 fr(1) _ len(1)] dir foX
  have ms: "presents X r" "set (roots m) \<subseteq> spec_id ` set rs"
    "\<exists>p. (Manifest, sf_manifest_id ft, p) \<in> set rs \<and> and_then (decode_canonical p lim) parse_manifest = Inr m" by auto
  then have "structured lim rs d (sf_manifest_id ft) m"
    using rs n d by (auto simp: structured_def sizes_ok_def)
  with fr(2) rs(1,5) ms(1) len wX show ?thesis
    by (simp add: rep s' presents_def X_def) blast
qed

end

section \<open>Strict validation of a stable source\<close>

lemma vr_read_exact_Ok:
  assumes "vr_read_exact S off n c r = (Inr bs, r')"
  shows "\<exists>s'. ra_read_exact_at S (vr_source r) off n = (Inr bs, s') \<and>
    n < 2 ^ 64 \<and> unat off + n \<le> unat (vr_file_len r) \<and>
    unat (sv_bytes_read (vr_stats r)) + n \<le> unat (max_total_bytes_read (vr_limits r)) \<and>
    r' = r\<lparr>vr_source := s', vr_stats := (vr_stats r)\<lparr>sv_read_operations := sv_read_operations (vr_stats r) + 1,
      sv_bytes_read := sv_bytes_read (vr_stats r) + of_nat n\<rparr>\<rparr>"
  using assms
  by (cases "vr_stats r") (auto simp: vr_read_exact_def op_simps result_simps checked_add_def u64_try_from_def
      word_less_nat_alt unat_add_no_overflow split: if_splits prod.splits sum.splits)

lemma framed_parts:
  assumes "length (framed rs d mid dig) < 2 ^ 64" and "length dig = 32"
  shows "take (length (framed rs d mid dig) - 80) (framed rs d mid dig) = body_image (rs @ [(Directory, 0, d)])"
    "parse_footer (framed rs d mid dig) (length (framed rs d mid dig) - 80) = Inr ft \<Longrightarrow> ft_digest ft = dig"
proof -
  let ?X = "framed rs d mid dig" and ?fo = "length (framed rs d mid dig) - 80"
  have fo: "?fo = length (body_image (rs @ [(Directory, 0, d)]))" "?fo + 80 = length ?X"
    using assms(2) by (simp_all add: framed_def)
  show "take ?fo ?X = body_image (rs @ [(Directory, 0, d)])" unfolding fo by (simp add: framed_def)
  have "take 80 (drop ?fo ?X) = footer_image (of_nat (length (body_image rs))) (of_nat (40 + length d)) mid
      (of_nat (length rs + 1)) dig"
    unfolding fo using assms(2) by (simp add: framed_def)
  then show "ft_digest ft = dig" if "parse_footer ?X ?fo = Inr ft"
    using that parse_footer_Ok_iff [OF assms(1), of ?fo ft] fo(2) assms(2) by (simp add: footer_image_def)
qed

context stable_source
begin

definition vr_presents :: "bytes \<Rightarrow> 's validation_reader \<Rightarrow> bool" where
  "vr_presents X r \<longleftrightarrow> content (vr_source r) = X \<and> unat (vr_file_len r) = length X"

lemma vr_read_presents:
  assumes "vr_read_exact S off n c r = (Inr bs, r')" and "vr_presents X r"
  shows "bs = take n (drop (unat off) X) \<and> vr_presents X r'"
  using vr_read_exact_Ok [OF assms(1)] assms(2) read_content by (auto simp: vr_presents_def)

lemma hash_loop_sound:
  assumes "hash_loop S c fo off hashed r = (Inr out, r')" and "vr_presents X r" and "unat off \<le> unat fo"
  shows "out = hashed @ take (unat fo - unat off) (drop (unat off) X) \<and> vr_presents X r'"
  using assms
proof (induction "unat fo - unat off" arbitrary: off hashed r rule: less_induct)
  case less
  show ?case
  proof (cases "off < fo")
    case True
    obtain rest where rest: "checked_sub fo off = Some rest"
      using True by (simp add: checked_sub_def less_imp_le)
    from less.prems(1) True rest obtain bs r1 tot off' where c: "c \<noteq> 0"
      and rd: "vr_read_exact S off (unat (min rest c)) ''committed prefix'' r = (Inr bs, r1)"
      and off': "checked_add off (min rest c) = Some off'"
      and tail: "hash_loop S c fo off' (hashed @ bs) (r1\<lparr>vr_stats := (vr_stats r1)\<lparr>sv_bytes_hashed := tot\<rparr>\<rparr>) = (Inr out, r')"
      by (subst (asm) hash_loop.simps) (auto simp: Let_def split: if_splits prod.splits sum.splits option.splits)
    let ?n = "unat (min rest c)"
    from vr_read_presents [OF rd less.prems(2)] have bs: "bs = take ?n (drop (unat off) X)" and X: "vr_presents X r1" by auto
    have o: "unat off' = unat off + ?n" using off' by (simp add: checked_add_Some_iff)
    have "?n \<le> unat rest" by (simp add: min_def word_le_nat_alt)
    then have le: "unat off' \<le> unat fo" using o rest True by (auto simp: checked_sub_Some_iff word_less_nat_alt)
    have "out = (hashed @ bs) @ take (unat fo - unat off') (drop (unat off') X) \<and> vr_presents X r'"
      by (rule less.hyps [OF chunk_progress [OF True c rest off'] tail _ le]) (use X in \<open>simp add: vr_presents_def\<close>)
    then show ?thesis
      using take_drop_split [of "unat off" ?n 0 "unat fo" X] le o bs by simp
  next
    case False
    then show ?thesis
      using less.prems by (subst (asm) hash_loop.simps) (auto simp: word_less_nat_alt)
  qed
qed

lemma validate_sound:
  assumes "source_validate sha S lim s = (Inr rep, s')"
  shows "content s' = content s \<and> unat (sr_file_len rep) = length (content s) \<and> sr_integrity rep = Verified \<and>
    sr_unsupported_required_capabilities rep = required_capabilities (sr_manifest rep) \<and>
    length (content s) \<le> unat (max_file_bytes lim) \<and>
    (\<exists>rs d. content s = file_image sha rs d (sr_manifest_id rep) \<and>
       length (sha (body_image (rs @ [(Directory, 0, d)]))) = 32 \<and>
       sr_entries rep = layout 32 rs \<and> Directory \<notin> fst ` set rs \<and>
       structured lim rs d (sr_manifest_id rep) (sr_manifest rep))"
proof -
  from assms obtain ins s1 fo where ins: "metadata_inspect S lim s = (Inr ins, s1)"
    and fo: "checked_sub (in_file_len ins) 80 = Some fo"
    by (auto simp: source_validate_def split: prod.splits sum.splits option.splits)
  let ?c = "min (max_stream_chunk_bytes lim) (max_allocation_bytes lim)"
  define r0 where "r0 = \<lparr>vr_source = s1, vr_file_len = in_file_len ins, vr_limits = lim,
    vr_stats = \<lparr>sv_read_operations = read_operations (in_stats ins), sv_bytes_read = bytes_read (in_stats ins),
      sv_bytes_hashed = 0, sv_largest_allocation = max (largest_allocation (in_stats ins)) ?c\<rparr>\<rparr>"
  from assms ins fo obtain hashed r1 fb r2 ft where
    run: "hash_loop S ?c fo 0 [] r0 = (Inr hashed, r1)" "vr_read_array S 80 fo ''footer'' r1 = (Inr fb, r2)"
      "validate_parse_footer fb = Inr ft" "sha hashed = ft_digest ft" "s' = vr_source r2"
    and rep: "sr_file_len rep = in_file_len ins" "sr_manifest_id rep = in_manifest_id ins"
      "sr_manifest rep = in_manifest ins" "sr_entries rep = in_entries ins"
      "sr_unsupported_required_capabilities rep = in_unsupported_required_capabilities ins"
      "sr_integrity rep = Verified"
    by (simp add: source_validate_def Let_def validation_reader_new_def r0_def [symmetric] split: prod.splits if_splits)
      (auto simp: op_simps split: if_splits)
  define X where "X = content s"
  from inspect_sound [OF ins] obtain rs d dig where X: "X = framed rs d (in_manifest_id ins) dig" "length dig = 32"
    and i: "content s1 = X" "unat (in_file_len ins) = length X" "length X \<le> unat (max_file_bytes lim)"
      "in_entries ins = layout 32 rs" "Directory \<notin> fst ` set rs" "structured lim rs d (in_manifest_id ins) (in_manifest ins)"
      "in_unsupported_required_capabilities ins = required_capabilities (in_manifest ins)"
    by (auto simp: X_def)
  have len: "length X < 2 ^ 64" using le_unat_64 [OF i(3)] .
  have foX: "unat fo = length X - 80" "unat fo + 80 = length X" using fo i(2) by (auto simp: checked_sub_Some_iff)
  have "vr_presents X r0" using i(1,2) by (simp add: vr_presents_def r0_def)
  from hash_loop_sound [OF run(1) this] have hashed: "hashed = take (unat fo) X" and X1: "vr_presents X r1" by auto
  from vr_read_presents [OF run(2) [unfolded vr_read_array_def] X1]
  have fb: "fb = take 80 (drop (unat fo) X)" and X2: "vr_presents X r2" by auto
  note fp = framed_parts [OF len [unfolded X(1)] X(2), folded X(1), folded foX(1)]
  have "parse_footer X (unat fo) = Inr ft"
    using run(3) foX(2) len by (simp add: fb validate_parse_footer_eq del: take_all)
  then have "sha (body_image (rs @ [(Directory, 0, d)])) = dig" using fp run(4) hashed by simp
  then have "X = file_image sha rs d (in_manifest_id ins)" "length (sha (body_image (rs @ [(Directory, 0, d)]))) = 32"
    using X by (simp_all add: file_image_framed)
  then show ?thesis
    using i X2 rep run(5) by (auto simp: X_def vr_presents_def)
qed

end

end
