(* ===== verification/Ucof_Source_Complete.thy ===== *)
theory Ucof_Source_Complete
  imports Ucof_Source_Sound
begin

text \<open>
  The converse: over a source that answers, the checks of the inspector and the validator succeed on
  every file the in-memory reader accepts, given a large enough read budget.
\<close>

section \<open>Running with a sufficient budget\<close>

lemma checked_end_Ok_iff:
  "checked_end off len ub c = Inr e \<longleftrightarrow> unat e = unat off + unat len \<and> e \<le> ub"
  by (auto simp: checked_end_def result_simps checked_add_Some_iff not_less split: if_splits)

lemma checked_end_of_nat:
  "a + b \<le> unat ub \<Longrightarrow> checked_end (of_nat a) (of_nat b) ub c = Inr (of_nat (a + b))"
  using le_unat_64 [of "a + b" ub] by (simp add: checked_end_Ok_iff word_le_nat_alt del: of_nat_add)

lemma layout_bounds:
  assumes "n + length (concat (map record_image rs)) < 2 ^ 64" and "i < length rs"
  shows "unat (de_offset (layout n rs ! i)) + 40 + unat (de_stored_len (layout n rs ! i)) \<le> n + length (concat (map record_image rs))"
    and "unat (de_stored_len (layout n rs ! i)) = length (spec_payload (rs ! i))"
  using assms
proof (induction n rs arbitrary: i rule: layout.induct)
  case (2 n k oid p rs)
  { case 1 with "2.IH"(1) [of "i - 1"] show ?case by (cases i) (simp_all add: add.assoc) }
  { case 2 with "2.IH"(2) [of "i - 1"] show ?case by (cases i) (simp_all add: add.assoc) }
qed simp_all

definition framed_footer :: "record_spec list \<Rightarrow> bytes \<Rightarrow> u64 \<Rightarrow> source_footer" where
  "framed_footer rs d mid = \<lparr>sf_directory_offset = of_nat (length (body_image rs)),
     sf_directory_len = of_nat (40 + length d), sf_manifest_id = mid, sf_record_count = of_nat (length rs + 1)\<rparr>"

lemma framed_slices:
  fixes rs d mid dig
  defines "X \<equiv> framed rs d mid dig" and "o' \<equiv> length (body_image rs)" and "fo \<equiv> length (body_image rs) + 40 + length d"
  assumes "length X < 2 ^ 64" and "length dig = 32"
  shows "length X = fo + 80" "32 \<le> o'" "take 32 X = file_header"
    "take o' X = body_image rs" "take (o' - 32) (drop 32 X) = concat (map record_image rs)"
    "take 40 (drop o' X) = record_header Directory 0 (of_nat (length d))" "take (length d) (drop (o' + 40) X) = d"
    "parse_footer X fo = Inr \<lparr>ft_directory_offset = of_nat o', ft_directory_len = of_nat (40 + length d),
       ft_manifest_id = mid, ft_record_count = of_nat (length rs + 1), ft_digest = dig\<rparr>"
    "source_parse_footer (take 80 (drop fo X)) = Inr (framed_footer rs d mid)"
proof -
  show len: "length X = fo + 80" using assms(5) by (simp add: X_def fo_def framed_def body_image_snoc)
  show "32 \<le> o'" by (simp add: o'_def body_image_def)
  show "take 32 X = file_header" "take (o' - 32) (drop 32 X) = concat (map record_image rs)"
    by (simp_all add: X_def o'_def framed_def body_image_def)
  show "take o' X = body_image rs" "take 40 (drop o' X) = record_header Directory 0 (of_nat (length d))"
    "take (length d) (drop (o' + 40) X) = d"
    by (simp_all add: X_def o'_def framed_def body_image_snoc)
  have "take 80 (drop fo X) = footer_image (of_nat o') (of_nat (40 + length d)) mid (of_nat (length rs + 1)) dig"
    using assms(5) by (simp add: X_def o'_def fo_def framed_def body_image_snoc)
  then show ft: "parse_footer X fo = Inr \<lparr>ft_directory_offset = of_nat o', ft_directory_len = of_nat (40 + length d),
       ft_manifest_id = mid, ft_record_count = of_nat (length rs + 1), ft_digest = dig\<rparr>"
    using len assms(5) by (subst parse_footer_Ok_iff [OF assms(4)]) simp_all
  show "source_parse_footer (take 80 (drop fo X)) = Inr (framed_footer rs d mid)"
    using len by (subst source_parse_footer_eq [OF assms(4)]) (simp_all add: ft framed_footer_def o'_def)
qed

lemma record_space: "32 + 40 * length rs \<le> length (body_image rs)"
  "(k, oid, p) \<in> set rs \<Longrightarrow> 32 + 40 * length rs + length p \<le> length (body_image rs)"
  by (induction rs) (auto simp: body_image_def)

lemma footer_matches:
  assumes "length (framed rs d mid dig) < 2 ^ 64" and "length dig = 32"
  shows "validate_footer_against_inspection \<lparr>ft_directory_offset = of_nat (length (body_image rs)),
      ft_directory_len = of_nat (40 + length d), ft_manifest_id = mid, ft_record_count = of_nat (length rs + 1), ft_digest = dig\<rparr>
    (of_nat (length (body_image rs) + 40 + length d)) (layout 32 rs) mid = Inr ()"
proof -
  note sl = framed_slices [OF assms]
  have n: "length rs + 1 < 2 ^ 64" using sl(1) assms(1) record_space(1) [of rs] by simp
  have cnt: "checked_add (of_nat (length rs)) 1 = Some (of_nat (length rs + 1) :: u64)"
    using unat_of_nat_64 [OF n] n by (simp add: checked_add_Some_iff del: of_nat_add of_nat_Suc)
  have sub: "checked_sub (of_nat (length (body_image rs) + 40 + length d)) (of_nat (length (body_image rs))) =
      Some (of_nat (40 + length d) :: u64)"
    using sl(1) assms(1) by (simp add: checked_sub_Some_iff del: of_nat_add)
  have last: "(if layout 32 rs = [] then Ok (of_nat HEADER_LEN) else ok_or (RangeOutOfBounds ''directory offset'')
      (Option.bind (checked_add (de_offset (last (layout 32 rs))) (of_nat RECORD_HEADER_LEN))
         (\<lambda>v. checked_add v (de_stored_len (last (layout 32 rs)))))) = Inr (of_nat (length (body_image rs)))"
  proof (cases rs rule: rev_cases)
    case (snoc ys y)
    obtain k i p where y: "y = (k, i, p)" by (cases y)
    have "checked_add (of_nat (length (body_image ys))) 40 = Some (of_nat (length (body_image ys) + 40) :: u64)"
      "checked_add (of_nat (length (body_image ys) + 40)) (of_nat (length p)) = Some (of_nat (length (body_image rs)) :: u64)"
      using sl(1) assms(1) by (simp_all add: checked_add_Some_iff snoc y body_image_snoc del: of_nat_add)
    then show ?thesis by (simp add: snoc y layout_snoc del: of_nat_add)
  qed simp
  show ?thesis
    unfolding validate_footer_against_inspection_def using n cnt sub
    by (simp add: last del: of_nat_add of_nat_Suc)
qed

context ready_source
begin

definition funded :: "bytes \<Rightarrow> limits \<Rightarrow> nat \<Rightarrow> nat \<Rightarrow> 's budgeted_source \<Rightarrow> bool" where
  "funded X lim b k r \<longleftrightarrow> presents X r \<and> bu_limits r = lim \<and>
     unat (bytes_read (bu_stats r)) + b \<le> unat (max_total_bytes_read lim) \<and>
     unat (read_operations (bu_stats r)) + k < 2 ^ 64"

lemma read_exact_funded:
  assumes "funded X lim (b + n) (k + 1) r" and "unat off + n \<le> length X" 
  obtains r' where "bu_read_exact S off n c r = (Inr (take n (drop (unat off) X)), r')" "funded X lim b k r'"
proof -
  have X: "content (bu_source r) = X" "unat (bu_file_len r) = length X" "bu_limits r = lim"
    and f: "unat (bytes_read (bu_stats r)) + (b + n) \<le> unat (max_total_bytes_read lim)"
      "unat (read_operations (bu_stats r)) + (k + 1) < 2 ^ 64"
    using assms(1) by (simp_all add: funded_def presents_def)
  have len: "length X < 2 ^ 64" using X(2) unat_lt2p [of "bu_file_len r"] by simp
  then have n: "n < 2 ^ 64" using assms(2) by simp
  obtain s' where rd: "ra_read_exact_at S (bu_source r) off n = (Inr (take n (drop (unat off) X)), s')" "content s' = X"
    using read_ready [of "bu_source r" off n] read_content [of "bu_source r" off n] X(1) len assms(2) by metis
  have range: "checked_end off (of_nat n) (bu_file_len r) c = Inr (off + of_nat n)"
    using assms(2) X(2) n len by (simp add: checked_end_Ok_iff unat_add_no_overflow word_le_nat_alt)
  have tot: "checked_add (bytes_read (bu_stats r)) (of_nat n) = Some (bytes_read (bu_stats r) + of_nat n)"
    "\<not> max_total_bytes_read lim < bytes_read (bu_stats r) + of_nat n"
    "unat (bytes_read (bu_stats r) + of_nat n) = unat (bytes_read (bu_stats r)) + n"
    using f(1) n le_unat_64 [OF f(1)] by (simp_all add: checked_add_def unat_add_no_overflow word_less_nat_alt)
  have ops: "checked_add (read_operations (bu_stats r)) 1 = Some (read_operations (bu_stats r) + 1)"
    "unat (read_operations (bu_stats r) + 1) = unat (read_operations (bu_stats r)) + 1"
    using f(2) by (simp_all add: checked_add_def unat_add_no_overflow)
  let ?r' = "r\<lparr>bu_source := s', bu_stats := \<lparr>read_operations = read_operations (bu_stats r) + 1,
      bytes_read = bytes_read (bu_stats r) + of_nat n,
      largest_allocation = max (largest_allocation (bu_stats r)) (of_nat n)\<rparr>\<rparr>"
  have "bu_read_exact S off n c r = (Inr (take n (drop (unat off) X)), ?r')"
    using n range tot ops rd X(3) by (simp add: bu_read_exact_def op_bind_def op_run)
  moreover have "funded X lim b k ?r'"
    using f tot(3) ops(2) X rd(2) by (simp add: funded_def presents_def)
  ultimately show thesis by (rule that)
qed

lemma read_array_funded:
  assumes "funded X lim (b + n) (k + 1) r" and "unat off + n \<le> length X" 
  obtains r' where "bu_read_array S n off c r = (Inr (take n (drop (unat off) X)), r')" "funded X lim b k r'"
  using read_exact_funded [OF assms] unfolding bu_read_array_def .

lemma read_vec_funded:
  assumes "funded X lim (b + unat len) (k + 1) r" and "unat off + unat len \<le> length X" and "len \<le> max_allocation_bytes lim"
  obtains r' where "bu_read_vec S off len c r = (Inr (take (unat len) (drop (unat off) X)), r')" "funded X lim b k r'"
proof -
  from read_exact_funded [OF assms(1,2), of c] obtain r' where
    "bu_read_exact S off (unat len) c r = (Inr (take (unat len) (drop (unat off) X)), r')" "funded X lim b k r'" .
  moreover have "bu_limits r = lim" using assms(1) by (simp add: funded_def)
  ultimately show thesis
    using assms(3) by (intro that) (simp_all add: bu_read_vec_def op_bind_def op_run not_less)
qed

lemma inventory_complete:
  assumes "funded X lim (b + 40 * length rs) (k + length rs) r"
    and "take (j - i) (drop i X) = concat (map record_image rs)" and "i \<le> j" and "j \<le> unat doff" and "unat doff \<le> length X"
    and "ids_ok ids rs" and "Directory \<notin> fst ` set rs" and "sizes_ok lim rs"
  shows "\<exists>r'. inventory_loop S (layout i rs) doff lim (of_nat i) ids r = (Inr (of_nat j), r') \<and> funded X lim b k r'"
  using assms(1-3,6-)
proof (induction rs arbitrary: i ids r)
  case Nil
  then have "j = i" using assms(4,5) by auto
  with Nil show ?case by (simp add: op_run)
next
  case (Cons x rs)
  obtain kind oid p where x: "x = (kind, oid, p)" by (cases x)
  let ?len = "of_nat (length p) :: u64"
  have jX: "j \<le> length X" "j < 2 ^ 64" using assms(4,5) le_unat_64 [OF assms(4)] by simp_all
  from arg_cong [OF Cons.prems(2), of length] have j: "j = i + 40 + length p + length (concat (map record_image rs))"
    using jX(1) Cons.prems(3) by (simp add: x)
  have cat: "take (j - i) (drop i X) = record_header kind oid ?len @ p @ concat (map record_image rs)"
    using Cons.prems(2) by (simp add: x)
  have ui: "unat (of_nat i :: u64) = i" "unat ?len = length p" using j jX(2) by simp_all
  have h: "take 40 (drop i X) = record_header kind oid ?len"
    using arg_cong [OF cat, of "take 40"] j by simp
  have tl: "take (j - (i + 40 + length p)) (drop (i + 40 + length p) X) = concat (map record_image rs)"
    using arg_cong [OF cat, of "drop (40 + length p)"] by (simp add: drop_take ac_simps)
  obtain r1 where r1: "bu_read_array S 40 (of_nat i) ''inventory record header'' r = (Inr (record_header kind oid ?len), r1)"
    and f1: "funded X lim (b + 40 * length rs) (k + length rs) r1"
    using read_array_funded [of X lim "b + 40 * length rs" 40 "k + length rs" r "of_nat i" "''inventory record header''"]
      Cons.prems(1) ui jX j h by (auto simp: ac_simps)
  have hd: "source_parse_record_header (record_header kind oid ?len) (of_nat i) lim =
      Inr \<lparr>rh_kind = kind, rh_object_id = oid, rh_stored_len = ?len, rh_logical_len = ?len, rh_payload_offset = of_nat (i + 40)\<rparr>"
    using Cons.prems(6) j jX(2) ui
    by (simp add: source_record_header_Ok_iff x checked_add_Some_iff word_le_nat_alt del: of_nat_add)
  have ce: "checked_end (of_nat (i + 40)) ?len doff ''inventory record payload'' = Inr (of_nat (i + 40 + length p))"
    using j assms(4) by (intro checked_end_of_nat) simp
  from Cons.prems x have ok: "oid \<noteq> 0" "oid \<notin> ids" "kind \<noteq> Directory" "ids_ok (insert oid ids) rs"
    "Directory \<notin> fst ` set rs" "sizes_ok lim rs" by auto
  from Cons.IH [OF f1 tl _ ok(4-6)] j obtain r' where
    "inventory_loop S (layout (i + 40 + length p) rs) doff lim (of_nat (i + 40 + length p)) (insert oid ids) r1 = (Inr (of_nat j), r')"
    "funded X lim b k r'" by auto
  then show ?case
    using r1 hd ce ok by (simp add: x op_bind_def op_run)
qed

lemma directory_complete:
  assumes "X = framed rs d mid dig" and "length X < 2 ^ 64" and "length dig = 32" and "structured lim rs d mid m"
    and "funded X lim (b + 40 + length d) (k + 2) r"
    and "length d \<le> unat (max_metadata_bytes lim)" and "length d \<le> unat (max_allocation_bytes lim)"
  shows "\<exists>r'. inspect_directory S lim (framed_footer rs d mid) r = (Inr (layout 32 rs), r') \<and> funded X lim b k r'"
proof -
  note sl = framed_slices [of rs d mid dig, folded assms(1), OF assms(2,3)]
  let ?o = "length (body_image rs)" and ?len = "of_nat (length d) :: u64"
  have ol: "unat (of_nat ?o :: u64) = ?o" "unat ?len = length d" "unat (of_nat (?o + 40) :: u64) = ?o + 40"
    using sl(1) assms(2) by (simp_all del: of_nat_add)
  obtain r1 where r1: "bu_read_array S 40 (of_nat ?o) ''directory record header'' r = (Inr (record_header Directory 0 ?len), r1)"
    and f1: "funded X lim (b + length d) (k + 1) r1"
    using read_array_funded [of X lim "b + length d" 40 "k + 1" r "of_nat ?o" "''directory record header''"]
      assms(5) ol sl(1,6) by (auto simp: ac_simps)
  have hd: "source_parse_record_header (record_header Directory 0 ?len) (of_nat ?o) lim =
      Inr \<lparr>rh_kind = Directory, rh_object_id = 0, rh_stored_len = ?len, rh_logical_len = ?len, rh_payload_offset = of_nat (?o + 40)\<rparr>"
    using assms(4) sl(1) assms(2) ol
    by (simp add: source_record_header_Ok_iff structured_def sizes_ok_def checked_add_Some_iff word_le_nat_alt del: of_nat_add)
  obtain r2 where r2: "bu_read_vec S (of_nat (?o + 40)) ?len ''directory payload'' r1 = (Inr d, r2)" and f2: "funded X lim b k r2"
    using read_vec_funded [of X lim b ?len k r1 "of_nat (?o + 40)" "''directory payload''"] f1 ol sl(1,7) assms(7)
    by (auto simp: word_le_nat_alt simp del: of_nat_add)
  have tot: "checked_add 40 ?len = Some (of_nat (40 + length d))"
    using ol(2) sl(1) assms(2) by (simp add: checked_add_Some_iff del: of_nat_add)
  obtain v where v: "decode_canonical d lim = Inr v" "source_parse_directory v = Inr (layout 32 rs)"
    using assms(4) by (auto simp: structured_def source_parse_directory_eq result_simps)
  have n: "length rs < unat (max_records lim)" using assms(4) by (simp add: structured_def)
  then have n': "u64_try_from (length rs) = Some (of_nat (length rs))" "length rs + 1 < 2 ^ 64"
    using le_unat_64 [of "length rs + 1" "max_records lim"] by simp_all
  then have cnt: "checked_add (of_nat (length rs)) 1 = Some (of_nat (length rs + 1) :: u64)"
    using unat_of_nat_64 [OF n'(2)] by (simp add: checked_add_Some_iff del: of_nat_add of_nat_Suc)
  have "\<not> max_records lim < of_nat (length rs + 1)" "\<not> max_metadata_bytes lim < ?len"
    using n n'(2) assms(6) ol(2) by (simp_all add: word_less_nat_alt del: of_nat_add of_nat_Suc)
  then show ?thesis
    using r1 hd r2 tot v n' cnt f2
    by (simp add: inspect_directory_def framed_footer_def op_bind_def op_run del: of_nat_add of_nat_Suc)
qed

lemma manifest_complete:
  assumes "take o' X = body_image rs" and "o' \<le> length X" and "length X < 2 ^ 64"
    and "ids_ok {} rs" "(Manifest, mid, p) \<in> set rs" "and_then (decode_canonical p lim) parse_manifest = Inr m"
    and "set (roots m) \<subseteq> spec_id ` set rs" and "sf_manifest_id ft = mid"
    and "funded X lim (b + length p) (k + 1) r"
    and "length p \<le> unat (max_metadata_bytes lim)" and "length p \<le> unat (max_allocation_bytes lim)"
  shows "\<exists>r'. inspect_manifest S lim ft (layout 32 rs) r = (Inr m, r') \<and> funded X lim b k r'"
proof -
  obtain i where i: "i < length rs" "rs ! i = (Manifest, mid, p)" using assms(5) by (auto simp: in_set_conv_nth)
  let ?e = "layout 32 rs ! i"
  have len: "length (body_image rs) = o'" using arg_cong [OF assms(1), of length] assms(2) by simp
  have e: "de_kind ?e = Manifest" "de_id ?e = mid" using i by (simp_all add: nth_layout)
  have "spec_id (rs ! j) \<noteq> mid" if "j < i" for j
    using ids_ok_unique [OF assms(4) i(1), of j] i that by auto
  then have find: "List.find (\<lambda>e. de_id e = sf_manifest_id ft) (layout 32 rs) = Some ?e"
    unfolding find_Some_iff using i e(2) assms(8) by (intro exI [of _ i]) (simp add: nth_layout)
  have pr: "unat (de_offset ?e) + 40 + unat (de_stored_len ?e) \<le> o'" "unat (de_stored_len ?e) = length p"
    using layout_bounds [OF _ i(1), of 32] len assms(2,3) i(2) by (simp_all add: body_image_def)
  have pX: "take (unat (de_stored_len ?e)) (drop (unat (de_offset ?e) + 40) X) = p"
    using layout_payload [OF assms(1,2,3) i(1)] i(2) by simp
  have po: "checked_add (de_offset ?e) 40 = Some (de_offset ?e + 40)" "unat (de_offset ?e + 40) = unat (de_offset ?e) + 40"
    using pr(1) assms(2,3) by (simp_all add: checked_add_def unat_add_no_overflow)
  obtain r' where r': "bu_read_vec S (de_offset ?e + 40) (de_stored_len ?e) ''manifest payload'' r = (Inr p, r')"
    and f: "funded X lim b k r'"
    using read_vec_funded [of X lim b "de_stored_len ?e" k r "de_offset ?e + 40" "''manifest payload''"]
      assms(2,9,11) pr po(2) pX by (auto simp: word_le_nat_alt)
  obtain v where v: "decode_canonical p lim = Inr v" "source_parse_manifest v = Inr m"
    using assms(6) by (auto simp: source_parse_manifest_eq result_simps)
  have "\<not> max_metadata_bytes lim < de_stored_len ?e" using assms(10) pr(2) by (simp add: word_less_nat_alt)
  moreover have "\<not> list_ex (\<lambda>root. root \<notin> (\<lambda>(k, i, p). i) ` set rs) (roots m)"
    using assms(7) by (auto simp: list_ex_iff split_beta)
  ultimately show ?thesis
    using find e r' f v po(1) by (simp add: inspect_manifest_def op_bind_def op_run)
qed

text \<open>Header and footer of a framed file are read and pass.\<close>

lemma bootstrap_complete:
  assumes "X = framed rs d mid dig" and "length X < 2 ^ 64" and "length dig = 32" and "funded X lim (b + 80 + 32) (k + 1 + 1) r"
  obtains r1 r2 where "bu_read_array S 32 0 ''file header'' r = (Inr file_header, r1)"
    and "bu_read_array S 80 (of_nat (length (body_image rs) + 40 + length d)) ''footer'' r1 =
      (Inr (take 80 (drop (length (body_image rs) + 40 + length d) X)), r2)" and "funded X lim b k r2"
    and "source_validate_header file_header = Inr ()"
    and "checked_sub (of_nat (length X)) 80 = Some (of_nat (length (body_image rs) + 40 + length d) :: u64)"
    and "checked_end (sf_directory_offset (framed_footer rs d mid)) (sf_directory_len (framed_footer rs d mid))
      (of_nat (length (body_image rs) + 40 + length d)) ''directory'' = Inr (of_nat (length (body_image rs) + 40 + length d))"
    and "\<not> sf_directory_len (framed_footer rs d mid) < 40"
proof -
  define fo where "fo = length (body_image rs) + 40 + length d"
  note sl = framed_slices [of rs d mid dig, folded assms(1), OF assms(2,3)]
  obtain r1 where r1: "bu_read_array S 32 0 ''file header'' r = (Inr file_header, r1)" and f1: "funded X lim (b + 80) (k + 1) r1"
    using read_array_funded [OF assms(4), of 0 "''file header''"] sl(1,3) by auto
  have fow: "checked_sub (of_nat (length X)) 80 = Some (of_nat fo :: u64)" "unat (of_nat fo :: u64) = fo"
    using sl(1) assms(2) by (auto simp: checked_sub_Some_iff fo_def simp del: of_nat_add)
  obtain r2 where "bu_read_array S 80 (of_nat fo) ''footer'' r1 = (Inr (take 80 (drop fo X)), r2)" "funded X lim b k r2"
    using read_array_funded [OF f1, of "of_nat fo" "''footer''"] sl(1) fow(2) by (auto simp: fo_def)
  moreover have "checked_end (sf_directory_offset (framed_footer rs d mid)) (sf_directory_len (framed_footer rs d mid))
      (of_nat fo) ''directory'' = Inr (of_nat fo)"
    using checked_end_of_nat [of "length (body_image rs)" "40 + length d" "of_nat fo" "''directory''"] fow(2)
    by (simp add: framed_footer_def fo_def add.assoc del: of_nat_add)
  moreover have "\<not> sf_directory_len (framed_footer rs d mid) < 40"
    using sl(1) assms(2) by (simp add: framed_footer_def word_less_nat_alt del: of_nat_add)
  moreover have "source_validate_header file_header = Inr ()"
    using source_validate_header_eq [OF assms(2)] validate_header_Ok_iff [OF assms(2)] sl(1,3) by simp
  ultimately show thesis using that r1 fow(1) unfolding fo_def by blast
qed

lemma inspect_complete:
  assumes "content s = framed rs d mid dig" and "length dig = 32" and "structured lim rs d mid m"
    and "Directory \<notin> fst ` set rs" and "length (content s) \<le> unat (max_file_bytes lim)"
    and "length (content s) \<le> unat (max_metadata_bytes lim)" and "length (content s) \<le> unat (max_allocation_bytes lim)"
    and "2 * length (content s) \<le> unat (max_total_bytes_read lim)"
  shows "\<exists>r. metadata_inspect S lim s = (Inr \<lparr>in_file_len = of_nat (length (content s)), in_epoch = EXPERIMENTAL_EPOCH,
      in_manifest_id = mid, in_manifest = m, in_entries = layout 32 rs,
      in_unsupported_required_capabilities = required_capabilities m, in_integrity = NotChecked, in_stats = bu_stats r\<rparr>, bu_source r)
    \<and> funded (content s) lim (length (content s)) (length (content s)) r"
proof -
  define X where "X = content s"
  let ?w = "of_nat (length X) :: u64" and ?n = "length rs" and ?ft = "framed_footer rs d mid"
  have len: "length X < 2 ^ 64" using assms(5) le_unat_64 by (auto simp: X_def)
  note sl = framed_slices [of rs d mid dig, folded assms(1), folded X_def, OF len assms(2)]
  let ?o = "length (body_image rs)"
  define fo where "fo = ?o + 40 + length d"
  obtain p where p: "(Manifest, mid, p) \<in> set rs" "and_then (decode_canonical p lim) parse_manifest = Inr m"
    using assms(3) by (auto simp: structured_def)
  have need: "32 + 80 + 40 + length d + 40 * ?n + length p \<le> length X"
    using record_space(2) [OF p(1)] sl(1) by simp
  obtain w s1 where w: "ra_len S s = (Inr w, s1)" using len_ready [of s] len by (auto simp: X_def)
  have s1: "ra_len S s = (Inr ?w, s1)" "content s1 = X"
    using w len_content [OF w] len by (auto simp: X_def [symmetric] word_unat_eq_iff)
  let ?k = "length X"
  have f0: "funded X lim (((((length X + length p) + 40 * ?n) + 40 + length d) + 80) + 32) (?k + 1 + ?n + 2 + 1 + 1) (budgeted_new s1 ?w lim)"
    using need assms(8) s1(2) len le_unat_64 [OF assms(8)]
    by (simp add: funded_def presents_def budgeted_new_def read_stats_default_def X_def [symmetric])
  from bootstrap_complete [OF assms(1) [folded X_def] len assms(2) f0] obtain r1 r2 where
    r1: "bu_read_array S 32 0 ''file header'' (budgeted_new s1 ?w lim) = (Inr file_header, r1)"
    and r2: "bu_read_array S 80 (of_nat fo) ''footer'' r1 = (Inr (take 80 (drop fo X)), r2)"
    and f2: "funded X lim (((length X + length p) + 40 * ?n) + 40 + length d) (?k + 1 + ?n + 2) r2"
    and boot: "source_validate_header file_header = Inr ()" "checked_sub ?w 80 = Some (of_nat fo)"
      "checked_end (sf_directory_offset ?ft) (sf_directory_len ?ft) (of_nat fo) ''directory'' = Inr (of_nat fo)"
      "\<not> sf_directory_len ?ft < 40"
    unfolding fo_def .
  have small: "length d \<le> unat (max_metadata_bytes lim)" "length d \<le> unat (max_allocation_bytes lim)"
    "length p \<le> unat (max_metadata_bytes lim)" "length p \<le> unat (max_allocation_bytes lim)"
    using need assms(6,7) by (simp_all add: X_def [symmetric])
  obtain r3 where r3: "inspect_directory S lim ?ft r2 = (Inr (layout 32 rs), r3)"
    and f3: "funded X lim ((length X + length p) + 40 * ?n) (?k + 1 + ?n) r3"
    using directory_complete [OF assms(1) [folded X_def] len assms(2,3) _ small(1,2)] f2 by blast
  have ol: "unat (of_nat ?o :: u64) = ?o" and mid: "sf_manifest_id ?ft = mid"
    using sl(1) len by (simp_all add: framed_footer_def)
  obtain r4 where r4: "inventory_loop S (layout 32 rs) (of_nat ?o) lim (of_nat 32) {} r3 = (Inr (of_nat ?o), r4)"
    and f4: "funded X lim (length X + length p) (?k + 1) r4"
    using inventory_complete [OF f3, of ?o 32 "of_nat ?o" "{}"] sl(1,2,5) assms(3,4) ol
    by (auto simp: structured_def sizes_ok_def)
  obtain r5 where r5: "inspect_manifest S lim ?ft (layout 32 rs) r4 = (Inr m, r5)" and f5: "funded X lim (length X) ?k r5"
    using manifest_complete [OF sl(4) _ len _ p _ mid f4 small(3,4)] assms(3) sl(1) by (auto simp: structured_def)
  have "inspect_body S lim ?w (budgeted_new s1 ?w lim) = (Inr \<lparr>in_file_len = ?w, in_epoch = EXPERIMENTAL_EPOCH,
      in_manifest_id = mid, in_manifest = m, in_entries = layout 32 rs,
      in_unsupported_required_capabilities = required_capabilities m, in_integrity = NotChecked, in_stats = bu_stats r5\<rparr>, r5)"
    using r1 r2 boot sl(9) [folded fo_def] r3 r4 r5
    by (simp add: inspect_body_def validate_inventory_headers_def framed_footer_def op_bind_def op_run del: of_nat_add of_nat_Suc)
  moreover have "\<not> max_file_bytes lim < ?w" "\<not> ?w < of_nat 112"
    using assms(5) need len by (simp_all add: word_less_nat_alt X_def [symmetric])
  ultimately show ?thesis
    using s1(1) f5 by (intro exI [of _ r5]) (simp add: metadata_inspect_def X_def [symmetric])
qed

definition vr_funded :: "bytes \<Rightarrow> limits \<Rightarrow> nat \<Rightarrow> nat \<Rightarrow> 's validation_reader \<Rightarrow> bool" where
  "vr_funded X lim b k r \<longleftrightarrow> vr_presents X r \<and> vr_limits r = lim \<and>
     unat (sv_bytes_read (vr_stats r)) + b \<le> unat (max_total_bytes_read lim) \<and>
     unat (sv_read_operations (vr_stats r)) + k < 2 ^ 64"

lemma vr_read_funded:
  assumes "vr_funded X lim (b + n) (k + 1) r" and "unat off + n \<le> length X"
  obtains r' where "vr_read_exact S off n c r = (Inr (take n (drop (unat off) X)), r')" "vr_funded X lim b k r'"
    and "sv_bytes_hashed (vr_stats r') = sv_bytes_hashed (vr_stats r)"
proof -
  have X: "content (vr_source r) = X" "unat (vr_file_len r) = length X" "vr_limits r = lim"
    and f: "unat (sv_bytes_read (vr_stats r)) + (b + n) \<le> unat (max_total_bytes_read lim)"
      "unat (sv_read_operations (vr_stats r)) + (k + 1) < 2 ^ 64"
    using assms(1) by (simp_all add: vr_funded_def vr_presents_def)
  have len: "length X < 2 ^ 64" using X(2) unat_lt2p [of "vr_file_len r"] by simp
  then have n: "n < 2 ^ 64" using assms(2) by simp
  obtain s' where rd: "ra_read_exact_at S (vr_source r) off n = (Inr (take n (drop (unat off) X)), s')" "content s' = X"
    using read_ready [of "vr_source r" off n] read_content [of "vr_source r" off n] X(1) len assms(2) by metis
  have range: "checked_add off (of_nat n) = Some (off + of_nat n)" "\<not> vr_file_len r < off + of_nat n"
    using assms(2) X(2) n len by (simp_all add: checked_add_def unat_add_no_overflow word_less_nat_alt)
  have tot: "checked_add (sv_bytes_read (vr_stats r)) (of_nat n) = Some (sv_bytes_read (vr_stats r) + of_nat n)"
    "\<not> max_total_bytes_read lim < sv_bytes_read (vr_stats r) + of_nat n"
    "unat (sv_bytes_read (vr_stats r) + of_nat n) = unat (sv_bytes_read (vr_stats r)) + n"
    using f(1) n le_unat_64 [OF f(1)] by (simp_all add: checked_add_def unat_add_no_overflow word_less_nat_alt)
  have ops: "checked_add (sv_read_operations (vr_stats r)) 1 = Some (sv_read_operations (vr_stats r) + 1)"
    "unat (sv_read_operations (vr_stats r) + 1) = unat (sv_read_operations (vr_stats r)) + 1"
    using f(2) by (simp_all add: checked_add_def unat_add_no_overflow)
  let ?r' = "r\<lparr>vr_source := s', vr_stats := (vr_stats r)\<lparr>sv_read_operations := sv_read_operations (vr_stats r) + 1,
      sv_bytes_read := sv_bytes_read (vr_stats r) + of_nat n\<rparr>\<rparr>"
  have "vr_read_exact S off n c r = (Inr (take n (drop (unat off) X)), ?r')"
    using n range tot ops rd X(3) by (simp add: vr_read_exact_def op_bind_def op_run)
  moreover have "vr_funded X lim b k ?r'"
    using f tot(3) ops(2) X rd(2) by (simp add: vr_funded_def vr_presents_def)
  ultimately show thesis by (rule that) simp
qed

lemma hash_loop_complete:
  assumes "c \<noteq> 0" and "unat fo \<le> length X" and "unat off \<le> unat fo"
    and "vr_funded X lim (b + (unat fo - unat off)) (k + (unat fo - unat off)) r"
    and "sv_bytes_hashed (vr_stats r) = off"
  shows "\<exists>r'. hash_loop S c fo off hashed r = (Inr (hashed @ take (unat fo - unat off) (drop (unat off) X)), r') \<and>
    vr_funded X lim b k r'"
  using assms(3-)
proof (induction "unat fo - unat off" arbitrary: off hashed r rule: less_induct)
  case less
  show ?case
  proof (cases "off < fo")
    case True
    then obtain rest where rest: "checked_sub fo off = Some rest" by (simp add: checked_sub_def less_imp_le)
    let ?n = "unat (min rest c)"
    have n: "0 < ?n" "unat off + ?n \<le> unat fo"
      using True rest assms(1) by (auto simp: checked_sub_Some_iff word_less_nat_alt min_def unat_gt_0 word_le_nat_alt)
    then have off': "checked_add off (min rest c) = Some (off + min rest c)" "unat (off + min rest c) = unat off + ?n"
      using le_unat_64 [OF n(2)] by (simp_all add: checked_add_def unat_add_no_overflow)
    have "vr_funded X lim ((b + (unat fo - (unat off + ?n))) + ?n) ((k + (unat fo - (unat off + ?n))) + 1) r"
      using less.prems(2) n by (auto simp: vr_funded_def)
    moreover have "unat off + ?n \<le> length X" using n(2) assms(2) by simp
    ultimately obtain r1 where
      r1: "vr_read_exact S off ?n ''committed prefix'' r = (Inr (take ?n (drop (unat off) X)), r1)"
      and f1: "vr_funded X lim (b + (unat fo - (unat off + ?n))) (k + (unat fo - (unat off + ?n))) r1"
      and h1: "sv_bytes_hashed (vr_stats r1) = sv_bytes_hashed (vr_stats r)"
      by (rule vr_read_funded)
    let ?r2 = "r1\<lparr>vr_stats := (vr_stats r1)\<lparr>sv_bytes_hashed := off + min rest c\<rparr>\<rparr>"
    have f2: "vr_funded X lim (b + (unat fo - unat (off + min rest c))) (k + (unat fo - unat (off + min rest c))) ?r2"
      using f1 off'(2) by (simp add: vr_funded_def vr_presents_def)
    from less.hyps [OF chunk_progress [OF True assms(1) rest off'(1)] _ f2, of "hashed @ take ?n (drop (unat off) X)"] off'(2) n(2)
    obtain r' where "hash_loop S c fo (off + min rest c) (hashed @ take ?n (drop (unat off) X)) ?r2 =
        (Inr ((hashed @ take ?n (drop (unat off) X)) @ take (unat fo - (unat off + ?n)) (drop (unat off + ?n) X)), r')"
        "vr_funded X lim b k r'" by auto
    then show ?thesis
      using True assms(1) rest r1 h1 less.prems(3) off'(1) take_drop_split [of "unat off" ?n 0 "unat fo" X] n(2)
      by (subst hash_loop.simps) (simp add: Let_def)
  next
    case False
    then show ?thesis
      using less.prems by (subst hash_loop.simps) (auto simp: word_less_nat_alt)
  qed
qed

lemma validate_complete:
  assumes "content s = file_image sha rs d mid" and "length (sha (body_image (rs @ [(Directory, 0, d)]))) = 32"
    and "structured lim rs d mid m" and "Directory \<notin> fst ` set rs"
    and "length (content s) \<le> unat (max_file_bytes lim)" and "length (content s) \<le> unat (max_metadata_bytes lim)"
    and "length (content s) \<le> unat (max_allocation_bytes lim)"
    and "2 * length (content s) \<le> unat (max_total_bytes_read lim)" and "0 < max_stream_chunk_bytes lim"
  shows "\<exists>rep s'. source_validate sha S lim s = (Inr rep, s') \<and> sr_manifest_id rep = mid \<and> sr_manifest rep = m \<and>
    sr_entries rep = layout 32 rs"
proof -
  define X where "X = content s"
  define fo where "fo = length (body_image rs) + 40 + length d"
  let ?dig = "sha (body_image (rs @ [(Directory, 0, d)]))" and ?w = "of_nat (length X) :: u64"
  let ?c = "min (max_stream_chunk_bytes lim) (max_allocation_bytes lim)"
  have Xf: "X = framed rs d mid ?dig" using assms(1) by (simp add: X_def file_image_framed)
  have len: "length X < 2 ^ 64" using le_unat_64 [OF assms(5)] by (simp add: X_def)
  note sl = framed_slices [of rs d mid ?dig, folded Xf, OF len assms(2), folded fo_def]
  from inspect_complete [OF assms(1) [unfolded file_image_framed] assms(2-8), folded X_def] obtain r where
    ins: "metadata_inspect S lim s = (Inr \<lparr>in_file_len = ?w, in_epoch = EXPERIMENTAL_EPOCH,
      in_manifest_id = mid, in_manifest = m, in_entries = layout 32 rs,
      in_unsupported_required_capabilities = required_capabilities m, in_integrity = NotChecked, in_stats = bu_stats r\<rparr>, bu_source r)"
    and f: "funded X lim (length X) (length X) r" by blast
  define r0 where "r0 = \<lparr>vr_source = bu_source r, vr_file_len = ?w, vr_limits = lim,
    vr_stats = \<lparr>sv_read_operations = read_operations (bu_stats r), sv_bytes_read = bytes_read (bu_stats r),
      sv_bytes_hashed = 0, sv_largest_allocation = max (largest_allocation (bu_stats r)) ?c\<rparr>\<rparr>"
  have fow: "checked_sub ?w 80 = Some (of_nat fo)" "unat (of_nat fo :: u64) = fo"
    using sl(1) len by (auto simp: checked_sub_Some_iff simp del: of_nat_add)
  have c: "?c \<noteq> 0"
  proof -
    have "0 < unat (max_allocation_bytes lim)" using assms(7) sl(1) by (simp add: X_def [symmetric])
    then have "0 < max_allocation_bytes lim" by (simp add: unat_gt_0 word_neq_0_conv)
    then show ?thesis using assms(9) by (simp add: min_def word_neq_0_conv)
  qed
  have f0: "vr_funded X lim (80 + (fo - unat (0::u64))) (1 + (fo - unat (0::u64))) r0"
    using f sl(1) unat_of_nat_64 [OF len]
    by (auto simp: vr_funded_def funded_def vr_presents_def presents_def r0_def simp del: of_nat_add)
  obtain r1 where r1: "hash_loop S ?c (of_nat fo) 0 [] r0 = (Inr (take fo X), r1)" and f1: "vr_funded X lim 80 1 r1"
    using hash_loop_complete [OF c, of "of_nat fo" X 0 lim 80 1 r0 "[]"] f0 fow(2) sl(1) by (auto simp: r0_def)
  obtain r2 where r2: "vr_read_array S 80 (of_nat fo) ''footer'' r1 = (Inr (take 80 (drop fo X)), r2)"
    using vr_read_funded [of X lim 0 80 0 r1 "of_nat fo" "''footer''"] f1 fow(2) sl(1) unfolding vr_read_array_def by auto
  have body: "take fo X = body_image (rs @ [(Directory, 0, d)])"
    using framed_parts(1) [OF len [unfolded Xf] assms(2), folded Xf] sl(1) by simp
  have vpf: "validate_parse_footer (take 80 (drop fo X)) = Inr \<lparr>ft_directory_offset = of_nat (length (body_image rs)),
      ft_directory_len = of_nat (40 + length d), ft_manifest_id = mid, ft_record_count = of_nat (length rs + 1), ft_digest = ?dig\<rparr>"
    using validate_parse_footer_eq [OF len, of fo] sl(1,8) by (simp del: take_all)
  have "source_validate sha S lim s = (Inr \<lparr>sr_file_len = ?w, sr_epoch = EXPERIMENTAL_EPOCH, sr_manifest_id = mid,
      sr_manifest = m, sr_entries = layout 32 rs, sr_unsupported_required_capabilities = required_capabilities m,
      sr_integrity = Verified, sr_stats = vr_stats r2\<rparr>, vr_source r2)"
    using ins fow c r1 [unfolded r0_def] r2 body vpf footer_matches [OF len [unfolded Xf] assms(2), folded fo_def]
    by (simp add: source_validate_def Let_def validation_reader_new_def op_bind_def op_run
        del: of_nat_add of_nat_Suc take_all)
  then show ?thesis by simp
qed

end

end
