(* ===== verification/Ucof_Source_Properties.thy ===== *)
theory Ucof_Source_Properties
  imports Ucof_Source_Complete Ucof_Sample
begin

text \<open>
  The properties of the metadata inspector and of the strict source validator, with the sample file as
  their witness.
\<close>

lemma vr_read_exact_limits: "vr_limits (snd (vr_read_exact S off n c r)) = vr_limits r"
  by (auto simp: vr_read_exact_def op_bind_def op_run split: prod.splits sum.splits if_splits)

lemma hash_loop_limits: "vr_limits (snd (hash_loop S c fo off h r)) = vr_limits r"
proof (induction S c fo off h r rule: hash_loop.induct)
  case (1 S c fo off h r)
  have rd: "vr_limits r' = vr_limits r" if "vr_read_exact S off n x r = (y, r')" for n x y r'
    using vr_read_exact_limits [of S off n x r] that by simp
  show ?case
    using 1 by (subst hash_loop.simps) (auto simp: Let_def dest: rd split: prod.splits sum.splits option.splits)
qed

lemma ids_ok_plain:
  assumes "ids_ok S rs" and "Directory \<notin> fst ` set rs"
  shows "distinct (map spec_id rs)" "0 \<notin> set (map spec_id rs)"
proof -
  have "filter (\<lambda>r. fst r \<noteq> Directory) rs = rs" using assms(2) by (force simp: filter_id_conv)
  then show "distinct (map spec_id rs)" using assms(1) by (simp add: ids_ok_distinct)
  show "0 \<notin> set (map spec_id rs)"
  proof
    assume "0 \<in> set (map spec_id rs)"
    then obtain r where r: "r \<in> set rs" "spec_id r = 0" by auto
    then have "fst r \<noteq> Directory" using assms(2) by (auto simp: image_iff)
    with ids_ok_mem [OF assms(1) r(1)] r(2) show False by simp
  qed
qed

lemma structured_directory:
  "structured lim rs d mid m \<Longrightarrow> encode_canonical (directory_value (layout 32 rs)) = Inr d"
  by (auto simp: structured_def result_simps dest: parse_directory_encode decode_canonical_encode)

lemma view_kinds: "Directory \<notin> ri_kind ` set (butlast (vf_records (view sha rs d mid m))) \<longleftrightarrow> Directory \<notin> fst ` set rs"
  by (simp add: view_def directory_info(3)) (metis list.set_map map_infos(2))

lemma sample_room:
  "length sample_file \<le> unat (max_metadata_bytes default_limits)" "length sample_file \<le> unat (max_allocation_bytes default_limits)"
  "2 * length sample_file \<le> unat (max_total_bytes_read default_limits)" "0 < max_stream_chunk_bytes default_limits"
  by (simp_all add: default_limits_def sample_file_def file_image_def Let_def body_image_def
      sample_records_def sample_manifest_bytes_def sample_directory_def)

lemma sample_accepted: "accepted default_limits sample_records sample_directory 1 sample_manifest"
  by (rule writer_accepted [OF writes_inv [OF sample_writes] sample_directory_encode sample_sha_length
        sample_limits [unfolded sample_file_def] sample_roots(3) sample_manifest_encode sample_manifest_shape
        sample_manifest_fits sample_roots(1,2)])

lemma sample_validate:
  "\<exists>rep s'. source_validate sample_sha slice_source default_limits sample_file = (Inr rep, s')"
proof -
  have "Directory \<notin> fst ` set sample_records" by (simp add: sample_records_def)
  moreover have "length sample_file \<le> unat (max_file_bytes default_limits)" using sample_limits by (simp add: limits_admit_def)
  ultimately show ?thesis
    using slice.validate_complete [OF sample_file_def sample_sha_length _ _ _ sample_room] sample_accepted
    unfolding accepted_iff by blast
qed

lemma sample_inspect:
  "\<exists>rep s'. metadata_inspect slice_source default_limits sample_file = (Inr rep, s')"
  using sample_validate by (auto simp: source_validate_def split: prod.splits sum.splits)

section \<open>Properties of the source readers\<close>

text \<open>
  C28. Whatever source is behind it, a metadata inspection that succeeds has read no more bytes than
  \<open>max_total_bytes_read\<close> allows, and its largest buffer is within \<open>max_allocation_bytes\<close> or is one of the
  fixed-size structures, of which the footer, with 80 bytes, is the largest.
\<close>

theorem inspect_within_budget:
  assumes "metadata_inspect S lim s = (Inr rep, s')"
  shows "bytes_read (in_stats rep) \<le> max_total_bytes_read lim \<and>
    largest_allocation (in_stats rep) \<le> max 80 (max_allocation_bytes lim)"
  using inspect_budget [OF assms] by blast

theorem inspect_within_budget_witness:
  "\<exists>rep s'. metadata_inspect slice_source default_limits sample_file = (Inr rep, s') \<and>
     bytes_read (in_stats rep) \<le> max_total_bytes_read default_limits"
proof -
  obtain rep s' where "metadata_inspect slice_source default_limits sample_file = (Inr rep, s')"
    using sample_inspect by blast
  with inspect_within_budget [OF this] show ?thesis by blast
qed

text \<open>
  C7. Strict validation over any stable source (\<open>SourceValidator::validate\<close>): a report is only issued
  for a source whose bytes are exactly the file of the reported records, with the digest of the
  committed prefix in its footer, and the bytes read stay within the budget.
\<close>

theorem validator_sound:
  assumes "stable_source S content" and "source_validate sha S lim s = (Inr rep, s')"
  shows "sr_integrity rep = Verified \<and> unat (sr_file_len rep) = length (content s) \<and>
    sv_bytes_read (sr_stats rep) \<le> max_total_bytes_read lim \<and>
    (\<exists>rs d. content s = file_image sha rs d (sr_manifest_id rep) \<and> sr_entries rep = layout 32 rs \<and>
       encode_canonical (directory_value (layout 32 rs)) = Inr d \<and>
       distinct (map spec_id rs) \<and> 0 \<notin> set (map spec_id rs) \<and> Directory \<notin> fst ` set rs)"
proof -
  have "sv_bytes_read (sr_stats rep) \<le> max_total_bytes_read lim"
  proof -
    from assms(2) obtain r0 c fo hashed r1 fb r2 where
      "hash_loop S c fo 0 [] r0 = (Inr hashed, r1)" "vr_read_array S 80 fo ''footer'' r1 = (Inr fb, r2)"
      "sr_stats rep = vr_stats r2" "vr_limits r0 = lim"
      by (simp add: source_validate_def Let_def split: prod.splits sum.splits option.splits if_splits)
        (auto simp: op_simps validation_reader_new_def split: if_splits)
    then show ?thesis
      using hash_loop_limits [of S c fo 0 "[]" r0] vr_read_exact_Ok [of S fo 80 "''footer''" r1 fb r2]
      by (auto simp: vr_read_array_def word_le_nat_alt unat_word_ariths)
  qed
  moreover from stable_source.validate_sound [OF assms] obtain rs d where
    "sr_integrity rep = Verified" "unat (sr_file_len rep) = length (content s)"
    "content s = file_image sha rs d (sr_manifest_id rep)" "sr_entries rep = layout 32 rs" "Directory \<notin> fst ` set rs"
    and st: "structured lim rs d (sr_manifest_id rep) (sr_manifest rep)" by auto
  ultimately show ?thesis
    using structured_directory [OF st] ids_ok_plain [of "{}" rs] st [unfolded structured_def] by blast
qed

theorem validator_sound_witness:
  "\<exists>rep s'. source_validate sample_sha slice_source default_limits sample_file = (Inr rep, s') \<and>
     sr_integrity rep = Verified \<and> sv_bytes_read (sr_stats rep) \<le> max_total_bytes_read default_limits"
  using sample_validate validator_sound [OF slice.stable_source_axioms] by blast

text \<open>
  C3. The two strict readers agree: on the same bytes, under limits that leave room for two passes,
  \<open>SourceValidator::validate\<close> over a slice reports a file without unsupported required capabilities
  exactly when \<open>ValidatedFile::parse\<close> accepts it and no record but the last is a directory, and then both
  name the same active manifest. (The validator reports unsupported required capabilities and verifies the
  file, where \<open>parse\<close> rejects it; a file with a directory record among the objects is accepted by
  \<open>parse\<close> only.)
\<close>

theorem validator_agrees_with_parse:
  assumes "length bs \<le> unat (max_metadata_bytes lim)" and "length bs \<le> unat (max_allocation_bytes lim)"
    and "2 * length bs \<le> unat (max_total_bytes_read lim)" and "0 < max_stream_chunk_bytes lim"
  shows "(\<exists>rep s'. source_validate sha slice_source lim bs = (Inr rep, s') \<and>
      sr_unsupported_required_capabilities rep = [] \<and> sr_manifest_id rep = mid \<and> sr_manifest rep = m) \<longleftrightarrow>
    (\<exists>vf. parse sha bs lim = Inr vf \<and> vf_manifest_id vf = mid \<and> vf_manifest vf = m \<and>
      Directory \<notin> ri_kind ` set (butlast (vf_records vf)))"
proof
  assume "\<exists>rep s'. source_validate sha slice_source lim bs = (Inr rep, s') \<and>
      sr_unsupported_required_capabilities rep = [] \<and> sr_manifest_id rep = mid \<and> sr_manifest rep = m"
  then obtain rs d where "bs = file_image sha rs d mid" "length bs \<le> unat (max_file_bytes lim)"
    "length (sha (body_image (rs @ [(Directory, 0, d)]))) = 32" "accepted lim rs d mid m" "Directory \<notin> fst ` set rs"
    using slice.validate_sound [of sha lim bs] by (fastforce simp: accepted_iff)
  then show "\<exists>vf. parse sha bs lim = Inr vf \<and> vf_manifest_id vf = mid \<and> vf_manifest vf = m \<and>
      Directory \<notin> ri_kind ` set (butlast (vf_records vf))"
    using parse_complete [of sha rs d mid lim m] view_kinds [of sha rs d mid m]
    by (intro exI [of _ "view sha rs d mid m"]) (simp add: view_def)
next
  assume "\<exists>vf. parse sha bs lim = Inr vf \<and> vf_manifest_id vf = mid \<and> vf_manifest vf = m \<and>
      Directory \<notin> ri_kind ` set (butlast (vf_records vf))"
  then obtain vf where vf: "parse sha bs lim = Inr vf" "vf_manifest_id vf = mid" "vf_manifest vf = m"
      "Directory \<notin> ri_kind ` set (butlast (vf_records vf))" by blast
  from parse_sound [OF vf(1), unfolded vf(2,3)] obtain rs d where
    f: "bs = file_image sha rs d mid" "length bs \<le> unat (max_file_bytes lim)" "accepted lim rs d mid m"
      "vf = view sha rs d mid m" "length (sha (body_image (rs @ [(Directory, 0, d)]))) = 32" .
  have acc: "structured lim rs d mid m" "required_capabilities m = []" using f(3) by (simp_all add: accepted_iff)
  have "Directory \<notin> fst ` set rs" using vf(4) f(4) view_kinds [of sha rs d mid m] by simp
  from slice.validate_complete [OF f(1,5) acc(1) this f(2) assms] obtain rep s' where
    rep: "source_validate sha slice_source lim bs = (Inr rep, s')" "sr_manifest_id rep = mid" "sr_manifest rep = m" by blast
  with slice.validate_sound [OF rep(1)] acc(2)
  show "\<exists>rep s'. source_validate sha slice_source lim bs = (Inr rep, s') \<and>
      sr_unsupported_required_capabilities rep = [] \<and> sr_manifest_id rep = mid \<and> sr_manifest rep = m" by auto
qed

theorem validator_agrees_with_parse_witness:
  "\<exists>rep s'. source_validate sample_sha slice_source default_limits sample_file = (Inr rep, s') \<and>
     sr_manifest_id rep = 1 \<and> sr_manifest rep = sample_manifest"
proof -
  have "Directory \<notin> fst ` set sample_records" by (simp add: sample_records_def)
  with sample_parse view_kinds have "\<exists>vf. parse sample_sha sample_file default_limits = Inr vf \<and> vf_manifest_id vf = 1 \<and>
      vf_manifest vf = sample_manifest \<and> Directory \<notin> ri_kind ` set (butlast (vf_records vf))"
    by (intro exI [of _ "view sample_sha sample_records sample_directory 1 sample_manifest"]) (simp add: view_def)
  then show ?thesis using validator_agrees_with_parse [OF sample_room] by blast
qed

end
