(* ===== verification/Ucof_Stream.thy ===== *)
theory Ucof_Stream
  imports Ucof_Io Ucof_Reader Ucof_Source
begin

text \<open>
  \<open>ucof-core/src/stream.rs\<close>: the bounded sequential reader. The inner \<open>Read\<close> is the record of its
  \<open>read\<close> and \<open>read_exact\<close> on a reader state; the incremental SHA-256 state is the list of the bytes
  fed to it, finalised by the parameter \<open>sha\<close>; \<open>BTreeMap\<close> is a map and \<open>BTreeSet\<close> a set.
\<close>

section \<open>State\<close>

record 'r read_impl =
  rd_read :: "'r \<Rightarrow> usize \<Rightarrow> bytes io_result \<times> 'r"
  rd_read_exact :: "'r \<Rightarrow> usize \<Rightarrow> bytes io_result \<times> 'r"

record stream_stats =
  st_read_operations :: u64
  st_bytes_read :: u64
  st_bytes_hashed :: u64
  st_logical_bytes :: u64
  st_payload_chunks :: u64
  st_largest_allocation :: u64

definition stream_stats_default :: stream_stats where
  "stream_stats_default = \<lparr>st_read_operations = 0, st_bytes_read = 0, st_bytes_hashed = 0,
     st_logical_bytes = 0, st_payload_chunks = 0, st_largest_allocation = 0\<rparr>"

record stream_record =
  sre_kind :: record_kind
  sre_object_id :: u64
  sre_offset :: u64
  sre_stored_len :: u64
  sre_logical_len :: u64

record stream_commit =
  sc_manifest_id :: u64
  sc_record_count :: u64
  sc_roots :: "u64 list"
  sc_unsupported_required_capabilities :: "u64 list"
  sc_integrity :: integrity_status
  sc_stats :: stream_stats

definition sc_is_fully_interpretable :: "stream_commit \<Rightarrow> bool" where
  "sc_is_fully_interpretable c \<longleftrightarrow> sc_unsupported_required_capabilities c = []"

datatype stream_event =
    FileHeader u32
  | RecordStart stream_record
  | PayloadChunk record_kind u64 bytes u64
  | RecordEnd record_kind u64
  | Commit stream_commit

datatype stream_state = StHeader | StRecordHeader | StPayload | StRecordEnd | StFooter | StDone | StFailed

record active_record =
  ac_record :: stream_record
  ac_remaining :: u64
  ac_metadata :: "bytes option"

record directory_state =
  ds_offset :: u64
  ds_len :: u64

record stream_record_header =
  sh_kind :: record_kind
  sh_object_id :: u64
  sh_stored_len :: u64
  sh_logical_len :: u64

record 'r sequential_reader =
  sq_inner :: 'r
  sq_limits :: limits
  sq_state :: stream_state
  sq_offset :: u64
  sq_stats :: stream_stats
  sq_hasher :: bytes
  sq_active :: "active_record option"
  sq_inventory :: "directory_entry list"
  sq_identifiers :: "u64 set"
  sq_manifests :: "u64 \<rightharpoonup> manifest"
  sq_directory :: "directory_state option"
  sq_record_count :: u64

definition sequential_new :: "'r \<Rightarrow> limits \<Rightarrow> 'r sequential_reader" where
  "sequential_new inner lim =
     \<lparr>sq_inner = inner, sq_limits = lim, sq_state = StHeader, sq_offset = 0, sq_stats = stream_stats_default,
      sq_hasher = [], sq_active = None, sq_inventory = [], sq_identifiers = {}, sq_manifests = Map.empty,
      sq_directory = None, sq_record_count = 0\<rparr>"

definition sequential_with_default_limits :: "'r \<Rightarrow> 'r sequential_reader" where
  "sequential_with_default_limits inner = sequential_new inner default_limits"

section \<open>Fixed-length structures\<close>

definition stream_validate_header :: "bytes \<Rightarrow> unit result" where
  "stream_validate_header bs =
     (if take (length FILE_MAGIC) bs \<noteq> FILE_MAGIC then Err (InvalidMagic ''file'') else
      and_then (read_u32_le bs 8 ''epoch'') (\<lambda>epoch.
      if epoch \<noteq> EXPERIMENTAL_EPOCH then Err (UnsupportedEpoch epoch) else
      and_then (read_u32_le bs 12 ''file flags'') (\<lambda>flags.
      if flags \<noteq> 0 then Err (UnsupportedFlags ''file'' (ucast flags)) else
      and_then (read_u32_le bs 16 ''file header length'') (\<lambda>len.
      if len \<noteq> of_nat HEADER_LEN then Err (InvalidLength ''file header'') else
      if list_ex (\<lambda>b. b \<noteq> 0) (drop 20 bs) then Err (InvalidReserved ''file header'') else Ok ()))))"

definition stream_parse_record_header :: "bytes \<Rightarrow> u64 \<Rightarrow> limits \<Rightarrow> stream_record_header result" where
  "stream_parse_record_header bs offset lim =
     (if take (length RECORD_MAGIC) bs \<noteq> RECORD_MAGIC then Err (InvalidMagic ''record'') else
      and_then (read_u16_le bs 4 ''record kind'') (\<lambda>raw_kind.
      and_then (record_kind_try_from raw_kind) (\<lambda>kind.
      and_then (read_u16_le bs 6 ''record flags'') (\<lambda>flags.
      if flags \<noteq> 0 then Err (UnsupportedFlags ''record'' (ucast flags)) else
      and_then (read_u32_le bs 8 ''record header length'') (\<lambda>len.
      if len \<noteq> of_nat RECORD_HEADER_LEN then Err (InvalidLength ''record header'') else
      and_then (read_u64_le bs 12 ''stored length'') (\<lambda>stored_len.
      and_then (read_u64_le bs 20 ''logical length'') (\<lambda>logical_len.
      if stored_len \<noteq> logical_len then Err (InvalidLength ''transformed logical length'') else
      if stored_len > max_payload_bytes lim then Err (LimitExceeded ''record payload bytes'') else
      and_then (read_u64_le bs 28 ''object identifier'') (\<lambda>object_id.
      and_then (read_u32_le bs 36 ''record reserved'') (\<lambda>reserved.
      if reserved \<noteq> 0 then Err (InvalidReserved ''record header'') else
      Ok \<lparr>sh_kind = kind, sh_object_id = object_id, sh_stored_len = stored_len,
          sh_logical_len = logical_len\<rparr>)))))))))"

definition stream_parse_footer :: "bytes \<Rightarrow> footer result" where
  "stream_parse_footer bs =
     (if take (length FOOTER_MAGIC) bs \<noteq> FOOTER_MAGIC then Err (InvalidMagic ''footer'') else
      and_then (read_u32_le bs 8 ''footer length'') (\<lambda>len.
      if len \<noteq> of_nat FOOTER_LEN then Err (InvalidLength ''footer'') else
      and_then (read_u32_le bs 12 ''footer flags'') (\<lambda>flags.
      if flags \<noteq> 0 then Err (UnsupportedFlags ''footer'' (ucast flags)) else
      let digest = take (80 - 48) (drop 48 bs) in
      and_then (read_u64_le bs 16 ''directory offset'') (\<lambda>directory_offset.
      and_then (read_u64_le bs 24 ''directory length'') (\<lambda>directory_len.
      and_then (read_u64_le bs 32 ''manifest identifier'') (\<lambda>manifest_id.
      and_then (read_u64_le bs 40 ''record count'') (\<lambda>record_count.
      Ok \<lparr>ft_directory_offset = directory_offset, ft_directory_len = directory_len,
          ft_manifest_id = manifest_id, ft_record_count = record_count, ft_digest = digest\<rparr>)))))))"

section \<open>Metadata schemas\<close>

fun stream_exact_map_loop :: "(cbor \<times> cbor) list \<Rightarrow> string list \<Rightarrow> string \<Rightarrow> (bytes \<rightharpoonup> cbor)
    \<Rightarrow> (bytes \<rightharpoonup> cbor) result" where
  "stream_exact_map_loop [] expected context m = Ok m"
| "stream_exact_map_loop ((Text key, v) # entries) expected context m =
     (if key \<notin> set (map str_bytes expected) \<or> m key \<noteq> None then Err (InvalidMetadataSchema context)
      else stream_exact_map_loop entries expected context (m(key \<mapsto> v)))"
| "stream_exact_map_loop ((_, v) # entries) expected context m =
     Err (InvalidMetadataSchema ''metadata map key must be text'')"

fun stream_exact_map :: "cbor \<Rightarrow> string list \<Rightarrow> string \<Rightarrow> (bytes \<rightharpoonup> cbor) result" where
  "stream_exact_map (Map entries) expected context =
     (if length entries \<noteq> length expected then Err (InvalidMetadataSchema context)
      else stream_exact_map_loop entries expected context Map.empty)"
| "stream_exact_map _ expected context = Err (InvalidMetadataSchema context)"

definition stream_unsigned :: "cbor option \<Rightarrow> string \<Rightarrow> u64 result" where
  "stream_unsigned v context =
     (case v of Some (Unsigned n) \<Rightarrow> Ok n | _ \<Rightarrow> Err (InvalidMetadataSchema context))"

definition stream_unsigned_array :: "cbor option \<Rightarrow> string \<Rightarrow> u64 list result" where
  "stream_unsigned_array v context =
     (case v of
        Some (Array vs) \<Rightarrow>
          try_map (\<lambda>v. case v of Unsigned n \<Rightarrow> Ok n | _ \<Rightarrow> Err (InvalidMetadataSchema context)) vs
      | _ \<Rightarrow> Err (InvalidMetadataSchema context))"

definition stream_parse_directory_entry :: "cbor \<Rightarrow> directory_entry result" where
  "stream_parse_directory_entry v =
     and_then (stream_exact_map v [''id'', ''kind'', ''offset'', ''stored_len'', ''logical_len''] ''directory entry'') (\<lambda>m.
     and_then (stream_unsigned (m (str_bytes ''kind'')) ''directory kind'') (\<lambda>raw_kind.
     and_then (ok_or (InvalidMetadataSchema ''directory kind range'') (u16_try_from raw_kind)) (\<lambda>raw_kind.
     and_then (stream_unsigned (m (str_bytes ''id'')) ''directory id'') (\<lambda>id.
     and_then (record_kind_try_from raw_kind) (\<lambda>kind.
     and_then (stream_unsigned (m (str_bytes ''offset'')) ''directory offset'') (\<lambda>offset.
     and_then (stream_unsigned (m (str_bytes ''stored_len'')) ''directory stored length'') (\<lambda>stored_len.
     and_then (stream_unsigned (m (str_bytes ''logical_len'')) ''directory logical length'') (\<lambda>logical_len.
     Ok \<lparr>de_id = id, de_kind = kind, de_offset = offset, de_stored_len = stored_len,
         de_logical_len = logical_len\<rparr>))))))))"

definition stream_parse_directory :: "cbor \<Rightarrow> directory_entry list result" where
  "stream_parse_directory v =
     and_then (stream_exact_map v [''entries''] ''directory'') (\<lambda>m.
     and_then (ok_or (InvalidMetadataSchema ''directory entries'') (m (str_bytes ''entries''))) (\<lambda>entries.
     case entries of
       Array entries \<Rightarrow> try_map stream_parse_directory_entry entries
     | _ \<Rightarrow> Err (InvalidMetadataSchema ''directory entries must be an array'')))"

definition stream_parse_manifest :: "cbor \<Rightarrow> manifest result" where
  "stream_parse_manifest v =
     and_then (stream_exact_map v [''roots'', ''required'', ''optional''] ''manifest'') (\<lambda>m.
     and_then (stream_unsigned_array (m (str_bytes ''roots'')) ''manifest roots'') (\<lambda>rs.
     and_then (stream_unsigned_array (m (str_bytes ''required'')) ''manifest required capabilities'') (\<lambda>req.
     and_then (stream_unsigned_array (m (str_bytes ''optional'')) ''manifest optional capabilities'') (\<lambda>opt.
     let manifest = \<lparr>roots = rs, required_capabilities = req, optional_capabilities = opt\<rparr> in
     and_then (validate_shape manifest) (\<lambda>_. Ok manifest)))))"

section \<open>Bounded reads\<close>

definition check_file_budget :: "u64 \<Rightarrow> ('r sequential_reader, unit) op" where
  "check_file_budget len =
     op_bind (op_get sq_offset) (\<lambda>offset.
     op_bind (op_lift (ok_or (RangeOutOfBounds ''stream offset'') (checked_add offset len))) (\<lambda>stop.
     op_bind (op_get (max_file_bytes \<circ> sq_limits)) (\<lambda>limit.
     if stop > limit then op_fail (LimitExceeded ''file bytes'') else op_return ())))"

definition read_exact_into :: "'r read_impl \<Rightarrow> usize \<Rightarrow> string \<Rightarrow> bool \<Rightarrow> ('r sequential_reader, bytes) op" where
  "read_exact_into R n context hash =
     op_bind (op_lift (ok_or (LimitExceeded ''total bytes read'') (u64_try_from n))) (\<lambda>len.
     op_bind (check_file_budget len) (\<lambda>_.
     op_bind (op_get (st_bytes_read \<circ> sq_stats)) (\<lambda>total.
     op_bind (op_lift (ok_or (LimitExceeded ''total bytes read'') (checked_add total len))) (\<lambda>next_total.
     op_bind (op_get (max_total_bytes_read \<circ> sq_limits)) (\<lambda>limit.
     if next_total > limit then op_fail (LimitExceeded ''total bytes read'') else
     op_bind (\<lambda>r. case rd_read_exact R (sq_inner r) n of
                (Inl e, i) \<Rightarrow> (Inl (if e = UnexpectedEof then Truncated context else Io context), r\<lparr>sq_inner := i\<rparr>)
              | (Inr bs, i) \<Rightarrow> (Inr bs, r\<lparr>sq_inner := i\<rparr>)) (\<lambda>bs.
     op_bind (op_get sq_offset) (\<lambda>offset.
     op_bind (op_lift (ok_or (RangeOutOfBounds context) (checked_add offset len))) (\<lambda>offset.
     op_bind (op_modify (\<lambda>r. r\<lparr>sq_offset := offset, sq_stats := (sq_stats r)\<lparr>st_bytes_read := next_total\<rparr>\<rparr>)) (\<lambda>_.
     op_bind (op_get (st_read_operations \<circ> sq_stats)) (\<lambda>operations.
     op_bind (op_lift (ok_or (LimitExceeded ''read operations'') (checked_add operations 1))) (\<lambda>operations.
     op_bind (op_modify (\<lambda>r. r\<lparr>sq_stats := (sq_stats r)\<lparr>st_read_operations := operations\<rparr>\<rparr>)) (\<lambda>_.
     if hash then
       op_bind (op_modify (\<lambda>r. r\<lparr>sq_hasher := sq_hasher r @ bs\<rparr>)) (\<lambda>_.
       op_bind (op_get (st_bytes_hashed \<circ> sq_stats)) (\<lambda>hashed.
       op_bind (op_lift (ok_or (LimitExceeded ''bytes hashed'') (checked_add hashed len))) (\<lambda>hashed.
       op_bind (op_modify (\<lambda>r. r\<lparr>sq_stats := (sq_stats r)\<lparr>st_bytes_hashed := hashed\<rparr>\<rparr>)) (\<lambda>_.
       op_return bs))))
     else op_return bs))))))))))))"

definition read_exact_array :: "'r read_impl \<Rightarrow> usize \<Rightarrow> string \<Rightarrow> bool \<Rightarrow> ('r sequential_reader, bytes) op" where
  "read_exact_array R n context hash = read_exact_into R n context hash"

text \<open>The loop of \<open>ensure_exact_end\<close> ends because every round counts a read operation.\<close>

lemma operation_progress:
  fixes n :: u64
  assumes "checked_add n 1 = Some m"
  shows "2 ^ 64 - unat m < 2 ^ 64 - unat n"
proof -
  have "unat m = unat n + 1" "unat m < 2 ^ 64"
    using assms unat_lt2p [of m] by (simp_all add: checked_add_Some_iff)
  then show ?thesis by linarith
qed

function ensure_exact_end :: "'r read_impl \<Rightarrow> ('r sequential_reader, unit) op" where
  "ensure_exact_end R r =
     (case checked_add (st_read_operations (sq_stats r)) 1 of
        None \<Rightarrow> (Inl (LimitExceeded ''read operations''), r)
      | Some operations \<Rightarrow>
        let r = r\<lparr>sq_stats := (sq_stats r)\<lparr>st_read_operations := operations\<rparr>\<rparr> in
        (case rd_read R (sq_inner r) 1 of
           (Inr [], i) \<Rightarrow> (Inr (), r\<lparr>sq_inner := i\<rparr>)
         | (Inr (_ # _), i) \<Rightarrow>
           let r = r\<lparr>sq_inner := i\<rparr> in
           (case checked_add (st_bytes_read (sq_stats r)) 1 of
              None \<Rightarrow> (Inl (LimitExceeded ''total bytes read''), r)
            | Some n \<Rightarrow> (Inl (InvalidRecordOrder ''trailing bytes after footer''),
                r\<lparr>sq_stats := (sq_stats r)\<lparr>st_bytes_read := n\<rparr>\<rparr>))
         | (Inl Interrupted, i) \<Rightarrow> ensure_exact_end R (r\<lparr>sq_inner := i\<rparr>)
         | (Inl _, i) \<Rightarrow> (Inl (Io ''exact-end check''), r\<lparr>sq_inner := i\<rparr>)))"
  by pat_completeness auto
termination
  by (relation "measure (\<lambda>(R, r). 2 ^ 64 - unat (st_read_operations (sq_stats r)))")
    (auto simp: operation_progress [simplified])

declare ensure_exact_end.simps [simp del]

section \<open>Events\<close>

definition read_header :: "'r read_impl \<Rightarrow> ('r sequential_reader, stream_event) op" where
  "read_header R =
     op_bind (read_exact_array R HEADER_LEN ''file header'' True) (\<lambda>bs.
     op_bind (op_lift (stream_validate_header bs)) (\<lambda>_.
     op_bind (op_modify (\<lambda>r. r\<lparr>sq_state := StRecordHeader\<rparr>)) (\<lambda>_.
     op_return (FileHeader EXPERIMENTAL_EPOCH))))"

text \<open>The metadata buffer of a record: the limits for manifests and directories, none for opaque records.\<close>

definition metadata_buffer :: "stream_record_header \<Rightarrow> ('r sequential_reader, bytes option) op" where
  "metadata_buffer header =
     (if sh_kind header = Opaque then op_return None else
      op_bind (op_get sq_limits) (\<lambda>lim.
      if sh_stored_len header > max_metadata_bytes lim then op_fail (LimitExceeded ''record metadata bytes'') else
      if sh_stored_len header > max_allocation_bytes lim then op_fail (LimitExceeded ''single allocation bytes'') else
      op_bind (op_modify (\<lambda>r. r\<lparr>sq_stats := (sq_stats r)\<lparr>st_largest_allocation :=
        max (st_largest_allocation (sq_stats r)) (sh_stored_len header)\<rparr>\<rparr>)) (\<lambda>_.
      op_return (Some []))))"

definition count_record :: "('r sequential_reader, unit) op" where
  "count_record =
     op_bind (op_get sq_record_count) (\<lambda>count.
     op_bind (op_lift (ok_or (LimitExceeded ''record count'') (checked_add count 1))) (\<lambda>count.
     op_bind (op_modify (\<lambda>r. r\<lparr>sq_record_count := count\<rparr>)) (\<lambda>_.
     op_bind (op_get (max_records \<circ> sq_limits)) (\<lambda>limit.
     if count > limit then op_fail (LimitExceeded ''record count'') else op_return ()))))"

definition claim_identifier :: "stream_record_header \<Rightarrow> ('r sequential_reader, unit) op" where
  "claim_identifier header =
     op_bind (op_get sq_identifiers) (\<lambda>ids.
     if sh_kind header = Directory then
       (if sh_object_id header \<noteq> 0 then op_fail (InvalidRecordOrder ''directory identifier must be zero'') else op_return ())
     else if sh_object_id header = 0 then op_fail (InvalidRecordOrder ''non-directory identifier is zero'')
     else if sh_object_id header \<in> ids then op_fail (DuplicateObjectId (sh_object_id header))
     else op_modify (\<lambda>r. r\<lparr>sq_identifiers := insert (sh_object_id header) ids\<rparr>))"

definition push_inventory :: "stream_record \<Rightarrow> 'r sequential_reader \<Rightarrow> 'r sequential_reader" where
  "push_inventory record r =
     (if sre_kind record \<noteq> Directory
      then r\<lparr>sq_inventory := sq_inventory r @ [\<lparr>de_id = sre_object_id record, de_kind = sre_kind record,
        de_offset = sre_offset record, de_stored_len = sre_stored_len record, de_logical_len = sre_logical_len record\<rparr>]\<rparr>
      else r)"

definition open_record :: "stream_record_header \<Rightarrow> u64 \<Rightarrow> ('r sequential_reader, stream_event) op" where
  "open_record header record_offset =
     op_bind (claim_identifier header) (\<lambda>_.
     op_bind (metadata_buffer header) (\<lambda>metadata.
     let record = \<lparr>sre_kind = sh_kind header, sre_object_id = sh_object_id header, sre_offset = record_offset,
           sre_stored_len = sh_stored_len header, sre_logical_len = sh_logical_len header\<rparr> in
     op_bind (op_modify (push_inventory record)) (\<lambda>_.
     op_bind (op_modify (\<lambda>r. r\<lparr>sq_active := Some \<lparr>ac_record = record, ac_remaining = sh_stored_len header, ac_metadata = metadata\<rparr>,
       sq_state := (if sh_stored_len header = 0 then StRecordEnd else StPayload)\<rparr>)) (\<lambda>_.
     op_return (RecordStart record)))))"

definition read_record_header :: "'r read_impl \<Rightarrow> ('r sequential_reader, stream_event) op" where
  "read_record_header R =
     op_bind (op_get sq_directory) (\<lambda>directory.
     if directory \<noteq> None then op_fail (InvalidRecordOrder ''record follows directory'') else
     op_bind count_record (\<lambda>_.
     op_bind (op_get sq_offset) (\<lambda>record_offset.
     op_bind (read_exact_array R RECORD_HEADER_LEN ''record header'' True) (\<lambda>bs.
     op_bind (op_get sq_limits) (\<lambda>lim.
     op_bind (op_lift (stream_parse_record_header bs record_offset lim)) (\<lambda>header.
     open_record header record_offset))))))"

definition finish_record :: "('r sequential_reader, stream_event) op" where
  "finish_record =
     op_bind (op_get sq_active) (\<lambda>taken.
     op_bind (op_modify (\<lambda>r. r\<lparr>sq_active := None\<rparr>)) (\<lambda>_.
     op_bind (op_lift (ok_or (InvalidRecordOrder ''missing active record'') taken)) (\<lambda>active.
     if ac_remaining active \<noteq> 0 then op_fail (InvalidLength ''unfinished record payload'') else
     op_bind (op_get sq_limits) (\<lambda>lim.
     op_bind
       (case sre_kind (ac_record active) of
          Opaque \<Rightarrow> op_return ()
        | Manifest \<Rightarrow>
          op_bind (op_lift (ok_or (InvalidMetadataSchema ''missing manifest payload'') (ac_metadata active))) (\<lambda>metadata.
          op_bind (op_lift (decode_canonical metadata lim)) (\<lambda>v.
          op_bind (op_lift (stream_parse_manifest v)) (\<lambda>manifest.
          op_modify (\<lambda>r. r\<lparr>sq_manifests := (sq_manifests r)(sre_object_id (ac_record active) \<mapsto> manifest)\<rparr>))))
        | Directory \<Rightarrow>
          op_bind (op_lift (ok_or (InvalidMetadataSchema ''missing directory payload'') (ac_metadata active))) (\<lambda>metadata.
          op_bind (op_lift (decode_canonical metadata lim)) (\<lambda>v.
          op_bind (op_lift (stream_parse_directory v)) (\<lambda>entries.
          op_bind (op_get sq_inventory) (\<lambda>inventory.
          if entries \<noteq> inventory then op_fail (DirectoryMismatch ''entries do not match streamed records'') else
          op_bind (op_lift (ok_or (RangeOutOfBounds ''directory record'')
            (checked_add (of_nat RECORD_HEADER_LEN) (sre_stored_len (ac_record active))))) (\<lambda>record_len.
          op_modify (\<lambda>r. r\<lparr>sq_directory := Some \<lparr>ds_offset = sre_offset (ac_record active), ds_len = record_len\<rparr>\<rparr>))))))) (\<lambda>_.
     op_bind (op_modify (\<lambda>r. r\<lparr>sq_state := (if sre_kind (ac_record active) = Directory then StFooter else StRecordHeader)\<rparr>)) (\<lambda>_.
     op_return (RecordEnd (sre_kind (ac_record active)) (sre_object_id (ac_record active)))))))))"

text \<open>The length of the next chunk, and what follows the read of its bytes.\<close>

definition chunk_length :: "active_record \<Rightarrow> limits \<Rightarrow> u64 \<Rightarrow> u64 result" where
  "chunk_length active lim logical_bytes =
     (let chunk_limit = min (max_stream_chunk_bytes lim) (max_allocation_bytes lim) in
      if chunk_limit = 0 then Err (LimitExceeded ''stream chunk bytes'') else
      and_then (ok_or (LimitExceeded ''logical decoded bytes'') (checked_sub (max_logical_decoded_bytes lim) logical_bytes)) (\<lambda>logical_remaining.
      if logical_remaining = 0 then Err (LimitExceeded ''logical decoded bytes'') else
      Ok (min (min (ac_remaining active) chunk_limit) logical_remaining)))"

definition consume_chunk :: "active_record \<Rightarrow> u64 \<Rightarrow> bytes \<Rightarrow> ('r sequential_reader, stream_event) op" where
  "consume_chunk active chunk_len bs =
     op_bind (op_lift (ok_or (InvalidLength ''record payload'') (checked_sub (ac_remaining active) chunk_len))) (\<lambda>remaining.
     let active = active\<lparr>ac_remaining := remaining, ac_metadata := map_option (\<lambda>m. m @ bs) (ac_metadata active)\<rparr> in
     op_bind (op_modify (\<lambda>r. r\<lparr>sq_active := Some active\<rparr>)) (\<lambda>_.
     op_bind (op_get (st_logical_bytes \<circ> sq_stats)) (\<lambda>logical.
     op_bind (op_lift (ok_or (LimitExceeded ''logical decoded bytes'') (checked_add logical chunk_len))) (\<lambda>logical.
     op_bind (op_modify (\<lambda>r. r\<lparr>sq_stats := (sq_stats r)\<lparr>st_logical_bytes := logical\<rparr>\<rparr>)) (\<lambda>_.
     op_bind (op_get (max_logical_decoded_bytes \<circ> sq_limits)) (\<lambda>limit.
     if logical > limit then op_fail (LimitExceeded ''logical decoded bytes'') else
     op_bind (op_get (st_payload_chunks \<circ> sq_stats)) (\<lambda>chunks.
     op_bind (op_lift (ok_or (LimitExceeded ''payload chunks'') (checked_add chunks 1))) (\<lambda>chunks.
     op_bind (op_modify (\<lambda>r. r\<lparr>sq_stats := (sq_stats r)\<lparr>st_payload_chunks := chunks\<rparr>,
       sq_state := (if remaining = 0 then StRecordEnd else sq_state r)\<rparr>)) (\<lambda>_.
     op_return (PayloadChunk (sre_kind (ac_record active)) (sre_object_id (ac_record active)) bs remaining))))))))))"

definition read_payload_event :: "'r read_impl \<Rightarrow> ('r sequential_reader, stream_event) op" where
  "read_payload_event R =
     op_bind (op_get sq_active) (\<lambda>active.
     op_bind (op_lift (ok_or (InvalidRecordOrder ''missing active record'') active)) (\<lambda>active.
     if ac_remaining active = 0 then
       op_bind (op_modify (\<lambda>r. r\<lparr>sq_state := StRecordEnd\<rparr>)) (\<lambda>_. finish_record)
     else
     op_bind (op_get sq_limits) (\<lambda>lim.
     op_bind (op_get (st_logical_bytes \<circ> sq_stats)) (\<lambda>logical_bytes.
     op_bind (op_lift (chunk_length active lim logical_bytes)) (\<lambda>chunk_len.
     op_bind (op_modify (\<lambda>r. r\<lparr>sq_stats := (sq_stats r)\<lparr>st_largest_allocation :=
       max (st_largest_allocation (sq_stats r)) chunk_len\<rparr>\<rparr>)) (\<lambda>_.
     op_bind (read_exact_into R (unat chunk_len) ''record payload'' True) (\<lambda>bs.
     consume_chunk active chunk_len bs)))))))"

definition read_footer :: "(bytes \<Rightarrow> bytes) \<Rightarrow> 'r read_impl \<Rightarrow> ('r sequential_reader, stream_event) op" where
  "read_footer sha R =
     op_bind (read_exact_array R FOOTER_LEN ''footer'' False) (\<lambda>footer_bytes.
     op_bind (op_lift (stream_parse_footer footer_bytes)) (\<lambda>footer.
     op_bind (op_get sq_directory) (\<lambda>directory.
     op_bind (op_lift (ok_or (InvalidRecordOrder ''missing directory record'') directory)) (\<lambda>directory.
     if ft_directory_offset footer \<noteq> ds_offset directory \<or> ft_directory_len footer \<noteq> ds_len directory
     then op_fail (DirectoryMismatch ''footer location'') else
     op_bind (op_get sq_record_count) (\<lambda>count.
     if ft_record_count footer \<noteq> count then op_fail (InvalidLength ''footer record count'') else
     op_bind (op_get sq_hasher) (\<lambda>hashed.
     if sha hashed \<noteq> ft_digest footer then op_fail DigestMismatch else
     op_bind (op_get (\<lambda>r. sq_manifests r (ft_manifest_id footer))) (\<lambda>manifest.
     op_bind (op_lift (ok_or (MissingManifest (ft_manifest_id footer)) manifest)) (\<lambda>manifest.
     op_bind (op_get sq_inventory) (\<lambda>inventory.
     let available = set (map de_id inventory) in
     if list_ex (\<lambda>root. root \<notin> available) (roots manifest)
     then op_fail (InvalidMetadataSchema ''manifest root does not exist'') else
     op_bind (ensure_exact_end R) (\<lambda>_.
     op_bind (op_modify (\<lambda>r. r\<lparr>sq_state := StDone\<rparr>)) (\<lambda>_.
     op_bind (op_get sq_stats) (\<lambda>stats.
     op_return (Commit \<lparr>sc_manifest_id = ft_manifest_id footer, sc_record_count = ft_record_count footer,
       sc_roots = roots manifest, sc_unsupported_required_capabilities = required_capabilities manifest,
       sc_integrity = Verified, sc_stats = stats\<rparr>)))))))))))))"

text \<open>The match on the state, with \<open>inspect_err\<close> marking the reader failed.\<close>

definition state_event :: "(bytes \<Rightarrow> bytes) \<Rightarrow> 'r read_impl \<Rightarrow> ('r sequential_reader, stream_event option) op" where
  "state_event sha R r =
     (case sq_state r of
        StHeader \<Rightarrow> op_bind (read_header R) (op_return \<circ> Some) r
      | StRecordHeader \<Rightarrow> op_bind (read_record_header R) (op_return \<circ> Some) r
      | StPayload \<Rightarrow> op_bind (read_payload_event R) (op_return \<circ> Some) r
      | StRecordEnd \<Rightarrow> op_bind finish_record (op_return \<circ> Some) r
      | StFooter \<Rightarrow> op_bind (read_footer sha R) (op_return \<circ> Some) r
      | StDone \<Rightarrow> (Inr None, r)
      | StFailed \<Rightarrow> (Inl (InvalidRecordOrder ''reader used after failure''), r))"

definition next_event :: "(bytes \<Rightarrow> bytes) \<Rightarrow> 'r read_impl \<Rightarrow> ('r sequential_reader, stream_event option) op" where
  "next_event sha R r =
     (case state_event sha R r of
        (Inl e, r') \<Rightarrow> (Inl e, r'\<lparr>sq_state := StFailed\<rparr>)
      | (Inr x, r') \<Rightarrow> (Inr x, r'))"

text \<open>\<open>Iterator::next\<close>.\<close>

definition iterator_next :: "(bytes \<Rightarrow> bytes) \<Rightarrow> 'r read_impl \<Rightarrow> 'r sequential_reader
    \<Rightarrow> stream_event result option \<times> 'r sequential_reader" where
  "iterator_next sha R r =
     (case next_event sha R r of
        (Inr (Some event), r') \<Rightarrow> (Some (Inr event), r')
      | (Inr None, r') \<Rightarrow> (None, r')
      | (Inl e, r') \<Rightarrow> (Some (Inl e), r'\<lparr>sq_state := StDone\<rparr>))"

end
