(* ===== verification/Ucof_Stream_Sound.thy ===== *)
theory Ucof_Stream_Sound
  imports Ucof_Stream Ucof_Source_Sound
begin

text \<open>
  What the sequential reader (\<open>stream.rs\<close>) establishes: its state always describes the bytes it has
  taken from the inner reader, the events it emits deliver the records of the file in order, and a
  commit event means that the whole input was a file of the layout with a matching digest.
\<close>

section \<open>The private parsers agree with those of the source readers\<close>

lemma stream_exact_map_loop_eq: "stream_exact_map_loop es ex c m = exact_map_loop es ex c m"
  by (induction es ex c m rule: stream_exact_map_loop.induct) (auto simp: fun_upd_def)

lemma stream_exact_map_eq: "stream_exact_map v ex c = exact_map v ex c"
  by (cases v) (simp_all add: exact_map_def stream_exact_map_loop_eq)

lemma stream_parse_manifest_eq: "stream_parse_manifest = parse_manifest"
  by (rule ext) (simp add: stream_parse_manifest_def parse_manifest_def stream_exact_map_eq
      stream_unsigned_array_def source_unsigned_array_def [symmetric] source_unsigned_array_eq)

lemma stream_parse_directory_eq: "stream_parse_directory = parse_directory"
proof -
  have "stream_parse_directory_entry = parse_directory_entry"
    by (rule ext) (simp add: stream_parse_directory_entry_def parse_directory_entry_def stream_exact_map_eq
        stream_unsigned_def source_unsigned_def [symmetric] source_unsigned_eq)
  then show ?thesis unfolding stream_parse_directory_def parse_directory_def stream_exact_map_eq by simp
qed

lemma stream_validate_header_Ok_iff:
  assumes "length bs = 32"
  shows "stream_validate_header bs = Inr u \<longleftrightarrow> bs = file_header"
proof -
  have "stream_validate_header bs = source_validate_header (take 32 bs)"
    using assms by (simp add: stream_validate_header_def source_validate_header_def)
  then show ?thesis
    using assms validate_header_Ok_iff [of bs] source_validate_header_eq [of bs] by simp
qed

lemma stream_record_header_Ok_iff:
  assumes "length h = 40"
  shows "stream_parse_record_header h offset lim = Inr rh \<longleftrightarrow>
    h = record_header (sh_kind rh) (sh_object_id rh) (sh_stored_len rh) \<and>
    sh_stored_len rh \<le> max_payload_bytes lim \<and> sh_logical_len rh = sh_stored_len rh"
proof -
  let ?rh = "\<lparr>rh_kind = sh_kind rh, rh_object_id = sh_object_id rh, rh_stored_len = sh_stored_len rh,
    rh_logical_len = sh_logical_len rh, rh_payload_offset = 40\<rparr>"
  have "stream_parse_record_header h offset lim = Inr rh \<longleftrightarrow> source_parse_record_header h 0 lim = Inr ?rh"
    by (cases rh) (auto simp: stream_parse_record_header_def source_parse_record_header_def result_simps checked_add_def split: if_splits)
  then show ?thesis using source_record_header_Ok_iff [OF assms, of 0 lim ?rh] by (simp add: checked_add_def)
qed

lemma stream_parse_footer_Ok_iff:
  assumes "length bs = 80"
  shows "stream_parse_footer bs = Inr ft \<longleftrightarrow>
    bs = footer_image (ft_directory_offset ft) (ft_directory_len ft) (ft_manifest_id ft) (ft_record_count ft) (ft_digest ft)"
proof -
  have "stream_parse_footer bs = validate_parse_footer (take 80 (drop 0 bs))"
    using assms by (simp add: stream_parse_footer_def validate_parse_footer_def)
  then show ?thesis
    using assms parse_footer_Ok_iff [of bs 0 ft] validate_parse_footer_eq [of bs 0] by simp
qed

lemmas stream_parser_simps = stream_parse_manifest_eq stream_parse_directory_eq stream_validate_header_Ok_iff
  stream_record_header_Ok_iff stream_parse_footer_Ok_iff

section \<open>Sequential input\<close>

text \<open>
  The contract of \<open>std::io::Read\<close>, where \<open>rest\<close> gives the bytes a reader has still to deliver:
  \<open>read_exact\<close> that succeeds fills the buffer with the next bytes; \<open>read\<close> delivers a prefix of the rest
  that fits, and nothing only at the end of the input; a failed \<open>read\<close> consumed nothing.
\<close>

locale byte_reader =
  fixes R :: "'r read_impl" and rest :: "'r \<Rightarrow> bytes"
  assumes read_exact_takes: "rd_read_exact R s n = (Inr bs, s') \<Longrightarrow> length bs = n \<and> rest s = bs @ rest s'"
    and read_takes: "rd_read R s n = (Inr bs, s') \<Longrightarrow> length bs \<le> n \<and> rest s = bs @ rest s'"
    and read_end: "rd_read R s n = (Inr [], s') \<Longrightarrow> 0 < n \<Longrightarrow> rest s = []"
    and read_fails: "rd_read R s n = (Inl e, s') \<Longrightarrow> rest s' = rest s"

text \<open>\<open>&[u8]\<close> as a reader.\<close>

definition slice_read :: "bytes \<Rightarrow> usize \<Rightarrow> bytes io_result \<times> bytes" where
  "slice_read s n = (Inr (take n s), drop n s)"

definition slice_read_exact :: "bytes \<Rightarrow> usize \<Rightarrow> bytes io_result \<times> bytes" where
  "slice_read_exact s n = (if n \<le> length s then (Inr (take n s), drop n s) else (Inl UnexpectedEof, []))"

definition slice_reader :: "bytes read_impl" where
  "slice_reader = \<lparr>rd_read = slice_read, rd_read_exact = slice_read_exact\<rparr>"

interpretation slice_in: byte_reader slice_reader "\<lambda>s. s"
  by unfold_locales (auto simp: slice_reader_def slice_read_def slice_read_exact_def min_def split: if_splits)

lemma read_exact_into_Ok:
  assumes "read_exact_into R n c h r = (Inr bs, r')"
  shows "\<exists>i. rd_read_exact R (sq_inner r) n = (Inr bs, i) \<and> n < 2 ^ 64 \<and>
    unat (sq_offset r) + n \<le> unat (max_file_bytes (sq_limits r)) \<and>
    unat (st_bytes_read (sq_stats r)) + n \<le> unat (max_total_bytes_read (sq_limits r)) \<and>
    r' = r\<lparr>sq_inner := i, sq_offset := sq_offset r + of_nat n, sq_hasher := sq_hasher r @ (if h then bs else []),
      sq_stats := (sq_stats r)\<lparr>st_read_operations := st_read_operations (sq_stats r) + 1,
        st_bytes_read := st_bytes_read (sq_stats r) + of_nat n,
        st_bytes_hashed := st_bytes_hashed (sq_stats r) + (if h then of_nat n else 0)\<rparr>\<rparr>"
proof -
  from assms have n: "n < 2 ^ 64"
    by (auto simp: read_exact_into_def op_simps result_simps u64_try_from_def split: if_splits)
  with assms show ?thesis
    by (cases h; cases r; cases "sq_stats r") (auto simp: read_exact_into_def op_simps result_simps check_file_budget_def checked_add_def
       word_less_nat_alt unat_add_no_overflow not_less split: if_splits prod.splits sum.splits)
qed

section \<open>Runs and their events\<close>

text \<open>A run of the reader: the events returned by successive calls of \<open>next_event\<close>.\<close>

inductive streams :: "(bytes \<Rightarrow> bytes) \<Rightarrow> 'r read_impl \<Rightarrow> 'r sequential_reader \<Rightarrow> stream_event list \<Rightarrow> 'r sequential_reader \<Rightarrow> bool"
  for sha R r where
  start: "streams sha R r [] r"
| event: "streams sha R r evs r' \<Longrightarrow> next_event sha R r' = (Inr (Some ev), r'') \<Longrightarrow> streams sha R r (evs @ [ev]) r''"

text \<open>The records a client reassembles from the events.\<close>

fun deliver :: "record_spec list \<Rightarrow> stream_event \<Rightarrow> record_spec list" where
  "deliver rs (RecordStart record) = rs @ [(sre_kind record, sre_object_id record, [])]"
| "deliver rs (PayloadChunk k oid bs rem) = butlast rs @ [(fst (last rs), spec_id (last rs), spec_payload (last rs) @ bs)]"
| "deliver rs _ = rs"

definition delivered :: "stream_event list \<Rightarrow> record_spec list" where
  "delivered evs = foldl deliver [] evs"

lemma delivered_simps [simp]:
  "delivered [] = []" "delivered (evs @ [ev]) = deliver (delivered evs) ev"
  by (simp_all add: delivered_def)

section \<open>The invariant of the reader\<close>

text \<open>Every manifest record of \<open>rs\<close> is decoded in \<open>M\<close>, and nothing else is.\<close>

definition manifests_of :: "limits \<Rightarrow> record_spec list \<Rightarrow> (u64 \<rightharpoonup> manifest) \<Rightarrow> bool" where
  "manifests_of lim rs M \<longleftrightarrow>
     (\<forall>i p. (Manifest, i, p) \<in> set rs \<longrightarrow> (\<exists>m. and_then (decode_canonical p lim) parse_manifest = Inr m \<and> M i = Some m)) \<and>
     (\<forall>i. M i \<noteq> None \<longrightarrow> (\<exists>p. (Manifest, i, p) \<in> set rs))"

text \<open>The records \<open>rs\<close> have been read completely.\<close>

definition past_records :: "limits \<Rightarrow> record_spec list \<Rightarrow> 'r sequential_reader \<Rightarrow> bool" where
  "past_records lim rs r \<longleftrightarrow>
     sq_limits r = lim \<and> ids_ok {} rs \<and> Directory \<notin> fst ` set rs \<and> sizes_ok lim rs \<and> manifests_of lim rs (sq_manifests r)"

definition at_boundary :: "limits \<Rightarrow> record_spec list \<Rightarrow> 'r sequential_reader \<Rightarrow> bool" where
  "at_boundary lim rs r \<longleftrightarrow>
     past_records lim rs r \<and> length rs \<le> unat (max_records lim) \<and> sq_record_count r = of_nat (length rs) \<and>
     sq_hasher r = body_image rs \<and> sq_inventory r = layout 32 rs \<and> sq_identifiers r = spec_id ` set rs \<and> sq_directory r = None"

text \<open>After the records \<open>rs\<close>, a record with header \<open>(k, oid, len)\<close> of which \<open>q\<close> has been read.\<close>

definition in_record :: "limits \<Rightarrow> record_spec list \<Rightarrow> record_spec \<Rightarrow> 'r sequential_reader \<Rightarrow> bool" where
  "in_record lim rs rec r \<longleftrightarrow>
     (case rec of (k, oid, q) \<Rightarrow> \<exists>len rem.
       past_records lim rs r \<and> length rs < unat (max_records lim) \<and> sq_record_count r = of_nat (length rs + 1) \<and>
       unat len = length q + unat rem \<and> len \<le> max_payload_bytes lim \<and> ids_ok {} (rs @ [(k, oid, q)]) \<and>
       sq_hasher r = body_image rs @ record_header k oid len @ q \<and>
       sq_active r = Some \<lparr>ac_record = \<lparr>sre_kind = k, sre_object_id = oid, sre_offset = of_nat (length (body_image rs)),
         sre_stored_len = len, sre_logical_len = len\<rparr>, ac_remaining = rem,
         ac_metadata = (if k = Opaque then None else Some q)\<rparr> \<and>
       sq_inventory r = layout 32 rs @ (if k = Directory then [] else
         [\<lparr>de_id = oid, de_kind = k, de_offset = of_nat (length (body_image rs)), de_stored_len = len, de_logical_len = len\<rparr>]) \<and>
       sq_identifiers r = spec_id ` set (rs @ (if k = Directory then [] else [rec])) \<and> sq_directory r = None)"

text \<open>The directory record has been read.\<close>

definition at_footer :: "limits \<Rightarrow> record_spec list \<Rightarrow> bytes \<Rightarrow> 'r sequential_reader \<Rightarrow> bool" where
  "at_footer lim rs d r \<longleftrightarrow>
     past_records lim rs r \<and> length rs < unat (max_records lim) \<and> sq_record_count r = of_nat (length rs + 1) \<and>
     sizes_ok lim (rs @ [(Directory, 0, d)]) \<and> and_then (decode_canonical d lim) parse_directory = Inr (layout 32 rs) \<and>
     sq_hasher r = body_image (rs @ [(Directory, 0, d)]) \<and> sq_inventory r = layout 32 rs \<and>
     sq_directory r = Some \<lparr>ds_offset = of_nat (length (body_image rs)), ds_len = of_nat (40 + length d)\<rparr>"

text \<open>The whole input \<open>X\<close> is a file, and the commit describes it.\<close>

definition committed :: "(bytes \<Rightarrow> bytes) \<Rightarrow> limits \<Rightarrow> bytes \<Rightarrow> record_spec list \<Rightarrow> bytes \<Rightarrow> stream_commit \<Rightarrow> bool" where
  "committed sha lim X rs d c \<longleftrightarrow>
     X = file_image sha rs d (sc_manifest_id c) \<and> length X \<le> unat (max_file_bytes lim) \<and>
     length (sha (body_image (rs @ [(Directory, 0, d)]))) = 32 \<and> Directory \<notin> fst ` set rs \<and>
     unat (sc_record_count c) = length rs + 1 \<and> sc_integrity c = Verified \<and>
     (\<forall>i p. (Manifest, i, p) \<in> set rs \<longrightarrow> (\<exists>m. and_then (decode_canonical p lim) parse_manifest = Inr m)) \<and>
     (\<exists>m. structured lim rs d (sc_manifest_id c) m \<and> sc_roots c = roots m \<and>
        sc_unsupported_required_capabilities c = required_capabilities m)"

definition stream_phase :: "(bytes \<Rightarrow> bytes) \<Rightarrow> limits \<Rightarrow> bytes \<Rightarrow> stream_event list \<Rightarrow> 'r sequential_reader \<Rightarrow> bool" where
  "stream_phase sha lim X evs r \<longleftrightarrow>
     (case sq_state r of
        StHeader \<Rightarrow> evs = [] \<and> (\<exists>inner. r = sequential_new inner lim)
      | StRecordHeader \<Rightarrow> at_boundary lim (delivered evs) r
      | StPayload \<Rightarrow> \<exists>rs rec. delivered evs = rs @ [rec] \<and> in_record lim rs rec r \<and> ac_remaining (the (sq_active r)) \<noteq> 0
      | StRecordEnd \<Rightarrow> \<exists>rs rec. delivered evs = rs @ [rec] \<and> in_record lim rs rec r \<and> ac_remaining (the (sq_active r)) = 0
      | StFooter \<Rightarrow> \<exists>rs d. delivered evs = rs @ [(Directory, 0, d)] \<and> at_footer lim rs d r
      | StDone \<Rightarrow> \<exists>rs d evs' c. evs = evs' @ [Commit c] \<and> delivered evs = rs @ [(Directory, 0, d)] \<and> committed sha lim X rs d c
      | StFailed \<Rightarrow> False)"

text \<open>The hashed bytes are all that has been taken from the input, until the footer is read.\<close>

definition consumes :: "('r \<Rightarrow> bytes) \<Rightarrow> bytes \<Rightarrow> 'r sequential_reader \<Rightarrow> bool" where
  "consumes rest X r \<longleftrightarrow>
     (sq_state r \<notin> {StDone, StFailed} \<longrightarrow> X = sq_hasher r @ rest (sq_inner r) \<and> unat (sq_offset r) = length (sq_hasher r))"

definition stream_inv :: "(bytes \<Rightarrow> bytes) \<Rightarrow> ('r \<Rightarrow> bytes) \<Rightarrow> limits \<Rightarrow> bytes \<Rightarrow> stream_event list \<Rightarrow> 'r sequential_reader \<Rightarrow> bool" where
  "stream_inv sha rest lim X evs r \<longleftrightarrow> consumes rest X r \<and> stream_phase sha lim X evs r"

lemma stream_inv_new: "stream_inv sha rest lim (rest inner) [] (sequential_new inner lim)"
  by (auto simp: stream_inv_def consumes_def stream_phase_def sequential_new_def)

text \<open>What the operations do when they succeed.\<close>

lemma count_record_Ok:
  "count_record r = (Inr u, r') \<longleftrightarrow>
     unat (sq_record_count r) < unat (max_records (sq_limits r)) \<and> r' = r\<lparr>sq_record_count := sq_record_count r + 1\<rparr>"
proof -
  have "unat (max_records (sq_limits r)) < 18446744073709551616" by (rule unat_lt_64)
  then show ?thesis
    by (auto simp: count_record_def op_simps result_simps checked_add_def word_less_nat_alt unat_add_no_overflow
        simp del: unat_lt_64 split: if_splits)
qed

lemma claim_identifier_Ok:
  "claim_identifier rh r = (Inr u, r') \<longleftrightarrow>
     (if sh_kind rh = Directory then sh_object_id rh = 0 \<and> r' = r
      else sh_object_id rh \<noteq> 0 \<and> sh_object_id rh \<notin> sq_identifiers r \<and>
        r' = r\<lparr>sq_identifiers := insert (sh_object_id rh) (sq_identifiers r)\<rparr>)"
  by (auto simp: claim_identifier_def op_simps)

lemma metadata_buffer_Ok:
  "metadata_buffer rh r = (Inr m, r') \<longleftrightarrow>
     (if sh_kind rh = Opaque then m = None \<and> r' = r
      else sh_stored_len rh \<le> max_metadata_bytes (sq_limits r) \<and> sh_stored_len rh \<le> max_allocation_bytes (sq_limits r) \<and>
        m = Some [] \<and> r' = r\<lparr>sq_stats := (sq_stats r)\<lparr>st_largest_allocation :=
          max (st_largest_allocation (sq_stats r)) (sh_stored_len rh)\<rparr>\<rparr>)"
  by (auto simp: metadata_buffer_def op_simps)

definition start_record :: "stream_record_header \<Rightarrow> u64 \<Rightarrow> 'r sequential_reader \<Rightarrow> 'r sequential_reader" where
  "start_record rh offset r = r\<lparr>
     sq_stats := (if sh_kind rh = Opaque then sq_stats r
       else (sq_stats r)\<lparr>st_largest_allocation := max (st_largest_allocation (sq_stats r)) (sh_stored_len rh)\<rparr>),
     sq_identifiers := (if sh_kind rh = Directory then sq_identifiers r else insert (sh_object_id rh) (sq_identifiers r)),
     sq_inventory := sq_inventory r @ (if sh_kind rh = Directory then [] else [\<lparr>de_id = sh_object_id rh, de_kind = sh_kind rh,
       de_offset = offset, de_stored_len = sh_stored_len rh, de_logical_len = sh_logical_len rh\<rparr>]),
     sq_active := Some \<lparr>ac_record = \<lparr>sre_kind = sh_kind rh, sre_object_id = sh_object_id rh, sre_offset = offset,
       sre_stored_len = sh_stored_len rh, sre_logical_len = sh_logical_len rh\<rparr>, ac_remaining = sh_stored_len rh,
       ac_metadata = (if sh_kind rh = Opaque then None else Some [])\<rparr>,
     sq_state := (if sh_stored_len rh = 0 then StRecordEnd else StPayload)\<rparr>"

lemma open_record_Ok:
  "open_record rh off r = (Inr ev, r') \<longleftrightarrow>
     (if sh_kind rh = Directory then sh_object_id rh = 0 else sh_object_id rh \<noteq> 0 \<and> sh_object_id rh \<notin> sq_identifiers r) \<and>
     (sh_kind rh \<noteq> Opaque \<longrightarrow> sh_stored_len rh \<le> max_metadata_bytes (sq_limits r) \<and> sh_stored_len rh \<le> max_allocation_bytes (sq_limits r)) \<and>
     ev = RecordStart \<lparr>sre_kind = sh_kind rh, sre_object_id = sh_object_id rh, sre_offset = off,
       sre_stored_len = sh_stored_len rh, sre_logical_len = sh_logical_len rh\<rparr> \<and> r' = start_record rh off r"
  by (cases "sh_kind rh"; cases r) (auto simp: open_record_def op_simps Let_def claim_identifier_Ok metadata_buffer_Ok start_record_def push_inventory_def)

lemma read_record_header_Ok:
  "read_record_header R r = (Inr ev, r') \<longleftrightarrow> (\<exists>bs r1 rh. sq_directory r = None \<and> unat (sq_record_count r) < unat (max_records (sq_limits r)) \<and>
     read_exact_into R 40 ''record header'' True (r\<lparr>sq_record_count := sq_record_count r + 1\<rparr>) = (Inr bs, r1) \<and>
     stream_parse_record_header bs (sq_offset r) (sq_limits r1) = Inr rh \<and> open_record rh (sq_offset r) r1 = (Inr ev, r'))"
  by (simp add: read_record_header_def op_simps count_record_Ok read_exact_array_def)

lemma ids_layout: "de_id ` set (layout n rs) = spec_id ` set rs"
  by (induction n rs rule: layout.induct) auto

lemma ids_ok_snoc:
  assumes "Directory \<notin> fst ` set rs"
  shows "ids_ok {} (rs @ [(k, oid, q)]) \<longleftrightarrow> ids_ok {} rs \<and> (if k = Directory then oid = 0 else oid \<noteq> 0 \<and> oid \<notin> spec_id ` set rs)"
proof -
  have "filter (\<lambda>r. fst r \<noteq> Directory) rs = rs" using assms by (force simp: filter_id_conv)
  then show ?thesis using assms by (auto simp: ids_ok_distinct)
qed

lemma in_record_finished:
  assumes "in_record lim rs (k, oid, q) r" and "ac_remaining (the (sq_active r)) = 0"
  shows "sq_active r = Some \<lparr>ac_record = \<lparr>sre_kind = k, sre_object_id = oid, sre_offset = of_nat (length (body_image rs)),
      sre_stored_len = of_nat (length q), sre_logical_len = of_nat (length q)\<rparr>, ac_remaining = 0,
      ac_metadata = (if k = Opaque then None else Some q)\<rparr>"
    "past_records lim rs r" "length rs < unat (max_records lim)" "sq_record_count r = of_nat (length rs + 1)"
    "length q \<le> unat (max_payload_bytes lim)" "sq_hasher r = body_image (rs @ [(k, oid, q)])" "ids_ok {} (rs @ [(k, oid, q)])"
    "sq_inventory r = layout 32 (rs @ (if k = Directory then [] else [(k, oid, q)]))"
    "sq_identifiers r = spec_id ` set (rs @ (if k = Directory then [] else [(k, oid, q)]))" "sq_directory r = None"
proof -
  from assms obtain len where i: "past_records lim rs r" "length rs < unat (max_records lim)" "sq_record_count r = of_nat (length rs + 1)"
    "unat len = length q" "len \<le> max_payload_bytes lim" "ids_ok {} (rs @ [(k, oid, q)])"
    "sq_hasher r = body_image rs @ record_header k oid len @ q"
    "sq_active r = Some \<lparr>ac_record = \<lparr>sre_kind = k, sre_object_id = oid, sre_offset = of_nat (length (body_image rs)),
         sre_stored_len = len, sre_logical_len = len\<rparr>, ac_remaining = 0, ac_metadata = (if k = Opaque then None else Some q)\<rparr>"
    "sq_inventory r = layout 32 rs @ (if k = Directory then [] else
         [\<lparr>de_id = oid, de_kind = k, de_offset = of_nat (length (body_image rs)), de_stored_len = len, de_logical_len = len\<rparr>])"
    "sq_identifiers r = spec_id ` set (rs @ (if k = Directory then [] else [(k, oid, q)]))" "sq_directory r = None"
    by (auto simp: in_record_def)
  from unat_eqD [OF i(4)] have len: "len = of_nat (length q)" "length q < 2 ^ 64" by auto
  show "past_records lim rs r" "length rs < unat (max_records lim)" "sq_record_count r = of_nat (length rs + 1)"
    "ids_ok {} (rs @ [(k, oid, q)])" "sq_directory r = None" "sq_identifiers r = spec_id ` set (rs @ (if k = Directory then [] else [(k, oid, q)]))"
    by (rule i)+
  show "length q \<le> unat (max_payload_bytes lim)" using i(4,5) by (simp add: word_le_nat_alt)
  show "sq_hasher r = body_image (rs @ [(k, oid, q)])" using i(7) len by (simp add: body_image_snoc)
  show "sq_inventory r = layout 32 (rs @ (if k = Directory then [] else [(k, oid, q)]))"
    using i(9) len by (simp add: layout_append body_image_def)
  show "sq_active r = Some \<lparr>ac_record = \<lparr>sre_kind = k, sre_object_id = oid, sre_offset = of_nat (length (body_image rs)),
      sre_stored_len = of_nat (length q), sre_logical_len = of_nat (length q)\<rparr>, ac_remaining = 0,
      ac_metadata = (if k = Opaque then None else Some q)\<rparr>" using i(8) len by simp
qed

lemma finish_record_Ok:
  assumes "finish_record r = (Inr ev, r')" and "sq_active r = Some a"
  shows "ac_remaining a = 0" "ev = RecordEnd (sre_kind (ac_record a)) (sre_object_id (ac_record a))"
    "sre_kind (ac_record a) = Opaque \<Longrightarrow> r' = r\<lparr>sq_active := None, sq_state := StRecordHeader\<rparr>"
    "sre_kind (ac_record a) = Manifest \<Longrightarrow> \<exists>p m. ac_metadata a = Some p \<and>
        and_then (decode_canonical p (sq_limits r)) parse_manifest = Inr m \<and>
        r' = r\<lparr>sq_active := None, sq_manifests := (sq_manifests r)(sre_object_id (ac_record a) \<mapsto> m), sq_state := StRecordHeader\<rparr>"
    "sre_kind (ac_record a) = Directory \<Longrightarrow> \<exists>d n. ac_metadata a = Some d \<and>
        and_then (decode_canonical d (sq_limits r)) parse_directory = Inr (sq_inventory r) \<and>
        checked_add 40 (sre_stored_len (ac_record a)) = Some n \<and>
        r' = r\<lparr>sq_active := None, sq_directory := Some \<lparr>ds_offset = sre_offset (ac_record a), ds_len = n\<rparr>, sq_state := StFooter\<rparr>"
  using assms
  by (cases "sre_kind (ac_record a)"; auto simp: finish_record_def op_simps result_simps stream_parser_simps split: if_splits)+

lemma chunk_length_Ok:
  "chunk_length a lim logical = Inr n \<longleftrightarrow> max_stream_chunk_bytes lim \<noteq> 0 \<and> max_allocation_bytes lim \<noteq> 0 \<and>
     logical < max_logical_decoded_bytes lim \<and>
     n = min (min (ac_remaining a) (min (max_stream_chunk_bytes lim) (max_allocation_bytes lim))) (max_logical_decoded_bytes lim - logical)"
  by (auto simp: chunk_length_def Let_def result_simps checked_sub_def min_word_eq_0 not_le order.strict_iff_order split: if_splits)

lemma chunk_length_bounds:
  assumes "chunk_length a lim logical = Inr n" and "ac_remaining a \<noteq> 0"
  shows "n \<noteq> 0" "n \<le> ac_remaining a" "n \<le> max_stream_chunk_bytes lim" "n \<le> max_allocation_bytes lim"
    "unat logical + unat n \<le> unat (max_logical_decoded_bytes lim)"
proof -
  note c = assms(1) [unfolded chunk_length_Ok]
  show "n \<noteq> 0" using c assms(2) by (auto simp: min_word_eq_0)
  show "n \<le> ac_remaining a" "n \<le> max_stream_chunk_bytes lim" "n \<le> max_allocation_bytes lim"
    using c by (simp_all add: min_le_iff_disj)
  have "n \<le> max_logical_decoded_bytes lim - logical" using c by simp
  then show "unat logical + unat n \<le> unat (max_logical_decoded_bytes lim)"
    using conjunct1 [OF conjunct2 [OF conjunct2 [OF c]]] by (simp add: word_le_nat_alt word_less_nat_alt unat_sub)
qed

lemma consume_chunk_Ok:
  "consume_chunk a n bs r = (Inr ev, r') \<longleftrightarrow> n \<le> ac_remaining a \<and>
     unat (st_logical_bytes (sq_stats r)) + unat n \<le> unat (max_logical_decoded_bytes (sq_limits r)) \<and>
     unat (st_payload_chunks (sq_stats r)) + 1 < 2 ^ 64 \<and>
     ev = PayloadChunk (sre_kind (ac_record a)) (sre_object_id (ac_record a)) bs (ac_remaining a - n) \<and>
     r' = r\<lparr>sq_active := Some (a\<lparr>ac_remaining := ac_remaining a - n, ac_metadata := map_option (\<lambda>m. m @ bs) (ac_metadata a)\<rparr>),
       sq_stats := (sq_stats r)\<lparr>st_logical_bytes := st_logical_bytes (sq_stats r) + n, st_payload_chunks := st_payload_chunks (sq_stats r) + 1\<rparr>,
       sq_state := (if ac_remaining a = n then StRecordEnd else sq_state r)\<rparr>"
proof -
  let ?l = "st_logical_bytes (sq_stats r)" and ?m = "max_logical_decoded_bytes (sq_limits r)"
  consider "n \<le> ac_remaining a" "unat ?l + unat n \<le> unat ?m" | "\<not> n \<le> ac_remaining a" | "\<not> unat ?l + unat n \<le> unat ?m" by blast
  then show ?thesis
  proof cases
    case 1
    then have "checked_add ?l n = Some (?l + n)" "\<not> ?m < ?l + n" using checked_add_within [of ?l n "?l + n" ?m] by auto
    then show ?thesis
      using 1 by (auto simp: consume_chunk_def op_simps result_simps Let_def checked_sub_def checked_add_def [where b = 1] split: if_splits)
  qed (use checked_add_within [of ?l n _ ?m] in \<open>auto simp: consume_chunk_def op_simps result_simps Let_def checked_sub_def split: if_splits\<close>)
qed

lemma read_payload_event_Ok:
  assumes "sq_active r = Some a" and "ac_remaining a \<noteq> 0"
  shows "read_payload_event R r = (Inr ev, r') \<longleftrightarrow> (\<exists>n bs r1. chunk_length a (sq_limits r) (st_logical_bytes (sq_stats r)) = Inr n \<and>
    read_exact_into R (unat n) ''record payload'' True
      (r\<lparr>sq_stats := (sq_stats r)\<lparr>st_largest_allocation := max (st_largest_allocation (sq_stats r)) n\<rparr>\<rparr>) = (Inr bs, r1) \<and>
    consume_chunk a n bs r1 = (Inr ev, r'))"
  using assms by (simp add: read_payload_event_def op_simps)

lemma ensure_exact_end_step [consumes 1, case_names ended again]:
  assumes "ensure_exact_end R r = (Inr u, r')"
  obtains (ended) ops i where "checked_add (st_read_operations (sq_stats r)) 1 = Some ops" "rd_read R (sq_inner r) 1 = (Inr [], i)"
      "r' = r\<lparr>sq_stats := (sq_stats r)\<lparr>st_read_operations := ops\<rparr>, sq_inner := i\<rparr>"
    | (again) ops i where "checked_add (st_read_operations (sq_stats r)) 1 = Some ops" "rd_read R (sq_inner r) 1 = (Inl Interrupted, i)"
      "ensure_exact_end R (r\<lparr>sq_stats := (sq_stats r)\<lparr>st_read_operations := ops\<rparr>, sq_inner := i\<rparr>) = (Inr u, r')"
proof -
  from assms obtain ops where ops: "checked_add (st_read_operations (sq_stats r)) 1 = Some ops"
    by (subst (asm) ensure_exact_end.simps) (auto split: option.splits)
  obtain res i where rd: "rd_read R (sq_inner r) 1 = (res, i)" by force
  let ?r = "r\<lparr>sq_stats := (sq_stats r)\<lparr>st_read_operations := ops\<rparr>, sq_inner := i\<rparr>"
  have "res = Inr [] \<and> r' = ?r \<or> res = Inl Interrupted \<and> ensure_exact_end R ?r = (Inr u, r')"
    using assms ops rd
    by (subst (asm) ensure_exact_end.simps) (auto simp: Let_def split: sum.splits list.splits io_error.splits option.splits)
  then show thesis using ended [OF ops] again [OF ops] rd by blast
qed

lemma ensure_exact_end_frame:
  "ensure_exact_end R r = (Inr u, r') \<Longrightarrow> \<exists>i n. r' = r\<lparr>sq_stats := (sq_stats r)\<lparr>st_read_operations := n\<rparr>, sq_inner := i\<rparr>"
proof (induction "2 ^ 64 - unat (st_read_operations (sq_stats r))" arbitrary: r rule: less_induct)
  case less
  from less.prems show ?case
  proof (cases rule: ensure_exact_end_step)
    case (ended ops i)
    then show ?thesis by auto
  next
    case (again ops i)
    from less.hyps [OF _ again(3)] operation_progress [OF again(1)] show ?thesis by auto
  qed
qed

lemma finish_record_frame:
  assumes "finish_record r = (Inr ev, r')"
  shows "sq_state r' = StRecordHeader \<or> sq_state r' = StFooter" "sq_offset r' = sq_offset r" "sq_limits r' = sq_limits r" "sq_stats r' = sq_stats r"
proof -
  from assms obtain a where a: "sq_active r = Some a" by (auto simp: finish_record_def op_simps result_simps)
  note fin = finish_record_Ok [OF assms a]
  have "(sq_state r' = StRecordHeader \<or> sq_state r' = StFooter) \<and> sq_offset r' = sq_offset r \<and> sq_limits r' = sq_limits r \<and> sq_stats r' = sq_stats r"
  proof (cases "sre_kind (ac_record a)")
    case Opaque
    then show ?thesis by (simp add: fin(3))
  next
    case Manifest
    from fin(4) [OF this] show ?thesis by (elim exE conjE) simp
  next
    case Directory
    from fin(5) [OF this] show ?thesis by (elim exE conjE) simp
  qed
  then show "sq_state r' = StRecordHeader \<or> sq_state r' = StFooter" "sq_offset r' = sq_offset r" "sq_limits r' = sq_limits r" "sq_stats r' = sq_stats r"
    by blast+
qed

context byte_reader
begin

lemma read_exact_into_consumes:
  assumes "read_exact_into R n c True r = (Inr bs, r')" and "X = sq_hasher r @ rest (sq_inner r)"
    and "unat (sq_offset r) = length (sq_hasher r)"
  shows "\<exists>i st. length bs = n \<and> r' = r\<lparr>sq_inner := i, sq_offset := sq_offset r + of_nat n, sq_hasher := sq_hasher r @ bs, sq_stats := st\<rparr> \<and>
    X = (sq_hasher r @ bs) @ rest i \<and> unat (sq_offset r + of_nat n) = length (sq_hasher r @ bs)"
proof -
  from read_exact_into_Ok [OF assms(1)] obtain i where i: "rd_read_exact R (sq_inner r) n = (Inr bs, i)" "n < 2 ^ 64"
    "unat (sq_offset r) + n \<le> unat (max_file_bytes (sq_limits r))"
    and r': "r' = r\<lparr>sq_inner := i, sq_offset := sq_offset r + of_nat n, sq_hasher := sq_hasher r @ bs,
      sq_stats := (sq_stats r)\<lparr>st_read_operations := st_read_operations (sq_stats r) + 1,
        st_bytes_read := st_bytes_read (sq_stats r) + of_nat n,
        st_bytes_hashed := st_bytes_hashed (sq_stats r) + of_nat n\<rparr>\<rparr>" by auto
  have "unat (sq_offset r + of_nat n) = unat (sq_offset r) + n"
    by (rule unat_add_of_nat [OF i(3)])
  then show ?thesis
    using read_exact_takes [OF i(1)] assms(2,3) r' by auto
qed

lemma read_header_inv:
  assumes "read_header R r = (Inr ev, r')" and "sq_state r = StHeader" and "stream_inv sha rest lim X evs r"
  shows "stream_inv sha rest lim X (evs @ [ev]) r'"
proof -
  from assms(2,3) obtain inner where r: "r = sequential_new inner lim" "evs = []"
    and X: "X = sq_hasher r @ rest (sq_inner r)" "unat (sq_offset r) = length (sq_hasher r)"
    by (auto simp: stream_inv_def stream_phase_def consumes_def)
  from assms(1) obtain bs r1 where bs: "read_exact_into R 32 ''file header'' True r = (Inr bs, r1)"
    "stream_validate_header bs = Inr ()" and r': "r' = r1\<lparr>sq_state := StRecordHeader\<rparr>" and ev: "ev = FileHeader EXPERIMENTAL_EPOCH"
    by (auto simp: read_header_def op_simps read_exact_array_def)
  from read_exact_into_consumes [OF bs(1) X] obtain i st where
    len: "length bs = 32" and r1: "r1 = r\<lparr>sq_inner := i, sq_offset := sq_offset r + of_nat 32, sq_hasher := sq_hasher r @ bs, sq_stats := st\<rparr>"
    and X1: "X = (sq_hasher r @ bs) @ rest i" "unat (sq_offset r + of_nat 32) = length (sq_hasher r @ bs)" by blast
  have "bs = file_header" using bs(2) len by (simp add: stream_validate_header_Ok_iff)
  then show ?thesis
    using X1 by (simp add: r' r1 r ev stream_inv_def consumes_def stream_phase_def at_boundary_def past_records_def manifests_of_def sequential_new_def delivered_def)
qed

lemma read_record_header_inv:
  assumes "read_record_header R r = (Inr ev, r')" and "sq_state r = StRecordHeader" and "stream_inv sha rest lim X evs r"
  shows "stream_inv sha rest lim X (evs @ [ev]) r'"
proof -
  define rs where "rs = delivered evs"
  let ?r0 = "r\<lparr>sq_record_count := sq_record_count r + 1\<rparr>"
  from assms(2,3) have b: "at_boundary lim rs r"
    and X: "X = sq_hasher ?r0 @ rest (sq_inner ?r0)" "unat (sq_offset ?r0) = length (sq_hasher ?r0)"
    by (auto simp: stream_inv_def stream_phase_def consumes_def rs_def)
  from assms(1) obtain bs r1 rh where cnt: "unat (sq_record_count r) < unat (max_records (sq_limits r))"
    and bs: "read_exact_into R 40 ''record header'' True ?r0 = (Inr bs, r1)"
    and rh: "stream_parse_record_header bs (sq_offset r) (sq_limits r1) = Inr rh"
    and op: "open_record rh (sq_offset r) r1 = (Inr ev, r')"
    by (auto simp: read_record_header_Ok)
  from read_exact_into_consumes [OF bs X] obtain i st where len: "length bs = 40"
    and r1: "r1 = ?r0\<lparr>sq_inner := i, sq_offset := sq_offset ?r0 + of_nat 40, sq_hasher := sq_hasher ?r0 @ bs, sq_stats := st\<rparr>"
    and X1: "X = (sq_hasher ?r0 @ bs) @ rest i" "unat (sq_offset ?r0 + of_nat 40) = length (sq_hasher ?r0 @ bs)" by blast
  from b have lim: "sq_limits r = lim" and n: "length rs \<le> unat (max_records lim)" by (simp_all add: at_boundary_def past_records_def)
  then have n': "length rs < unat (max_records lim)" using cnt b le_unat_64 [OF n] by (simp add: at_boundary_def)
  have hdr: "bs = record_header (sh_kind rh) (sh_object_id rh) (sh_stored_len rh)"
    "sh_stored_len rh \<le> max_payload_bytes lim" "sh_logical_len rh = sh_stored_len rh"
    using rh len by (simp_all add: stream_record_header_Ok_iff r1 lim)
  have off: "sq_offset r = of_nat (length (body_image rs))" using unat_eqD [OF X(2)] b by (simp add: at_boundary_def)
  note op' = op [unfolded open_record_Ok]
  have r': "r' = start_record rh (sq_offset r) r1" using op' by blast
  let ?rec = "(sh_kind rh, sh_object_id rh, [])"
  have "in_record lim rs ?rec r'"
    using b n' hdr op' ids_ok_snoc [of rs "sh_kind rh" "sh_object_id rh" "[]"]
    by (auto simp: in_record_def at_boundary_def past_records_def r' r1 start_record_def off)
  moreover have "delivered (evs @ [ev]) = rs @ [?rec]" using op' by (simp add: rs_def)
  moreover have "consumes rest X r'" using X1 by (auto simp: consumes_def r' r1 start_record_def)
  ultimately show ?thesis
    by (auto simp: stream_inv_def stream_phase_def r' start_record_def)
qed

lemma finish_record_inv:
  assumes "finish_record r = (Inr ev, r')" and "sq_state r = StRecordEnd" and "stream_inv sha rest lim X evs r"
  shows "stream_inv sha rest lim X (evs @ [ev]) r'"
proof -
  from assms(2,3) obtain rs k oid q where d: "delivered evs = rs @ [(k, oid, q)]" and i: "in_record lim rs (k, oid, q) r"
    and z: "ac_remaining (the (sq_active r)) = 0" and X: "X = sq_hasher r @ rest (sq_inner r)" "unat (sq_offset r) = length (sq_hasher r)"
    by (auto simp: stream_inv_def stream_phase_def consumes_def)
  note f = in_record_finished [OF i z]
  note fin = finish_record_Ok [OF assms(1) f(1)]
  have lim: "sq_limits r = lim" using f(2) by (simp add: past_records_def)
  have ev: "ev = RecordEnd k oid" using fin(2) by simp
  have r': "case k of Opaque \<Rightarrow> r' = r\<lparr>sq_active := None, sq_state := StRecordHeader\<rparr>
    | Manifest \<Rightarrow> \<exists>m. and_then (decode_canonical q lim) parse_manifest = Inr m \<and>
        r' = r\<lparr>sq_active := None, sq_manifests := (sq_manifests r)(oid \<mapsto> m), sq_state := StRecordHeader\<rparr>
    | Directory \<Rightarrow> \<exists>n. and_then (decode_canonical q lim) parse_directory = Inr (sq_inventory r) \<and>
        checked_add 40 (of_nat (length q)) = Some n \<and>
        r' = r\<lparr>sq_active := None, sq_directory := Some \<lparr>ds_offset = of_nat (length (body_image rs)), ds_len = n\<rparr>, sq_state := StFooter\<rparr>"
    using fin(3-5) lim by (cases k) simp_all
  have "consumes rest X r'" using X r' by (cases k) (auto simp: consumes_def)
  moreover have "delivered (evs @ [ev]) = rs @ [(k, oid, q)]" using d ev by simp
  moreover have "at_boundary lim (rs @ [(k, oid, q)]) r' \<and> sq_state r' = StRecordHeader" if "k \<noteq> Directory"
  proof -
    have "manifests_of lim (rs @ [(k, oid, q)]) (sq_manifests r')"
      using r' that f(2,7) ids_ok_snoc [of rs k oid q] by (cases k) (auto simp: manifests_of_def past_records_def image_iff split: if_splits)
    moreover have "spec_id ` set (rs @ [(k, oid, q)]) = sq_identifiers r'" using r' that f(9) by (cases k) (elim exE conjE | simp)+
    ultimately show ?thesis
      using r' that f(2-8,10) by (cases k) (auto simp: at_boundary_def past_records_def sizes_ok_def)
  qed
  moreover have "at_footer lim rs q r' \<and> sq_state r' = StFooter \<and> oid = 0" if "k = Directory"
    using r' that f ids_ok_snoc [of rs k oid q]
    by (auto simp: at_footer_def past_records_def sizes_ok_def checked_add_def split: if_splits)
  ultimately show ?thesis
    by (cases "k = Directory") (auto simp: stream_inv_def stream_phase_def)
qed

lemma read_payload_inv:
  assumes "read_payload_event R r = (Inr ev, r')" and "sq_state r = StPayload" and "stream_inv sha rest lim X evs r"
  shows "stream_inv sha rest lim X (evs @ [ev]) r'"
proof -
  from assms(2,3) obtain rs k oid q where d: "delivered evs = rs @ [(k, oid, q)]" and i: "in_record lim rs (k, oid, q) r"
    and z: "ac_remaining (the (sq_active r)) \<noteq> 0" and X: "X = sq_hasher r @ rest (sq_inner r)" "unat (sq_offset r) = length (sq_hasher r)"
    by (auto simp: stream_inv_def stream_phase_def consumes_def)
  from i obtain a where a: "sq_active r = Some a" by (auto simp: in_record_def)
  from read_payload_event_Ok [OF a] z a assms(1) obtain n bs r1 st1 where
    bs: "read_exact_into R (unat n) ''record payload'' True (r\<lparr>sq_stats := st1\<rparr>) = (Inr bs, r1)"
    and c: "consume_chunk a n bs r1 = (Inr ev, r')" by auto
  from read_exact_into_consumes [OF bs, of X] X obtain i' st where len: "length bs = unat n"
    and r1: "r1 = r\<lparr>sq_inner := i', sq_offset := sq_offset r + of_nat (unat n), sq_hasher := sq_hasher r @ bs, sq_stats := st\<rparr>"
    and X1: "X = (sq_hasher r @ bs) @ rest i'" "unat (sq_offset r + of_nat (unat n)) = length (sq_hasher r @ bs)" by auto
  note c' = c [unfolded consume_chunk_Ok]
  have n: "n \<le> ac_remaining a" using c' by simp
  then have rem: "unat (ac_remaining a) = unat n + unat (ac_remaining a - n)" by (simp add: unat_sub word_le_nat_alt)
  have ids: "ids_ok {} (rs @ [(k, oid, q)]) \<longleftrightarrow> ids_ok {} (rs @ [(k, oid, q @ bs)])" by (simp add: ids_ok_distinct)
  have "in_record lim rs (k, oid, q @ bs) r'"
    using i a rem len c' unfolding in_record_def prod.case ids
    by (elim exE) (auto simp: r1 past_records_def)
  moreover have "delivered (evs @ [ev]) = rs @ [(k, oid, q @ bs)]" using d c' by simp
  moreover have "consumes rest X r'" using X1 c' by (auto simp: consumes_def r1)
  moreover have "ac_remaining (the (sq_active r')) = 0 \<longleftrightarrow> sq_state r' = StRecordEnd" "sq_state r' = StRecordEnd \<or> sq_state r' = StPayload"
    using c' assms(2) by (auto simp: r1)
  ultimately show ?thesis by (auto simp: stream_inv_def stream_phase_def)
qed

lemma ensure_exact_end_Ok: "ensure_exact_end R r = (Inr u, r') \<Longrightarrow> rest (sq_inner r) = []"
proof (induction "2 ^ 64 - unat (st_read_operations (sq_stats r))" arbitrary: r rule: less_induct)
  case less
  from less.prems show ?case
  proof (cases rule: ensure_exact_end_step)
    case (ended ops i)
    then show ?thesis using read_end [of "sq_inner r" 1 i] by simp
  next
    case (again ops i)
    have "rest i = []" using less.hyps [OF _ again(3)] operation_progress [OF again(1)] by simp
    then show ?thesis using read_fails [OF again(2)] by simp
  qed
qed

lemma read_footer_inv:
  assumes "read_footer sha R r = (Inr ev, r')" and "sq_state r = StFooter" and "stream_inv sha rest lim X evs r"
  shows "stream_inv sha rest lim X (evs @ [ev]) r'"
proof -
  from assms(2,3) obtain rs d where dl: "delivered evs = rs @ [(Directory, 0, d)]" and f: "at_footer lim rs d r"
    and X: "X = sq_hasher r @ rest (sq_inner r)" "unat (sq_offset r) = length (sq_hasher r)"
    by (auto simp: stream_inv_def stream_phase_def consumes_def)
  from assms(1) obtain fb r1 ft m r2 dr where fb: "read_exact_into R 80 ''footer'' False r = (Inr fb, r1)"
    and ft: "stream_parse_footer fb = Inr ft"
    and loc: "sq_directory r1 = Some dr" "ft_directory_offset ft = ds_offset dr" "ft_directory_len ft = ds_len dr"
    and cnt: "ft_record_count ft = sq_record_count r1" and dig: "sha (sq_hasher r1) = ft_digest ft"
    and m: "sq_manifests r1 (ft_manifest_id ft) = Some m" and roots: "\<forall>root \<in> set (roots m). root \<in> de_id ` set (sq_inventory r1)"
    and fin: "ensure_exact_end R r1 = (Inr (), r2)" and r': "r' = r2\<lparr>sq_state := StDone\<rparr>"
    and ev: "ev = Commit \<lparr>sc_manifest_id = ft_manifest_id ft, sc_record_count = ft_record_count ft, sc_roots = roots m,
      sc_unsupported_required_capabilities = required_capabilities m, sc_integrity = Verified, sc_stats = sq_stats r2\<rparr>"
    by (auto simp: read_footer_def op_simps result_simps read_exact_array_def Let_def list_ex_iff split: if_splits)
  from read_exact_into_Ok [OF fb] obtain i where i: "rd_read_exact R (sq_inner r) 80 = (Inr fb, i)"
    "unat (sq_offset r) + 80 \<le> unat (max_file_bytes (sq_limits r))"
    and r1: "sq_inner r1 = i" "sq_limits r1 = lim" "sq_hasher r1 = sq_hasher r" "sq_directory r1 = sq_directory r"
      "sq_record_count r1 = sq_record_count r" "sq_manifests r1 = sq_manifests r" "sq_inventory r1 = sq_inventory r"
    using f by (auto simp: at_footer_def past_records_def)
  have fb': "length fb = 80" "X = sq_hasher r @ fb @ rest i" using read_exact_takes [OF i(1)] X(1) by auto
  have "rest i = []" using ensure_exact_end_Ok [OF fin] r1 by simp
  moreover have "fb = footer_image (of_nat (length (body_image rs))) (of_nat (40 + length d)) (ft_manifest_id ft)
      (of_nat (length rs + 1)) (sha (body_image (rs @ [(Directory, 0, d)])))"
    using ft fb'(1) loc cnt dig f r1 by (auto simp: stream_parse_footer_Ok_iff at_footer_def)
  ultimately have img: "X = file_image sha rs d (ft_manifest_id ft)" and dl32: "length (sha (body_image (rs @ [(Directory, 0, d)]))) = 32"
    using fb' f by (simp_all add: file_image_def Let_def at_footer_def)
  have "structured lim rs d (ft_manifest_id ft) m"
  proof -
    from f m r1(6) have mm: "manifests_of lim rs (sq_manifests r)" "sq_manifests r (ft_manifest_id ft) = Some m"
      by (auto simp: at_footer_def past_records_def)
    then obtain p where "(Manifest, ft_manifest_id ft, p) \<in> set rs" "and_then (decode_canonical p lim) parse_manifest = Inr m"
      unfolding manifests_of_def by (metis option.distinct(1) option.inject)
    moreover have "set (roots m) \<subseteq> spec_id ` set rs"
      using roots r1(7) f ids_layout [of 32 rs] by (auto simp: at_footer_def)
    ultimately show ?thesis using f by (auto simp: structured_def at_footer_def past_records_def)
  qed
  moreover have "length X \<le> unat (max_file_bytes lim)"
    using fb' X(2) i(2) \<open>rest i = []\<close> f by (simp add: at_footer_def past_records_def)
  moreover have "length rs + 1 < 2 ^ 64" using f le_unat_64 [of "length rs + 1" "max_records lim"] by (simp add: at_footer_def)
  moreover have "\<forall>i p. (Manifest, i, p) \<in> set rs \<longrightarrow> (\<exists>m. and_then (decode_canonical p lim) parse_manifest = Inr m)"
    using f unfolding at_footer_def past_records_def manifests_of_def by blast
  ultimately have "committed sha lim X rs d (case ev of Commit c \<Rightarrow> c)"
    using img dl32 cnt r1 f by (auto simp: committed_def ev at_footer_def past_records_def simp del: of_nat_add of_nat_Suc)
  then show ?thesis
    using dl by (auto simp: stream_inv_def consumes_def stream_phase_def r' ev)
qed

lemma next_event_inv:
  assumes "next_event sha R r = (Inr (Some ev), r')" and "stream_inv sha rest lim X evs r"
  shows "stream_inv sha rest lim X (evs @ [ev]) r'"
  using assms read_header_inv read_record_header_inv finish_record_inv read_payload_inv read_footer_inv
  by (auto simp: next_event_def state_event_def op_simps comp_def split: prod.splits sum.splits stream_state.splits)

lemma streams_inv:
  assumes "streams sha R (sequential_new inner lim) evs r"
  shows "stream_inv sha rest lim (rest inner) evs r"
  using assms by induction (auto intro: stream_inv_new next_event_inv)

end

section \<open>Every run ends\<close>

text \<open>For any inner reader: every event but \<open>RecordEnd\<close> takes at least one byte of the input, and the
  offset never passes the file limit.\<close>

definition events_paid :: "limits \<Rightarrow> stream_event list \<Rightarrow> 'r sequential_reader \<Rightarrow> bool" where
  "events_paid lim evs r \<longleftrightarrow> sq_limits r = lim \<and> length evs + (if sq_state r \<in> {StPayload, StRecordEnd} then 1 else 0) \<le> 2 * unat (sq_offset r) \<and>
     unat (sq_offset r) \<le> unat (max_file_bytes lim)"

lemma read_exact_into_offset:
  assumes "read_exact_into R n c h r = (Inr bs, r')"
  shows "unat (sq_offset r') = unat (sq_offset r) + n" "unat (sq_offset r') \<le> unat (max_file_bytes (sq_limits r'))"
    "sq_limits r' = sq_limits r" "sq_state r' = sq_state r" "sq_active r' = sq_active r"
  using read_exact_into_Ok [OF assms] by (auto simp: unat_add_of_nat)

lemma read_payload_pays:
  assumes "read_payload_event R r = (Inr ev, r')" and "events_paid lim evs r" and "sq_state r = StPayload"
  shows "events_paid lim (evs @ [ev]) r'"
proof -
  from assms(1) obtain a where a: "sq_active r = Some a" by (auto simp: read_payload_event_def op_simps result_simps)
  show ?thesis
  proof (cases "ac_remaining a = 0")
    case True
    then have "finish_record (r\<lparr>sq_state := StRecordEnd\<rparr>) = (Inr ev, r')"
      using assms(1) a by (simp add: read_payload_event_def op_simps)
    from finish_record_frame [OF this] assms(2,3) show ?thesis by (auto simp: events_paid_def)
  next
    case False
    from read_payload_event_Ok [OF a False] assms(1) obtain n bs r1 st1 where
      n: "chunk_length a (sq_limits r) (st_logical_bytes (sq_stats r)) = Inr n"
      and bs: "read_exact_into R (unat n) ''record payload'' True (r\<lparr>sq_stats := st1\<rparr>) = (Inr bs, r1)"
      and c: "consume_chunk a n bs r1 = (Inr ev, r')" by auto
    have "0 < unat n" using chunk_length_bounds(1) [OF n False] by (simp add: unat_gt_0)
    then show ?thesis
      using c read_exact_into_offset [OF bs] assms(2,3) by (auto simp: events_paid_def consume_chunk_Ok)
  qed
qed

lemma next_event_pays:
  assumes "next_event sha R r = (Inr (Some ev), r')" and "events_paid lim evs r"
  shows "events_paid lim (evs @ [ev]) r'"
proof (cases "sq_state r")
  case StHeader
  then obtain bs r1 where "read_exact_into R 32 ''file header'' True r = (Inr bs, r1)" "r' = r1\<lparr>sq_state := StRecordHeader\<rparr>"
    using assms(1) by (auto simp: next_event_def state_event_def op_simps read_header_def read_exact_array_def split: prod.splits sum.splits)
  then show ?thesis using read_exact_into_offset [of R 32] assms(2) StHeader by (fastforce simp: events_paid_def)
next
  case StRecordHeader
  then obtain bs r1 rh where "read_exact_into R 40 ''record header'' True (r\<lparr>sq_record_count := sq_record_count r + 1\<rparr>) = (Inr bs, r1)"
    "r' = start_record rh (sq_offset r) r1"
    using assms(1) by (auto simp: next_event_def state_event_def op_simps read_record_header_Ok open_record_Ok split: prod.splits sum.splits)
  then show ?thesis using read_exact_into_offset [of R 40] assms(2) StRecordHeader by (fastforce simp: events_paid_def start_record_def)
next
  case StPayload
  then show ?thesis
    using assms read_payload_pays by (auto simp: next_event_def state_event_def op_simps split: prod.splits sum.splits)
next
  case StRecordEnd
  then have fin: "finish_record r = (Inr ev, r')"
    using assms(1) by (auto simp: next_event_def state_event_def op_simps split: prod.splits sum.splits)
  from finish_record_frame [OF this] assms(2) StRecordEnd show ?thesis by (auto simp: events_paid_def)
next
  case StFooter
  then obtain bs r1 r2 where "read_exact_into R 80 ''footer'' False r = (Inr bs, r1)" "ensure_exact_end R r1 = (Inr (), r2)" "r' = r2\<lparr>sq_state := StDone\<rparr>"
    using assms(1) by (auto simp: next_event_def state_event_def op_simps result_simps read_footer_def read_exact_array_def Let_def split: prod.splits sum.splits if_splits)
  then show ?thesis
    using read_exact_into_offset [of R 80] ensure_exact_end_frame [of R r1] assms(2) StFooter by (fastforce simp: events_paid_def)
qed (use assms(1) in \<open>simp_all add: next_event_def state_event_def\<close>)

lemma streams_paid: "streams sha R (sequential_new inner lim) evs r \<Longrightarrow> events_paid lim evs r"
proof (induction rule: streams.induct)
  case start
  then show ?case by (simp add: events_paid_def sequential_new_def)
qed (rule next_event_pays)

end
