(* ===== verification/Ucof_Stream_Complete.thy ===== *)
theory Ucof_Stream_Complete
  imports Ucof_Stream_Sound
begin

text \<open>
  The statistics of the sequential reader are exact, and a file every record of which is in order is
  read to its commit: progress of every state, together with the bound on the number of events.
\<close>

section \<open>Unambiguous framing\<close>

lemma le_image_eq_iff [simp]:
  "le_image 2 a = le_image 2 b \<longleftrightarrow> a = (b :: u16)" "le_image 4 c = le_image 4 d \<longleftrightarrow> c = (d :: u32)"
  "le_image 8 e = le_image 8 f \<longleftrightarrow> e = (f :: u64)"
  by (metis le_value_image_16 le_value_image_32 le_value_image_64)+

lemma u16_from_kind_eq_iff [simp]: "u16_from_kind k = u16_from_kind k' \<longleftrightarrow> k = k'"
  by (cases k; cases k') simp_all

lemma record_header_eq_iff:
  "record_header k oid n @ xs = record_header k' oid' n' @ ys \<longleftrightarrow> k = k' \<and> oid = oid' \<and> n = n' \<and> xs = ys"
  by (auto simp: record_header_def)

lemma records_prefix:
  assumes "concat (map record_image rs) @ Y = concat (map record_image (RS @ [(Directory, 0, D)])) @ F"
    and "Directory \<notin> fst ` set rs" and "\<forall>r \<in> set rs. length (spec_payload r) < 2 ^ 64" and "\<forall>r \<in> set RS. length (spec_payload r) < 2 ^ 64"
  shows "\<exists>tl. RS = rs @ tl \<and> Y = concat (map record_image (tl @ [(Directory, 0, D)])) @ F"
  using assms
proof (induction rs arbitrary: RS)
  case (Cons r rs)
  obtain k oid p where r: "r = (k, oid, p)" by (cases r)
  have "k \<noteq> Directory" using Cons.prems(2) by (auto simp: r)
  show ?case
  proof (cases RS)
    case Nil
    then show ?thesis using Cons.prems(1) \<open>k \<noteq> Directory\<close> by (simp add: r record_header_eq_iff)
  next
    case (Cons r' RS')
    obtain k' oid' p' where r': "r' = (k', oid', p')" by (cases r')
    have eq: "k = k'" "oid = oid'" "(of_nat (length p) :: u64) = of_nat (length p')"
      "p @ concat (map record_image rs) @ Y = p' @ concat (map record_image (RS' @ [(Directory, 0, D)])) @ F"
      using Cons.prems(1) by (simp_all add: r r' Cons record_header_eq_iff)
    have "length p = length p'"
      using arg_cong [OF eq(3), of unat] Cons.prems(3,4) by (simp add: r r' Cons)
    then have "p = p'" "concat (map record_image rs) @ Y = concat (map record_image (RS' @ [(Directory, 0, D)])) @ F"
      using eq(4) by auto
    with Cons.IH [of RS'] Cons.prems(2-4) eq(1,2) show ?thesis by (auto simp: r r' Cons)
  qed
qed simp

section \<open>Statistics\<close>

definition payload_total :: "record_spec list \<Rightarrow> nat" where
  "payload_total rs = sum_list (map (length \<circ> spec_payload) rs)"

lemma payload_total_simps [simp]:
  "payload_total [] = 0" "payload_total (r # rs) = length (spec_payload r) + payload_total rs"
  "payload_total (rs @ rs') = payload_total rs + payload_total rs'"
  by (simp_all add: payload_total_def)

definition stats_exact :: "stream_event list \<Rightarrow> 'r sequential_reader \<Rightarrow> bool" where
  "stats_exact evs r \<longleftrightarrow> (let st = sq_stats r in
     st_bytes_read st = sq_offset r \<and>
     (if sq_state r = StDone then unat (st_bytes_hashed st) + 80 = unat (sq_offset r) else st_bytes_hashed st = sq_offset r) \<and>
     unat (st_logical_bytes st) = payload_total (delivered evs) \<and> st_logical_bytes st \<le> max_logical_decoded_bytes (sq_limits r) \<and>
     unat (st_payload_chunks st) \<le> unat (st_logical_bytes st) \<and> unat (st_logical_bytes st) \<le> unat (sq_offset r) \<and>
     (if sq_state r = StHeader then st_read_operations st = 0 \<and> sq_offset r = 0
      else sq_state r \<noteq> StDone \<longrightarrow> unat (st_read_operations st) + 31 \<le> unat (sq_offset r)))"

lemma stats_exact_new: "stats_exact [] (sequential_new inner lim)"
  by (simp add: stats_exact_def sequential_new_def stream_stats_default_def)

lemma read_exact_into_stats:
  assumes "read_exact_into R n c h r = (Inr bs, r')"
  shows "sq_offset r' = sq_offset r + of_nat n" "sq_stats r' = (sq_stats r)\<lparr>st_read_operations := st_read_operations (sq_stats r) + 1,
        st_bytes_read := st_bytes_read (sq_stats r) + of_nat n,
        st_bytes_hashed := st_bytes_hashed (sq_stats r) + (if h then of_nat n else 0)\<rparr>"
    "sq_limits r' = sq_limits r" "unat (sq_offset r) + n \<le> unat (max_file_bytes (sq_limits r))"
  using read_exact_into_Ok [OF assms] by auto

lemma stats_after_read:
  assumes "read_exact_into R n c True r = (Inr bs, r')" and "stats_exact evs r" and "sq_state r \<noteq> StDone" and "n \<ge> 1"
    and "sq_state r = StHeader \<Longrightarrow> n \<ge> 32"
  shows "st_bytes_read (sq_stats r') = sq_offset r'" "st_bytes_hashed (sq_stats r') = sq_offset r'"
    "unat (sq_offset r') = unat (sq_offset r) + n" "unat (st_read_operations (sq_stats r')) + 31 \<le> unat (sq_offset r')"
proof -
  note rd = read_exact_into_stats [OF assms(1)]
  show off: "unat (sq_offset r') = unat (sq_offset r) + n" using rd(1) by (simp add: unat_add_of_nat [OF rd(4)])
  then have small: "unat (sq_offset r) + n < 2 ^ 64" using unat_lt2p [of "sq_offset r'"] by simp
  have st: "st_bytes_read (sq_stats r) = sq_offset r" "st_bytes_hashed (sq_stats r) = sq_offset r"
    "if sq_state r = StHeader then st_read_operations (sq_stats r) = 0 \<and> sq_offset r = 0
     else unat (st_read_operations (sq_stats r)) + 31 \<le> unat (sq_offset r)"
    using assms(2,3) by (auto simp: stats_exact_def Let_def)
  show "st_bytes_read (sq_stats r') = sq_offset r'" "st_bytes_hashed (sq_stats r') = sq_offset r'" using rd(1,2) st by simp_all
  have "unat (st_read_operations (sq_stats r)) + 1 < 2 ^ 64" using st(3) small assms(4) by (auto split: if_splits)
  then have "unat (st_read_operations (sq_stats r')) = unat (st_read_operations (sq_stats r)) + 1"
    using rd(2) by (simp add: unat_add_no_overflow)
  then show "unat (st_read_operations (sq_stats r')) + 31 \<le> unat (sq_offset r')"
    using st(3) off assms(4,5) by (auto split: if_splits)
qed

lemma stats_exact_step:
  assumes "stats_exact evs r" and "sq_state r \<noteq> StDone" and "sq_state r' \<notin> {StDone, StHeader}"
    and "st_bytes_read (sq_stats r') = sq_offset r'" and "st_bytes_hashed (sq_stats r') = sq_offset r'"
    and "unat (sq_offset r') = unat (sq_offset r) + n" and "unat (st_read_operations (sq_stats r')) + 31 \<le> unat (sq_offset r')"
    and "payload_total (delivered evs') = payload_total (delivered evs) + m" and "m \<le> n"
    and "unat (st_logical_bytes (sq_stats r')) = unat (st_logical_bytes (sq_stats r)) + m"
    and "st_logical_bytes (sq_stats r') \<le> max_logical_decoded_bytes (sq_limits r')"
    and "unat (st_payload_chunks (sq_stats r')) \<le> unat (st_payload_chunks (sq_stats r)) + m"
  shows "stats_exact evs' r'"
  using assms by (auto simp: stats_exact_def Let_def)

context byte_reader
begin

lemma payload_stats:
  assumes "read_payload_event R r = (Inr ev, r')" and "sq_state r = StPayload" and "stream_inv sha rest lim X evs r" and "stats_exact evs r"
  shows "stats_exact (evs @ [ev]) r'"
proof -
  from assms(2,3) obtain a where a: "sq_active r = Some a" "ac_remaining a \<noteq> 0" and ne: "delivered evs \<noteq> []"
    by (auto simp: stream_inv_def stream_phase_def in_record_def)
  from read_payload_event_Ok [OF a] assms(1) obtain n bs r1 st1 where
    n: "chunk_length a (sq_limits r) (st_logical_bytes (sq_stats r)) = Inr n"
    and st1: "st1 = (sq_stats r)\<lparr>st_largest_allocation := max (st_largest_allocation (sq_stats r)) n\<rparr>"
    and bs: "read_exact_into R (unat n) ''record payload'' True (r\<lparr>sq_stats := st1\<rparr>) = (Inr bs, r1)"
    and c: "consume_chunk a n bs r1 = (Inr ev, r')" by auto
  note b = chunk_length_bounds [OF n a(2)]
  have n1: "unat n \<ge> 1" using b(1) by (metis One_nat_def Suc_leI unat_gt_0)
  have "stats_exact evs (r\<lparr>sq_stats := st1\<rparr>)" using assms(4) by (simp add: stats_exact_def st1 Let_def)
  note rd = stats_after_read [OF bs this] and rs = read_exact_into_stats [OF bs]
  have len: "length bs = unat n" using read_exact_into_Ok [OF bs] read_exact_takes by blast
  have pt: "payload_total (delivered (evs @ [ev])) = payload_total (delivered evs) + unat n"
    using c ne len by (cases "delivered evs" rule: rev_cases) (auto simp: consume_chunk_Ok)
  note c' = c [unfolded consume_chunk_Ok]
  have lg: "unat (st_logical_bytes (sq_stats r')) = unat (st_logical_bytes (sq_stats r)) + unat n"
    using c' rs(2) b(5) le_unat_64 [OF b(5)] by (simp add: st1 unat_add_no_overflow)
  have "unat (st_payload_chunks (sq_stats r')) = unat (st_payload_chunks (sq_stats r)) + 1"
    using c' rs(2) by (simp add: st1 unat_add_no_overflow)
  moreover have "sq_state r' \<notin> {StDone, StHeader}" using c' assms(2) read_exact_into_offset(4) [OF bs] by auto
  ultimately show ?thesis
    using c' rd n1 pt lg b(5) assms(2) rs(3)
    by (intro stats_exact_step [OF assms(4), of r' "unat n"]) (auto simp: word_le_nat_alt)
qed

lemma header_stats:
  assumes "read_header R r = (Inr ev, r')" and "sq_state r = StHeader" and "stats_exact evs r"
  shows "stats_exact (evs @ [ev]) r'"
proof -
  from assms(1) obtain bs r1 where bs: "read_exact_into R 32 ''file header'' True r = (Inr bs, r1)"
    and r': "r' = r1\<lparr>sq_state := StRecordHeader\<rparr>" "ev = FileHeader EXPERIMENTAL_EPOCH"
    by (auto simp: read_header_def op_simps read_exact_array_def)
  note rd = stats_after_read [OF bs assms(3)] and rs = read_exact_into_stats [OF bs]
  show ?thesis
    using rd rs(2,3) assms(2,3) by (intro stats_exact_step [OF assms(3), of r' 32 _ 0]) (auto simp: r' stats_exact_def Let_def)
qed

lemma record_header_stats:
  assumes "read_record_header R r = (Inr ev, r')" and "sq_state r = StRecordHeader" and "stats_exact evs r"
  shows "stats_exact (evs @ [ev]) r'"
proof -
  let ?r = "r\<lparr>sq_record_count := sq_record_count r + 1\<rparr>"
  from assms(1) obtain bs r1 rh where bs: "read_exact_into R 40 ''record header'' True ?r = (Inr bs, r1)"
    and op: "open_record rh (sq_offset r) r1 = (Inr ev, r')"
    by (auto simp: read_record_header_Ok)
  have "stats_exact evs ?r" using assms(3) by (simp add: stats_exact_def Let_def)
  note rd = stats_after_read [OF bs this] and rs = read_exact_into_stats [OF bs]
  have r': "r' = start_record rh (sq_offset r) r1" and pt: "payload_total (delivered (evs @ [ev])) = payload_total (delivered evs)"
    using op by (auto simp: open_record_Ok)
  have same: "st_bytes_read (sq_stats r') = st_bytes_read (sq_stats r1)" "st_bytes_hashed (sq_stats r') = st_bytes_hashed (sq_stats r1)"
    "st_read_operations (sq_stats r') = st_read_operations (sq_stats r1)" "st_logical_bytes (sq_stats r') = st_logical_bytes (sq_stats r)"
    "st_payload_chunks (sq_stats r') = st_payload_chunks (sq_stats r)" "sq_offset r' = sq_offset r1" "sq_limits r' = sq_limits r"
    "sq_state r' \<notin> {StDone, StHeader}"
    using rs(2,3) by (auto simp: r' start_record_def)
  show ?thesis
    using rd pt assms(2,3) same(8)
    by (intro stats_exact_step [OF assms(3), of r' 40 _ 0]) (auto simp: same(1-7) stats_exact_def Let_def)
qed

lemma finish_stats:
  assumes "finish_record r = (Inr ev, r')" and "sq_state r = StRecordEnd" and "stats_exact evs r"
  shows "stats_exact (evs @ [ev]) r'"
proof -
  from assms(1) obtain a where a: "sq_active r = Some a" by (auto simp: finish_record_def op_simps result_simps)
  have "ev = RecordEnd (sre_kind (ac_record a)) (sre_object_id (ac_record a))" by (rule finish_record_Ok [OF assms(1) a])
  then show ?thesis
    using finish_record_frame [OF assms(1)] assms(2,3) by (auto simp: stats_exact_def Let_def)
qed

lemma footer_stats:
  assumes "read_footer sha R r = (Inr ev, r')" and "sq_state r = StFooter" and "stats_exact evs r"
  shows "stats_exact (evs @ [ev]) r' \<and> (\<exists>c. ev = Commit c \<and> sc_stats c = sq_stats r')"
proof -
  from assms(1) obtain bs r1 r2 c where bs: "read_exact_into R 80 ''footer'' False r = (Inr bs, r1)"
    and e: "ensure_exact_end R r1 = (Inr (), r2)" and r': "r' = r2\<lparr>sq_state := StDone\<rparr>" and c: "ev = Commit c" "sc_stats c = sq_stats r2"
    by (auto simp: op_simps result_simps read_footer_def read_exact_array_def Let_def split: if_splits)
  from ensure_exact_end_frame [OF e] obtain i n where r2: "r2 = r1\<lparr>sq_stats := (sq_stats r1)\<lparr>st_read_operations := n\<rparr>, sq_inner := i\<rparr>" by blast
  note rs = read_exact_into_stats [OF bs] and off = read_exact_into_offset [OF bs]
  show ?thesis
    using assms(2,3) rs off(1) c by (auto simp: stats_exact_def Let_def r' r2)
qed

lemma next_event_stats:
  assumes "next_event sha R r = (Inr (Some ev), r')" and "stream_inv sha rest lim X evs r" and "stats_exact evs r"
  shows "stats_exact (evs @ [ev]) r'"
  using assms header_stats record_header_stats finish_stats payload_stats footer_stats
  by (auto simp: next_event_def state_event_def op_simps comp_def split: prod.splits sum.splits stream_state.splits)

lemma streams_stats:
  assumes "streams sha R (sequential_new inner lim) evs r"
  shows "stats_exact evs r"
  using assms
proof (induction rule: streams.induct)
  case (event evs r' ev r'')
  then show ?case using next_event_stats streams_inv by blast
qed (rule stats_exact_new)

end

lemma finish_record_event: "finish_record r = (Inr ev, r') \<Longrightarrow> \<exists>k oid. ev = RecordEnd k oid"
  by (auto simp: finish_record_def op_simps split: if_splits)

lemma commit_step:
  assumes "next_event sha R r = (Inr (Some (Commit c)), r')"
  shows "sq_state r = StFooter" "read_footer sha R r = (Inr (Commit c), r')"
proof -
  have "read_payload_event R r \<noteq> (Inr (Commit c), r')"
    using finish_record_event [of _ "Commit c" r']
    by (auto simp: read_payload_event_def op_simps consume_chunk_def Let_def split: if_splits)
  then show "sq_state r = StFooter" "read_footer sha R r = (Inr (Commit c), r')"
    using assms finish_record_event [of r "Commit c" r']
    by (auto simp: next_event_def state_event_def op_simps comp_def read_header_def read_record_header_Ok open_record_Ok
      split: prod.splits sum.splits stream_state.splits)
qed

section \<open>Progress\<close>

text \<open>A reader that delivers what it has, and reports the end of the input.\<close>

locale ready_reader = byte_reader R rest for R :: "'r read_impl" and rest +
  assumes read_exact_ready: "n \<le> length (rest s) \<Longrightarrow> \<exists>bs s'. rd_read_exact R s n = (Inr bs, s')"
    and read_at_end: "rest s = [] \<Longrightarrow> \<exists>s'. rd_read R s n = (Inr [], s')"

interpretation slice_ready: ready_reader slice_reader "\<lambda>s. s"
  by unfold_locales (auto simp: slice_reader_def slice_read_def slice_read_exact_def)

text \<open>The files the sequential reader accepts, and the limits it needs for them.\<close>

definition stream_limits :: "limits \<Rightarrow> record_spec list \<Rightarrow> bytes \<Rightarrow> bool" where
  "stream_limits lim RS X \<longleftrightarrow>
     length X \<le> unat (max_file_bytes lim) \<and> length X \<le> unat (max_total_bytes_read lim) \<and>
     max_stream_chunk_bytes lim \<noteq> 0 \<and> max_allocation_bytes lim \<noteq> 0 \<and> payload_total RS \<le> unat (max_logical_decoded_bytes lim) \<and>
     (\<forall>(k, oid, p) \<in> set RS. k \<noteq> Opaque \<longrightarrow> length p \<le> unat (max_metadata_bytes lim) \<and> length p \<le> unat (max_allocation_bytes lim))"

definition streamable :: "(bytes \<Rightarrow> bytes) \<Rightarrow> limits \<Rightarrow> bytes \<Rightarrow> record_spec list \<Rightarrow> bytes \<Rightarrow> u64 \<Rightarrow> manifest \<Rightarrow> bool" where
  "streamable sha lim X RS D mid m \<longleftrightarrow>
     X = file_image sha RS D mid \<and> length (sha (body_image (RS @ [(Directory, 0, D)]))) = 32 \<and>
     structured lim RS D mid m \<and> Directory \<notin> fst ` set RS \<and>
     (\<forall>i p. (Manifest, i, p) \<in> set RS \<longrightarrow> (\<exists>m. and_then (decode_canonical p lim) parse_manifest = Inr m)) \<and>
     stream_limits lim (RS @ [(Directory, 0, D)]) X"

text \<open>What remains of a file after the records \<open>rs\<close>.\<close>

definition remainder :: "(bytes \<Rightarrow> bytes) \<Rightarrow> record_spec list \<Rightarrow> bytes \<Rightarrow> u64 \<Rightarrow> record_spec list \<Rightarrow> bytes" where
  "remainder sha RS D mid later = concat (map record_image later) @
     footer_image (of_nat (length (body_image RS))) (of_nat (40 + length D)) mid (of_nat (length RS + 1)) (sha (body_image (RS @ [(Directory, 0, D)])))"

lemma read_exact_into_run:
  assumes "rd_read_exact R (sq_inner r) n = (Inr bs, i)" and "unat (sq_offset r) + n \<le> unat (max_file_bytes (sq_limits r))"
    and "unat (st_bytes_read (sq_stats r)) + n \<le> unat (max_total_bytes_read (sq_limits r))"
    and "unat (st_read_operations (sq_stats r)) + 1 < 2 ^ 64" and "unat (st_bytes_hashed (sq_stats r)) + n < 2 ^ 64"
  shows "\<exists>r'. read_exact_into R n c h r = (Inr bs, r')"
proof -
  have n: "n < 2 ^ 64" using assms(5) by simp
  have a: "checked_add (sq_offset r) (of_nat n) = Some (sq_offset r + of_nat n)" "\<not> sq_offset r + of_nat n > max_file_bytes (sq_limits r)"
    using checked_add_within [of "sq_offset r" "of_nat n" _ "max_file_bytes (sq_limits r)"] assms(2) n by auto
  have b: "checked_add (st_bytes_read (sq_stats r)) (of_nat n) = Some (st_bytes_read (sq_stats r) + of_nat n)"
    "\<not> st_bytes_read (sq_stats r) + of_nat n > max_total_bytes_read (sq_limits r)"
    using checked_add_within [of "st_bytes_read (sq_stats r)" "of_nat n" _ "max_total_bytes_read (sq_limits r)"] assms(3) n by auto
  have c: "checked_add (st_read_operations (sq_stats r)) 1 = Some (st_read_operations (sq_stats r) + 1)"
    "checked_add (st_bytes_hashed (sq_stats r)) (of_nat n) = Some (st_bytes_hashed (sq_stats r) + of_nat n)"
    using assms(4,5) n by (simp_all add: checked_add_def)
  show ?thesis
    using n a b c assms(1)
    by (cases h) (simp_all add: read_exact_into_def check_file_budget_def op_bind_def op_run)
qed

lemma file_remainder: "file_image sha RS D mid = file_header @ remainder sha RS D mid (RS @ [(Directory, 0, D)])"
  by (simp add: file_image_def remainder_def body_image_def Let_def)

lemma streamable_sizes:
  assumes "streamable sha lim X RS D mid m"
  shows "\<forall>r \<in> set (RS @ [(Directory, 0, D)]). length (spec_payload r) < 2 ^ 64"
proof
  fix r assume "r \<in> set (RS @ [(Directory, 0, D)])"
  moreover have "sizes_ok lim (RS @ [(Directory, 0, D)])" using assms unfolding streamable_def structured_def by blast
  ultimately have "length (spec_payload r) \<le> unat (max_payload_bytes lim)" unfolding sizes_ok_def by (metis (no_types, lifting) case_prodE snd_conv)
  then show "length (spec_payload r) < 2 ^ 64" by (rule le_unat_64)
qed

lemma boundary_later:
  assumes "streamable sha lim X RS D mid m" and "X = body_image rs @ Y" and "Directory \<notin> fst ` set rs" and "sizes_ok lim rs"
  obtains later where "RS = rs @ later" and "Y = remainder sha RS D mid (later @ [(Directory, 0, D)])"
proof -
  have "\<forall>r \<in> set rs. length (spec_payload r) < 2 ^ 64"
    using assms(4) le_unat_64 [of _ "max_payload_bytes lim"] by (fastforce simp: sizes_ok_def)
  moreover have "concat (map record_image rs) @ Y = remainder sha RS D mid (RS @ [(Directory, 0, D)])"
    using assms(1,2) by (simp add: streamable_def file_remainder body_image_def)
  ultimately show thesis
    using records_prefix [of rs Y RS D] assms(3) streamable_sizes [OF assms(1)] that unfolding remainder_def by auto
qed

context ready_reader
begin

lemma read_run:
  assumes "stats_exact evs r" and "sq_state r \<notin> {StDone, StFailed}" and "consumes rest X r" and "sq_limits r = lim"
    and "length X \<le> unat (max_file_bytes lim)" and "length X \<le> unat (max_total_bytes_read lim)" and "n \<le> length (rest (sq_inner r))" and "n \<ge> 1"
    and "sq_state r = StHeader \<Longrightarrow> sq_hasher r = []"
  shows "\<exists>bs r'. read_exact_into R n c h r = (Inr bs, r') \<and> bs = take n (rest (sq_inner r))"
proof -
  from read_exact_ready [OF assms(7)] obtain bs i where bs: "rd_read_exact R (sq_inner r) n = (Inr bs, i)" by blast
  have X: "length X = unat (sq_offset r) + length (rest (sq_inner r))"
    using assms(2,3) by (simp add: consumes_def)
  have small: "length X < 2 ^ 64" by (rule le_unat_64 [OF assms(5)])
  have st: "st_bytes_read (sq_stats r) = sq_offset r" "st_bytes_hashed (sq_stats r) = sq_offset r"
    "unat (st_read_operations (sq_stats r)) \<le> unat (sq_offset r)"
    using assms(1,2) by (auto simp: stats_exact_def Let_def split: if_splits)
  have "\<exists>r'. read_exact_into R n c h r = (Inr bs, r')"
    using X small st assms(4-8) by (intro read_exact_into_run [OF bs]) auto
  moreover have "bs = take n (rest (sq_inner r))" using read_exact_takes [OF bs] by auto
  ultimately show ?thesis by blast
qed

lemma record_header_progress:
  assumes "streamable sha lim X RS D mid m" and "stream_inv sha rest lim X evs r" and "stats_exact evs r" and "sq_state r = StRecordHeader"
  shows "\<exists>ev r'. read_record_header R r = (Inr ev, r')"
proof -
  define rs where "rs = delivered evs"
  from assms(2,4) have b: "at_boundary lim rs r" and c: "consumes rest X r" and X: "X = body_image rs @ rest (sq_inner r)"
    by (auto simp: stream_inv_def stream_phase_def consumes_def rs_def at_boundary_def)
  note b' = b [unfolded at_boundary_def past_records_def]
  from boundary_later [OF assms(1) X] b' obtain later where RS: "RS = rs @ later"
    and Y: "rest (sq_inner r) = remainder sha RS D mid (later @ [(Directory, 0, D)])" by auto
  obtain k oid p later' where rec: "later @ [(Directory, 0, D)] = (k, oid, p) # later'" by (cases later) auto
  then have mem: "(k, oid, p) \<in> set (RS @ [(Directory, 0, D)])" by (auto simp: RS append_eq_Cons_conv)
  let ?r = "r\<lparr>sq_record_count := sq_record_count r + 1\<rparr>"
  have hd: "take 40 (rest (sq_inner ?r)) = record_header k oid (of_nat (length p))" and len: "40 \<le> length (rest (sq_inner ?r))"
    by (simp_all add: Y remainder_def rec)
  note s = assms(1) [unfolded streamable_def structured_def stream_limits_def]
  have "\<exists>bs r1. read_exact_into R 40 ''record header'' True ?r = (Inr bs, r1) \<and> bs = take 40 (rest (sq_inner ?r))"
    using s len b' c assms(3,4) by (intro read_run [of evs _ X lim]) (auto simp: stats_exact_def consumes_def)
  then obtain r1 where r1: "read_exact_into R 40 ''record header'' True ?r = (Inr (record_header k oid (of_nat (length p))), r1)" using hd by auto
  have same: "sq_limits r1 = sq_limits r" "sq_identifiers r1 = sq_identifiers r" using read_exact_into_Ok [OF r1] by auto
  let ?h = "\<lparr>sh_kind = k, sh_object_id = oid, sh_stored_len = of_nat (length p), sh_logical_len = of_nat (length p)\<rparr>"
  have "length p \<le> unat (max_payload_bytes lim)" using s mem unfolding sizes_ok_def by fast
  then have "stream_parse_record_header (record_header k oid (of_nat (length p))) (sq_offset r) lim = Inr ?h"
    by (subst stream_record_header_Ok_iff) (auto intro!: of_nat_le_64)
  moreover have "k \<noteq> Opaque \<longrightarrow> of_nat (length p) \<le> max_metadata_bytes lim \<and> of_nat (length p) \<le> max_allocation_bytes lim"
    using s mem of_nat_le_64 by fast
  moreover have "if k = Directory then oid = 0 else oid \<noteq> 0 \<and> oid \<notin> sq_identifiers r"
  proof -
    have "ids_ok {} (RS @ [(Directory, 0, D)])" using s by simp
    then have "ids_ok {} (rs @ (k, oid, p) # later')" by (simp add: RS rec)
    then have "ids_ok {} (rs @ [(k, oid, p)])" by (auto simp: ids_ok_distinct)
    then show ?thesis using ids_ok_snoc [of rs k oid p] b' by auto
  qed
  moreover have "unat (sq_record_count r) < unat (max_records lim)"
    using s b' RS by (auto simp: unat_of_nat_64 [OF le_unat_64 [of _ "max_records lim"]])
  ultimately show ?thesis
    using r1 same b' unfolding read_record_header_Ok open_record_Ok by auto
qed

end

lemma payload_total_mem: "r \<in> set rs \<Longrightarrow> length (spec_payload r) \<le> payload_total rs"
  by (induction rs) auto

lemma directory_later:
  assumes "streamable sha lim X RS D mid m" and "X = body_image rs @ record_image (Directory, 0, d) @ Y"
    and "Directory \<notin> fst ` set rs" and "sizes_ok lim rs" and "length d \<le> unat (max_payload_bytes lim)"
  shows "rs = RS" "d = D" "Y = remainder sha RS D mid []"
proof -
  from boundary_later [OF assms(1-4)] obtain later where RS: "RS = rs @ later"
    and eq: "record_image (Directory, 0, d) @ Y = remainder sha RS D mid (later @ [(Directory, 0, D)])" .
  note s = assms(1) [unfolded streamable_def structured_def]
  have later: "later = []"
  proof (cases later)
    case (Cons x l)
    then have "fst x = Directory" using eq by (cases x) (simp add: remainder_def record_header_eq_iff)
    then show ?thesis using s Cons RS by auto
  qed
  have "length d < 2 ^ 64" "length D < 2 ^ 64"
    using assms(5) s le_unat_64 [of _ "max_payload_bytes lim"] by (auto simp: sizes_ok_def)
  moreover have e: "(of_nat (length d) :: u64) = of_nat (length D)" "d @ Y = D @ remainder sha RS D mid []"
    using eq later by (simp_all add: remainder_def record_header_eq_iff)
  ultimately have "length d = length D" by (metis unat_of_nat_64)
  then show "d = D" "Y = remainder sha RS D mid []" using e(2) by simp_all
  show "rs = RS" using RS later by simp
qed

text \<open>In the middle of a record, what is to come is the rest of its payload and the later records.\<close>

lemma in_record_later:
  assumes "streamable sha lim X RS D mid m" and "in_record lim rs (k, oid, q) r" and "X = sq_hasher r @ Y"
  obtains p later where "RS @ [(Directory, 0, D)] = rs @ (k, oid, p) # later" and "q @ Y = p @ remainder sha RS D mid later"
    and "unat (ac_remaining (the (sq_active r))) + length q = length p"
proof -
  from assms(2) obtain len rem where i: "Directory \<notin> fst ` set rs" "sizes_ok lim rs" "unat len = length q + unat rem"
    "sq_hasher r = body_image rs @ record_header k oid len @ q" "ac_remaining (the (sq_active r)) = rem"
    by (auto simp: in_record_def past_records_def)
  have "X = body_image rs @ (record_header k oid len @ q @ Y)" using assms(3) i(4) by simp
  from boundary_later [OF assms(1) this i(1,2)] obtain later where RS: "RS = rs @ later"
    and eq: "record_header k oid len @ q @ Y = remainder sha RS D mid (later @ [(Directory, 0, D)])" .
  obtain k' oid' p later' where rec: "later @ [(Directory, 0, D)] = (k', oid', p) # later'" by (cases later) auto
  have e: "k = k'" "oid = oid'" "len = of_nat (length p)" "q @ Y = p @ remainder sha RS D mid later'"
    using eq by (simp_all add: rec remainder_def record_header_eq_iff)
  have "(k', oid', p) \<in> set (RS @ [(Directory, 0, D)])" using rec by (auto simp: RS append_eq_Cons_conv)
  then have "length p < 2 ^ 64" using streamable_sizes [OF assms(1)] by fastforce
  then have "unat len = length p" using e(3) by simp
  then show thesis
    using that [of p later'] e i(3,5) rec by (simp add: RS)
qed

lemma split_at_directory:
  assumes "RS @ [(Directory, 0, D)] = rs @ (Directory, oid, p) # later" and "Directory \<notin> fst ` set RS"
  shows "RS = rs" "p = D" "oid = 0" "later = []"
proof -
  have "later = []"
  proof (cases later rule: rev_cases)
    case (snoc l x)
    then have "(Directory, oid, p) \<in> set RS" using assms(1) by simp
    then show ?thesis using assms(2) by force
  qed
  then show "RS = rs" "p = D" "oid = 0" "later = []" using assms(1) by simp_all
qed

context ready_reader
begin

lemma header_progress:
  assumes "streamable sha lim X RS D mid m" and "stream_inv sha rest lim X evs r" and "stats_exact evs r" and "sq_state r = StHeader"
  shows "\<exists>ev r'. read_header R r = (Inr ev, r')"
proof -
  from assms(2,4) obtain inner where r: "r = sequential_new inner lim" and c: "consumes rest X r" and X: "X = rest (sq_inner r)"
    by (auto simp: stream_inv_def stream_phase_def consumes_def sequential_new_def)
  note s = assms(1) [unfolded streamable_def stream_limits_def]
  have hd: "take 32 (rest (sq_inner r)) = file_header" "32 \<le> length (rest (sq_inner r))"
    using s X by (simp_all add: file_remainder)
  have "\<exists>bs r1. read_exact_into R 32 ''file header'' True r = (Inr bs, r1) \<and> bs = take 32 (rest (sq_inner r))"
    using s hd c assms(3,4) by (intro read_run [of evs _ X lim]) (auto simp: r sequential_new_def)
  then obtain r1 where "read_exact_into R 32 ''file header'' True r = (Inr file_header, r1)" using hd by auto
  then show ?thesis by (auto simp: read_header_def op_simps read_exact_array_def stream_validate_header_Ok_iff)
qed

lemma payload_progress:
  assumes "streamable sha lim X RS D mid m" and "stream_inv sha rest lim X evs r" and "stats_exact evs r" and "sq_state r = StPayload"
  shows "\<exists>ev r'. read_payload_event R r = (Inr ev, r')"
proof -
  from assms(2,4) obtain rs k oid q where dl: "delivered evs = rs @ [(k, oid, q)]" and i: "in_record lim rs (k, oid, q) r"
    and c: "consumes rest X r" and nz: "ac_remaining (the (sq_active r)) \<noteq> 0" and X: "X = sq_hasher r @ rest (sq_inner r)"
    by (auto simp: stream_inv_def stream_phase_def consumes_def)
  from i obtain a where a: "sq_active r = Some a" and lim: "sq_limits r = lim" by (auto simp: in_record_def past_records_def)
  from in_record_later [OF assms(1) i X] obtain p later where RS: "RS @ [(Directory, 0, D)] = rs @ (k, oid, p) # later"
    and Y: "q @ rest (sq_inner r) = p @ remainder sha RS D mid later" and len: "unat (ac_remaining a) + length q = length p"
    using a by auto
  have a0: "ac_remaining a \<noteq> 0" using nz a by simp
  note s = assms(1) [unfolded streamable_def stream_limits_def]
  let ?l = "st_logical_bytes (sq_stats r)"
  have "payload_total rs + length p \<le> unat (max_logical_decoded_bytes lim)" using s unfolding RS by simp
  then have logical: "unat ?l < unat (max_logical_decoded_bytes lim)"
    using assms(3) len a0 dl by (simp add: stats_exact_def Let_def) (metis add_less_cancel_left less_add_same_cancel2 order_less_le_trans unat_gt_0)
  then obtain n where n: "chunk_length a lim ?l = Inr n"
    using s by (auto simp: chunk_length_Ok word_less_nat_alt)
  note b = chunk_length_bounds [OF n a0]
  let ?r = "r\<lparr>sq_stats := (sq_stats r)\<lparr>st_largest_allocation := max (st_largest_allocation (sq_stats r)) n\<rparr>\<rparr>"
  have n1: "unat n \<ge> 1" using b(1) by (metis One_nat_def Suc_leI unat_gt_0)
  have "unat n \<le> length (rest (sq_inner r))"
    using arg_cong [OF Y, of length] len b(2) by (simp add: word_le_nat_alt)
  then have "\<exists>bs r1. read_exact_into R (unat n) ''record payload'' True ?r = (Inr bs, r1) \<and> bs = take (unat n) (rest (sq_inner ?r))"
    using s c assms(3,4) n1 lim by (intro read_run [of evs _ X lim]) (auto simp: stats_exact_def consumes_def Let_def)
  then obtain bs r1 where r1: "read_exact_into R (unat n) ''record payload'' True ?r = (Inr bs, r1)" by blast
  note st = read_exact_into_stats [OF r1]
  have "unat (st_payload_chunks (sq_stats r)) \<le> unat ?l" using assms(3) by (simp add: stats_exact_def Let_def)
  then have "unat (st_payload_chunks (sq_stats r)) + 1 \<le> unat (max_logical_decoded_bytes lim)" using logical by linarith
  then have "unat (st_payload_chunks (sq_stats r)) + 1 < 2 ^ 64" by (rule le_unat_64)
  then have "\<exists>ev r'. consume_chunk a n bs r1 = (Inr ev, r')"
    using b(2,5) st(2,3) lim by (simp add: consume_chunk_Ok)
  then show ?thesis using n r1 lim unfolding read_payload_event_Ok [OF a a0] by blast
qed

lemma finish_progress:
  assumes "streamable sha lim X RS D mid m" and "stream_inv sha rest lim X evs r" and "sq_state r = StRecordEnd"
  shows "\<exists>ev r'. finish_record r = (Inr ev, r')"
proof -
  from assms(2,3) obtain rs k oid q where i: "in_record lim rs (k, oid, q) r"
    and z: "ac_remaining (the (sq_active r)) = 0" and X: "X = sq_hasher r @ rest (sq_inner r)"
    by (auto simp: stream_inv_def stream_phase_def consumes_def)
  note f = in_record_finished [OF i z]
  have lim: "sq_limits r = lim" using f(2) by (simp add: past_records_def)
  from in_record_later [OF assms(1) i X] z obtain later where RS: "RS @ [(Directory, 0, D)] = rs @ (k, oid, q) # later" by auto
  note s = assms(1) [unfolded streamable_def structured_def stream_limits_def]
  show ?thesis
  proof (cases k)
    case Opaque
    then show ?thesis using f(1) by (simp add: finish_record_def op_bind_def op_run)
  next
    case Manifest
    have "(Manifest, oid, q) \<in> set (RS @ [(Directory, 0, D)])" using Manifest by (simp add: RS)
    then have "(Manifest, oid, q) \<in> set RS" by simp
    moreover have "\<forall>i p. (Manifest, i, p) \<in> set RS \<longrightarrow> (\<exists>m. and_then (decode_canonical p lim) parse_manifest = Inr m)" using s by blast
    ultimately obtain m' where "and_then (decode_canonical q lim) parse_manifest = Inr m'" by blast
    then show ?thesis using f(1) Manifest lim by (auto simp: finish_record_def op_bind_def op_run stream_parser_simps and_then_Ok_iff)
  next
    case Directory
    from split_at_directory [OF RS [unfolded Directory]] s have d: "RS = rs" "q = D" by auto
    then have "and_then (decode_canonical q lim) parse_directory = Inr (sq_inventory r)" using s f(8) Directory by simp
    moreover have "checked_add 40 (of_nat (length q)) = Some (40 + of_nat (length q) :: u64)"
    proof -
      have "length X = length (body_image RS) + length D + 120" using s length_file_image [of sha RS D mid] by blast
      moreover have "length X < 2 ^ 64" using s le_unat_64 by blast
      ultimately have "40 + length q < 2 ^ 64" using d by simp
      then show ?thesis by (simp add: checked_add_def)
    qed
    ultimately show ?thesis
      using f(1) Directory lim by (auto simp: finish_record_def op_bind_def op_run stream_parser_simps and_then_Ok_iff)
  qed
qed

lemma exact_end_run:
  assumes "rest (sq_inner r) = []" and "unat (st_read_operations (sq_stats r)) + 1 < 2 ^ 64"
  shows "\<exists>r'. ensure_exact_end R r = (Inr (), r')"
proof -
  from read_at_end [OF assms(1)] obtain i where "rd_read R (sq_inner r) 1 = (Inr [], i)" by blast
  then show ?thesis using assms(2) by (subst ensure_exact_end.simps) (simp add: checked_add_def Let_def)
qed

lemma footer_progress:
  assumes "streamable sha lim X RS D mid m" and "stream_inv sha rest lim X evs r" and "stats_exact evs r" and "sq_state r = StFooter"
  shows "\<exists>ev r'. read_footer sha R r = (Inr ev, r')"
proof -
  from assms(2,4) obtain rs d where f: "at_footer lim rs d r" and c: "consumes rest X r" and X: "X = sq_hasher r @ rest (sq_inner r)"
    by (auto simp: stream_inv_def stream_phase_def consumes_def)
  note s = assms(1) [unfolded streamable_def structured_def stream_limits_def]
  note f' = f [unfolded at_footer_def past_records_def]
  have "X = body_image rs @ record_image (Directory, 0, d) @ rest (sq_inner r)" using X f' by (simp add: body_image_snoc)
  from directory_later [OF assms(1) this] f' have RS: "rs = RS" and d: "d = D" "rest (sq_inner r) = remainder sha RS D mid []"
    by (auto simp: sizes_ok_def)
  let ?ft = "footer_of sha RS D mid" and ?fb = "rest (sq_inner r)"
  have fb: "?fb = footer_image (ft_directory_offset ?ft) (ft_directory_len ?ft) (ft_manifest_id ?ft) (ft_record_count ?ft) (ft_digest ?ft)"
    using d by (simp add: remainder_def footer_of_def)
  have len: "length ?fb = 80" using s fb by (simp add: footer_of_def)
  have "\<exists>bs r1. read_exact_into R 80 ''footer'' False r = (Inr bs, r1) \<and> bs = take 80 ?fb"
    using s c assms(3,4) f' len by (intro read_run [of evs _ X lim]) auto
  then obtain r1 where r1: "read_exact_into R 80 ''footer'' False r = (Inr ?fb, r1)" using len by auto
  from read_exact_into_Ok [OF r1] obtain i where i: "rd_read_exact R (sq_inner r) 80 = (Inr ?fb, i)" "sq_inner r1 = i"
    and same: "sq_hasher r1 = sq_hasher r" "sq_directory r1 = sq_directory r" "sq_record_count r1 = sq_record_count r"
      "sq_manifests r1 = sq_manifests r" "sq_inventory r1 = sq_inventory r"
      "st_read_operations (sq_stats r1) = st_read_operations (sq_stats r) + 1" by auto
  have "rest i = []" using read_exact_takes [OF i(1)] by simp
  moreover have "unat (st_read_operations (sq_stats r1)) + 1 < 2 ^ 64"
  proof -
    have "unat (st_read_operations (sq_stats r)) + 31 \<le> unat (sq_offset r)" using assms(3,4) by (simp add: stats_exact_def Let_def)
    then have "unat (st_read_operations (sq_stats r)) + 2 < 2 ^ 64" using le_unat_64 [of "unat (st_read_operations (sq_stats r)) + 2" "sq_offset r"] by linarith
    then show ?thesis using same(6) by (simp add: unat_add_no_overflow)
  qed
  ultimately obtain r2 where r2: "ensure_exact_end R r1 = (Inr (), r2)" using exact_end_run [of r1] i(2) by auto
  have m': "sq_manifests r mid = Some m" "set (roots m) \<subseteq> spec_id ` set RS"
  proof -
    obtain p where "(Manifest, mid, p) \<in> set rs" "and_then (decode_canonical p lim) parse_manifest = Inr m"
      using s RS by auto
    then show "sq_manifests r mid = Some m" using f' unfolding manifests_of_def by fastforce
  qed (use s in blast)
  have "stream_parse_footer ?fb = Inr ?ft" using fb len by (simp add: stream_parse_footer_Ok_iff)
  then show ?thesis
    using r1 r2 f' m' same RS d ids_layout [of 32 RS]
    by (auto simp: read_footer_def op_bind_def op_run read_exact_array_def footer_of_def Let_def list_ex_iff subset_iff)
qed

lemma progress:
  assumes "streamable sha lim X RS D mid m" and "stream_inv sha rest lim X evs r" and "stats_exact evs r"
    and "sq_state r \<notin> {StDone, StFailed}"
  shows "\<exists>ev r'. next_event sha R r = (Inr (Some ev), r')"
proof -
  have lift: "\<exists>ev r'. op_bind op (op_return \<circ> Some) r = (Inr (Some ev), r')" if "\<exists>ev r'. op r = (Inr ev, r')" for op :: "('r sequential_reader, stream_event) op"
    using that by (auto simp: op_simps)
  have "\<exists>ev r'. state_event sha R r = (Inr (Some ev), r')"
    using assms lift [OF header_progress] lift [OF record_header_progress] lift [OF payload_progress] lift [OF finish_progress] lift [OF footer_progress]
    by (cases "sq_state r") (simp_all add: state_event_def)
  then show ?thesis by (auto simp: next_event_def)
qed

text \<open>A run that cannot be extended has reached the commit, and runs cannot be extended forever.\<close>

lemma stream_completes:
  assumes "streamable sha lim (rest inner) RS D mid m"
  shows "\<exists>evs c r. streams sha R (sequential_new inner lim) (evs @ [Commit c]) r"
proof -
  let ?P = "\<lambda>n. \<exists>evs r. streams sha R (sequential_new inner lim) evs r \<and> length evs = n"
  have bound: "\<forall>n. ?P n \<longrightarrow> n \<le> 2 * 2 ^ 64"
  proof (intro allI impI, elim exE conjE)
    fix n evs r assume run: "streams sha R (sequential_new inner lim) evs r" and n: "length evs = n"
    have "length evs \<le> 2 * unat (sq_offset r)" using streams_paid [OF run] by (simp add: events_paid_def)
    also have "\<dots> \<le> 2 * 2 ^ 64" using less_imp_le [OF unat_lt_64 [of "sq_offset r"]] by simp
    finally show "n \<le> 2 * 2 ^ 64" using n by simp
  qed
  have "?P 0" using streams.start by fastforce
  from Greatest_le_nat [of ?P] GreatestI_nat [of ?P, OF this] bound
  obtain evs r where run: "streams sha R (sequential_new inner lim) evs r" and max: "\<And>n. ?P n \<Longrightarrow> n \<le> length evs"
    by (metis (no_types, lifting))
  have "sq_state r = StDone"
  proof (rule ccontr)
    assume "sq_state r \<noteq> StDone"
    moreover have "sq_state r \<noteq> StFailed" using streams_inv [OF run] by (auto simp: stream_inv_def stream_phase_def)
    ultimately obtain ev r' where "next_event sha R r = (Inr (Some ev), r')"
      using progress [OF assms streams_inv [OF run] streams_stats [OF run]] by auto
    from streams.event [OF run this] max [of "length (evs @ [ev])"] show False by fastforce
  qed
  then show ?thesis using run streams_inv [OF run] by (fastforce simp: stream_inv_def stream_phase_def)
qed

end

end
