(* ===== verification/Ucof_Stream_Properties.thy ===== *)
theory Ucof_Stream_Properties
  imports Ucof_Stream_Complete Ucof_Source_Properties
begin

text \<open>
  The properties of the sequential reader (\<open>stream.rs\<close>), and its agreement with the in-memory reader.
\<close>

section \<open>The sample file\<close>

lemma sample_streamable:
  "streamable sample_sha default_limits sample_file sample_records sample_directory 1 sample_manifest"
proof -
  have "structured default_limits sample_records sample_directory 1 sample_manifest"
    using sample_accepted by (simp add: accepted_iff)
  moreover have "\<forall>i p. (Manifest, i, p) \<in> set sample_records \<longrightarrow>
      (\<exists>m. and_then (decode_canonical p default_limits) parse_manifest = Inr m)"
    using calculation by (auto simp: structured_def sample_records_def)
  moreover have "stream_limits default_limits (sample_records @ [(Directory, 0, sample_directory)]) sample_file"
    by (simp add: stream_limits_def default_limits_def sample_file_def file_image_def Let_def body_image_def
        sample_records_def sample_manifest_bytes_def sample_directory_def)
  ultimately show ?thesis
    by (simp add: streamable_def sample_file_def) (simp add: sample_records_def)
qed

lemma sample_stream:
  "\<exists>evs c r. streams sample_sha slice_reader (sequential_new sample_file default_limits) (evs @ [Commit c]) r"
  by (rule slice_ready.stream_completes [OF sample_streamable])

section \<open>The records of a file are determined by its bytes\<close>

lemma footer_image_eq:
  "footer_image a b i n dig = footer_image a' b' i' n' dig' \<Longrightarrow> i = i'"
  by (simp add: footer_image_def)

lemma ids_ok_payload:
  assumes "ids_ok {} rs" and "(k, i, p) \<in> set rs" and "(k', i, p') \<in> set rs" and "k \<noteq> Directory"
  shows "p' = p"
proof -
  from assms(2,3) obtain j j' where j: "j < length rs" "rs ! j = (k, i, p)" "j' < length rs" "rs ! j' = (k', i, p')"
    by (auto simp: in_set_conv_nth)
  then have "j' = j" using ids_ok_unique [OF assms(1), of j j'] assms(4) by simp
  then show ?thesis using j by simp
qed

lemma committed_unique:
  assumes "streamable sha lim X RS D mid m" and "committed sha lim X rs d c"
  shows "rs = RS" "d = D" "sc_manifest_id c = mid" "sc_roots c = roots m"
    "sc_unsupported_required_capabilities c = required_capabilities m"
proof -
  let ?Y = "footer_image (of_nat (length (body_image rs))) (of_nat (40 + length d)) (sc_manifest_id c) (of_nat (length rs + 1))
    (sha (body_image (rs @ [(Directory, 0, d)])))"
  from assms(2) obtain m' where c: "X = file_image sha rs d (sc_manifest_id c)" "Directory \<notin> fst ` set rs"
    "structured lim rs d (sc_manifest_id c) m'" "sc_roots c = roots m'" "sc_unsupported_required_capabilities c = required_capabilities m'"
    unfolding committed_def by blast
  have "X = body_image rs @ record_image (Directory, 0, d) @ ?Y"
    unfolding c(1) by (simp add: file_image_def body_image_snoc Let_def)
  note later = directory_later [OF assms(1) this c(2)]
  have sz: "sizes_ok lim rs" "length d \<le> unat (max_payload_bytes lim)" using c(3) by (auto simp: structured_def sizes_ok_def)
  show RS: "rs = RS" "d = D" using later(1,2) [OF sz] by simp_all
  show mid: "sc_manifest_id c = mid" using later(3) [OF sz] by (simp add: remainder_def footer_image_eq)
  obtain p p' where p: "(Manifest, mid, p) \<in> set RS" "and_then (decode_canonical p lim) parse_manifest = Inr m"
    "(Manifest, mid, p') \<in> set RS" "and_then (decode_canonical p' lim) parse_manifest = Inr m'" "ids_ok {} RS"
    using assms(1) c(3) unfolding streamable_def structured_def RS mid by blast
  have "p' = p" by (rule ids_ok_payload [OF p(5,1,3)]) simp
  then have "m' = m" using p by simp
  then show "sc_roots c = roots m" "sc_unsupported_required_capabilities c = required_capabilities m" using c(4,5) by simp_all
qed

lemma payload_total_body: "payload_total rs \<le> length (body_image rs)"
  by (induction rs) (auto simp: body_image_def)

text \<open>A file the in-memory reader accepts can be streamed, under limits for its size.\<close>

lemma file_stream_limits:
  assumes "X = file_image sha rs d mid" and "length X \<le> unat (max_file_bytes lim)"
    and "length X \<le> unat (max_total_bytes_read lim)" and "length X \<le> unat (max_logical_decoded_bytes lim)"
    and "length X \<le> unat (max_metadata_bytes lim)" and "length X \<le> unat (max_allocation_bytes lim)" and "0 < max_stream_chunk_bytes lim"
  shows "stream_limits lim (rs @ [(Directory, 0, d)]) X"
proof -
  have size: "length (body_image (rs @ [(Directory, 0, d)])) \<le> length X" by (simp add: assms(1) file_image_def Let_def)
  have "length p \<le> length X" if "(k, i, p) \<in> set (rs @ [(Directory, 0, d)])" for k i p
    using payload_within [OF that] size by simp
  moreover have "payload_total (rs @ [(Directory, 0, d)]) \<le> length X" using payload_total_body size order_trans by blast
  moreover have "length X > 0" by (rule less_le_trans [OF _ size]) (simp add: body_image_def)
  ultimately show ?thesis using assms(2-) unfolding stream_limits_def by (fastforce simp: word_less_nat_alt)
qed

lemma parsed_streamable:
  assumes "parse sha X lim = Inr vf" and "Directory \<notin> ri_kind ` set (butlast (vf_records vf))"
    and "\<forall>x \<in> set (vf_records vf). ri_kind x = Manifest \<longrightarrow> (\<exists>m. and_then (decode_canonical (payload_of X x) lim) parse_manifest = Inr m)"
    and "length X \<le> unat (max_total_bytes_read lim)" and "length X \<le> unat (max_logical_decoded_bytes lim)"
    and "length X \<le> unat (max_metadata_bytes lim)" and "length X \<le> unat (max_allocation_bytes lim)" and "0 < max_stream_chunk_bytes lim"
  shows "\<exists>rs d. streamable sha lim X rs d (vf_manifest_id vf) (vf_manifest vf)"
proof -
  from parse_sound [OF assms(1)] obtain rs d where X: "X = file_image sha rs d (vf_manifest_id vf)"
    and len: "length X \<le> unat (max_file_bytes lim)" and acc: "accepted lim rs d (vf_manifest_id vf) (vf_manifest vf)"
    and vf: "vf = view sha rs d (vf_manifest_id vf) (vf_manifest vf)" and dig: "length (sha (body_image (rs @ [(Directory, 0, d)]))) = 32" .
  have recs: "vf_records vf = infos 32 (rs @ [(Directory, 0, d)])" by (subst vf) (simp add: view_def)
  have nodir: "Directory \<notin> fst ` set rs" using assms(2) by (simp add: recs infos_append butlast_append) (metis image_set map_infos(2))
  note fr = file_image_frame [OF le_unat_64 [OF len, unfolded X] dig, folded X]
  have dec: "\<exists>m. and_then (decode_canonical p lim) parse_manifest = Inr m" if "(Manifest, i, p) \<in> set rs" for i p
  proof -
    from that obtain j where j: "j < length rs" "rs ! j = (Manifest, i, p)" by (auto simp: in_set_conv_nth)
    let ?x = "infos 32 (rs @ [(Directory, 0, d)]) ! j"
    have "payload_of X ?x = p" using payload_of_body [OF fr(2), of j] fr(1) j by (simp add: nth_append)
    moreover have "ri_kind ?x = Manifest" "?x \<in> set (vf_records vf)" using j by (simp_all add: recs nth_append)
    ultimately show ?thesis using assms(3) by blast
  qed
  have "stream_limits lim (rs @ [(Directory, 0, d)]) X" by (rule file_stream_limits [OF X len assms(4-8)])
  then show ?thesis
    using X dig acc nodir dec by (auto simp: streamable_def accepted_iff)
qed

lemma streamable_manifests:
  assumes "streamable sha lim X rs d mid m"
  shows "\<forall>x \<in> set (vf_records (view sha rs d mid m)). ri_kind x = Manifest \<longrightarrow>
    (\<exists>m. and_then (decode_canonical (payload_of X x) lim) parse_manifest = Inr m)"
proof (intro ballI impI)
  fix x assume "x \<in> set (vf_records (view sha rs d mid m))" and k: "ri_kind x = Manifest"
  then obtain j where j: "j < length (rs @ [(Directory, 0, d)])" "x = infos 32 (rs @ [(Directory, 0, d)]) ! j"
    by (auto simp: view_def in_set_conv_nth)
  note s = assms [unfolded streamable_def stream_limits_def]
  have X: "X = file_image sha rs d mid" and len: "length X < 2 ^ 64" and dig: "length (sha (body_image (rs @ [(Directory, 0, d)]))) = 32"
    using s le_unat_64 [of "length X" "max_file_bytes lim"] by blast+
  note fr = file_image_frame [OF len [unfolded X] dig, folded X]
  have kj: "fst ((rs @ [(Directory, 0, d)]) ! j) = Manifest" using k nth_infos(2) [OF j(1), of 32] j(2) by simp
  then have jlt: "j < length rs" using j(1) by (cases "j = length rs") auto
  then have "(Manifest, spec_id (rs ! j), spec_payload (rs ! j)) \<in> set rs" using kj jlt nth_mem [OF jlt] by (cases "rs ! j") (simp add: nth_append)
  moreover have "payload_of X x = spec_payload (rs ! j)"
    using payload_of_body [OF fr(2) _ j(1)] fr(1) jlt by (simp add: j(2) nth_append)
  ultimately show "\<exists>m. and_then (decode_canonical (payload_of X x) lim) parse_manifest = Inr m" using s by (metis (no_types, lifting))
qed

section \<open>Chunks\<close>

definition chunk_bounded :: "limits \<Rightarrow> stream_event \<Rightarrow> bool" where
  "chunk_bounded lim ev \<longleftrightarrow> (case ev of
     PayloadChunk k oid bs rem \<Rightarrow> bs \<noteq> [] \<and> length bs \<le> unat (max_stream_chunk_bytes lim) \<and> length bs \<le> unat (max_allocation_bytes lim)
   | _ \<Rightarrow> True)"

context byte_reader
begin

lemma payload_event_bounded:
  assumes "read_payload_event R r = (Inr ev, r')" and "sq_limits r = lim"
  shows "chunk_bounded lim ev"
proof -
  from assms(1) obtain a where a: "sq_active r = Some a" by (auto simp: read_payload_event_def op_simps result_simps)
  show ?thesis
  proof (cases "ac_remaining a = 0")
    case True
    then show ?thesis
      using assms(1) a finish_record_event [of "r\<lparr>sq_state := StRecordEnd\<rparr>" ev r']
      by (auto simp: read_payload_event_def op_simps chunk_bounded_def)
  next
    case False
    from read_payload_event_Ok [OF a False] assms(1) obtain n bs r1 st1 where
      n: "chunk_length a (sq_limits r) (st_logical_bytes (sq_stats r)) = Inr n"
      and bs: "read_exact_into R (unat n) ''record payload'' True (r\<lparr>sq_stats := st1\<rparr>) = (Inr bs, r1)"
      and c: "consume_chunk a n bs r1 = (Inr ev, r')" by auto
    have "length bs = unat n" using read_exact_into_Ok [OF bs] read_exact_takes by blast
    then show ?thesis
      using chunk_length_bounds [OF n False] c assms(2)
      by (auto simp: consume_chunk_Ok chunk_bounded_def word_le_nat_alt unat_eq_0)
  qed
qed

lemma streams_chunks:
  assumes "streams sha R (sequential_new inner lim) evs r"
  shows "\<forall>ev \<in> set evs. chunk_bounded lim ev"
  using assms
proof (induction rule: streams.induct)
  case (event evs r' ev r'')
  have "sq_limits r' = lim" using streams_paid [OF event.hyps(1)] by (simp add: events_paid_def)
  then have "chunk_bounded lim ev"
    using event.hyps(2) payload_event_bounded [of r' ev r'' lim] finish_record_event [of r' ev r'']
    by (auto simp: next_event_def state_event_def op_simps comp_def read_header_def read_record_header_Ok open_record_Ok
        read_footer_def Let_def chunk_bounded_def split: prod.splits sum.splits stream_state.splits if_splits)
  then show ?case using event.IH by simp
qed simp

end

lemma streams_snocE:
  assumes "streams sha R r (evs @ [ev]) r'"
  obtains r0 where "streams sha R r evs r0" and "next_event sha R r0 = (Inr (Some ev), r')"
  using assms by (cases rule: streams.cases) auto

lemma commit_describes:
  assumes "byte_reader R rest" and "streams sha R (sequential_new inner lim) (evs @ [Commit c]) r"
  shows "\<exists>rs d. delivered evs = rs @ [(Directory, 0, d)] \<and> committed sha lim (rest inner) rs d c" "sq_state r = StDone"
    "sc_stats c = sq_stats r"
proof -
  from assms(2) obtain r0 where r0: "streams sha R (sequential_new inner lim) evs r0" "next_event sha R r0 = (Inr (Some (Commit c)), r)"
    by (rule streams_snocE)
  note f = commit_step [OF r0(2)]
  show fin: "sq_state r = StDone" using f(2) by (auto simp: read_footer_def op_simps Let_def split: if_splits)
  show "sc_stats c = sq_stats r"
    using byte_reader.footer_stats [OF assms(1) f(2,1) byte_reader.streams_stats [OF assms(1) r0(1)]] by auto
  show "\<exists>rs d. delivered evs = rs @ [(Directory, 0, d)] \<and> committed sha lim (rest inner) rs d c"
    using byte_reader.streams_inv [OF assms] fin by (auto simp: stream_inv_def stream_phase_def)
qed

lemma commit_offset:
  assumes "byte_reader R rest" and "streams sha R (sequential_new inner lim) (evs @ [Commit c]) r"
  shows "unat (sq_offset r) = length (rest inner)"
proof -
  from assms(2) obtain r0 where r0: "streams sha R (sequential_new inner lim) evs r0" "next_event sha R r0 = (Inr (Some (Commit c)), r)"
    by (rule streams_snocE)
  note f = commit_step [OF r0(2)]
  from f(2) obtain bs r1 r2 where bs: "read_exact_into R 80 ''footer'' False r0 = (Inr bs, r1)"
    and e: "ensure_exact_end R r1 = (Inr (), r2)" and r: "r = r2\<lparr>sq_state := StDone\<rparr>"
    by (auto simp: op_simps result_simps read_footer_def read_exact_array_def Let_def split: if_splits)
  have off: "unat (sq_offset r) = unat (sq_offset r0) + 80"
    using read_exact_into_offset(1) [OF bs] ensure_exact_end_frame [OF e] r by auto
  from commit_describes(1) [OF assms] obtain rs d where dl: "delivered evs = rs @ [(Directory, 0, d)]"
    and c: "committed sha lim (rest inner) rs d c" by blast
  have "unat (sq_offset r0) = length (body_image (rs @ [(Directory, 0, d)]))"
    using byte_reader.streams_inv [OF assms(1) r0(1)] f(1) dl
    by (auto simp: stream_inv_def stream_phase_def consumes_def at_footer_def)
  then show ?thesis using off c by (simp add: committed_def file_image_def Let_def)
qed

section \<open>Properties\<close>

text \<open>
  C5. A commit event of \<open>SequentialReader\<close> over any inner reader that keeps the contract of \<open>Read\<close> means
  that the whole input was one file of the layout, with a matching digest and nothing after the
  footer, and the payload chunks delivered before it reassemble exactly its records, in order, with
  the directory last.
\<close>

theorem stream_commit_sound:
  assumes "byte_reader R rest" and "streams sha R (sequential_new inner lim) (evs @ [Commit c]) r"
  shows "\<exists>rs d. delivered evs = rs @ [(Directory, 0, d)] \<and> committed sha lim (rest inner) rs d c"
  by (rule commit_describes [OF assms])

theorem stream_commit_sound_witness:
  "\<exists>evs c r rs d. streams sample_sha slice_reader (sequential_new sample_file default_limits) (evs @ [Commit c]) r \<and>
     delivered evs = rs @ [(Directory, 0, d)] \<and> committed sample_sha default_limits sample_file rs d c"
  using sample_stream stream_commit_sound [OF slice_in.byte_reader_axioms] by blast

text \<open>
  C10. Every file that \<open>ValidatedFile::parse\<close> accepts, whose only directory record is the last one and
  whose manifest records all decode, is read to its commit by the sequential reader over any ready
  input that presents it, under limits that admit its payloads.
\<close>

theorem stream_reaches_commit:
  assumes "ready_reader R rest" and "parse sha (rest inner) lim = Inr vf"
    and "Directory \<notin> ri_kind ` set (butlast (vf_records vf))"
    and "\<forall>x \<in> set (vf_records vf). ri_kind x = Manifest \<longrightarrow>
      (\<exists>m. and_then (decode_canonical (payload_of (rest inner) x) lim) parse_manifest = Inr m)"
    and "length (rest inner) \<le> unat (max_total_bytes_read lim)" and "length (rest inner) \<le> unat (max_logical_decoded_bytes lim)"
    and "length (rest inner) \<le> unat (max_metadata_bytes lim)" and "length (rest inner) \<le> unat (max_allocation_bytes lim)"
    and "0 < max_stream_chunk_bytes lim"
  shows "\<exists>evs c r. streams sha R (sequential_new inner lim) (evs @ [Commit c]) r \<and>
    sc_manifest_id c = vf_manifest_id vf \<and> sc_roots c = roots (vf_manifest vf) \<and> sc_is_fully_interpretable c"
proof -
  from parsed_streamable [OF assms(2-9)] obtain rs d where st: "streamable sha lim (rest inner) rs d (vf_manifest_id vf) (vf_manifest vf)" by blast
  from ready_reader.stream_completes [OF assms(1) st] obtain evs c r where
    run: "streams sha R (sequential_new inner lim) (evs @ [Commit c]) r" by blast
  from commit_describes [OF ready_reader.axioms(1) [OF assms(1)] run] obtain rs' d' where
    "committed sha lim (rest inner) rs' d' c" by blast
  note u = committed_unique [OF st this]
  have "required_capabilities (vf_manifest vf) = []"
    by (rule parse_sound [OF assms(2)]) (simp add: accepted_def)
  then show ?thesis using run u by (auto simp: sc_is_fully_interpretable_def)
qed

theorem stream_reaches_commit_witness:
  "\<exists>evs c r. streams sample_sha slice_reader (sequential_new sample_file default_limits) (evs @ [Commit c]) r \<and>
     sc_manifest_id c = 1 \<and> sc_roots c = [2]"
proof -
  let ?vf = "view sample_sha sample_records sample_directory 1 sample_manifest"
  have fit: "length sample_file \<le> unat (max_total_bytes_read default_limits)" "length sample_file \<le> unat (max_logical_decoded_bytes default_limits)"
    "length sample_file \<le> unat (max_metadata_bytes default_limits)" "length sample_file \<le> unat (max_allocation_bytes default_limits)"
    "0 < max_stream_chunk_bytes default_limits"
    by (simp_all add: default_limits_def sample_file_def file_image_def Let_def body_image_def
        sample_records_def sample_manifest_bytes_def sample_directory_def)
  have kinds: "Directory \<notin> ri_kind ` set (butlast (vf_records ?vf))"
    using view_kinds [of sample_sha sample_records sample_directory 1 sample_manifest] by (simp add: sample_records_def)
  have mf: "\<forall>x \<in> set (vf_records ?vf). ri_kind x = Manifest \<longrightarrow>
      (\<exists>m. and_then (decode_canonical (payload_of sample_file x) default_limits) parse_manifest = Inr m)"
    by (rule streamable_manifests [OF sample_streamable])
  from stream_reaches_commit [OF slice_ready.ready_reader_axioms, of sample_sha sample_file default_limits, OF sample_parse kinds mf fit]
  show ?thesis by (simp add: view_def sample_manifest_def manifest_new_def) blast
qed

text \<open>
  C9. Whatever the sequential reader commits to with no unsupported required capability,
  \<open>ValidatedFile::parse\<close> accepts, with the same active manifest and roots, and \<open>object\<close> returns the
  payloads that were streamed.
\<close>

theorem stream_agrees_with_parse:
  assumes "streams sha slice_reader (sequential_new X lim) (evs @ [Commit c]) r" and "sc_is_fully_interpretable c"
  shows "\<exists>vf. parse sha X lim = Inr vf \<and> vf_manifest_id vf = sc_manifest_id c \<and> roots (vf_manifest vf) = sc_roots c \<and>
    (\<forall>oid p. vf_object vf oid = Some p \<longleftrightarrow> (\<exists>k. (k, oid, p) \<in> set (delivered evs) \<and> k \<noteq> Directory))"
proof -
  from commit_describes [OF slice_in.byte_reader_axioms assms(1)] obtain rs d where
    dl: "delivered evs = rs @ [(Directory, 0, d)]" and c: "committed sha lim X rs d c" by blast
  from c obtain m where m: "X = file_image sha rs d (sc_manifest_id c)" "length X \<le> unat (max_file_bytes lim)"
    "length (sha (body_image (rs @ [(Directory, 0, d)]))) = 32" "structured lim rs d (sc_manifest_id c) m" "sc_roots c = roots m"
    "sc_unsupported_required_capabilities c = required_capabilities m" unfolding committed_def by blast
  have acc: "accepted lim rs d (sc_manifest_id c) m" using m(4,6) assms(2) by (simp add: accepted_iff sc_is_fully_interpretable_def)
  have "parse sha X lim = Inr (view sha rs d (sc_manifest_id c) m)"
    using parse_complete [of sha rs d "sc_manifest_id c" lim m] m(1-3) acc by simp
  moreover have "vf_object (view sha rs d (sc_manifest_id c) m) oid = Some p \<longleftrightarrow> (\<exists>k. (k, oid, p) \<in> set (delivered evs) \<and> k \<noteq> Directory)" for oid p
    using object_view [of rs sha d "sc_manifest_id c" m oid p] acc m(1,3) le_unat_64 [OF m(2)] by (auto simp: dl accepted_def)
  ultimately show ?thesis using m(5) by (intro exI [of _ "view sha rs d (sc_manifest_id c) m"]) (simp add: view_def)
qed

theorem stream_agrees_with_parse_witness:
  "\<exists>evs c r vf. streams sample_sha slice_reader (sequential_new sample_file default_limits) (evs @ [Commit c]) r \<and>
     parse sample_sha sample_file default_limits = Inr vf \<and> vf_manifest_id vf = sc_manifest_id c"
proof -
  obtain evs c r where run: "streams sample_sha slice_reader (sequential_new sample_file default_limits) (evs @ [Commit c]) r"
    using sample_stream by blast
  from commit_describes [OF slice_in.byte_reader_axioms this] obtain rs d where "committed sample_sha default_limits sample_file rs d c" by blast
  from committed_unique(5) [OF sample_streamable this] have "sc_is_fully_interpretable c"
    by (simp add: sc_is_fully_interpretable_def sample_roots)
  from stream_agrees_with_parse [OF run this] run show ?thesis by blast
qed

text \<open>
  C27. For any inner reader, well behaved or not, the sequential reader issues finitely many events: at
  most twice as many as the bytes it consumed, and it never consumes more than \<open>max_file_bytes\<close>.
\<close>

theorem stream_events_bounded:
  assumes "streams sha R (sequential_new inner lim) evs r"
  shows "length evs \<le> 2 * unat (sq_offset r) \<and> unat (sq_offset r) \<le> unat (max_file_bytes lim)"
  using streams_paid [OF assms] by (auto simp: events_paid_def)

theorem stream_events_bounded_witness:
  "\<exists>evs r. streams sample_sha slice_reader (sequential_new sample_file default_limits) evs r \<and> evs \<noteq> [] \<and>
     length evs \<le> 2 * unat (sq_offset r)"
proof -
  obtain evs c r where "streams sample_sha slice_reader (sequential_new sample_file default_limits) (evs @ [Commit c]) r"
    using sample_stream by blast
  with stream_events_bounded [OF this] show ?thesis by blast
qed

text \<open>What an event shows of the work behind it: the read operations, the payload chunks and the buffer of the step that issued it.\<close>

fun event_reads :: "stream_event \<Rightarrow> nat" where
  "event_reads (RecordEnd k oid) = 0"
| "event_reads ev = 1"

fun event_chunks :: "stream_event \<Rightarrow> nat" where
  "event_chunks (PayloadChunk k oid bs rem) = 1"
| "event_chunks ev = 0"

fun event_buffer :: "stream_event \<Rightarrow> nat" where
  "event_buffer (RecordStart record) = (if sre_kind record = Opaque then 0 else unat (sre_stored_len record))"
| "event_buffer (PayloadChunk k oid bs rem) = length bs"
| "event_buffer ev = 0"

definition work_of :: "stream_event list \<Rightarrow> stream_stats \<Rightarrow> bool" where
  "work_of evs st \<longleftrightarrow> unat (st_read_operations st) = sum_list (map event_reads evs) \<and> unat (st_payload_chunks st) = sum_list (map event_chunks evs) \<and>
     unat (st_largest_allocation st) = fold max (map event_buffer evs) 0"

lemma unat_max: "unat (max a b) = max (unat a) (unat b)"
  by (simp add: max_def word_le_nat_alt)

lemma work_of_snoc:
  assumes "work_of evs st" and "unat (st_read_operations st') = unat (st_read_operations st) + event_reads ev"
    and "unat (st_payload_chunks st') = unat (st_payload_chunks st) + event_chunks ev"
    and "unat (st_largest_allocation st') = max (unat (st_largest_allocation st)) (event_buffer ev)"
  shows "work_of (evs @ [ev]) st'"
  using assms by (simp add: work_of_def max.commute)

lemma read_counts:
  assumes "read_exact_into R n c h r = (Inr bs, r')" and "stats_exact evs r" and "sq_state r \<noteq> StDone"
  shows "unat (st_read_operations (sq_stats r')) = unat (st_read_operations (sq_stats r)) + 1"
    "st_payload_chunks (sq_stats r') = st_payload_chunks (sq_stats r)" "st_largest_allocation (sq_stats r') = st_largest_allocation (sq_stats r)"
proof -
  note rd = read_exact_into_stats [OF assms(1)]
  have "unat (st_read_operations (sq_stats r)) = 0 \<or> unat (st_read_operations (sq_stats r)) + 31 \<le> unat (sq_offset r)"
    using assms(2,3) by (auto simp: stats_exact_def Let_def split: if_splits)
  then have "unat (st_read_operations (sq_stats r)) + 1 < 2 ^ 64" using le_unat_64 [of "unat (st_read_operations (sq_stats r)) + 1" "sq_offset r"] by auto
  then show "unat (st_read_operations (sq_stats r')) = unat (st_read_operations (sq_stats r)) + 1" using rd(2) by (simp add: unat_add_no_overflow)
  show "st_payload_chunks (sq_stats r') = st_payload_chunks (sq_stats r)" "st_largest_allocation (sq_stats r') = st_largest_allocation (sq_stats r)"
    using rd(2) by simp_all
qed

lemma header_work:
  assumes "read_header R r = (Inr ev, r')" and "sq_state r = StHeader" and "stats_exact evs r" and "work_of evs (sq_stats r)"
  shows "work_of (evs @ [ev]) (sq_stats r')"
proof -
  from assms(1) obtain bs r1 where bs: "read_exact_into R 32 ''file header'' True r = (Inr bs, r1)"
    and r': "r' = r1\<lparr>sq_state := StRecordHeader\<rparr>" "ev = FileHeader EXPERIMENTAL_EPOCH"
    by (auto simp: read_header_def op_simps read_exact_array_def)
  show ?thesis using read_counts [OF bs assms(3)] assms(2) by (intro work_of_snoc [OF assms(4)]) (simp_all add: r')
qed

lemma record_header_work:
  assumes "read_record_header R r = (Inr ev, r')" and "sq_state r = StRecordHeader" and "stats_exact evs r" and "work_of evs (sq_stats r)"
  shows "work_of (evs @ [ev]) (sq_stats r')"
proof -
  let ?r = "r\<lparr>sq_record_count := sq_record_count r + 1\<rparr>"
  from assms(1) obtain bs r1 rh where bs: "read_exact_into R 40 ''record header'' True ?r = (Inr bs, r1)"
    and op: "open_record rh (sq_offset r) r1 = (Inr ev, r')"
    by (auto simp: read_record_header_Ok)
  have "stats_exact evs ?r" using assms(3) by (simp add: stats_exact_def Let_def)
  note rd = read_counts [OF bs this]
  show ?thesis using rd op assms(2) by (intro work_of_snoc [OF assms(4)]) (auto simp: open_record_Ok start_record_def unat_max)
qed

lemma finish_work:
  assumes "finish_record r = (Inr ev, r')" and "work_of evs (sq_stats r)"
  shows "work_of (evs @ [ev]) (sq_stats r')"
proof -
  obtain k oid where "ev = RecordEnd k oid" using finish_record_event [OF assms(1)] by blast
  then show ?thesis using finish_record_frame(4) [OF assms(1)] by (intro work_of_snoc [OF assms(2)]) simp_all
qed

context byte_reader
begin

lemma payload_work:
  assumes "read_payload_event R r = (Inr ev, r')" and "sq_state r = StPayload" and "stats_exact evs r" and "work_of evs (sq_stats r)"
  shows "work_of (evs @ [ev]) (sq_stats r')"
proof -
  from assms(1) obtain a where a: "sq_active r = Some a" by (auto simp: read_payload_event_def op_simps result_simps)
  show ?thesis
  proof (cases "ac_remaining a = 0")
    case True
    then have "finish_record (r\<lparr>sq_state := StRecordEnd\<rparr>) = (Inr ev, r')" using assms(1) a by (simp add: read_payload_event_def op_simps)
    then show ?thesis using finish_work [of "r\<lparr>sq_state := StRecordEnd\<rparr>"] assms(4) by simp
  next
    case False
    from read_payload_event_Ok [OF a this] assms(1) obtain n bs r1 where
      bs: "read_exact_into R (unat n) ''record payload'' True (r\<lparr>sq_stats := (sq_stats r)\<lparr>st_largest_allocation := max (st_largest_allocation (sq_stats r)) n\<rparr>\<rparr>) = (Inr bs, r1)"
      and c: "consume_chunk a n bs r1 = (Inr ev, r')" by blast
    have "stats_exact evs (r\<lparr>sq_stats := (sq_stats r)\<lparr>st_largest_allocation := max (st_largest_allocation (sq_stats r)) n\<rparr>\<rparr>)"
      using assms(3) by (simp add: stats_exact_def Let_def)
    note rd = read_counts [OF bs this]
    have "length bs = unat n" using read_exact_into_Ok [OF bs] read_exact_takes by blast
    then show ?thesis using rd c assms(2) by (intro work_of_snoc [OF assms(4)]) (simp_all add: consume_chunk_Ok unat_max unat_add_no_overflow)
  qed
qed

end

lemma ensure_exact_end_counts:
  assumes "ensure_exact_end R r = (Inr u, r')"
  shows "unat (st_read_operations (sq_stats r)) < unat (st_read_operations (sq_stats r'))"
    "\<exists>i n. r' = r\<lparr>sq_stats := (sq_stats r)\<lparr>st_read_operations := n\<rparr>, sq_inner := i\<rparr>"
proof -
  show "\<exists>i n. r' = r\<lparr>sq_stats := (sq_stats r)\<lparr>st_read_operations := n\<rparr>, sq_inner := i\<rparr>" by (rule ensure_exact_end_frame [OF assms])
  show "unat (st_read_operations (sq_stats r)) < unat (st_read_operations (sq_stats r'))" using assms
  proof (induction "2 ^ 64 - unat (st_read_operations (sq_stats r))" arbitrary: r rule: less_induct)
    case less
    from less.prems show ?case
    proof (cases rule: ensure_exact_end_step)
      case (ended ops i)
      then show ?thesis by (auto simp: checked_add_Some_iff)
    next
      case (again ops i)
      have "unat ops = unat (st_read_operations (sq_stats r)) + 1" using again(1) by (simp add: checked_add_Some_iff)
      then show ?thesis using less.hyps [OF _ again(3)] operation_progress [OF again(1)] by simp
    qed
  qed
qed

text \<open>A commit has read the footer and asked at least once for the end of the input.\<close>

lemma footer_work:
  assumes "read_footer sha R r = (Inr ev, r')" and "sq_state r = StFooter" and "stats_exact evs r" and "work_of evs (sq_stats r)"
  shows "sum_list (map event_reads evs) + 2 \<le> unat (st_read_operations (sq_stats r'))" "unat (st_payload_chunks (sq_stats r')) = sum_list (map event_chunks evs)"
    "unat (st_largest_allocation (sq_stats r')) = fold max (map event_buffer evs) 0"
proof -
  from assms(1) obtain bs r1 r2 where bs: "read_exact_into R 80 ''footer'' False r = (Inr bs, r1)"
    and e: "ensure_exact_end R r1 = (Inr (), r2)" and r': "r' = r2\<lparr>sq_state := StDone\<rparr>"
    by (auto simp: op_simps result_simps read_footer_def read_exact_array_def Let_def split: if_splits)
  have "sq_state r \<noteq> StDone" using assms(2) by simp
  note rd = read_counts [OF bs assms(3) this] and en = ensure_exact_end_counts [OF e]
  show "sum_list (map event_reads evs) + 2 \<le> unat (st_read_operations (sq_stats r'))" using rd(1) en(1) assms(4) by (simp add: r' work_of_def)
  show "unat (st_payload_chunks (sq_stats r')) = sum_list (map event_chunks evs)" "unat (st_largest_allocation (sq_stats r')) = fold max (map event_buffer evs) 0"
    using rd(2,3) en(2) assms(4) by (auto simp: r' work_of_def)
qed

lemma footer_event: "read_footer sha R r = (Inr ev, r') \<Longrightarrow> sq_state r' = StDone"
  by (auto simp: read_footer_def op_simps Let_def split: if_splits)

context byte_reader
begin

lemma streams_work:
  assumes "streams sha R (sequential_new inner lim) evs r" and "sq_state r \<noteq> StDone"
  shows "work_of evs (sq_stats r)"
  using assms
proof (induction rule: streams.induct)
  case (event evs r' ev r'')
  note step = event.hyps(2)
  have "sq_state r' \<noteq> StDone" using step by (auto simp: next_event_def state_event_def)
  then have w: "work_of evs (sq_stats r')" using event.IH by blast
  have st: "stats_exact evs r'" by (rule streams_stats [OF event.hyps(1)])
  show ?case using step event.prems footer_event [of sha R r' ev r''] header_work [OF _ _ st w] record_header_work [OF _ _ st w]
      payload_work [OF _ _ st w] finish_work [OF _ w]
    by (auto simp: next_event_def state_event_def op_simps comp_def split: prod.splits sum.splits stream_state.splits)
qed (simp add: work_of_def sequential_new_def stream_stats_default_def)

end

lemma commit_work:
  assumes "byte_reader R rest" and "streams sha R (sequential_new inner lim) (evs @ [Commit c]) r"
  shows "sum_list (map event_reads evs) + 2 \<le> unat (st_read_operations (sc_stats c))" "unat (st_payload_chunks (sc_stats c)) = sum_list (map event_chunks evs)"
    "unat (st_largest_allocation (sc_stats c)) = fold max (map event_buffer evs) 0"
proof -
  from assms(2) obtain r0 where r0: "streams sha R (sequential_new inner lim) evs r0" "next_event sha R r0 = (Inr (Some (Commit c)), r)"
    by (rule streams_snocE)
  note f = commit_step [OF r0(2)]
  have "sq_state r0 \<noteq> StDone" using f(1) by simp
  note w = byte_reader.streams_work [OF assms(1) r0(1) this] and st = byte_reader.streams_stats [OF assms(1) r0(1)]
  show "sum_list (map event_reads evs) + 2 \<le> unat (st_read_operations (sc_stats c))" "unat (st_payload_chunks (sc_stats c)) = sum_list (map event_chunks evs)"
    "unat (st_largest_allocation (sc_stats c)) = fold max (map event_buffer evs) 0"
    unfolding commit_describes(3) [OF assms] using footer_work [OF f(2,1) st w] by simp_all
qed

text \<open>
  C26. Over a reader that keeps the contract of \<open>Read\<close>, no payload chunk is empty or exceeds
  \<open>max_stream_chunk_bytes\<close> or \<open>max_allocation_bytes\<close>. When the reader commits, the bytes read are the
  whole input, the bytes hashed all but the footer, the logical bytes the sum of the payloads, within
  \<open>max_logical_decoded_bytes\<close>; the payload chunks are the chunks issued; the largest allocation is the
  largest buffer of a chunk or of an interpreted payload; and the read operations are at least one for
  every event with bytes of its own (header, record header, chunk), one for the footer and one for the end
  of the input. The last is a lower bound since the code counts every attempt to see the end of the input.
\<close>

theorem stream_accounting:
  assumes "byte_reader R rest" and "streams sha R (sequential_new inner lim) (evs @ [Commit c]) r"
  shows "(\<forall>k oid bs rem. PayloadChunk k oid bs rem \<in> set evs \<longrightarrow> bs \<noteq> [] \<and>
      length bs \<le> unat (max_stream_chunk_bytes lim) \<and> length bs \<le> unat (max_allocation_bytes lim)) \<and>
    unat (st_bytes_read (sc_stats c)) = length (rest inner) \<and> unat (st_bytes_hashed (sc_stats c)) + 80 = length (rest inner) \<and>
    unat (st_logical_bytes (sc_stats c)) = payload_total (delivered evs) \<and>
    st_logical_bytes (sc_stats c) \<le> max_logical_decoded_bytes lim \<and>
    unat (st_payload_chunks (sc_stats c)) = sum_list (map event_chunks evs) \<and>
    unat (st_largest_allocation (sc_stats c)) = Max (set (0 # map event_buffer evs)) \<and>
    sum_list (map event_reads evs) + 2 \<le> unat (st_read_operations (sc_stats c))"
proof -
  have ch: "\<forall>ev \<in> set evs. chunk_bounded lim ev" using byte_reader.streams_chunks [OF assms] by simp
  have "\<forall>k oid bs rem. PayloadChunk k oid bs rem \<in> set evs \<longrightarrow> bs \<noteq> [] \<and>
      length bs \<le> unat (max_stream_chunk_bytes lim) \<and> length bs \<le> unat (max_allocation_bytes lim)"
  proof (intro allI impI)
    fix k oid bs rem assume "PayloadChunk k oid bs rem \<in> set evs"
    from bspec [OF ch this] show "bs \<noteq> [] \<and> length bs \<le> unat (max_stream_chunk_bytes lim) \<and> length bs \<le> unat (max_allocation_bytes lim)"
      by (simp add: chunk_bounded_def)
  qed
  moreover have "unat (sq_offset r) = length (rest inner)" by (rule commit_offset [OF assms])
  moreover have st: "sc_stats c = sq_stats r" and fin: "sq_state r = StDone" by (rule commit_describes [OF assms])+
  have "sq_limits r = lim" using streams_paid [OF assms(2)] by (simp add: events_paid_def)
  then have "st_bytes_read (sc_stats c) = sq_offset r" "unat (st_bytes_hashed (sc_stats c)) + 80 = unat (sq_offset r)"
    "unat (st_logical_bytes (sc_stats c)) = payload_total (delivered evs)" "st_logical_bytes (sc_stats c) \<le> max_logical_decoded_bytes lim"
    using byte_reader.streams_stats [OF assms] fin by (simp_all add: stats_exact_def Let_def st)
  ultimately show ?thesis using commit_work [OF assms] unfolding Max.set_eq_fold by simp
qed

theorem stream_accounting_witness:
  "\<exists>evs c r. streams sample_sha slice_reader (sequential_new sample_file default_limits) (evs @ [Commit c]) r \<and>
     unat (st_bytes_read (sc_stats c)) = length sample_file"
  using sample_stream stream_accounting [OF slice_in.byte_reader_axioms] by blast

text \<open>
  A failure is terminal. After \<open>next_event\<close> has returned an error every further call returns the
  same error of a failed reader and changes nothing; after the iterator has yielded an error it ends.
\<close>

theorem stream_failure_terminal:
  assumes "next_event sha R r = (Inl e, r')"
  shows "next_event sha R r' = (Inl (InvalidRecordOrder ''reader used after failure''), r') \<and>
    (\<exists>r''. iterator_next sha R r = (Some (Inl e), r'') \<and> iterator_next sha R r'' = (None, r''))"
proof -
  from assms have failed: "sq_state r' = StFailed"
    by (auto simp: next_event_def split: prod.splits sum.splits)
  then have "next_event sha R r' = (Inl (InvalidRecordOrder ''reader used after failure''), r'\<lparr>sq_state := StFailed\<rparr>)"
    by (simp add: next_event_def state_event_def)
  moreover have "r'\<lparr>sq_state := StFailed\<rparr> = r'" using failed by simp
  ultimately show ?thesis
    using assms by (simp add: iterator_next_def next_event_def [of _ _ "r'\<lparr>sq_state := StDone\<rparr>"] state_event_def)
qed

theorem stream_failure_terminal_witness:
  "\<exists>e r'. next_event sample_sha slice_reader (sequential_new [] default_limits) = (Inl e, r') \<and>
     next_event sample_sha slice_reader r' = (Inl (InvalidRecordOrder ''reader used after failure''), r')"
proof -
  obtain r' where "next_event sample_sha slice_reader (sequential_new [] default_limits) = (Inl (Truncated ''file header''), r')"
    by (simp add: next_event_def state_event_def sequential_new_def read_header_def read_exact_array_def read_exact_into_def
        op_bind_def op_run check_file_budget_def checked_add_def default_limits_def stream_stats_default_def
        slice_reader_def slice_read_exact_def)
  with stream_failure_terminal [OF this] show ?thesis by blast
qed

end
