(* ===== verification/Ucof_Stream_Writer.thy ===== *)
theory Ucof_Stream_Writer
  imports Ucof_Stream Ucof_Writer
begin

text \<open>
  \<open>ucof-core/src/stream_writer.rs\<close>: the writer to a non-seeking sink. The sink is the record of its
  \<open>write_all\<close> on a sink state (and of \<open>stream_position\<close> and \<open>seek\<close> for the seekable wrapper); the
  hasher is the list of the bytes fed to it. A method that consumes the writer still returns the
  writer it leaves, because the sink keeps what was written to it.
\<close>

section \<open>State\<close>

type_synonym 'w write_all = "'w \<Rightarrow> bytes \<Rightarrow> unit io_result \<times> 'w"

record 'w streaming_writer =
  sw_inner :: 'w
  sw_limits :: limits
  sw_hasher :: bytes
  sw_entries :: "directory_entry list"
  sw_object_ids :: "u64 set"
  sw_offset :: u64
  sw_failed :: bool

record 'w finished_writer =
  fw_inner :: 'w
  fw_bytes_written :: u64

section \<open>Checked output\<close>

definition write_checked :: "'w write_all \<Rightarrow> bytes \<Rightarrow> string \<Rightarrow> ('w streaming_writer, unit) op" where
  "write_checked W bs context =
     op_bind (op_lift (ok_or (RangeOutOfBounds ''writer length'') (u64_try_from (length bs)))) (\<lambda>len.
     op_bind (op_get sw_offset) (\<lambda>offset.
     op_bind (op_lift (ok_or (RangeOutOfBounds ''writer offset'') (checked_add offset len))) (\<lambda>next.
     op_bind (op_get (max_file_bytes \<circ> sw_limits)) (\<lambda>limit.
     if next > limit then op_fail (LimitExceeded ''file bytes'') else
     op_bind (\<lambda>w. case W (sw_inner w) bs of
                (Inl e, i) \<Rightarrow> (Inl (Io context), w\<lparr>sw_inner := i\<rparr>)
              | (Inr _, i) \<Rightarrow> (Inr (), w\<lparr>sw_inner := i\<rparr>)) (\<lambda>_.
     op_modify (\<lambda>w. w\<lparr>sw_offset := next\<rparr>))))))"

definition write_hashed :: "'w write_all \<Rightarrow> bytes \<Rightarrow> string \<Rightarrow> ('w streaming_writer, unit) op" where
  "write_hashed W bs context =
     op_bind (write_checked W bs context) (\<lambda>_.
     op_modify (\<lambda>w. w\<lparr>sw_hasher := sw_hasher w @ bs\<rparr>))"

definition write_unhashed :: "'w write_all \<Rightarrow> bytes \<Rightarrow> string \<Rightarrow> ('w streaming_writer, unit) op" where
  "write_unhashed W bs context = write_checked W bs context"

definition ensure_open :: "('w streaming_writer, unit) op" where
  "ensure_open =
     op_bind (op_get sw_failed) (\<lambda>failed.
     if failed then op_fail (InvalidRecordOrder ''writer used after failure'') else op_return ())"

text \<open>\<open>if let Err(error) = \<dots> { self.failed = true; return Err(error); }\<close>\<close>

definition or_fail :: "('w streaming_writer, 'a) op \<Rightarrow> ('w streaming_writer, 'a) op" where
  "or_fail m = (\<lambda>w. case m w of (Inl e, w') \<Rightarrow> (Inl e, w'\<lparr>sw_failed := True\<rparr>) | (Inr x, w') \<Rightarrow> (Inr x, w'))"

section \<open>Records\<close>

definition streaming_new :: "'w write_all \<Rightarrow> 'w \<Rightarrow> limits \<Rightarrow> 'w streaming_writer result \<times> 'w" where
  "streaming_new W inner lim =
     (let writer = \<lparr>sw_inner = inner, sw_limits = lim, sw_hasher = [], sw_entries = [], sw_object_ids = {},
            sw_offset = 0, sw_failed = False\<rparr>;
          header = FILE_MAGIC;
          header = push_u32_le header EXPERIMENTAL_EPOCH;
          header = push_u32_le header 0;
          header = push_u32_le header (of_nat HEADER_LEN);
          header = header @ replicate 12 0
      in case write_hashed W header ''file header'' writer of
           (Inl e, writer) \<Rightarrow> (Inl e, sw_inner writer)
         | (Inr _, writer) \<Rightarrow> (Inr writer, sw_inner writer))"

definition write_record_header :: "'w write_all \<Rightarrow> record_kind \<Rightarrow> u64 \<Rightarrow> u64 \<Rightarrow> ('w streaming_writer, unit) op" where
  "write_record_header W kind object_id payload_len =
     (let header = RECORD_MAGIC;
          header = push_u16_le header (u16_from_kind kind);
          header = push_u16_le header 0;
          header = push_u32_le header (of_nat RECORD_HEADER_LEN);
          header = push_u64_le header payload_len;
          header = push_u64_le header payload_len;
          header = push_u64_le header object_id;
          header = push_u32_le header 0
      in write_hashed W header ''record header'')"

definition saturating_sub :: "u64 \<Rightarrow> u64 \<Rightarrow> u64" where
  "saturating_sub a b = (if b \<le> a then a - b else 0)"

definition begin_record :: "'w write_all \<Rightarrow> record_kind \<Rightarrow> u64 \<Rightarrow> u64 \<Rightarrow> ('w streaming_writer, unit) op" where
  "begin_record W kind object_id payload_len =
     op_bind ensure_open (\<lambda>_.
     if kind = Directory then op_fail (InvalidRecordOrder ''directory is created during finalization'') else
     if object_id = 0 then op_fail (InvalidMetadataSchema ''object identifier zero is reserved'') else
     op_bind (op_get sw_limits) (\<lambda>lim.
     if payload_len > max_payload_bytes lim then op_fail (LimitExceeded ''record payload bytes'') else
     op_bind (op_get sw_entries) (\<lambda>entries.
     op_bind (op_lift (ok_or (LimitExceeded ''record count'') (u64_try_from (length entries)))) (\<lambda>count.
     if count \<ge> saturating_sub (max_records lim) 1 then op_fail (LimitExceeded ''record count'') else
     op_bind (op_get sw_object_ids) (\<lambda>ids.
     if object_id \<in> ids then op_fail (DuplicateObjectId object_id) else
     op_bind (op_modify (\<lambda>w. w\<lparr>sw_object_ids := insert object_id ids\<rparr>)) (\<lambda>_.
     op_bind (op_get sw_offset) (\<lambda>offset.
     op_bind (or_fail (write_record_header W kind object_id payload_len)) (\<lambda>_.
     op_modify (\<lambda>w. w\<lparr>sw_entries := sw_entries w @ [\<lparr>de_id = object_id, de_kind = kind, de_offset = offset,
       de_stored_len = payload_len, de_logical_len = payload_len\<rparr>]\<rparr>)))))))))"

definition sw_add_opaque :: "'w write_all \<Rightarrow> u64 \<Rightarrow> bytes \<Rightarrow> ('w streaming_writer, unit) op" where
  "sw_add_opaque W object_id payload =
     op_bind (op_lift (ok_or (InvalidLength ''record payload'') (u64_try_from (length payload)))) (\<lambda>len.
     op_bind (begin_record W Opaque object_id len) (\<lambda>_.
     or_fail (write_hashed W payload ''opaque payload'')))"

text \<open>
  The copy loop of \<open>add_opaque_from_reader\<close>, on the writer and the payload source. The caller has
  excluded a chunk limit of zero.
\<close>

lemma copy_progress: "remaining \<noteq> 0 \<Longrightarrow> chunk \<noteq> 0 \<Longrightarrow> unat (remaining - min remaining chunk) < unat (remaining :: u64)"
  by (simp add: min_def unat_sub word_le_nat_alt) (metis unat_gt_0 diff_less)

function copy_loop :: "'s read_impl \<Rightarrow> 'w write_all \<Rightarrow> u64 \<Rightarrow> u64 \<Rightarrow> 'w streaming_writer \<Rightarrow> 's
    \<Rightarrow> unit result \<times> 'w streaming_writer \<times> 's" where
  "copy_loop R W chunk_limit remaining w s =
     (if remaining = 0 \<or> chunk_limit = 0 then (Inr (), w, s) else
      let amount = min remaining chunk_limit in
      case rd_read_exact R s (unat amount) of
        (Inl e, s) \<Rightarrow> (Inl (if e = UnexpectedEof then Truncated ''writer payload source'' else Io ''writer payload source''),
          w\<lparr>sw_failed := True\<rparr>, s)
      | (Inr bs, s) \<Rightarrow>
        (case or_fail (write_hashed W bs ''opaque payload'') w of
           (Inl e, w) \<Rightarrow> (Inl e, w, s)
         | (Inr _, w) \<Rightarrow> copy_loop R W chunk_limit (remaining - amount) w s))"
  by pat_completeness auto
termination
  by (relation "measure (\<lambda>(R, W, c, n, w, s). unat n)") (auto simp: copy_progress)

declare copy_loop.simps [simp del]

definition sw_add_opaque_from_reader :: "'s read_impl \<Rightarrow> 'w write_all \<Rightarrow> u64 \<Rightarrow> u64 \<Rightarrow> 'w streaming_writer \<Rightarrow> 's
    \<Rightarrow> unit result \<times> 'w streaming_writer \<times> 's" where
  "sw_add_opaque_from_reader R W object_id len w s =
     (case begin_record W Opaque object_id len w of
        (Inl e, w) \<Rightarrow> (Inl e, w, s)
      | (Inr _, w) \<Rightarrow>
        let chunk_limit = min (max_stream_chunk_bytes (sw_limits w)) (max_allocation_bytes (sw_limits w)) in
        if chunk_limit = 0 then (Inl (LimitExceeded ''stream chunk bytes''), w\<lparr>sw_failed := True\<rparr>, s)
        else copy_loop R W chunk_limit len w s)"

definition sw_add_manifest :: "'w write_all \<Rightarrow> u64 \<Rightarrow> manifest \<Rightarrow> ('w streaming_writer, unit) op" where
  "sw_add_manifest W object_id m =
     op_bind (op_lift (validate_shape m)) (\<lambda>_.
     op_bind (op_lift (encode_canonical (manifest_to_cbor m))) (\<lambda>payload.
     op_bind (op_lift (ok_or (InvalidLength ''manifest payload'') (u64_try_from (length payload)))) (\<lambda>len.
     op_bind (begin_record W Manifest object_id len) (\<lambda>_.
     or_fail (write_hashed W payload ''manifest payload'')))))"

section \<open>Finalization\<close>

definition streaming_finish :: "(bytes \<Rightarrow> bytes) \<Rightarrow> 'w write_all \<Rightarrow> u64 \<Rightarrow> ('w streaming_writer, 'w finished_writer) op" where
  "streaming_finish sha W manifest_id =
     op_bind ensure_open (\<lambda>_.
     op_bind (op_get sw_entries) (\<lambda>entries.
     op_bind (op_lift (ok_or (MissingManifest manifest_id) (List.find (\<lambda>e. de_id e = manifest_id) entries))) (\<lambda>selected.
     if de_kind selected \<noteq> Manifest then op_fail (MissingManifest manifest_id) else
     op_bind (op_lift (encode_canonical (directory_value entries))) (\<lambda>directory_payload.
     op_bind (op_lift (ok_or (InvalidLength ''directory payload'') (u64_try_from (length directory_payload)))) (\<lambda>directory_len.
     op_bind (op_get sw_limits) (\<lambda>lim.
     if directory_len > max_metadata_bytes lim then op_fail (LimitExceeded ''directory metadata bytes'') else
     op_bind (op_get sw_offset) (\<lambda>directory_offset.
     op_bind (write_record_header W Directory 0 directory_len) (\<lambda>_.
     op_bind (write_hashed W directory_payload ''directory payload'') (\<lambda>_.
     op_bind (op_lift (ok_or (InvalidLength ''directory record'') (checked_add (of_nat RECORD_HEADER_LEN) directory_len))) (\<lambda>directory_total_len.
     op_bind (op_lift (ok_or (InvalidLength ''record count'') (u64_try_from (length entries)))) (\<lambda>n.
     op_bind (op_lift (ok_or (InvalidLength ''record count'') (checked_add n 1))) (\<lambda>record_count.
     if record_count > max_records lim then op_fail (LimitExceeded ''record count'') else
     op_bind (op_get sw_hasher) (\<lambda>hashed.
     let footer = FOOTER_MAGIC;
         footer = push_u32_le footer (of_nat FOOTER_LEN);
         footer = push_u32_le footer 0;
         footer = push_u64_le footer directory_offset;
         footer = push_u64_le footer directory_total_len;
         footer = push_u64_le footer manifest_id;
         footer = push_u64_le footer record_count;
         footer = footer @ sha hashed
     in op_bind (write_unhashed W footer ''footer'') (\<lambda>_.
     op_get (\<lambda>w. \<lparr>fw_inner = sw_inner w, fw_bytes_written = sw_offset w\<rparr>)))))))))))))))"

section \<open>Seekable output\<close>

record 'w seek_sink =
  sk_write_all :: "'w write_all"
  sk_position :: "'w \<Rightarrow> u64 io_result \<times> 'w"
  sk_seek :: "'w \<Rightarrow> seek_from \<Rightarrow> u64 io_result \<times> 'w"

definition seekable_new :: "'w seek_sink \<Rightarrow> 'w \<Rightarrow> limits \<Rightarrow> 'w streaming_writer result \<times> 'w" where
  "seekable_new K sink lim =
     (case sk_position K sink of
        (Inl e, sink) \<Rightarrow> (Inl (Io ''seekable writer position''), sink)
      | (Inr pos, sink) \<Rightarrow>
        if pos \<noteq> 0 then (Inl (InvalidRecordOrder ''seekable output must begin at offset zero''), sink)
        else streaming_new (sk_write_all K) sink lim)"

definition finish_and_rewind :: "(bytes \<Rightarrow> bytes) \<Rightarrow> 'w seek_sink \<Rightarrow> u64 \<Rightarrow> 'w streaming_writer
    \<Rightarrow> 'w finished_writer result \<times> 'w" where
  "finish_and_rewind sha K manifest_id w =
     (case streaming_finish sha (sk_write_all K) manifest_id w of
        (Inl e, w) \<Rightarrow> (Inl e, sw_inner w)
      | (Inr finished, w) \<Rightarrow>
        (case sk_seek K (fw_inner finished) (SeekStart 0) of
           (Inl e, i) \<Rightarrow> (Inl (Io ''rewind finalized output''), i)
         | (Inr _, i) \<Rightarrow> (Inr (finished\<lparr>fw_inner := i\<rparr>), i)))"

end
