(* ===== verification/Ucof_Stream_Writer_Sound.thy ===== *)
theory Ucof_Stream_Writer_Sound
  imports Ucof_Stream_Writer Ucof_Stream_Complete Ucof_Sample
begin

text \<open>
  The streaming writer (\<open>stream_writer.rs\<close>) writes the layout of the in-memory writer: whatever
  sequence of calls was made, a sink that received a finished file holds exactly the bytes that
  \<open>writer.rs\<close> builds for the same records, and a writer that failed publishes nothing.
\<close>

section \<open>Sinks\<close>

text \<open>The contract of \<open>write_all\<close>: success appends the buffer to what the sink holds, failure at most
  a part of it.\<close>

locale byte_sink =
  fixes W :: "'w write_all" and written :: "'w \<Rightarrow> bytes"
  assumes write_all_appends: "W s bs = (Inr u, s') \<Longrightarrow> written s' = written s @ bs"
    and write_all_partial: "W s bs = (Inl e, s') \<Longrightarrow> \<exists>n. written s' = written s @ take n bs"

text \<open>\<open>Vec<u8>\<close> as a sink.\<close>

definition vec_write_all :: "bytes write_all" where
  "vec_write_all s bs = (Inr (), s @ bs)"

interpretation vec_sink: byte_sink vec_write_all "\<lambda>s. s"
  by unfold_locales (simp_all add: vec_write_all_def)

section \<open>Operations that succeed\<close>

lemma write_checked_Ok:
  "write_checked W bs c w = (Inr u, w') \<longleftrightarrow>
     (\<exists>i. W (sw_inner w) bs = (Inr (), i) \<and> unat (sw_offset w) + length bs \<le> unat (max_file_bytes (sw_limits w)) \<and>
        w' = w\<lparr>sw_inner := i, sw_offset := sw_offset w + of_nat (length bs)\<rparr>)"
proof (cases "length bs < 2 ^ 64")
  case True
  note within = checked_add_within [of "sw_offset w" "of_nat (length bs)" _ "max_file_bytes (sw_limits w)"]
  show ?thesis
  proof (cases "unat (sw_offset w) + length bs \<le> unat (max_file_bytes (sw_limits w))")
    case room: True
    then have "checked_add (sw_offset w) (of_nat (length bs)) = Some (sw_offset w + of_nat (length bs))"
      "\<not> max_file_bytes (sw_limits w) < sw_offset w + of_nat (length bs)" using within True by auto
    then show ?thesis
      using True room by (auto simp: write_checked_def op_simps split: prod.splits sum.splits)
  qed (use True within in \<open>auto simp: write_checked_def op_simps result_simps split: if_splits\<close>)
next
  case False
  then have "\<not> unat (sw_offset w) + length bs \<le> unat (max_file_bytes (sw_limits w))"
    using le_unat_64 [of "unat (sw_offset w) + length bs" "max_file_bytes (sw_limits w)"] by auto
  then show ?thesis using False by (auto simp: write_checked_def op_simps result_simps u64_try_from_def)
qed

lemma write_hashed_Ok:
  "write_hashed W bs c w = (Inr u, w') \<longleftrightarrow>
     (\<exists>i. W (sw_inner w) bs = (Inr (), i) \<and> unat (sw_offset w) + length bs \<le> unat (max_file_bytes (sw_limits w)) \<and>
        w' = w\<lparr>sw_inner := i, sw_offset := sw_offset w + of_nat (length bs), sw_hasher := sw_hasher w @ bs\<rparr>)"
  by (auto simp: write_hashed_def op_simps write_checked_Ok)

lemma or_fail_Ok: "or_fail m w = (Inr x, w') \<longleftrightarrow> m w = (Inr x, w')"
  by (auto simp: or_fail_def split: prod.splits sum.splits)

lemma or_fail_Err: "or_fail m w = (Inl e, w') \<Longrightarrow> sw_failed w'"
  by (auto simp: or_fail_def split: prod.splits sum.splits)

lemma record_header_bytes:
  "write_record_header W k oid n = write_hashed W (record_header k oid n) ''record header''"
  by (simp add: write_record_header_def record_header_def push_u16_le_def push_u32_le_def push_u64_le_def Let_def)

definition push_entry :: "record_kind \<Rightarrow> u64 \<Rightarrow> u64 \<Rightarrow> 'w \<Rightarrow> 'w streaming_writer \<Rightarrow> 'w streaming_writer" where
  "push_entry k oid len i w = w\<lparr>sw_inner := i, sw_offset := sw_offset w + 40, sw_hasher := sw_hasher w @ record_header k oid len,
     sw_object_ids := insert oid (sw_object_ids w),
     sw_entries := sw_entries w @ [\<lparr>de_id = oid, de_kind = k, de_offset = sw_offset w, de_stored_len = len, de_logical_len = len\<rparr>]\<rparr>"

lemma begin_record_Ok:
  "begin_record W k oid len w = (Inr u, w') \<longleftrightarrow> \<not> sw_failed w \<and> k \<noteq> Directory \<and> oid \<noteq> 0 \<and> oid \<notin> sw_object_ids w \<and>
     len \<le> max_payload_bytes (sw_limits w) \<and> length (sw_entries w) < unat (saturating_sub (max_records (sw_limits w)) 1) \<and>
     (\<exists>i. W (sw_inner w) (record_header k oid len) = (Inr (), i) \<and> unat (sw_offset w) + 40 \<le> unat (max_file_bytes (sw_limits w)) \<and>
        w' = push_entry k oid len i w)"
proof (cases "length (sw_entries w) < 2 ^ 64")
  case True
  then show ?thesis
    by (auto simp: begin_record_def op_simps result_simps ensure_open_def or_fail_Ok record_header_bytes write_hashed_Ok push_entry_def
        word_le_nat_alt word_less_nat_alt split: if_splits)
next
  case False
  then have "\<not> length (sw_entries w) < unat (saturating_sub (max_records (sw_limits w)) 1)"
    using le_unat_64 [of "length (sw_entries w)" "saturating_sub (max_records (sw_limits w)) 1"] by auto
  then show ?thesis using False by (auto simp: begin_record_def op_simps result_simps u64_try_from_def ensure_open_def split: if_splits)
qed

text \<open>A call that fails has marked the writer failed, or has not touched it.\<close>

lemma begin_record_Err:
  assumes "begin_record W k oid len w = (Inl e, w')"
  shows "w' = w \<or> sw_failed w'"
  using assms
  by (auto simp: begin_record_def op_bind_Err_iff op_simps ensure_open_def dest: or_fail_Err split: if_splits)

section \<open>Calls\<close>

text \<open>The records a sequence of calls has added. The payload sources of \<open>add_opaque_from_reader\<close> are
  states of one reader \<open>R\<close>.\<close>

inductive sw_writes :: "'w write_all \<Rightarrow> 's read_impl \<Rightarrow> ('s \<Rightarrow> bytes) \<Rightarrow> 'w \<Rightarrow> limits \<Rightarrow> 'w streaming_writer \<Rightarrow> record_spec list \<Rightarrow> bool"
  for W R rest inner lim where
  sw_new: "streaming_new W inner lim = (Inr w, i) \<Longrightarrow> sw_writes W R rest inner lim w []"
| sw_opaque: "sw_writes W R rest inner lim w rs \<Longrightarrow> sw_add_opaque W oid p w = (Inr u, w') \<Longrightarrow>
    sw_writes W R rest inner lim w' (rs @ [(Opaque, oid, p)])"
| sw_reader: "sw_writes W R rest inner lim w rs \<Longrightarrow> sw_add_opaque_from_reader R W oid len w s = (Inr u, w', s') \<Longrightarrow>
    sw_writes W R rest inner lim w' (rs @ [(Opaque, oid, take (unat len) (rest s))])"
| sw_manifest: "sw_writes W R rest inner lim w rs \<Longrightarrow> sw_add_manifest W oid m w = (Inr u, w') \<Longrightarrow>
    encode_canonical (manifest_to_cbor m) = Inr p \<Longrightarrow> sw_writes W R rest inner lim w' (rs @ [(Manifest, oid, p)])"
| sw_opaque_fails: "sw_writes W R rest inner lim w rs \<Longrightarrow> sw_add_opaque W oid p w = (Inl e, w') \<Longrightarrow> sw_writes W R rest inner lim w' rs"
| sw_reader_fails: "sw_writes W R rest inner lim w rs \<Longrightarrow> sw_add_opaque_from_reader R W oid len w s = (Inl e, w', s') \<Longrightarrow>
    sw_writes W R rest inner lim w' rs"
| sw_manifest_fails: "sw_writes W R rest inner lim w rs \<Longrightarrow> sw_add_manifest W oid m w = (Inl e, w') \<Longrightarrow> sw_writes W R rest inner lim w' rs"

section \<open>Invariant\<close>

definition sw_inv :: "('w \<Rightarrow> bytes) \<Rightarrow> bytes \<Rightarrow> record_spec list \<Rightarrow> 'w streaming_writer \<Rightarrow> bool" where
  "sw_inv written P rs w \<longleftrightarrow>
     written (sw_inner w) = P @ body_image rs \<and> sw_hasher w = body_image rs \<and> sw_entries w = layout 32 rs \<and>
     sw_object_ids w = spec_id ` set rs \<and> unat (sw_offset w) = length (body_image rs) \<and>
     distinct (map spec_id rs) \<and> 0 \<notin> spec_id ` set rs \<and> Directory \<notin> fst ` set rs"

text \<open>A record has been begun, and \<open>q\<close> of its payload written.\<close>

definition sw_partial :: "('w \<Rightarrow> bytes) \<Rightarrow> bytes \<Rightarrow> record_spec list \<Rightarrow> record_kind \<Rightarrow> u64 \<Rightarrow> u64 \<Rightarrow> bytes \<Rightarrow> 'w streaming_writer \<Rightarrow> bool" where
  "sw_partial written P rs k oid len q w \<longleftrightarrow>
     (let body = body_image rs @ record_header k oid len @ q in
      written (sw_inner w) = P @ body \<and> sw_hasher w = body \<and>
      sw_entries w = layout 32 rs @ [\<lparr>de_id = oid, de_kind = k, de_offset = of_nat (length (body_image rs)), de_stored_len = len, de_logical_len = len\<rparr>] \<and>
      sw_object_ids w = insert oid (spec_id ` set rs) \<and> unat (sw_offset w) = length body) \<and> \<not> sw_failed w \<and>
     distinct (map spec_id rs) \<and> 0 \<notin> spec_id ` set rs \<and> Directory \<notin> fst ` set rs \<and> k \<noteq> Directory \<and> oid \<noteq> 0 \<and> oid \<notin> spec_id ` set rs"

lemma partial_done:
  assumes "sw_partial written P rs k oid len p w" and "unat len = length p"
  shows "sw_inv written P (rs @ [(k, oid, p)]) w"
proof -
  have "len = of_nat (length p)" using unat_eqD [OF assms(2)] by simp
  moreover have "32 + length (concat (map record_image rs)) = length (body_image rs)" by (simp add: body_image_def)
  ultimately show ?thesis
    using assms(1) by (auto simp: sw_partial_def sw_inv_def Let_def body_image_snoc layout_append)
qed

context byte_sink
begin

lemma begin_partial:
  assumes "sw_inv written P rs w" and "begin_record W k oid len w = (Inr u, w')"
  shows "sw_partial written P rs k oid len [] w'"
proof -
  from assms(2) obtain i where b: "\<not> sw_failed w" "k \<noteq> Directory" "oid \<noteq> 0" "oid \<notin> sw_object_ids w"
    "W (sw_inner w) (record_header k oid len) = (Inr (), i)" "unat (sw_offset w) + 40 \<le> unat (max_file_bytes (sw_limits w))"
    "w' = push_entry k oid len i w" by (auto simp: begin_record_Ok)
  have "sw_offset w = of_nat (length (body_image rs))" using unat_eqD [of "sw_offset w" "length (body_image rs)"] assms(1) by (simp add: sw_inv_def)
  moreover have "unat (sw_offset w + 40) = unat (sw_offset w) + 40" using unat_add_of_nat [OF b(6)] by simp
  ultimately show ?thesis
    using assms(1) b write_all_appends [OF b(5)] by (auto simp: sw_partial_def sw_inv_def push_entry_def Let_def)
qed

lemma partial_write:
  assumes "sw_partial written P rs k oid len q w" and "write_hashed W bs c w = (Inr u, w')"
  shows "sw_partial written P rs k oid len (q @ bs) w'"
proof -
  from assms(2) obtain i where b: "W (sw_inner w) bs = (Inr (), i)" "unat (sw_offset w) + length bs \<le> unat (max_file_bytes (sw_limits w))"
    "w' = w\<lparr>sw_inner := i, sw_offset := sw_offset w + of_nat (length bs), sw_hasher := sw_hasher w @ bs\<rparr>"
    by (auto simp: write_hashed_Ok)
  then show ?thesis
    using assms(1) write_all_appends [OF b(1)] unat_add_of_nat [OF b(2)] by (auto simp: sw_partial_def Let_def)
qed

lemma copy_loop_partial:
  assumes "copy_loop R W chunk rem w s = (Inr u, w', s')" and "byte_reader R rest" and "chunk \<noteq> 0"
    and "sw_partial written P rs k oid len q w"
  shows "sw_partial written P rs k oid len (q @ take (unat rem) (rest s)) w' \<and> unat rem \<le> length (rest s)"
  using assms(1,4)
proof (induction "unat rem" arbitrary: rem w s q rule: less_induct)
  case less
  show ?case
  proof (cases "rem = 0")
    case True
    then show ?thesis using less.prems by (subst (asm) copy_loop.simps) simp
  next
    case False
    let ?n = "min rem chunk"
    from less.prems(1) False assms(3) obtain bs s1 w1 where rd: "rd_read_exact R s (unat ?n) = (Inr bs, s1)"
      and wr: "write_hashed W bs ''opaque payload'' w = (Inr (), w1)" and rec: "copy_loop R W chunk (rem - ?n) w1 s1 = (Inr u, w', s')"
      by (subst (asm) copy_loop.simps) (auto simp: Let_def or_fail_Ok split: prod.splits sum.splits)
    from byte_reader.read_exact_takes [OF assms(2) rd] have bs: "length bs = unat ?n" "rest s = bs @ rest s1" by auto
    have le: "?n \<le> rem" by simp
    then have sub: "unat (rem - ?n) = unat rem - unat ?n" "unat ?n \<le> unat rem" by (simp_all add: unat_sub word_le_nat_alt)
    note less.hyps [OF copy_progress [OF False assms(3)] rec partial_write [OF less.prems(2) wr]]
    then have "sw_partial written P rs k oid len ((q @ bs) @ take (unat rem - unat ?n) (rest s1)) w'"
      and "unat rem - unat ?n \<le> length (rest s1)" by (simp_all add: sub(1))
    then show ?thesis using bs sub(2) by auto
  qed
qed

lemma add_opaque_inv:
  assumes "sw_inv written P rs w" and "sw_add_opaque W oid p w = (Inr u, w')"
  shows "sw_inv written P (rs @ [(Opaque, oid, p)]) w' \<and> \<not> sw_failed w'"
proof -
  from assms(2) obtain len w1 where len: "u64_try_from (length p) = Some len" and b: "begin_record W Opaque oid len w = (Inr (), w1)"
    and wr: "write_hashed W p ''opaque payload'' w1 = (Inr u, w')"
    by (auto simp: sw_add_opaque_def op_simps result_simps or_fail_Ok)
  note pt = partial_write [OF begin_partial [OF assms(1) b] wr]
  have "unat len = length p" using len by (simp add: u64_try_from_Some_iff)
  then show ?thesis using partial_done [of written P rs Opaque oid len p w'] pt by (simp add: sw_partial_def)
qed

lemma add_manifest_inv:
  assumes "sw_inv written P rs w" and "sw_add_manifest W oid m w = (Inr u, w')" and "encode_canonical (manifest_to_cbor m) = Inr p"
  shows "sw_inv written P (rs @ [(Manifest, oid, p)]) w' \<and> \<not> sw_failed w'"
proof -
  from assms(2,3) obtain len w1 where len: "u64_try_from (length p) = Some len" and b: "begin_record W Manifest oid len w = (Inr (), w1)"
    and wr: "write_hashed W p ''manifest payload'' w1 = (Inr u, w')"
    by (auto simp: sw_add_manifest_def op_simps result_simps or_fail_Ok)
  note pt = partial_write [OF begin_partial [OF assms(1) b] wr]
  have "unat len = length p" using len by (simp add: u64_try_from_Some_iff)
  then show ?thesis using partial_done [of written P rs Manifest oid len p w'] pt by (simp add: sw_partial_def)
qed

lemma add_reader_inv:
  assumes "sw_inv written P rs w" and "sw_add_opaque_from_reader R W oid len w s = (Inr u, w', s')" and "byte_reader R rest"
  shows "sw_inv written P (rs @ [(Opaque, oid, take (unat len) (rest s))]) w' \<and> \<not> sw_failed w'"
proof -
  from assms(2) obtain c w1 where b: "begin_record W Opaque oid len w = (Inr (), w1)" and c: "c \<noteq> 0"
    and cp: "copy_loop R W c len w1 s = (Inr u, w', s')"
    by (auto simp: sw_add_opaque_from_reader_def Let_def split: prod.splits sum.splits if_splits)
  from copy_loop_partial [OF cp assms(3) c begin_partial [OF assms(1) b]]
  have pt: "sw_partial written P rs Opaque oid len (take (unat len) (rest s)) w'" and "unat len \<le> length (rest s)" by auto
  then show ?thesis using partial_done [OF pt] by (simp add: sw_partial_def)
qed

end

lemma sw_add_opaque_Err: "sw_add_opaque W oid p w = (Inl e, w') \<Longrightarrow> w' = w \<or> sw_failed w'"
  by (auto simp: sw_add_opaque_def op_bind_Err_iff op_run dest: begin_record_Err or_fail_Err)

lemma sw_add_manifest_Err: "sw_add_manifest W oid m w = (Inl e, w') \<Longrightarrow> w' = w \<or> sw_failed w'"
  by (auto simp: sw_add_manifest_def op_bind_Err_iff op_run dest: begin_record_Err or_fail_Err)

lemma copy_loop_Err: "copy_loop R W c n w s = (Inl e, w', s') \<Longrightarrow> sw_failed w'"
proof (induction R W c n w s rule: copy_loop.induct)
  case (1 R W c n w s)
  show ?case
    using "1.prems" "1.IH"
    by (subst (asm) copy_loop.simps) (auto simp: Let_def split: if_splits prod.splits sum.splits dest: or_fail_Err)
qed

lemma sw_add_reader_Err: "sw_add_opaque_from_reader R W oid len w s = (Inl e, w', s') \<Longrightarrow> w' = w \<or> sw_failed w'"
  by (auto simp: sw_add_opaque_from_reader_def Let_def split: prod.splits sum.splits if_splits dest: begin_record_Err copy_loop_Err)

section \<open>Refinement of the in-memory writer\<close>

text \<open>The in-memory writer that holds the same records: its bytes are those fed to the hasher.\<close>

definition sw_abs :: "'w streaming_writer \<Rightarrow> writer" where
  "sw_abs w = \<lparr>w_bytes = sw_hasher w, w_entries = sw_entries w, w_object_ids = sw_object_ids w\<rparr>"

lemma abs_add_record:
  assumes "sw_inv written P rs w" and "sw_inv written P (rs @ [(k, oid, p)]) w'"
  shows "add_record (sw_abs w) k oid p = (Inr (), sw_abs w')"
proof -
  have "length (body_image (rs @ [(k, oid, p)])) < 2 ^ 64"
    using assms(2) by (simp add: sw_inv_def flip: body_image_snoc) (metis unat_lt_64)
  then have "length (body_image rs) < 2 ^ 64" "length p < 2 ^ 64" by (simp_all add: body_image_snoc)
  then show ?thesis
    using assms by (auto simp: add_record_def sw_abs_def sw_inv_def append_record_eq body_image_snoc layout_snoc
        simp del: record_image.simps)
qed

lemma streaming_new_inv:
  assumes "byte_sink W written" and "streaming_new W inner lim = (Inr w, i)"
  shows "sw_inv written (written inner) [] w" "sw_abs w = writer_new" "\<not> sw_failed w"
proof -
  let ?w = "\<lparr>sw_inner = inner, sw_limits = lim, sw_hasher = [], sw_entries = [], sw_object_ids = {}, sw_offset = 0, sw_failed = False\<rparr>"
  have "write_hashed W file_header ''file header'' ?w = (Inr (), w)"
    using assms(2) by (auto simp: streaming_new_def Let_def push_u32_le_def file_header_def split: prod.splits sum.splits)
  then obtain i' where i: "W inner file_header = (Inr (), i')"
    "w = ?w\<lparr>sw_inner := i', sw_offset := 0 + of_nat (length file_header), sw_hasher := [] @ file_header\<rparr>"
    by (auto simp: write_hashed_Ok)
  then show "sw_inv written (written inner) [] w" "sw_abs w = writer_new" "\<not> sw_failed w"
    using byte_sink.write_all_appends [OF assms(1) i(1)] by (simp_all add: sw_inv_def sw_abs_def writer_new_eq)
qed

lemma begin_record_failed: "sw_failed w \<Longrightarrow> begin_record W k oid len w = (Inl (InvalidRecordOrder ''writer used after failure''), w)"
  by (simp add: begin_record_def op_bind_def ensure_open_def op_run)

lemma failed_add_opaque: "sw_failed w \<Longrightarrow> \<not> sw_add_opaque W oid p w = (Inr u, w')"
  by (simp add: sw_add_opaque_def op_bind_Ok_iff op_run begin_record_failed)

lemma failed_add_manifest: "sw_failed w \<Longrightarrow> \<not> sw_add_manifest W oid m w = (Inr u, w')"
  by (simp add: sw_add_manifest_def op_bind_Ok_iff op_run begin_record_failed)

lemma failed_add_reader: "sw_failed w \<Longrightarrow> \<not> sw_add_opaque_from_reader R W oid len w s = (Inr u, w', s')"
  by (simp add: sw_add_opaque_from_reader_def begin_record_failed)

lemma sw_writes_inv:
  assumes "byte_sink W written" and "byte_reader R rest" and "sw_writes W R rest inner lim w rs"
  shows "sw_failed w \<or> sw_inv written (written inner) rs w \<and> writes (sw_abs w) rs"
  using assms(3)
proof (induction rule: sw_writes.induct)
  case (sw_new w i)
  show ?case using streaming_new_inv [OF assms(1) sw_new] writes_new by simp
next
  case (sw_opaque w rs oid p u w')
  have "\<not> sw_failed w" using sw_opaque.hyps(2) failed_add_opaque by metis
  then have inv: "sw_inv written (written inner) rs w" "writes (sw_abs w) rs" using sw_opaque.IH by simp_all
  note next_inv = byte_sink.add_opaque_inv [OF assms(1) inv(1) sw_opaque.hyps(2), THEN conjunct1]
  have "add_opaque (sw_abs w) oid p = (Inr (), sw_abs w')" using abs_add_record [OF inv(1) next_inv] by (simp add: add_opaque_def)
  then show ?case using next_inv writes_opaque [OF inv(2)] by blast
next
  case (sw_reader w rs oid len s u w' s')
  have "\<not> sw_failed w" using sw_reader.hyps(2) failed_add_reader by metis
  then have inv: "sw_inv written (written inner) rs w" "writes (sw_abs w) rs" using sw_reader.IH by simp_all
  note next_inv = byte_sink.add_reader_inv [OF assms(1) inv(1) sw_reader.hyps(2) assms(2), THEN conjunct1]
  have "add_opaque (sw_abs w) oid (take (unat len) (rest s)) = (Inr (), sw_abs w')"
    using abs_add_record [OF inv(1) next_inv] by (simp add: add_opaque_def)
  then show ?case using next_inv writes_opaque [OF inv(2)] by blast
next
  case (sw_manifest w rs oid m u w' p)
  have "\<not> sw_failed w" using sw_manifest.hyps(2) failed_add_manifest by metis
  then have inv: "sw_inv written (written inner) rs w" "writes (sw_abs w) rs" using sw_manifest.IH by simp_all
  note next_inv = byte_sink.add_manifest_inv [OF assms(1) inv(1) sw_manifest.hyps(2,3), THEN conjunct1]
  have "validate_shape m = Inr ()" using sw_manifest.hyps(2) by (auto simp: sw_add_manifest_def op_simps)
  then have "add_manifest (sw_abs w) oid m = (Inr (), sw_abs w')"
    using abs_add_record [OF inv(1) next_inv] sw_manifest.hyps(3) by (simp add: add_manifest_def)
  then show ?case using next_inv writes_manifest [OF inv(2) _ sw_manifest.hyps(3)] by blast
next
  case (sw_opaque_fails w rs oid p e w')
  show ?case using sw_add_opaque_Err [OF sw_opaque_fails.hyps(2)] sw_opaque_fails.IH by auto
next
  case (sw_reader_fails w rs oid len s e w' s')
  show ?case using sw_add_reader_Err [OF sw_reader_fails.hyps(2)] sw_reader_fails.IH by auto
next
  case (sw_manifest_fails w rs oid m e w')
  show ?case using sw_add_manifest_Err [OF sw_manifest_fails.hyps(2)] sw_manifest_fails.IH by auto
qed

section \<open>Finalization\<close>

lemma footer_bytes:
  "(let footer = FOOTER_MAGIC; footer = push_u32_le footer (of_nat FOOTER_LEN); footer = push_u32_le footer 0;
        footer = push_u64_le footer a; footer = push_u64_le footer b; footer = push_u64_le footer c;
        footer = push_u64_le footer n; footer = footer @ h in f footer) = f (footer_image a b c n h)"
  by (simp add: Let_def footer_image_def push_u32_le_def push_u64_le_def)

lemma find_manifest:
  assumes "List.find (\<lambda>e. de_id e = mid) (layout b rs) = Some e" and "de_kind e = Manifest"
  obtains p where "(Manifest, mid, p) \<in> set rs"
proof -
  obtain i where i: "i < length rs" "layout b rs ! i = e" "de_id e = mid" using assms(1) by (auto simp: find_Some_iff)
  then have "rs ! i = (Manifest, mid, spec_payload (rs ! i))" using assms(2) nth_layout [of i rs b] by (metis prod.collapse)
  then show thesis using that nth_mem [OF i(1)] by metis
qed

lemma find_layout:
  assumes "distinct (map spec_id rs)" and "(Manifest, mid, p) \<in> set rs"
  shows "\<exists>e. List.find (\<lambda>e. de_id e = mid) (layout b rs) = Some e \<and> de_kind e = Manifest"
proof -
  obtain i where i: "i < length rs" "rs ! i = (Manifest, mid, p)" using assms(2) by (auto simp: in_set_conv_nth)
  have "spec_id (rs ! j) \<noteq> mid" if "j < i" for j
    using nth_eq_iff_index_eq [OF assms(1), of j i] i that by auto
  then have "List.find (\<lambda>e. de_id e = mid) (layout b rs) = Some (layout b rs ! i)"
    using i unfolding find_Some_iff by (intro exI [of _ i]) (simp add: nth_layout)
  then show ?thesis using i by (simp add: nth_layout)
qed

lemma streaming_finish_Ok:
  assumes "byte_sink W written" and "sw_inv written P rs w" and "streaming_finish sha W mid w = (Inr fw, w')"
  obtains d p where "encode_canonical (directory_value (layout 32 rs)) = Inr d" "(Manifest, mid, p) \<in> set rs"
    "written (fw_inner fw) = P @ file_image sha rs d mid" "unat (fw_bytes_written fw) = length (file_image sha rs d mid)"
    "length rs + 1 < 2 ^ 64" "\<not> sw_failed w"
proof -
  have inv: "sw_entries w = layout 32 rs" "sw_hasher w = body_image rs" "unat (sw_offset w) = length (body_image rs)"
    "written (sw_inner w) = P @ body_image rs" using assms(2) by (simp_all add: sw_inv_def)
  from assms(3) obtain e d len t n c w1 w2 where alive: "\<not> sw_failed w"
    and e: "List.find (\<lambda>e. de_id e = mid) (layout 32 rs) = Some e" "de_kind e = Manifest"
    and d: "encode_canonical (directory_value (layout 32 rs)) = Inr d" and len: "u64_try_from (length d) = Some len"
    and w1: "write_hashed W (record_header Directory 0 len) ''record header'' w = (Inr (), w1)"
    and w2: "write_hashed W d ''directory payload'' w1 = (Inr (), w2)"
    and t: "checked_add 40 len = Some t" and n: "u64_try_from (length rs) = Some n" "checked_add n 1 = Some c"
    and w3: "write_checked W (footer_image (sw_offset w) t mid c (sha (sw_hasher w2))) ''footer'' w2 = (Inr (), w')"
    and fw: "fw = \<lparr>fw_inner = sw_inner w', fw_bytes_written = sw_offset w'\<rparr>"
    unfolding streaming_finish_def footer_bytes
    by (auto simp: op_bind_Ok_iff op_run ensure_open_def inv record_header_bytes write_unhashed_def result_simps
        split: if_splits)
  let ?h = "record_header Directory 0 len" and ?dir = "(Directory, 0, d)"
  have lens: "len = of_nat (length d)" "n = of_nat (length rs)" "length rs < 2 ^ 64" "c = of_nat (length rs + 1)" "length rs + 1 < 2 ^ 64" "t = 40 + len"
    using len n t by (auto simp: u64_try_from_Some_iff checked_add_def split: if_splits)
  have off: "sw_offset w = of_nat (length (body_image rs))" using unat_eqD [OF inv(3)] by (rule conjunct1)
  from w1 obtain i1 where i1: "W (sw_inner w) ?h = (Inr (), i1)" "w1 = w\<lparr>sw_inner := i1, sw_offset := sw_offset w + of_nat (length ?h), sw_hasher := sw_hasher w @ ?h\<rparr>"
    "unat (sw_offset w) + length ?h \<le> unat (max_file_bytes (sw_limits w))" unfolding write_hashed_Ok by blast
  from w2 obtain i2 where i2: "W (sw_inner w1) d = (Inr (), i2)" "w2 = w1\<lparr>sw_inner := i2, sw_offset := sw_offset w1 + of_nat (length d), sw_hasher := sw_hasher w1 @ d\<rparr>"
    "unat (sw_offset w1) + length d \<le> unat (max_file_bytes (sw_limits w1))" unfolding write_hashed_Ok by blast
  have h2: "sw_hasher w2 = body_image (rs @ [?dir])" using i1 i2 inv(2) lens(1) by (simp add: body_image_snoc)
  let ?f = "footer_image (sw_offset w) t mid c (sha (sw_hasher w2))"
  from w3 obtain i3 where i3: "W (sw_inner w2) ?f = (Inr (), i3)" "w' = w2\<lparr>sw_inner := i3, sw_offset := sw_offset w2 + of_nat (length ?f)\<rparr>"
    "unat (sw_offset w2) + length ?f \<le> unat (max_file_bytes (sw_limits w2))" unfolding write_checked_Ok by blast
  have img: "file_image sha rs d mid = body_image rs @ ?h @ d @ ?f"
    using h2 lens off by (simp add: file_image_def Let_def body_image_snoc)
  have "written (sw_inner w') = P @ file_image sha rs d mid"
    using byte_sink.write_all_appends [OF assms(1) i1(1)] byte_sink.write_all_appends [OF assms(1) i2(1)]
      byte_sink.write_all_appends [OF assms(1) i3(1)] i1(2) i2(2) i3(2) inv(4) img by simp
  moreover have "unat (sw_offset w') = length (file_image sha rs d mid)"
    using unat_add_of_nat [OF i1(3)] unat_add_of_nat [OF i2(3)] unat_add_of_nat [OF i3(3)] i1(2) i2(2) i3(2) inv(3) img by simp
  moreover obtain p where "(Manifest, mid, p) \<in> set rs" using find_manifest [OF e] .
  ultimately show thesis using that d fw lens(5) alive by simp
qed

lemma streaming_finish_complete:
  assumes "byte_sink W written" and "\<And>s bs. \<exists>s'. W s bs = (Inr (), s')" and "sw_inv written P rs w" and "\<not> sw_failed w"
    and "(Manifest, mid, p) \<in> set rs" and "encode_canonical (directory_value (layout 32 rs)) = Inr d"
    and "length d \<le> unat (max_metadata_bytes (sw_limits w))" and "length rs + 1 \<le> unat (max_records (sw_limits w))"
    and "length (file_image sha rs d mid) \<le> unat (max_file_bytes (sw_limits w))"
  shows "\<exists>fw w'. streaming_finish sha W mid w = (Inr fw, w')"
proof -
  have inv: "sw_entries w = layout 32 rs" "sw_hasher w = body_image rs" "unat (sw_offset w) = length (body_image rs)"
    "distinct (map spec_id rs)" using assms(3) by (simp_all add: sw_inv_def)
  define len :: u64 where "len = of_nat (length d)"
  have d64: "length d < 2 ^ 64" using le_unat_64 [OF assms(7)] .
  have len: "unat len = length d" using d64 by (simp add: len_def)
  have n64: "length rs + 1 < 2 ^ 64" using le_unat_64 [OF assms(8)] .
  let ?h = "record_header Directory 0 len"
  obtain i1 where i1: "W (sw_inner w) ?h = (Inr (), i1)" using assms(2) by blast
  let ?w1 = "w\<lparr>sw_inner := i1, sw_offset := sw_offset w + of_nat (length ?h), sw_hasher := sw_hasher w @ ?h\<rparr>"
  obtain i2 where i2: "W i1 d = (Inr (), i2)" using assms(2) by blast
  let ?w2 = "?w1\<lparr>sw_inner := i2, sw_offset := sw_offset ?w1 + of_nat (length d), sw_hasher := sw_hasher ?w1 @ d\<rparr>"
  let ?f = "footer_image (sw_offset w) (40 + len) mid (of_nat (length rs + 1)) (sha (sw_hasher ?w2))"
  obtain i3 where i3: "W i2 ?f = (Inr (), i3)" using assms(2) by blast
  have off: "sw_offset w = of_nat (length (body_image rs))" using unat_eqD [OF inv(3)] by (rule conjunct1)
  have img: "file_image sha rs d mid = body_image rs @ ?h @ d @ ?f"
    using inv(2) off by (simp add: file_image_def Let_def body_image_snoc len_def)
  have room: "unat (sw_offset w) + length ?h + length d + length ?f \<le> unat (max_file_bytes (sw_limits w))"
    using assms(9) unfolding img by (simp add: inv(3))
  have off1: "unat (sw_offset ?w1) = unat (sw_offset w) + length ?h"
    using unat_add_of_nat [of "sw_offset w" "length ?h" "max_file_bytes (sw_limits w)"] room by simp
  have off2: "unat (sw_offset ?w2) = unat (sw_offset w) + length ?h + length d"
    using unat_add_of_nat [of "sw_offset ?w1" "length d" "max_file_bytes (sw_limits w)"] room off1 by simp
  have w1: "write_hashed W ?h ''record header'' w = (Inr (), ?w1)" using i1 room by (simp add: write_hashed_Ok)
  have w2: "write_hashed W d ''directory payload'' ?w1 = (Inr (), ?w2)"
    using i2 room off1 unfolding write_hashed_Ok by (intro exI [of _ i2]) simp
  have w3: "write_unhashed W ?f ''footer'' ?w2 = (Inr (), ?w2\<lparr>sw_inner := i3, sw_offset := sw_offset ?w2 + of_nat (length ?f)\<rparr>)"
    using i3 room off2 unfolding write_unhashed_def write_checked_Ok by (intro exI [of _ i3]) simp
  obtain e where e: "List.find (\<lambda>e. de_id e = mid) (layout 32 rs) = Some e" "de_kind e = Manifest"
    using find_layout [OF inv(4) assms(5)] by blast
  have add: "checked_add 40 len = Some (40 + len)"
    using le_unat_64 [of "40 + length d" "max_file_bytes (sw_limits w)"] room len by (simp add: checked_add_def)
  have cnt: "u64_try_from (length rs) = Some (of_nat (length rs))" "checked_add (of_nat (length rs)) (1 :: u64) = Some (of_nat (length rs + 1))"
    using n64 by (simp_all add: checked_add_def)
  have lim: "\<not> (of_nat (length rs + 1) :: u64) > max_records (sw_limits w)" "\<not> len > max_metadata_bytes (sw_limits w)"
    using n64 assms(7,8) len by (simp_all add: word_less_nat_alt del: of_nat_add of_nat_Suc)
  have "u64_try_from (length d) = Some len" using d64 by (simp add: len_def)
  with e add cnt lim w1 w2 w3 show ?thesis
    unfolding streaming_finish_def footer_bytes
    by (simp add: op_bind_run op_run ensure_open_def assms(4,6) inv(1) record_header_bytes)
qed

section \<open>Sample\<close>

lemma vec_total: "\<exists>s'. vec_write_all s bs = (Inr (), s')"
  by (simp add: vec_write_all_def)

definition sample_sw :: "bytes streaming_writer" where
  "sample_sw = \<lparr>sw_inner = file_header, sw_limits = default_limits, sw_hasher = file_header, sw_entries = [],
     sw_object_ids = {}, sw_offset = 32, sw_failed = False\<rparr>"

lemma sample_sw_new: "streaming_new vec_write_all [] default_limits = (Inr sample_sw, file_header)"
  by (simp add: streaming_new_def Let_def write_hashed_def write_checked_def op_bind_run op_run push_u32_le_def
      checked_add_def default_limits_def vec_write_all_def sample_sw_def file_header_def)

lemma sample_sw_begin:
  "\<exists>w. begin_record vec_write_all Opaque 2 2 sample_sw = (Inr (), w) \<and> sw_object_ids w = {2} \<and> sw_offset w = 72 \<and>
     length (sw_entries w) = 1 \<and> sw_limits w = default_limits \<and> \<not> sw_failed w"
  unfolding begin_record_Ok by (simp add: push_entry_def sample_sw_def vec_write_all_def default_limits_def saturating_sub_def)

lemma sample_sw_writes:
  "\<exists>w. sw_writes vec_write_all slice_reader (\<lambda>s. s) [] default_limits w sample_records \<and> \<not> sw_failed w \<and> sw_limits w = default_limits"
proof -
  obtain w1 where w1: "begin_record vec_write_all Opaque 2 2 sample_sw = (Inr (), w1)"
    and f1: "sw_object_ids w1 = {2}" "sw_offset w1 = 72" "length (sw_entries w1) = 1" "sw_limits w1 = default_limits" "\<not> sw_failed w1"
    using sample_sw_begin by blast
  obtain w2 where w2: "write_hashed vec_write_all [7, 8] ''opaque payload'' w1 = (Inr (), w2)"
    and f2: "sw_object_ids w2 = {2}" "sw_offset w2 = 74" "length (sw_entries w2) = 1" "sw_limits w2 = default_limits" "\<not> sw_failed w2"
    unfolding write_hashed_Ok by (simp add: f1 vec_write_all_def default_limits_def)
  have "sw_add_opaque_from_reader slice_reader vec_write_all 2 2 sample_sw [7, 8] = (Inr (), w2, [])"
    by (simp add: sw_add_opaque_from_reader_def w1 f1 default_limits_def copy_loop.simps slice_reader_def slice_read_exact_def or_fail_def w2)
  from sw_reader [OF sw_new [OF sample_sw_new, where R = slice_reader and rest = "\<lambda>s. s"] this]
  have run1: "sw_writes vec_write_all slice_reader (\<lambda>s. s) [] default_limits w2 [(Opaque, 2, [7, 8])]" by simp
  obtain w3 where w3: "begin_record vec_write_all Manifest 1 29 w2 = (Inr (), w3)"
    and f3: "sw_offset w3 = 114" "sw_limits w3 = default_limits" "\<not> sw_failed w3"
    unfolding begin_record_Ok by (simp add: push_entry_def f2 vec_write_all_def default_limits_def saturating_sub_def)
  obtain w4 where w4: "write_hashed vec_write_all sample_manifest_bytes ''manifest payload'' w3 = (Inr (), w4)"
    and f4: "sw_limits w4 = default_limits" "\<not> sw_failed w4"
    unfolding write_hashed_Ok by (simp add: f3 vec_write_all_def default_limits_def sample_manifest_bytes_def)
  have "sw_add_manifest vec_write_all 1 sample_manifest w2 = (Inr (), w4)"
    using w3 w4
    by (simp add: sw_add_manifest_def op_bind_run op_run sample_manifest_shape sample_manifest_encode or_fail_def sample_manifest_bytes_def)
  from sw_manifest [OF run1 this sample_manifest_encode] f4 show ?thesis by (auto simp: sample_records_def)
qed

lemma sample_sw_finish:
  assumes "sw_writes vec_write_all slice_reader (\<lambda>s. s) [] default_limits w sample_records" "\<not> sw_failed w" "sw_limits w = default_limits"
  shows "\<exists>fw w'. streaming_finish sample_sha vec_write_all 1 w = (Inr fw, w')"
proof (rule streaming_finish_complete [OF vec_sink.byte_sink_axioms vec_total _ assms(2) sample_roots(3) sample_directory_encode])
  show "sw_inv (\<lambda>s. s) [] sample_records w"
    using sw_writes_inv [OF vec_sink.byte_sink_axioms slice_in.byte_reader_axioms assms(1)] assms(2) by simp
  show "length (file_image sample_sha sample_records sample_directory 1) \<le> unat (max_file_bytes (sw_limits w))"
    using sample_limits assms(3) by (simp add: limits_admit_def sample_file_def)
qed (use assms(3) in \<open>simp_all add: default_limits_def sample_directory_def sample_records_def\<close>)

section \<open>Properties\<close>

text \<open>
  C4. Refinement. Over any sink that keeps the contract of \<open>write_all\<close>, a successful \<open>finish\<close> of the
  streaming writer has appended to the sink exactly the bytes that the in-memory writer returns for the
  same records and manifest, whatever calls preceded it, and reports their number.
\<close>

theorem streaming_writer_refines:
  assumes "byte_sink W written" and "byte_reader R rest" and "sw_writes W R rest inner lim w rs"
    and "streaming_finish sha W mid w = (Inr fw, w')"
  shows "\<exists>v bs. writes v rs \<and> writer_finish sha v mid = Inr bs \<and> written (fw_inner fw) = written inner @ bs \<and>
    unat (fw_bytes_written fw) = length bs"
proof -
  have "\<not> sw_failed w" using assms(4) by (auto simp: streaming_finish_def ensure_open_def op_bind_Ok_iff op_run split: if_splits)
  then have inv: "sw_inv written (written inner) rs w" and wr: "writes (sw_abs w) rs"
    using sw_writes_inv [OF assms(1-3)] by simp_all
  obtain d p where d: "encode_canonical (directory_value (layout 32 rs)) = Inr d" "(Manifest, mid, p) \<in> set rs"
    "written (fw_inner fw) = written inner @ file_image sha rs d mid" "unat (fw_bytes_written fw) = length (file_image sha rs d mid)"
    "length rs + 1 < 2 ^ 64"
    by (rule streaming_finish_Ok [OF assms(1) inv assms(4)])
  have "length (file_image sha rs d mid) < 2 ^ 64" using unat_eqD [OF d(4)] by (rule conjunct2)
  then have "length (body_image rs) < 2 ^ 64" "length d < 2 ^ 64"
    by (simp_all add: file_image_def Let_def body_image_snoc)
  from writer_finish_complete [OF writes_inv [OF wr] d(2,1) this d(5)] wr d(3,4) show ?thesis by blast
qed

theorem streaming_writer_refines_witness:
  "\<exists>w fw w' v bs. sw_writes vec_write_all slice_reader (\<lambda>s. s) [] default_limits w sample_records \<and>
     streaming_finish sample_sha vec_write_all 1 w = (Inr fw, w') \<and> writes v sample_records \<and>
     writer_finish sample_sha v 1 = Inr bs \<and> fw_inner fw = bs"
proof -
  obtain w where w: "sw_writes vec_write_all slice_reader (\<lambda>s. s) [] default_limits w sample_records" "\<not> sw_failed w" "sw_limits w = default_limits"
    using sample_sw_writes by blast
  moreover obtain fw w' where fin: "streaming_finish sample_sha vec_write_all 1 w = (Inr fw, w')" using sample_sw_finish [OF w] by blast
  ultimately show ?thesis
    using streaming_writer_refines [OF vec_sink.byte_sink_axioms slice_in.byte_reader_axioms w(1) fin] by auto
qed

text \<open>
  C25. Fail-stop. A call that fails either left the writer and its sink as they were, or poisoned the
  writer: from then on \<open>finish\<close> and every call that adds a record fail and leave the sink untouched,
  so no footer is ever written behind a partial record.
\<close>

theorem streaming_writer_fail_stop:
  assumes "sw_add_opaque W oid p w = (Inl e, w') \<or> sw_add_manifest W oid m w = (Inl e, w') \<or>
    (\<exists>s s'. sw_add_opaque_from_reader R W oid len w s = (Inl e, w', s'))"
  shows "w' = w \<or>
    streaming_finish sha W mid w' = (Inl (InvalidRecordOrder ''writer used after failure''), w') \<and>
    (\<exists>e'. sw_add_opaque W oid' p' w' = (Inl e', w')) \<and> (\<exists>e'. sw_add_manifest W oid' m' w' = (Inl e', w')) \<and>
    sw_add_opaque_from_reader R' W oid' len' w' t = (Inl (InvalidRecordOrder ''writer used after failure''), w', t)"
proof (cases "w' = w")
  case False
  then have f: "sw_failed w'" using assms sw_add_opaque_Err sw_add_manifest_Err sw_add_reader_Err by metis
  then have "streaming_finish sha W mid w' = (Inl (InvalidRecordOrder ''writer used after failure''), w')"
    by (simp add: streaming_finish_def ensure_open_def op_bind_def op_run)
  moreover have "\<exists>e'. sw_add_opaque W oid' p' w' = (Inl e', w')"
    using begin_record_failed [OF f] by (simp add: sw_add_opaque_def op_bind_def op_run split: sum.splits)
  moreover have "\<exists>e'. sw_add_manifest W oid' m' w' = (Inl e', w')"
    using begin_record_failed [OF f] by (simp add: sw_add_manifest_def op_bind_def op_run split: sum.splits)
  ultimately show ?thesis using begin_record_failed [OF f] by (simp add: sw_add_opaque_from_reader_def)
qed simp

theorem streaming_writer_fail_stop_witness:
  "\<exists>e w'. sw_add_opaque_from_reader slice_reader vec_write_all 2 2 sample_sw [7] = (Inl e, w', []) \<and> w' \<noteq> sample_sw \<and>
     streaming_finish sample_sha vec_write_all 1 w' = (Inl (InvalidRecordOrder ''writer used after failure''), w')"
proof -
  obtain w where w: "begin_record vec_write_all Opaque 2 2 sample_sw = (Inr (), w)" "sw_limits w = default_limits" using sample_sw_begin by blast
  let ?w = "w\<lparr>sw_failed := True\<rparr>"
  have run: "sw_add_opaque_from_reader slice_reader vec_write_all 2 2 sample_sw [7] = (Inl (Truncated ''writer payload source''), ?w, [])"
    by (simp add: sw_add_opaque_from_reader_def w default_limits_def copy_loop.simps slice_reader_def slice_read_exact_def)
  have "sw_failed ?w" "\<not> sw_failed sample_sw" by (simp_all add: sample_sw_def)
  then have ne: "?w \<noteq> sample_sw" by metis
  have "streaming_finish sample_sha vec_write_all 1 ?w = (Inl (InvalidRecordOrder ''writer used after failure''), ?w)"
    using streaming_writer_fail_stop [where w = sample_sw and w' = ?w and R = slice_reader and R' = slice_reader and W = vec_write_all] run ne by blast
  with run ne show ?thesis by blast
qed

end
