(* ===== verification/Ucof_Diagnostic.thy ===== *)
theory Ucof_Diagnostic
  imports Ucof_Source_Validate
begin

text \<open>
  \<open>ucof-core/src/diagnostic.rs\<close>: the strict diagnostic facade over inspection and validation, and the
  prefix salvager, which reports complete record frames of a source without accepting a commit.
\<close>

section \<open>Reports\<close>

datatype diagnostic_stage = StageBootstrap | StageStructure | StageIntegrity | StageSalvage

record diagnostic =
  dg_stage :: diagnostic_stage
  dg_category :: error_category
  dg_offset :: "u64 option"
  dg_message :: string

datatype diagnostic_status = DsInvalid | DsStructurallyValid | DsVerified | DsUnverifiedPrefix

record diagnostic_report =
  dr_status :: diagnostic_status
  dr_diagnostics :: "diagnostic list"
  dr_inspection :: "inspection_report option"
  dr_validation :: "source_validation_report option"

definition make_diagnostic :: "diagnostic_stage \<Rightarrow> u64 option \<Rightarrow> error \<Rightarrow> diagnostic" where
  "make_diagnostic stage offset e = \<lparr>dg_stage = stage, dg_category = category e, dg_offset = offset, dg_message = display e\<rparr>"

definition push_diagnostic :: "diagnostic list \<Rightarrow> usize \<Rightarrow> diagnostic_stage \<Rightarrow> u64 option \<Rightarrow> error \<Rightarrow> diagnostic list" where
  "push_diagnostic diagnostics maximum stage offset e =
     (if length diagnostics < maximum then diagnostics @ [make_diagnostic stage offset e] else diagnostics)"

section \<open>Strict diagnosis\<close>

definition diagnose :: "(bytes \<Rightarrow> bytes) \<Rightarrow> 's read_at \<Rightarrow> limits \<Rightarrow> ('s, diagnostic_report) op" where
  "diagnose sha S lim source =
     (if max_diagnostics lim = 0 then (Inl (LimitExceeded ''diagnostics''), source) else
      case metadata_inspect S lim source of
        (Inl e, source) \<Rightarrow> (Inr \<lparr>dr_status = DsInvalid, dr_diagnostics = [make_diagnostic StageStructure None e],
           dr_inspection = None, dr_validation = None\<rparr>, source)
      | (Inr inspection, source) \<Rightarrow>
        (case source_validate sha S lim source of
           (Inr validation, source) \<Rightarrow> (Inr \<lparr>dr_status = DsVerified, dr_diagnostics = [],
              dr_inspection = Some inspection, dr_validation = Some validation\<rparr>, source)
         | (Inl e, source) \<Rightarrow> (Inr \<lparr>dr_status = DsInvalid, dr_diagnostics = [make_diagnostic StageIntegrity None e],
              dr_inspection = Some inspection, dr_validation = None\<rparr>, source)))"

section \<open>Prefix salvage\<close>

record salvaged_record =
  sa_kind :: record_kind
  sa_object_id :: u64
  sa_offset :: u64
  sa_stored_len :: u64
  sa_logical_len :: u64

record prefix_salvage_report =
  ps_status :: diagnostic_status
  ps_file_len :: u64
  ps_records :: "salvaged_record list"
  ps_diagnostics :: "diagnostic list"
  ps_reached_directory :: bool
  ps_bytes_read :: u64

definition salvage_validate_header :: "bytes \<Rightarrow> unit result" where
  "salvage_validate_header bs =
     (if take (length FILE_MAGIC) bs \<noteq> FILE_MAGIC then Err (InvalidMagic ''file'') else
      and_then (read_u32_le bs 8 ''epoch'') (\<lambda>epoch.
      if epoch \<noteq> EXPERIMENTAL_EPOCH then Err (UnsupportedEpoch epoch) else
      and_then (read_u32_le bs 12 ''file flags'') (\<lambda>flags.
      if flags \<noteq> 0 then and_then (read_u32_le bs 12 ''file flags'') (\<lambda>flags. Err (UnsupportedFlags ''file'' (ucast flags))) else
      and_then (read_u32_le bs 16 ''file header length'') (\<lambda>len.
      if len \<noteq> of_nat HEADER_LEN then Err (InvalidLength ''file header'') else
      if list_ex (\<lambda>b. b \<noteq> 0) (drop 20 bs) then Err (InvalidReserved ''file header'') else Ok ()))))"

text \<open>The set of identifiers grows when a record is accepted; a failed parse ends the scan.\<close>

definition parse_record :: "bytes \<Rightarrow> u64 \<Rightarrow> limits \<Rightarrow> u64 set \<Rightarrow> (salvaged_record \<times> u64 set) result" where
  "parse_record bs offset lim identifiers =
     (if take (length RECORD_MAGIC) bs \<noteq> RECORD_MAGIC then Err (InvalidMagic ''record'') else
      and_then (read_u16_le bs 4 ''record kind'') (\<lambda>raw_kind.
      and_then (record_kind_try_from raw_kind) (\<lambda>kind.
      and_then (read_u16_le bs 6 ''record flags'') (\<lambda>flags.
      if flags \<noteq> 0 then Err (UnsupportedFlags ''record'' (ucast flags)) else
      and_then (read_u32_le bs 8 ''record header length'') (\<lambda>len.
      if len \<noteq> of_nat RECORD_HEADER_LEN then Err (InvalidLength ''record header'') else
      and_then (read_u64_le bs 12 ''stored length'') (\<lambda>stored_len.
      and_then (read_u64_le bs 20 ''logical length'') (\<lambda>logical_len.
      if stored_len \<noteq> logical_len then Err (InvalidLength ''transformed logical length'') else
      if stored_len > max_payload_bytes lim then Err (LimitExceeded ''record payload bytes'') else
      and_then (read_u64_le bs 28 ''object identifier'') (\<lambda>object_id.
      and_then (read_u32_le bs 36 ''record reserved'') (\<lambda>reserved.
      if reserved \<noteq> 0 then Err (InvalidReserved ''record header'') else
      let record = \<lparr>sa_kind = kind, sa_object_id = object_id, sa_offset = offset, sa_stored_len = stored_len,
            sa_logical_len = logical_len\<rparr> in
      if kind = Directory then
        (if object_id \<noteq> 0 then Err (InvalidRecordOrder ''directory identifier must be zero'') else Ok (record, identifiers))
      else if object_id = 0 then Err (InvalidRecordOrder ''non-directory identifier is zero'')
      else if object_id \<in> identifiers then Err (DuplicateObjectId object_id)
      else Ok (record, insert object_id identifiers))))))))))"

text \<open>The read counter is threaded beside the source.\<close>

definition read_bounded :: "'s read_at \<Rightarrow> 's \<Rightarrow> u64 \<Rightarrow> usize \<Rightarrow> u64 \<Rightarrow> limits \<Rightarrow> string \<Rightarrow> (bytes \<times> u64) result \<times> 's" where
  "read_bounded S source offset n so_far lim context =
     (case and_then (ok_or (LimitExceeded ''total bytes read'') (u64_try_from n)) (\<lambda>len.
           ok_or (LimitExceeded ''total bytes read'') (checked_add so_far len)) of
        Inl e \<Rightarrow> (Inl e, source)
      | Inr next \<Rightarrow>
        if next > max_total_bytes_read lim then (Inl (LimitExceeded ''total bytes read''), source) else
        (case ra_read_exact_at S source offset n of
           (Inl _, source) \<Rightarrow> (Inl (Io context), source)
         | (Inr bs, source) \<Rightarrow> (Inr (bs, next), source)))"

text \<open>A diagnostic that ends the scan with the records found so far.\<close>

definition salvage_stop :: "limits \<Rightarrow> diagnostic_stage \<Rightarrow> u64 \<Rightarrow> error \<Rightarrow> prefix_salvage_report \<Rightarrow> prefix_salvage_report" where
  "salvage_stop lim stage offset e report =
     report\<lparr>ps_diagnostics := push_diagnostic (ps_diagnostics report) (max_diagnostics lim) stage (Some offset) e\<rparr>"

lemma salvage_progress:
  assumes "checked_add offset 40 = Some header_end" and "checked_add header_end stored_len = Some payload_end"
    and "\<not> (file_len :: u64) < payload_end"
  shows "unat file_len - unat payload_end < unat file_len - unat offset"
  using assms by (auto simp: checked_add_Some_iff word_less_nat_alt)

function salvage_loop :: "'s read_at \<Rightarrow> limits \<Rightarrow> u64 \<Rightarrow> u64 \<Rightarrow> u64 set \<Rightarrow> prefix_salvage_report \<Rightarrow> 's
    \<Rightarrow> prefix_salvage_report result \<times> 's" where
  "salvage_loop S lim file_len offset identifiers report source =
     (if \<not> offset < file_len then (Inr report, source) else
      if (case u64_try_from (length (ps_records report)) of None \<Rightarrow> True | Some count \<Rightarrow> count \<ge> max_records lim)
      then (Inr (salvage_stop lim StageSalvage offset (LimitExceeded ''record count'') report), source) else
      (case checked_add offset (of_nat RECORD_HEADER_LEN) of
         None \<Rightarrow> (Inr (salvage_stop lim StageSalvage offset (RangeOutOfBounds ''record header'') report), source)
       | Some header_end \<Rightarrow>
         if header_end > file_len
         then (Inr (salvage_stop lim StageSalvage offset (Truncated ''record header'') report), source) else
         (case read_bounded S source offset RECORD_HEADER_LEN (ps_bytes_read report) lim ''salvage record header'' of
            (Inl e, source) \<Rightarrow> (Inl e, source)
          | (Inr (bs, so_far), source) \<Rightarrow>
            let report = report\<lparr>ps_bytes_read := so_far\<rparr> in
            (case parse_record bs offset lim identifiers of
               Inl e \<Rightarrow> (Inr (salvage_stop lim StageSalvage offset e report), source)
             | Inr (record, identifiers) \<Rightarrow>
               (case checked_add header_end (sa_stored_len record) of
                  None \<Rightarrow> (Inr (salvage_stop lim StageSalvage offset (RangeOutOfBounds ''record payload'') report), source)
                | Some payload_end \<Rightarrow>
                  if payload_end > file_len
                  then (Inr (salvage_stop lim StageSalvage offset (Truncated ''record payload'') report), source) else
                  let report = report\<lparr>ps_records := ps_records report @ [record]\<rparr> in
                  if sa_kind record = Directory then (Inr (report\<lparr>ps_reached_directory := True\<rparr>), source)
                  else salvage_loop S lim file_len payload_end identifiers report source)))))"
  by pat_completeness auto
termination
  by (relation "measure (\<lambda>(S, lim, file_len, offset, ids, rep, s). unat file_len - unat offset)")
    (auto simp: salvage_progress)

declare salvage_loop.simps [simp del]

definition salvage_scan :: "'s read_at \<Rightarrow> limits \<Rightarrow> ('s, prefix_salvage_report) op" where
  "salvage_scan S lim source =
     (if max_diagnostics lim = 0 then (Inl (LimitExceeded ''diagnostics''), source) else
      case ra_len S source of
        (Inl _, source) \<Rightarrow> (Inl (Io ''salvage source length''), source)
      | (Inr file_len, source) \<Rightarrow>
        if file_len > max_file_bytes lim then (Inl (LimitExceeded ''file bytes''), source) else
        let report = \<lparr>ps_status = DsUnverifiedPrefix, ps_file_len = file_len, ps_records = [], ps_diagnostics = [],
              ps_reached_directory = False, ps_bytes_read = 0\<rparr> in
        if file_len < of_nat HEADER_LEN
        then (Inr (salvage_stop lim StageBootstrap 0 (Truncated ''file header'') report), source) else
        (case read_bounded S source 0 HEADER_LEN (ps_bytes_read report) lim ''salvage file header'' of
           (Inl e, source) \<Rightarrow> (Inl e, source)
         | (Inr (header, so_far), source) \<Rightarrow>
           let report = report\<lparr>ps_bytes_read := so_far\<rparr> in
           (case salvage_validate_header header of
              Inl e \<Rightarrow> (Inr (salvage_stop lim StageBootstrap 0 e report), source)
            | Inr _ \<Rightarrow> salvage_loop S lim file_len (of_nat HEADER_LEN) {} report source)))"

end
