(* ===== verification/Ucof_Salvage.thy ===== *)
theory Ucof_Salvage
  imports Ucof_Diagnostic Ucof_Source_Properties
begin

text \<open>
  Diagnosis and prefix salvage (\<open>diagnostic.rs\<close>): a file is reported as verified exactly when the
  strict validator verifies it, and the salvager reports exactly the complete records at the front of a
  source, without ever claiming more.
\<close>

section \<open>The frame of a record\<close>

definition salvaged_at :: "nat \<Rightarrow> record_kind \<Rightarrow> u64 \<Rightarrow> u64 \<Rightarrow> salvaged_record" where
  "salvaged_at i k oid n = \<lparr>sa_kind = k, sa_object_id = oid, sa_offset = of_nat i, sa_stored_len = n, sa_logical_len = n\<rparr>"

definition fresh_id :: "record_kind \<Rightarrow> u64 \<Rightarrow> u64 set \<Rightarrow> u64 set \<Rightarrow> bool" where
  "fresh_id k oid ids ids' \<longleftrightarrow> (if k = Directory then oid = 0 \<and> ids' = ids else oid \<noteq> 0 \<and> oid \<notin> ids \<and> ids' = insert oid ids)"

lemma take_as_slice: "n \<le> length bs \<Longrightarrow> length bs < 2 ^ 64 \<Longrightarrow> take_slice bs 0 n c = Inr x \<longleftrightarrow> take n bs = x"
  by (simp add: take_slice_eq)

lemma parse_record_Ok:
  assumes "length bs = 40"
  shows "parse_record bs off lim ids = Inr (r, ids') \<longleftrightarrow>
    (\<exists>k oid n. bs = record_header k oid n \<and> n \<le> max_payload_bytes lim \<and> fresh_id k oid ids ids' \<and>
       r = \<lparr>sa_kind = k, sa_object_id = oid, sa_offset = off, sa_stored_len = n, sa_logical_len = n\<rparr>)"
proof -
  have h: "bs = record_header k oid n \<longleftrightarrow> take 4 bs = RECORD_MAGIC \<and> read_u16_le bs 4 ''record kind'' = Inr (u16_from_kind k) \<and>
    read_u16_le bs 6 ''record flags'' = Inr 0 \<and> read_u32_le bs 8 ''record header length'' = Inr 40 \<and>
    read_u64_le bs 12 ''stored length'' = Inr n \<and> read_u64_le bs 20 ''logical length'' = Inr n \<and>
    read_u64_le bs 28 ''object identifier'' = Inr oid \<and> read_u32_le bs 36 ''record reserved'' = Inr 0" for k oid n
    using record_header_fields [of bs 0 k oid n] assms by (simp add: take_as_slice)
  show ?thesis
  proof
    assume "parse_record bs off lim ids = Inr (r, ids')"
    then show "\<exists>k oid n. bs = record_header k oid n \<and> n \<le> max_payload_bytes lim \<and> fresh_id k oid ids ids' \<and>
       r = \<lparr>sa_kind = k, sa_object_id = oid, sa_offset = off, sa_stored_len = n, sa_logical_len = n\<rparr>"
      by (auto simp: parse_record_def result_simps Let_def record_kind_Ok_iff fresh_id_def h not_less split: if_splits)
  next
    assume "\<exists>k oid n. bs = record_header k oid n \<and> n \<le> max_payload_bytes lim \<and> fresh_id k oid ids ids' \<and>
       r = \<lparr>sa_kind = k, sa_object_id = oid, sa_offset = off, sa_stored_len = n, sa_logical_len = n\<rparr>"
    then obtain k oid n where b: "bs = record_header k oid n" "n \<le> max_payload_bytes lim" "fresh_id k oid ids ids'"
      "r = \<lparr>sa_kind = k, sa_object_id = oid, sa_offset = off, sa_stored_len = n, sa_logical_len = n\<rparr>" by blast
    from h [THEN iffD1, OF b(1)] show "parse_record bs off lim ids = Inr (r, ids')"
      using b(2,3) by (auto simp: parse_record_def b(4) fresh_id_def split: if_splits)
  qed
qed

lemma salvage_validate_header_Ok:
  assumes "length bs = 32"
  shows "salvage_validate_header bs = Inr u \<longleftrightarrow> bs = file_header"
  using validate_header_Ok_iff [of bs u] assms
  by (auto simp: salvage_validate_header_def validate_header_def result_simps take_slice_eq split: if_splits)

lemma read_bounded_inv:
  assumes "read_bounded S s off n so_far lim c = (Inr (bs, t), s')"
  shows "ra_read_exact_at S s off n = (Inr bs, s')" "unat t = unat so_far + n" "t \<le> max_total_bytes_read lim"
  using assms by (auto simp: read_bounded_def not_less result_simps checked_add_Some_iff u64_try_from_Some_iff
      split: sum.splits if_splits prod.splits)

text \<open>The records that stand at the front of a source.\<close>

fun salvaged :: "nat \<Rightarrow> record_spec list \<Rightarrow> salvaged_record list" where
  "salvaged i [] = []"
| "salvaged i ((k, oid, p) # rs) = salvaged_at i k oid (of_nat (length p)) # salvaged (i + 40 + length p) rs"

lemma salvaged_snoc: "salvaged i (rs @ [(k, oid, p)]) = salvaged i rs @ [salvaged_at (i + length (concat (map record_image rs))) k oid (of_nat (length p))]"
  by (induction i rs rule: salvaged.induct) (auto simp: add.assoc simp del: record_image.simps)

lemma length_salvaged [simp]: "length (salvaged i rs) = length rs"
  by (induction i rs rule: salvaged.induct) auto

text \<open>Behind the records \<open>rs\<close> of the source stands a complete record.\<close>

definition record_at :: "bytes \<Rightarrow> nat \<Rightarrow> record_kind \<Rightarrow> u64 \<Rightarrow> bytes \<Rightarrow> bool" where
  "record_at X i k oid p \<longleftrightarrow> i + 40 + length p \<le> length X \<and> take (40 + length p) (drop i X) = record_image (k, oid, p) \<and> length p < 2 ^ 64"

definition report_record :: "prefix_salvage_report \<Rightarrow> u64 \<Rightarrow> salvaged_record \<Rightarrow> prefix_salvage_report" where
  "report_record rep t r = rep\<lparr>ps_bytes_read := t, ps_records := ps_records (rep\<lparr>ps_bytes_read := t\<rparr>) @ [r]\<rparr>"

definition same_prefix :: "limits \<Rightarrow> prefix_salvage_report \<Rightarrow> prefix_salvage_report \<Rightarrow> bool" where
  "same_prefix lim rep rep' \<longleftrightarrow> ps_records rep' = ps_records rep \<and> ps_reached_directory rep' = ps_reached_directory rep \<and>
     ps_status rep' = ps_status rep \<and> ps_file_len rep' = ps_file_len rep \<and>
     (ps_bytes_read rep' = ps_bytes_read rep \<or> ps_bytes_read rep' \<le> max_total_bytes_read lim)"

lemma same_prefix_stop [simp]:
  "same_prefix lim rep (salvage_stop lim st off e rep)"
  "t \<le> max_total_bytes_read lim \<Longrightarrow> same_prefix lim rep (salvage_stop lim st off e (rep\<lparr>ps_bytes_read := t\<rparr>))"
  by (simp_all add: same_prefix_def salvage_stop_def)

lemma salvage_loop_read:
  assumes "off < L" and "\<not> (case u64_try_from (length (ps_records rep)) of None \<Rightarrow> True | Some n \<Rightarrow> max_records lim \<le> n)"
    and "checked_add off 40 = Some h" and "\<not> L < h"
    and "read_bounded S s off 40 (ps_bytes_read rep) lim ''salvage record header'' = (Inr (bs, t), s1)"
  shows "salvage_loop S lim L off ids rep s =
            (case parse_record bs off lim ids of
               Inl e \<Rightarrow> (Inr (salvage_stop lim StageSalvage off e (rep\<lparr>ps_bytes_read := t\<rparr>)), s1)
             | Inr (record, identifiers) \<Rightarrow>
               (case checked_add h (sa_stored_len record) of
                  None \<Rightarrow> (Inr (salvage_stop lim StageSalvage off (RangeOutOfBounds ''record payload'') (rep\<lparr>ps_bytes_read := t\<rparr>)), s1)
                | Some payload_end \<Rightarrow>
                  if payload_end > L
                  then (Inr (salvage_stop lim StageSalvage off (Truncated ''record payload'') (rep\<lparr>ps_bytes_read := t\<rparr>)), s1) else
                  let report = report_record rep t record in
                  if sa_kind record = Directory then (Inr (report\<lparr>ps_reached_directory := True\<rparr>), s1)
                  else salvage_loop S lim L payload_end identifiers report s1))"
  by (subst salvage_loop.simps, unfold report_record_def Let_def) (simp add: assms)

text \<open>The scan has reported \<open>rs\<close> and stands behind them.\<close>

definition salvage_inv :: "bytes \<Rightarrow> limits \<Rightarrow> u64 \<Rightarrow> u64 set \<Rightarrow> record_spec list \<Rightarrow> prefix_salvage_report \<Rightarrow> bool" where
  "salvage_inv X lim off ids rs rep \<longleftrightarrow> ps_records rep = salvaged 32 rs \<and> take (length (body_image rs)) X = body_image rs \<and>
     unat off = length (body_image rs) \<and> ids = spec_id ` set rs \<and> Directory \<notin> fst ` set rs \<and> ids_ok {} rs \<and>
     \<not> ps_reached_directory rep \<and> ps_status rep = DsUnverifiedPrefix \<and> ps_bytes_read rep \<le> max_total_bytes_read lim"

text \<open>What a report says about the source.\<close>

definition salvage_result :: "bytes \<Rightarrow> limits \<Rightarrow> record_spec list \<Rightarrow> prefix_salvage_report \<Rightarrow> bool" where
  "salvage_result X lim rs rep \<longleftrightarrow> ps_records rep = salvaged 32 rs \<and> take (length (body_image rs)) X = body_image rs \<and>
     ids_ok {} rs \<and> Directory \<notin> fst ` set (butlast rs) \<and> (ps_reached_directory rep \<longleftrightarrow> Directory \<in> fst ` set rs) \<and>
     ps_status rep = DsUnverifiedPrefix \<and> ps_bytes_read rep \<le> max_total_bytes_read lim"

lemma salvage_inv_result: "salvage_inv X lim off ids rs rep \<Longrightarrow> same_prefix lim rep rep' \<Longrightarrow> salvage_result X lim rs rep'"
  by (auto simp: salvage_inv_def salvage_result_def same_prefix_def dest: in_set_butlastD)

lemma ids_ok_append_record: "ids_ok S (rs @ [(k, oid, p)]) \<longleftrightarrow> ids_ok S rs \<and>
    (if k = Directory then oid = 0 else oid \<noteq> 0 \<and> oid \<notin> S \<and> oid \<notin> spec_id ` set (filter (\<lambda>r. fst r \<noteq> Directory) rs))"
  by (induction S rs rule: ids_ok.induct) auto

lemma ids_ok_append_iff: "ids_ok S (xs @ ys) \<longleftrightarrow> ids_ok S xs \<and> ids_ok (S \<union> spec_id ` set (filter (\<lambda>r. fst r \<noteq> Directory) xs)) ys"
  by (induction S xs rule: ids_ok.induct) (auto simp: insert_commute)

lemma record_at_body:
  assumes "record_at X (length (body_image rs)) k oid p" and "take (length (body_image rs)) X = body_image rs"
  shows "take (length (body_image (rs @ [(k, oid, p)]))) X = body_image (rs @ [(k, oid, p)])"
  using assms by (simp add: record_at_def body_image_snoc take_add del: record_image.simps)

lemma salvage_inv_report:
  assumes "salvage_inv X lim off ids rs rep" and "record_at X (unat off) k oid p" and "fresh_id k oid ids ids'" and "t \<le> max_total_bytes_read lim"
  shows "ps_records (report_record rep t (salvaged_at (unat off) k oid (of_nat (length p)))) = salvaged 32 (rs @ [(k, oid, p)])"
    "take (length (body_image (rs @ [(k, oid, p)]))) X = body_image (rs @ [(k, oid, p)])" "ids_ok {} (rs @ [(k, oid, p)])"
proof -
  have off: "unat off = length (body_image rs)" using assms(1) by (simp add: salvage_inv_def)
  then show "ps_records (report_record rep t (salvaged_at (unat off) k oid (of_nat (length p)))) = salvaged 32 (rs @ [(k, oid, p)])"
    using assms(1) by (simp add: salvage_inv_def report_record_def salvaged_snoc body_image_def)
  show "take (length (body_image (rs @ [(k, oid, p)]))) X = body_image (rs @ [(k, oid, p)])"
    using record_at_body [of X rs k oid p] assms(1,2) off by (simp add: salvage_inv_def)
  show "ids_ok {} (rs @ [(k, oid, p)])"
    using assms(1,3) by (auto simp: salvage_inv_def ids_ok_append_record fresh_id_def split: if_splits)
qed

context stable_source
begin

lemma salvage_step:
  assumes run: "salvage_loop S lim L off ids rep s = (Inr rep', s')" and L: "unat L = length (content s)"
  obtains (stop) "same_prefix lim rep rep'"
  | (found) k oid p ids' t s1 payload_end where "record_at (content s) (unat off) k oid p" "fresh_id k oid ids ids'" "content s1 = content s"
      "t \<le> max_total_bytes_read lim" "unat payload_end = unat off + 40 + length p" "off < L" "payload_end \<le> L"
      "if k = Directory then rep' = (report_record rep t (salvaged_at (unat off) k oid (of_nat (length p))))\<lparr>ps_reached_directory := True\<rparr>
       else salvage_loop S lim L payload_end ids' (report_record rep t (salvaged_at (unat off) k oid (of_nat (length p)))) s1 = (Inr rep', s')"
proof (cases "same_prefix lim rep rep'")
  case False
  have nostop: "salvage_stop lim st o1 e rep \<noteq> rep'" "rep' \<noteq> rep" for st o1 e
    using False by (auto simp: same_prefix_def salvage_stop_def)
  note body = trans [OF salvage_loop.simps [of S lim L off ids rep s, symmetric] run]
  have below: "off < L" by (rule ccontr) (use body nostop(2) in simp)
  have count: "\<not> (case u64_try_from (length (ps_records rep)) of None \<Rightarrow> True | Some n \<Rightarrow> max_records lim \<le> n)"
    by (rule ccontr) (use body below nostop(1) in simp)
  obtain h where h: "checked_add off 40 = Some h" using body below count nostop(1) by (cases "checked_add off 40") simp_all
  have room: "\<not> L < h" by (rule ccontr) (use body below count h nostop(1) in simp)
  obtain bs t s1 where rb: "read_bounded S s off 40 (ps_bytes_read rep) lim ''salvage record header'' = (Inr (bs, t), s1)"
    using body below count h room by (cases "read_bounded S s off 40 (ps_bytes_read rep) lim ''salvage record header''") (auto split: sum.splits)
  note st = below h room rb
  note rest = salvage_loop_read [where ids = ids, OF below count h room rb, symmetric, unfolded run]
  note rd = read_bounded_inv [OF st(4)] read_content [OF read_bounded_inv(1) [OF st(4)]]
  have nostop': "salvage_stop lim st o1 e (rep\<lparr>ps_bytes_read := t\<rparr>) \<noteq> rep'" for st o1 e
    using False rd(3) by auto
  from rest nostop' obtain r ids' pe where pr: "parse_record bs off lim ids = Inr (r, ids')" "checked_add h (sa_stored_len r) = Some pe" "\<not> L < pe"
    and cont: "if sa_kind r = Directory then rep' = (report_record rep t r)\<lparr>ps_reached_directory := True\<rparr>
       else salvage_loop S lim L pe ids' (report_record rep t r) s1 = (Inr rep', s')"
    by (auto simp: Let_def split: if_splits option.splits sum.splits prod.splits)
  from pr(1) rd obtain k oid n where hdr: "bs = record_header k oid n" "fresh_id k oid ids ids'"
      "r = \<lparr>sa_kind = k, sa_object_id = oid, sa_offset = off, sa_stored_len = n, sa_logical_len = n\<rparr>"
    by (auto simp: parse_record_Ok)
  let ?p = "take (unat n) (drop (unat off + 40) (content s))"
  have pe: "unat pe = unat off + 40 + unat n" "unat pe \<le> length (content s)"
    using st(2) pr(2,3) hdr(3) L by (auto simp: checked_add_Some_iff word_less_nat_alt)
  then have len: "length ?p = unat n" by simp
  have "take (40 + unat n) (drop (unat off) (content s)) = take 40 (drop (unat off) (content s)) @ ?p"
    by (simp only: take_add drop_drop add.commute [of 40 "unat off"])
  then have at: "record_at (content s) (unat off) k oid ?p" using pe rd(4) hdr(1) len unfolding record_at_def by auto
  have req: "r = salvaged_at (unat off) k oid (of_nat (length ?p))" using hdr(3) len by (simp add: salvaged_at_def)
  have kind: "sa_kind r = k" using hdr(3) by simp
  show thesis
  proof (rule found [OF at hdr(2)])
    show "content s1 = content s" "t \<le> max_total_bytes_read lim" using rd by simp_all
    show "unat pe = unat off + 40 + length ?p" "off < L" "pe \<le> L" using pe len st(1) pr(3) by simp_all
    show "if k = Directory then rep' = (report_record rep t (salvaged_at (unat off) k oid (of_nat (length ?p))))\<lparr>ps_reached_directory := True\<rparr>
       else salvage_loop S lim L pe ids' (report_record rep t (salvaged_at (unat off) k oid (of_nat (length ?p)))) s1 = (Inr rep', s')"
      using cont unfolding kind by (simp only: req)
  qed
qed

lemma salvage_loop_sound:
  assumes "salvage_loop S lim L off ids rep s = (Inr rep', s')" and "unat L = length (content s)"
    and "salvage_inv (content s) lim off ids rs rep"
  shows "\<exists>rs'. salvage_result (content s) lim (rs @ rs') rep' \<and> ps_file_len rep' = ps_file_len rep"
  using assms
proof (induction "unat L - unat off" arbitrary: off ids rep s rs rule: less_induct)
  case less
  let ?X = "content s"
  from less.prems(1,2) show ?case
  proof (cases rule: salvage_step)
    case stop
    then show ?thesis
      using salvage_inv_result [OF less.prems(3)] by (intro exI [of _ "[]"]) (simp add: same_prefix_def)
  next
    case (found k oid p ids' t s1 payload_end)
    let ?rep = "report_record rep t (salvaged_at (unat off) k oid (of_nat (length p)))" and ?r = "(k, oid, p)"
    note new = salvage_inv_report [OF less.prems(3) found(1,2,4)]
    show ?thesis
    proof (cases "k = Directory")
      case True
      then have "salvage_result ?X lim (rs @ [?r]) rep'"
        using found(4,8) new less.prems(3) by (simp add: salvage_result_def salvage_inv_def report_record_def)
      then show ?thesis using True found(8) by (intro exI [of _ "[?r]"]) (simp add: report_record_def)
    next
      case False
      have "salvage_inv ?X lim payload_end ids' (rs @ [?r]) ?rep"
        using False found(2,4,5) new less.prems(3) by (auto simp: salvage_inv_def report_record_def fresh_id_def body_image_snoc)
      moreover have "unat L - unat payload_end < unat L - unat off" using found(5-7) by (simp add: word_le_nat_alt word_less_nat_alt)
      ultimately obtain rs' where "salvage_result ?X lim ((rs @ [?r]) @ rs') rep'" "ps_file_len rep' = ps_file_len ?rep"
        using less.hyps [of payload_end ids' ?rep s1 "rs @ [?r]"] found(3,8) False less.prems(2) by auto
      then show ?thesis by (intro exI [of _ "?r # rs'"]) (simp add: report_record_def)
    qed
  qed
qed

lemma salvage_scan_sound:
  assumes "salvage_scan S lim s = (Inr rep, s')"
  shows "unat (ps_file_len rep) = length (content s)"
    "ps_records rep = [] \<and> \<not> ps_reached_directory rep \<and> ps_status rep = DsUnverifiedPrefix \<and> ps_bytes_read rep \<le> max_total_bytes_read lim \<or>
     (\<exists>rs. salvage_result (content s) lim rs rep)"
proof -
  let ?rep = "\<lambda>L t. \<lparr>ps_status = DsUnverifiedPrefix, ps_file_len = L, ps_records = [], ps_diagnostics = [], ps_reached_directory = False, ps_bytes_read = t\<rparr>"
  from assms obtain L s1 where L: "ra_len S s = (Inr L, s1)" "max_diagnostics lim \<noteq> 0" "\<not> L > max_file_bytes lim"
    by (auto simp: salvage_scan_def Let_def split: if_splits prod.splits sum.splits)
  note len = len_content [OF L(1)]
  have "unat (ps_file_len rep) = length (content s) \<and> (ps_records rep = [] \<and> \<not> ps_reached_directory rep \<and> ps_status rep = DsUnverifiedPrefix \<and> ps_bytes_read rep \<le> max_total_bytes_read lim \<or>
     (\<exists>rs. salvage_result (content s) lim rs rep))"
  proof (cases "L < 32")
    case True
    then have "rep = salvage_stop lim StageBootstrap 0 (Truncated ''file header'') (?rep L 0)"
      using assms L by (simp add: salvage_scan_def)
    then show ?thesis using len by (simp add: salvage_stop_def)
  next
    case False
    then obtain hd t s2 where rd: "read_bounded S s1 0 32 0 lim ''salvage file header'' = (Inr (hd, t), s2)"
      using assms L by (auto simp: salvage_scan_def Let_def split: prod.splits sum.splits)
    note rb = read_bounded_inv [OF rd] read_content [OF read_bounded_inv(1) [OF rd]]
    show ?thesis
    proof (cases "salvage_validate_header hd")
      case (Inl e)
      then have "rep = salvage_stop lim StageBootstrap 0 e (?rep L t)" using assms L False rd by (simp add: salvage_scan_def)
      then show ?thesis using len rb(3) by (simp add: salvage_stop_def)
    next
      case (Inr u)
      then have run: "salvage_loop S lim L 32 {} (?rep L t) s2 = (Inr rep, s')" using assms L False rd by (simp add: salvage_scan_def)
      have same: "content s2 = content s" using rb len by simp
      have "length hd = 32" using rb(4) by blast
      then have hd: "hd = file_header" using Inr salvage_validate_header_Ok [of hd u] by simp
      have "salvage_inv (content s2) lim 32 {} [] (?rep L t)"
        using hd rb(3,4) len by (simp add: salvage_inv_def)
      from salvage_loop_sound [OF run _ this] same len show ?thesis by auto
    qed
  qed
  then show "unat (ps_file_len rep) = length (content s)"
    "ps_records rep = [] \<and> \<not> ps_reached_directory rep \<and> ps_status rep = DsUnverifiedPrefix \<and> ps_bytes_read rep \<le> max_total_bytes_read lim \<or>
     (\<exists>rs. salvage_result (content s) lim rs rep)" by blast+
qed

end

text \<open>Over a source that answers, the scan always returns a report.\<close>

context ready_source
begin

lemma read_bounded_ready:
  assumes "length (content s) < 2 ^ 64" and "unat off + n \<le> length (content s)" and "unat so_far + n \<le> unat (max_total_bytes_read lim)"
  shows "\<exists>bs s' t. read_bounded S s off n so_far lim c = (Inr (bs, t), s') \<and> unat t = unat so_far + n \<and> t \<le> max_total_bytes_read lim \<and>
    bs = take n (drop (unat off) (content s)) \<and> length bs = n \<and> content s' = content s"
proof -
  obtain bs s' where rd: "ra_read_exact_at S s off n = (Inr bs, s')" using read_ready [OF assms(1,2)] by blast
  have n: "n < 2 ^ 64" using le_unat_64 [OF assms(3)] by simp
  have t: "unat (so_far + of_nat n) = unat so_far + n" using unat_add_of_nat [OF assms(3)] .
  then have "checked_add so_far (of_nat n) = Some (so_far + of_nat n)" using n by (simp add: checked_add_Some_iff)
  moreover have "so_far + of_nat n \<le> max_total_bytes_read lim" using t assms(3) by (simp add: word_le_nat_alt)
  ultimately have "read_bounded S s off n so_far lim c = (Inr (bs, so_far + of_nat n), s')" "so_far + of_nat n \<le> max_total_bytes_read lim"
    using rd n by (simp_all add: read_bounded_def not_less)
  with t read_content [OF rd] show ?thesis by blast
qed

lemma salvage_loop_total:
  assumes "unat L = length (content s)" and "L \<le> max_total_bytes_read lim" and "ps_bytes_read rep \<le> off"
  shows "\<exists>rep' s'. salvage_loop S lim L off ids rep s = (Inr rep', s')"
  using assms
proof (induction "unat L - unat off" arbitrary: off ids rep s rule: less_induct)
  case less
  show ?case
  proof (cases "\<exists>rep' s'. salvage_loop S lim L off ids rep s = (Inr rep', s')")
    case False
    then obtain e s' where err: "salvage_loop S lim L off ids rep s = (Inl e, s')" 
      by (cases "salvage_loop S lim L off ids rep s"; cases "fst (salvage_loop S lim L off ids rep s)") auto
    note body = trans [OF salvage_loop.simps [of S lim L off ids rep s, symmetric] err]
    have below: "off < L" by (rule ccontr) (use body in simp)
    have count: "\<not> (case u64_try_from (length (ps_records rep)) of None \<Rightarrow> True | Some n \<Rightarrow> max_records lim \<le> n)"
      by (rule ccontr) (use body below in simp)
    obtain h where h: "checked_add off 40 = Some h" using body below count by (cases "checked_add off 40") simp_all
    have room: "\<not> L < h" by (rule ccontr) (use body below count h in simp)
    have h': "unat off + 40 \<le> length (content s)" using h room less.prems(1) by (simp add: checked_add_Some_iff word_less_nat_alt)
    have "unat (ps_bytes_read rep) + 40 \<le> unat (max_total_bytes_read lim)"
      using h' less.prems by (simp add: word_le_nat_alt)
    moreover have "length (content s) < 2 ^ 64" using unat_eqD [OF less.prems(1)] by (rule conjunct2)
    ultimately obtain bs s1 t where
      rb: "read_bounded S s off 40 (ps_bytes_read rep) lim ''salvage record header'' = (Inr (bs, t), s1)"
      and t: "unat t = unat (ps_bytes_read rep) + 40" "content s1 = content s" using read_bounded_ready [OF _ h'] by blast
    note salvage_loop_read [where ids = ids, OF below count h room rb, symmetric, unfolded err]
    then obtain r ids' pe where "checked_add h (sa_stored_len r) = Some pe" "\<not> L < pe"
      "salvage_loop S lim L pe ids' (report_record rep t r) s1 = (Inl e, s')"
      by (auto simp: Let_def split: if_splits option.splits sum.splits prod.splits)
    moreover from this have "unat L - unat pe < unat L - unat off" using salvage_progress [OF h] by blast
    moreover have "t \<le> pe" using \<open>checked_add h _ = _\<close> h t less.prems(3) by (simp add: checked_add_Some_iff word_le_nat_alt)
    ultimately show ?thesis
      using less.hyps [of pe s1 "report_record rep t r" ids'] less.prems(1,2) t(2) by (simp add: report_record_def)
  qed simp
qed

text \<open>A complete record is reported.\<close>

lemma salvage_loop_found:
  assumes "record_at (content s) (unat off) k oid p" and "of_nat (length p) \<le> max_payload_bytes lim" and "fresh_id k oid ids ids'"
    and "length (ps_records rep) < unat (max_records lim)" and "unat L = length (content s)" and "L \<le> max_total_bytes_read lim"
    and "ps_bytes_read rep \<le> off"
  obtains t s1 payload_end where "content s1 = content s" "t \<le> max_total_bytes_read lim" "unat t = unat (ps_bytes_read rep) + 40"
    "unat payload_end = unat off + 40 + length p"
    "salvage_loop S lim L off ids rep s =
      (if k = Directory then (Inr ((report_record rep t (salvaged_at (unat off) k oid (of_nat (length p))))\<lparr>ps_reached_directory := True\<rparr>), s1)
       else salvage_loop S lim L payload_end ids' (report_record rep t (salvaged_at (unat off) k oid (of_nat (length p)))) s1)"
proof -
  have at: "unat off + 40 + length p \<le> unat L" "take (40 + length p) (drop (unat off) (content s)) = record_image (k, oid, p)" "length p < 2 ^ 64"
    using assms(1,5) by (simp_all add: record_at_def)
  have below: "off < L" using at(1) by (simp add: word_less_nat_alt)
  have n: "u64_try_from (length (ps_records rep)) = Some (of_nat (length (ps_records rep)))" "length (ps_records rep) < 2 ^ 64"
    using assms(4) le_unat_64 [of "length (ps_records rep)" "max_records lim"] by simp_all
  then have count: "\<not> (case u64_try_from (length (ps_records rep)) of None \<Rightarrow> True | Some n \<Rightarrow> max_records lim \<le> n)"
    using assms(4) by (simp add: word_le_nat_alt)
  have h: "checked_add off 40 = Some (off + 40)" "unat (off + 40) = unat off + 40"
    using unat_add_of_nat [of off 40 L] at(1) by (simp_all add: checked_add_Some_iff)
  have room: "\<not> L < off + 40" using at(1) h(2) by (simp add: word_less_nat_alt)
  have "unat (ps_bytes_read rep) + 40 \<le> unat (max_total_bytes_read lim)" "unat off + 40 \<le> length (content s)"
    using at(1) assms(5-7) by (simp_all add: word_le_nat_alt)
  moreover have "length (content s) < 2 ^ 64" using unat_eqD [OF assms(5)] by (rule conjunct2)
  ultimately obtain bs s1 t where rb: "read_bounded S s off 40 (ps_bytes_read rep) lim ''salvage record header'' = (Inr (bs, t), s1)"
    and t: "unat t = unat (ps_bytes_read rep) + 40" "t \<le> max_total_bytes_read lim" "content s1 = content s"
    and bs: "bs = take 40 (drop (unat off) (content s))" "length bs = 40" using read_bounded_ready by blast
  have "take 40 (take (40 + length p) (drop (unat off) (content s))) = record_header k oid (of_nat (length p))" unfolding at(2) by simp
  then have hdr: "bs = record_header k oid (of_nat (length p))" using bs(1) by (simp add: min_def)
  have pr: "parse_record bs off lim ids = Inr (salvaged_at (unat off) k oid (of_nat (length p)), ids')"
    unfolding parse_record_Ok [OF bs(2)] using hdr assms(2,3) by (auto simp: salvaged_at_def)
  have pe: "checked_add (off + 40) (of_nat (length p)) = Some (off + 40 + of_nat (length p))" "unat (off + 40 + of_nat (length p)) = unat off + 40 + length p"
    using unat_add_of_nat [of "off + 40" "length p" L] at(1,3) h(2) by (simp_all add: checked_add_Some_iff)
  then have "\<not> L < off + 40 + of_nat (length p)" using at(1) by (simp add: word_less_nat_alt)
  then have "salvage_loop S lim L off ids rep s =
      (if k = Directory then (Inr ((report_record rep t (salvaged_at (unat off) k oid (of_nat (length p))))\<lparr>ps_reached_directory := True\<rparr>), s1)
       else salvage_loop S lim L (off + 40 + of_nat (length p)) ids' (report_record rep t (salvaged_at (unat off) k oid (of_nat (length p)))) s1)"
    unfolding salvage_loop_read [OF below count h(1) room rb] using pr pe(1) by (simp add: salvaged_at_def)
  then show thesis by (rule that [OF t(3,2,1) pe(2)])
qed

lemma salvage_loop_complete:
  assumes "salvage_inv (content s) lim off ids rs rep" and "take (length (body_image (rs @ ss))) (content s) = body_image (rs @ ss)"
    and "length (body_image (rs @ ss)) \<le> length (content s)" and "ids_ok {} (rs @ ss)" and "Directory \<notin> fst ` set (butlast ss)"
    and "sizes_ok lim ss" and "length (rs @ ss) \<le> unat (max_records lim)"
    and "unat L = length (content s)" and "L \<le> max_total_bytes_read lim" and "ps_bytes_read rep \<le> off"
  shows "\<exists>rep' s' rs'. salvage_loop S lim L off ids rep s = (Inr rep', s') \<and> ps_records rep' = salvaged 32 (rs @ ss @ rs')"
  using assms
proof (induction ss arbitrary: off ids rs rep s)
  case Nil
  then obtain rep' s' where run: "salvage_loop S lim L off ids rep s = (Inr rep', s')" using salvage_loop_total by blast
  from salvage_loop_sound [OF run Nil.prems(8,1)] run show ?case by (auto simp: salvage_result_def)
next
  case (Cons r ss)
  obtain k oid p where r: "r = (k, oid, p)" by (cases r)
  have off: "unat off = length (body_image rs)" using Cons.prems(1) by (simp add: salvage_inv_def)
  obtain tail where X: "content s = body_image (rs @ r # ss) @ tail" using append_take_drop_id [of "length (body_image (rs @ r # ss))" "content s"] Cons.prems(2) by metis
  then have X: "content s = body_image rs @ record_image (k, oid, p) @ (concat (map record_image ss) @ tail)" by (simp add: body_image_cat r)
  have len: "length p \<le> unat (max_payload_bytes lim)" using Cons.prems(6) by (simp add: r)
  have at: "record_at (content s) (unat off) k oid p"
    using le_unat_64 [OF len] by (simp add: record_at_def off X)
  have ok: "ids_ok {} (rs @ [r])" using Cons.prems(4) ids_ok_append_iff [of "{}" "rs @ [r]" ss] by simp
  define ids' where "ids' = (if k = Directory then ids else insert oid ids)"
  have "filter (\<lambda>r. fst r \<noteq> Directory) rs = rs" "ids = spec_id ` set rs" using Cons.prems(1) by (force simp: filter_id_conv salvage_inv_def)+
  then have fresh: "fresh_id k oid ids ids'" using ok by (auto simp: fresh_id_def ids'_def r ids_ok_append_record split: if_splits)
  have pay: "of_nat (length p) \<le> max_payload_bytes lim" using len le_unat_64 [OF len] by (simp add: word_le_nat_alt)
  have cnt: "length (ps_records rep) < unat (max_records lim)" using Cons.prems(1,7) by (simp add: salvage_inv_def)
  obtain t s1 pe where st: "content s1 = content s" "t \<le> max_total_bytes_read lim" "unat t = unat (ps_bytes_read rep) + 40" "unat pe = unat off + 40 + length p"
    and run: "salvage_loop S lim L off ids rep s =
      (if k = Directory then (Inr ((report_record rep t (salvaged_at (unat off) k oid (of_nat (length p))))\<lparr>ps_reached_directory := True\<rparr>), s1)
       else salvage_loop S lim L pe ids' (report_record rep t (salvaged_at (unat off) k oid (of_nat (length p)))) s1)"
    by (rule salvage_loop_found [OF at pay fresh cnt Cons.prems(8-10)])
  let ?rep = "report_record rep t (salvaged_at (unat off) k oid (of_nat (length p)))"
  note new = salvage_inv_report [OF Cons.prems(1) at fresh st(2)]
  show ?case
  proof (cases "k = Directory")
    case True
    then have "ss = []" using Cons.prems(5) by (auto simp: r split: if_splits)
    then show ?thesis
      using True run new(1)
      by (intro exI [of _ "?rep\<lparr>ps_reached_directory := True\<rparr>"] exI [of _ s1] exI [of _ "[]"]) (simp add: r)
  next
    case False
    have inv: "salvage_inv (content s1) lim pe ids' (rs @ [r]) ?rep"
      using False st new Cons.prems(1) by (auto simp: salvage_inv_def report_record_def ids'_def r body_image_snoc)
    have "ps_bytes_read ?rep \<le> pe" using st Cons.prems(10) by (simp add: report_record_def word_le_nat_alt)
    moreover have "sizes_ok lim ss" using Cons.prems(6) by (simp add: r)
    moreover have "Directory \<notin> fst ` set (butlast ss)" using Cons.prems(5) by (auto split: if_splits)
    ultimately show ?thesis using Cons.IH [OF inv] Cons.prems(2-4,7-9) st(1) False run by simp
  qed
qed

lemma salvage_scan_complete:
  assumes "content s = body_image rs @ tail" and "ids_ok {} rs" and "Directory \<notin> fst ` set (butlast rs)" and "sizes_ok lim rs"
    and "length rs \<le> unat (max_records lim)" and "max_diagnostics lim \<noteq> 0"
    and "length (content s) \<le> unat (max_file_bytes lim)" and "length (content s) \<le> unat (max_total_bytes_read lim)"
  shows "\<exists>rep s' rs'. salvage_scan S lim s = (Inr rep, s') \<and> ps_records rep = salvaged 32 (rs @ rs')"
proof -
  have X: "length (content s) < 2 ^ 64" using le_unat_64 [OF assms(7)] .
  obtain L s1 where L: "ra_len S s = (Inr L, s1)" using len_ready [OF X] by blast
  have len: "unat L = length (content s)" "content s1 = content s" using len_content [OF L] by auto
  have hl: "32 \<le> length (content s)" by (simp add: assms(1) body_image_def)
  then have c: "\<not> L > max_file_bytes lim" "\<not> L < 32" "L \<le> max_total_bytes_read lim"
    using len assms(7,8) by (simp_all add: word_less_nat_alt word_le_nat_alt)
  obtain bs t s2 where rb: "read_bounded S s1 0 32 0 lim ''salvage file header'' = (Inr (bs, t), s2)" and t: "unat t = 32" "t \<le> max_total_bytes_read lim"
    and bs: "bs = take 32 (content s)" "length bs = 32" "content s2 = content s"
    using read_bounded_ready [of s1 0 32 0 lim "''salvage file header''"] X hl len assms(8) by auto
  have "bs = file_header" using bs(1) by (simp add: assms(1) body_image_def)
  then have hd: "salvage_validate_header bs = Inr ()" using salvage_validate_header_Ok [OF bs(2)] by simp
  let ?rep = "\<lparr>ps_status = DsUnverifiedPrefix, ps_file_len = L, ps_records = [], ps_diagnostics = [], ps_reached_directory = False, ps_bytes_read = t\<rparr>"
  have run: "salvage_scan S lim s = salvage_loop S lim L 32 {} ?rep s2"
    using assms(6) L c rb hd by (simp add: salvage_scan_def)
  have inv: "salvage_inv (content s2) lim 32 {} [] ?rep" using t bs(1,3) \<open>bs = file_header\<close> by (simp add: salvage_inv_def)
  have "t \<le> 32" using t(1) by (simp add: word_le_nat_alt)
  with salvage_loop_complete [OF inv, of rs L] assms(2-5) bs(3) len(1) c(3) show ?thesis by (auto simp: run assms(1))
qed

end

section \<open>Properties\<close>

text \<open>
  C12. Salvage is sound: over a stable source, a prefix report never claims verification, knows the length
  of the source and stays within the read budget, and the records it lists are complete records that
  stand, contiguous and in order, at the front of the source behind an intact file header, with unique
  non-zero identifiers; a directory record, if one is reported, is the last.
\<close>

theorem salvage_sound:
  assumes "stable_source S content" and "salvage_scan S lim s = (Inr rep, s')"
  shows "ps_status rep = DsUnverifiedPrefix \<and> unat (ps_file_len rep) = length (content s) \<and>
    ps_bytes_read rep \<le> max_total_bytes_read lim \<and>
    (ps_records rep \<noteq> [] \<longrightarrow> (\<exists>rs. ps_records rep = salvaged 32 rs \<and> take (length (body_image rs)) (content s) = body_image rs \<and>
       ids_ok {} rs \<and> Directory \<notin> fst ` set (butlast rs) \<and> (ps_reached_directory rep \<longleftrightarrow> Directory \<in> fst ` set rs)))"
proof -
  from stable_source.salvage_scan_sound(2) [OF assms]
  have "ps_status rep = DsUnverifiedPrefix \<and> ps_bytes_read rep \<le> max_total_bytes_read lim \<and>
    (ps_records rep = [] \<or> (\<exists>rs. ps_records rep = salvaged 32 rs \<and> take (length (body_image rs)) (content s) = body_image rs \<and>
       ids_ok {} rs \<and> Directory \<notin> fst ` set (butlast rs) \<and> (ps_reached_directory rep \<longleftrightarrow> Directory \<in> fst ` set rs)))"
    unfolding salvage_result_def by blast
  then show ?thesis using stable_source.salvage_scan_sound(1) [OF assms] by blast
qed

text \<open>The sample file, cut in the middle of its directory.\<close>

definition sample_torn :: bytes where
  "sample_torn = body_image sample_records @ [85, 82, 69, 67]"

lemma sample_torn_room:
  "length sample_torn \<le> unat (max_file_bytes default_limits)" "length sample_torn \<le> unat (max_total_bytes_read default_limits)"
  "max_diagnostics default_limits \<noteq> 0" "length sample_records \<le> unat (max_records default_limits)" "sizes_ok default_limits sample_records"
  "ids_ok {} sample_records" "Directory \<notin> fst ` set (butlast sample_records)"
  by (simp_all add: sample_torn_def sample_records_def body_image_def sample_manifest_bytes_def default_limits_def)

lemma sample_salvage: "\<exists>rep s' rs'. salvage_scan slice_source default_limits sample_torn = (Inr rep, s') \<and> ps_records rep = salvaged 32 (sample_records @ rs')"
  by (rule slice.salvage_scan_complete [OF sample_torn_def sample_torn_room(6,7,5,4,3,1,2)])

theorem salvage_sound_witness:
  "\<exists>rep s' rs. salvage_scan slice_source default_limits sample_torn = (Inr rep, s') \<and> ps_records rep = salvaged 32 rs \<and> rs \<noteq> [] \<and>
     take (length (body_image rs)) sample_torn = body_image rs"
proof -
  obtain rep s' rs' where run: "salvage_scan slice_source default_limits sample_torn = (Inr rep, s')"
    and rs: "ps_records rep = salvaged 32 (sample_records @ rs')" using sample_salvage by blast
  have ne: "ps_records rep \<noteq> []" using rs by (simp add: sample_records_def)
  from salvage_sound [OF slice.stable_source_axioms run] ne obtain qs where
    "ps_records rep = salvaged 32 qs" "take (length (body_image qs)) sample_torn = body_image qs" by blast
  with run ne show ?thesis by (metis salvaged.simps(1))
qed

text \<open>
  C11. Salvage is complete: over a source that answers its reads, whatever follows a prefix of well-formed
  records (a torn record, garbage, or nothing) the scan returns a report that lists every record of the
  prefix. The scan stops at the first directory record, so none may come before the last record of the
  prefix; at least one diagnostic must be allowed, and the limits on the file, the bytes read, the payloads
  and the records must cover the source and the prefix.
\<close>

theorem salvage_recovers_prefix:
  assumes "ready_source S content" and "content s = body_image rs @ tail" and "ids_ok {} rs"
    and "Directory \<notin> fst ` set (butlast rs)" and "sizes_ok lim rs" and "length rs \<le> unat (max_records lim)" and "max_diagnostics lim \<noteq> 0"
    and "length (content s) \<le> unat (max_file_bytes lim)" and "length (content s) \<le> unat (max_total_bytes_read lim)"
  shows "\<exists>rep s' rs'. salvage_scan S lim s = (Inr rep, s') \<and> ps_records rep = salvaged 32 rs @ rs'"
proof -
  have "salvaged i (xs @ ys) = salvaged i xs @ salvaged (i + length (concat (map record_image xs))) ys" for i xs ys
    by (induction i xs rule: salvaged.induct) (simp_all add: add.assoc)
  then show ?thesis using ready_source.salvage_scan_complete [OF assms] by metis
qed

theorem salvage_recovers_prefix_witness:
  "\<exists>rep s' rs'. salvage_scan slice_source default_limits sample_torn = (Inr rep, s') \<and> ps_records rep = salvaged 32 sample_records @ rs'"
  by (rule salvage_recovers_prefix [OF slice.ready_source_axioms sample_torn_def sample_torn_room(6,7,5,4,3,1,2)])

text \<open>
  C32. A diagnosis says \<open>Verified\<close> only for an intact file: over a stable source the report is either
  verified, without diagnostics, and then the source is byte for byte the file of the validated records
  with its digest, or invalid with exactly one diagnostic; no other status is ever reported.
\<close>

theorem diagnose_faithful:
  assumes "stable_source S content" and "diagnose sha S lim s = (Inr rep, s')"
  shows "dr_status rep = DsVerified \<and> dr_diagnostics rep = [] \<and>
      (\<exists>v rs d. dr_validation rep = Some v \<and> sr_integrity v = Verified \<and> content s = file_image sha rs d (sr_manifest_id v) \<and>
         sr_entries v = layout 32 rs) \<or>
    dr_status rep = DsInvalid \<and> length (dr_diagnostics rep) = 1 \<and> dr_validation rep = None"
proof (cases "dr_status rep = DsVerified")
  case True
  with assms(2) obtain i s1 v s2 where ok: "metadata_inspect S lim s = (Inr i, s1)" "source_validate sha S lim s1 = (Inr v, s2)"
    and rep: "dr_validation rep = Some v" "dr_diagnostics rep = []"
    by (auto simp: diagnose_def split: if_splits prod.splits sum.splits)
  have "content s1 = content s" using stable_source.inspect_sound [OF assms(1) ok(1)] by blast
  with stable_source.validate_sound [OF assms(1) ok(2)] rep True show ?thesis by auto
next
  case False
  then show ?thesis using assms(2) by (auto simp: diagnose_def split: if_splits prod.splits sum.splits)
qed

theorem diagnose_faithful_witness:
  "\<exists>rep s'. diagnose sample_sha slice_source default_limits sample_file = (Inr rep, s') \<and> dr_status rep = DsVerified \<and> dr_diagnostics rep = []"
proof -
  obtain i s1 where ins: "metadata_inspect slice_source default_limits sample_file = (Inr i, s1)" using sample_inspect by blast
  have "s1 = sample_file" using slice.inspect_sound [OF ins] by blast
  moreover obtain v s2 where "source_validate sample_sha slice_source default_limits sample_file = (Inr v, s2)" using sample_validate by blast
  moreover have "max_diagnostics default_limits \<noteq> 0" by (simp add: default_limits_def)
  ultimately obtain rep s' where run: "diagnose sample_sha slice_source default_limits sample_file = (Inr rep, s')" "dr_status rep = DsVerified"
    using ins by (simp add: diagnose_def)
  with diagnose_faithful [OF slice.stable_source_axioms run(1)] show ?thesis by auto
qed

end
