(* ===== verification/Ucof_Snapshots.thy ===== *)
theory Ucof_Snapshots
  imports Ucof_Model "HOL-Library.List_Lexorder"
begin

text \<open>
  \<open>ucof-experiments/src/snapshots.rs\<close>: selection of the active snapshot among candidates, strictly at
  the end of the file or by recovery. Identities are 32-byte digests ordered lexicographically; a
  \<open>BTreeMap\<close> is a map and the sorted iteration of a \<open>BTreeSet\<close> is \<open>sorted_list_of_set\<close>.
\<close>

section \<open>Data\<close>

datatype snapshot_identity = SnapshotIdentity (identity_bytes: bytes)

instantiation snapshot_identity :: linorder
begin

definition less_eq_snapshot_identity :: "snapshot_identity \<Rightarrow> snapshot_identity \<Rightarrow> bool" where
  "less_eq_snapshot_identity a b \<longleftrightarrow> identity_bytes a \<le> identity_bytes b"

definition less_snapshot_identity :: "snapshot_identity \<Rightarrow> snapshot_identity \<Rightarrow> bool" where
  "less_snapshot_identity a b \<longleftrightarrow> identity_bytes a < identity_bytes b"

instance
  by standard (auto simp: less_eq_snapshot_identity_def less_snapshot_identity_def snapshot_identity.expand)

end

definition identity_derive :: "(bytes \<Rightarrow> bytes) \<Rightarrow> bytes \<Rightarrow> snapshot_identity" where
  "identity_derive sha label = SnapshotIdentity (sha (str_bytes ''UCOF snapshot model'' @ [0] @ label))"

text \<open>\<open>{byte:02x}\<close> prints two hexadecimal digits.\<close>

definition show_byte :: "byte \<Rightarrow> string" where
  "show_byte b = (if unat b < 16 then ''0'' @ show_hex (unat b) else show_hex (unat b))"

definition identity_display :: "snapshot_identity \<Rightarrow> string" where
  "identity_display i = concat (map show_byte (take 8 (identity_bytes i)))"

datatype checkpoint_kind = CkComplete | CkProgress

datatype candidate_status = CsVerified | CsIntegrityFailed | CsUnsupportedRequiredCapability | CsTruncated | CsInvalid

record snapshot_candidate =
  sn_identity :: snapshot_identity
  sn_sequence :: u64
  sn_parent :: "snapshot_identity option"
  sn_footer_offset :: u64
  sn_exact_end :: bool
  sn_checkpoint :: checkpoint_kind
  sn_status :: candidate_status

definition is_verified_complete :: "snapshot_candidate \<Rightarrow> bool" where
  "is_verified_complete c \<longleftrightarrow> sn_status c = CsVerified \<and> sn_checkpoint c = CkComplete"

datatype root_selection_mode = StrictExactEnd | Recovery

record root_selection_limits =
  rl_max_candidates :: usize
  rl_max_parent_depth :: usize

definition root_selection_limits_default :: root_selection_limits where
  "root_selection_limits_default = \<lparr>rl_max_candidates = 1024, rl_max_parent_depth = 256\<rparr>"

datatype root_rejection =
    NotVerified | ProgressCheckpoint | MissingParent | ParentNotVerified | NonIncreasingSequence
  | SequenceGap | ParentCycle | ParentDepthExceeded

record rejected_candidate =
  rj_identity :: snapshot_identity
  rj_reason :: root_rejection

record root_selection_report =
  rr_mode :: root_selection_mode
  rr_selected :: snapshot_identity
  rr_selected_sequence :: u64
  rr_chain :: "snapshot_identity list"
  rr_rejected :: "rejected_candidate list"
  rr_candidates_considered :: usize

datatype root_selection_error =
    CandidateLimitExceeded | DuplicateIdentity snapshot_identity | NoExactEndRoot | MultipleExactEndRoots
  | NoValidRoot | AmbiguousFork

fun root_selection_display :: "root_selection_error \<Rightarrow> string" where
  "root_selection_display CandidateLimitExceeded = ''snapshot candidate limit exceeded''"
| "root_selection_display (DuplicateIdentity identity) = ''duplicate snapshot identity '' @ identity_display identity"
| "root_selection_display NoExactEndRoot = ''no verified exact-end snapshot''"
| "root_selection_display MultipleExactEndRoots = ''multiple verified exact-end snapshots''"
| "root_selection_display NoValidRoot = ''no valid complete snapshot chain''"
| "root_selection_display AmbiguousFork = ''ambiguous highest snapshot fork''"

section \<open>The parent chain of a candidate\<close>

definition saturating_add :: "u64 \<Rightarrow> u64 \<Rightarrow> u64" where
  "saturating_add a b = (case checked_add a b of Some c \<Rightarrow> c | None \<Rightarrow> - 1)"

text \<open>The loop of \<open>evaluate_chain\<close>; \<open>rev_chain\<close> holds the identities visited so far, which are also
  the set \<open>visited\<close>.\<close>

function chain_loop :: "(snapshot_identity \<rightharpoonup> snapshot_candidate) \<Rightarrow> usize \<Rightarrow> snapshot_candidate
    \<Rightarrow> snapshot_identity list \<Rightarrow> snapshot_identity set \<Rightarrow> root_rejection + snapshot_identity list" where
  "chain_loop candidates max_depth current rev_chain visited =
     (if length rev_chain \<ge> max_depth then Inl ParentDepthExceeded else
      if sn_identity current \<in> visited then Inl ParentCycle else
      let visited = insert (sn_identity current) visited;
          rev_chain = rev_chain @ [sn_identity current] in
      case sn_parent current of
        None \<Rightarrow> Inr (rev rev_chain)
      | Some parent_identity \<Rightarrow>
        (case candidates parent_identity of
           None \<Rightarrow> Inl MissingParent
         | Some parent \<Rightarrow>
           if sn_status parent \<noteq> CsVerified then Inl ParentNotVerified else
           if sn_checkpoint parent = CkProgress then Inl ProgressCheckpoint else
           if sn_sequence current \<le> sn_sequence parent then Inl NonIncreasingSequence else
           if sn_sequence current \<noteq> saturating_add (sn_sequence parent) 1 then Inl SequenceGap else
           chain_loop candidates max_depth parent rev_chain visited))"
  by pat_completeness auto
termination
  by (relation "measure (\<lambda>(m, d, c, rc, v). d - length rc)") auto

declare chain_loop.simps [simp del]

definition evaluate_chain :: "snapshot_candidate \<Rightarrow> (snapshot_identity \<rightharpoonup> snapshot_candidate) \<Rightarrow> usize
    \<Rightarrow> root_rejection + snapshot_identity list" where
  "evaluate_chain start candidates max_depth =
     (if sn_status start \<noteq> CsVerified then Inl NotVerified else
      if sn_checkpoint start = CkProgress then Inl ProgressCheckpoint else
      chain_loop candidates max_depth start [] {})"

section \<open>Selection\<close>

fun index_candidates :: "snapshot_candidate list \<Rightarrow> (snapshot_identity \<rightharpoonup> snapshot_candidate)
    \<Rightarrow> root_selection_error + (snapshot_identity \<rightharpoonup> snapshot_candidate)" where
  "index_candidates [] by_identity = Inr by_identity"
| "index_candidates (c # cs) by_identity =
     (if by_identity (sn_identity c) \<noteq> None then Inl (DuplicateIdentity (sn_identity c))
      else index_candidates cs (by_identity(sn_identity c \<mapsto> c)))"

fun evaluate_all :: "(snapshot_identity \<rightharpoonup> snapshot_candidate) \<Rightarrow> usize \<Rightarrow> snapshot_candidate list
    \<Rightarrow> (snapshot_identity \<rightharpoonup> snapshot_identity list) \<Rightarrow> rejected_candidate list
    \<Rightarrow> (snapshot_identity \<rightharpoonup> snapshot_identity list) \<times> rejected_candidate list" where
  "evaluate_all by_identity depth [] valid_chains rejected = (valid_chains, rejected)"
| "evaluate_all by_identity depth (c # cs) valid_chains rejected =
     (case evaluate_chain c by_identity depth of
        Inr chain \<Rightarrow> evaluate_all by_identity depth cs (valid_chains(sn_identity c \<mapsto> chain)) rejected
      | Inl reason \<Rightarrow> evaluate_all by_identity depth cs valid_chains
          (rejected @ [\<lparr>rj_identity = sn_identity c, rj_reason = reason\<rparr>]))"

definition select_exact_end :: "snapshot_candidate list \<Rightarrow> (snapshot_identity \<rightharpoonup> snapshot_identity list)
    \<Rightarrow> root_selection_error + snapshot_candidate" where
  "select_exact_end candidates valid_chains =
     (case filter (\<lambda>c. sn_exact_end c \<and> valid_chains (sn_identity c) \<noteq> None) candidates of
        [] \<Rightarrow> Inl NoExactEndRoot
      | [c] \<Rightarrow> Inr c
      | _ \<Rightarrow> Inl MultipleExactEndRoots)"

definition select_recovery :: "(snapshot_identity \<rightharpoonup> snapshot_candidate) \<Rightarrow> (snapshot_identity \<rightharpoonup> snapshot_identity list)
    \<Rightarrow> root_selection_error + snapshot_candidate" where
  "select_recovery by_identity valid_chains =
     (let valid_ids = sorted_list_of_set (dom valid_chains) in
      if valid_ids = [] then Inl NoValidRoot else
      let parent_ids = filter (\<lambda>p. p \<in> set valid_ids)
            (List.map_filter (\<lambda>i. sn_parent (the (by_identity i))) valid_ids);
          terminals = map (\<lambda>i. the (by_identity i)) (filter (\<lambda>i. i \<notin> set parent_ids) valid_ids) in
      if terminals = [] then Inl NoValidRoot else
      let maximum = Max (set (map sn_sequence terminals)) in
      case filter (\<lambda>c. sn_sequence c = maximum) terminals of
        [c] \<Rightarrow> Inr c
      | _ \<Rightarrow> Inl AmbiguousFork)"

definition root_select :: "snapshot_candidate list \<Rightarrow> root_selection_mode \<Rightarrow> root_selection_limits
    \<Rightarrow> root_selection_error + root_selection_report" where
  "root_select candidates mode lim =
     (if length candidates > rl_max_candidates lim then Inl CandidateLimitExceeded else
      case index_candidates candidates Map.empty of
        Inl e \<Rightarrow> Inl e
      | Inr by_identity \<Rightarrow>
        (case evaluate_all by_identity (rl_max_parent_depth lim) candidates Map.empty [] of
           (valid_chains, rejected) \<Rightarrow>
           (case (case mode of
                    StrictExactEnd \<Rightarrow> select_exact_end candidates valid_chains
                  | Recovery \<Rightarrow> select_recovery by_identity valid_chains) of
              Inl e \<Rightarrow> Inl e
            | Inr selected \<Rightarrow>
              (case valid_chains (sn_identity selected) of
                 None \<Rightarrow> Inl NoValidRoot
               | Some chain \<Rightarrow>
                 Inr \<lparr>rr_mode = mode, rr_selected = sn_identity selected, rr_selected_sequence = sn_sequence selected,
                   rr_chain = chain, rr_rejected = rejected, rr_candidates_considered = length candidates\<rparr>))))"

end
