(* ===== verification/Ucof_Root_Selection.thy ===== *)
theory Ucof_Root_Selection
  imports Ucof_Snapshots
begin

text \<open>
  Root selection (\<open>snapshots.rs\<close>) against its specification: the selected snapshot ends a chain of
  verified complete snapshots with consecutive sequence numbers that starts at a genesis snapshot.
\<close>

section \<open>Specification\<close>

text \<open>The identities from a candidate back to its genesis, newest first.\<close>

fun linked :: "(snapshot_identity \<rightharpoonup> snapshot_candidate) \<Rightarrow> snapshot_candidate \<Rightarrow> snapshot_identity list \<Rightarrow> bool" where
  "linked m c [] \<longleftrightarrow> False"
| "linked m c (i # is) \<longleftrightarrow> i = sn_identity c \<and>
     (case sn_parent c of
        None \<Rightarrow> is = []
      | Some p \<Rightarrow> (case m p of
          None \<Rightarrow> False
        | Some parent \<Rightarrow> is_verified_complete parent \<and> unat (sn_sequence c) = unat (sn_sequence parent) + 1 \<and> linked m parent is))"

definition rooted :: "(snapshot_identity \<rightharpoonup> snapshot_candidate) \<Rightarrow> nat \<Rightarrow> snapshot_candidate \<Rightarrow> snapshot_identity list \<Rightarrow> bool" where
  "rooted m d c is \<longleftrightarrow> is_verified_complete c \<and> linked m c is \<and> length is \<le> d"

text \<open>The candidates by identity.\<close>

definition by_id :: "snapshot_candidate list \<Rightarrow> snapshot_identity \<rightharpoonup> snapshot_candidate" where
  "by_id cs = map_of (map (\<lambda>c. (sn_identity c, c)) cs)"

definition keyed :: "(snapshot_identity \<rightharpoonup> snapshot_candidate) \<Rightarrow> bool" where
  "keyed m \<longleftrightarrow> (\<forall>i c. m i = Some c \<longrightarrow> sn_identity c = i)"

lemma is_verified_complete_iff: "is_verified_complete c \<longleftrightarrow> sn_status c = CsVerified \<and> sn_checkpoint c \<noteq> CkProgress"
  by (cases "sn_checkpoint c") (auto simp: is_verified_complete_def)

lemma saturating_succ: "p < c \<Longrightarrow> c = saturating_add p 1 \<longleftrightarrow> unat c = unat p + 1"
proof -
  assume "p < c"
  then have "unat p + 1 < 2 ^ 64" by (intro le_unat_64 [of _ c]) (simp add: word_less_nat_alt)
  then have "saturating_add p 1 = p + 1" "unat (p + 1) = unat p + 1"
    by (simp_all add: saturating_add_def checked_add_def unat_add_no_overflow)
  then show ?thesis by (auto simp: word_unat_eq_iff)
qed

lemma linked_unique: "linked m c is \<Longrightarrow> linked m c js \<Longrightarrow> is = js"
proof (induction m c "is" arbitrary: js rule: linked.induct)
  case (2 m c i "is")
  then show ?case by (cases js) (auto split: option.splits)
qed simp

section \<open>The chain loop\<close>

text \<open>What has been visited lies above the current candidate.\<close>

definition above :: "(snapshot_identity \<rightharpoonup> snapshot_candidate) \<Rightarrow> snapshot_candidate \<Rightarrow> snapshot_identity set \<Rightarrow> bool" where
  "above m c V \<longleftrightarrow> m (sn_identity c) = Some c \<and> (\<forall>i\<in>V. \<exists>v. m i = Some v \<and> sn_sequence c < sn_sequence v)"

lemma above_fresh: "above m c V \<Longrightarrow> sn_identity c \<notin> V"
  by (auto simp: above_def)

lemma above_parent:
  "above m c V \<Longrightarrow> keyed m \<Longrightarrow> m p = Some q \<Longrightarrow> sn_sequence q < sn_sequence c \<Longrightarrow> above m q (insert (sn_identity c) V)"
  by (auto simp: above_def keyed_def intro: less_trans)

lemma linked_None: "sn_parent c = None \<Longrightarrow> linked m c is \<longleftrightarrow> is = [sn_identity c]"
  by (cases "is") auto

lemma linked_Some:
  "sn_parent c = Some p \<Longrightarrow> m p = Some q \<Longrightarrow> linked m c is \<longleftrightarrow> (\<exists>js. is = sn_identity c # js \<and> is_verified_complete q \<and>
     unat (sn_sequence c) = unat (sn_sequence q) + 1 \<and> linked m q js)"
  by (cases "is") auto

lemma linked_missing: "sn_parent c = Some p \<Longrightarrow> m p = None \<Longrightarrow> \<not> linked m c is"
  by (cases "is") auto

lemma chain_loop_parent:
  assumes "length rc < d" and "sn_identity c \<notin> V" and "sn_parent c = Some p" and "m p = Some q"
    and "is_verified_complete q" and "unat (sn_sequence c) = unat (sn_sequence q) + 1"
  shows "chain_loop m d c rc V = chain_loop m d q (rc @ [sn_identity c]) (insert (sn_identity c) V)"
proof -
  have "sn_sequence q < sn_sequence c" using assms(6) by (simp add: word_less_nat_alt)
  then have "sn_sequence c = saturating_add (sn_sequence q) 1" "\<not> sn_sequence c \<le> sn_sequence q" using assms(6) by (simp_all add: saturating_succ)
  then show ?thesis using assms by (subst chain_loop.simps) (simp add: Let_def is_verified_complete_iff)
qed

lemma chain_loop_blocked:
  assumes "sn_parent c = Some p" and "m p = Some q"
    and "\<not> (is_verified_complete q \<and> unat (sn_sequence c) = unat (sn_sequence q) + 1)"
  shows "chain_loop m d c rc V \<noteq> Inr ch"
  using assms saturating_succ [of "sn_sequence q" "sn_sequence c"]
  by (subst chain_loop.simps) (auto simp: Let_def is_verified_complete_iff not_le)

lemma chain_loop_Ok:
  assumes "keyed m" and "above m c V"
  shows "chain_loop m d c rc V = Inr ch \<longleftrightarrow> (\<exists>is. linked m c is \<and> length rc + length is \<le> d \<and> ch = rev (rc @ is))"
  using assms(2)
proof (induction "d - length rc" arbitrary: c rc V rule: less_induct)
  case less
  note fresh = above_fresh [OF less.prems]
  show ?case
  proof (cases "length rc < d")
    case False
    have "chain_loop m d c rc V = Inl ParentDepthExceeded" using False by (simp add: chain_loop.simps)
    moreover have "\<not> length rc + length is \<le> d" if "linked m c is" for "is" using False that by (cases "is") auto
    ultimately show ?thesis by auto
  next
    case room: True
    show ?thesis
    proof (cases "sn_parent c")
      case None
      then show ?thesis using room fresh by (subst chain_loop.simps) (auto simp: Let_def linked_None)
    next
      case (Some p)
      show ?thesis
      proof (cases "m p")
        case None
        then show ?thesis using Some room fresh by (subst chain_loop.simps) (simp add: Let_def linked_missing)
      next
        case q: (Some q)
        show ?thesis
        proof (cases "is_verified_complete q \<and> unat (sn_sequence c) = unat (sn_sequence q) + 1")
          case True
          then have "above m q (insert (sn_identity c) V)"
            using above_parent [OF less.prems assms(1) q] by (simp add: word_less_nat_alt)
          from less.hyps [OF _ this, of "rc @ [sn_identity c]"] True room show ?thesis
            by (simp add: chain_loop_parent [where p = p and q = q] fresh Some q linked_Some [where m = m, OF Some q]) auto
        qed (use chain_loop_blocked [where m = m, OF Some q] linked_Some [where m = m, OF Some q] in auto)
      qed
    qed
  qed
qed

lemma chain_loop_no_cycle:
  assumes "keyed m" and "above m c V"
  shows "chain_loop m d c rc V \<noteq> Inl ParentCycle"
  using assms
proof (induction m d c rc V rule: chain_loop.induct)
  case (1 m d c rc V)
  have fresh: "sn_identity c \<notin> V" using "1.prems"(2) by (rule above_fresh)
  show ?case
  proof
    assume run: "chain_loop m d c rc V = Inl ParentCycle"
    then obtain p q where q: "\<not> d \<le> length rc" "sn_parent c = Some p" "m p = Some q" "sn_status q = CsVerified" "sn_checkpoint q \<noteq> CkProgress"
      "sn_sequence q < sn_sequence c" "sn_sequence c = saturating_add (sn_sequence q) 1"
      "chain_loop m d q (rc @ [sn_identity c]) (insert (sn_identity c) V) = Inl ParentCycle"
      using fresh by (subst (asm) chain_loop.simps) (auto simp: Let_def not_le split: if_splits option.splits)
    have "chain_loop m d q (rc @ [sn_identity c]) (insert (sn_identity c) V) \<noteq> Inl ParentCycle"
      by (rule "1.IH") (use q fresh "1.prems" above_parent in \<open>auto simp: not_le\<close>)
    with q(8) show False by contradiction
  qed
qed

lemma evaluate_chain_Ok:
  assumes "keyed m" and "m (sn_identity c) = Some c"
  shows "evaluate_chain c m d = Inr ch \<longleftrightarrow> (\<exists>is. rooted m d c is \<and> ch = rev is)"
proof -
  have "above m c {}" using assms(2) by (simp add: above_def)
  from chain_loop_Ok [OF assms(1) this, of d "[]"] show ?thesis
    by (auto simp: evaluate_chain_def rooted_def is_verified_complete_iff)
qed

section \<open>The index of candidates\<close>

lemma index_candidates_Ok:
  "index_candidates cs m = Inr m' \<longleftrightarrow> distinct (map sn_identity cs) \<and> (\<forall>c\<in>set cs. m (sn_identity c) = None) \<and> m' = m ++ by_id cs"
proof (induction cs arbitrary: m)
  case (Cons c cs)
  have upd: "m(sn_identity c \<mapsto> c) ++ by_id cs = m ++ by_id (c # cs)" if "sn_identity c \<notin> sn_identity ` set cs"
  proof -
    have "sn_identity c \<notin> dom (by_id cs)" using that by (auto simp: by_id_def dom_map_of_conv_image_fst image_iff)
    then show ?thesis by (simp add: by_id_def map_add_upd_left)
  qed
  have "(\<forall>x\<in>set cs. (m(sn_identity c \<mapsto> c)) (sn_identity x) = None) \<longleftrightarrow>
      sn_identity c \<notin> sn_identity ` set cs \<and> (\<forall>x\<in>set cs. m (sn_identity x) = None)" by (auto simp: image_iff)
  note step = this
  show ?case
  proof (cases "m (sn_identity c)")
    case None
    with Cons.IH [of "m(sn_identity c \<mapsto> c)"] have "index_candidates (c # cs) m = Inr m' \<longleftrightarrow> distinct (map sn_identity cs) \<and>
        (sn_identity c \<notin> sn_identity ` set cs \<and> (\<forall>x\<in>set cs. m (sn_identity x) = None)) \<and> m' = m(sn_identity c \<mapsto> c) ++ by_id cs"
      unfolding step by (simp add: fun_upd_def)
    then show ?thesis using upd None by auto
  qed simp
qed (auto simp: by_id_def)

lemma by_id_Some: "distinct (map sn_identity cs) \<Longrightarrow> by_id cs i = Some c \<longleftrightarrow> c \<in> set cs \<and> sn_identity c = i"
  by (auto simp: by_id_def comp_def dest!: map_of_SomeD intro!: map_of_is_SomeI)

lemma keyed_by_id: "distinct (map sn_identity cs) \<Longrightarrow> keyed (by_id cs)"
  by (simp add: keyed_def by_id_Some)

section \<open>Evaluation of all candidates\<close>

definition chain_of :: "(snapshot_identity \<rightharpoonup> snapshot_candidate) \<Rightarrow> nat \<Rightarrow> snapshot_candidate \<Rightarrow> snapshot_identity list option" where
  "chain_of m d c = (case evaluate_chain c m d of Inr ch \<Rightarrow> Some ch | Inl e \<Rightarrow> None)"

lemma evaluate_all_chains:
  "distinct (map sn_identity cs) \<Longrightarrow>
   fst (evaluate_all m d cs vc rj) i = (case by_id cs i of Some c \<Rightarrow> (case chain_of m d c of Some ch \<Rightarrow> Some ch | None \<Rightarrow> vc i) | None \<Rightarrow> vc i)"
proof (induction cs arbitrary: vc rj)
  case (Cons c cs)
  have "sn_identity c \<notin> dom (by_id cs)" using Cons.prems by (auto simp: by_id_def dom_map_of_conv_image_fst image_iff)
  then have none: "by_id cs (sn_identity c) = None" by auto
  show ?case using Cons none by (cases "evaluate_chain c m d") (auto simp: chain_of_def by_id_def split: option.splits)
qed (simp add: by_id_def)

definition rejections :: "(snapshot_identity \<rightharpoonup> snapshot_candidate) \<Rightarrow> nat \<Rightarrow> snapshot_candidate list \<Rightarrow> rejected_candidate list" where
  "rejections m d cs = concat (map (\<lambda>c. case evaluate_chain c m d of
     Inl reason \<Rightarrow> [\<lparr>rj_identity = sn_identity c, rj_reason = reason\<rparr>] | Inr _ \<Rightarrow> []) cs)"

lemma evaluate_all_rejected: "snd (evaluate_all m d cs vc rj) = rj @ rejections m d cs"
  by (induction cs arbitrary: vc rj) (simp_all add: rejections_def split: sum.splits)

lemma chain_of_Some:
  assumes "distinct (map sn_identity cs)" and "c \<in> set cs"
  shows "chain_of (by_id cs) d c = Some ch \<longleftrightarrow> rooted (by_id cs) d c (rev ch)"
  using evaluate_chain_Ok [OF keyed_by_id [OF assms(1)], of c d ch] assms
  by (auto simp: chain_of_def by_id_Some split: sum.splits)

section \<open>Selection\<close>

lemma filter_single_iff:
  assumes "distinct xs"
  shows "filter P xs = [c] \<longleftrightarrow> c \<in> set xs \<and> P c \<and> (\<forall>x\<in>set xs. P x \<longrightarrow> x = c)"
proof
  assume single: "filter P xs = [c]"
  then have "set (filter P xs) = {c}" by simp
  then show "c \<in> set xs \<and> P c \<and> (\<forall>x\<in>set xs. P x \<longrightarrow> x = c)" by auto
next
  assume "c \<in> set xs \<and> P c \<and> (\<forall>x\<in>set xs. P x \<longrightarrow> x = c)"
  then have "set (filter P xs) = {c}" by auto
  moreover have "distinct (filter P xs)" using assms by simp
  ultimately have "length (filter P xs) = 1" using distinct_card [of "filter P xs"] by simp
  then obtain y where "filter P xs = [y]" by (auto simp: length_Suc_conv)
  with \<open>set (filter P xs) = {c}\<close> show "filter P xs = [c]" by simp
qed

text \<open>A strict selection takes the only valid candidate at the end of the file, a recovery the valid
  candidate whose sequence exceeds that of every other.\<close>

definition chosen :: "root_selection_mode \<Rightarrow> (snapshot_candidate \<Rightarrow> bool) \<Rightarrow> snapshot_candidate set \<Rightarrow> snapshot_candidate \<Rightarrow> bool" where
  "chosen mode valid C c \<longleftrightarrow> c \<in> C \<and> valid c \<and>
     (case mode of
        StrictExactEnd \<Rightarrow> sn_exact_end c \<and> (\<forall>x\<in>C. sn_exact_end x \<and> valid x \<longrightarrow> x = c)
      | Recovery \<Rightarrow> (\<forall>x\<in>C. valid x \<longrightarrow> x = c \<or> sn_sequence x < sn_sequence c))"

lemma select_exact_end_Ok:
  assumes "distinct cs"
  shows "select_exact_end cs V = Inr c \<longleftrightarrow> chosen StrictExactEnd (\<lambda>c. V (sn_identity c) \<noteq> None) (set cs) c"
proof -
  have "select_exact_end cs V = Inr c \<longleftrightarrow> filter (\<lambda>c. sn_exact_end c \<and> V (sn_identity c) \<noteq> None) cs = [c]"
    by (auto simp: select_exact_end_def split: list.splits)
  then show ?thesis by (auto simp: filter_single_iff [OF assms] chosen_def)
qed

text \<open>A valid candidate that another valid candidate names as its parent has a smaller sequence.\<close>

lemma rooted_parent:
  "rooted m d c is \<Longrightarrow> sn_parent c = Some p \<Longrightarrow> \<exists>q. m p = Some q \<and> unat (sn_sequence c) = unat (sn_sequence q) + 1"
  by (cases "is") (auto simp: rooted_def split: option.splits)

definition superseded :: "(snapshot_candidate \<Rightarrow> bool) \<Rightarrow> snapshot_candidate set \<Rightarrow> snapshot_candidate \<Rightarrow> bool" where
  "superseded valid C x \<longleftrightarrow> (\<exists>y\<in>C. valid y \<and> sn_parent y = Some (sn_identity x))"

lemma select_recovery_Ok:
  assumes "distinct (map sn_identity cs)" and V: "\<And>i. V i = Option.bind (by_id cs i) (chain_of (by_id cs) d)"
  shows "select_recovery (by_id cs) V = Inr c \<longleftrightarrow> chosen Recovery (\<lambda>c. V (sn_identity c) \<noteq> None) (set cs) c"
proof -
  define valid :: "snapshot_candidate \<Rightarrow> bool" where "valid = (\<lambda>c. V (sn_identity c) \<noteq> None)"
  have at: "by_id cs (sn_identity x) = Some x" if "x \<in> set cs" for x using that assms(1) by (simp add: by_id_Some)
  have rooted: "\<exists>is. rooted (by_id cs) d x is" if "x \<in> set cs" "valid x" for x
    using that at [OF that(1)] chain_of_Some [OF assms(1) that(1), of d] by (auto simp: valid_def V)
  have dom: "dom V = sn_identity ` {x \<in> set cs. valid x}"
    using at by (auto simp: V valid_def dom_def by_id_Some [OF assms(1)] bind_eq_Some_conv)
  define ids where "ids = sorted_list_of_set (dom V)"
  have ids: "set ids = dom V" "distinct ids" by (simp_all add: ids_def dom)
  define terminals where "terminals = map (\<lambda>i. the (by_id cs i)) (filter (\<lambda>i. i \<notin> set (filter (\<lambda>p. p \<in> set ids)
      (List.map_filter (\<lambda>i. sn_parent (the (by_id cs i))) ids))) ids)"
  have par: "sn_identity x \<in> set (List.map_filter (\<lambda>i. sn_parent (the (by_id cs i))) ids) \<longleftrightarrow> superseded valid (set cs) x" for x
    using at by (auto simp: superseded_def List.map_filter_def ids dom image_iff)
  have "set terminals = (\<lambda>i. the (by_id cs i)) ` {i \<in> set ids. i \<notin> set (List.map_filter (\<lambda>i. sn_parent (the (by_id cs i))) ids)}"
    by (auto simp: terminals_def)
  also have "\<dots> = (\<lambda>x. the (by_id cs (sn_identity x))) ` {x \<in> set cs. valid x \<and> \<not> superseded valid (set cs) x}"
    using par by (auto simp: ids(1) dom image_iff)
  also have "\<dots> = {x \<in> set cs. valid x \<and> \<not> superseded valid (set cs) x}" using at by (auto simp: image_iff)
  finally have terms: "set terminals = {x \<in> set cs. valid x \<and> \<not> superseded valid (set cs) x}" .
  have "inj_on (\<lambda>i. the (by_id cs i)) (dom V)" by (rule inj_on_inverseI [where g = sn_identity]) (auto simp: dom at)
  then have dist: "distinct terminals"
    using ids by (auto simp: terminals_def distinct_map intro: inj_on_subset)
  have step: "sn_sequence x < sn_sequence y" if "x \<in> set cs" "y \<in> set cs" "valid y" "sn_parent y = Some (sn_identity x)" for x y
  proof -
    from rooted [OF that(2,3)] obtain "is" where "rooted (by_id cs) d y is" by blast
    from rooted_parent [OF this that(4)] at [OF that(1)] show ?thesis by (simp add: word_less_nat_alt)
  qed
  have below: "\<exists>t\<in>set terminals. x = t \<or> sn_sequence x < sn_sequence t" if "x \<in> set cs" "valid x" for x
    using that
  proof (induction "2 ^ 64 - unat (sn_sequence x)" arbitrary: x rule: less_induct)
    case less
    show ?case
    proof (cases "superseded valid (set cs) x")
      case True
      then obtain y where y: "y \<in> set cs" "valid y" "sn_parent y = Some (sn_identity x)" by (auto simp: superseded_def)
      note lt = step [OF less.prems(1) y]
      have "2 ^ 64 - unat (sn_sequence y) < 2 ^ 64 - unat (sn_sequence x)"
        using lt diff_less_mono2 [of "unat (sn_sequence x)" "unat (sn_sequence y)" "2 ^ 64"] by (simp add: word_less_nat_alt)
      from less.hyps [OF this y(1,2)] lt show ?thesis by (auto intro: less_trans)
    qed (use less.prems terms in auto)
  qed
  have "select_recovery (by_id cs) V = Inr c \<longleftrightarrow>
      terminals \<noteq> [] \<and> filter (\<lambda>c. sn_sequence c = Max (set (map sn_sequence terminals))) terminals = [c]"
    unfolding select_recovery_def Let_def ids_def [symmetric] terminals_def [symmetric]
    by (auto simp: terminals_def List.map_filter_def split: list.splits)
  also have "\<dots> \<longleftrightarrow> c \<in> set terminals \<and> (\<forall>x\<in>set terminals. x = c \<or> sn_sequence x < sn_sequence c)" (is "?l \<longleftrightarrow> ?r")
  proof
    show ?r if ?l
      using that by (auto simp: filter_single_iff [OF dist] order.not_eq_order_implies_strict)
    assume r: ?r
    then have "Max (set (map sn_sequence terminals)) = sn_sequence c" by (intro Max_eqI) (auto intro: less_imp_le)
    with r show ?l by (auto simp: filter_single_iff [OF dist])
  qed
  also have "\<dots> \<longleftrightarrow> chosen Recovery valid (set cs) c" (is "?l \<longleftrightarrow> ?r")
  proof
    assume l: ?l
    have "x = c \<or> sn_sequence x < sn_sequence c" if "x \<in> set cs" "valid x" for x
      using below [OF that] l by (auto intro: less_trans)
    with l show ?r by (auto simp: chosen_def terms)
  next
    assume r: ?r
    then have c: "c \<in> set cs" "valid c" "\<And>x. x \<in> set cs \<Longrightarrow> valid x \<Longrightarrow> x = c \<or> sn_sequence x < sn_sequence c" by (auto simp: chosen_def)
    have "\<not> superseded valid (set cs) c"
      using step [OF c(1)] c(3) by (auto simp: superseded_def) (metis less_irrefl less_asym)
    with c show ?l by (auto simp: terms)
  qed
  finally show ?thesis by (simp add: valid_def)
qed

lemma evaluate_all_by_id:
  assumes "distinct (map sn_identity cs)"
  shows "fst (evaluate_all (by_id cs) d cs Map.empty rj) i = Option.bind (by_id cs i) (chain_of (by_id cs) d)"
  using evaluate_all_chains [OF assms, of "by_id cs" d Map.empty rj i] by (auto split: option.splits)

lemma select_Ok:
  assumes "distinct (map sn_identity cs)" and V: "\<And>i. V i = Option.bind (by_id cs i) (chain_of (by_id cs) d)"
  shows "(case mode of StrictExactEnd \<Rightarrow> select_exact_end cs V | Recovery \<Rightarrow> select_recovery (by_id cs) V) = Inr c \<longleftrightarrow>
    chosen mode (\<lambda>x. \<exists>is. rooted (by_id cs) d x is) (set cs) c"
proof -
  have valid: "V (sn_identity x) \<noteq> None \<longleftrightarrow> (\<exists>is. rooted (by_id cs) d x is)" if "x \<in> set cs" for x
  proof -
    have "by_id cs (sn_identity x) = Some x" using that assms(1) by (simp add: by_id_Some)
    then have "V (sn_identity x) \<noteq> None \<longleftrightarrow> (\<exists>ch. rooted (by_id cs) d x (rev ch))"
      using chain_of_Some [OF assms(1) that, of d] by (auto simp: V)
    then show ?thesis by (metis rev_rev_ident)
  qed
  have "chosen mode (\<lambda>x. V (sn_identity x) \<noteq> None) (set cs) c \<longleftrightarrow> chosen mode (\<lambda>x. \<exists>is. rooted (by_id cs) d x is) (set cs) c"
    using valid by (auto simp: chosen_def split: root_selection_mode.splits)
  moreover have "distinct cs" using assms(1) by (simp add: distinct_map)
  ultimately show ?thesis
    using select_exact_end_Ok [of cs V c] select_recovery_Ok [OF assms] by (cases mode) simp_all
qed

section \<open>Properties\<close>

text \<open>
  C13. Root selection is exact. \<open>select\<close> succeeds if and only if the candidates are within the limit and
  have distinct identities and one candidate is chosen: in strict mode the only candidate with a valid
  chain at the exact end of the file, in recovery the one whose sequence exceeds that of every other
  candidate with a valid chain. A valid chain consists of verified complete snapshots, is no longer than
  the depth limit, has consecutive sequence numbers and starts at a snapshot without a parent; the
  report holds it from the genesis to the selected snapshot, with every other candidate rejected.
\<close>

theorem root_select_exact:
  "root_select cs mode lim = Inr rep \<longleftrightarrow>
     length cs \<le> rl_max_candidates lim \<and> distinct (map sn_identity cs) \<and>
     (\<exists>c is. chosen mode (\<lambda>x. \<exists>js. rooted (by_id cs) (rl_max_parent_depth lim) x js) (set cs) c \<and>
        rooted (by_id cs) (rl_max_parent_depth lim) c is \<and>
        rep = \<lparr>rr_mode = mode, rr_selected = sn_identity c, rr_selected_sequence = sn_sequence c, rr_chain = rev is,
          rr_rejected = rejections (by_id cs) (rl_max_parent_depth lim) cs, rr_candidates_considered = length cs\<rparr>)"
proof (cases "length cs \<le> rl_max_candidates lim \<and> distinct (map sn_identity cs)")
  case False
  then show ?thesis
    by (auto simp: root_select_def index_candidates_Ok split: sum.splits)
next
  case True
  let ?d = "rl_max_parent_depth lim" and ?m = "by_id cs"
  obtain V rj where ev: "evaluate_all ?m ?d cs Map.empty [] = (V, rj)" by fastforce
  have V: "V i = Option.bind (?m i) (chain_of ?m ?d)" for i using evaluate_all_by_id [of cs ?d "[]" i] True ev by simp
  have rj: "rj = rejections ?m ?d cs" using evaluate_all_rejected [of ?m ?d cs Map.empty "[]"] ev by simp
  have idx: "index_candidates cs Map.empty = Inr ?m" using True by (simp add: index_candidates_Ok)
  note sel = select_Ok [where V = V and d = ?d and mode = mode, OF conjunct2 [OF True] V]
  have "?m (sn_identity c) = Some c" if "c \<in> set cs" for c using that True by (simp add: by_id_Some)
  then have chain: "V (sn_identity c) = Some ch \<longleftrightarrow> rooted ?m ?d c (rev ch)" if "c \<in> set cs" for c ch
    using that True chain_of_Some [of cs c ?d ch] by (simp add: V)
  have "root_select cs mode lim = Inr rep \<longleftrightarrow> (\<exists>c. chosen mode (\<lambda>x. \<exists>js. rooted ?m ?d x js) (set cs) c \<and>
      (\<exists>ch. V (sn_identity c) = Some ch \<and> rep = \<lparr>rr_mode = mode, rr_selected = sn_identity c, rr_selected_sequence = sn_sequence c,
        rr_chain = ch, rr_rejected = rj, rr_candidates_considered = length cs\<rparr>))"
    using True by (auto simp: root_select_def idx ev sel [symmetric] split: sum.splits option.splits)
  also have "\<dots> \<longleftrightarrow> (\<exists>c is. chosen mode (\<lambda>x. \<exists>js. rooted ?m ?d x js) (set cs) c \<and> rooted ?m ?d c is \<and>
      rep = \<lparr>rr_mode = mode, rr_selected = sn_identity c, rr_selected_sequence = sn_sequence c,
        rr_chain = rev is, rr_rejected = rj, rr_candidates_considered = length cs\<rparr>)"
    using chain by (fastforce simp: chosen_def)
  finally show ?thesis using True rj by simp
qed

text \<open>
  C33. No candidate is ever rejected as \<open>ParentCycle\<close>: the sequence numbers decrease strictly along a
  chain, so a cycle of parents is reported as a sequence error before an identity repeats.
\<close>

theorem parent_cycle_unreachable:
  assumes "root_select cs mode lim = Inr rep"
  shows "ParentCycle \<notin> rj_reason ` set (rr_rejected rep)"
proof -
  from assms have cs: "distinct (map sn_identity cs)"
    and rej: "rr_rejected rep = rejections (by_id cs) (rl_max_parent_depth lim) cs"
    using evaluate_all_rejected [of "by_id cs" "rl_max_parent_depth lim" cs Map.empty "[]"]
    by (auto simp: root_select_def index_candidates_Ok split: if_splits sum.splits prod.splits option.splits)
  have "evaluate_chain c (by_id cs) d \<noteq> Inl ParentCycle" if "c \<in> set cs" for c d
  proof -
    have "above (by_id cs) c {}" using that cs by (simp add: above_def by_id_Some)
    with chain_loop_no_cycle [OF keyed_by_id [OF cs]] show ?thesis by (auto simp: evaluate_chain_def)
  qed
  then show ?thesis by (fastforce simp: rej rejections_def split: sum.splits)
qed

text \<open>A genesis snapshot, its successor at the end of the file, and a pair of snapshots that name each
  other as parents.\<close>

definition sample_snapshot :: "byte \<Rightarrow> u64 \<Rightarrow> byte option \<Rightarrow> bool \<Rightarrow> snapshot_candidate" where
  "sample_snapshot i seq parent at_end = \<lparr>sn_identity = SnapshotIdentity [i], sn_sequence = seq,
     sn_parent = map_option (\<lambda>p. SnapshotIdentity [p]) parent, sn_footer_offset = 0, sn_exact_end = at_end,
     sn_checkpoint = CkComplete, sn_status = CsVerified\<rparr>"

definition sample_snapshots :: "snapshot_candidate list" where
  "sample_snapshots = [sample_snapshot 1 0 None False, sample_snapshot 2 1 (Some 1) True,
     sample_snapshot 3 7 (Some 4) False, sample_snapshot 4 8 (Some 3) False]"

theorem parent_cycle_unreachable_witness:
  "\<exists>rep. root_select sample_snapshots StrictExactEnd root_selection_limits_default = Inr rep \<and>
     length (rr_rejected rep) = 2 \<and> ParentCycle \<notin> rj_reason ` set (rr_rejected rep)"
proof -
  have "\<exists>rep. root_select sample_snapshots StrictExactEnd root_selection_limits_default = Inr rep \<and> length (rr_rejected rep) = 2"
    by (simp add: root_select_def sample_snapshots_def sample_snapshot_def root_selection_limits_default_def
        evaluate_chain_def chain_loop.simps saturating_add_def checked_add_def select_exact_end_def)
  then show ?thesis using parent_cycle_unreachable by blast
qed

end
