(* ===== verification/Ucof_Publication.thy ===== *)
theory Ucof_Publication
  imports Ucof_Snapshots
begin

text \<open>
  \<open>ucof-experiments/src/publication.rs\<close>: the order in which an append may publish its parts, as a
  state machine. Only the footer publishes the new snapshot; a complete checkpoint becomes the last
  complete snapshot, a progress checkpoint never does.
\<close>

section \<open>Data\<close>

datatype publication_stage = PsObjects | PsDirectoryLeaves | PsDirectoryRoot | PsSnapshotManifest | PsFooter

fun stage_index :: "publication_stage \<Rightarrow> usize" where
  "stage_index PsObjects = 0"
| "stage_index PsDirectoryLeaves = 1"
| "stage_index PsDirectoryRoot = 2"
| "stage_index PsSnapshotManifest = 3"
| "stage_index PsFooter = 4"

text \<open>The derived order of the enumeration is the order of its constructors.\<close>

instantiation publication_stage :: linorder
begin

definition less_eq_publication_stage :: "publication_stage \<Rightarrow> publication_stage \<Rightarrow> bool" where
  "less_eq_publication_stage a b \<longleftrightarrow> stage_index a \<le> stage_index b"

definition less_publication_stage :: "publication_stage \<Rightarrow> publication_stage \<Rightarrow> bool" where
  "less_publication_stage a b \<longleftrightarrow> stage_index a < stage_index b"

instance
proof
  show "a = b" if "a \<le> b" "b \<le> a" for a b :: publication_stage
    using that by (cases a; cases b) (simp_all add: less_eq_publication_stage_def)
qed (auto simp: less_eq_publication_stage_def less_publication_stage_def)

end

record publication_limits =
  pl_max_events :: usize
  pl_max_complete_checkpoints :: usize
  pl_max_progress_checkpoints :: usize

definition publication_limits_default :: publication_limits where
  "publication_limits_default =
     \<lparr>pl_max_events = 1000000, pl_max_complete_checkpoints = 1024, pl_max_progress_checkpoints = 4096\<rparr>"

datatype publication_error =
    EventLimitExceeded | StageRegression | DuplicateStage publication_stage | FooterBeforeSnapshot
  | CheckpointBeforeObjects | CompleteCheckpointLimitExceeded | ProgressCheckpointLimitExceeded | AlreadyPublished

fun stage_debug :: "publication_stage \<Rightarrow> string" where
  "stage_debug PsObjects = ''Objects''"
| "stage_debug PsDirectoryLeaves = ''DirectoryLeaves''"
| "stage_debug PsDirectoryRoot = ''DirectoryRoot''"
| "stage_debug PsSnapshotManifest = ''SnapshotManifest''"
| "stage_debug PsFooter = ''Footer''"

fun publication_display :: "publication_error \<Rightarrow> string" where
  "publication_display EventLimitExceeded = ''publication event limit exceeded''"
| "publication_display StageRegression = ''publication stage regressed''"
| "publication_display (DuplicateStage stage) = ''duplicate publication stage '' @ stage_debug stage"
| "publication_display FooterBeforeSnapshot = ''footer attempted before snapshot manifest''"
| "publication_display CheckpointBeforeObjects = ''checkpoint attempted before object stage''"
| "publication_display CompleteCheckpointLimitExceeded = ''complete checkpoint limit exceeded''"
| "publication_display ProgressCheckpointLimitExceeded = ''progress checkpoint limit exceeded''"
| "publication_display AlreadyPublished = ''append already published''"

record published_checkpoint =
  pc_identity :: snapshot_identity
  pc_sequence :: u64
  pc_kind :: checkpoint_kind
  pc_independently_readable :: bool
  pc_active_root_eligible :: bool

record publication_report =
  pr_published_snapshot :: "snapshot_identity option"
  pr_published_sequence :: "u64 option"
  pr_complete_checkpoints :: "published_checkpoint list"
  pr_progress_checkpoints :: "published_checkpoint list"
  pr_last_complete_snapshot :: "snapshot_identity option"
  pr_event_count :: usize

record publication_model =
  pm_identity :: snapshot_identity
  pm_sequence :: u64
  pm_limits :: publication_limits
  pm_current_stage :: "publication_stage option"
  pm_stage_seen :: "bool list"
  pm_published :: bool
  pm_complete_checkpoints :: "published_checkpoint list"
  pm_progress_checkpoints :: "published_checkpoint list"
  pm_last_complete_snapshot :: "snapshot_identity option"
  pm_event_count :: usize

section \<open>Operations\<close>

definition publication_new :: "snapshot_identity \<Rightarrow> u64 \<Rightarrow> snapshot_identity option \<Rightarrow> publication_limits \<Rightarrow> publication_model" where
  "publication_new identity sequence previous_complete lim =
     \<lparr>pm_identity = identity, pm_sequence = sequence, pm_limits = lim, pm_current_stage = None,
      pm_stage_seen = replicate 5 False, pm_published = False, pm_complete_checkpoints = [],
      pm_progress_checkpoints = [], pm_last_complete_snapshot = previous_complete, pm_event_count = 0\<rparr>"

definition record_event :: "publication_model \<Rightarrow> (publication_error + unit) \<times> publication_model" where
  "record_event m =
     (if pm_event_count m \<ge> pl_max_events (pm_limits m) then (Inl EventLimitExceeded, m)
      else (Inr (), m\<lparr>pm_event_count := pm_event_count m + 1\<rparr>))"

definition advance :: "publication_model \<Rightarrow> publication_stage \<Rightarrow> (publication_error + unit) \<times> publication_model" where
  "advance m stage =
     (case record_event m of
        (Inl e, m) \<Rightarrow> (Inl e, m)
      | (Inr _, m) \<Rightarrow>
        if pm_published m then (Inl AlreadyPublished, m) else
        if (case pm_current_stage m of Some current \<Rightarrow> stage < current | None \<Rightarrow> False) then (Inl StageRegression, m) else
        let index = stage_index stage in
        if pm_stage_seen m ! index then (Inl (DuplicateStage stage), m) else
        if stage = PsFooter \<and> \<not> pm_stage_seen m ! stage_index PsSnapshotManifest then (Inl FooterBeforeSnapshot, m) else
        let m = m\<lparr>pm_stage_seen := (pm_stage_seen m)[index := True], pm_current_stage := Some stage\<rparr> in
        if stage = PsFooter
        then (Inr (), m\<lparr>pm_published := True, pm_last_complete_snapshot := Some (pm_identity m)\<rparr>)
        else (Inr (), m))"

definition checkpoint :: "publication_model \<Rightarrow> snapshot_identity \<Rightarrow> u64 \<Rightarrow> checkpoint_kind
    \<Rightarrow> (publication_error + published_checkpoint) \<times> publication_model" where
  "checkpoint m identity sequence kind =
     (case record_event m of
        (Inl e, m) \<Rightarrow> (Inl e, m)
      | (Inr _, m) \<Rightarrow>
        if pm_published m then (Inl AlreadyPublished, m) else
        if \<not> pm_stage_seen m ! stage_index PsObjects then (Inl CheckpointBeforeObjects, m) else
        (case kind of
           CkComplete \<Rightarrow>
             if length (pm_complete_checkpoints m) \<ge> pl_max_complete_checkpoints (pm_limits m)
             then (Inl CompleteCheckpointLimitExceeded, m) else
             let c = \<lparr>pc_identity = identity, pc_sequence = sequence, pc_kind = kind,
                   pc_independently_readable = True, pc_active_root_eligible = True\<rparr>
             in (Inr c, m\<lparr>pm_complete_checkpoints := pm_complete_checkpoints m @ [c],
                  pm_last_complete_snapshot := Some identity\<rparr>)
         | CkProgress \<Rightarrow>
             if length (pm_progress_checkpoints m) \<ge> pl_max_progress_checkpoints (pm_limits m)
             then (Inl ProgressCheckpointLimitExceeded, m) else
             let c = \<lparr>pc_identity = identity, pc_sequence = sequence, pc_kind = kind,
                   pc_independently_readable = False, pc_active_root_eligible = False\<rparr>
             in (Inr c, m\<lparr>pm_progress_checkpoints := pm_progress_checkpoints m @ [c]\<rparr>)))"

definition publication_report_of :: "publication_model \<Rightarrow> publication_report" where
  "publication_report_of m =
     \<lparr>pr_published_snapshot = (if pm_published m then Some (pm_identity m) else None),
      pr_published_sequence = (if pm_published m then Some (pm_sequence m) else None),
      pr_complete_checkpoints = pm_complete_checkpoints m, pr_progress_checkpoints = pm_progress_checkpoints m,
      pr_last_complete_snapshot = pm_last_complete_snapshot m, pr_event_count = pm_event_count m\<rparr>"

end
