(* ===== verification/Ucof_Publication_Order.thy ===== *)
theory Ucof_Publication_Order
  imports Ucof_Publication
begin

text \<open>
  The publication order (\<open>publication.rs\<close>) as a state machine: the calls a run has accepted, and what
  the state says about them.
\<close>

section \<open>Runs\<close>

datatype publication_event = Advanced publication_stage | Checkpointed published_checkpoint

text \<open>\<open>publication_runs m0 evs m\<close>: calls on \<open>m0\<close>, of which \<open>evs\<close> were accepted, have left \<open>m\<close>.\<close>

inductive publication_runs :: "publication_model \<Rightarrow> publication_event list \<Rightarrow> publication_model \<Rightarrow> bool" for m0 where
  pub_start: "publication_runs m0 [] m0"
| pub_advance: "publication_runs m0 evs m \<Longrightarrow> advance m stage = (Inr u, m') \<Longrightarrow> publication_runs m0 (evs @ [Advanced stage]) m'"
| pub_checkpoint: "publication_runs m0 evs m \<Longrightarrow> checkpoint m identity sequence kind = (Inr c, m') \<Longrightarrow>
    publication_runs m0 (evs @ [Checkpointed c]) m'"
| pub_advance_fails: "publication_runs m0 evs m \<Longrightarrow> advance m stage = (Inl e, m') \<Longrightarrow> publication_runs m0 evs m'"
| pub_checkpoint_fails: "publication_runs m0 evs m \<Longrightarrow> checkpoint m identity sequence kind = (Inl e, m') \<Longrightarrow> publication_runs m0 evs m'"

fun stages :: "publication_event list \<Rightarrow> publication_stage list" where
  "stages [] = []"
| "stages (Advanced s # evs) = s # stages evs"
| "stages (Checkpointed c # evs) = stages evs"

fun checkpoints :: "checkpoint_kind \<Rightarrow> publication_event list \<Rightarrow> published_checkpoint list" where
  "checkpoints k [] = []"
| "checkpoints k (Advanced s # evs) = checkpoints k evs"
| "checkpoints k (Checkpointed c # evs) = (if pc_kind c = k then c # checkpoints k evs else checkpoints k evs)"

text \<open>The snapshot a reader may rely on after the accepted calls.\<close>

fun last_complete :: "snapshot_identity \<Rightarrow> snapshot_identity option \<Rightarrow> publication_event list \<Rightarrow> snapshot_identity option" where
  "last_complete i prev [] = prev"
| "last_complete i prev (Advanced s # evs) = last_complete i (if s = PsFooter then Some i else prev) evs"
| "last_complete i prev (Checkpointed c # evs) = last_complete i (if pc_kind c = CkComplete then Some (pc_identity c) else prev) evs"

lemma stages_append [simp]: "stages (xs @ ys) = stages xs @ stages ys"
  by (induction xs rule: stages.induct) auto

lemma checkpoints_append [simp]: "checkpoints k (xs @ ys) = checkpoints k xs @ checkpoints k ys"
  by (induction k xs rule: checkpoints.induct) auto

lemma last_complete_append [simp]: "last_complete i p (xs @ ys) = last_complete i (last_complete i p xs) ys"
  by (induction i p xs rule: last_complete.induct) auto

section \<open>Calls\<close>

lemmas stage_order = less_eq_publication_stage_def less_publication_stage_def

lemma advance_Ok:
  "advance m s = (Inr u, m') \<longleftrightarrow> pm_event_count m < pl_max_events (pm_limits m) \<and> \<not> pm_published m \<and>
     (\<forall>current. pm_current_stage m = Some current \<longrightarrow> current \<le> s) \<and> \<not> pm_stage_seen m ! stage_index s \<and>
     (s = PsFooter \<longrightarrow> pm_stage_seen m ! 3) \<and>
     m' = m\<lparr>pm_event_count := pm_event_count m + 1, pm_stage_seen := (pm_stage_seen m)[stage_index s := True], pm_current_stage := Some s,
       pm_published := (s = PsFooter), pm_last_complete_snapshot := (if s = PsFooter then Some (pm_identity m) else pm_last_complete_snapshot m)\<rparr>"
  by (cases m) (auto simp: advance_def record_event_def Let_def not_less split: if_splits option.splits)

lemma advance_Err: "advance m s = (Inl e, m') \<Longrightarrow> m' = m \<or> m' = m\<lparr>pm_event_count := pm_event_count m + 1\<rparr> \<and> pm_event_count m < pl_max_events (pm_limits m)"
  by (auto simp: advance_def record_event_def Let_def split: if_splits)

lemma checkpoint_Err:
  "checkpoint m i q k = (Inl e, m') \<Longrightarrow> m' = m \<or> m' = m\<lparr>pm_event_count := pm_event_count m + 1\<rparr> \<and> pm_event_count m < pl_max_events (pm_limits m)"
  by (auto simp: checkpoint_def record_event_def Let_def split: if_splits checkpoint_kind.splits)

definition checkpoint_of :: "snapshot_identity \<Rightarrow> u64 \<Rightarrow> checkpoint_kind \<Rightarrow> published_checkpoint" where
  "checkpoint_of i q k = \<lparr>pc_identity = i, pc_sequence = q, pc_kind = k, pc_independently_readable = (k = CkComplete),
     pc_active_root_eligible = (k = CkComplete)\<rparr>"

lemma checkpoint_Ok:
  "checkpoint m i q k = (Inr c, m') \<longleftrightarrow> pm_event_count m < pl_max_events (pm_limits m) \<and> \<not> pm_published m \<and> pm_stage_seen m ! 0 \<and>
     c = checkpoint_of i q k \<and>
     (case k of
        CkComplete \<Rightarrow> length (pm_complete_checkpoints m) < pl_max_complete_checkpoints (pm_limits m) \<and>
          m' = m\<lparr>pm_event_count := pm_event_count m + 1, pm_complete_checkpoints := pm_complete_checkpoints m @ [c], pm_last_complete_snapshot := Some i\<rparr>
      | CkProgress \<Rightarrow> length (pm_progress_checkpoints m) < pl_max_progress_checkpoints (pm_limits m) \<and>
          m' = m\<lparr>pm_event_count := pm_event_count m + 1, pm_progress_checkpoints := pm_progress_checkpoints m @ [c]\<rparr>)"
  by (cases m; cases k) (auto simp: checkpoint_def record_event_def Let_def checkpoint_of_def not_less split: if_splits)

section \<open>Invariant\<close>

definition order_inv :: "publication_event list \<Rightarrow> publication_model \<Rightarrow> bool" where
  "order_inv evs m \<longleftrightarrow>
     sorted_wrt (<) (stages evs) \<and> length (pm_stage_seen m) = 5 \<and> (\<forall>s. pm_stage_seen m ! stage_index s \<longleftrightarrow> s \<in> set (stages evs)) \<and>
     pm_current_stage m = (if stages evs = [] then None else Some (last (stages evs))) \<and>
     (pm_published m \<longleftrightarrow> PsFooter \<in> set (stages evs)) \<and>
     (PsFooter \<in> set (stages evs) \<longrightarrow> PsSnapshotManifest \<in> set (stages evs) \<and> last evs = Advanced PsFooter) \<and>
     (\<forall>xs c ys. evs = xs @ Checkpointed c # ys \<longrightarrow> PsObjects \<in> set (stages xs))"

definition content_inv :: "publication_model \<Rightarrow> publication_event list \<Rightarrow> publication_model \<Rightarrow> bool" where
  "content_inv m0 evs m \<longleftrightarrow>
     pm_complete_checkpoints m = checkpoints CkComplete evs \<and> pm_progress_checkpoints m = checkpoints CkProgress evs \<and>
     pm_last_complete_snapshot m = last_complete (pm_identity m) (pm_last_complete_snapshot m0) evs \<and>
     (\<forall>c. Checkpointed c \<in> set evs \<longrightarrow> pc_active_root_eligible c = (pc_kind c = CkComplete) \<and>
        pc_independently_readable c = (pc_kind c = CkComplete))"

definition bounds_inv :: "publication_event list \<Rightarrow> publication_model \<Rightarrow> bool" where
  "bounds_inv evs m \<longleftrightarrow> length evs \<le> pm_event_count m \<and> pm_event_count m \<le> pl_max_events (pm_limits m) \<and>
     length (pm_complete_checkpoints m) \<le> pl_max_complete_checkpoints (pm_limits m) \<and>
     length (pm_progress_checkpoints m) \<le> pl_max_progress_checkpoints (pm_limits m)"

definition publication_inv :: "publication_model \<Rightarrow> publication_event list \<Rightarrow> publication_model \<Rightarrow> bool" where
  "publication_inv m0 evs m \<longleftrightarrow> order_inv evs m \<and> content_inv m0 evs m \<and> bounds_inv evs m \<and>
     pm_identity m = pm_identity m0 \<and> pm_sequence m = pm_sequence m0 \<and> pm_limits m = pm_limits m0"

lemma publication_new_inv: "publication_inv (publication_new i q prev lim) [] (publication_new i q prev lim)"
proof -
  have "\<not> replicate 5 False ! stage_index s" for s by (cases s) simp_all
  then show ?thesis by (simp add: publication_inv_def order_inv_def content_inv_def bounds_inv_def publication_new_def)
qed

lemma snoc_eq_split:
  "evs @ [x] = xs @ y # ys \<longleftrightarrow> (ys = [] \<and> xs = evs \<and> y = x) \<or> (\<exists>zs. ys = zs @ [x] \<and> evs = xs @ y # zs)"
  by (cases ys rule: rev_cases) auto

lemma stage_index_less [simp]: "stage_index s < 5"
  by (cases s) simp_all

lemma stage_index_eq [simp]: "stage_index s = stage_index t \<longleftrightarrow> s = t"
  by (cases s; cases t) simp_all

lemma sorted_wrt_le_last: "sorted_wrt (<) xs \<Longrightarrow> (x :: 'a :: order) \<in> set xs \<Longrightarrow> x \<le> last xs"
  by (cases xs rule: rev_cases) (auto simp: sorted_wrt_append)

lemma event_count_inv:
  assumes "publication_inv m0 evs m" and "pm_event_count m < pl_max_events (pm_limits m)"
  shows "publication_inv m0 evs (m\<lparr>pm_event_count := pm_event_count m + 1\<rparr>)"
proof -
  have "order_inv evs (m\<lparr>pm_event_count := pm_event_count m + 1\<rparr>)" "content_inv m0 evs (m\<lparr>pm_event_count := pm_event_count m + 1\<rparr>)"
    using assms(1) by (simp_all add: publication_inv_def order_inv_def content_inv_def)
  moreover have "bounds_inv evs (m\<lparr>pm_event_count := pm_event_count m + 1\<rparr>)"
    using assms by (auto simp: publication_inv_def bounds_inv_def)
  ultimately show ?thesis using assms(1) by (simp add: publication_inv_def)
qed

lemma advance_order:
  assumes inv: "order_inv evs m" and ok: "advance m s = (Inr u, m')"
  shows "order_inv (evs @ [Advanced s]) m'"
proof -
  have new: "s \<notin> set (stages evs)" "PsFooter \<notin> set (stages evs)" "s = PsFooter \<Longrightarrow> PsSnapshotManifest \<in> set (stages evs)"
    "\<And>t. pm_current_stage m = Some t \<Longrightarrow> t \<le> s"
    using inv ok by (auto simp: advance_Ok order_inv_def)
  have srt: "sorted_wrt (<) (stages evs)" and cur: "pm_current_stage m = (if stages evs = [] then None else Some (last (stages evs)))"
    using inv by (simp_all add: order_inv_def)
  have "t < s" if "t \<in> set (stages evs)" for t
  proof -
    have "t \<le> last (stages evs)" "stages evs \<noteq> []" using sorted_wrt_le_last [OF srt that] that by auto
    then have "t \<le> s" using new(4) cur by (auto intro: order_trans)
    then show ?thesis using that new(1) by (auto simp: order.strict_iff_order)
  qed
  then have "sorted_wrt (<) (stages evs @ [s])" using srt by (simp add: sorted_wrt_append)
  moreover have "\<forall>t. pm_stage_seen m' ! stage_index t \<longleftrightarrow> t \<in> insert s (set (stages evs))" "length (pm_stage_seen m') = 5"
    using inv ok by (auto simp: advance_Ok order_inv_def nth_list_update)
  moreover have "pm_current_stage m' = Some s" "pm_published m' = (s = PsFooter)" using ok by (simp_all add: advance_Ok)
  moreover have "\<forall>xs c ys. evs @ [Advanced s] = xs @ Checkpointed c # ys \<longrightarrow> PsObjects \<in> set (stages xs)"
    using inv by (auto simp: order_inv_def snoc_eq_split)
  ultimately show ?thesis using new(2,3) by (auto simp: order_inv_def)
qed

lemma advance_inv:
  assumes inv: "publication_inv m0 evs m" and ok: "advance m s = (Inr u, m')"
  shows "publication_inv m0 (evs @ [Advanced s]) m'"
proof -
  have "order_inv (evs @ [Advanced s]) m'" using inv advance_order [OF _ ok] by (simp add: publication_inv_def)
  moreover have "content_inv m0 (evs @ [Advanced s]) m'" using inv ok by (auto simp: publication_inv_def content_inv_def advance_Ok)
  moreover have "bounds_inv (evs @ [Advanced s]) m'" using inv ok by (auto simp: publication_inv_def bounds_inv_def advance_Ok)
  moreover have "pm_identity m' = pm_identity m0" "pm_sequence m' = pm_sequence m0" "pm_limits m' = pm_limits m0"
    using inv ok by (simp_all add: publication_inv_def advance_Ok)
  ultimately show ?thesis by (simp add: publication_inv_def)
qed

lemma checkpoint_inv:
  assumes inv: "publication_inv m0 evs m" and ok: "checkpoint m i q k = (Inr c, m')"
  shows "publication_inv m0 (evs @ [Checkpointed c]) m'"
proof -
  have "PsObjects \<in> set (stages evs)" "PsFooter \<notin> set (stages evs)" "order_inv evs m" "pm_stage_seen m' = pm_stage_seen m"
    "pm_current_stage m' = pm_current_stage m" "pm_published m' = pm_published m"
    using inv ok by (auto simp: publication_inv_def order_inv_def checkpoint_Ok split: checkpoint_kind.splits)
  then have "order_inv (evs @ [Checkpointed c]) m'" by (auto simp: order_inv_def snoc_eq_split)
  moreover have "content_inv m0 (evs @ [Checkpointed c]) m'"
    using inv ok by (auto simp: publication_inv_def content_inv_def checkpoint_Ok checkpoint_of_def split: checkpoint_kind.splits)
  moreover have "bounds_inv (evs @ [Checkpointed c]) m'"
    using inv ok by (auto simp: publication_inv_def bounds_inv_def checkpoint_Ok split: checkpoint_kind.splits)
  moreover have "pm_identity m' = pm_identity m0" "pm_sequence m' = pm_sequence m0" "pm_limits m' = pm_limits m0"
    using inv ok by (auto simp: publication_inv_def checkpoint_Ok split: checkpoint_kind.splits)
  ultimately show ?thesis by (simp add: publication_inv_def)
qed

lemma publication_runs_inv:
  assumes "publication_runs (publication_new i q prev lim) evs m"
  shows "publication_inv (publication_new i q prev lim) evs m"
  using assms
proof (induction rule: publication_runs.induct)
  case (pub_advance_fails evs m stage e m')
  then show ?case using advance_Err [OF pub_advance_fails.hyps(2)] event_count_inv by auto
next
  case (pub_checkpoint_fails evs m identity sequence kind e m')
  then show ?case using checkpoint_Err [OF pub_checkpoint_fails.hyps(2)] event_count_inv by auto
qed (auto intro: publication_new_inv advance_inv checkpoint_inv)

section \<open>Properties\<close>

text \<open>
  C14. The order of publication. In every run of a new model, whatever calls were attempted, the accepted
  stages are strictly increasing, checkpoints come after the object stage, and the append counts as
  published exactly when its footer was accepted: then the snapshot manifest was accepted before it, the
  footer is the last accepted call, the report names the identity and sequence the model was created
  with, and that identity is the last complete snapshot.
\<close>

theorem publication_order:
  assumes "publication_runs (publication_new i q prev lim) evs m"
  shows "sorted_wrt (<) (stages evs) \<and>
    (\<forall>xs c ys. evs = xs @ Checkpointed c # ys \<longrightarrow> PsObjects \<in> set (stages xs)) \<and>
    (pr_published_snapshot (publication_report_of m) = (if PsFooter \<in> set (stages evs) then Some i else None)) \<and>
    (pr_published_sequence (publication_report_of m) = (if PsFooter \<in> set (stages evs) then Some q else None)) \<and>
    (PsFooter \<in> set (stages evs) \<longrightarrow> PsSnapshotManifest \<in> set (stages evs) \<and> last evs = Advanced PsFooter \<and>
       pr_last_complete_snapshot (publication_report_of m) = Some i)"
proof -
  have inv: "order_inv evs m" "content_inv (publication_new i q prev lim) evs m"
    and id: "pm_identity m = i" "pm_sequence m = q"
    using publication_runs_inv [OF assms] by (simp_all add: publication_inv_def publication_new_def)
  have "pm_last_complete_snapshot m = Some i" if "PsFooter \<in> set (stages evs)"
  proof -
    have "last evs = Advanced PsFooter" "evs \<noteq> []" using inv(1) that by (auto simp: order_inv_def)
    then obtain xs where "evs = xs @ [Advanced PsFooter]" by (metis append_butlast_last_id)
    then show ?thesis using inv(2) id by (simp add: content_inv_def)
  qed
  then show ?thesis using inv(1) id by (auto simp: order_inv_def publication_report_of_def)
qed

text \<open>
  What a reader may rely on during an append. The last complete snapshot is the previous one until
  a complete checkpoint or the footer is accepted, and never a progress checkpoint: the report lists
  exactly the accepted checkpoints, only complete ones are readable on their own and eligible as active
  root, and all counters stay within their limits.
\<close>

theorem publication_checkpoints:
  assumes "publication_runs (publication_new i q prev lim) evs m"
  shows "pr_last_complete_snapshot (publication_report_of m) = last_complete i prev evs \<and>
    pr_complete_checkpoints (publication_report_of m) = checkpoints CkComplete evs \<and>
    pr_progress_checkpoints (publication_report_of m) = checkpoints CkProgress evs \<and>
    (\<forall>c. Checkpointed c \<in> set evs \<longrightarrow> pc_active_root_eligible c = (pc_kind c = CkComplete) \<and>
       pc_independently_readable c = (pc_kind c = CkComplete)) \<and>
    length evs \<le> pr_event_count (publication_report_of m) \<and> pr_event_count (publication_report_of m) \<le> pl_max_events lim \<and>
    length (checkpoints CkComplete evs) \<le> pl_max_complete_checkpoints lim \<and>
    length (checkpoints CkProgress evs) \<le> pl_max_progress_checkpoints lim"
  using publication_runs_inv [OF assms]
  by (auto simp: publication_inv_def content_inv_def bounds_inv_def publication_report_of_def publication_new_def)

text \<open>A run with a progress checkpoint, a rejected footer, and publication.\<close>

definition sample_publication :: publication_model where
  "sample_publication = publication_new (SnapshotIdentity [2]) 1 (Some (SnapshotIdentity [1])) publication_limits_default"

definition sample_publication_events :: "publication_event list" where
  "sample_publication_events = [Advanced PsObjects, Checkpointed (checkpoint_of (SnapshotIdentity [9]) 7 CkProgress),
     Advanced PsSnapshotManifest, Advanced PsFooter]"

lemma sample_publication_run:
  "\<exists>m. publication_runs sample_publication sample_publication_events m"
proof -
  note ops = advance_def checkpoint_def record_event_def Let_def sample_publication_def publication_new_def
    publication_limits_default_def stage_order checkpoint_of_def
  obtain m1 where m1: "advance sample_publication PsObjects = (Inr (), m1)" by (simp add: ops)
  note r1 = pub_advance [OF pub_start m1]
  have "advance m1 PsFooter = (Inl FooterBeforeSnapshot, m1\<lparr>pm_event_count := 2\<rparr>)"
    using m1 by (auto simp: ops)
  note r2 = pub_advance_fails [OF r1 this]
  let ?m2 = "m1\<lparr>pm_event_count := 2\<rparr>"
  obtain m3 where m3: "checkpoint ?m2 (SnapshotIdentity [9]) 7 CkProgress = (Inr (checkpoint_of (SnapshotIdentity [9]) 7 CkProgress), m3)"
    using m1 by (auto simp: ops)
  note r3 = pub_checkpoint [OF r2 m3]
  obtain m4 where m4: "advance m3 PsSnapshotManifest = (Inr (), m4)"
    using m3 m1 by (auto simp: ops)
  note r4 = pub_advance [OF r3 m4]
  obtain m5 where m5: "advance m4 PsFooter = (Inr (), m5)"
    using m4 m3 m1 by (auto simp: ops)
  from pub_advance [OF r4 m5] show ?thesis by (auto simp: sample_publication_events_def)
qed

theorem publication_order_witness:
  "\<exists>m. publication_runs sample_publication sample_publication_events m \<and>
     pr_published_snapshot (publication_report_of m) = Some (SnapshotIdentity [2])"
proof -
  obtain m where run: "publication_runs sample_publication sample_publication_events m" using sample_publication_run by blast
  from publication_order [OF this [unfolded sample_publication_def]] run show ?thesis
    by (auto simp: sample_publication_events_def)
qed

theorem publication_checkpoints_witness:
  "\<exists>m. publication_runs sample_publication sample_publication_events m \<and>
     pr_last_complete_snapshot (publication_report_of m) = Some (SnapshotIdentity [2]) \<and>
     length (pr_progress_checkpoints (publication_report_of m)) = 1"
proof -
  obtain m where run: "publication_runs sample_publication sample_publication_events m" using sample_publication_run by blast
  from publication_checkpoints [OF this [unfolded sample_publication_def]] run show ?thesis
    by (auto simp: sample_publication_events_def checkpoint_of_def)
qed

end
