(* ===== verification/Ucof_Directory.thy ===== *)
theory Ucof_Directory
  imports Ucof_Error
begin

text \<open>
  \<open>ucof-experiments/src/directory.rs\<close>: the paged directory, an ordered tree of pages that is built
  bottom-up from the sorted locators and searched from its root under a page budget.
\<close>

section \<open>Data\<close>

record object_locator =
  ol_object_id :: u64
  ol_kind :: u16
  ol_offset :: u64
  ol_stored_len :: u64
  ol_logical_len :: u64

record directory_stats =
  dst_entries :: u64
  dst_pages :: u64
  dst_leaf_pages :: u64
  dst_internal_pages :: u64
  dst_depth :: u32

datatype directory_build_error =
    InvalidLeafCapacity | InvalidFanout | DuplicateLocatorId u64 | ArithmeticOverflow

fun directory_build_display :: "directory_build_error \<Rightarrow> string" where
  "directory_build_display InvalidLeafCapacity = ''leaf capacity must be non-zero''"
| "directory_build_display InvalidFanout = ''internal fanout must be at least two''"
| "directory_build_display (DuplicateLocatorId i) = ''duplicate object identifier '' @ show_dec (unat i)"
| "directory_build_display ArithmeticOverflow = ''directory size arithmetic overflow''"

datatype directory_lookup_error =
    PageLimitExceeded | PageCycle | InvalidPageReference | EmptyInternalPage | InvalidPageRange | UnorderedLeaf
  | DuplicateLeafKey u64 | UnorderedChildRange | OverlappingChildRange | ChildRangeMismatch

fun directory_lookup_display :: "directory_lookup_error \<Rightarrow> string" where
  "directory_lookup_display PageLimitExceeded = ''directory page-read limit exceeded''"
| "directory_lookup_display PageCycle = ''directory page cycle''"
| "directory_lookup_display InvalidPageReference = ''invalid directory page reference''"
| "directory_lookup_display EmptyInternalPage = ''empty internal directory page''"
| "directory_lookup_display InvalidPageRange = ''invalid directory page range''"
| "directory_lookup_display UnorderedLeaf = ''unordered directory leaf''"
| "directory_lookup_display (DuplicateLeafKey i) = ''duplicate directory leaf key '' @ show_dec (unat i)"
| "directory_lookup_display UnorderedChildRange = ''unordered directory child ranges''"
| "directory_lookup_display OverlappingChildRange = ''overlapping directory child ranges''"
| "directory_lookup_display ChildRangeMismatch = ''child range does not match referenced page''"

record lookup_result =
  lr_locator :: "object_locator option"
  lr_pages_read :: u32

record key_range =
  kr_min :: u64
  kr_max :: u64

definition kr_contains :: "key_range \<Rightarrow> u64 \<Rightarrow> bool" where
  "kr_contains r v \<longleftrightarrow> kr_min r \<le> v \<and> v \<le> kr_max r"

definition kr_is_valid :: "key_range \<Rightarrow> bool" where
  "kr_is_valid r \<longleftrightarrow> kr_min r \<le> kr_max r"

record child_link =
  cl_range :: key_range
  cl_page_id :: usize

datatype page = PageLeaf "key_range option" "object_locator list" | PageInternal key_range "child_link list"

fun page_range :: "page \<Rightarrow> key_range option" where
  "page_range (PageLeaf rng entries) = rng"
| "page_range (PageInternal rng children) = Some rng"

record paged_directory =
  pd_pages :: "page list"
  pd_root :: usize
  pd_stats :: directory_stats

section \<open>Slices\<close>

text \<open>\<open>slice::get\<close>, \<open>slice::chunks\<close> (the chunk size is not zero) and \<open>slice::windows(2)\<close>.\<close>

definition slice_get :: "'a list \<Rightarrow> usize \<Rightarrow> 'a option" where
  "slice_get xs i = (if i < length xs then Some (xs ! i) else None)"

function chunks :: "usize \<Rightarrow> 'a list \<Rightarrow> 'a list list" where
  "chunks n xs = (if xs = [] \<or> n = 0 then [] else take n xs # chunks n (drop n xs))"
  by pat_completeness auto
termination
  by (relation "measure (\<lambda>(n, xs). length xs)") auto

declare chunks.simps [simp del]

fun windows2 :: "'a list \<Rightarrow> ('a \<times> 'a) list" where
  "windows2 (x # y # xs) = (x, y) # windows2 (y # xs)"
| "windows2 _ = []"

text \<open>\<open>slice::binary_search_by_key\<close>: the loop halves the span behind \<open>base\<close> that still may hold the key.\<close>

function search_loop :: "(nat \<Rightarrow> u64) \<Rightarrow> u64 \<Rightarrow> nat \<Rightarrow> nat \<Rightarrow> nat" where
  "search_loop key k base span =
     (if span \<le> 1 then base else
      let half = span div 2; mid = base + half in
      search_loop key k (if key mid > k then base else mid) (span - half))"
  by pat_completeness auto
termination
  by (relation "measure (\<lambda>(key, k, base, span). span)") auto

declare search_loop.simps [simp del]

definition binary_search_by_key :: "object_locator list \<Rightarrow> u64 \<Rightarrow> usize option" where
  "binary_search_by_key entries k =
     (if entries = [] then None else
      let i = search_loop (\<lambda>i. ol_object_id (entries ! i)) k 0 (length entries) in
      if ol_object_id (entries ! i) = k then Some i else None)"

section \<open>Building\<close>

definition estimated_bytes :: "directory_stats \<Rightarrow> u64 \<Rightarrow> directory_build_error + u64" where
  "estimated_bytes st page_size =
     (if unat (dst_pages st) * unat page_size < 2 ^ 64 then Inr (dst_pages st * page_size) else Inl ArithmeticOverflow)"

fun find_duplicate :: "(object_locator \<times> object_locator) list \<Rightarrow> u64 option" where
  "find_duplicate [] = None"
| "find_duplicate ((a, b) # ps) = (if ol_object_id a = ol_object_id b then Some (ol_object_id a) else find_duplicate ps)"

definition leaf_page :: "object_locator list \<Rightarrow> page" where
  "leaf_page chunk = PageLeaf (Some \<lparr>kr_min = ol_object_id (hd chunk), kr_max = ol_object_id (last chunk)\<rparr>) chunk"

text \<open>The \<open>expect\<close> on the range of a child is \<open>the\<close>; no page below an internal page is empty.\<close>

definition internal_page :: "page list \<Rightarrow> usize list \<Rightarrow> page" where
  "internal_page pages child_ids =
     (let children = map (\<lambda>page_id. \<lparr>cl_range = the (page_range (pages ! page_id)), cl_page_id = page_id\<rparr>) child_ids
      in PageInternal \<lparr>kr_min = kr_min (cl_range (hd children)), kr_max = kr_max (cl_range (last children))\<rparr> children)"

text \<open>One pass of the \<open>while\<close> loop: the internal pages above the chunks of a level.\<close>

fun push_internals :: "usize list list \<Rightarrow> page list \<Rightarrow> usize list \<Rightarrow> u64
    \<Rightarrow> directory_build_error + (page list \<times> usize list \<times> u64)" where
  "push_internals [] pages next_level internal_pages = Inr (pages, next_level, internal_pages)"
| "push_internals (child_ids # rest) pages next_level internal_pages =
     (let page_id = length pages;
          pages = pages @ [internal_page pages child_ids];
          next_level = next_level @ [page_id] in
      case checked_add internal_pages 1 of
        None \<Rightarrow> Inl ArithmeticOverflow
      | Some internal_pages \<Rightarrow> push_internals rest pages next_level internal_pages)"

lemma ceil_less: "2 \<le> n \<Longrightarrow> 1 < m \<Longrightarrow> (m + (n - 1)) div n < (m :: nat)"
proof -
  assume n: "2 \<le> n" and m: "1 < m"
  define a b where "a = n - 2" and "b = m - 2"
  then have "n = a + 2" "m = b + 2" using n m by simp_all
  then have "m + (n - 1) < m * n" by (simp add: algebra_simps)
  then show ?thesis using n by (simp add: div_less_iff_less_mult)
qed

lemma ceil_step: "0 < n \<Longrightarrow> 0 < m \<Longrightarrow> 1 + (m - n + (n - 1)) div n = (m + (n - 1)) div (n :: nat)"
proof (cases "n \<le> m")
  case True
  assume "0 < n"
  have "m + (n - 1) = (m - n + (n - 1)) + n" using True by linarith
  moreover have "((m - n + (n - 1)) + n) div n = (m - n + (n - 1)) div n + 1" using \<open>0 < n\<close> by (intro div_add_self2) simp
  ultimately show ?thesis by (simp only: add.commute [of 1])
next
  case False
  assume "0 < n" "0 < m"
  have "m + (n - 1) = m - 1 + n" using \<open>0 < n\<close> \<open>0 < m\<close> by linarith
  moreover have "(m - 1 + n) div n = 1" using False \<open>0 < n\<close> by (subst div_add_self2) simp_all
  moreover have "m - n + (n - 1) = n - 1" using False by simp
  moreover have "(n - 1) div n = 0" using \<open>0 < n\<close> by (intro div_less) linarith
  ultimately show ?thesis by (simp only: add_0_right)
qed

lemma chunks_Cons: "xs \<noteq> [] \<Longrightarrow> 0 < n \<Longrightarrow> chunks n xs = take n xs # chunks n (drop n xs)"
  by (subst chunks.simps) simp

lemma chunks_Nil [simp]: "chunks n [] = []"
  by (subst chunks.simps) simp

lemma length_chunks:
  assumes "0 < n"
  shows "length (chunks n xs) = (length xs + (n - 1)) div n"
proof (induction "length xs" arbitrary: xs rule: less_induct)
  case less
  show ?case
  proof (cases "xs = []")
    case False
    then have "length (chunks n (drop n xs)) = (length xs - n + (n - 1)) div n" using less [of "drop n xs"] assms by simp
    then have "length (chunks n xs) = 1 + (length xs - n + (n - 1)) div n" using chunks_Cons [OF False assms] by simp
    also have "\<dots> = (length xs + (n - 1)) div n" using False assms by (intro ceil_step) simp_all
    finally show ?thesis .
  qed (use assms in simp)
qed

lemma length_chunks_less: "2 \<le> n \<Longrightarrow> 1 < length xs \<Longrightarrow> length (chunks n xs) < length xs"
  using ceil_less [of n "length xs"] by (simp add: length_chunks)

lemma push_internals_level:
  "push_internals css pages level n = Inr (pages', level', n') \<Longrightarrow> length level' = length level + length css"
  by (induction css pages level n rule: push_internals.induct) (auto simp: Let_def split: option.splits)

function build_levels :: "usize \<Rightarrow> page list \<Rightarrow> usize list \<Rightarrow> u64 \<Rightarrow> u32
    \<Rightarrow> directory_build_error + (page list \<times> usize list \<times> u64 \<times> u32)" where
  "build_levels fanout pages current_level internal_pages depth =
     (if length current_level \<le> 1 \<or> fanout < 2 then Inr (pages, current_level, internal_pages, depth) else
      case push_internals (chunks fanout current_level) pages [] internal_pages of
        Inl e \<Rightarrow> Inl e
      | Inr (pages, next_level, internal_pages) \<Rightarrow>
        (case checked_add depth 1 of
           None \<Rightarrow> Inl ArithmeticOverflow
         | Some depth \<Rightarrow> build_levels fanout pages next_level internal_pages depth))"
  by pat_completeness auto
termination
proof (relation "measure (\<lambda>(f, p, l, n, d). length l)")
  fix fanout pages current_level internal_pages and depth :: u32 and y a z pages' next_level n' depth'
  assume "\<not> (length current_level \<le> 1 \<or> fanout < 2)" "push_internals (chunks fanout current_level) pages [] internal_pages = Inr y"
    "(a, z) = y" "(next_level, n') = z" "checked_add depth 1 = Some depth'"
  then show "((fanout, a, next_level, n', depth'), fanout, pages, current_level, internal_pages, depth) \<in> measure (\<lambda>(f, p, l, n, d). length l)"
    using push_internals_level [of "chunks fanout current_level" pages "[]" internal_pages a next_level n'] length_chunks_less [of fanout current_level] by auto
qed simp

declare build_levels.simps [simp del]

definition directory_build :: "object_locator list \<Rightarrow> usize \<Rightarrow> usize \<Rightarrow> directory_build_error + paged_directory" where
  "directory_build entries leaf_capacity fanout =
     (if leaf_capacity = 0 then Inl InvalidLeafCapacity else
      if fanout < 2 then Inl InvalidFanout else
      let entries = sort_key ol_object_id entries in
      case find_duplicate (windows2 entries) of
        Some i \<Rightarrow> Inl (DuplicateLocatorId i)
      | None \<Rightarrow>
        (case u64_try_from (length entries) of
           None \<Rightarrow> Inl ArithmeticOverflow
         | Some entry_count \<Rightarrow>
           let pages = (if entries = [] then [PageLeaf None []] else map leaf_page (chunks leaf_capacity entries));
               current_level = [0..<length pages] in
           (case u64_try_from (length current_level) of
              None \<Rightarrow> Inl ArithmeticOverflow
            | Some leaf_pages \<Rightarrow>
              (case build_levels fanout pages current_level 0 1 of
                 Inl e \<Rightarrow> Inl e
               | Inr (pages, current_level, internal_pages, depth) \<Rightarrow>
                 (case u64_try_from (length pages) of
                    None \<Rightarrow> Inl ArithmeticOverflow
                  | Some pages_count \<Rightarrow>
                    Inr \<lparr>pd_pages = pages, pd_root = current_level ! 0,
                      pd_stats = \<lparr>dst_entries = entry_count, dst_pages = pages_count, dst_leaf_pages = leaf_pages,
                        dst_internal_pages = internal_pages, dst_depth = depth\<rparr>\<rparr>)))))"

section \<open>Page validation\<close>

fun validate_leaf_order :: "(object_locator \<times> object_locator) list \<Rightarrow> directory_lookup_error + unit" where
  "validate_leaf_order [] = Inr ()"
| "validate_leaf_order ((a, b) # ps) =
     (if ol_object_id a > ol_object_id b then Inl UnorderedLeaf else
      if ol_object_id a = ol_object_id b then Inl (DuplicateLeafKey (ol_object_id a)) else
      validate_leaf_order ps)"

fun validate_children :: "page list \<Rightarrow> child_link option \<Rightarrow> child_link list \<Rightarrow> directory_lookup_error + unit" where
  "validate_children pages previous [] = Inr ()"
| "validate_children pages previous (child # children) =
     (if \<not> kr_is_valid (cl_range child) then Inl InvalidPageRange else
      case slice_get pages (cl_page_id child) of
        None \<Rightarrow> Inl InvalidPageReference
      | Some p \<Rightarrow>
        (case page_range p of
           None \<Rightarrow> Inl ChildRangeMismatch
         | Some actual \<Rightarrow>
           if actual \<noteq> cl_range child then Inl ChildRangeMismatch else
           if (case previous of None \<Rightarrow> False | Some q \<Rightarrow> kr_min (cl_range q) > kr_min (cl_range child))
           then Inl UnorderedChildRange else
           if (case previous of None \<Rightarrow> False | Some q \<Rightarrow> kr_max (cl_range q) \<ge> kr_min (cl_range child))
           then Inl OverlappingChildRange else
           validate_children pages (Some child) children))"

fun page_validate :: "page list \<Rightarrow> page \<Rightarrow> directory_lookup_error + unit" where
  "page_validate pages (PageLeaf rng entries) =
     (if entries = [] then (if rng \<noteq> None then Inl InvalidPageRange else Inr ()) else
      case rng of
        None \<Rightarrow> Inl InvalidPageRange
      | Some declared \<Rightarrow>
        if \<not> kr_is_valid declared \<or> kr_min declared \<noteq> ol_object_id (hd entries) \<or>
           kr_max declared \<noteq> ol_object_id (last entries)
        then Inl InvalidPageRange
        else validate_leaf_order (windows2 entries))"
| "page_validate pages (PageInternal rng children) =
     (if children = [] then Inl EmptyInternalPage else
      if \<not> kr_is_valid rng \<or> kr_min rng \<noteq> kr_min (cl_range (hd children)) \<or>
         kr_max rng \<noteq> kr_max (cl_range (last children))
      then Inl InvalidPageRange
      else validate_children pages None children)"

section \<open>Lookup\<close>

function lookup_loop :: "page list \<Rightarrow> u64 \<Rightarrow> u32 \<Rightarrow> usize \<Rightarrow> u32 \<Rightarrow> usize set \<Rightarrow> directory_lookup_error + lookup_result" where
  "lookup_loop pages object_id max_pages page_id pages_read visited =
     (case checked_add pages_read 1 of
        None \<Rightarrow> Inl PageLimitExceeded
      | Some pages_read \<Rightarrow>
        if pages_read > max_pages then Inl PageLimitExceeded else
        if page_id \<in> visited then Inl PageCycle else
        let visited = insert page_id visited in
        (case slice_get pages page_id of
           None \<Rightarrow> Inl InvalidPageReference
         | Some p \<Rightarrow>
           (case page_validate pages p of
              Inl e \<Rightarrow> Inl e
            | Inr _ \<Rightarrow>
              (case p of
                 PageLeaf _ entries \<Rightarrow>
                   Inr \<lparr>lr_locator = map_option (\<lambda>index. entries ! index) (binary_search_by_key entries object_id),
                     lr_pages_read = pages_read\<rparr>
               | PageInternal _ children \<Rightarrow>
                   (case List.find (\<lambda>child. kr_contains (cl_range child) object_id) children of
                      None \<Rightarrow> Inr \<lparr>lr_locator = None, lr_pages_read = pages_read\<rparr>
                    | Some child \<Rightarrow> lookup_loop pages object_id max_pages (cl_page_id child) pages_read visited)))))"
  by pat_completeness auto
termination
  by (relation "measure (\<lambda>(ps, oid, mx, p, r, v). unat mx - unat r)")
    (auto simp: checked_add_Some_iff not_less word_le_nat_alt)

declare lookup_loop.simps [simp del]

definition directory_lookup :: "paged_directory \<Rightarrow> u64 \<Rightarrow> u32 \<Rightarrow> directory_lookup_error + lookup_result" where
  "directory_lookup pd object_id max_pages = lookup_loop (pd_pages pd) object_id max_pages (pd_root pd) 0 {}"

section \<open>Validation\<close>

text \<open>The head of the list is the top of the stack.\<close>

lemma unvisited_less: "i \<notin> v \<Longrightarrow> slice_get ps i = Some p \<Longrightarrow> card ({..<length ps} - insert i v) < card ({..<length ps} - v)"
  by (intro psubset_card_mono) (auto simp: slice_get_def split: if_splits)

function reachable_loop :: "page list \<Rightarrow> u64 \<Rightarrow> usize list \<Rightarrow> usize set \<Rightarrow> directory_lookup_error + unit" where
  "reachable_loop pages max_pages [] visited = Inr ()"
| "reachable_loop pages max_pages (page_id # stack) visited =
     (if page_id \<in> visited then Inl PageCycle else
      let visited = insert page_id visited in
      if (case u64_try_from (card visited) of None \<Rightarrow> True | Some count \<Rightarrow> count > max_pages) then Inl PageLimitExceeded else
      case slice_get pages page_id of
        None \<Rightarrow> Inl InvalidPageReference
      | Some (PageLeaf _ _) \<Rightarrow> reachable_loop pages max_pages stack visited
      | Some (PageInternal _ children) \<Rightarrow> reachable_loop pages max_pages (rev (map cl_page_id children) @ stack) visited)"
  by pat_completeness auto
termination
  by (relation "measure (\<lambda>(ps, mx, st, v). card ({..<length ps} - v))") (auto intro: unvisited_less)

definition validate_reachable :: "paged_directory \<Rightarrow> usize \<Rightarrow> u64 \<Rightarrow> directory_lookup_error + unit" where
  "validate_reachable pd root max_pages = reachable_loop (pd_pages pd) max_pages [root] {}"

fun validate_pages :: "page list \<Rightarrow> page list \<Rightarrow> directory_lookup_error + unit" where
  "validate_pages pages [] = Inr ()"
| "validate_pages pages (p # ps) = (case page_validate pages p of Inl e \<Rightarrow> Inl e | Inr _ \<Rightarrow> validate_pages pages ps)"

definition directory_validate :: "paged_directory \<Rightarrow> u64 \<Rightarrow> directory_lookup_error + unit" where
  "directory_validate pd max_pages =
     (if (case u64_try_from (length (pd_pages pd)) of None \<Rightarrow> True | Some count \<Rightarrow> count > max_pages) then Inl PageLimitExceeded else
      case validate_pages (pd_pages pd) (pd_pages pd) of
        Inl e \<Rightarrow> Inl e
      | Inr _ \<Rightarrow> validate_reachable pd (pd_root pd) max_pages)"

section \<open>Shape estimate\<close>

definition div_ceil :: "u64 \<Rightarrow> u64 \<Rightarrow> directory_build_error + u64" where
  "div_ceil v divisor =
     (case checked_add v (divisor - 1) of
        None \<Rightarrow> Inl ArithmeticOverflow
      | Some adjusted \<Rightarrow> Inr (adjusted div divisor))"

lemma unat_div_ceil: "div_ceil v d = Inr w \<Longrightarrow> 1 \<le> d \<Longrightarrow> unat w = (unat v + (unat d - 1)) div unat d"
  by (auto simp: div_ceil_def checked_add_Some_iff unat_div unat_sub word_le_nat_alt split: option.splits)

lemma div_ceil_less: "div_ceil v d = Inr w \<Longrightarrow> 1 < v \<Longrightarrow> \<not> d < 2 \<Longrightarrow> unat w < unat v"
  using unat_div_ceil [of v d w] ceil_less [of "unat d" "unat v"] by (simp add: word_less_nat_alt word_le_nat_alt not_less)

function estimate_loop :: "u64 \<Rightarrow> u64 \<Rightarrow> u64 \<Rightarrow> u64 \<Rightarrow> u32 \<Rightarrow> directory_build_error + (u64 \<times> u64 \<times> u32)" where
  "estimate_loop fanout level_pages pages internal_pages depth =
     (if \<not> level_pages > 1 \<or> fanout < 2 then Inr (pages, internal_pages, depth) else
      case div_ceil level_pages fanout of
        Inl e \<Rightarrow> Inl e
      | Inr level_pages \<Rightarrow>
        (case checked_add pages level_pages of
           None \<Rightarrow> Inl ArithmeticOverflow
         | Some pages \<Rightarrow>
           (case checked_add internal_pages level_pages of
              None \<Rightarrow> Inl ArithmeticOverflow
            | Some internal_pages \<Rightarrow>
              (case checked_add depth 1 of
                 None \<Rightarrow> Inl ArithmeticOverflow
               | Some depth \<Rightarrow> estimate_loop fanout level_pages pages internal_pages depth))))"
  by pat_completeness auto
termination
  by (relation "measure (\<lambda>(f, l, p, n, d). unat l)") (auto simp: div_ceil_less)

declare estimate_loop.simps [simp del]

definition estimate_shape :: "u64 \<Rightarrow> u64 \<Rightarrow> u64 \<Rightarrow> directory_build_error + directory_stats" where
  "estimate_shape entry_count leaf_capacity fanout =
     (if leaf_capacity = 0 then Inl InvalidLeafCapacity else
      if fanout < 2 then Inl InvalidFanout else
      case (if entry_count = 0 then Inr 1 else div_ceil entry_count leaf_capacity) of
        Inl e \<Rightarrow> Inl e
      | Inr level_pages \<Rightarrow>
        (case estimate_loop fanout level_pages level_pages 0 1 of
           Inl e \<Rightarrow> Inl e
         | Inr (pages, internal_pages, depth) \<Rightarrow>
           Inr \<lparr>dst_entries = entry_count, dst_pages = pages, dst_leaf_pages = level_pages,
             dst_internal_pages = internal_pages, dst_depth = depth\<rparr>))"

end
