(* ===== verification/Ucof_Directory_Tree.thy ===== *)
theory Ucof_Directory_Tree
  imports Ucof_Directory "HOL-Library.Multiset"
begin

text \<open>
  The paged directory as a tree: binary search in a leaf finds what a linear search finds; the pages of a
  built directory form a tree that holds the sorted locators, every page of it is valid, and a lookup
  walks it to the one leaf that may hold the identifier.
\<close>

section \<open>Search in a leaf\<close>

abbreviation keys :: "object_locator list \<Rightarrow> u64 list" where
  "keys es \<equiv> map ol_object_id es"

lemma search_loop_sorted:
  assumes mono: "\<And>i j. i < j \<Longrightarrow> j < n \<Longrightarrow> key i < (key j :: u64)"
  shows "base + span \<le> n \<Longrightarrow> base \<le> i \<Longrightarrow> i < base + span \<Longrightarrow> key i = k \<Longrightarrow> search_loop key k base span = i"
proof (induction span arbitrary: base rule: less_induct)
  case (less span)
  show ?case
  proof (cases "span \<le> 1")
    case True
    then have "i = base" using less.prems by linarith
    then show ?thesis using True by (simp add: search_loop.simps)
  next
    case False
    let ?h = "span div 2"
    have h: "0 < ?h" "?h < span" "span - ?h < span" using False by auto
    show ?thesis
    proof (cases "key (base + ?h) > k")
      case True
      have "i < base + ?h"
      proof (rule ccontr)
        assume "\<not> i < base + ?h"
        then have "key (base + ?h) \<le> key i" using mono [of "base + ?h" i] less.prems by (cases "i = base + ?h") auto
        with True less.prems(4) show False by simp
      qed
      then have "search_loop key k base (span - ?h) = i" using less.prems h by (intro less.IH) auto
      then show ?thesis using False True by (subst search_loop.simps) (simp add: Let_def)
    next
      case le: False
      have "base + ?h \<le> i"
      proof (rule ccontr)
        assume "\<not> base + ?h \<le> i"
        then have "key i < key (base + ?h)" using mono [of i "base + ?h"] less.prems h by auto
        with le less.prems(4) show False by simp
      qed
      then have "search_loop key k (base + ?h) (span - ?h) = i" using less.prems h by (intro less.IH) auto
      then show ?thesis using False le by (subst search_loop.simps) (simp add: Let_def)
    qed
  qed
qed

lemma search_loop_bound: "0 < span \<Longrightarrow> search_loop key k base span < base + span"
proof (induction span arbitrary: base rule: less_induct)
  case (less span)
  let ?b = "if k < key (base + span div 2) then base else base + span div 2"
  show ?case
  proof (cases "span \<le> 1")
    case False
    then have "search_loop key k ?b (span - span div 2) < ?b + (span - span div 2)" by (intro less.IH) auto
    also have "\<dots> \<le> base + span" by auto
    finally show ?thesis using False by (subst search_loop.simps) (simp add: Let_def)
  qed (use less.prems in \<open>simp add: search_loop.simps\<close>)
qed

definition find_locator :: "u64 \<Rightarrow> object_locator list \<Rightarrow> object_locator option" where
  "find_locator k es = List.find (\<lambda>e. ol_object_id e = k) es"

lemma find_locator_simps [simp]:
  "find_locator k [] = None" "find_locator k (e # es) = (if ol_object_id e = k then Some e else find_locator k es)"
  by (simp_all add: find_locator_def)

lemma find_locator_None: "find_locator k es = None \<longleftrightarrow> k \<notin> set (keys es)"
  by (induction es) auto

lemma find_locator_SomeD: "find_locator k es = Some e \<Longrightarrow> e \<in> set es \<and> ol_object_id e = k"
  by (induction es) (auto split: if_splits)

lemma find_locator_append: "find_locator k (xs @ ys) = (case find_locator k xs of Some e \<Rightarrow> Some e | None \<Rightarrow> find_locator k ys)"
  by (induction xs) auto

lemma find_locator_nth:
  "sorted_wrt (<) (keys es) \<Longrightarrow> i < length es \<Longrightarrow> find_locator (ol_object_id (es ! i)) es = Some (es ! i)"
  by (induction es arbitrary: i) (auto simp: nth_Cons split: nat.splits)

lemma binary_search_sorted:
  assumes "sorted_wrt (<) (keys es)"
  shows "map_option (\<lambda>i. es ! i) (binary_search_by_key es k) = find_locator k es"
proof (cases "es = []")
  case False
  let ?key = "\<lambda>i. ol_object_id (es ! i)"
  let ?i = "search_loop ?key k 0 (length es)"
  have mono: "?key i < ?key j" if "i < j" "j < length es" for i j using sorted_wrt_nth_less [OF assms, of i j] that by simp
  have bound: "?i < length es" using search_loop_bound [of "length es" ?key k 0] False by simp
  show ?thesis
  proof (cases "find_locator k es")
    case None
    then have "?key ?i \<noteq> k" using imageI [OF nth_mem [OF bound], of ol_object_id] by (auto simp: find_locator_None)
    then show ?thesis using None False by (simp add: binary_search_by_key_def Let_def)
  next
    case (Some e)
    then obtain i where "i < length es" "?key i = k" using find_locator_SomeD [OF Some] by (auto simp: in_set_conv_nth)
    then have "?i = i" using search_loop_sorted [where key = ?key and n = "length es" and base = 0 and span = "length es" and i = i] mono by simp
    then show ?thesis
      using Some False find_locator_nth [OF assms \<open>i < length es\<close>] \<open>?key i = k\<close> by (simp add: binary_search_by_key_def Let_def)
  qed
qed (simp add: binary_search_by_key_def)

section \<open>Pages that hold locators\<close>

definition range_of :: "object_locator list \<Rightarrow> key_range" where
  "range_of es = \<lparr>kr_min = ol_object_id (hd es), kr_max = ol_object_id (last es)\<rparr>"

text \<open>\<open>holds pages h i es ps\<close>: the page \<open>i\<close> is the root of a tree of height \<open>h\<close> over the pages \<open>ps\<close> whose leaves
  hold \<open>es\<close>; the page of a child precedes that of its parent.\<close>

inductive holds :: "page list \<Rightarrow> nat \<Rightarrow> usize \<Rightarrow> object_locator list \<Rightarrow> usize list \<Rightarrow> bool" for pages where
  holds_leaf: "i < length pages \<Longrightarrow> pages ! i = PageLeaf (Some (range_of es)) es \<Longrightarrow> es \<noteq> [] \<Longrightarrow> holds pages 1 i es [i]"
| holds_internal: "i < length pages \<Longrightarrow> pages ! i = PageInternal (range_of (concat (map (\<lambda>t. fst (snd t)) ts))) (map fst ts) \<Longrightarrow> ts \<noteq> [] \<Longrightarrow>
    \<forall>t \<in> set ts. holds pages h (cl_page_id (fst t)) (fst (snd t)) (snd (snd t)) \<and> cl_range (fst t) = range_of (fst (snd t)) \<and> cl_page_id (fst t) < i \<Longrightarrow>
    holds pages (Suc h) i (concat (map (\<lambda>t. fst (snd t)) ts)) (i # concat (map (\<lambda>t. snd (snd t)) ts))"

inductive_cases holds_leafE: "holds pages 1 i es ps"

lemma holds_basic:
  assumes "holds pages h i es ps"
  shows "i < length pages \<and> es \<noteq> [] \<and> page_range (pages ! i) = Some (range_of es) \<and> 0 < h"
  using assms
proof induction
  case (holds_internal i ts h)
  then obtain t ts' where "ts = t # ts'" by (cases ts) auto
  with holds_internal show ?case by auto
qed simp_all

lemma holds_append: "holds pages h i es ps \<Longrightarrow> holds (pages @ qs) h i es ps"
proof (induction rule: holds.induct)
  case (holds_leaf i es)
  then show ?case by (intro holds.holds_leaf) (simp_all add: nth_append)
next
  case (holds_internal i ts h)
  then show ?case by (intro holds.holds_internal) (simp_all add: nth_append)
qed

section \<open>Pages are valid\<close>

abbreviation ordered :: "object_locator list \<Rightarrow> bool" where
  "ordered es \<equiv> sorted_wrt (<) (keys es)"

lemma range_of_bounds:
  assumes "ordered es" and "e \<in> set es"
  shows "kr_min (range_of es) \<le> ol_object_id e" "ol_object_id e \<le> kr_max (range_of es)"
proof -
  show "kr_min (range_of es) \<le> ol_object_id e" using assms by (cases es) (auto simp: range_of_def intro: less_imp_le)
  show "ol_object_id e \<le> kr_max (range_of es)"
    using assms by (cases es rule: rev_cases) (auto simp: range_of_def sorted_wrt_append intro: less_imp_le)
qed

lemma range_of_mem:
  assumes "es \<noteq> []"
  shows "kr_min (range_of es) \<in> set (keys es)" "kr_max (range_of es) \<in> set (keys es)"
  using assms by (auto simp: range_of_def)

lemma range_of_valid: "ordered es \<Longrightarrow> es \<noteq> [] \<Longrightarrow> kr_is_valid (range_of es)"
  using range_of_bounds(1) [of es "last es"] by (simp add: kr_is_valid_def range_of_def)

lemma validate_leaf_order_Ok: "validate_leaf_order (windows2 es) = Inr u \<longleftrightarrow> ordered es"
proof (induction es rule: windows2.induct)
  case (1 x y xs)
  have "ol_object_id x < ol_object_id z" if "ol_object_id x < ol_object_id y" "ol_object_id y < ol_object_id z" for z
    using that by (rule less_trans)
  with 1 show ?case by (auto simp: not_less order.strict_iff_order)
qed simp_all

text \<open>The children of an internal page, as links with the locators below them.\<close>

definition links_ok :: "page list \<Rightarrow> (child_link \<times> object_locator list \<times> 'a) list \<Rightarrow> bool" where
  "links_ok pages ts \<longleftrightarrow> (\<forall>t \<in> set ts. cl_range (fst t) = range_of (fst (snd t)) \<and> fst (snd t) \<noteq> [] \<and>
     cl_page_id (fst t) < length pages \<and> page_range (pages ! cl_page_id (fst t)) = Some (cl_range (fst t)))"

lemma validate_children_Ok:
  assumes "links_ok pages ts" and "ordered (concat (map (\<lambda>t. fst (snd t)) ts))"
    and "\<And>q. prev = Some q \<Longrightarrow> kr_is_valid (cl_range q) \<and> (\<forall>e \<in> set (concat (map (\<lambda>t. fst (snd t)) ts)). kr_max (cl_range q) < ol_object_id e)"
  shows "validate_children pages prev (map fst ts) = Inr ()"
  using assms
proof (induction ts arbitrary: prev)
  case (Cons t ts)
  obtain c es x where t: "t = (c, es, x)" by (cases t)
  let ?rest = "concat (map (\<lambda>t. fst (snd t)) ts)"
  have c: "cl_range c = range_of es" "es \<noteq> []" "slice_get pages (cl_page_id c) = Some (pages ! cl_page_id c)"
    "page_range (pages ! cl_page_id c) = Some (range_of es)" and rest: "links_ok pages ts"
    using Cons.prems(1) by (auto simp: links_ok_def t slice_get_def)
  have ord: "ordered es" "ordered ?rest" "\<And>e f. e \<in> set es \<Longrightarrow> f \<in> set ?rest \<Longrightarrow> ol_object_id e < ol_object_id f"
    using Cons.prems(2) by (auto simp: t sorted_wrt_append)
  have valid: "kr_is_valid (range_of es)" by (rule range_of_valid [OF ord(1) c(2)])
  have "kr_max (range_of es) < ol_object_id e" if "e \<in> set ?rest" for e using ord(3) [OF _ that] c(2) by (simp add: range_of_def)
  then have IH: "validate_children pages (Some c) (map fst ts) = Inr ()"
    using c(1) valid by (intro Cons.IH [OF rest ord(2)]) auto
  have "kr_max (cl_range q) < kr_min (range_of es)" "kr_min (cl_range q) \<le> kr_max (cl_range q)" if "prev = Some q" for q
    using Cons.prems(3) [OF that] c(2) by (auto simp: t range_of_def kr_is_valid_def)
  then show ?case
    using c valid IH by (fastforce simp: t split: option.splits)
qed simp

lemma hd_concat: "xss \<noteq> [] \<Longrightarrow> hd xss \<noteq> [] \<Longrightarrow> hd (concat xss) = hd (hd xss)"
  by (cases xss) auto

lemma last_concat: "xss \<noteq> [] \<Longrightarrow> last xss \<noteq> [] \<Longrightarrow> last (concat xss) = last (last xss)"
  by (cases xss rule: rev_cases) auto

lemma links_range:
  assumes "links_ok pages ts" and "ts \<noteq> []"
  shows "kr_min (range_of (concat (map (\<lambda>t. fst (snd t)) ts))) = kr_min (cl_range (fst (hd ts)))"
    "kr_max (range_of (concat (map (\<lambda>t. fst (snd t)) ts))) = kr_max (cl_range (fst (last ts)))"
  using assms hd_in_set [OF assms(2)] last_in_set [OF assms(2)]
  by (simp_all add: range_of_def links_ok_def hd_concat last_concat hd_map last_map)

lemma internal_validate:
  assumes "links_ok pages ts" and "ts \<noteq> []" and "ordered (concat (map (\<lambda>t. fst (snd t)) ts))"
  shows "page_validate pages (PageInternal (range_of (concat (map (\<lambda>t. fst (snd t)) ts))) (map fst ts)) = Inr ()"
proof -
  let ?es = "concat (map (\<lambda>t. fst (snd t)) ts)"
  obtain t ts' where "ts = t # ts'" using assms(2) by (cases ts) auto
  then have "?es \<noteq> []" using assms(1) by (simp add: links_ok_def)
  then show ?thesis
    using range_of_valid [OF assms(3)] links_range [OF assms(1,2)] validate_children_Ok [OF assms(1,3), of None] assms(2)
    by (simp add: hd_map last_map)
qed

lemma holds_links:
  "\<forall>t \<in> set ts. holds pages h (cl_page_id (fst t)) (fst (snd t)) (snd (snd t)) \<and> cl_range (fst t) = range_of (fst (snd t)) \<and> cl_page_id (fst t) < i \<Longrightarrow>
     links_ok pages ts"
  using holds_basic by (fastforce simp: links_ok_def)

lemma holds_validate: "holds pages h i es ps \<Longrightarrow> ordered es \<Longrightarrow> page_validate pages (pages ! i) = Inr ()"
proof (induction rule: holds.induct)
  case (holds_leaf i es)
  then show ?case using range_of_valid [of es] validate_leaf_order_Ok [of es] by (simp add: range_of_def)
next
  case (holds_internal i ts h)
  then have "links_ok pages ts" by (intro holds_links [of ts pages h i]) blast
  with holds_internal show ?case using internal_validate [of pages ts] by simp
qed

section \<open>Lookup\<close>

lemma find_child:
  assumes "links_ok pages ts" and "ordered (concat (map (\<lambda>t. fst (snd t)) ts))"
  shows "(case List.find (\<lambda>c. kr_contains (cl_range c) k) (map fst ts) of
      None \<Rightarrow> find_locator k (concat (map (\<lambda>t. fst (snd t)) ts)) = None
    | Some c \<Rightarrow> \<exists>es x. (c, es, x) \<in> set ts \<and> ordered es \<and> find_locator k (concat (map (\<lambda>t. fst (snd t)) ts)) = find_locator k es)"
  using assms
proof (induction ts)
  case (Cons t ts)
  obtain c es x where t: "t = (c, es, x)" by (cases t)
  let ?rest = "concat (map (\<lambda>t. fst (snd t)) ts)"
  have c: "cl_range c = range_of es" "es \<noteq> []" and rest: "links_ok pages ts" using Cons.prems(1) by (auto simp: links_ok_def t)
  have ord: "ordered es" "ordered ?rest" "\<And>e f. e \<in> set es \<Longrightarrow> f \<in> set ?rest \<Longrightarrow> ol_object_id e < ol_object_id f"
    using Cons.prems(2) by (auto simp: t sorted_wrt_append)
  show ?case
  proof (cases "kr_contains (range_of es) k")
    case True
    have "k \<noteq> ol_object_id f" if "f \<in> set ?rest" for f
      using True ord(3) [OF last_in_set [OF c(2)] that] by (auto simp: kr_contains_def range_of_def)
    then have "find_locator k ?rest = None" by (auto simp: find_locator_None)
    then show ?thesis
      using True c(1) ord(1) by (auto simp: t find_locator_append split: option.splits)
  next
    case False
    then have "find_locator k es = None"
      using range_of_bounds [OF ord(1)] by (auto simp: find_locator_None kr_contains_def)
    then show ?thesis
      using False c(1) Cons.IH [OF rest ord(2)] by (auto simp: t find_locator_append split: option.splits)
  qed
qed simp

lemma pages_read_step:
  assumes "unat (n :: u32) + 1 \<le> unat mx"
  shows "checked_add n 1 = Some (n + 1)" "unat (n + 1) = unat n + 1" "\<not> mx < n + 1"
proof -
  have "unat n + 1 < 2 ^ 32" using assms unat_lt2p [of mx] by simp
  then show "checked_add n 1 = Some (n + 1)" by (simp add: checked_add_def)
  then show "unat (n + 1) = unat n + 1" by (simp add: checked_add_Some_iff)
  then show "\<not> mx < n + 1" using assms by (simp add: word_less_nat_alt)
qed

lemma lookup_step:
  assumes "holds pages h i es ps" and "ordered es" and "\<forall>v \<in> visited. i < v" and "unat n + 1 \<le> unat mx"
  shows "lookup_loop pages k mx i n visited = (case pages ! i of
      PageLeaf _ entries \<Rightarrow> Inr \<lparr>lr_locator = map_option (\<lambda>index. entries ! index) (binary_search_by_key entries k), lr_pages_read = n + 1\<rparr>
    | PageInternal _ children \<Rightarrow> (case List.find (\<lambda>c. kr_contains (cl_range c) k) children of
        None \<Rightarrow> Inr \<lparr>lr_locator = None, lr_pages_read = n + 1\<rparr>
      | Some c \<Rightarrow> lookup_loop pages k mx (cl_page_id c) (n + 1) (insert i visited)))"
proof -
  have "i \<notin> visited" using assms(3) by auto
  moreover have "slice_get pages i = Some (pages ! i)" using holds_basic [OF assms(1)] by (simp add: slice_get_def)
  ultimately show ?thesis
    using pages_read_step [OF assms(4)] holds_validate [OF assms(1,2)] by (subst lookup_loop.simps) (simp add: Let_def)
qed

lemma lookup_loop_holds:
  assumes "holds pages h i es ps" and "ordered es" and "\<forall>v \<in> visited. i < v" and "unat n + h \<le> unat mx"
  shows "\<exists>r. lookup_loop pages k mx i n visited = Inr \<lparr>lr_locator = find_locator k es, lr_pages_read = r\<rparr> \<and>
    unat r \<le> unat n + h \<and> (find_locator k es \<noteq> None \<longrightarrow> unat r = unat n + h)"
  using assms
proof (induction arbitrary: n visited rule: holds.induct)
  case (holds_leaf i es)
  have "holds pages 1 i es [i]" using holds_leaf.hyps by (rule holds.holds_leaf)
  from lookup_step [OF this holds_leaf.prems] show ?case
    using holds_leaf binary_search_sorted [of es k] pages_read_step(2) [OF holds_leaf.prems(3)] by simp
next
  case (holds_internal i ts h)
  let ?es = "concat (map (\<lambda>t. fst (snd t)) ts)"
  have tree: "\<forall>t \<in> set ts. holds pages h (cl_page_id (fst t)) (fst (snd t)) (snd (snd t)) \<and> cl_range (fst t) = range_of (fst (snd t)) \<and> cl_page_id (fst t) < i"
    using holds_internal.IH by blast
  have h: "holds pages (Suc h) i ?es (i # concat (map (\<lambda>t. snd (snd t)) ts))"
    by (rule holds.holds_internal [OF holds_internal.hyps(1-3) tree])
  have n: "unat n + 1 \<le> unat mx" using holds_internal.prems(3) by simp
  note step = lookup_step [OF h holds_internal.prems(1,2) n, unfolded holds_internal.hyps(2) page.case]
  note fc = find_child [OF holds_links [OF tree] holds_internal.prems(1), of k]
  show ?case
  proof (cases "List.find (\<lambda>c. kr_contains (cl_range c) k) (map fst ts)")
    case None
    then show ?thesis using step fc pages_read_step(2) [OF n] by simp
  next
    case (Some c)
    with fc obtain es x where cx: "(c, es, x) \<in> set ts" "ordered es" "find_locator k ?es = find_locator k es" by auto
    have c: "cl_page_id c < i" using bspec [OF tree cx(1)] by simp
    have IH: "\<And>n visited. ordered es \<Longrightarrow> \<forall>v \<in> visited. cl_page_id c < v \<Longrightarrow> unat n + h \<le> unat mx \<Longrightarrow>
       \<exists>r. lookup_loop pages k mx (cl_page_id c) n visited = Inr \<lparr>lr_locator = find_locator k es, lr_pages_read = r\<rparr> \<and>
         unat r \<le> unat n + h \<and> (find_locator k es \<noteq> None \<longrightarrow> unat r = unat n + h)"
      using bspec [OF holds_internal.IH cx(1)] by simp
    have "\<exists>r. lookup_loop pages k mx (cl_page_id c) (n + 1) (insert i visited) = Inr \<lparr>lr_locator = find_locator k es, lr_pages_read = r\<rparr> \<and>
         unat r \<le> unat (n + 1) + h \<and> (find_locator k es \<noteq> None \<longrightarrow> unat r = unat (n + 1) + h)"
      by (rule IH [OF cx(2)]) (use c holds_internal.prems(2,3) pages_read_step(2) [OF n] in auto)
    then show ?thesis using step Some cx(3) pages_read_step(2) [OF n] by auto
  qed
qed

section \<open>Building\<close>

lemma chunks_map: "chunks n (map f xs) = map (map f) (chunks n xs)"
proof (induction "length xs" arbitrary: xs rule: less_induct)
  case less
  show ?case
  proof (cases "xs = [] \<or> n = 0")
    case True
    then show ?thesis by (auto simp: chunks.simps)
  next
    case False
    then have "chunks n (map f (drop n xs)) = map (map f) (chunks n (drop n xs))" using less [of "drop n xs"] by simp
    then show ?thesis using False by (simp add: chunks_Cons take_map drop_map)
  qed
qed

lemma concat_chunks: "0 < n \<Longrightarrow> concat (chunks n xs) = xs"
proof (induction "length xs" arbitrary: xs rule: less_induct)
  case less
  then show ?case by (cases "xs = []") (simp_all add: chunks_Cons)
qed

lemma chunks_nonempty: "0 < n \<Longrightarrow> c \<in> set (chunks n xs) \<Longrightarrow> c \<noteq> []"
proof (induction "length xs" arbitrary: xs rule: less_induct)
  case less
  show ?case using less.prems less.hyps [of "drop n xs"] by (cases "xs = []") (auto simp: chunks_Cons)
qed

text \<open>A level: page, locators below it, pages below it.\<close>

type_synonym subtree = "usize \<times> object_locator list \<times> usize list"

abbreviation t_entries :: "subtree list \<Rightarrow> object_locator list" where
  "t_entries T \<equiv> concat (map (\<lambda>t. fst (snd t)) T)"

abbreviation t_pages :: "subtree list \<Rightarrow> usize list" where
  "t_pages T \<equiv> concat (map (\<lambda>t. snd (snd t)) T)"

definition level :: "page list \<Rightarrow> nat \<Rightarrow> subtree list \<Rightarrow> bool" where
  "level pages h T \<longleftrightarrow> (\<forall>t \<in> set T. holds pages h (fst t) (fst (snd t)) (snd (snd t)))"

lemma level_append: "level pages h T \<Longrightarrow> level (pages @ qs) h T"
  by (simp add: level_def holds_append)

lemma internal_page_holds:
  assumes "level pages h T" and "T \<noteq> []"
  shows "holds (pages @ [internal_page pages (map fst T)]) (Suc h) (length pages) (t_entries T) (length pages # t_pages T)"
proof -
  define ts where "ts = map (\<lambda>t. (\<lparr>cl_range = range_of (fst (snd t)), cl_page_id = fst t\<rparr>, snd t)) T"
  let ?pages = "pages @ [internal_page pages (map fst T)]"
  have tree: "\<forall>t \<in> set ts. holds ?pages h (cl_page_id (fst t)) (fst (snd t)) (snd (snd t)) \<and> cl_range (fst t) = range_of (fst (snd t)) \<and>
      cl_page_id (fst t) < length pages"
    using level_append [OF assms(1), of "[internal_page pages (map fst T)]"] holds_basic assms(1) by (fastforce simp: ts_def level_def)
  have es: "concat (map (\<lambda>t. fst (snd t)) ts) = t_entries T" "concat (map (\<lambda>t. snd (snd t)) ts) = t_pages T"
    by (simp_all add: ts_def comp_def)
  have "map fst ts = map (\<lambda>i. \<lparr>cl_range = the (page_range (pages ! i)), cl_page_id = i\<rparr>) (map fst T)"
    using assms(1) holds_basic by (fastforce simp: ts_def level_def)
  then have "internal_page pages (map fst T) =
      PageInternal \<lparr>kr_min = kr_min (cl_range (hd (map fst ts))), kr_max = kr_max (cl_range (last (map fst ts)))\<rparr> (map fst ts)"
    unfolding internal_page_def Let_def by (simp only:)
  moreover have ne: "ts \<noteq> []" using assms(2) by (simp add: ts_def)
  ultimately have "internal_page pages (map fst T) = PageInternal (range_of (t_entries T)) (map fst ts)"
    using links_range [OF holds_links [OF tree] ne] es(1) by (simp add: range_of_def hd_map last_map)
  then have "?pages ! length pages = PageInternal (range_of (concat (map (\<lambda>t. fst (snd t)) ts))) (map fst ts)" by (simp add: es)
  from holds.holds_internal [OF _ this ne tree] show ?thesis by (simp add: es)
qed

lemma push_internals_level_holds:
  assumes "push_internals (map (map fst) Ts) pages (map fst D) n = Inr (pages', L', n')"
    and "\<forall>T \<in> set Ts. T \<noteq> [] \<and> level pages h T" and "level pages (Suc h) D"
  shows "\<exists>D'. L' = map fst D' \<and> level pages' (Suc h) D' \<and> t_entries D' = t_entries (D @ concat Ts) \<and>
    mset (t_pages D') = mset (t_pages (D @ concat Ts)) + mset [length pages..<length pages'] \<and>
    length pages' = length pages + length Ts \<and> unat n' = unat n + length Ts \<and> length D' = length D + length Ts"
  using assms
proof (induction Ts arbitrary: pages D n)
  case (Cons T Ts)
  let ?p = "internal_page pages (map fst T)" and ?t = "(length pages, t_entries T, length pages # t_pages T)"
  from Cons.prems(1) obtain n1 where n1: "checked_add n 1 = Some n1"
    and run: "push_internals (map (map fst) Ts) (pages @ [?p]) (map fst (D @ [?t])) n1 = Inr (pages', L', n')"
    by (auto simp: Let_def split: option.splits)
  have lD: "level (pages @ [?p]) (Suc h) (D @ [?t])"
    using level_append [OF Cons.prems(3), of "[?p]"] internal_page_holds [of pages h T] Cons.prems(2) by (auto simp: level_def)
  have "\<forall>T \<in> set Ts. T \<noteq> [] \<and> level (pages @ [?p]) h T" using Cons.prems(2) level_append by auto
  from Cons.IH [OF run this lD] obtain D' where D': "L' = map fst D'" "level pages' (Suc h) D'" "t_entries D' = t_entries ((D @ [?t]) @ concat Ts)"
    "mset (t_pages D') = mset (t_pages ((D @ [?t]) @ concat Ts)) + mset [length (pages @ [?p])..<length pages']"
    "length pages' = length (pages @ [?p]) + length Ts" "unat n' = unat n1 + length Ts" "length D' = length (D @ [?t]) + length Ts"
    by blast
  have "mset [length pages..<length pages'] = {#length pages#} + mset [length (pages @ [?p])..<length pages']"
    using D'(5) by (subst upt_conv_Cons) simp_all
  then have "mset (t_pages D') = mset (t_pages (D @ concat (T # Ts))) + mset [length pages..<length pages']" using D'(4) by simp
  then show ?case using D'(1-3,5-7) n1 by (intro exI [of _ D']) (simp add: checked_add_Some_iff)
qed (auto simp: level_def)

lemma build_levels_holds:
  assumes "build_levels f pages (map fst T) n depth = Inr (pages', L', n', depth')" and "2 \<le> f"
    and "level pages (unat depth) T" and "T \<noteq> []"
  shows "\<exists>i ps. L' = [i] \<and> holds pages' (unat depth') i (t_entries T) ps \<and>
    mset ps = mset (t_pages T) + mset [length pages..<length pages'] \<and> length pages \<le> length pages' \<and>
    unat n' = unat n + (length pages' - length pages)"
  using assms(1,3,4)
proof (induction "length T" arbitrary: T pages n depth rule: less_induct)
  case less
  show ?case
  proof (cases "length T \<le> 1")
    case True
    then obtain t where T: "T = [t]" using less.prems(3) by (cases T) auto
    then have "pages' = pages" "L' = [fst t]" "n' = n" "depth' = depth" using less.prems(1) by (simp_all add: build_levels.simps)
    then show ?thesis using less.prems(2) T by (auto simp: level_def)
  next
    case False
    let ?Ts = "chunks f T"
    from less.prems(1) False assms(2) obtain pages1 L1 n1 depth1 where
      run: "push_internals (chunks f (map fst T)) pages [] n = Inr (pages1, L1, n1)" and d1: "checked_add depth 1 = Some depth1"
      and rec: "build_levels f pages1 L1 n1 depth1 = Inr (pages', L', n', depth')"
      by (subst (asm) build_levels.simps) (auto split: sum.splits option.splits prod.splits)
    have cat: "concat ?Ts = T" using assms(2) by (simp add: concat_chunks)
    have "\<forall>S \<in> set ?Ts. S \<noteq> [] \<and> level pages (unat depth) S"
    proof
      fix S assume S: "S \<in> set ?Ts"
      then have "set S \<subseteq> set (concat ?Ts)" by auto
      then show "S \<noteq> [] \<and> level pages (unat depth) S" using chunks_nonempty [OF _ S] assms(2) less.prems(2) cat by (auto simp: level_def)
    qed
    moreover have "push_internals (map (map fst) ?Ts) pages (map fst []) n = Inr (pages1, L1, n1)" using run by (simp add: chunks_map)
    moreover have "level pages (Suc (unat depth)) []" by (simp add: level_def)
    ultimately obtain D where D: "L1 = map fst D" "level pages1 (Suc (unat depth)) D" "t_entries D = t_entries T"
      "mset (t_pages D) = mset (t_pages T) + mset [length pages..<length pages1]" "length pages1 = length pages + length ?Ts"
      "unat n1 = unat n + length ?Ts" "length D = length ?Ts"
      using push_internals_level_holds [of ?Ts pages "[]" n pages1 L1 n1 "unat depth"] cat by auto
    have small: "length D < length T" "D \<noteq> []"
      using length_chunks_less [of f T] False assms(2) D(7) cat less.prems(3) by auto
    have "unat depth1 = Suc (unat depth)" using d1 by (simp add: checked_add_Some_iff)
    then obtain i ps where res: "L' = [i]" "holds pages' (unat depth') i (t_entries D) ps"
      "mset ps = mset (t_pages D) + mset [length pages1..<length pages']" "length pages1 \<le> length pages'" "unat n' = unat n1 + (length pages' - length pages1)"
      using less.hyps [OF small(1) rec [unfolded D(1)] _ small(2)] D(2) by auto
    have "[length pages..<length pages'] = [length pages..<length pages1] @ [length pages1..<length pages']"
      using D(5) res(4) by (metis le_add1 upt_add_eq_append le_add_diff_inverse)
    then show ?thesis using res D by auto
  qed
qed

lemma leaf_level:
  assumes "pages = map leaf_page (chunks c es)" and "0 < c"
  shows "\<exists>T. map fst T = [0..<length pages] \<and> level pages 1 T \<and> t_entries T = es \<and> mset (t_pages T) = mset [0..<length pages]"
proof -
  let ?cs = "chunks c es"
  define T where "T = map (\<lambda>i. (i, ?cs ! i, [i])) [0..<length ?cs]"
  have "level pages 1 T"
    unfolding level_def
  proof
    fix t assume "t \<in> set T"
    then obtain i where i: "i < length ?cs" "t = (i, ?cs ! i, [i])" by (auto simp: T_def)
    have "?cs ! i \<noteq> []" using chunks_nonempty [OF assms(2)] nth_mem [OF i(1)] by blast
    then have "holds pages 1 i (?cs ! i) [i]" using i(1) assms(1) by (intro holds_leaf) (simp_all add: leaf_page_def range_of_def)
    then show "holds pages 1 (fst t) (fst (snd t)) (snd (snd t))" using i(2) by simp
  qed
  moreover have "map (\<lambda>t. fst (snd t)) T = ?cs" by (simp add: T_def comp_def map_nth)
  moreover have "map fst T = [0..<length pages]" "t_pages T = [0..<length pages]" by (simp_all add: T_def comp_def assms(1))
  ultimately show ?thesis using concat_chunks [OF assms(2), of es] by (intro exI [of _ T]) simp
qed

lemma find_duplicate_None: "find_duplicate (windows2 es) = None \<Longrightarrow> sorted (keys es) \<Longrightarrow> ordered es"
proof (induction es rule: windows2.induct)
  case (1 x y xs)
  then have "ol_object_id x < ol_object_id y" "ordered (y # xs)" by (auto split: if_splits)
  then show ?case by (auto intro: less_trans)
qed simp_all

lemma build_holds:
  assumes "directory_build entries c f = Inr pd"
  shows "ordered (sort_key ol_object_id entries)"
    "if entries = [] then pd_pages pd = [PageLeaf None []] \<and> pd_root pd = 0 \<and> dst_depth (pd_stats pd) = 1
     else \<exists>ps. holds (pd_pages pd) (unat (dst_depth (pd_stats pd))) (pd_root pd) (sort_key ol_object_id entries) ps \<and>
       mset ps = mset [0..<length (pd_pages pd)]"
proof -
  let ?es = "sort_key ol_object_id entries"
  let ?pages = "if ?es = [] then [PageLeaf None []] else map leaf_page (chunks c ?es)"
  from assms obtain pages L n depth where cf: "0 < c" "2 \<le> f" and dup: "find_duplicate (windows2 ?es) = None"
    and run: "build_levels f ?pages [0..<length ?pages] 0 1 = Inr (pages, L, n, depth)"
    and pd: "pd_pages pd = pages" "pd_root pd = L ! 0" "dst_depth (pd_stats pd) = depth"
    by (auto simp: directory_build_def Let_def simp del: upt_Suc split: if_split_asm option.split_asm sum.split_asm prod.split_asm)
  show ord: "ordered ?es" using find_duplicate_None [OF dup] by simp
  show "if entries = [] then pd_pages pd = [PageLeaf None []] \<and> pd_root pd = 0 \<and> dst_depth (pd_stats pd) = 1
     else \<exists>ps. holds (pd_pages pd) (unat (dst_depth (pd_stats pd))) (pd_root pd) ?es ps \<and> mset ps = mset [0..<length (pd_pages pd)]"
  proof (cases "entries = []")
    case True
    then have "pages = [PageLeaf None []]" "L = [0]" "depth = 1" using run by (auto simp: build_levels.simps)
    then show ?thesis using True pd by simp
  next
    case False
    then have ne: "?es \<noteq> []" by (metis length_0_conv length_sort)
    obtain T where T: "map fst T = [0..<length ?pages]" "level ?pages 1 T" "t_entries T = ?es" "mset (t_pages T) = mset [0..<length ?pages]"
      using leaf_level [of ?pages c ?es] cf(1) ne by auto
    have "T \<noteq> []" using T(3) ne by auto
    then obtain i ps where "L = [i]" "holds pages (unat depth) i ?es ps" "mset ps = mset (t_pages T) + mset [length ?pages..<length pages]"
      "length ?pages \<le> length pages"
      using build_levels_holds [OF run [folded T(1)] cf(2)] T(2,3) by auto
    moreover have "[0..<length pages] = [0..<length ?pages] @ [length ?pages..<length pages]"
      using \<open>length ?pages \<le> length pages\<close> by (metis le0 le_add_diff_inverse upt_add_eq_append)
    ultimately show ?thesis using False pd T(4) by (simp only: mset_append) (auto simp del: upt_Suc mset_upt)
  qed
qed

lemma find_locator_sort:
  assumes "ordered (sort_key ol_object_id entries)"
  shows "find_locator k (sort_key ol_object_id entries) = find_locator k entries"
proof -
  have "distinct (keys (sort_key ol_object_id entries))" using assms strict_sorted_iff by blast
  moreover have "mset (keys (sort_key ol_object_id entries)) = mset (keys entries)" by simp
  ultimately have "distinct (keys entries)" using mset_eq_imp_distinct_iff by blast
  then have inj: "inj_on ol_object_id (set entries)" by (simp add: distinct_map)
  show ?thesis
  proof (cases "find_locator k entries")
    case None
    then have "find_locator k (sort_key ol_object_id entries) = None" unfolding find_locator_None by simp
    with None show ?thesis by simp
  next
    case (Some e)
    then have "find_locator k (sort_key ol_object_id entries) \<noteq> None" using find_locator_SomeD [OF Some] by (auto simp: find_locator_None)
    then obtain e' where e': "find_locator k (sort_key ol_object_id entries) = Some e'" by auto
    then have "e' = e" using find_locator_SomeD [OF Some] find_locator_SomeD [OF e'] inj by (auto simp: inj_on_def)
    then show ?thesis using Some e' by simp
  qed
qed

end
