(* ===== verification/Ucof_Directory_Properties.thy ===== *)
theory Ucof_Directory_Properties
  imports Ucof_Directory_Tree
begin

text \<open>
  The paged directory against the list of its locators: a built directory answers like the list, the
  validator accepts it, its statistics are those of the closed estimate, and building fails only for a
  bad shape or a repeated identifier. A lookup in arbitrary pages stays within its budget.
\<close>

section \<open>Validation\<close>

lemma holds_pages:
  "holds pages h i es ps \<Longrightarrow> ordered es \<Longrightarrow> j \<in> set ps \<Longrightarrow> page_validate pages (pages ! j) = Inr ()"
proof (induction rule: holds.induct)
  case (holds_leaf i es)
  then show ?case using holds_validate [OF holds.holds_leaf [OF holds_leaf.hyps]] by simp
next
  case (holds_internal i ts h)
  have tree: "\<forall>t \<in> set ts. holds pages h (cl_page_id (fst t)) (fst (snd t)) (snd (snd t)) \<and> cl_range (fst t) = range_of (fst (snd t)) \<and> cl_page_id (fst t) < i"
    using holds_internal.IH by blast
  show ?case
  proof (cases "j = i")
    case True
    then show ?thesis using holds_validate [OF holds.holds_internal [OF holds_internal.hyps(1-3) tree] holds_internal.prems(1)] by simp
  next
    case False
    then obtain t where t: "t \<in> set ts" "j \<in> set (snd (snd t))" using holds_internal.prems(2) by auto
    then obtain us vs where "ts = us @ t # vs" by (meson split_list)
    then have "ordered (fst (snd t))" using holds_internal.prems(1) by (simp add: sorted_wrt_append)
    then show ?thesis using bspec [OF holds_internal.IH t(1)] t(2) by blast
  qed
qed

lemma validate_pages_Ok: "\<forall>p \<in> set ps. page_validate pages p = Inr () \<Longrightarrow> validate_pages pages ps = Inr ()"
  by (induction ps) auto

definition forest :: "page list \<Rightarrow> subtree list \<Rightarrow> bool" where
  "forest pages F \<longleftrightarrow> (\<forall>t \<in> set F. \<exists>h. holds pages h (fst t) (fst (snd t)) (snd (snd t)))"

text \<open>The pages below an internal page, in the order in which the walk puts them on its stack.\<close>

lemma holds_children:
  assumes "holds pages h i es ps" and "pages ! i = PageInternal r children"
  shows "\<exists>F. map fst F = rev (map cl_page_id children) \<and> forest pages F \<and> mset ps = add_mset i (mset (t_pages F))"
  using assms
proof cases
  case (holds_internal ts h')
  let ?F = "rev (map (\<lambda>t. (cl_page_id (fst t), snd t)) ts)"
  have "mset (concat (rev (map (\<lambda>t. snd (snd t)) ts))) = mset (concat (map (\<lambda>t. snd (snd t)) ts))" by (induction ts) simp_all
  then have "mset ps = add_mset i (mset (t_pages ?F))" using holds_internal(3) by (simp add: rev_map [symmetric] comp_def)
  moreover have "map fst ?F = rev (map cl_page_id children)" using holds_internal(5) assms(2) by (simp add: rev_map comp_def)
  moreover have "forest pages ?F" using holds_internal(7) by (auto simp: forest_def)
  ultimately show ?thesis by blast
qed simp

lemma holds_leaf_pages: "holds pages h i es ps \<Longrightarrow> pages ! i = PageLeaf r ls \<Longrightarrow> ps = [i]"
  by (erule holds.cases) auto

definition over_limit :: "u64 \<Rightarrow> nat \<Rightarrow> bool" where
  "over_limit m n \<longleftrightarrow> (case u64_try_from n of None \<Rightarrow> True | Some w \<Rightarrow> w > m)"

lemma over_limit_iff: "over_limit m n \<longleftrightarrow> unat m < n"
proof (cases "n < 2 ^ 64")
  case True
  then show ?thesis by (simp add: over_limit_def word_less_nat_alt)
next
  case False
  then have "unat m < n" using unsigned_less [of m] by (simp add: not_less) (erule less_le_trans, simp)
  then show ?thesis using False by (simp add: over_limit_def u64_try_from_def)
qed

lemma reachable_loop_forest:
  assumes "forest pages F" and "distinct (t_pages F)" and "set (t_pages F) \<inter> visited = {}" and "finite visited"
    and "card visited + length (t_pages F) \<le> unat mx"
  shows "reachable_loop pages mx (map fst F) visited = Inr ()"
  using assms
proof (induction "length (t_pages F)" arbitrary: F visited rule: less_induct)
  case less
  show ?case
  proof (cases F)
    case (Cons t F')
    obtain i es ps where t: "t = (i, es, ps)" by (cases t)
    then obtain h where h: "holds pages h i es ps" using less.prems(1) Cons by (auto simp: forest_def)
    have F': "forest pages F'" using less.prems(1) Cons by (auto simp: forest_def)
    have mem: "i \<in> set ps" using h by (cases rule: holds.cases) auto
    have i: "i < length pages" using holds_basic [OF h] by simp
    have new: "i \<notin> visited" using less.prems(3) mem Cons t by auto
    obtain G where G: "mset ps = add_mset i (mset (t_pages G))" "forest pages G"
      "reachable_loop pages mx (i # map fst F') visited = reachable_loop pages mx (map fst (G @ F')) (insert i visited)"
    proof (cases "pages ! i")
      case (PageLeaf r ls)
      then have "ps = [i]" by (rule holds_leaf_pages [OF h])
      then show ?thesis
        using that [of "[]"] new i PageLeaf less.prems(4,5) over_limit_iff [of mx "Suc (card visited)"]
        by (simp add: over_limit_def [symmetric] forest_def slice_get_def Cons t Let_def)
    next
      case (PageInternal r children)
      from holds_children [OF h this] obtain G where G: "map fst G = rev (map cl_page_id children)" "forest pages G" "mset ps = add_mset i (mset (t_pages G))"
        by blast
      have "Suc (card visited) \<le> unat mx" using mem less.prems(5) by (cases ps) (auto simp: Cons t)
      then show ?thesis
        using that [of G] new i PageInternal less.prems(4,5) over_limit_iff [of mx "Suc (card visited)"] G
        by (simp add: over_limit_def [symmetric] slice_get_def Cons t Let_def)
    qed
    have m: "mset (t_pages F) = add_mset i (mset (t_pages (G @ F')))" using G(1) Cons t by simp
    then have "mset (t_pages F) = mset (i # t_pages (G @ F'))" by simp
    then have facts: "distinct (i # t_pages (G @ F'))" "set (t_pages F) = set (i # t_pages (G @ F'))" "length (t_pages F) = length (i # t_pages (G @ F'))"
      using less.prems(2) by (blast dest: mset_eq_imp_distinct_iff, blast dest: mset_eq_setD, blast dest: mset_eq_length)
    have "reachable_loop pages mx (map fst (G @ F')) (insert i visited) = Inr ()"
    proof (rule less.hyps)
      show "length (t_pages (G @ F')) < length (t_pages F)" using facts(3) by simp
      show "forest pages (G @ F')" using G(2) F' by (auto simp: forest_def)
      show "distinct (t_pages (G @ F'))" using facts(1) by simp
      show "set (t_pages (G @ F')) \<inter> insert i visited = {}" using facts(1,2) less.prems(3) by auto
      show "finite (insert i visited)" using less.prems(4) by simp
      show "card (insert i visited) + length (t_pages (G @ F')) \<le> unat mx" using less.prems(4,5) new facts(3) by simp
    qed
    then show ?thesis using G(3) Cons t by simp
  qed simp
qed

section \<open>Arbitrary directories\<close>

text \<open>What a lookup returns for pages that nobody vouches for.\<close>

lemma binary_search_found: "binary_search_by_key es k = Some i \<Longrightarrow> i < length es \<and> ol_object_id (es ! i) = k"
  using search_loop_bound [of "length es" "\<lambda>i. ol_object_id (es ! i)" k 0]
  by (auto simp: binary_search_by_key_def Let_def split: if_splits)

lemma lookup_loop_sound:
  assumes "lookup_loop pages k mx i n visited = Inr res"
  shows "lr_pages_read res \<le> mx \<and> n < lr_pages_read res \<and>
    (\<forall>e. lr_locator res = Some e \<longrightarrow> ol_object_id e = k \<and> (\<exists>r es. PageLeaf r es \<in> set pages \<and> e \<in> set es))"
  using assms
proof (induction pages k mx i n visited rule: lookup_loop.induct)
  case (1 pages k mx i n visited)
  from 1(2) obtain n' p where n': "checked_add n 1 = Some n'" "\<not> mx < n'" and fresh: "i \<notin> visited" and p: "slice_get pages i = Some p"
    and ok: "page_validate pages p = Inr ()"
    by (subst (asm) lookup_loop.simps) (auto simp: Let_def split: option.splits if_splits sum.splits)
  have run: "(case p of
        PageLeaf _ entries \<Rightarrow> Inr \<lparr>lr_locator = map_option (\<lambda>index. entries ! index) (binary_search_by_key entries k), lr_pages_read = n'\<rparr>
      | PageInternal _ children \<Rightarrow> (case List.find (\<lambda>c. kr_contains (cl_range c) k) children of
          None \<Rightarrow> Inr \<lparr>lr_locator = None, lr_pages_read = n'\<rparr>
        | Some c \<Rightarrow> lookup_loop pages k mx (cl_page_id c) n' (insert i visited))) = Inr res"
    using trans [OF lookup_loop.simps [of pages k mx i n visited, symmetric] 1(2)] n' fresh p ok by (simp add: Let_def)
  have less: "n < n'" using n'(1) by (simp add: checked_add_Some_iff word_less_nat_alt)
  show ?case
  proof (cases p)
    case (PageLeaf r es)
    have "p \<in> set pages" using p by (auto simp: slice_get_def split: if_splits)
    then show ?thesis using run PageLeaf n'(2) less binary_search_found [of es k] nth_mem by (fastforce simp: not_less)
  next
    case (PageInternal r children)
    show ?thesis
    proof (cases "List.find (\<lambda>c. kr_contains (cl_range c) k) children")
      case None
      then show ?thesis using run PageInternal n'(2) less by (auto simp: not_less)
    next
      case (Some c)
      then have rec: "lookup_loop pages k mx (cl_page_id c) n' (insert i visited) = Inr res" using run PageInternal by simp
      from 1(1) [OF n'(1,2) fresh refl p ok PageInternal Some rec] show ?thesis using less by (blast intro: less_trans)
    qed
  qed
qed

section \<open>Shape\<close>

lemma push_internals_counts:
  "push_internals css pages L n = Inr (pages', L', n') \<Longrightarrow>
     length pages' = length pages + length css \<and> unat n' = unat n + length css"
  by (induction css pages L n rule: push_internals.induct) (auto simp: Let_def checked_add_Some_iff split: option.splits)

lemma div_ceil_of_nat:
  assumes "v + d < 2 ^ 64" and "0 < d"
  shows "div_ceil (of_nat v) (of_nat d) = Inr (of_nat ((v + (d - 1)) div d))"
proof -
  have u: "unat (of_nat v :: u64) = v" "unat (of_nat d :: u64) = d" using assms by (simp_all add: unat_of_nat_64)
  have "unat ((of_nat d :: u64) - 1) = d - 1" using u(2) assms(2) by (subst unat_minus_one) (auto simp: word_unat_eq_iff)
  then have "checked_add (of_nat v :: u64) (of_nat d - 1) = Some (of_nat v + (of_nat d - 1))" using u assms by (simp add: checked_add_def)
  moreover have "(of_nat v + (of_nat d - 1) :: u64) = of_nat (v + (d - 1))" using assms(2) by (simp add: of_nat_diff)
  moreover have bound: "(v + (d - 1)) div d < 2 ^ 64" "v + (d - 1) < 2 ^ 64"
    using assms by (auto intro: le_less_trans [OF div_le_dividend])
  moreover have "(of_nat (v + (d - 1)) :: u64) div of_nat d = of_nat ((v + (d - 1)) div d)"
    using assms bound by (simp add: word_unat_eq_iff unat_div u del: of_nat_add of_nat_diff)
  ultimately show ?thesis by (simp add: div_ceil_def)
qed

lemma checked_add_of_nat: "a + b < 2 ^ 64 \<Longrightarrow> checked_add (of_nat a :: u64) (of_nat b) = Some (of_nat (a + b))"
  by (simp add: checked_add_def unat_of_nat_64)

lemma build_levels_shape:
  assumes "build_levels f pages L n depth = Inr (pages', L', n', depth')" and "2 \<le> f" and "length L + f < 2 ^ 64" and "length pages' < 2 ^ 64"
    and "unat n \<le> length pages"
  shows "estimate_loop (of_nat f) (of_nat (length L)) (of_nat (length pages)) n depth = Inr (of_nat (length pages'), n', depth') \<and>
    length pages \<le> length pages'"
  using assms
proof (induction "length L" arbitrary: L pages n depth rule: less_induct)
  case less
  have u: "unat (of_nat (length L) :: u64) = length L" "unat (of_nat f :: u64) = f" using less.prems(2,3) by (simp_all add: unat_of_nat_64)
  have f: "\<not> (of_nat f :: u64) < 2" using u(2) less.prems(2) by (simp add: word_less_nat_alt)
  show ?case
  proof (cases "length L \<le> 1")
    case True
    then have "\<not> (1 :: u64) < of_nat (length L)" using u by (simp add: word_less_nat_alt)
    then show ?thesis using less.prems(1) True by (simp add: build_levels.simps estimate_loop.simps)
  next
    case False
    from less.prems(1,2) False obtain pages1 L1 n1 depth1 where
      run: "push_internals (chunks f L) pages [] n = Inr (pages1, L1, n1)" and d1: "checked_add depth 1 = Some depth1"
      and rec: "build_levels f pages1 L1 n1 depth1 = Inr (pages', L', n', depth')"
      by (subst (asm) build_levels.simps) (auto split: sum.splits option.splits prod.splits)
    let ?c = "length (chunks f L)"
    have c: "?c = (length L + (f - 1)) div f" "?c < length L" using length_chunks [of f L] length_chunks_less [of f L] False less.prems(2) by simp_all
    have L1: "length L1 = ?c" using push_internals_level [OF run] by simp
    note cnt = push_internals_counts [OF run]
    have IH: "estimate_loop (of_nat f) (of_nat (length L1)) (of_nat (length pages1)) n1 depth1 = Inr (of_nat (length pages'), n', depth') \<and>
        length pages1 \<le> length pages'"
      using L1 c(2) less.prems(2-5) cnt by (intro less.hyps [OF _ rec]) auto
    have big: "(1 :: u64) < of_nat (length L)" using u False by (simp add: word_less_nat_alt)
    have dc: "div_ceil (of_nat (length L)) (of_nat f) = Inr (of_nat ?c)"
      using div_ceil_of_nat [of "length L" f] less.prems(2,3) c(1) by simp
    have sum: "length pages + ?c < 2 ^ 64" using IH cnt less.prems(4) by linarith
    have n1: "checked_add n (of_nat ?c) = Some n1"
      using unat_eqD [of n1 "unat n + ?c"] checked_add_of_nat [of "unat n" ?c] cnt sum less.prems(5) by simp
    show ?thesis
      using IH big f dc d1 n1 checked_add_of_nat [OF sum] cnt L1 by (subst estimate_loop.simps) simp
  qed
qed

lemma build_stats:
  assumes "directory_build entries c f = Inr pd"
  shows "unat (dst_pages (pd_stats pd)) = length (pd_pages pd)"
  using assms
  by (auto simp: directory_build_def Let_def u64_try_from_def simp del: upt_Suc
      split: if_split_asm option.split_asm sum.split_asm prod.split_asm)

section \<open>Success\<close>

lemma ceil_le: "0 < n \<Longrightarrow> m \<le> k * n \<Longrightarrow> (m + (n - 1)) div n \<le> (k :: nat)"
proof -
  assume "0 < n" "m \<le> k * n"
  then have "m + (n - 1) < Suc k * n" by simp
  then have "(m + (n - 1)) div n < Suc k" using \<open>0 < n\<close> by (subst div_less_iff_less_mult)
  then show ?thesis by simp
qed

lemma push_internals_Ok:
  "unat n + length css < 2 ^ 64 \<Longrightarrow> \<exists>r. push_internals css pages L n = Inr r"
proof (induction css arbitrary: pages L n)
  case (Cons c css)
  have n1: "checked_add n 1 = Some (n + 1)" using Cons.prems by (simp add: checked_add_def)
  then have "unat (n + 1) = unat n + 1" by (simp add: checked_add_Some_iff)
  with n1 show ?case using Cons by (simp add: Let_def)
qed simp

lemma build_levels_Ok:
  "2 \<le> f \<Longrightarrow> unat n + 2 * (length L - 1) < 2 ^ 64 \<Longrightarrow> unat depth + length L < 2 ^ 32 \<Longrightarrow>
     \<exists>pages' L' n' depth'. build_levels f pages L n depth = Inr (pages', L', n', depth') \<and> length pages' \<le> length pages + 2 * (length L - 1)"
proof (induction "length L" arbitrary: L pages n depth rule: less_induct)
  case less
  show ?case
  proof (cases "length L \<le> 1")
    case True
    then show ?thesis by (simp add: build_levels.simps)
  next
    case False
    let ?c = "length (chunks f L)"
    have c: "?c < length L" using length_chunks_less [of f L] False less.prems(1) by simp
    have "?c = (length L + (f - 1)) div f" using length_chunks [of f L] less.prems(1) by simp
    also have "\<dots> \<le> (length L + 1) div 2"
    proof (rule ceil_le)
      have "length L \<le> ((length L + 1) div 2) * 2" by simp
      also have "\<dots> \<le> ((length L + 1) div 2) * f" using less.prems(1) by simp
      finally show "length L \<le> ((length L + 1) div 2) * f" .
    qed (use less.prems(1) in simp)
    finally have half: "3 * ?c \<le> 2 * length L" using False by linarith
    have room: "?c + 2 * (?c - 1) \<le> 2 * (length L - 1)" using half False by linarith
    obtain pages1 L1 n1 where run: "push_internals (chunks f L) pages [] n = Inr (pages1, L1, n1)"
      using push_internals_Ok [of n "chunks f L" pages "[]"] less.prems(2) room by fastforce
    have L1: "length L1 = ?c" using push_internals_level [OF run] by simp
    note cnt = push_internals_counts [OF run]
    have d: "checked_add depth 1 = Some (depth + 1)" using less.prems(3) False by (simp add: checked_add_def)
    then have ud: "unat (depth + 1) = unat depth + 1" by (simp add: checked_add_Some_iff)
    have "\<exists>pages' L' n' depth'. build_levels f pages1 L1 n1 (depth + 1) = Inr (pages', L', n', depth') \<and> length pages' \<le> length pages1 + 2 * (length L1 - 1)"
      using L1 c room cnt less.prems ud by (intro less.hyps) auto
    then show ?thesis using run d False less.prems(1) L1 cnt room by (subst build_levels.simps) fastforce
  qed
qed

lemma find_duplicate_Some: "find_duplicate (windows2 es) = Some i \<Longrightarrow> \<not> distinct (keys es)"
  by (induction es rule: windows2.induct) (auto split: if_splits)

lemma keys_sort_distinct: "distinct (keys (sort_key ol_object_id entries)) = distinct (keys entries)"
  by (rule mset_eq_imp_distinct_iff) simp

section \<open>Properties\<close>

text \<open>
  C15. A built directory answers like the list it was built from: for every identifier, a lookup with a
  page budget of at least the depth returns the locator with that identifier, or none if there is none;
  it reads at most one page per level, and exactly one when it finds the locator.
\<close>

theorem directory_lookup_correct:
  assumes "directory_build entries c f = Inr pd" and "dst_depth (pd_stats pd) \<le> max_pages"
  shows "\<exists>r. directory_lookup pd k max_pages = Inr \<lparr>lr_locator = find_locator k entries, lr_pages_read = r\<rparr> \<and>
    r \<le> dst_depth (pd_stats pd) \<and> (find_locator k entries \<noteq> None \<longrightarrow> r = dst_depth (pd_stats pd))"
proof (cases "entries = []")
  case True
  then have pd: "pd_pages pd = [PageLeaf None []]" "pd_root pd = 0" "dst_depth (pd_stats pd) = 1" using build_holds(2) [OF assms(1)] by auto
  have "unat (0 :: u32) + 1 \<le> unat max_pages" using assms(2) pd(3) by (simp add: word_le_nat_alt)
  from pages_read_step [OF this] have "checked_add 0 (1 :: u32) = Some 1" "\<not> max_pages < 1" by simp_all
  then show ?thesis
    using True pd by (simp add: directory_lookup_def lookup_loop.simps slice_get_def binary_search_by_key_def)
next
  case False
  note ord = build_holds(1) [OF assms(1)]
  obtain ps where h: "holds (pd_pages pd) (unat (dst_depth (pd_stats pd))) (pd_root pd) (sort_key ol_object_id entries) ps"
    using build_holds(2) [OF assms(1)] False by auto
  have "unat (0 :: u32) + unat (dst_depth (pd_stats pd)) \<le> unat max_pages" using assms(2) by (simp add: word_le_nat_alt)
  from lookup_loop_holds [OF h ord _ this, of "{}" k] show ?thesis
    by (auto simp: directory_lookup_def find_locator_sort [OF ord] word_le_nat_alt word_unat_eq_iff)
qed


text \<open>
  C35. Building succeeds exactly on a non-zero leaf capacity, a fanout of at least two and distinct
  identifiers (for fewer than 2^31 locators, far below the counters' overflow).
\<close>

theorem directory_build_total:
  assumes "length entries < 2 ^ 31"
  shows "(\<exists>pd. directory_build entries c f = Inr pd) \<longleftrightarrow> 0 < c \<and> 2 \<le> f \<and> distinct (map ol_object_id entries)"
proof
  assume "\<exists>pd. directory_build entries c f = Inr pd"
  then obtain pd where pd: "directory_build entries c f = Inr pd" by auto
  then have "0 < c" "2 \<le> f" by (auto simp: directory_build_def split: if_splits)
  moreover have "distinct (keys (sort_key ol_object_id entries))" using build_holds(1) [OF pd] strict_sorted_iff by blast
  ultimately show "0 < c \<and> 2 \<le> f \<and> distinct (keys entries)" by (simp add: keys_sort_distinct)
next
  assume ok: "0 < c \<and> 2 \<le> f \<and> distinct (keys entries)"
  let ?es = "sort_key ol_object_id entries"
  let ?pages = "if ?es = [] then [PageLeaf None []] else map leaf_page (chunks c ?es)"
  have dup: "find_duplicate (windows2 ?es) = None"
    using find_duplicate_Some [of ?es] ok keys_sort_distinct by (cases "find_duplicate (windows2 ?es)") auto
  have "length (chunks c ?es) \<le> length entries"
    using ok length_chunks [of c ?es] ceil_le [of c "length entries" "length entries"] by simp
  then have len: "length ?pages \<le> length entries + 1" by auto
  have num: "2 * (n - 1) < 2 ^ 64 \<and> 1 + n < (2 :: nat) ^ 32 \<and> n + 2 * (n - 1) < 2 ^ 64" if "n \<le> length entries + 1" for n
    using that assms by (simp, linarith)
  then obtain pages L n depth where run: "build_levels f ?pages [0..<length ?pages] 0 1 = Inr (pages, L, n, depth)"
    "length pages \<le> length ?pages + 2 * (length ?pages - 1)"
    using build_levels_Ok [of f 0 "[0..<length ?pages]" 1 ?pages] ok num [OF len] by (simp del: upt_Suc) blast
  have small: "length ?pages < 2 ^ 64" "length pages < 2 ^ 64" "length entries < 2 ^ 64"
    using run(2) num [OF len] assms by (linarith, linarith, simp)
  show "\<exists>pd. directory_build entries c f = Inr pd"
    using ok dup run(1) small by (auto simp: directory_build_def Let_def u64_try_from_def simp del: upt_Suc split: if_splits)
qed

text \<open>
  C34. The validator accepts every directory the builder makes, with a budget of at least its pages: every
  page is well formed, its children's ranges are the ranges of those pages, and no page is reached twice.
\<close>

theorem directory_validate_accepts:
  assumes "directory_build entries c f = Inr pd" and "dst_pages (pd_stats pd) \<le> max_pages"
  shows "directory_validate pd max_pages = Inr ()"
proof -
  have "unat (dst_pages (pd_stats pd)) = length (pd_pages pd)" using build_stats [OF assms(1)] by simp
  then have mx: "length (pd_pages pd) \<le> unat max_pages" using assms(2) by (simp add: word_le_nat_alt)
  then have lim: "\<not> over_limit max_pages (length (pd_pages pd))" by (simp add: over_limit_iff)
  have "validate_pages (pd_pages pd) (pd_pages pd) = Inr () \<and> reachable_loop (pd_pages pd) max_pages [pd_root pd] {} = Inr ()"
  proof (cases "entries = []")
    case True
    then have "pd_pages pd = [PageLeaf None []]" "pd_root pd = 0" using build_holds(2) [OF assms(1)] by auto
    then show ?thesis using over_limit_iff [of max_pages 1] mx by (simp add: over_limit_def slice_get_def Let_def)
  next
    case False
    then obtain ps where h: "holds (pd_pages pd) (unat (dst_depth (pd_stats pd))) (pd_root pd) (sort_key ol_object_id entries) ps"
      and ps: "mset ps = mset [0..<length (pd_pages pd)]" using build_holds(2) [OF assms(1)] by (auto simp del: mset_upt)
    then have facts: "set ps = {0..<length (pd_pages pd)}" "distinct ps" "length ps = length (pd_pages pd)"
      using mset_eq_setD [OF ps] mset_eq_imp_distinct_iff [OF ps] mset_eq_length [OF ps] by simp_all
    have "validate_pages (pd_pages pd) (pd_pages pd) = Inr ()"
      using holds_pages [OF h build_holds(1) [OF assms(1)]] facts(1) by (intro validate_pages_Ok) (auto simp: in_set_conv_nth)
    moreover have "forest (pd_pages pd) [(pd_root pd, sort_key ol_object_id entries, ps)]" using h by (auto simp: forest_def)
    ultimately show ?thesis using reachable_loop_forest [of "pd_pages pd" "[(pd_root pd, sort_key ol_object_id entries, ps)]" "{}" max_pages] facts mx by simp
  qed
  then show ?thesis using lim by (simp add: directory_validate_def validate_reachable_def over_limit_def)
qed

text \<open>
  Whatever the pages of a directory, a lookup that returns has read at least one page and at most
  its budget, and a locator it returns has the identifier looked up and lies in a leaf of the directory.
\<close>

theorem directory_lookup_sound:
  assumes "directory_lookup pd k max_pages = Inr res"
  shows "0 < lr_pages_read res \<and> lr_pages_read res \<le> max_pages \<and>
    (\<forall>e. lr_locator res = Some e \<longrightarrow> ol_object_id e = k \<and> (\<exists>r es. PageLeaf r es \<in> set (pd_pages pd) \<and> e \<in> set es))"
  using lookup_loop_sound [OF assms [unfolded directory_lookup_def]] by simp

text \<open>
  C36. The closed estimate is exact where its rounded-up divisions do not overflow: for a directory that is
  built, when the number of locators plus the leaf capacity, and plus the fanout and one, stay below 2^64,
  \<open>estimate_shape\<close> of the number of locators returns the statistics of the pages really built. (Beyond
  that the two disagree, see \<open>estimate_shape_overflow\<close>.)
\<close>

theorem estimate_shape_exact:
  assumes "directory_build entries c f = Inr pd" and "length entries + c < 2 ^ 64" and "length entries + f + 1 < 2 ^ 64"
  shows "estimate_shape (of_nat (length entries)) (of_nat c) (of_nat f) = Inr (pd_stats pd)"
proof -
  define es where "es = sort_key ol_object_id entries"
  then have len: "length es = length entries" by simp
  let ?pages = "if es = [] then [PageLeaf None []] else map leaf_page (chunks c es)"
  from assms(1) obtain pages L n depth where cf: "0 < c" "2 \<le> f"
    and run: "build_levels f ?pages [0..<length ?pages] 0 1 = Inr (pages, L, n, depth)"
    and pd: "pd_stats pd = \<lparr>dst_entries = of_nat (length entries), dst_pages = of_nat (length pages), dst_leaf_pages = of_nat (length ?pages),
      dst_internal_pages = n, dst_depth = depth\<rparr>" and small: "length pages < 2 ^ 64"
    by (auto simp: directory_build_def Let_def u64_try_from_def es_def [symmetric] len [symmetric] simp del: upt_Suc split: if_split_asm option.split_asm sum.split_asm prod.split_asm)
  have u: "unat (of_nat c :: u64) = c" "unat (of_nat f :: u64) = f" "unat (of_nat (length entries) :: u64) = length entries"
    using assms(2,3) by simp_all
  have "(of_nat c :: u64) \<noteq> 0" "\<not> (of_nat f :: u64) < 2" using u cf by (auto simp: word_unat_eq_iff word_less_nat_alt)
  moreover have "(if of_nat (length entries) = (0 :: u64) then Inr 1 else div_ceil (of_nat (length entries)) (of_nat c)) = Inr (of_nat (length ?pages))"
  proof (cases "entries = []")
    case False
    then have "(of_nat (length entries) :: u64) \<noteq> 0" using u(3) by (auto simp: word_unat_eq_iff)
    moreover have "es \<noteq> []" using False len by auto
    ultimately show ?thesis using div_ceil_of_nat [OF assms(2) cf(1)] length_chunks [OF cf(1), of es] len by simp
  qed (use len in simp)
  moreover have "length ?pages + f < 2 ^ 64"
  proof (cases "entries = []")
    case False
    then have "length (chunks c es) \<le> length entries"
      using length_chunks [OF cf(1), of es] ceil_le [OF cf(1), of "length entries" "length entries"] cf(1) len by simp
    moreover have "es \<noteq> []" using False len by auto
    ultimately show ?thesis using assms(3) by simp
  qed (use assms(3) len in simp)
  then have "estimate_loop (of_nat f) (of_nat (length ?pages)) (of_nat (length ?pages)) 0 1 = Inr (of_nat (length pages), n, depth)"
    using build_levels_shape [OF run cf(2) _ small] by simp
  ultimately show ?thesis by (simp add: estimate_shape_def pd)
qed

section \<open>Witnesses\<close>

definition sample_locator :: "u64 \<Rightarrow> object_locator" where
  "sample_locator i = \<lparr>ol_object_id = i, ol_kind = 1, ol_offset = 64 * i, ol_stored_len = 64, ol_logical_len = 64\<rparr>"

definition sample_locators :: "object_locator list" where
  "sample_locators = map sample_locator [5, 3, 9, 7, 1]"

lemmas directory_eval = directory_build_def sample_locators_def sample_locator_def chunks.simps build_levels.simps Let_def
  u64_try_from_def leaf_page_def internal_page_def checked_add_def upt_rec

lemma sample_directory:
  obtains pd where "directory_build sample_locators 2 2 = Inr pd" "dst_depth (pd_stats pd) = 3" "dst_pages (pd_stats pd) = 6"
proof -
  have "case directory_build sample_locators 2 2 of Inr pd \<Rightarrow> dst_depth (pd_stats pd) = 3 \<and> dst_pages (pd_stats pd) = 6 | Inl _ \<Rightarrow> False"
    by (simp add: directory_eval)
  then show ?thesis using that by (auto split: sum.splits)
qed

lemma directory_lookup_correct_witness:
  "\<exists>pd. directory_build sample_locators 2 2 = Inr pd \<and>
     directory_lookup pd 7 3 = Inr \<lparr>lr_locator = Some (sample_locator 7), lr_pages_read = 3\<rparr>"
proof -
  obtain pd where pd: "directory_build sample_locators 2 2 = Inr pd" "dst_depth (pd_stats pd) = 3" by (rule sample_directory)
  moreover have "find_locator 7 sample_locators = Some (sample_locator 7)" by (simp add: sample_locators_def sample_locator_def)
  ultimately show ?thesis using directory_lookup_correct [OF pd(1), of 3 7] by auto
qed

lemma directory_build_total_witness:
  "length sample_locators < 2 ^ 31 \<and> (\<exists>pd. directory_build sample_locators 3 4 = Inr pd) \<and>
     (\<nexists>pd. directory_build (sample_locator 5 # sample_locators) 3 4 = Inr pd)"
  using directory_build_total [of sample_locators 3 4] directory_build_total [of "sample_locator 5 # sample_locators" 3 4]
  by (simp add: sample_locators_def sample_locator_def)

lemma directory_validate_accepts_witness:
  "\<exists>pd. directory_build sample_locators 2 2 = Inr pd \<and> directory_validate pd 6 = Inr ()"
proof -
  obtain pd where pd: "directory_build sample_locators 2 2 = Inr pd" "dst_pages (pd_stats pd) = 6" by (rule sample_directory)
  then show ?thesis using directory_validate_accepts [OF pd(1), of 6] by simp
qed

definition sample_leaf :: paged_directory where
  "sample_leaf = \<lparr>pd_pages = [leaf_page (map sample_locator [3, 5])], pd_root = 0,
     pd_stats = \<lparr>dst_entries = 2, dst_pages = 1, dst_leaf_pages = 1, dst_internal_pages = 0, dst_depth = 1\<rparr>\<rparr>"

lemma directory_lookup_sound_witness:
  "directory_lookup sample_leaf 5 4 = Inr \<lparr>lr_locator = Some (sample_locator 5), lr_pages_read = 1\<rparr> \<and> (0 :: u32) < 1 \<and> (1 :: u32) \<le> 4"
proof -
  have run: "directory_lookup sample_leaf 5 4 = Inr \<lparr>lr_locator = Some (sample_locator 5), lr_pages_read = 1\<rparr>"
    by (simp add: directory_lookup_def sample_leaf_def leaf_page_def sample_locator_def lookup_loop.simps slice_get_def checked_add_def
        kr_is_valid_def binary_search_by_key_def search_loop.simps Let_def)
  show ?thesis using run directory_lookup_sound [OF run] by simp
qed

text \<open>
  With the largest leaf capacity the builder puts two locators into one leaf, while the rounded-up division of
  the estimate adds the capacity to the number of locators first and reports an overflow.
\<close>

lemma estimate_shape_overflow:
  "(\<exists>pd. directory_build (map sample_locator [3, 5]) 18446744073709551615 2 = Inr pd) \<and>
     estimate_shape 2 18446744073709551615 2 = Inl ArithmeticOverflow"
  by (simp add: directory_eval estimate_shape_def div_ceil_def)

lemma estimate_shape_exact_witness:
  "\<exists>pd. directory_build sample_locators 2 2 = Inr pd \<and> estimate_shape 5 2 2 = Inr (pd_stats pd)"
proof -
  obtain pd where pd: "directory_build sample_locators 2 2 = Inr pd" by (rule sample_directory)
  then show ?thesis using estimate_shape_exact [OF pd] by (simp add: sample_locators_def)
qed

end
