(* ===== verification/Ucof_Recovery.thy ===== *)
theory Ucof_Recovery
  imports Ucof_Error
begin

text \<open>
  \<open>ucof-experiments/src/recovery.rs\<close>: the bounded backward scan for candidates behind a magic. The
  validator is a closure of the caller, a parameter that maps an offset, the candidate bytes and its
  captured state to a result and the next state.
\<close>

section \<open>Data\<close>

record recovery_scan_limits =
  rs_max_scan_bytes :: usize
  rs_max_magic_candidates :: usize
  rs_max_validations :: usize
  rs_max_results :: usize

definition recovery_scan_limits_default :: recovery_scan_limits where
  "recovery_scan_limits_default =
     \<lparr>rs_max_scan_bytes = 64 * 1024, rs_max_magic_candidates = 128, rs_max_validations = 64, rs_max_results = 32\<rparr>"

datatype recovery_scan_error =
    EmptyMagic | CandidateShorterThanMagic | MagicCandidateLimitExceeded | ValidationLimitExceeded | ScanResultLimitExceeded

fun recovery_scan_display :: "recovery_scan_error \<Rightarrow> string" where
  "recovery_scan_display EmptyMagic = ''recovery magic must not be empty''"
| "recovery_scan_display CandidateShorterThanMagic = ''recovery candidate is shorter than its magic''"
| "recovery_scan_display MagicCandidateLimitExceeded = ''recovery magic-candidate limit exceeded''"
| "recovery_scan_display ValidationLimitExceeded = ''recovery candidate-validation limit exceeded''"
| "recovery_scan_display ScanResultLimitExceeded = ''recovery result limit exceeded''"

record 'a scanned_candidate =
  sc_offset :: usize
  sc_value :: 'a

record 'a recovery_scan_report =
  sr_candidates :: "'a scanned_candidate list"
  sr_bytes_in_search_window :: usize
  sr_magic_matches :: usize
  sr_validations :: usize
  sr_earlier_bytes_unsearched :: bool

type_synonym ('a, 's) validator = "usize \<Rightarrow> bytes \<Rightarrow> 's \<Rightarrow> 'a option \<times> 's"

section \<open>Operations\<close>

definition has_exact_end_candidate :: "bytes \<Rightarrow> bytes \<Rightarrow> usize \<Rightarrow> bool" where
  "has_exact_end_candidate source magic candidate_len =
     (if magic = [] \<or> candidate_len < length magic \<or> length source < candidate_len then False else
      let offset = length source - candidate_len in
      case byte_get source offset (offset + length magic) of
        None \<Rightarrow> False
      | Some candidate_magic \<Rightarrow> candidate_magic = magic)"

fun scan_offsets :: "bytes \<Rightarrow> bytes \<Rightarrow> usize \<Rightarrow> recovery_scan_limits \<Rightarrow> ('a, 's) validator \<Rightarrow> usize list
    \<Rightarrow> 'a recovery_scan_report \<Rightarrow> 's \<Rightarrow> (recovery_scan_error + 'a recovery_scan_report) \<times> 's" where
  "scan_offsets source magic candidate_len lim validate [] report s = (Inr report, s)"
| "scan_offsets source magic candidate_len lim validate (offset # offsets) report s =
     (case byte_get source offset (offset + length magic) of
        None \<Rightarrow> scan_offsets source magic candidate_len lim validate offsets report s
      | Some candidate_magic \<Rightarrow>
        if candidate_magic \<noteq> magic then scan_offsets source magic candidate_len lim validate offsets report s else
        (case usize_checked_add (sr_magic_matches report) 1 of
           None \<Rightarrow> (Inl MagicCandidateLimitExceeded, s)
         | Some magic_matches \<Rightarrow>
           let report = report\<lparr>sr_magic_matches := magic_matches\<rparr> in
           if sr_magic_matches report > rs_max_magic_candidates lim then (Inl MagicCandidateLimitExceeded, s) else
           (case usize_checked_add (sr_validations report) 1 of
              None \<Rightarrow> (Inl ValidationLimitExceeded, s)
            | Some validations \<Rightarrow>
              let report = report\<lparr>sr_validations := validations\<rparr> in
              if sr_validations report > rs_max_validations lim then (Inl ValidationLimitExceeded, s) else
              let candidate = take candidate_len (drop offset source) in
              (case validate offset candidate s of
                 (None, s) \<Rightarrow> scan_offsets source magic candidate_len lim validate offsets report s
               | (Some v, s) \<Rightarrow>
                 if length (sr_candidates report) \<ge> rs_max_results lim then (Inl ScanResultLimitExceeded, s) else
                 scan_offsets source magic candidate_len lim validate offsets
                   (report\<lparr>sr_candidates := sr_candidates report @ [\<lparr>sc_offset = offset, sc_value = v\<rparr>]\<rparr>) s))))"

definition scan_backwards :: "bytes \<Rightarrow> bytes \<Rightarrow> usize \<Rightarrow> recovery_scan_limits \<Rightarrow> ('a, 's) validator \<Rightarrow> 's
    \<Rightarrow> (recovery_scan_error + 'a recovery_scan_report) \<times> 's" where
  "scan_backwards source magic candidate_len lim validate s =
     (if magic = [] then (Inl EmptyMagic, s) else
      if candidate_len < length magic then (Inl CandidateShorterThanMagic, s) else
      let scan_start = length source - rs_max_scan_bytes lim;
          report = \<lparr>sr_candidates = [], sr_bytes_in_search_window = length source - scan_start, sr_magic_matches = 0,
            sr_validations = 0, sr_earlier_bytes_unsearched = (scan_start > 0)\<rparr> in
      if candidate_len > length source \<or> rs_max_scan_bytes lim = 0 then (Inr report, s) else
      let last_start = length source - candidate_len in
      if last_start < scan_start then (Inr report, s) else
      scan_offsets source magic candidate_len lim validate (rev [scan_start..<Suc last_start]) report s)"

section \<open>Specification\<close>

text \<open>The offsets of the window at which a complete candidate with the magic begins, newest first, and
  what the validator makes of them in this order.\<close>

definition candidate_at :: "bytes \<Rightarrow> bytes \<Rightarrow> usize \<Rightarrow> usize \<Rightarrow> bool" where
  "candidate_at source magic candidate_len offset \<longleftrightarrow>
     offset + candidate_len \<le> length source \<and> take (length magic) (drop offset source) = magic"

definition magic_offsets :: "bytes \<Rightarrow> bytes \<Rightarrow> usize \<Rightarrow> usize \<Rightarrow> usize list" where
  "magic_offsets source magic candidate_len window =
     rev (filter (candidate_at source magic candidate_len) [length source - window..<length source])"

fun run_validator :: "bytes \<Rightarrow> usize \<Rightarrow> ('a, 's) validator \<Rightarrow> usize list \<Rightarrow> 's \<Rightarrow> 'a scanned_candidate list" where
  "run_validator source candidate_len validate [] s = []"
| "run_validator source candidate_len validate (offset # offsets) s =
     (case validate offset (take candidate_len (drop offset source)) s of
        (None, s) \<Rightarrow> run_validator source candidate_len validate offsets s
      | (Some v, s) \<Rightarrow> \<lparr>sc_offset = offset, sc_value = v\<rparr> # run_validator source candidate_len validate offsets s)"

lemma byte_get_magic:
  assumes "offset + candidate_len \<le> length source" and "length magic \<le> candidate_len"
  shows "byte_get source offset (offset + length magic) = Some (take (length magic) (drop offset source))"
  using assms by (simp add: byte_get_def)

lemma length_run_validator: "length (run_validator source n validate os s) \<le> length os"
  by (induction os arbitrary: s) (auto intro: le_SucI split: prod.splits option.splits)

lemma scan_offsets_Ok:
  fixes rep :: "'a recovery_scan_report"
  assumes "length magic \<le> n" and "\<forall>x \<in> set os. x + n \<le> length source" and "length os + sr_magic_matches rep < 2 ^ 64"
    and "sr_validations rep = sr_magic_matches rep" and "sr_magic_matches rep \<le> rs_max_magic_candidates lim"
    and "sr_validations rep \<le> rs_max_validations lim" and "length (sr_candidates rep) \<le> rs_max_results lim"
  shows "fst (scan_offsets source magic n lim validate os rep s) = Inr rep' \<longleftrightarrow>
    (let ms = filter (candidate_at source magic n) os; cs = run_validator source n validate ms s in
     sr_magic_matches rep + length ms \<le> rs_max_magic_candidates lim \<and> sr_validations rep + length ms \<le> rs_max_validations lim \<and>
     length (sr_candidates rep) + length cs \<le> rs_max_results lim \<and>
     rep' = rep\<lparr>sr_candidates := sr_candidates rep @ cs, sr_magic_matches := sr_magic_matches rep + length ms,
       sr_validations := sr_validations rep + length ms\<rparr>)"
  using assms(2-7)
proof (induction os arbitrary: rep s)
  case (Cons x os)
  have x: "byte_get source x (x + length magic) = Some (take (length magic) (drop x source))"
    using Cons.prems(1) assms(1) by (intro byte_get_magic) auto
  have cand: "candidate_at source magic n x \<longleftrightarrow> take (length magic) (drop x source) = magic"
    using Cons.prems(1) by (simp add: candidate_at_def)
  show ?case
  proof (cases "candidate_at source magic n x")
    case False
    then show ?thesis using Cons x cand by simp
  next
    case True
    obtain v s1 where v: "validate x (take n (drop x source)) s = (v, s1)" by fastforce
    let ?rep = "rep\<lparr>sr_magic_matches := sr_magic_matches rep + 1, sr_validations := sr_validations rep + 1\<rparr>"
    let ?ms = "filter (candidate_at source magic n) os"
    have add: "usize_checked_add (sr_magic_matches rep) 1 = Some (sr_magic_matches rep + 1)"
      using Cons.prems(2) by (simp add: usize_checked_add_def)
    show ?thesis
    proof (cases "sr_magic_matches rep + 1 \<le> rs_max_magic_candidates lim \<and> sr_validations rep + 1 \<le> rs_max_validations lim")
      case False
      then show ?thesis using True x cand add Cons.prems(3) by (auto simp: Let_def)
    next
      case room: True
      have "sr_validations rep + 1 \<le> rs_max_validations lim" "sr_magic_matches rep + 1 \<le> rs_max_magic_candidates lim" using room by auto
      then have step: "scan_offsets source magic n lim validate (x # os) rep s = (case v of
          None \<Rightarrow> scan_offsets source magic n lim validate os ?rep s1
        | Some w \<Rightarrow> if length (sr_candidates rep) \<ge> rs_max_results lim then (Inl ScanResultLimitExceeded, s1) else
            scan_offsets source magic n lim validate os (?rep\<lparr>sr_candidates := sr_candidates rep @ [\<lparr>sc_offset = x, sc_value = w\<rparr>]\<rparr>) s1)"
        using True x cand add Cons.prems(3) v by (simp add: Let_def not_less split: option.splits)
      show ?thesis
      proof (cases v)
        case None
        have "fst (scan_offsets source magic n lim validate os ?rep s1) = Inr rep' \<longleftrightarrow>
            (let ms = ?ms; cs = run_validator source n validate ms s1 in
             sr_magic_matches ?rep + length ms \<le> rs_max_magic_candidates lim \<and> sr_validations ?rep + length ms \<le> rs_max_validations lim \<and>
             length (sr_candidates ?rep) + length cs \<le> rs_max_results lim \<and>
             rep' = ?rep\<lparr>sr_candidates := sr_candidates ?rep @ cs, sr_magic_matches := sr_magic_matches ?rep + length ms,
               sr_validations := sr_validations ?rep + length ms\<rparr>)"
          using Cons.prems room by (intro Cons.IH) auto
        then show ?thesis using step None True v by (simp add: Let_def)
      next
        case (Some w)
        let ?rep2 = "?rep\<lparr>sr_candidates := sr_candidates rep @ [\<lparr>sc_offset = x, sc_value = w\<rparr>]\<rparr>"
        show ?thesis
        proof (cases "length (sr_candidates rep) \<ge> rs_max_results lim")
          case full: True
          then show ?thesis using step Some True v by (simp add: Let_def)
        next
          case False
          have "fst (scan_offsets source magic n lim validate os ?rep2 s1) = Inr rep' \<longleftrightarrow>
            (let ms = ?ms; cs = run_validator source n validate ms s1 in
             sr_magic_matches ?rep2 + length ms \<le> rs_max_magic_candidates lim \<and> sr_validations ?rep2 + length ms \<le> rs_max_validations lim \<and>
             length (sr_candidates ?rep2) + length cs \<le> rs_max_results lim \<and>
             rep' = ?rep2\<lparr>sr_candidates := sr_candidates ?rep2 @ cs, sr_magic_matches := sr_magic_matches ?rep2 + length ms,
               sr_validations := sr_validations ?rep2 + length ms\<rparr>)"
            using Cons.prems room False by (intro Cons.IH) auto
          then show ?thesis using step Some True v False by (simp add: Let_def)
        qed
      qed
    qed
  qed
qed auto

lemma filter_window:
  assumes "n \<le> length source" and "0 < n"
  shows "filter (candidate_at source magic n) [a..<length source] = filter (candidate_at source magic n) [a..<Suc (length source - n)]"
proof (cases "a \<le> Suc (length source - n)")
  case True
  have "Suc (length source - n) \<le> length source" using assms by simp
  then have "[a..<length source] = [a..<Suc (length source - n)] @ [Suc (length source - n)..<length source]"
    using True by (metis le_add_diff_inverse upt_add_eq_append)
  moreover have "filter (candidate_at source magic n) [Suc (length source - n)..<length source] = []"
    by (auto simp: filter_empty_conv candidate_at_def)
  ultimately show ?thesis by simp
next
  case False
  then show ?thesis by (auto simp: filter_empty_conv candidate_at_def)
qed

section \<open>Properties\<close>

text \<open>
  C30. The backward scan is exact. With a non-empty magic no longer than a candidate, it succeeds if and
  only if the magic occurs in the window no more often than both limits allow and the validator accepts no
  more candidates than the results allow; the report then counts exactly those occurrences and lists
  exactly the accepted candidates, from the newest offset to the oldest.
\<close>

theorem scan_backwards_exact:
  fixes validate :: "('a, 's) validator"
  assumes "magic \<noteq> []" and "length magic \<le> candidate_len" and "length source < 2 ^ 64"
  shows "fst (scan_backwards source magic candidate_len lim validate s) = Inr rep \<longleftrightarrow>
    (let ms = magic_offsets source magic candidate_len (rs_max_scan_bytes lim);
         cs = run_validator source candidate_len validate ms s in
     length ms \<le> rs_max_magic_candidates lim \<and> length ms \<le> rs_max_validations lim \<and> length cs \<le> rs_max_results lim \<and>
     rep = \<lparr>sr_candidates = cs, sr_bytes_in_search_window = min (length source) (rs_max_scan_bytes lim), sr_magic_matches = length ms,
       sr_validations = length ms, sr_earlier_bytes_unsearched = (rs_max_scan_bytes lim < length source)\<rparr>)"
proof -
  let ?n = candidate_len and ?start = "length source - rs_max_scan_bytes lim"
  let ?r = "\<lparr>sr_candidates = [], sr_bytes_in_search_window = length source - ?start, sr_magic_matches = 0,
            sr_validations = 0, sr_earlier_bytes_unsearched = (?start > 0)\<rparr> :: 'a recovery_scan_report"
  have n: "0 < ?n" using assms(1,2) by (cases magic) auto
  have window: "length source - ?start = min (length source) (rs_max_scan_bytes lim)" by simp
  show ?thesis
  proof (cases "?n > length source \<or> rs_max_scan_bytes lim = 0 \<or> length source - ?n < ?start")
    case True
    then have "magic_offsets source magic ?n (rs_max_scan_bytes lim) = []"
      by (auto simp: magic_offsets_def filter_empty_conv candidate_at_def)
    moreover have "scan_backwards source magic ?n lim validate s = (Inr ?r, s)"
      using True assms(1,2) by (auto simp: scan_backwards_def Let_def not_less)
    ultimately show ?thesis using window by (auto simp: Let_def)
  next
    case False
    have ms: "magic_offsets source magic ?n (rs_max_scan_bytes lim) = filter (candidate_at source magic ?n) (rev [?start..<Suc (length source - ?n)])"
      using filter_window [of ?n source magic ?start] False n by (simp add: magic_offsets_def rev_filter del: upt_Suc)
    have "scan_backwards source magic ?n lim validate s =
        scan_offsets source magic ?n lim validate (rev [?start..<Suc (length source - ?n)]) ?r s"
      using False assms(1,2) by (simp add: scan_backwards_def Let_def not_less del: upt_Suc)
    moreover have "fst (scan_offsets source magic ?n lim validate (rev [?start..<Suc (length source - ?n)]) ?r s) = Inr rep \<longleftrightarrow>
      (let ms = filter (candidate_at source magic ?n) (rev [?start..<Suc (length source - ?n)]); cs = run_validator source ?n validate ms s in
     sr_magic_matches ?r + length ms \<le> rs_max_magic_candidates lim \<and> sr_validations ?r + length ms \<le> rs_max_validations lim \<and>
     length (sr_candidates ?r) + length cs \<le> rs_max_results lim \<and>
     rep = ?r\<lparr>sr_candidates := sr_candidates ?r @ cs, sr_magic_matches := sr_magic_matches ?r + length ms,
       sr_validations := sr_validations ?r + length ms\<rparr>)"
      using False n assms(2,3) by (intro scan_offsets_Ok) auto
    ultimately show ?thesis unfolding ms using window by (auto simp: Let_def simp del: upt_Suc)
  qed
qed

lemma magic_offsets_newest:
  assumes "candidate_at source magic n p" and "p < length source" and "length source - window \<le> p" and "\<forall>x > p. \<not> candidate_at source magic n x"
  shows "\<exists>rest. magic_offsets source magic n window = p # rest"
proof -
  let ?P = "candidate_at source magic n" and ?a = "length source - window"
  have "[?a..<length source] = [?a..<p] @ [p..<length source]" using assms(2,3) by (metis le_add_diff_inverse less_imp_le upt_add_eq_append)
  also have "[p..<length source] = p # [Suc p..<length source]" using assms(2) by (rule upt_conv_Cons)
  finally have "filter ?P [?a..<length source] = filter ?P [?a..<p] @ [p]" using assms(1,4) by (simp add: filter_empty_conv)
  then show ?thesis by (simp add: magic_offsets_def)
qed

text \<open>
  C37. An interrupted append never hides the last committed candidate. Whatever bytes follow it, as long as
  no later candidate carries the magic and the window reaches back to it, a successful scan lists it
  first; and the strict check at the end of the file holds exactly when nothing follows it.
\<close>

theorem interrupted_append_recovered:
  assumes "source = committed @ candidate @ rest" and "magic \<noteq> []" and "take (length magic) candidate = magic" and "length source < 2 ^ 64"
    and "length candidate + length rest \<le> rs_max_scan_bytes lim"
    and "\<forall>x > length committed. \<not> candidate_at source magic (length candidate) x"
    and "validate (length committed) candidate s = (Some v, s')"
    and "fst (scan_backwards source magic (length candidate) lim validate s) = Inr rep"
  shows "(\<exists>older. sr_candidates rep = \<lparr>sc_offset = length committed, sc_value = v\<rparr> # older) \<and>
    (has_exact_end_candidate source magic (length candidate) \<longleftrightarrow> rest = [])"
proof
  let ?n = "length candidate"
  have len: "length magic \<le> ?n" using arg_cong [OF assms(3), of length] by (simp add: min_def split: if_splits)
  then have n: "0 < ?n" using assms(2) by (cases magic) auto
  have at: "candidate_at source magic ?n (length committed)"
    using assms(3) len by (simp add: candidate_at_def assms(1))
  have "length committed < length source" "length source - rs_max_scan_bytes lim \<le> length committed" using n assms(5) by (simp_all add: assms(1))
  then obtain older where "magic_offsets source magic ?n (rs_max_scan_bytes lim) = length committed # older"
    using magic_offsets_newest [OF at _ _ assms(6), of "rs_max_scan_bytes lim"] by auto
  then show "\<exists>older. sr_candidates rep = \<lparr>sc_offset = length committed, sc_value = v\<rparr> # older"
    using scan_backwards_exact [OF assms(2) len assms(4), of lim validate s rep] assms(8,7) by (auto simp: Let_def assms(1))
  show "has_exact_end_candidate source magic ?n \<longleftrightarrow> rest = []"
  proof
    assume "has_exact_end_candidate source magic ?n"
    then have "candidate_at source magic ?n (length source - ?n)"
      by (auto simp: has_exact_end_candidate_def candidate_at_def byte_get_def Let_def split: if_splits)
    then have "length source - ?n \<le> length committed" using assms(6) not_le by blast
    then show "rest = []" by (simp add: assms(1))
  next
    assume "rest = []"
    then show "has_exact_end_candidate source magic ?n"
      using len assms(2,3) by (simp add: has_exact_end_candidate_def assms(1) byte_get_def)
  qed
qed

section \<open>Witnesses\<close>

definition sample_scan_source :: bytes where
  "sample_scan_source = [7, 7] @ [82, 1, 5] @ [9]"

definition sample_validator :: "(byte, unit) validator" where
  "sample_validator x c s = (if length c = 3 then Some (c ! 2) else None, s)"

lemmas scan_eval = scan_backwards_def sample_scan_source_def sample_validator_def recovery_scan_limits_default_def
  byte_get_def usize_checked_add_def Let_def upt_rec candidate_at_def magic_offsets_def

definition sample_scan_report :: "byte recovery_scan_report" where
  "sample_scan_report = \<lparr>sr_candidates = [\<lparr>sc_offset = 2, sc_value = 5\<rparr>], sr_bytes_in_search_window = 6, sr_magic_matches = 1,
     sr_validations = 1, sr_earlier_bytes_unsearched = False\<rparr>"

lemma scan_backwards_exact_witness:
  "fst (scan_backwards sample_scan_source [82, 1] 3 recovery_scan_limits_default sample_validator ()) = Inr sample_scan_report"
proof -
  have "length sample_scan_source < 2 ^ 64" by (simp add: sample_scan_source_def)
  then show ?thesis
    using scan_backwards_exact [of "[82, 1]" 3 sample_scan_source recovery_scan_limits_default sample_validator "()" sample_scan_report]
    by (simp add: scan_eval sample_scan_report_def)
qed

lemma interrupted_append_recovered_witness:
  "fst (scan_backwards ([7, 7] @ [82, 1, 5] @ [9]) [82, 1] 3 recovery_scan_limits_default sample_validator ()) = Inr sample_scan_report \<and>
     (\<exists>older. sr_candidates sample_scan_report = \<lparr>sc_offset = 2, sc_value = 5\<rparr> # older) \<and>
     \<not> has_exact_end_candidate ([7, 7] @ [82, 1, 5] @ [9]) [82, 1] 3"
proof -
  have none: "\<forall>x > length [7, 7 :: byte]. \<not> candidate_at ([7, 7] @ [82, 1, 5] @ [9]) [82, 1] (length [82, 1, 5 :: byte]) x"
    by (auto simp: candidate_at_def le_Suc_eq numeral_3_eq_3 drop_Cons split: nat.splits)
  have run: "fst (scan_backwards ([7, 7] @ [82, 1, 5] @ [9]) [82, 1] (length [82, 1, 5 :: byte]) recovery_scan_limits_default sample_validator ()) = Inr sample_scan_report"
    by (simp add: scan_eval sample_scan_report_def)
  have valid: "sample_validator (length [7, 7 :: byte]) [82, 1, 5] () = (Some 5, ())" by (simp add: sample_validator_def)
  have len: "length [82, 1, 5 :: byte] = 3" "length [7, 7 :: byte] = 2" by simp_all
  have win: "length [82, 1, 5 :: byte] + length [9 :: byte] \<le> rs_max_scan_bytes recovery_scan_limits_default"
    by (simp add: recovery_scan_limits_default_def)
  have "(\<exists>older. sr_candidates sample_scan_report = \<lparr>sc_offset = length [7, 7 :: byte], sc_value = 5\<rparr> # older) \<and>
     (has_exact_end_candidate ([7, 7] @ [82, 1, 5] @ [9]) [82, 1] (length [82, 1, 5 :: byte]) \<longleftrightarrow> [9 :: byte] = [])"
    by (rule interrupted_append_recovered [OF refl _ _ _ win none valid run]) simp_all
  with run show ?thesis unfolding len by simp
qed

end
