(* ===== verification/Ucof_Compaction.thy ===== *)
theory Ucof_Compaction
  imports Ucof_Directory Ucof_Snapshots
begin

text \<open>
  \<open>ucof-experiments/src/compaction.rs\<close> and \<open>repair.rs\<close>: the objects that selected roots reach in the
  dependency graph, and the plan that copies their byte ranges into a new file. A \<open>BTreeMap\<close> is a map and
  the sorted iteration of a \<open>BTreeSet\<close> is \<open>sorted_list_of_set\<close>; the head of a list that models a stack is
  its top.
\<close>

section \<open>Compaction\<close>

record compaction_limits =
  cl_max_nodes :: usize
  cl_max_edges :: usize
  cl_max_depth :: usize

definition compaction_limits_default :: compaction_limits where
  "compaction_limits_default = \<lparr>cl_max_nodes = 1000000, cl_max_edges = 4000000, cl_max_depth = 1024\<rparr>"

datatype compaction_error =
    GraphDuplicateObject u64 | GraphMissingObject u64 | NodeLimitExceeded | EdgeLimitExceeded | DepthLimitExceeded

fun compaction_display :: "compaction_error \<Rightarrow> string" where
  "compaction_display (GraphDuplicateObject i) = ''duplicate object '' @ show_dec (unat i)"
| "compaction_display (GraphMissingObject i) = ''missing object '' @ show_dec (unat i)"
| "compaction_display NodeLimitExceeded = ''compaction node limit exceeded''"
| "compaction_display EdgeLimitExceeded = ''compaction edge limit exceeded''"
| "compaction_display DepthLimitExceeded = ''compaction dependency depth exceeded''"

record object_graph =
  og_dependencies :: "u64 \<rightharpoonup> u64 list"

record compaction_plan =
  cp_selected_roots :: "u64 list"
  cp_reachable :: "u64 list"
  cp_orphaned :: "u64 list"
  cp_edges_visited :: usize
  cp_maximum_depth :: usize

definition graph_new :: object_graph where
  "graph_new = \<lparr>og_dependencies = Map.empty\<rparr>"

text \<open>\<open>insert\<close> replaces the dependencies before the duplicate is reported.\<close>

definition add_object :: "object_graph \<Rightarrow> u64 \<Rightarrow> u64 list \<Rightarrow> (compaction_error + unit) \<times> object_graph" where
  "add_object g object_id dependencies =
     (let g' = g\<lparr>og_dependencies := (og_dependencies g)(object_id \<mapsto> dependencies)\<rparr> in
      if og_dependencies g object_id \<noteq> None then (Inl (GraphDuplicateObject object_id), g') else (Inr (), g'))"

definition object_count :: "object_graph \<Rightarrow> usize" where
  "object_count g = card (dom (og_dependencies g))"

fun push_roots :: "object_graph \<Rightarrow> u64 list \<Rightarrow> (u64 \<times> usize) list \<Rightarrow> compaction_error + (u64 \<times> usize) list" where
  "push_roots g [] stack = Inr stack"
| "push_roots g (root # rest) stack =
     (if og_dependencies g root = None then Inl (GraphMissingObject root) else push_roots g rest ((root, 0) # stack))"

fun push_dependencies :: "object_graph \<Rightarrow> u64 set \<Rightarrow> usize \<Rightarrow> u64 list \<Rightarrow> (u64 \<times> usize) list
    \<Rightarrow> compaction_error + (u64 \<times> usize) list" where
  "push_dependencies g reachable next_depth [] stack = Inr stack"
| "push_dependencies g reachable next_depth (dependency # dependencies) stack =
     (if og_dependencies g dependency = None then Inl (GraphMissingObject dependency) else
      push_dependencies g reachable next_depth dependencies
        (if dependency \<notin> reachable then (dependency, next_depth) # stack else stack))"

lemma unmarked_less: "(x :: u64) \<notin> R \<Longrightarrow> card (- insert x R) < card (- R)"
  by (intro psubset_card_mono) auto

function plan_loop :: "object_graph \<Rightarrow> compaction_limits \<Rightarrow> (u64 \<times> usize) list \<Rightarrow> u64 set \<Rightarrow> usize \<Rightarrow> usize
    \<Rightarrow> compaction_error + (u64 set \<times> usize \<times> usize)" where
  "plan_loop g lim [] reachable edges_visited maximum_depth = Inr (reachable, edges_visited, maximum_depth)"
| "plan_loop g lim ((object_id, depth) # stack) reachable edges_visited maximum_depth =
     (if depth > cl_max_depth lim then Inl DepthLimitExceeded else
      let maximum_depth = max maximum_depth depth in
      if object_id \<in> reachable then plan_loop g lim stack reachable edges_visited maximum_depth else
      if card reachable \<ge> cl_max_nodes lim then Inl NodeLimitExceeded else
      let reachable = insert object_id reachable in
      case og_dependencies g object_id of
        None \<Rightarrow> Inl (GraphMissingObject object_id)
      | Some dependencies \<Rightarrow>
        (case usize_checked_add edges_visited (length dependencies) of
           None \<Rightarrow> Inl EdgeLimitExceeded
         | Some edges_visited \<Rightarrow>
           if edges_visited > cl_max_edges lim then Inl EdgeLimitExceeded else
           (case usize_checked_add depth 1 of
              None \<Rightarrow> Inl DepthLimitExceeded
            | Some next_depth \<Rightarrow>
              (case push_dependencies g reachable next_depth (rev dependencies) stack of
                 Inl e \<Rightarrow> Inl e
               | Inr stack \<Rightarrow> plan_loop g lim stack reachable edges_visited maximum_depth))))"
  by pat_completeness auto
termination
  by (relation "inv_image (less_than <*lex*> less_than) (\<lambda>(g, lim, st, R, e, d). (card (- R), length st))")
    (auto intro: unmarked_less)

declare plan_loop.simps(2) [simp del]

definition graph_plan :: "object_graph \<Rightarrow> u64 list \<Rightarrow> compaction_limits \<Rightarrow> compaction_error + compaction_plan" where
  "graph_plan g selected_roots lim =
     (case push_roots g (rev selected_roots) [] of
        Inl e \<Rightarrow> Inl e
      | Inr stack \<Rightarrow>
        (case plan_loop g lim stack {} 0 0 of
           Inl e \<Rightarrow> Inl e
         | Inr (reachable, edges_visited, maximum_depth) \<Rightarrow>
           let all_objects = dom (og_dependencies g) in
           Inr \<lparr>cp_selected_roots = selected_roots, cp_reachable = sorted_list_of_set reachable,
             cp_orphaned = sorted_list_of_set (all_objects - reachable), cp_edges_visited = edges_visited,
             cp_maximum_depth = maximum_depth\<rparr>))"

section \<open>Repair\<close>

record repair_limits =
  rp_compaction :: compaction_limits
  rp_max_copy_ranges :: usize
  rp_max_total_copy_bytes :: u64

definition repair_limits_default :: repair_limits where
  "repair_limits_default = \<lparr>rp_compaction = compaction_limits_default, rp_max_copy_ranges = 1000000, rp_max_total_copy_bytes = - 1\<rparr>"

record copy_range =
  cr_object_id :: u64
  cr_offset :: u64
  cr_length :: u64

record repair_plan =
  rp_source_snapshot :: snapshot_identity
  rp_selected_roots :: "u64 list"
  rp_copy_ranges :: "copy_range list"
  rp_orphaned_object_ids :: "u64 list"
  rp_total_copy_bytes :: u64
  rp_requires_new_snapshot_identity :: bool
  rp_preserves_byte_scoped_signatures :: bool

datatype repair_error =
    SourceNotVerified | RepairProgressCheckpoint | DuplicateLocator u64 | MissingLocator u64 | RangeOverflow u64
  | OverlappingRanges u64 u64 | CopyRangeLimitExceeded | CopyByteLimitExceeded | RepairCompaction compaction_error

fun repair_display :: "repair_error \<Rightarrow> string" where
  "repair_display SourceNotVerified = ''repair source snapshot is not verified''"
| "repair_display RepairProgressCheckpoint = ''progress checkpoint cannot be repaired as a snapshot''"
| "repair_display (DuplicateLocator i) = ''duplicate locator for object '' @ show_dec (unat i)"
| "repair_display (MissingLocator i) = ''missing locator for reachable object '' @ show_dec (unat i)"
| "repair_display (RangeOverflow i) = ''physical range overflow for object '' @ show_dec (unat i)"
| "repair_display (OverlappingRanges l r) =
     ''physical ranges overlap for objects '' @ show_dec (unat l) @ '' and '' @ show_dec (unat r)"
| "repair_display CopyRangeLimitExceeded = ''repair copy-range limit exceeded''"
| "repair_display CopyByteLimitExceeded = ''repair copy-byte limit exceeded''"
| "repair_display (RepairCompaction error) = ''repair reachability failure: '' @ compaction_display error"

fun index_locators :: "object_locator list \<Rightarrow> (u64 \<rightharpoonup> object_locator) \<Rightarrow> repair_error + (u64 \<rightharpoonup> object_locator)" where
  "index_locators [] by_id = Inr by_id"
| "index_locators (l # ls) by_id =
     (if by_id (ol_object_id l) \<noteq> None then Inl (DuplicateLocator (ol_object_id l))
      else index_locators ls (by_id(ol_object_id l \<mapsto> l)))"

fun copy_ranges_loop :: "(u64 \<rightharpoonup> object_locator) \<Rightarrow> u64 \<Rightarrow> u64 list \<Rightarrow> copy_range list \<Rightarrow> u64 \<Rightarrow> repair_error + (copy_range list \<times> u64)" where
  "copy_ranges_loop by_id max_bytes [] copy_ranges total_copy_bytes = Inr (copy_ranges, total_copy_bytes)"
| "copy_ranges_loop by_id max_bytes (object_id # ids) copy_ranges total_copy_bytes =
     (case by_id object_id of
        None \<Rightarrow> Inl (MissingLocator object_id)
      | Some locator \<Rightarrow>
        (case checked_add (ol_offset locator) (ol_stored_len locator) of
           None \<Rightarrow> Inl (RangeOverflow object_id)
         | Some _ \<Rightarrow>
           (case checked_add total_copy_bytes (ol_stored_len locator) of
              None \<Rightarrow> Inl CopyByteLimitExceeded
            | Some total_copy_bytes \<Rightarrow>
              if total_copy_bytes > max_bytes then Inl CopyByteLimitExceeded else
              copy_ranges_loop by_id max_bytes ids
                (copy_ranges @ [\<lparr>cr_object_id = object_id, cr_offset = ol_offset locator, cr_length = ol_stored_len locator\<rparr>])
                total_copy_bytes)))"

fun check_overlaps :: "(copy_range \<times> copy_range) list \<Rightarrow> repair_error + unit" where
  "check_overlaps [] = Inr ()"
| "check_overlaps ((l, r) # pairs) =
     (case checked_add (cr_offset l) (cr_length l) of
        None \<Rightarrow> Inl (RangeOverflow (cr_object_id l))
      | Some left_end \<Rightarrow>
        if left_end > cr_offset r then Inl (OverlappingRanges (cr_object_id l) (cr_object_id r)) else check_overlaps pairs)"

definition repair_build :: "snapshot_candidate \<Rightarrow> u64 list \<Rightarrow> object_graph \<Rightarrow> object_locator list \<Rightarrow> repair_limits
    \<Rightarrow> repair_error + repair_plan" where
  "repair_build snapshot selected_roots graph locators lim =
     (if sn_status snapshot \<noteq> CsVerified then Inl SourceNotVerified else
      if sn_checkpoint snapshot = CkProgress then Inl RepairProgressCheckpoint else
      case graph_plan graph selected_roots (rp_compaction lim) of
        Inl e \<Rightarrow> Inl (RepairCompaction e)
      | Inr reachability \<Rightarrow>
        if length (cp_reachable reachability) > rp_max_copy_ranges lim then Inl CopyRangeLimitExceeded else
        (case index_locators locators Map.empty of
           Inl e \<Rightarrow> Inl e
         | Inr by_id \<Rightarrow>
           (case copy_ranges_loop by_id (rp_max_total_copy_bytes lim) (cp_reachable reachability) [] 0 of
              Inl e \<Rightarrow> Inl e
            | Inr (copy_ranges, total_copy_bytes) \<Rightarrow>
              let copy_ranges = sort_key (\<lambda>r. (cr_offset r, cr_object_id r)) copy_ranges in
              (case check_overlaps (windows2 copy_ranges) of
                 Inl e \<Rightarrow> Inl e
               | Inr _ \<Rightarrow>
                 Inr \<lparr>rp_source_snapshot = sn_identity snapshot, rp_selected_roots = selected_roots,
                   rp_copy_ranges = copy_ranges, rp_orphaned_object_ids = cp_orphaned reachability,
                   rp_total_copy_bytes = total_copy_bytes, rp_requires_new_snapshot_identity = True,
                   rp_preserves_byte_scoped_signatures = False\<rparr>))))"

end
