(* ===== verification/Ucof_Repair.thy ===== *)
theory Ucof_Repair
  imports Ucof_Compaction Ucof_Root_Selection
begin

text \<open>
  Compaction and repair against their specifications: the marked objects are exactly those that the
  selected roots reach, and a repair plan copies exactly their ranges, in the order of the source and
  without overlap.
\<close>

section \<open>Specification\<close>

definition depends :: "object_graph \<Rightarrow> (u64 \<times> u64) set" where
  "depends g = {(x, y). \<exists>ds. og_dependencies g x = Some ds \<and> y \<in> set ds}"

definition reach :: "object_graph \<Rightarrow> u64 set \<Rightarrow> u64 set" where
  "reach g S = (depends g)\<^sup>* `` S"

definition out_degree :: "object_graph \<Rightarrow> u64 \<Rightarrow> nat" where
  "out_degree g x = (case og_dependencies g x of None \<Rightarrow> 0 | Some ds \<Rightarrow> length ds)"

lemma reach_mono: "S \<subseteq> T \<Longrightarrow> reach g S \<subseteq> reach g T"
  by (auto simp: reach_def)

lemma reach_Un: "reach g (S \<union> T) = reach g S \<union> reach g T"
  by (auto simp: reach_def)

lemma reach_self: "S \<subseteq> reach g S"
  by (auto simp: reach_def)

lemma reach_step: "og_dependencies g x = Some ds \<Longrightarrow> reach g (set ds) \<subseteq> reach g (insert x S)"
  by (auto simp: reach_def depends_def intro: converse_rtrancl_into_rtrancl)

lemma reach_closed: "S \<subseteq> R \<Longrightarrow> (\<And>x ds. x \<in> R \<Longrightarrow> og_dependencies g x = Some ds \<Longrightarrow> set ds \<subseteq> R) \<Longrightarrow> reach g S \<subseteq> R"
proof
  fix y assume S: "S \<subseteq> R" and closed: "\<And>x ds. x \<in> R \<Longrightarrow> og_dependencies g x = Some ds \<Longrightarrow> set ds \<subseteq> R" and "y \<in> reach g S"
  then obtain x where "(x, y) \<in> (depends g)\<^sup>*" "x \<in> S" by (auto simp: reach_def)
  then show "y \<in> R"
    by (induction rule: rtrancl_induct) (use S closed in \<open>auto simp: depends_def\<close>)
qed

section \<open>Marking\<close>

lemma push_roots_Ok:
  "push_roots g rs st = Inr st' \<longleftrightarrow> (\<forall>r \<in> set rs. og_dependencies g r \<noteq> None) \<and> st' = rev (map (\<lambda>r. (r, 0)) rs) @ st"
  by (induction rs arbitrary: st) auto

lemma push_dependencies_Ok:
  "push_dependencies g R n ds st = Inr st' \<longleftrightarrow>
     (\<forall>d \<in> set ds. og_dependencies g d \<noteq> None) \<and> st' = rev (map (\<lambda>d. (d, n)) (filter (\<lambda>d. d \<notin> R) ds)) @ st"
  by (induction ds arbitrary: st) auto

text \<open>One marking step of the loop.\<close>

lemma plan_loop_step:
  assumes "x \<notin> R" and "plan_loop g lim ((x, n) # st) R e d = Inr res"
  obtains ds where "og_dependencies g x = Some ds" "n \<le> cl_max_depth lim" "card R < cl_max_nodes lim" "e + length ds \<le> cl_max_edges lim"
    "\<forall>y \<in> set ds. og_dependencies g y \<noteq> None"
    "plan_loop g lim (map (\<lambda>y. (y, n + 1)) (filter (\<lambda>y. y \<notin> insert x R) ds) @ st) (insert x R) (e + length ds) (max d n) = Inr res"
  using assms
  by (subst (asm) plan_loop.simps)
    (auto simp: Let_def push_dependencies_Ok usize_checked_add_def rev_map [symmetric] rev_filter [symmetric] not_less not_le split: if_splits option.splits sum.splits)

lemma plan_loop_skip:
  assumes "x \<in> R" and "plan_loop g lim ((x, n) # st) R e d = Inr res"
  shows "n \<le> cl_max_depth lim" "plan_loop g lim st R e (max d n) = Inr res"
  using assms by (simp_all add: plan_loop.simps Let_def split: if_splits)

lemma plan_loop_Ok_induct [consumes 1, case_names finished skip mark]:
  assumes run: "plan_loop g lim st R e d = Inr res"
    and finished: "\<And>R e d. res = (R, e, d) \<Longrightarrow> P [] R e d"
    and skip: "\<And>x n st R e d. x \<in> R \<Longrightarrow> n \<le> cl_max_depth lim \<Longrightarrow> P st R e (max d n) \<Longrightarrow> P ((x, n) # st) R e d"
    and mark: "\<And>x n st R e d ds. x \<notin> R \<Longrightarrow> og_dependencies g x = Some ds \<Longrightarrow> n \<le> cl_max_depth lim \<Longrightarrow> card R < cl_max_nodes lim \<Longrightarrow>
      e + length ds \<le> cl_max_edges lim \<Longrightarrow> \<forall>y \<in> set ds. og_dependencies g y \<noteq> None \<Longrightarrow>
      P (map (\<lambda>y. (y, n + 1)) (filter (\<lambda>y. y \<notin> insert x R) ds) @ st) (insert x R) (e + length ds) (max d n) \<Longrightarrow> P ((x, n) # st) R e d"
  shows "P st R e d"
  using run
proof (induction "(card (- R), length st)" arbitrary: st R e d rule: wf_induct_rule [OF wf_lex_prod [OF wf_less_than wf_less_than]])
  case less: 1
  show ?case
  proof (cases st)
    case Nil
    then show ?thesis using less.prems finished by simp
  next
    case (Cons t st')
    obtain x n where t: "t = (x, n)" by fastforce
    show ?thesis
    proof (cases "x \<in> R")
      case True
      note sk = plan_loop_skip [OF True less.prems [unfolded Cons t]]
      have "P st' R e (max d n)" by (rule less.hyps [OF _ sk(2)]) (simp add: Cons)
      then show ?thesis using skip [OF True sk(1)] by (simp add: Cons t)
    next
      case False
      from plan_loop_step [OF False less.prems [unfolded Cons t]] obtain ds where ds: "og_dependencies g x = Some ds" "n \<le> cl_max_depth lim" "card R < cl_max_nodes lim"
        "e + length ds \<le> cl_max_edges lim" "\<forall>y \<in> set ds. og_dependencies g y \<noteq> None"
        "plan_loop g lim (map (\<lambda>y. (y, n + 1)) (filter (\<lambda>y. y \<notin> insert x R) ds) @ st') (insert x R) (e + length ds) (max d n) = Inr res" .
      have "P (map (\<lambda>y. (y, n + 1)) (filter (\<lambda>y. y \<notin> insert x R) ds) @ st') (insert x R) (e + length ds) (max d n)"
        by (rule less.hyps [OF _ ds(6)]) (use unmarked_less [OF False] in simp)
      from mark [OF False ds(1-5) this] show ?thesis by (simp add: Cons t)
    qed
  qed
qed

lemma plan_loop_marks:
  assumes "plan_loop g lim st R e d = Inr (R', e', d')"
  shows "R \<union> fst ` set st \<subseteq> R' \<and> R' \<subseteq> R \<union> reach g (fst ` set st) \<and>
    (\<forall>x \<in> R' - R. \<exists>ds. og_dependencies g x = Some ds \<and> set ds \<subseteq> R')"
  using assms
proof (induction rule: plan_loop_Ok_induct)
  case (skip x n st R e d)
  moreover have "reach g (fst ` set st) \<subseteq> reach g (insert x (fst ` set st))" by (intro reach_mono) auto
  ultimately show ?case by auto
next
  case (mark x n st R e d ds)
  let ?st = "map (\<lambda>y. (y, n + 1)) (filter (\<lambda>y. y \<notin> insert x R) ds) @ st"
  have sub: "fst ` set ?st \<subseteq> set ds \<union> fst ` set st" by auto
  have "reach g (fst ` set ?st) \<subseteq> reach g (set ds) \<union> reach g (fst ` set st)" using reach_mono [OF sub] by (simp add: reach_Un)
  also have "\<dots> \<subseteq> reach g (insert x (fst ` set st))" by (intro Un_least reach_step [OF mark(2)] reach_mono subset_insertI)
  finally have "reach g (fst ` set ?st) \<subseteq> reach g (insert x (fst ` set st))" .
  moreover have "x \<in> reach g (insert x (fst ` set st))" using reach_self [of "insert x (fst ` set st)" g] by auto
  moreover have "set ds \<subseteq> R'" using mark(7) by (auto simp: image_Un image_image)
  ultimately show ?case using mark(2,7) by auto
qed auto

lemma plan_loop_counts:
  assumes "plan_loop g lim st R e d = Inr (R', e', d')"
  shows "e' = e + sum (out_degree g) (R' - R) \<and> (R' \<noteq> R \<longrightarrow> card R' \<le> cl_max_nodes lim) \<and> R \<subseteq> R' \<and>
    (e \<le> cl_max_edges lim \<longrightarrow> e' \<le> cl_max_edges lim) \<and> (d \<le> cl_max_depth lim \<longrightarrow> d' \<le> cl_max_depth lim)"
  using assms
proof (induction rule: plan_loop_Ok_induct)
  case (mark x n st R e d ds)
  have "R' - R = insert x (R' - insert x R)" using mark(1,7) by auto
  then have "sum (out_degree g) (R' - R) = out_degree g x + sum (out_degree g) (R' - insert x R)" by simp
  moreover have "out_degree g x = length ds" using mark(2) by (simp add: out_degree_def)
  ultimately show ?case using mark by (auto simp: Suc_le_eq card_insert_if)
qed auto

text \<open>Enough room for every object and every edge is enough for the loop: the depth of an entry of the
  stack never exceeds the number of objects marked so far.\<close>

definition room :: "object_graph \<Rightarrow> compaction_limits \<Rightarrow> bool" where
  "room g lim \<longleftrightarrow> card (dom (og_dependencies g)) \<le> cl_max_nodes lim \<and> card (dom (og_dependencies g)) \<le> cl_max_depth lim \<and>
     sum (out_degree g) (dom (og_dependencies g)) \<le> cl_max_edges lim \<and> sum (out_degree g) (dom (og_dependencies g)) < 2 ^ 64 \<and>
     card (dom (og_dependencies g)) < 2 ^ 64"

definition graph_closed :: "object_graph \<Rightarrow> bool" where
  "graph_closed g \<longleftrightarrow> (\<forall>x ds. og_dependencies g x = Some ds \<longrightarrow> set ds \<subseteq> dom (og_dependencies g))"

lemma plan_loop_total:
  assumes "room g lim" and "graph_closed g" and "R \<subseteq> dom (og_dependencies g)" and "\<forall>(x, n) \<in> set st. x \<in> dom (og_dependencies g) \<and> n \<le> card R"
    and "e = sum (out_degree g) R"
  shows "\<exists>res. plan_loop g lim st R e d = Inr res"
  using assms(3-5)
proof (induction "(card (- R), length st)" arbitrary: st R e d rule: wf_induct_rule [OF wf_lex_prod [OF wf_less_than wf_less_than]])
  case less: 1
  let ?D = "dom (og_dependencies g)"
  show ?case
  proof (cases st)
    case (Cons t st')
    obtain x n where t: "t = (x, n)" by fastforce
    have x: "x \<in> ?D" "n \<le> card R" using less.prems(2) by (auto simp: Cons t)
    have "card R \<le> card ?D" using less.prems(1) by (intro card_mono) auto
    then have n: "n \<le> cl_max_depth lim" using x(2) assms(1) by (simp add: room_def)
    show ?thesis
    proof (cases "x \<in> R")
      case True
      have "\<exists>res. plan_loop g lim st' R e (max d n) = Inr res"
        using less.prems by (intro less.hyps) (auto simp: Cons)
      then show ?thesis using True n by (simp add: Cons t plan_loop.simps Let_def)
    next
      case False
      obtain ds where ds: "og_dependencies g x = Some ds" using x(1) by auto
      have "insert x R \<subseteq> ?D" using x(1) less.prems(1) by simp
      then have c: "card (insert x R) \<le> card ?D" and e: "sum (out_degree g) (insert x R) \<le> sum (out_degree g) ?D"
        by (auto intro: card_mono sum_mono2)
      have "sum (out_degree g) (insert x R) = e + length ds" using False ds less.prems(3) by (simp add: out_degree_def)
      with e have e: "e + length ds \<le> sum (out_degree g) ?D" "e + length ds = sum (out_degree g) (insert x R)" by simp_all
      have "\<forall>y \<in> set ds. og_dependencies g y \<noteq> None" using assms(2) ds by (fastforce simp: graph_closed_def)
      then have push: "push_dependencies g (insert x R) (n + 1) (rev ds) st' =
          Inr (map (\<lambda>y. (y, n + 1)) (filter (\<lambda>y. y \<notin> insert x R) ds) @ st')"
        by (subst push_dependencies_Ok) (simp add: rev_map [symmetric] rev_filter [symmetric])
      have "\<exists>res. plan_loop g lim (map (\<lambda>y. (y, n + 1)) (filter (\<lambda>y. y \<notin> insert x R) ds) @ st') (insert x R) (e + length ds) (max d n) = Inr res"
      proof (rule less.hyps)
        show "((card (- insert x R), length (map (\<lambda>y. (y, n + 1)) (filter (\<lambda>y. y \<notin> insert x R) ds) @ st')), card (- R), length st) \<in> less_than <*lex*> less_than"
          using unmarked_less [OF False] by simp
        show "\<forall>(y, k) \<in> set (map (\<lambda>y. (y, n + 1)) (filter (\<lambda>y. y \<notin> insert x R) ds) @ st'). y \<in> ?D \<and> k \<le> card (insert x R)"
          using assms(2) ds x(2) False less.prems(2) by (fastforce simp: graph_closed_def Cons)
      qed (use \<open>insert x R \<subseteq> ?D\<close> e in auto)
      moreover have "card R < cl_max_nodes lim" "e + length ds \<le> cl_max_edges lim" "e + length ds < 2 ^ 64" "n + 1 < 2 ^ 64"
        using c e False assms(1) x(2) by (auto simp: room_def)
      ultimately show ?thesis
        using False n ds push by (simp add: Cons t plan_loop.simps Let_def usize_checked_add_def not_less)
    qed
  qed simp
qed

section \<open>Repair\<close>

definition locators_by_id :: "object_locator list \<Rightarrow> u64 \<rightharpoonup> object_locator" where
  "locators_by_id ls = map_of (map (\<lambda>l. (ol_object_id l, l)) ls)"

definition range_of_locator :: "object_locator \<Rightarrow> copy_range" where
  "range_of_locator l = \<lparr>cr_object_id = ol_object_id l, cr_offset = ol_offset l, cr_length = ol_stored_len l\<rparr>"

definition range_end :: "copy_range \<Rightarrow> nat" where
  "range_end r = unat (cr_offset r) + unat (cr_length r)"

text \<open>Every range ends before the next begins.\<close>

definition disjoint_ranges :: "copy_range list \<Rightarrow> bool" where
  "disjoint_ranges rs \<longleftrightarrow> sorted_wrt (\<lambda>a b. range_end a \<le> unat (cr_offset b)) rs"

lemma index_locators_Ok:
  "index_locators ls m = Inr m' \<longleftrightarrow> distinct (map ol_object_id ls) \<and> (\<forall>l \<in> set ls. m (ol_object_id l) = None) \<and> m' = m ++ locators_by_id ls"
proof (induction ls arbitrary: m)
  case (Cons l ls)
  have upd: "m(ol_object_id l \<mapsto> l) ++ locators_by_id ls = m ++ locators_by_id (l # ls)" if "ol_object_id l \<notin> ol_object_id ` set ls"
  proof -
    have "ol_object_id l \<notin> dom (locators_by_id ls)" using that by (auto simp: locators_by_id_def dom_map_of_conv_image_fst image_iff)
    then show ?thesis by (simp add: locators_by_id_def map_add_upd_left)
  qed
  have step: "(\<forall>x\<in>set ls. (m(ol_object_id l \<mapsto> l)) (ol_object_id x) = None) \<longleftrightarrow>
      ol_object_id l \<notin> ol_object_id ` set ls \<and> (\<forall>x\<in>set ls. m (ol_object_id x) = None)" by (auto simp: image_iff)
  show ?case
  proof (cases "m (ol_object_id l)")
    case None
    with Cons.IH [of "m(ol_object_id l \<mapsto> l)"] have "index_locators (l # ls) m = Inr m' \<longleftrightarrow> distinct (map ol_object_id ls) \<and>
        (ol_object_id l \<notin> ol_object_id ` set ls \<and> (\<forall>x\<in>set ls. m (ol_object_id x) = None)) \<and> m' = m(ol_object_id l \<mapsto> l) ++ locators_by_id ls"
      unfolding step by (simp add: fun_upd_def)
    then show ?thesis using upd None by auto
  qed simp
qed (auto simp: locators_by_id_def)

lemma locators_by_id_Some: "distinct (map ol_object_id ls) \<Longrightarrow> locators_by_id ls i = Some l \<longleftrightarrow> l \<in> set ls \<and> ol_object_id l = i"
  by (auto simp: locators_by_id_def comp_def dest!: map_of_SomeD intro!: map_of_is_SomeI)

lemma copy_ranges_loop_Ok:
  assumes "\<And>i l. m i = Some l \<Longrightarrow> ol_object_id l = i" and "tot \<le> mx"
  shows "copy_ranges_loop m mx ids rs tot = Inr (rs', tot') \<longleftrightarrow>
    (\<exists>ls. map m ids = map Some ls \<and> (\<forall>l \<in> set ls. unat (ol_offset l) + unat (ol_stored_len l) < 2 ^ 64) \<and>
       unat tot + sum_list (map (\<lambda>l. unat (ol_stored_len l)) ls) \<le> unat mx \<and>
       rs' = rs @ map range_of_locator ls \<and> unat tot' = unat tot + sum_list (map (\<lambda>l. unat (ol_stored_len l)) ls))"
  using assms(2)
proof (induction ids arbitrary: rs tot)
  case Nil
  then show ?case by (auto simp: word_le_nat_alt word_unat_eq_iff)
next
  case (Cons i ids)
  show ?case
  proof (cases "m i")
    case (Some l)
    have i: "ol_object_id l = i" using assms(1) Some .
    have ex: "(\<exists>ls. map m (i # ids) = map Some ls \<and> Q ls) \<longleftrightarrow> (\<exists>ls. map m ids = map Some ls \<and> Q (l # ls))" for Q
      using Some by (auto simp: Cons_eq_map_conv)
    show ?thesis
    proof (cases "unat (ol_offset l) + unat (ol_stored_len l) < 2 ^ 64 \<and> unat tot + unat (ol_stored_len l) \<le> unat mx")
      case True
      have "unat tot + unat (ol_stored_len l) < 2 ^ 64" using True by (intro le_unat_64 [of _ mx]) simp
      then have add: "checked_add tot (ol_stored_len l) = Some (tot + ol_stored_len l)" by (simp add: checked_add_def)
      then have u: "unat (tot + ol_stored_len l) = unat tot + unat (ol_stored_len l)" by (simp add: checked_add_Some_iff)
      then have le: "tot + ol_stored_len l \<le> mx" using True by (simp add: word_le_nat_alt)
      then have "\<not> mx < tot + ol_stored_len l" by (simp add: not_less)
      have off: "checked_add (ol_offset l) (ol_stored_len l) = Some (ol_offset l + ol_stored_len l)" using True by (simp add: checked_add_def)
      have "copy_ranges_loop m mx (i # ids) rs tot = copy_ranges_loop m mx ids (rs @ [range_of_locator l]) (tot + ol_stored_len l)"
        using \<open>\<not> mx < tot + ol_stored_len l\<close> Some add off i by (simp add: range_of_locator_def)
      then show ?thesis unfolding ex using Cons.IH [OF le, of "rs @ [range_of_locator l]"] True u by (auto simp: add.assoc)
    next
      case False
      then have "copy_ranges_loop m mx (i # ids) rs tot \<noteq> Inr (rs', tot')"
        using Some by (auto simp: checked_add_def word_less_nat_alt unat_add_no_overflow split: option.splits if_splits)
      then show ?thesis unfolding ex using False by auto
    qed
  qed (auto simp: Cons_eq_map_conv)
qed

lemma check_overlaps_Ok:
  assumes "\<forall>r \<in> set rs. range_end r < 2 ^ 64"
  shows "check_overlaps (windows2 rs) = Inr () \<longleftrightarrow> disjoint_ranges rs"
  using assms
proof (induction rs rule: windows2.induct)
  case (1 x y rs)
  have add: "checked_add (cr_offset x) (cr_length x) = Some (cr_offset x + cr_length x)" using "1.prems" by (simp add: checked_add_def range_end_def)
  then have "unat (cr_offset x + cr_length x) = range_end x" by (simp add: checked_add_Some_iff range_end_def)
  then have "check_overlaps (windows2 (x # y # rs)) = Inr () \<longleftrightarrow> range_end x \<le> unat (cr_offset y) \<and> disjoint_ranges (y # rs)"
    using add 1 by (simp add: word_less_nat_alt not_less)
  also have "\<dots> \<longleftrightarrow> disjoint_ranges (x # y # rs)"
    by (auto simp: disjoint_ranges_def range_end_def)
  finally show ?case .
qed (simp_all add: disjoint_ranges_def)

section \<open>Properties\<close>

text \<open>
  C29. A compaction plan lists exactly the objects that the selected roots reach, in increasing order, all
  of them present in the graph; every other object is an orphan. It counts exactly their edges and
  respects the limits on objects, edges and depth.
\<close>

theorem compaction_marks_reachable:
  assumes "graph_plan g selected lim = Inr p"
  shows "cp_selected_roots p = selected \<and> cp_reachable p = sorted_list_of_set (reach g (set selected)) \<and>
    reach g (set selected) \<subseteq> dom (og_dependencies g) \<and>
    cp_orphaned p = sorted_list_of_set (dom (og_dependencies g) - reach g (set selected)) \<and>
    cp_edges_visited p = sum (out_degree g) (reach g (set selected)) \<and>
    length (cp_reachable p) \<le> cl_max_nodes lim \<and> cp_edges_visited p \<le> cl_max_edges lim \<and> cp_maximum_depth p \<le> cl_max_depth lim"
proof -
  let ?st = "map (\<lambda>r. (r, 0 :: nat)) selected"
  from assms obtain R e d where roots: "\<forall>r \<in> set selected. og_dependencies g r \<noteq> None" and run: "plan_loop g lim ?st {} 0 0 = Inr (R, e, d)"
    and p: "p = \<lparr>cp_selected_roots = selected, cp_reachable = sorted_list_of_set R, cp_orphaned = sorted_list_of_set (dom (og_dependencies g) - R),
      cp_edges_visited = e, cp_maximum_depth = d\<rparr>"
    by (auto simp: graph_plan_def push_roots_Ok rev_map Let_def split: sum.splits)
  note marks = plan_loop_marks [OF run] and counts = plan_loop_counts [OF run]
  have st: "fst ` set ?st = set selected" by (simp add: image_image)
  have "reach g (set selected) \<subseteq> R" by (rule reach_closed) (use marks st in fastforce)+
  then have R: "R = reach g (set selected)" using marks st by auto
  have "R \<subseteq> dom (og_dependencies g)" using marks by auto
  then show ?thesis using counts by (auto simp: p R)
qed

text \<open>
  C38. Compaction succeeds on every graph whose dependencies and selected roots are present, when the
  limits leave room for all objects and edges, whatever cycles it has.
\<close>

theorem compaction_plan_total:
  assumes "room g lim" and "graph_closed g" and "set selected \<subseteq> dom (og_dependencies g)"
  shows "\<exists>p. graph_plan g selected lim = Inr p"
proof -
  have "push_roots g (rev selected) [] = Inr (map (\<lambda>r. (r, 0)) selected)"
    using assms(3) by (subst push_roots_Ok) (auto simp: rev_map)
  moreover have "\<exists>res. plan_loop g lim (map (\<lambda>r. (r, 0)) selected) {} 0 0 = Inr res"
    using assms by (intro plan_loop_total) auto
  ultimately show ?thesis by (auto simp: graph_plan_def Let_def)
qed

text \<open>
  C16. A repair plan exists if and only if the source snapshot is verified and complete, compaction
  succeeds, the locators are distinct, every reachable object has one, and their ranges fit in the
  address space, are disjoint and are within the limits. It then copies exactly the range of every
  reachable object in the order of the source, with the exact total, never keeps the snapshot identity and
  never claims to keep a signature.
\<close>

theorem repair_plan_exact:
  "repair_build snapshot selected g locators lim = Inr p \<longleftrightarrow>
     is_verified_complete snapshot \<and> distinct (map ol_object_id locators) \<and>
     (\<exists>r ls. graph_plan g selected (rp_compaction lim) = Inr r \<and> length (cp_reachable r) \<le> rp_max_copy_ranges lim \<and>
        map (locators_by_id locators) (cp_reachable r) = map Some ls \<and>
        (\<forall>l \<in> set ls. unat (ol_offset l) + unat (ol_stored_len l) < 2 ^ 64) \<and>
        sum_list (map (\<lambda>l. unat (ol_stored_len l)) ls) \<le> unat (rp_max_total_copy_bytes lim) \<and>
        disjoint_ranges (sort_key (\<lambda>r. (cr_offset r, cr_object_id r)) (map range_of_locator ls)) \<and>
        p = \<lparr>rp_source_snapshot = sn_identity snapshot, rp_selected_roots = selected,
          rp_copy_ranges = sort_key (\<lambda>r. (cr_offset r, cr_object_id r)) (map range_of_locator ls),
          rp_orphaned_object_ids = cp_orphaned r, rp_total_copy_bytes = of_nat (sum_list (map (\<lambda>l. unat (ol_stored_len l)) ls)),
          rp_requires_new_snapshot_identity = True, rp_preserves_byte_scoped_signatures = False\<rparr>)"
  (is "?lhs \<longleftrightarrow> ?rhs")
proof -
  let ?m = "locators_by_id locators" and ?mx = "rp_max_total_copy_bytes lim" and ?key = "\<lambda>r. (cr_offset r, cr_object_id r)"
  let ?plan = "\<lambda>rs r tot. \<lparr>rp_source_snapshot = sn_identity snapshot, rp_selected_roots = selected, rp_copy_ranges = rs,
    rp_orphaned_object_ids = cp_orphaned r, rp_total_copy_bytes = tot, rp_requires_new_snapshot_identity = True,
    rp_preserves_byte_scoped_signatures = False\<rparr>"
  have lhs: "?lhs \<longleftrightarrow> is_verified_complete snapshot \<and> distinct (map ol_object_id locators) \<and>
      (\<exists>r rs tot. graph_plan g selected (rp_compaction lim) = Inr r \<and> length (cp_reachable r) \<le> rp_max_copy_ranges lim \<and>
        copy_ranges_loop ?m ?mx (cp_reachable r) [] 0 = Inr (rs, tot) \<and> check_overlaps (windows2 (sort_key ?key rs)) = Inr () \<and>
        p = ?plan (sort_key ?key rs) r tot)"
  proof (cases "index_locators locators Map.empty")
    case (Inl e)
    then have "\<not> distinct (map ol_object_id locators)" using index_locators_Ok [of locators Map.empty ?m] by auto
    then show ?thesis using Inl by (auto simp: repair_build_def split: sum.splits)
  next
    case (Inr m)
    then have "distinct (map ol_object_id locators)" "m = ?m" using index_locators_Ok [of locators Map.empty m] by auto
    then show ?thesis using Inr by (auto simp: repair_build_def is_verified_complete_iff Let_def not_less split: sum.splits)
  qed
  show ?thesis
  proof (cases "distinct (map ol_object_id locators)")
    case True
    have copy: "copy_ranges_loop ?m ?mx ids [] 0 = Inr (rs, tot) \<longleftrightarrow> (\<exists>ls. map ?m ids = map Some ls \<and>
        (\<forall>l \<in> set ls. unat (ol_offset l) + unat (ol_stored_len l) < 2 ^ 64) \<and> sum_list (map (\<lambda>l. unat (ol_stored_len l)) ls) \<le> unat ?mx \<and>
        rs = map range_of_locator ls \<and> tot = of_nat (sum_list (map (\<lambda>l. unat (ol_stored_len l)) ls)))" for ids rs tot
    proof -
      have "copy_ranges_loop ?m ?mx ids [] 0 = Inr (rs, tot) \<longleftrightarrow> (\<exists>ls. map ?m ids = map Some ls \<and>
        (\<forall>l \<in> set ls. unat (ol_offset l) + unat (ol_stored_len l) < 2 ^ 64) \<and> unat (0 :: u64) + sum_list (map (\<lambda>l. unat (ol_stored_len l)) ls) \<le> unat ?mx \<and>
        rs = [] @ map range_of_locator ls \<and> unat tot = unat (0 :: u64) + sum_list (map (\<lambda>l. unat (ol_stored_len l)) ls))"
        by (rule copy_ranges_loop_Ok) (simp_all add: locators_by_id_Some [OF True])
      moreover have "unat tot = n \<longleftrightarrow> tot = of_nat n" if "n \<le> unat ?mx" for n using unat_eqD [of tot n] le_unat_64 [OF that] by auto
      ultimately show ?thesis by (auto simp: le_unat_64)
    qed
    have over: "check_overlaps (windows2 (sort_key ?key (map range_of_locator ls))) = Inr () \<longleftrightarrow> disjoint_ranges (sort_key ?key (map range_of_locator ls))"
      if "\<forall>l \<in> set ls. unat (ol_offset l) + unat (ol_stored_len l) < 2 ^ 64" for ls
      using that by (intro check_overlaps_Ok) (auto simp: range_end_def range_of_locator_def)
    show ?thesis unfolding lhs copy using over by blast
  qed (simp add: lhs)
qed

section \<open>Witnesses\<close>

text \<open>A cycle of two objects, a leaf below it and an orphan.\<close>

definition sample_graph :: object_graph where
  "sample_graph = \<lparr>og_dependencies = [1 \<mapsto> [2, 3], 2 \<mapsto> [1], 3 \<mapsto> [], 4 \<mapsto> [3]]\<rparr>"

lemma sample_graph_plan:
  "graph_plan sample_graph [1] compaction_limits_default = Inr \<lparr>cp_selected_roots = [1], cp_reachable = [1, 2, 3], cp_orphaned = [4],
     cp_edges_visited = 3, cp_maximum_depth = 1\<rparr>"
  by (simp add: graph_plan_def sample_graph_def plan_loop.simps usize_checked_add_def compaction_limits_default_def Let_def word_le_nat_alt insert_Diff_if)

lemma compaction_marks_reachable_witness:
  "\<exists>p. graph_plan sample_graph [1] compaction_limits_default = Inr p \<and> cp_orphaned p = [4] \<and>
     cp_reachable p = sorted_list_of_set (reach sample_graph {1})"
  using sample_graph_plan compaction_marks_reachable [OF sample_graph_plan] by simp

lemma compaction_plan_total_witness:
  "\<exists>p. graph_plan sample_graph [2, 4] compaction_limits_default = Inr p"
proof (rule compaction_plan_total)
  have dom: "dom (og_dependencies sample_graph) = {1, 2, 3, 4}" by (auto simp: sample_graph_def)
  show "room sample_graph compaction_limits_default"
    unfolding room_def dom by (simp add: compaction_limits_default_def out_degree_def sample_graph_def)
  show "graph_closed sample_graph" unfolding graph_closed_def dom by (auto simp: sample_graph_def split: if_splits)
  show "set [2, 4] \<subseteq> dom (og_dependencies sample_graph)" by (simp add: dom)
qed

definition sample_ranges :: "object_locator list" where
  "sample_ranges = map (\<lambda>(i, x, n). \<lparr>ol_object_id = i, ol_kind = 1, ol_offset = x, ol_stored_len = n, ol_logical_len = n\<rparr>)
     [(2, 100, 20), (1, 20, 30), (4, 500, 10), (3, 50, 50)]"

lemma max_u64: "unat (- 1 :: u64) = 2 ^ 64 - 1"
  by (simp add: unsigned_minus_1_eq_mask mask_eq_exp_minus_1)

lemma repair_plan_exact_witness:
  "repair_build (sample_snapshot 9 0 None True) [1] sample_graph sample_ranges repair_limits_default = Inr
     \<lparr>rp_source_snapshot = SnapshotIdentity [9], rp_selected_roots = [1],
      rp_copy_ranges = [\<lparr>cr_object_id = 1, cr_offset = 20, cr_length = 30\<rparr>, \<lparr>cr_object_id = 3, cr_offset = 50, cr_length = 50\<rparr>,
        \<lparr>cr_object_id = 2, cr_offset = 100, cr_length = 20\<rparr>],
      rp_orphaned_object_ids = [4], rp_total_copy_bytes = 100, rp_requires_new_snapshot_identity = True,
      rp_preserves_byte_scoped_signatures = False\<rparr>"
  unfolding repair_plan_exact
proof (intro conjI exI)
  show "is_verified_complete (sample_snapshot 9 0 None True)" by (simp add: sample_snapshot_def is_verified_complete_def)
  show "graph_plan sample_graph [1] (rp_compaction repair_limits_default) = Inr \<lparr>cp_selected_roots = [1], cp_reachable = [1, 2, 3], cp_orphaned = [4],
     cp_edges_visited = 3, cp_maximum_depth = 1\<rparr>"
    by (simp add: repair_limits_default_def sample_graph_plan)
  let ?ls = "[sample_ranges ! 1, sample_ranges ! 0, sample_ranges ! 3]"
  show "map (locators_by_id sample_ranges) (cp_reachable \<lparr>cp_selected_roots = [1], cp_reachable = [1, 2, 3], cp_orphaned = [4],
     cp_edges_visited = 3, cp_maximum_depth = 1\<rparr>) = map Some ?ls" by (simp add: locators_by_id_def sample_ranges_def)
qed (simp_all add: sample_ranges_def repair_limits_default_def range_of_locator_def disjoint_ranges_def range_end_def sample_snapshot_def word_le_nat_alt word_less_nat_alt max_u64)

end
