(* ===== verification/Ucof_Enumeration.thy ===== *)
theory Ucof_Enumeration
  imports Ucof_Snapshots
begin

text \<open>
  \<open>ucof-experiments/src/enumeration.rs\<close>: every candidate with its status, without a selection. A
  \<open>BTreeMap\<close> is a map, the sorted iteration of a \<open>BTreeSet\<close> is \<open>sorted_list_of_set\<close>; the comparator of the
  final sort is the lexicographic order on the negated offset, the negated sequence and the identity.
\<close>

record enumeration_limits =
  el_max_candidates :: usize
  el_max_parent_depth :: usize
  el_max_results :: usize

definition enumeration_limits_default :: enumeration_limits where
  "enumeration_limits_default = \<lparr>el_max_candidates = 1024, el_max_parent_depth = 256, el_max_results = 1024\<rparr>"

datatype enumerated_root_status =
    ErVerifiedTerminal | ErVerifiedAncestor | ErVerifiedForkTerminal | ErProgressCheckpoint | ErIntegrityFailed
  | ErUnsupportedRequiredCapability | ErTruncated | ErInvalid | ErMissingParent | ErParentNotVerified
  | ErNonIncreasingSequence | ErSequenceGap | ErParentCycle | ErParentDepthExceeded

record enumerated_root =
  en_identity :: snapshot_identity
  en_sequence :: u64
  en_footer_offset :: u64
  en_exact_end :: bool
  en_status :: enumerated_root_status
  en_chain_depth :: "usize option"

record root_enumeration_report =
  rep_roots :: "enumerated_root list"
  rep_candidates_considered :: usize
  rep_valid_complete_count :: usize
  rep_highest_valid_sequence :: "u64 option"
  rep_has_ambiguous_highest_fork :: bool

datatype root_enumeration_error =
    EnumerationCandidateLimitExceeded | EnumerationResultLimitExceeded | EnumerationDuplicateIdentity snapshot_identity

fun root_enumeration_display :: "root_enumeration_error \<Rightarrow> string" where
  "root_enumeration_display EnumerationCandidateLimitExceeded = ''root-enumeration candidate limit exceeded''"
| "root_enumeration_display EnumerationResultLimitExceeded = ''root-enumeration result limit exceeded''"
| "root_enumeration_display (EnumerationDuplicateIdentity i) = ''duplicate snapshot identity '' @ identity_display i"

text \<open>The loop of \<open>classify_chain\<close>. The depth limit is a \<open>usize\<close>, so the depth always has a successor.\<close>

function classify_loop :: "(snapshot_identity \<rightharpoonup> snapshot_candidate) \<Rightarrow> usize \<Rightarrow> snapshot_candidate \<Rightarrow> usize
    \<Rightarrow> snapshot_identity set \<Rightarrow> enumerated_root_status + usize" where
  "classify_loop candidates max_depth current depth visited =
     (if depth > max_depth then Inl ErParentDepthExceeded else
      if sn_identity current \<in> visited then Inl ErParentCycle else
      let visited = insert (sn_identity current) visited in
      case sn_parent current of
        None \<Rightarrow> Inr depth
      | Some parent_id \<Rightarrow>
        (case candidates parent_id of
           None \<Rightarrow> Inl ErMissingParent
         | Some parent \<Rightarrow>
           if sn_status parent \<noteq> CsVerified \<or> sn_checkpoint parent = CkProgress then Inl ErParentNotVerified else
           if sn_sequence current \<le> sn_sequence parent then Inl ErNonIncreasingSequence else
           if sn_sequence current \<noteq> saturating_add (sn_sequence parent) 1 then Inl ErSequenceGap else
           (case usize_checked_add depth 1 of
              None \<Rightarrow> Inl ErParentDepthExceeded
            | Some depth \<Rightarrow> classify_loop candidates max_depth parent depth visited)))"
  by pat_completeness auto
termination
  by (relation "measure (\<lambda>(m, mx, c, d, v). Suc mx - d)") (auto simp: usize_checked_add_def split: if_splits)

declare classify_loop.simps [simp del]

definition classify_chain :: "snapshot_candidate \<Rightarrow> (snapshot_identity \<rightharpoonup> snapshot_candidate) \<Rightarrow> usize
    \<Rightarrow> enumerated_root_status + usize" where
  "classify_chain start candidates max_depth =
     (case sn_status start of
        CsIntegrityFailed \<Rightarrow> Inl ErIntegrityFailed
      | CsUnsupportedRequiredCapability \<Rightarrow> Inl ErUnsupportedRequiredCapability
      | CsTruncated \<Rightarrow> Inl ErTruncated
      | CsInvalid \<Rightarrow> Inl ErInvalid
      | CsVerified \<Rightarrow>
        if sn_checkpoint start = CkProgress then Inl ErProgressCheckpoint else
        classify_loop candidates max_depth start 1 {})"

fun enum_index :: "snapshot_candidate list \<Rightarrow> (snapshot_identity \<rightharpoonup> snapshot_candidate)
    \<Rightarrow> root_enumeration_error + (snapshot_identity \<rightharpoonup> snapshot_candidate)" where
  "enum_index [] by_identity = Inr by_identity"
| "enum_index (c # cs) by_identity =
     (if by_identity (sn_identity c) \<noteq> None then Inl (EnumerationDuplicateIdentity (sn_identity c))
      else enum_index cs (by_identity(sn_identity c \<mapsto> c)))"

fun classify_all :: "(snapshot_identity \<rightharpoonup> snapshot_candidate) \<Rightarrow> usize \<Rightarrow> snapshot_candidate list
    \<Rightarrow> (snapshot_identity \<rightharpoonup> usize) \<Rightarrow> (snapshot_identity \<rightharpoonup> enumerated_root_status)
    \<Rightarrow> (snapshot_identity \<rightharpoonup> usize) \<times> (snapshot_identity \<rightharpoonup> enumerated_root_status)" where
  "classify_all by_identity max_depth [] valid_depths statuses = (valid_depths, statuses)"
| "classify_all by_identity max_depth (c # cs) valid_depths statuses =
     (case classify_chain c by_identity max_depth of
        Inr depth \<Rightarrow> classify_all by_identity max_depth cs (valid_depths(sn_identity c \<mapsto> depth))
          (statuses(sn_identity c \<mapsto> ErVerifiedTerminal))
      | Inl status \<Rightarrow> classify_all by_identity max_depth cs valid_depths (statuses(sn_identity c \<mapsto> status)))"

text \<open>\<open>for i in ids { statuses.insert(i, status) }\<close>.\<close>

fun set_statuses :: "snapshot_identity list \<Rightarrow> enumerated_root_status \<Rightarrow> (snapshot_identity \<rightharpoonup> enumerated_root_status)
    \<Rightarrow> (snapshot_identity \<rightharpoonup> enumerated_root_status)" where
  "set_statuses [] status statuses = statuses"
| "set_statuses (i # ids) status statuses = set_statuses ids status (statuses(i \<mapsto> status))"

definition root_enumerate :: "snapshot_candidate list \<Rightarrow> enumeration_limits \<Rightarrow> root_enumeration_error + root_enumeration_report" where
  "root_enumerate candidates lim =
     (if length candidates > el_max_candidates lim then Inl EnumerationCandidateLimitExceeded else
      if length candidates > el_max_results lim then Inl EnumerationResultLimitExceeded else
      case enum_index candidates Map.empty of
        Inl e \<Rightarrow> Inl e
      | Inr by_identity \<Rightarrow>
        (case classify_all by_identity (el_max_parent_depth lim) candidates Map.empty Map.empty of
           (valid_depths, statuses) \<Rightarrow>
           let valid_ids = sorted_list_of_set (dom valid_depths);
               parent_ids = sorted_list_of_set (set (filter (\<lambda>p. p \<in> set valid_ids)
                 (List.map_filter (\<lambda>i. sn_parent (the (by_identity i))) valid_ids)));
               statuses = set_statuses parent_ids ErVerifiedAncestor statuses;
               terminals = filter (\<lambda>i. i \<notin> set parent_ids) valid_ids;
               sequences = map (\<lambda>i. sn_sequence (the (by_identity i))) terminals;
               highest_valid_sequence = (if sequences = [] then None else Some (Max (set sequences)));
               highest = filter (\<lambda>i. Some (sn_sequence (the (by_identity i))) = highest_valid_sequence) terminals;
               has_fork = (length highest > 1);
               statuses = (if has_fork then set_statuses highest ErVerifiedForkTerminal statuses else statuses);
               roots = map (\<lambda>c. \<lparr>en_identity = sn_identity c, en_sequence = sn_sequence c, en_footer_offset = sn_footer_offset c,
                 en_exact_end = sn_exact_end c, en_status = the (statuses (sn_identity c)),
                 en_chain_depth = valid_depths (sn_identity c)\<rparr>) candidates in
           Inr \<lparr>rep_roots = sort_key (\<lambda>r. (- uint (en_footer_offset r), - uint (en_sequence r), en_identity r)) roots,
             rep_candidates_considered = length candidates, rep_valid_complete_count = card (dom valid_depths),
             rep_highest_valid_sequence = highest_valid_sequence, rep_has_ambiguous_highest_fork = has_fork\<rparr>))"

end
