(* ===== verification/Ucof_Root_Enumeration.thy ===== *)
theory Ucof_Root_Enumeration
  imports Ucof_Enumeration Ucof_Root_Selection
begin

text \<open>
  Root enumeration against the specification of valid chains that root selection has: the status of every
  candidate, the highest terminal, and that enumeration and selection agree.
\<close>

section \<open>Chains\<close>

lemma classify_loop_chain:
  "d < 2 ^ 64 \<Longrightarrow> classify_loop m d c (Suc (length rc)) V = Inr k \<longleftrightarrow> (\<exists>ch. chain_loop m d c rc V = Inr ch \<and> length ch = k)"
proof (induction "d - length rc" arbitrary: c rc V rule: less_induct)
  case less
  show ?case
  proof (cases "length rc < d")
    case True
    have IH: "classify_loop m d q (Suc (Suc (length rc))) (insert (sn_identity c) V) = Inr k \<longleftrightarrow>
        (\<exists>ch. chain_loop m d q (rc @ [sn_identity c]) (insert (sn_identity c) V) = Inr ch \<and> length ch = k)" for q
      using less.hyps [of "rc @ [sn_identity c]" q "insert (sn_identity c) V"] True less.prems by simp
    show ?thesis
    proof (cases "Suc (Suc (length rc)) < 2 ^ 64")
      case small: True
      then have add: "usize_checked_add (Suc (length rc)) (Suc 0) = Some (Suc (Suc (length rc)))" by (simp add: usize_checked_add_def)
      show ?thesis
        using True by (subst classify_loop.simps, subst chain_loop.simps) (auto simp: Let_def add IH split: option.splits)
    next
      case False
      then have add: "usize_checked_add (Suc (length rc)) (Suc 0) = None" by (simp add: usize_checked_add_def)
      have "chain_loop m d q (rc @ [sn_identity c]) (insert (sn_identity c) V) = Inl ParentDepthExceeded" for q
        using False less.prems True by (subst chain_loop.simps) simp
      then show ?thesis
        using True by (subst classify_loop.simps, subst chain_loop.simps) (auto simp: Let_def add split: option.splits)
    qed
  qed (auto simp: classify_loop.simps chain_loop.simps)
qed

lemma classify_chain_Ok:
  assumes "keyed m" and "m (sn_identity c) = Some c" and "d < 2 ^ 64"
  shows "classify_chain c m d = Inr k \<longleftrightarrow> (\<exists>is. rooted m d c is \<and> length is = k)"
proof -
  have "classify_chain c m d = Inr k \<longleftrightarrow> (\<exists>ch. evaluate_chain c m d = Inr ch \<and> length ch = k)"
    using classify_loop_chain [OF assms(3), of m c "[]" "{}" k] by (auto simp: classify_chain_def evaluate_chain_def split: candidate_status.splits)
  then show ?thesis by (auto simp: evaluate_chain_Ok [OF assms(1,2)])
qed

lemma enum_index_Ok: "enum_index cs m = Inr m' \<longleftrightarrow> index_candidates cs m = Inr m'"
  by (induction cs arbitrary: m) auto

lemma set_statuses_apply: "set_statuses ids st f i = (if i \<in> set ids then Some st else f i)"
  by (induction ids arbitrary: f) auto

lemma classify_all_apply:
  assumes "distinct (map sn_identity cs)"
  shows "fst (classify_all m d cs vd sts) i = (case by_id cs i of None \<Rightarrow> vd i | Some c \<Rightarrow> (case classify_chain c m d of Inr k \<Rightarrow> Some k | Inl s \<Rightarrow> vd i))"
    "snd (classify_all m d cs vd sts) i = (case by_id cs i of None \<Rightarrow> sts i | Some c \<Rightarrow> Some (case classify_chain c m d of Inr k \<Rightarrow> ErVerifiedTerminal | Inl s \<Rightarrow> s))"
proof -
  have "(\<forall>i. fst (classify_all m d cs vd sts) i = (case by_id cs i of None \<Rightarrow> vd i | Some c \<Rightarrow> (case classify_chain c m d of Inr k \<Rightarrow> Some k | Inl s \<Rightarrow> vd i))) \<and>
    (\<forall>i. snd (classify_all m d cs vd sts) i = (case by_id cs i of None \<Rightarrow> sts i | Some c \<Rightarrow> Some (case classify_chain c m d of Inr k \<Rightarrow> ErVerifiedTerminal | Inl s \<Rightarrow> s)))"
    using assms
  proof (induction cs arbitrary: vd sts)
    case (Cons c cs)
    have "sn_identity c \<notin> dom (by_id cs)" using Cons.prems by (auto simp: by_id_def dom_map_of_conv_image_fst image_iff)
    then have none: "by_id cs (sn_identity c) = None" by auto
    then show ?case using Cons by (cases "classify_chain c m d") (auto simp: by_id_def split: option.splits sum.splits)
  qed (simp add: by_id_def)
  then show "fst (classify_all m d cs vd sts) i = (case by_id cs i of None \<Rightarrow> vd i | Some c \<Rightarrow> (case classify_chain c m d of Inr k \<Rightarrow> Some k | Inl s \<Rightarrow> vd i))"
    "snd (classify_all m d cs vd sts) i = (case by_id cs i of None \<Rightarrow> sts i | Some c \<Rightarrow> Some (case classify_chain c m d of Inr k \<Rightarrow> ErVerifiedTerminal | Inl s \<Rightarrow> s))"
    by blast+
qed

section \<open>Why a candidate has no valid chain\<close>

text \<open>The reason for which a candidate is no start of a chain itself, and for which it does not continue its parent.\<close>

definition own_failure :: "snapshot_candidate \<Rightarrow> enumerated_root_status option" where
  "own_failure c = (if sn_status c = CsIntegrityFailed then Some ErIntegrityFailed else
     if sn_status c = CsUnsupportedRequiredCapability then Some ErUnsupportedRequiredCapability else
     if sn_status c = CsTruncated then Some ErTruncated else
     if sn_status c = CsInvalid then Some ErInvalid else
     if sn_checkpoint c = CkProgress then Some ErProgressCheckpoint else None)"

definition link_failure :: "(snapshot_identity \<rightharpoonup> snapshot_candidate) \<Rightarrow> snapshot_candidate \<Rightarrow> enumerated_root_status option" where
  "link_failure m c = (case sn_parent c of
     None \<Rightarrow> None
   | Some p \<Rightarrow> (case m p of
       None \<Rightarrow> Some ErMissingParent
     | Some q \<Rightarrow> if \<not> is_verified_complete q then Some ErParentNotVerified else
         if unat (sn_sequence c) \<le> unat (sn_sequence q) then Some ErNonIncreasingSequence else
         if unat (sn_sequence c) > unat (sn_sequence q) + 1 then Some ErSequenceGap else None))"

text \<open>The ancestors of a candidate along sound links, how many generations of them there are (the candidate included, as far as
  the depth limit shows), and the last of them.\<close>

primrec ancestor :: "(snapshot_identity \<rightharpoonup> snapshot_candidate) \<Rightarrow> nat \<Rightarrow> snapshot_candidate \<Rightarrow> snapshot_candidate option" where
  "ancestor m 0 c = Some c"
| "ancestor m (Suc n) c = Option.bind (ancestor m n c) (\<lambda>x. if link_failure m x = None then Option.bind (sn_parent x) m else None)"

definition generations :: "(snapshot_identity \<rightharpoonup> snapshot_candidate) \<Rightarrow> nat \<Rightarrow> snapshot_candidate \<Rightarrow> nat" where
  "generations m d c = length (filter (\<lambda>n. ancestor m n c \<noteq> None) [0..<Suc d])"

definition failure_of :: "(snapshot_identity \<rightharpoonup> snapshot_candidate) \<Rightarrow> nat \<Rightarrow> snapshot_candidate \<Rightarrow> enumerated_root_status option" where
  "failure_of m d c = (if own_failure c \<noteq> None then own_failure c else
     if generations m d c > d then Some ErParentDepthExceeded else link_failure m (the (ancestor m (generations m d c - 1) c)))"

lemma ancestor_stops: "ancestor m n c = None \<Longrightarrow> n \<le> k \<Longrightarrow> ancestor m k c = None"
  by (induction k) (auto simp: le_Suc_eq)

lemma generations_stop:
  assumes "ancestor m n c \<noteq> None" and "ancestor m (Suc n) c = None" and "n \<le> d"
  shows "generations m d c = Suc n"
proof -
  have "ancestor m k c \<noteq> None \<longleftrightarrow> k \<le> n" for k using ancestor_stops [of m] assms(1,2) by (metis not_less_eq_eq)
  then have "filter (\<lambda>k. ancestor m k c \<noteq> None) [0..<Suc d] = filter (\<lambda>k. k \<le> n) [0..<Suc d]" by simp
  also have "\<dots> = [0..<Suc n]"
  proof -
    have "[0..<Suc d] = [0..<Suc n] @ [Suc n..<Suc d]" using assms(3) upt_add_eq_append [of 0 "Suc n" "d - n"] by simp
    then show ?thesis by (simp add: filter_id_conv filter_empty_conv del: upt_Suc)
  qed
  finally show ?thesis by (simp add: generations_def)
qed

lemma generations_deep:
  assumes "ancestor m d c \<noteq> None"
  shows "generations m d c = Suc d"
proof -
  have "ancestor m k c \<noteq> None" if "k \<in> set [0..<Suc d]" for k
  proof
    assume "ancestor m k c = None"
    moreover have "k \<le> d" using that by auto
    ultimately have "ancestor m d c = None" by (rule ancestor_stops)
    with assms show False by contradiction
  qed
  then have "filter (\<lambda>k. ancestor m k c \<noteq> None) [0..<Suc d] = [0..<Suc d]" unfolding filter_id_conv by blast
  then show ?thesis by (simp add: generations_def)
qed

lemma link_checks:
  assumes "sn_parent x = Some p" and "m p = Some q" and "link_failure m x = None"
  shows "is_verified_complete q" "\<not> sn_sequence x \<le> sn_sequence q" "sn_sequence x = saturating_add (sn_sequence q) 1"
proof -
  have u: "is_verified_complete q" "unat (sn_sequence x) = unat (sn_sequence q) + 1" using assms by (auto simp: link_failure_def split: if_splits)
  then show "is_verified_complete q" "\<not> sn_sequence x \<le> sn_sequence q" by (simp_all add: word_le_nat_alt)
  then show "sn_sequence x = saturating_add (sn_sequence q) 1" using u(2) saturating_succ [of "sn_sequence q" "sn_sequence x"] by simp
qed

text \<open>The search for the root stops at a candidate that does not continue a parent, with the reason, or at the root.\<close>

lemma classify_loop_stop:
  assumes "sn_identity x \<notin> V" and "n < d" and "\<not> (\<exists>p q. sn_parent x = Some p \<and> m p = Some q \<and> link_failure m x = None)"
  shows "classify_loop m d x (Suc n) V = (case link_failure m x of Some s \<Rightarrow> Inl s | None \<Rightarrow> Inr (Suc n))"
proof (cases "sn_parent x")
  case None
  then show ?thesis using assms(1,2) by (subst classify_loop.simps) (simp add: Let_def link_failure_def)
next
  case (Some p)
  show ?thesis
  proof (cases "m p")
    case None
    then show ?thesis using Some assms(1,2) by (subst classify_loop.simps) (simp add: Let_def link_failure_def)
  next
    case q: (Some q)
    show ?thesis
    proof (cases "is_verified_complete q \<and> unat (sn_sequence q) < unat (sn_sequence x)")
      case up: True
      then have "link_failure m x = Some ErSequenceGap" "sn_sequence x \<noteq> saturating_add (sn_sequence q) 1"
        using assms(3) Some q saturating_succ [of "sn_sequence q" "sn_sequence x"]
        by (auto simp: link_failure_def word_less_nat_alt split: if_splits)
      then show ?thesis using Some q assms(1,2) up
        by (subst classify_loop.simps) (simp add: Let_def is_verified_complete_iff word_le_nat_alt)
    next
      case down: False
      then have fail: "link_failure m x = Some (if is_verified_complete q then ErNonIncreasingSequence else ErParentNotVerified)"
        using Some q by (auto simp: link_failure_def)
      have low: "is_verified_complete q \<Longrightarrow> sn_sequence x \<le> sn_sequence q" using down by (auto simp: word_le_nat_alt)
      show ?thesis
      proof (cases "is_verified_complete q")
        case True
        then show ?thesis using Some q assms(1,2) fail low
          by (subst classify_loop.simps) (simp add: Let_def is_verified_complete_iff)
      next
        case False
        then have "sn_status q \<noteq> CsVerified \<or> sn_checkpoint q = CkProgress" by (auto simp: is_verified_complete_iff)
        then show ?thesis using Some q assms(1,2) fail False
          by (subst classify_loop.simps) (simp add: Let_def)
      qed
    qed
  qed
qed

lemma classify_loop_outcome:
  assumes "keyed m" and "d < 2 ^ 64" and "above m x V" and "ancestor m n c = Some x" and "n \<le> d"
  shows "classify_loop m d x (Suc n) V = (if generations m d c > d then Inl ErParentDepthExceeded else
    case link_failure m (the (ancestor m (generations m d c - 1) c)) of Some s \<Rightarrow> Inl s | None \<Rightarrow> Inr (generations m d c))"
  using assms(3-5)
proof (induction "d - n" arbitrary: x V n rule: less_induct)
  case less
  note fresh = above_fresh [OF less.prems(1)]
  show ?case
  proof (cases "n = d")
    case True
    then show ?thesis using generations_deep [of m d c] less.prems(2) by (simp add: classify_loop.simps)
  next
    case False
    then have room: "n < d" using less.prems(3) by simp
    show ?thesis
    proof (cases "\<exists>p q. sn_parent x = Some p \<and> m p = Some q \<and> link_failure m x = None")
      case True
      then obtain p q where q: "sn_parent x = Some p" "m p = Some q" "link_failure m x = None" by blast
      note chk = link_checks [OF q]
      have anc: "ancestor m (Suc n) c = Some q" using less.prems(2) q by simp
      have ab: "above m q (insert (sn_identity x) V)" using above_parent [OF less.prems(1) assms(1) q(2)] chk(2) by simp
      have rest: "classify_loop m d q (Suc (Suc n)) (insert (sn_identity x) V) = (if generations m d c > d then Inl ErParentDepthExceeded else
          case link_failure m (the (ancestor m (generations m d c - 1) c)) of Some s \<Rightarrow> Inl s | None \<Rightarrow> Inr (generations m d c))"
        by (rule less.hyps [OF _ ab anc]) (use room in simp_all)
      show ?thesis
      proof (cases "Suc (Suc n) < 2 ^ 64")
        case small: True
        then have "usize_checked_add (Suc n) (Suc 0) = Some (Suc (Suc n))" by (simp add: usize_checked_add_def)
        then show ?thesis using room fresh q chk rest by (subst classify_loop.simps) (simp add: Let_def is_verified_complete_iff)
      next
        case False
        then have add: "usize_checked_add (Suc n) (Suc 0) = None" by (simp add: usize_checked_add_def)
        have "Suc n = d" using False room assms(2) by simp
        then have "generations m d c = Suc d" using generations_deep [of m d c] anc by simp
        then show ?thesis using room fresh q chk add by (subst classify_loop.simps) (simp add: Let_def is_verified_complete_iff)
      qed
    next
      case False
      then have "ancestor m (Suc n) c = None" using less.prems(2) by (cases "sn_parent x") auto
      then have gen: "generations m d c = Suc n" "the (ancestor m (generations m d c - 1) c) = x"
        using generations_stop [of m n c d] less.prems(2,3) by simp_all
      note stop = classify_loop_stop [OF fresh room False]
      show ?thesis using stop unfolding gen(2) unfolding gen(1) using room by simp
    qed
  qed
qed

lemma classify_chain_outcome:
  assumes "keyed m" and "d < 2 ^ 64" and "m (sn_identity c) = Some c"
  shows "classify_chain c m d = (case failure_of m d c of Some s \<Rightarrow> Inl s | None \<Rightarrow> Inr (generations m d c))"
proof -
  have "above m c {}" using assms(3) by (simp add: above_def)
  note loop = classify_loop_outcome [OF assms(1,2) this, of 0 c]
  show ?thesis using loop by (cases "sn_status c") (auto simp: classify_chain_def failure_of_def own_failure_def split: option.splits)
qed

text \<open>For a candidate of an index without duplicates, the classification of the code is the specified one.\<close>

lemma classify_by_id:
  assumes "distinct (map sn_identity cs)" and "d < 2 ^ 64" and "c \<in> set cs"
  shows "classify_chain c (by_id cs) d = (case failure_of (by_id cs) d c of Some s \<Rightarrow> Inl s | None \<Rightarrow> Inr (generations (by_id cs) d c))"
  using assms by (intro classify_chain_outcome keyed_by_id) (simp_all add: by_id_Some)

section \<open>Specification\<close>

definition valid_root :: "snapshot_candidate list \<Rightarrow> nat \<Rightarrow> snapshot_candidate \<Rightarrow> bool" where
  "valid_root cs d c \<longleftrightarrow> (\<exists>is. rooted (by_id cs) d c is)"

text \<open>The valid candidates that no valid candidate names as its parent, and those of them with the highest sequence.\<close>

definition terminal_roots :: "snapshot_candidate list \<Rightarrow> nat \<Rightarrow> snapshot_candidate set" where
  "terminal_roots cs d = {c \<in> set cs. valid_root cs d c \<and> \<not> superseded (valid_root cs d) (set cs) c}"

definition highest_roots :: "snapshot_candidate list \<Rightarrow> nat \<Rightarrow> snapshot_candidate set" where
  "highest_roots cs d = {c \<in> terminal_roots cs d. \<forall>x \<in> terminal_roots cs d. sn_sequence x \<le> sn_sequence c}"

definition status_of :: "snapshot_candidate list \<Rightarrow> nat \<Rightarrow> snapshot_candidate \<Rightarrow> enumerated_root_status" where
  "status_of cs d c = (case failure_of (by_id cs) d c of
     Some s \<Rightarrow> s
   | None \<Rightarrow> if superseded (valid_root cs d) (set cs) c then ErVerifiedAncestor else
       if c \<in> highest_roots cs d \<and> card (highest_roots cs d) > 1 then ErVerifiedForkTerminal else ErVerifiedTerminal)"

definition depth_of :: "snapshot_candidate list \<Rightarrow> nat \<Rightarrow> snapshot_candidate \<Rightarrow> nat option" where
  "depth_of cs d c = (if failure_of (by_id cs) d c = None then Some (generations (by_id cs) d c) else None)"

lemma status_of_classified:
  assumes "distinct (map sn_identity cs)" and "d < 2 ^ 64" and "c \<in> set cs"
  shows "status_of cs d c = (case classify_chain c (by_id cs) d of
     Inl s \<Rightarrow> s
   | Inr _ \<Rightarrow> if superseded (valid_root cs d) (set cs) c then ErVerifiedAncestor else
       if c \<in> highest_roots cs d \<and> card (highest_roots cs d) > 1 then ErVerifiedForkTerminal else ErVerifiedTerminal)"
  unfolding classify_by_id [OF assms] status_of_def by (cases "failure_of (by_id cs) d c") simp_all

lemma depth_of_classified:
  assumes "distinct (map sn_identity cs)" and "d < 2 ^ 64" and "c \<in> set cs"
  shows "depth_of cs d c = (case classify_chain c (by_id cs) d of Inl s \<Rightarrow> None | Inr k \<Rightarrow> Some k)"
  unfolding classify_by_id [OF assms] depth_of_def by (cases "failure_of (by_id cs) d c") simp_all

definition root_of :: "snapshot_candidate list \<Rightarrow> nat \<Rightarrow> snapshot_candidate \<Rightarrow> enumerated_root" where
  "root_of cs d c = \<lparr>en_identity = sn_identity c, en_sequence = sn_sequence c, en_footer_offset = sn_footer_offset c,
     en_exact_end = sn_exact_end c, en_status = status_of cs d c, en_chain_depth = depth_of cs d c\<rparr>"

section \<open>Terminals\<close>

text \<open>The lists of identities that both enumeration and recovery compute from the valid candidates.\<close>

definition parent_list :: "(snapshot_identity \<rightharpoonup> snapshot_candidate) \<Rightarrow> snapshot_identity list \<Rightarrow> snapshot_identity list" where
  "parent_list m ids = filter (\<lambda>p. p \<in> set ids) (List.map_filter (\<lambda>i. sn_parent (the (m i))) ids)"

definition terminal_list :: "(snapshot_identity \<rightharpoonup> snapshot_candidate) \<Rightarrow> snapshot_identity list \<Rightarrow> snapshot_identity list" where
  "terminal_list m ids = filter (\<lambda>i. i \<notin> set (parent_list m ids)) ids"

definition highest_list :: "(snapshot_identity \<rightharpoonup> snapshot_candidate) \<Rightarrow> snapshot_identity list \<Rightarrow> snapshot_identity list" where
  "highest_list m ids = filter (\<lambda>i. sn_sequence (the (m i)) = Max ((\<lambda>i. sn_sequence (the (m i))) ` set (terminal_list m ids))) (terminal_list m ids)"

lemma select_recovery_lists:
  "select_recovery m V = (let ids = sorted_list_of_set (dom V) in
     if terminal_list m ids = [] then Inl NoValidRoot else
     case highest_list m ids of [i] \<Rightarrow> Inr (the (m i)) | _ \<Rightarrow> Inl AmbiguousFork)"
proof -
  define ids where "ids = sorted_list_of_set (dom V)"
  have "filter (\<lambda>c. sn_sequence c = Max (set (map sn_sequence (map (\<lambda>i. the (m i)) (terminal_list m ids))))) (map (\<lambda>i. the (m i)) (terminal_list m ids)) =
      map (\<lambda>i. the (m i)) (highest_list m ids)"
    by (simp add: highest_list_def filter_map comp_def image_image)
  then show ?thesis
    by (simp add: select_recovery_def Let_def ids_def [symmetric] parent_list_def [symmetric] terminal_list_def [symmetric])
      (auto simp: terminal_list_def split: list.splits)
qed

lemma highest_list_nonempty: "terminal_list m ids \<noteq> [] \<Longrightarrow> highest_list m ids \<noteq> []"
proof -
  assume ne: "terminal_list m ids \<noteq> []"
  have "Max ((\<lambda>i. sn_sequence (the (m i))) ` set (terminal_list m ids)) \<in> (\<lambda>i. sn_sequence (the (m i))) ` set (terminal_list m ids)"
    using ne by (intro Max_in) auto
  then show ?thesis by (auto simp: highest_list_def filter_empty_conv)
qed

lemma lists_of_valid:
  assumes "distinct (map sn_identity cs)" and "set ids = sn_identity ` {c \<in> set cs. valid_root cs d c}" and "distinct ids"
  shows "\<And>c. c \<in> set cs \<Longrightarrow> valid_root cs d c \<Longrightarrow> sn_identity c \<in> set (parent_list (by_id cs) ids) \<longleftrightarrow> superseded (valid_root cs d) (set cs) c"
    "set (parent_list (by_id cs) ids) \<subseteq> set ids"
    "set (terminal_list (by_id cs) ids) = sn_identity ` terminal_roots cs d"
    "set (highest_list (by_id cs) ids) = sn_identity ` highest_roots cs d"
    "length (highest_list (by_id cs) ids) = card (highest_roots cs d)"
proof -
  have at: "the (by_id cs (sn_identity x)) = x" if "x \<in> set cs" for x
    using that by_id_Some [OF assms(1), of "sn_identity x" x] by simp
  have inj: "inj_on sn_identity (set cs)" using assms(1) by (simp add: distinct_map)
  show par: "sn_identity c \<in> set (parent_list (by_id cs) ids) \<longleftrightarrow> superseded (valid_root cs d) (set cs) c" if "c \<in> set cs" "valid_root cs d c" for c
  proof -
    have "sn_identity c \<in> set ids" using that by (simp add: assms(2))
    then have "sn_identity c \<in> set (parent_list (by_id cs) ids) \<longleftrightarrow> (\<exists>i \<in> set ids. sn_parent (the (by_id cs i)) = Some (sn_identity c))"
      by (auto simp: parent_list_def List.map_filter_def image_iff)
    also have "\<dots> \<longleftrightarrow> (\<exists>y \<in> {c \<in> set cs. valid_root cs d c}. sn_parent (the (by_id cs (sn_identity y))) = Some (sn_identity c))"
      unfolding assms(2) by blast
    finally show ?thesis using at by (auto simp: superseded_def)
  qed
  show "set (parent_list (by_id cs) ids) \<subseteq> set ids" by (auto simp: parent_list_def)
  show T: "set (terminal_list (by_id cs) ids) = sn_identity ` terminal_roots cs d"
    using par by (auto simp: terminal_list_def assms(2) terminal_roots_def)
  have sub: "terminal_roots cs d \<subseteq> set cs" by (auto simp: terminal_roots_def)
  then have fin: "finite (terminal_roots cs d)" by (rule finite_subset) simp
  have seq: "(\<lambda>i. sn_sequence (the (by_id cs i))) ` set (terminal_list (by_id cs) ids) = sn_sequence ` terminal_roots cs d"
    unfolding T image_image using sub at by (intro image_cong) auto
  have max: "sn_sequence c = Max (sn_sequence ` terminal_roots cs d) \<longleftrightarrow> (\<forall>x \<in> terminal_roots cs d. sn_sequence x \<le> sn_sequence c)"
    if "c \<in> terminal_roots cs d" for c
  proof
    assume "sn_sequence c = Max (sn_sequence ` terminal_roots cs d)"
    then show "\<forall>x \<in> terminal_roots cs d. sn_sequence x \<le> sn_sequence c" using fin by auto
  next
    assume "\<forall>x \<in> terminal_roots cs d. sn_sequence x \<le> sn_sequence c"
    then show "sn_sequence c = Max (sn_sequence ` terminal_roots cs d)" using fin that by (intro Max_eqI [symmetric]) auto
  qed
  show H: "set (highest_list (by_id cs) ids) = sn_identity ` highest_roots cs d"
  proof -
    have "set (highest_list (by_id cs) ids) = {i \<in> sn_identity ` terminal_roots cs d. sn_sequence (the (by_id cs i)) = Max (sn_sequence ` terminal_roots cs d)}"
      unfolding highest_list_def seq set_filter by (simp add: T)
    also have "\<dots> = sn_identity ` {c \<in> terminal_roots cs d. sn_sequence c = Max (sn_sequence ` terminal_roots cs d)}"
      using at sub by (auto simp: subset_iff)
    also have "{c \<in> terminal_roots cs d. sn_sequence c = Max (sn_sequence ` terminal_roots cs d)} = highest_roots cs d"
      using max by (auto simp: highest_roots_def)
    finally show ?thesis .
  qed
  have "distinct (highest_list (by_id cs) ids)" using assms(3) by (simp add: highest_list_def terminal_list_def)
  then have "length (highest_list (by_id cs) ids) = card (sn_identity ` highest_roots cs d)" using H distinct_card [of "highest_list (by_id cs) ids"] by simp
  also have "\<dots> = card (highest_roots cs d)"
    using inj sub by (intro card_image) (auto simp: highest_roots_def intro: inj_on_subset)
  finally show "length (highest_list (by_id cs) ids) = card (highest_roots cs d)" .
qed

section \<open>The report\<close>

definition root_order :: "enumerated_root \<Rightarrow> int \<times> int \<times> snapshot_identity" where
  "root_order r = (- uint (en_footer_offset r), - uint (en_sequence r), en_identity r)"

lemma classified:
  assumes "distinct (map sn_identity cs)" and "d < 2 ^ 64" and "c \<in> set cs"
  shows "valid_root cs d c \<longleftrightarrow> (\<exists>k. classify_chain c (by_id cs) d = Inr k)"
proof -
  have "by_id cs (sn_identity c) = Some c" using assms(3) by (simp add: by_id_Some [OF assms(1)])
  from classify_chain_Ok [OF keyed_by_id [OF assms(1)] this assms(2)] show ?thesis by (simp add: valid_root_def)
qed

lemma valid_depths_dom:
  assumes "distinct (map sn_identity cs)" and "d < 2 ^ 64"
  shows "dom (fst (classify_all (by_id cs) d cs Map.empty sts)) = sn_identity ` {c \<in> set cs. valid_root cs d c}" (is "dom ?vd = _")
proof -
  have valid: "depth_of cs d c \<noteq> None \<longleftrightarrow> valid_root cs d c" if "c \<in> set cs" for c
    using classified [OF assms that] by (auto simp: depth_of_classified [OF assms that] split: sum.splits)
  have at: "depth_of cs d c = (case classify_chain c (by_id cs) d of Inl s \<Rightarrow> None | Inr k \<Rightarrow> Some k)" if "by_id cs i = Some c" for i c
    using that by (intro depth_of_classified [OF assms]) (simp add: by_id_Some [OF assms(1)])
  have "?vd i = Option.bind (by_id cs i) (depth_of cs d)" for i
    using classify_all_apply(1) [OF assms(1), of "by_id cs" d Map.empty sts i] at [of i] by (auto split: option.splits)
  then have "i \<in> dom ?vd \<longleftrightarrow> (\<exists>c. by_id cs i = Some c \<and> depth_of cs d c \<noteq> None)" for i
    by (cases "by_id cs i") auto
  also have "(\<exists>c. by_id cs i = Some c \<and> depth_of cs d c \<noteq> None) \<longleftrightarrow> i \<in> sn_identity ` {c \<in> set cs. valid_root cs d c}" for i
    using valid by (auto simp: by_id_Some [OF assms(1)])
  finally show ?thesis by auto
qed

lemma root_enumerate_Ok:
  assumes "el_max_parent_depth lim < 2 ^ 64"
  shows "root_enumerate cs lim = Inr rep \<longleftrightarrow>
    length cs \<le> el_max_candidates lim \<and> length cs \<le> el_max_results lim \<and> distinct (map sn_identity cs) \<and>
    (let d = el_max_parent_depth lim in
     rep = \<lparr>rep_roots = sort_key root_order (map (root_of cs d) cs), rep_candidates_considered = length cs,
       rep_valid_complete_count = card {c \<in> set cs. valid_root cs d c},
       rep_highest_valid_sequence = (if terminal_roots cs d = {} then None else Some (Max (sn_sequence ` terminal_roots cs d))),
       rep_has_ambiguous_highest_fork = (card (highest_roots cs d) > 1)\<rparr>)"
proof (cases "length cs \<le> el_max_candidates lim \<and> length cs \<le> el_max_results lim \<and> distinct (map sn_identity cs)")
  case False
  then show ?thesis by (auto simp: root_enumerate_def enum_index_Ok index_candidates_Ok split: sum.splits)
next
  case True
  define d where "d = el_max_parent_depth lim"
  obtain vd sts where cl: "classify_all (by_id cs) d cs Map.empty Map.empty = (vd, sts)" by fastforce
  have idx: "enum_index cs Map.empty = Inr (by_id cs)" using True by (simp add: enum_index_Ok index_candidates_Ok)
  define ids where "ids = sorted_list_of_set (dom vd)"
  have dom: "dom vd = sn_identity ` {c \<in> set cs. valid_root cs d c}"
    using valid_depths_dom [of cs d Map.empty] True assms cl by (simp add: d_def)
  have ids: "set ids = sn_identity ` {c \<in> set cs. valid_root cs d c}" "distinct ids" by (simp_all add: ids_def dom)
  have dist: "distinct (map sn_identity cs)" using True by simp
  note L = lists_of_valid [OF dist ids]
  define T H where "T = terminal_list (by_id cs) ids" and "H = highest_list (by_id cs) ids"
  define P where "P = parent_list (by_id cs) ids"
  define hv where "hv = (if map (\<lambda>i. sn_sequence (the (by_id cs i))) T = [] then None else Some (Max (set (map (\<lambda>i. sn_sequence (the (by_id cs i))) T))))"
  have at: "the (by_id cs (sn_identity x)) = x" if "x \<in> set cs" for x using that by_id_Some [OF dist, of "sn_identity x" x] by simp
  have H: "filter (\<lambda>i. Some (sn_sequence (the (by_id cs i))) = hv) T = H"
    by (cases "T = []") (simp_all add: hv_def H_def highest_list_def T_def [symmetric])
  have "(\<lambda>i. sn_sequence (the (by_id cs i))) ` set T = sn_sequence ` terminal_roots cs d"
    unfolding T_def L(3) image_image using at by (intro image_cong) (auto simp: terminal_roots_def)
  moreover have "T = [] \<longleftrightarrow> terminal_roots cs d = {}" using L(3) unfolding T_def [symmetric] by (metis image_is_empty set_empty)
  ultimately have hv: "hv = (if terminal_roots cs d = {} then None else Some (Max (sn_sequence ` terminal_roots cs d)))" by (simp add: hv_def)
  define fin where "fin = (let s = set_statuses (sorted_list_of_set (set P)) ErVerifiedAncestor sts in if length H > 1 then set_statuses H ErVerifiedForkTerminal s else s)"
  have status: "the (fin (sn_identity c)) = status_of cs d c" and depth: "vd (sn_identity c) = depth_of cs d c" if c: "c \<in> set cs" for c
  proof -
    have id: "by_id cs (sn_identity c) = Some c" using c by (simp add: by_id_Some [OF dist])
    have d: "d < 2 ^ 64" using assms by (simp add: d_def)
    note st_of = status_of_classified [OF dist d c] and dp_of = depth_of_classified [OF dist d c]
    show "vd (sn_identity c) = depth_of cs d c"
      using classify_all_apply(1) [OF dist, of "by_id cs" d Map.empty Map.empty "sn_identity c"] cl id by (auto simp: dp_of split: sum.splits)
    have sts: "sts (sn_identity c) = Some (case classify_chain c (by_id cs) d of Inr k \<Rightarrow> ErVerifiedTerminal | Inl s \<Rightarrow> s)"
      using classify_all_apply(2) [OF dist, of "by_id cs" d Map.empty Map.empty "sn_identity c"] cl id by simp
    have inH: "sn_identity c \<in> set H \<longleftrightarrow> c \<in> highest_roots cs d"
      unfolding H_def L(4) using c dist by (auto simp: distinct_map highest_roots_def terminal_roots_def dest: inj_onD)
    show "the (fin (sn_identity c)) = status_of cs d c"
    proof (cases "valid_root cs d c")
      case True
      then obtain k where k: "classify_chain c (by_id cs) d = Inr k" using classified [OF dist _ c] assms d_def by blast
      have inP: "sn_identity c \<in> set P \<longleftrightarrow> superseded (valid_root cs d) (set cs) c" unfolding P_def by (rule L(1) [OF c True])
      have "c \<in> highest_roots cs d \<Longrightarrow> \<not> superseded (valid_root cs d) (set cs) c" by (auto simp: highest_roots_def terminal_roots_def)
      then show ?thesis using sts k inP inH L(5) by (auto simp: fin_def st_of Let_def set_statuses_apply H_def)
    next
      case False
      then have "\<forall>k. classify_chain c (by_id cs) d \<noteq> Inr k" using classified [OF dist _ c] assms d_def by blast
      then obtain e where e: "classify_chain c (by_id cs) d = Inl e" by (cases "classify_chain c (by_id cs) d") auto
      have "sn_identity c \<notin> set P" using False L(2) ids(1) c dist unfolding P_def by (auto simp: distinct_map dest: inj_onD)
      moreover have "c \<notin> highest_roots cs d" using False by (auto simp: highest_roots_def terminal_roots_def)
      ultimately show ?thesis using sts e inH by (auto simp: fin_def st_of Let_def set_statuses_apply)
    qed
  qed
  have "card (dom vd) = card {c \<in> set cs. valid_root cs d c}"
    unfolding dom using dist by (intro card_image) (auto simp: distinct_map intro: inj_on_subset)
  moreover have "root_enumerate cs lim = Inr \<lparr>rep_roots = sort_key root_order (map (\<lambda>c. \<lparr>en_identity = sn_identity c, en_sequence = sn_sequence c,
      en_footer_offset = sn_footer_offset c, en_exact_end = sn_exact_end c, en_status = the (fin (sn_identity c)), en_chain_depth = vd (sn_identity c)\<rparr>) cs),
      rep_candidates_considered = length cs, rep_valid_complete_count = card (dom vd), rep_highest_valid_sequence = hv,
      rep_has_ambiguous_highest_fork = (length H > 1)\<rparr>"
  proof -
    have T: "filter (\<lambda>i. i \<notin> set (sorted_list_of_set (set P))) ids = T" by (simp add: T_def terminal_list_def P_def)
    show ?thesis using True unfolding root_enumerate_def idx sum.case d_def [symmetric] cl prod.case Let_def
        ids_def [symmetric] parent_list_def [symmetric] P_def [symmetric] T hv_def [symmetric] H fin_def root_order_def
      by (simp add: not_less)
  qed
  moreover have "map (\<lambda>c. \<lparr>en_identity = sn_identity c, en_sequence = sn_sequence c, en_footer_offset = sn_footer_offset c,
      en_exact_end = sn_exact_end c, en_status = the (fin (sn_identity c)), en_chain_depth = vd (sn_identity c)\<rparr>) cs = map (root_of cs d) cs"
    using status depth by (simp add: root_of_def)
  ultimately show ?thesis using True L(5) by (auto simp: hv H_def d_def [symmetric])
qed

text \<open>
  C31. Root enumeration is exact. It succeeds exactly for candidates within both limits with distinct
  identities, and reports every candidate with its status and depth, newest footer first. A candidate
  whose own status or checkpoint rules it out has that reason; otherwise its ancestors are followed
  along sound links for as long as the depth limit allows, and it fails with the depth limit or with the
  reason for which the last ancestor does not continue its parent. A candidate without such a failure is
  an ancestor if a valid candidate names it as its parent, a fork terminal if it is one of several
  terminals with the highest sequence, and a terminal otherwise, and its depth is the number of
  generations of its chain. The report counts the valid candidates and gives the highest sequence of a
  terminal.
\<close>

theorem enumeration_exact:
  assumes "el_max_parent_depth lim < 2 ^ 64"
  shows "root_enumerate cs lim = Inr rep \<longleftrightarrow>
    length cs \<le> el_max_candidates lim \<and> length cs \<le> el_max_results lim \<and> distinct (map sn_identity cs) \<and>
    (let d = el_max_parent_depth lim in
     rep = \<lparr>rep_roots = sort_key root_order (map (root_of cs d) cs), rep_candidates_considered = length cs,
       rep_valid_complete_count = card {c \<in> set cs. valid_root cs d c},
       rep_highest_valid_sequence = (if terminal_roots cs d = {} then None else Some (Max (sn_sequence ` terminal_roots cs d))),
       rep_has_ambiguous_highest_fork = (card (highest_roots cs d) > 1)\<rparr>)"
  using assms by (rule root_enumerate_Ok)

lemma chains_dom:
  assumes "distinct (map sn_identity cs)" and "\<And>i. V i = Option.bind (by_id cs i) (chain_of (by_id cs) d)"
  shows "dom V = sn_identity ` {c \<in> set cs. valid_root cs d c}"
proof -
  have valid: "chain_of (by_id cs) d c \<noteq> None \<longleftrightarrow> valid_root cs d c" if "c \<in> set cs" for c
    using chain_of_Some [OF assms(1) that, of d] unfolding valid_root_def by (metis not_None_eq rev_rev_ident)
  have "i \<in> dom V \<longleftrightarrow> (\<exists>c. by_id cs i = Some c \<and> chain_of (by_id cs) d c \<noteq> None)" for i
    using assms(2) [of i] by (cases "by_id cs i") (auto simp: dom_def)
  also have "(\<exists>c. by_id cs i = Some c \<and> chain_of (by_id cs) d c \<noteq> None) \<longleftrightarrow> i \<in> sn_identity ` {c \<in> set cs. valid_root cs d c}" for i
    using valid by (auto simp: by_id_Some [OF assms(1)])
  finally show ?thesis by auto
qed

lemma depth_of_rooted:
  assumes "distinct (map sn_identity cs)" and "d < 2 ^ 64" and "c \<in> set cs" and "rooted (by_id cs) d c is"
  shows "depth_of cs d c = Some (length is)"
proof -
  have "by_id cs (sn_identity c) = Some c" using assms(3) by (simp add: by_id_Some [OF assms(1)])
  then have "classify_chain c (by_id cs) d = Inr (length is)"
    using classify_chain_Ok [OF keyed_by_id [OF assms(1)] _ assms(2)] assms(4) by blast
  then show ?thesis by (simp add: depth_of_classified [OF assms(1-3)])
qed

text \<open>
  C17. Enumeration and recovery agree. Under the same depth limit, recovery finds no root exactly when
  enumeration has no highest sequence, reports an ambiguous fork exactly when enumeration does, and
  otherwise selects the candidate that enumeration lists as a verified terminal with the highest sequence
  and a chain of the same depth.
\<close>

theorem enumeration_agrees_with_selection:
  assumes "root_enumerate cs elim = Inr rep" and "el_max_parent_depth elim = rl_max_parent_depth rlim"
    and "rl_max_parent_depth rlim < 2 ^ 64" and "length cs \<le> rl_max_candidates rlim"
  shows "case root_select cs Recovery rlim of
      Inl e \<Rightarrow> (e = NoValidRoot \<and> rep_highest_valid_sequence rep = None \<and> \<not> rep_has_ambiguous_highest_fork rep) \<or>
        (e = AmbiguousFork \<and> rep_highest_valid_sequence rep \<noteq> None \<and> rep_has_ambiguous_highest_fork rep)
    | Inr r \<Rightarrow> \<not> rep_has_ambiguous_highest_fork rep \<and> rep_highest_valid_sequence rep = Some (rr_selected_sequence r) \<and>
        (\<exists>x \<in> set (rep_roots rep). en_identity x = rr_selected r \<and> en_status x = ErVerifiedTerminal \<and>
           en_chain_depth x = Some (length (rr_chain r)))"
proof -
  define d where "d = rl_max_parent_depth rlim"
  have dist: "distinct (map sn_identity cs)" and rep: "rep_roots rep = sort_key root_order (map (root_of cs d) cs)"
    "rep_highest_valid_sequence rep = (if terminal_roots cs d = {} then None else Some (Max (sn_sequence ` terminal_roots cs d)))"
    "rep_has_ambiguous_highest_fork rep = (card (highest_roots cs d) > 1)"
    using assms(1) root_enumerate_Ok [of elim cs rep] assms(2,3) by (simp_all add: d_def Let_def)
  obtain V rj where ev: "evaluate_all (by_id cs) d cs Map.empty [] = (V, rj)" by fastforce
  have V: "V i = Option.bind (by_id cs i) (chain_of (by_id cs) d)" for i using evaluate_all_by_id [OF dist, of d "[]" i] ev by simp
  define ids where "ids = sorted_list_of_set (dom V)"
  have ids: "set ids = sn_identity ` {c \<in> set cs. valid_root cs d c}" "distinct ids" using chains_dom [OF dist V] by (simp_all add: ids_def)
  note L = lists_of_valid [OF dist ids]
  have idx: "index_candidates cs Map.empty = Inr (by_id cs)" using dist by (simp add: index_candidates_Ok)
  have sel: "root_select cs Recovery rlim = (case select_recovery (by_id cs) V of Inl e \<Rightarrow> Inl e
      | Inr c \<Rightarrow> (case V (sn_identity c) of None \<Rightarrow> Inl NoValidRoot | Some chain \<Rightarrow>
        Inr \<lparr>rr_mode = Recovery, rr_selected = sn_identity c, rr_selected_sequence = sn_sequence c, rr_chain = chain, rr_rejected = rj,
          rr_candidates_considered = length cs\<rparr>))"
    using assms(4) ev idx by (simp add: root_select_def d_def)
  show ?thesis
  proof (cases "terminal_roots cs d = {}")
    case True
    then have "terminal_list (by_id cs) ids = []" "highest_roots cs d = {}" using L(3) by (auto simp: highest_roots_def)
    then show ?thesis using sel True rep by (simp add: select_recovery_lists ids_def [symmetric])
  next
    case False
    then have T: "terminal_list (by_id cs) ids \<noteq> []" using L(3) by auto
    then have H: "highest_list (by_id cs) ids \<noteq> []" by (rule highest_list_nonempty)
    show ?thesis
    proof (cases "length (highest_list (by_id cs) ids) = 1")
      case True
      then obtain i where i: "highest_list (by_id cs) ids = [i]" by (auto simp: length_Suc_conv)
      then obtain c where c: "i = sn_identity c" "c \<in> highest_roots cs d" using L(4) by auto
      then have c': "c \<in> set cs" "valid_root cs d c" "\<not> superseded (valid_root cs d) (set cs) c" "c \<in> terminal_roots cs d"
        "\<forall>x \<in> terminal_roots cs d. sn_sequence x \<le> sn_sequence c"
        by (auto simp: highest_roots_def terminal_roots_def)
      have id: "by_id cs (sn_identity c) = Some c" using c' by (simp add: by_id_Some [OF dist])
      obtain "is" where "is": "rooted (by_id cs) d c is" using c'(2) by (auto simp: valid_root_def)
      then have ch: "V (sn_identity c) = Some (rev is)" using V id chain_of_Some [OF dist c'(1), of d "rev is"] by simp
      have k: "depth_of cs d c = Some (length is)" using depth_of_rooted [OF dist _ c'(1) "is"] assms(3) by (simp add: d_def)
      then have st: "status_of cs d c = ErVerifiedTerminal"
        using c'(3) True L(5) by (auto simp: depth_of_def status_of_def split: if_splits)
      have "finite (terminal_roots cs d)" by (rule finite_subset [of _ "set cs"]) (auto simp: terminal_roots_def)
      then have "Max (sn_sequence ` terminal_roots cs d) = sn_sequence c" using c'(4,5) by (intro Max_eqI) auto
      moreover have "root_of cs d c \<in> set (rep_roots rep)" using rep(1) c'(1) by simp
      ultimately show ?thesis
        using sel i T c(1) id ch rep False True L(5) k st
        by (auto simp: select_recovery_lists ids_def [symmetric] root_of_def intro!: bexI [of _ "root_of cs d c"])
    next
      case more: False
      then have "length (highest_list (by_id cs) ids) > 1" using H by (cases "highest_list (by_id cs) ids") auto
      moreover have "select_recovery (by_id cs) V = Inl AmbiguousFork"
        using T more by (auto simp: select_recovery_lists ids_def [symmetric] split: list.splits)
      ultimately show ?thesis using sel rep False L(5) by simp
    qed
  qed
qed

section \<open>Witnesses\<close>

lemma sample_enumerated:
  obtains rep where "root_enumerate sample_snapshots enumeration_limits_default = Inr rep"
proof -
  have "(el_max_parent_depth enumeration_limits_default) < 2 ^ 64" by (simp add: enumeration_limits_default_def)
  note ok = root_enumerate_Ok [OF this, of sample_snapshots]
  have "length sample_snapshots \<le> el_max_candidates enumeration_limits_default" "length sample_snapshots \<le> el_max_results enumeration_limits_default"
    "distinct (map sn_identity sample_snapshots)"
    by (simp_all add: sample_snapshots_def sample_snapshot_def enumeration_limits_default_def)
  with ok that show ?thesis by (simp add: Let_def)
qed

lemma enumeration_exact_witness:
  "\<exists>rep. root_enumerate sample_snapshots enumeration_limits_default = Inr rep \<and> length (rep_roots rep) = 4"
proof -
  obtain rep where rep: "root_enumerate sample_snapshots enumeration_limits_default = Inr rep" by (rule sample_enumerated)
  have lim: "el_max_parent_depth enumeration_limits_default < 2 ^ 64" by (simp add: enumeration_limits_default_def)
  from rep show ?thesis unfolding enumeration_exact [OF lim] by (auto simp: Let_def sample_snapshots_def)
qed

lemma enumeration_agrees_with_selection_witness:
  "\<exists>rep. root_enumerate sample_snapshots enumeration_limits_default = Inr rep \<and>
     (case root_select sample_snapshots Recovery root_selection_limits_default of
        Inl e \<Rightarrow> e = NoValidRoot \<or> e = AmbiguousFork
      | Inr r \<Rightarrow> rep_highest_valid_sequence rep = Some (rr_selected_sequence r))"
proof -
  obtain rep where rep: "root_enumerate sample_snapshots enumeration_limits_default = Inr rep" by (rule sample_enumerated)
  have "el_max_parent_depth enumeration_limits_default = rl_max_parent_depth root_selection_limits_default"
    "rl_max_parent_depth root_selection_limits_default < 2 ^ 64" "length sample_snapshots \<le> rl_max_candidates root_selection_limits_default"
    by (simp_all add: enumeration_limits_default_def root_selection_limits_default_def sample_snapshots_def)
  from enumeration_agrees_with_selection [OF rep this] rep show ?thesis
    by (cases "root_select sample_snapshots Recovery root_selection_limits_default") auto
qed

end
