(* ===== verification/Ucof_Exp2_Format.thy ===== *)
theory Ucof_Exp2_Format
  imports Ucof_Directory Ucof_Model
begin

text \<open>
  \<open>ucof-experiments/src/exp0002.rs\<close>, the byte candidate of epoch EXP-0002: constants, errors, limits and
  the fixed records of the format with their encoders and parsers. A fixed-size array is a list of bytes;
  writing a range of it is \<open>put_slice\<close> and reading a range is \<open>slice\<close>. Names that the first epoch also
  uses carry the prefix \<open>x2\<close>.
\<close>

section \<open>Constants\<close>

abbreviation FILE_HEADER_LEN :: usize where "FILE_HEADER_LEN \<equiv> 64"
abbreviation OBJECT_HEADER_LEN :: usize where "OBJECT_HEADER_LEN \<equiv> 48"
abbreviation PAGE_HEADER_LEN :: usize where "PAGE_HEADER_LEN \<equiv> 64"
abbreviation PAGE_SIZE :: usize where "PAGE_SIZE \<equiv> 16384"
abbreviation LEAF_ENTRY_LEN :: usize where "LEAF_ENTRY_LEN \<equiv> 88"
abbreviation INTERNAL_ENTRY_LEN :: usize where "INTERNAL_ENTRY_LEN \<equiv> 64"
abbreviation LEAF_CAPACITY :: usize where "LEAF_CAPACITY \<equiv> (PAGE_SIZE - PAGE_HEADER_LEN) div LEAF_ENTRY_LEN"
abbreviation INTERNAL_CAPACITY :: usize where "INTERNAL_CAPACITY \<equiv> (PAGE_SIZE - PAGE_HEADER_LEN) div INTERNAL_ENTRY_LEN"
abbreviation SNAPSHOT_HEADER_LEN :: usize where "SNAPSHOT_HEADER_LEN \<equiv> 160"
abbreviation X2_FOOTER_LEN :: usize where "X2_FOOTER_LEN \<equiv> 160"
abbreviation ABSENT_OFFSET :: u64 where "ABSENT_OFFSET \<equiv> - 1"
abbreviation DIGEST_SHA256 :: u16 where "DIGEST_SHA256 \<equiv> 1"

definition X2_FILE_MAGIC :: bytes where "X2_FILE_MAGIC = str_bytes ''UCOF2'' @ [13, 10, 26]"
definition OBJECT_MAGIC :: bytes where "OBJECT_MAGIC = str_bytes ''OBJ2''"
definition PAGE_MAGIC :: bytes where "PAGE_MAGIC = str_bytes ''PG02''"
definition SNAPSHOT_MAGIC :: bytes where "SNAPSHOT_MAGIC = str_bytes ''SNP2''"
definition X2_FOOTER_MAGIC :: bytes where "X2_FOOTER_MAGIC = str_bytes ''UCOF2END''"

definition OBJECT_DOMAIN :: bytes where "OBJECT_DOMAIN = str_bytes ''UCOF-EXP-0002-OBJECT'' @ [0]"
definition PAGE_DOMAIN :: bytes where "PAGE_DOMAIN = str_bytes ''UCOF-EXP-0002-PAGE'' @ [0]"
definition SNAPSHOT_DOMAIN :: bytes where "SNAPSHOT_DOMAIN = str_bytes ''UCOF-EXP-0002-SNAPSHOT'' @ [0]"
definition COMMIT_DOMAIN :: bytes where "COMMIT_DOMAIN = str_bytes ''UCOF-EXP-0002-COMMIT'' @ [0]"

section \<open>Errors and limits\<close>

datatype exp0002_error =
    X2ArithmeticOverflow | X2Truncated | X2InvalidMagic string | X2InvalidVersion | X2InvalidLength string
  | X2InvalidFlags string | X2InvalidReserved string | X2UnsupportedDigest | X2InvalidObjectKind | X2InvalidObjectId
  | X2DuplicateObjectId u64 | X2LogicalLengthMismatch | X2InvalidPageKind | X2InvalidPageLevel | X2InvalidEntryCount
  | X2InvalidEntrySize | X2InvalidPageRange | X2UnorderedEntries | X2OverlappingRanges | X2InvalidPageReference
  | X2PageCycle | X2DigestMismatch string | X2InvalidSnapshotSequence | X2InvalidParent | X2InvalidPreviousFooter
  | X2InvalidCommitRange | X2InvalidRoot | X2InvalidCapabilitySet | X2PhysicalOverlap | X2ResourceLimit string
  | X2EmptyObjectSet | X2NoRootObjects

fun exp0002_display :: "exp0002_error \<Rightarrow> string" where
  "exp0002_display X2ArithmeticOverflow = ''arithmetic overflow''"
| "exp0002_display X2Truncated = ''truncated input''"
| "exp0002_display (X2InvalidMagic n) = ''invalid '' @ n @ '' magic''"
| "exp0002_display X2InvalidVersion = ''invalid experimental version''"
| "exp0002_display (X2InvalidLength n) = ''invalid '' @ n @ '' length''"
| "exp0002_display (X2InvalidFlags n) = ''invalid '' @ n @ '' flags''"
| "exp0002_display (X2InvalidReserved n) = ''non-zero reserved '' @ n @ '' bytes''"
| "exp0002_display X2UnsupportedDigest = ''unsupported digest algorithm''"
| "exp0002_display X2InvalidObjectKind = ''invalid object kind''"
| "exp0002_display X2InvalidObjectId = ''invalid object identifier''"
| "exp0002_display (X2DuplicateObjectId i) = ''duplicate object identifier '' @ show_dec (unat i)"
| "exp0002_display X2LogicalLengthMismatch = ''logical and payload lengths differ''"
| "exp0002_display X2InvalidPageKind = ''invalid page kind''"
| "exp0002_display X2InvalidPageLevel = ''invalid page level''"
| "exp0002_display X2InvalidEntryCount = ''invalid page entry count''"
| "exp0002_display X2InvalidEntrySize = ''invalid page entry size''"
| "exp0002_display X2InvalidPageRange = ''invalid page range''"
| "exp0002_display X2UnorderedEntries = ''unordered entries''"
| "exp0002_display X2OverlappingRanges = ''overlapping ranges''"
| "exp0002_display X2InvalidPageReference = ''invalid page reference''"
| "exp0002_display X2PageCycle = ''directory page cycle''"
| "exp0002_display (X2DigestMismatch n) = n @ '' digest mismatch''"
| "exp0002_display X2InvalidSnapshotSequence = ''invalid snapshot sequence''"
| "exp0002_display X2InvalidParent = ''invalid parent snapshot''"
| "exp0002_display X2InvalidPreviousFooter = ''invalid previous footer''"
| "exp0002_display X2InvalidCommitRange = ''invalid commit range''"
| "exp0002_display X2InvalidRoot = ''invalid root identifier''"
| "exp0002_display X2InvalidCapabilitySet = ''invalid capability set''"
| "exp0002_display X2PhysicalOverlap = ''overlapping physical ranges''"
| "exp0002_display (X2ResourceLimit n) = ''resource limit exceeded: '' @ n"
| "exp0002_display X2EmptyObjectSet = ''snapshot contains no objects''"
| "exp0002_display X2NoRootObjects = ''snapshot contains no roots''"

type_synonym 'a x2_result = "exp0002_error + 'a"

record validation_limits =
  vl_max_file_bytes :: u64
  vl_max_commit_bytes :: u64
  vl_max_snapshot_bytes :: u64
  vl_max_pages :: usize
  vl_max_page_depth :: usize
  vl_max_objects :: usize
  vl_max_payload_bytes :: u64
  vl_max_hashed_bytes :: u64
  vl_max_roots :: usize
  vl_max_capabilities :: usize

definition validation_limits_default :: validation_limits where
  "validation_limits_default = \<lparr>vl_max_file_bytes = 17179869184, vl_max_commit_bytes = 17179869184,
     vl_max_snapshot_bytes = 16777216, vl_max_pages = 1000000, vl_max_page_depth = 32, vl_max_objects = 10000000,
     vl_max_payload_bytes = 17179869184, vl_max_hashed_bytes = 34359738368, vl_max_roots = 1000000,
     vl_max_capabilities = 65536\<rparr>"

section \<open>Slices\<close>

definition zeros :: "usize \<Rightarrow> bytes" where
  "zeros n = replicate n 0"

definition slice :: "bytes \<Rightarrow> usize \<Rightarrow> usize \<Rightarrow> bytes" where
  "slice bs start stop = take (stop - start) (drop start bs)"

definition put_slice :: "bytes \<Rightarrow> usize \<Rightarrow> bytes \<Rightarrow> bytes" where
  "put_slice bs offset img = take offset bs @ img @ drop (offset + length img) bs"

definition put_u16 :: "bytes \<Rightarrow> usize \<Rightarrow> u16 \<Rightarrow> bytes" where
  "put_u16 bs offset v = put_slice bs offset (le_image 2 v)"

definition put_u32 :: "bytes \<Rightarrow> usize \<Rightarrow> u32 \<Rightarrow> bytes" where
  "put_u32 bs offset v = put_slice bs offset (le_image 4 v)"

definition put_u64 :: "bytes \<Rightarrow> usize \<Rightarrow> u64 \<Rightarrow> bytes" where
  "put_u64 bs offset v = put_slice bs offset (le_image 8 v)"

definition read_array :: "usize \<Rightarrow> bytes \<Rightarrow> usize \<Rightarrow> bytes x2_result" where
  "read_array n bs offset =
     (case usize_checked_add offset n of
        None \<Rightarrow> Inl X2ArithmeticOverflow
      | Some stop \<Rightarrow> ok_or X2Truncated (byte_get bs offset stop))"

definition read_u16 :: "bytes \<Rightarrow> usize \<Rightarrow> u16 x2_result" where
  "read_u16 bs offset = and_then (read_array 2 bs offset) (\<lambda>v. Inr (le_value v))"

definition read_u32 :: "bytes \<Rightarrow> usize \<Rightarrow> u32 x2_result" where
  "read_u32 bs offset = and_then (read_array 4 bs offset) (\<lambda>v. Inr (le_value v))"

definition read_u64 :: "bytes \<Rightarrow> usize \<Rightarrow> u64 x2_result" where
  "read_u64 bs offset = and_then (read_array 8 bs offset) (\<lambda>v. Inr (le_value v))"

definition require_len :: "bytes \<Rightarrow> usize \<Rightarrow> unit x2_result" where
  "require_len bs n = (if length bs < n then Inl X2Truncated else Inr ())"

definition require_zero :: "bytes \<Rightarrow> string \<Rightarrow> unit x2_result" where
  "require_zero bs name = (if \<exists>b \<in> set bs. b \<noteq> 0 then Inl (X2InvalidReserved name) else Inr ())"

definition to_u64 :: "usize \<Rightarrow> u64 x2_result" where
  "to_u64 n = ok_or X2ArithmeticOverflow (u64_try_from n)"

definition to_usize :: "u64 \<Rightarrow> usize x2_result" where
  "to_usize v = ok_or X2ArithmeticOverflow (usize_try_from v)"

definition x2_checked_range :: "u64 \<Rightarrow> u64 \<Rightarrow> usize \<Rightarrow> (usize \<times> usize) x2_result" where
  "x2_checked_range offset len n =
     (case checked_add offset len of
        None \<Rightarrow> Inl X2ArithmeticOverflow
      | Some stop \<Rightarrow>
        and_then (to_usize offset) (\<lambda>start. and_then (to_usize stop) (\<lambda>stop.
        if stop > n \<or> start > stop then Inl X2Truncated else Inr (start, stop))))"

fun ranges_overlap :: "usize \<times> usize \<Rightarrow> usize \<times> usize \<Rightarrow> bool" where
  "ranges_overlap (a, b) (c, d) \<longleftrightarrow> a < d \<and> c < b"

definition overlaps_any :: "usize \<times> usize \<Rightarrow> (usize \<times> usize) list \<Rightarrow> bool" where
  "overlaps_any r rs \<longleftrightarrow> (\<exists>s \<in> set rs. ranges_overlap r s)"

definition canonical_values :: "u64 list \<Rightarrow> exp0002_error \<Rightarrow> u64 list x2_result" where
  "canonical_values values error =
     (let values = sort values in
      if (values \<noteq> [] \<and> hd values = 0) \<or> (\<exists>(a, b) \<in> set (windows2 values). a = b) then Inl error else Inr values)"

definition validate_sorted_unique :: "u64 list \<Rightarrow> exp0002_error \<Rightarrow> unit x2_result" where
  "validate_sorted_unique values error =
     (if (values \<noteq> [] \<and> hd values = 0) \<or> (\<exists>(a, b) \<in> set (windows2 values). a \<ge> b) then Inl error else Inr ())"

fun read_u64_array :: "bytes \<Rightarrow> usize \<Rightarrow> usize \<Rightarrow> (u64 list \<times> usize) x2_result" where
  "read_u64_array bs cursor 0 = Inr ([], cursor)"
| "read_u64_array bs cursor (Suc count) =
     and_then (read_u64 bs cursor) (\<lambda>v.
     case usize_checked_add cursor 8 of
       None \<Rightarrow> Inl X2ArithmeticOverflow
     | Some cursor \<Rightarrow> and_then (read_u64_array bs cursor count) (\<lambda>(vs, cursor). Inr (v # vs, cursor)))"

section \<open>File header\<close>

record x2_file_header =
  fh_file_id :: bytes
  fh_creation_nonce :: bytes

definition file_header_encode :: "x2_file_header \<Rightarrow> bytes" where
  "file_header_encode h =
     (let bytes = zeros FILE_HEADER_LEN;
          bytes = put_slice bytes 0 X2_FILE_MAGIC;
          bytes = put_u16 bytes 8 2;
          bytes = put_u16 bytes 10 64;
          bytes = put_u32 bytes 12 0;
          bytes = put_u32 bytes 16 16384;
          bytes = put_u16 bytes 20 DIGEST_SHA256;
          bytes = put_slice bytes 24 (fh_file_id h) in
      put_slice bytes 40 (fh_creation_nonce h))"

definition file_header_parse :: "bytes \<Rightarrow> x2_file_header x2_result" where
  "file_header_parse bytes =
     and_then (require_len bytes FILE_HEADER_LEN) (\<lambda>_.
     if slice bytes 0 8 \<noteq> X2_FILE_MAGIC then Inl (X2InvalidMagic ''file header'') else
     and_then (read_u16 bytes 8) (\<lambda>version.
     if version \<noteq> 2 then Inl X2InvalidVersion else
     and_then (read_u16 bytes 10) (\<lambda>len.
     if unat len \<noteq> FILE_HEADER_LEN then Inl (X2InvalidLength ''file header'') else
     and_then (read_u32 bytes 12) (\<lambda>flags.
     if flags \<noteq> 0 then Inl (X2InvalidFlags ''file header'') else
     and_then (read_u32 bytes 16) (\<lambda>page_size.
     if page_size \<noteq> 16384 then Inl (X2InvalidLength ''directory page'') else
     and_then (read_u16 bytes 20) (\<lambda>digest.
     if digest \<noteq> DIGEST_SHA256 then Inl X2UnsupportedDigest else
     and_then (require_zero (slice bytes 22 24) ''file header'') (\<lambda>_.
     and_then (require_zero (slice bytes 56 64) ''file header'') (\<lambda>_.
     and_then (read_array 16 bytes 24) (\<lambda>file_id.
     and_then (read_array 16 bytes 40) (\<lambda>nonce.
     Inr \<lparr>fh_file_id = file_id, fh_creation_nonce = nonce\<rparr>))))))))))"

section \<open>Object header\<close>

record object_input =
  oi_object_id :: u64
  oi_kind :: u16
  oi_payload :: bytes
  oi_is_root :: bool

record object_header =
  oh_object_id :: u64
  oh_kind :: u16
  oh_payload_len :: u64
  oh_logical_len :: u64

definition object_header_encode :: "object_header \<Rightarrow> bytes" where
  "object_header_encode h =
     (let bytes = zeros OBJECT_HEADER_LEN;
          bytes = put_slice bytes 0 OBJECT_MAGIC;
          bytes = put_u16 bytes 4 48;
          bytes = put_u16 bytes 6 (oh_kind h);
          bytes = put_u32 bytes 8 0;
          bytes = put_u64 bytes 12 (oh_object_id h);
          bytes = put_u64 bytes 20 (oh_payload_len h) in
      put_u64 bytes 28 (oh_logical_len h))"

definition object_header_parse :: "bytes \<Rightarrow> object_header x2_result" where
  "object_header_parse bytes =
     and_then (require_len bytes OBJECT_HEADER_LEN) (\<lambda>_.
     if slice bytes 0 4 \<noteq> OBJECT_MAGIC then Inl (X2InvalidMagic ''object'') else
     and_then (read_u16 bytes 4) (\<lambda>len.
     if unat len \<noteq> OBJECT_HEADER_LEN then Inl (X2InvalidLength ''object header'') else
     and_then (read_u16 bytes 6) (\<lambda>kind.
     if kind = 0 then Inl X2InvalidObjectKind else
     and_then (read_u32 bytes 8) (\<lambda>flags.
     if flags \<noteq> 0 then Inl (X2InvalidFlags ''object'') else
     and_then (read_u64 bytes 12) (\<lambda>object_id.
     if object_id = 0 then Inl X2InvalidObjectId else
     and_then (read_u64 bytes 20) (\<lambda>payload_len.
     and_then (read_u64 bytes 28) (\<lambda>logical_len.
     if payload_len \<noteq> logical_len then Inl X2LogicalLengthMismatch else
     and_then (require_zero (slice bytes 36 48) ''object'') (\<lambda>_.
     Inr \<lparr>oh_object_id = object_id, oh_kind = kind, oh_payload_len = payload_len, oh_logical_len = logical_len\<rparr>))))))))"

section \<open>Directory entries\<close>

record leaf_entry =
  le_object_id :: u64
  le_kind :: u16
  le_record_offset :: u64
  le_record_len :: u64
  le_logical_len :: u64
  le_record_digest :: bytes

definition leaf_entry_encode_into :: "leaf_entry \<Rightarrow> bytes \<Rightarrow> bytes" where
  "leaf_entry_encode_into e bytes =
     (let bytes = put_u64 bytes 0 (le_object_id e);
          bytes = put_u16 bytes 8 (le_kind e);
          bytes = put_u16 bytes 10 0;
          bytes = put_u32 bytes 12 0;
          bytes = put_u64 bytes 16 (le_record_offset e);
          bytes = put_u64 bytes 24 (le_record_len e);
          bytes = put_u64 bytes 32 (le_logical_len e) in
      put_slice bytes 40 (le_record_digest e))"

definition leaf_entry_parse :: "bytes \<Rightarrow> leaf_entry x2_result" where
  "leaf_entry_parse bytes =
     and_then (require_len bytes LEAF_ENTRY_LEN) (\<lambda>_.
     and_then (read_u64 bytes 0) (\<lambda>object_id.
     if object_id = 0 then Inl X2InvalidObjectId else
     and_then (read_u16 bytes 8) (\<lambda>kind.
     if kind = 0 then Inl X2InvalidObjectKind else
     and_then (read_u16 bytes 10) (\<lambda>flags.
     if flags \<noteq> 0 then Inl (X2InvalidFlags ''leaf entry'') else
     and_then (read_u32 bytes 12) (\<lambda>flags.
     if flags \<noteq> 0 then Inl (X2InvalidFlags ''leaf entry'') else
     and_then (require_zero (slice bytes 72 88) ''leaf entry'') (\<lambda>_.
     and_then (read_u64 bytes 16) (\<lambda>record_offset.
     and_then (read_u64 bytes 24) (\<lambda>record_len.
     and_then (read_u64 bytes 32) (\<lambda>logical_len.
     and_then (read_array 32 bytes 40) (\<lambda>digest.
     Inr \<lparr>le_object_id = object_id, le_kind = kind, le_record_offset = record_offset, le_record_len = record_len,
       le_logical_len = logical_len, le_record_digest = digest\<rparr>))))))))))"

record internal_entry =
  ie_min_key :: u64
  ie_max_key :: u64
  ie_page_offset :: u64
  ie_page_len :: u32
  ie_level :: u16
  ie_page_digest :: bytes

definition internal_entry_encode_into :: "internal_entry \<Rightarrow> bytes \<Rightarrow> bytes" where
  "internal_entry_encode_into e bytes =
     (let bytes = put_u64 bytes 0 (ie_min_key e);
          bytes = put_u64 bytes 8 (ie_max_key e);
          bytes = put_u64 bytes 16 (ie_page_offset e);
          bytes = put_u32 bytes 24 (ie_page_len e);
          bytes = put_u16 bytes 28 (ie_level e);
          bytes = put_u16 bytes 30 0 in
      put_slice bytes 32 (ie_page_digest e))"

definition internal_entry_parse :: "bytes \<Rightarrow> internal_entry x2_result" where
  "internal_entry_parse bytes =
     and_then (require_len bytes INTERNAL_ENTRY_LEN) (\<lambda>_.
     and_then (read_u64 bytes 0) (\<lambda>min_key.
     and_then (read_u64 bytes 8) (\<lambda>max_key.
     if min_key = 0 \<or> min_key > max_key then Inl X2InvalidPageRange else
     and_then (read_u32 bytes 24) (\<lambda>page_len.
     if unat page_len \<noteq> PAGE_SIZE then Inl (X2InvalidLength ''child page'') else
     and_then (read_u16 bytes 30) (\<lambda>flags.
     if flags \<noteq> 0 then Inl (X2InvalidFlags ''internal entry'') else
     and_then (read_u64 bytes 16) (\<lambda>page_offset.
     and_then (read_u32 bytes 24) (\<lambda>page_len.
     and_then (read_u16 bytes 28) (\<lambda>level.
     and_then (read_array 32 bytes 32) (\<lambda>digest.
     Inr \<lparr>ie_min_key = min_key, ie_max_key = max_key, ie_page_offset = page_offset, ie_page_len = page_len,
       ie_level = level, ie_page_digest = digest\<rparr>)))))))))"

end
