(* ===== verification/Ucof_Exp2_Pages.thy ===== *)
theory Ucof_Exp2_Pages
  imports Ucof_Exp2_Format
begin

text \<open>
  \<open>exp0002.rs\<close>, continued: directory pages, snapshots and footers with their encoders and parsers.
\<close>

section \<open>Conversions\<close>

definition u16_from_usize :: "usize \<Rightarrow> u16 option" where
  "u16_from_usize n = (if n < 2 ^ 16 then Some (of_nat n) else None)"

definition u32_from_usize :: "usize \<Rightarrow> u32 option" where
  "u32_from_usize n = (if n < 2 ^ 32 then Some (of_nat n) else None)"

definition u8_from_u16 :: "u16 \<Rightarrow> u8 option" where
  "u8_from_u16 v = (if unat v < 2 ^ 8 then Some (ucast v) else None)"

definition usize_checked_mul :: "usize \<Rightarrow> usize \<Rightarrow> usize option" where
  "usize_checked_mul a b = (if a * b < 2 ^ 64 then Some (a * b) else None)"

text \<open>\<open>binary_search(v).is_ok()\<close> on a slice of \<open>u64\<close>.\<close>

definition binary_search_ok :: "u64 list \<Rightarrow> u64 \<Rightarrow> bool" where
  "binary_search_ok vs v \<longleftrightarrow> vs \<noteq> [] \<and> vs ! search_loop (\<lambda>i. vs ! i) v 0 (length vs) = v"

section \<open>Pages\<close>

record x2_page_header =
  ph_kind :: u8
  ph_level :: u8
  ph_entry_count :: u16
  ph_min_key :: u64
  ph_max_key :: u64
  ph_sequence :: u64

datatype parsed_page = ParsedLeaf x2_page_header "leaf_entry list" | ParsedInternal x2_page_header "internal_entry list"

fun parsed_header :: "parsed_page \<Rightarrow> x2_page_header" where
  "parsed_header (ParsedLeaf header es) = header"
| "parsed_header (ParsedInternal header es) = header"

record page_locator =
  pl_min_key :: u64
  pl_max_key :: u64
  pl_offset :: u64
  pl_level :: u16
  pl_digest :: bytes

definition encode_page_header :: "bytes \<Rightarrow> u8 \<Rightarrow> u8 \<Rightarrow> usize \<Rightarrow> usize \<Rightarrow> u64 \<Rightarrow> u64 \<Rightarrow> u64 \<Rightarrow> bytes x2_result" where
  "encode_page_header page kind level entry_count entry_size min_key max_key sequence =
     (let page = put_slice page 0 PAGE_MAGIC;
          page = put_slice page 4 [kind];
          page = put_slice page 5 [level];
          page = put_u16 page 6 64 in
      and_then (ok_or X2ArithmeticOverflow (u16_from_usize entry_count)) (\<lambda>count.
      let page = put_u16 page 8 count in
      and_then (ok_or X2ArithmeticOverflow (u16_from_usize entry_size)) (\<lambda>size.
      let page = put_u16 page 10 size;
          page = put_u32 page 12 0;
          page = put_u64 page 16 min_key;
          page = put_u64 page 24 max_key in
      Inr (put_u64 page 32 sequence))))"

text \<open>\<open>for (index, entry) in entries.iter().enumerate()\<close>: every entry is encoded into its slot.\<close>

fun put_entries :: "('e \<Rightarrow> bytes \<Rightarrow> bytes) \<Rightarrow> usize \<Rightarrow> bytes \<Rightarrow> usize \<Rightarrow> 'e list \<Rightarrow> bytes" where
  "put_entries encode entry_len page index [] = page"
| "put_entries encode entry_len page index (entry # entries) =
     (let start = PAGE_HEADER_LEN + index * entry_len in
      put_entries encode entry_len (put_slice page start (encode entry (slice page start (start + entry_len)))) (index + 1) entries)"

definition encode_leaf_page :: "leaf_entry list \<Rightarrow> u64 \<Rightarrow> bytes x2_result" where
  "encode_leaf_page entries sequence =
     (if entries = [] \<or> length entries > LEAF_CAPACITY then Inl X2InvalidEntryCount else
      if \<exists>(a, b) \<in> set (windows2 entries). le_object_id a \<ge> le_object_id b then Inl X2UnorderedEntries else
      and_then (encode_page_header (zeros PAGE_SIZE) 1 0 (length entries) LEAF_ENTRY_LEN
        (le_object_id (hd entries)) (le_object_id (last entries)) sequence) (\<lambda>page.
      Inr (put_entries leaf_entry_encode_into LEAF_ENTRY_LEN page 0 entries)))"

definition encode_internal_page :: "page_locator list \<Rightarrow> u64 \<Rightarrow> u16 \<Rightarrow> bytes x2_result" where
  "encode_internal_page children sequence level =
     (if children = [] \<or> length children > INTERNAL_CAPACITY then Inl X2InvalidEntryCount else
      if level = 0 \<or> level > 255 then Inl X2InvalidPageLevel else
      if \<exists>(a, b) \<in> set (windows2 children). pl_max_key a \<ge> pl_min_key b \<or> pl_level a \<noteq> pl_level b then Inl X2OverlappingRanges else
      and_then (ok_or X2InvalidPageLevel (u8_from_u16 level)) (\<lambda>l.
      and_then (encode_page_header (zeros PAGE_SIZE) 2 l (length children) INTERNAL_ENTRY_LEN
        (pl_min_key (hd children)) (pl_max_key (last children)) sequence) (\<lambda>page.
      Inr (put_entries (\<lambda>child. internal_entry_encode_into \<lparr>ie_min_key = pl_min_key child, ie_max_key = pl_max_key child,
          ie_page_offset = pl_offset child, ie_page_len = 16384, ie_level = pl_level child, ie_page_digest = pl_digest child\<rparr>)
        INTERNAL_ENTRY_LEN page 0 children))))"

definition x2_validate_leaf_order :: "x2_page_header \<Rightarrow> leaf_entry list \<Rightarrow> unit x2_result" where
  "x2_validate_leaf_order header entries =
     (if entries = [] \<or> le_object_id (hd entries) \<noteq> ph_min_key header \<or> le_object_id (last entries) \<noteq> ph_max_key header
      then Inl X2InvalidPageRange else
      if \<exists>(a, b) \<in> set (windows2 entries). le_object_id a \<ge> le_object_id b then Inl X2UnorderedEntries else Inr ())"

definition validate_internal_order :: "x2_page_header \<Rightarrow> internal_entry list \<Rightarrow> unit x2_result" where
  "validate_internal_order header entries =
     (if entries = [] \<or> ie_min_key (hd entries) \<noteq> ph_min_key header \<or> ie_max_key (last entries) \<noteq> ph_max_key header
      then Inl X2InvalidPageRange else
      if \<exists>e \<in> set entries. checked_add (ie_level e) 1 \<noteq> Some (ucast (ph_level header)) then Inl X2InvalidPageLevel else
      if \<exists>(a, b) \<in> set (windows2 entries). ie_max_key a \<ge> ie_min_key b then Inl X2OverlappingRanges else Inr ())"

definition parse_page :: "bytes \<Rightarrow> parsed_page x2_result" where
  "parse_page bytes =
     (if length bytes \<noteq> PAGE_SIZE then Inl (X2InvalidLength ''page'') else
      if slice bytes 0 4 \<noteq> PAGE_MAGIC then Inl (X2InvalidMagic ''page'') else
      let kind = bytes ! 4; level = bytes ! 5 in
      and_then (read_u16 bytes 6) (\<lambda>header_len.
      if unat header_len \<noteq> PAGE_HEADER_LEN then Inl (X2InvalidLength ''page header'') else
      and_then (read_u16 bytes 8) (\<lambda>entry_count.
      if entry_count = 0 then Inl X2InvalidEntryCount else
      and_then (read_u16 bytes 10) (\<lambda>entry_size.
      and_then (read_u32 bytes 12) (\<lambda>flags.
      if flags \<noteq> 0 then Inl (X2InvalidFlags ''page'') else
      and_then (read_u64 bytes 16) (\<lambda>min_key.
      and_then (read_u64 bytes 24) (\<lambda>max_key.
      if min_key = 0 \<or> min_key > max_key then Inl X2InvalidPageRange else
      and_then (require_zero (slice bytes 40 64) ''page header'') (\<lambda>_.
      and_then (read_u64 bytes 32) (\<lambda>sequence.
      let header = \<lparr>ph_kind = kind, ph_level = level, ph_entry_count = entry_count, ph_min_key = min_key,
            ph_max_key = max_key, ph_sequence = sequence\<rparr>;
          count = unat entry_count; entry_size = unat entry_size in
      if kind = 1 then
        (if level \<noteq> 0 \<or> entry_size \<noteq> LEAF_ENTRY_LEN \<or> count > LEAF_CAPACITY then
           Inl (if level \<noteq> 0 then X2InvalidPageLevel else if entry_size \<noteq> LEAF_ENTRY_LEN then X2InvalidEntrySize else X2InvalidEntryCount) else
         let used = PAGE_HEADER_LEN + count * LEAF_ENTRY_LEN in
         and_then (require_zero (drop used bytes) ''page padding'') (\<lambda>_.
         and_then (try_map (\<lambda>index. let start = PAGE_HEADER_LEN + index * LEAF_ENTRY_LEN in
             leaf_entry_parse (slice bytes start (start + LEAF_ENTRY_LEN))) [0..<count]) (\<lambda>entries.
         and_then (x2_validate_leaf_order header entries) (\<lambda>_. Inr (ParsedLeaf header entries)))))
      else if kind = 2 then
        (if level = 0 \<or> entry_size \<noteq> INTERNAL_ENTRY_LEN \<or> count > INTERNAL_CAPACITY then
           Inl (if level = 0 then X2InvalidPageLevel else if entry_size \<noteq> INTERNAL_ENTRY_LEN then X2InvalidEntrySize else X2InvalidEntryCount) else
         let used = PAGE_HEADER_LEN + count * INTERNAL_ENTRY_LEN in
         and_then (require_zero (drop used bytes) ''page padding'') (\<lambda>_.
         and_then (try_map (\<lambda>index. let start = PAGE_HEADER_LEN + index * INTERNAL_ENTRY_LEN in
             internal_entry_parse (slice bytes start (start + INTERNAL_ENTRY_LEN))) [0..<count]) (\<lambda>entries.
         and_then (validate_internal_order header entries) (\<lambda>_. Inr (ParsedInternal header entries)))))
      else Inl X2InvalidPageKind)))))))))"

section \<open>Snapshots\<close>

record x2_snapshot =
  xs_sequence :: u64
  xs_parent_snapshot_digest :: bytes
  xs_previous_footer_offset :: u64
  xs_directory_root_offset :: u64
  xs_directory_root_len :: u32
  xs_directory_root_level :: u16
  xs_directory_root_digest :: bytes
  xs_roots :: "u64 list"
  xs_required_capabilities :: "u64 list"
  xs_optional_capabilities :: "u64 list"

fun put_values :: "bytes \<Rightarrow> usize \<Rightarrow> u64 list \<Rightarrow> bytes" where
  "put_values bytes cursor [] = bytes"
| "put_values bytes cursor (v # vs) = put_values (put_u64 bytes cursor v) (cursor + 8) vs"

definition snapshot_encode :: "x2_snapshot \<Rightarrow> bytes x2_result" where
  "snapshot_encode s =
     and_then (validate_sorted_unique (xs_roots s) X2InvalidRoot) (\<lambda>_.
     and_then (validate_sorted_unique (xs_required_capabilities s) X2InvalidCapabilitySet) (\<lambda>_.
     and_then (validate_sorted_unique (xs_optional_capabilities s) X2InvalidCapabilitySet) (\<lambda>_.
     if \<exists>v \<in> set (xs_required_capabilities s). binary_search_ok (xs_optional_capabilities s) v then Inl X2InvalidCapabilitySet else
     and_then (ok_or X2ArithmeticOverflow (Option.bind (usize_checked_add (length (xs_roots s)) (length (xs_required_capabilities s)))
       (\<lambda>v. usize_checked_add v (length (xs_optional_capabilities s))))) (\<lambda>count.
     and_then (ok_or X2ArithmeticOverflow (usize_checked_mul count 8)) (\<lambda>array_bytes.
     and_then (ok_or X2ArithmeticOverflow (usize_checked_add SNAPSHOT_HEADER_LEN array_bytes)) (\<lambda>total_len.
     let bytes = zeros total_len;
         bytes = put_slice bytes 0 SNAPSHOT_MAGIC;
         bytes = put_u16 bytes 4 160;
         bytes = put_u16 bytes 6 0;
         bytes = put_u64 bytes 8 (xs_sequence s);
         bytes = put_slice bytes 16 (xs_parent_snapshot_digest s);
         bytes = put_u64 bytes 48 (xs_previous_footer_offset s);
         bytes = put_u64 bytes 56 (xs_directory_root_offset s);
         bytes = put_u32 bytes 64 (xs_directory_root_len s);
         bytes = put_u16 bytes 68 (xs_directory_root_level s);
         bytes = put_u16 bytes 70 DIGEST_SHA256;
         bytes = put_slice bytes 72 (xs_directory_root_digest s) in
     and_then (ok_or X2ArithmeticOverflow (u32_from_usize (length (xs_roots s)))) (\<lambda>n_roots.
     let bytes = put_u32 bytes 104 n_roots in
     and_then (ok_or X2ArithmeticOverflow (u32_from_usize (length (xs_required_capabilities s)))) (\<lambda>n_required.
     let bytes = put_u32 bytes 108 n_required in
     and_then (ok_or X2ArithmeticOverflow (u32_from_usize (length (xs_optional_capabilities s)))) (\<lambda>n_optional.
     let bytes = put_u32 bytes 112 n_optional in
     Inr (put_values bytes SNAPSHOT_HEADER_LEN (xs_roots s @ xs_required_capabilities s @ xs_optional_capabilities s)))))))))))"

definition snapshot_parse :: "bytes \<Rightarrow> validation_limits \<Rightarrow> x2_snapshot x2_result" where
  "snapshot_parse bytes lim =
     and_then (require_len bytes SNAPSHOT_HEADER_LEN) (\<lambda>_.
     if slice bytes 0 4 \<noteq> SNAPSHOT_MAGIC then Inl (X2InvalidMagic ''snapshot'') else
     and_then (read_u16 bytes 4) (\<lambda>header_len.
     if unat header_len \<noteq> SNAPSHOT_HEADER_LEN then Inl (X2InvalidLength ''snapshot header'') else
     and_then (read_u16 bytes 6) (\<lambda>flags.
     if flags \<noteq> 0 then Inl (X2InvalidFlags ''snapshot'') else
     and_then (read_u16 bytes 70) (\<lambda>digest.
     if digest \<noteq> DIGEST_SHA256 then Inl X2UnsupportedDigest else
     and_then (read_u32 bytes 64) (\<lambda>root_len.
     if unat root_len \<noteq> PAGE_SIZE then Inl (X2InvalidLength ''directory root'') else
     and_then (require_zero (slice bytes 116 160) ''snapshot'') (\<lambda>_.
     and_then (read_u32 bytes 104) (\<lambda>n_roots.
     and_then (read_u32 bytes 108) (\<lambda>n_required.
     and_then (read_u32 bytes 112) (\<lambda>n_optional.
     let root_count = unat n_roots; required_count = unat n_required; optional_count = unat n_optional in
     if root_count > vl_max_roots lim then Inl (X2ResourceLimit ''snapshot roots'') else
     and_then (ok_or X2ArithmeticOverflow (usize_checked_add required_count optional_count)) (\<lambda>capabilities.
     if capabilities > vl_max_capabilities lim then Inl (X2ResourceLimit ''capabilities'') else
     and_then (ok_or X2ArithmeticOverflow (Option.bind (usize_checked_add root_count required_count)
       (\<lambda>v. usize_checked_add v optional_count))) (\<lambda>count.
     and_then (ok_or X2ArithmeticOverflow (usize_checked_mul count 8)) (\<lambda>array_bytes.
     and_then (ok_or X2ArithmeticOverflow (usize_checked_add SNAPSHOT_HEADER_LEN array_bytes)) (\<lambda>expected_len.
     if length bytes \<noteq> expected_len then Inl (X2InvalidLength ''snapshot'') else
     and_then (to_u64 expected_len) (\<lambda>expected.
     if expected > vl_max_snapshot_bytes lim then Inl (X2ResourceLimit ''snapshot bytes'') else
     and_then (read_u64_array bytes SNAPSHOT_HEADER_LEN root_count) (\<lambda>(rts, cursor).
     and_then (read_u64_array bytes cursor required_count) (\<lambda>(required, cursor).
     and_then (read_u64_array bytes cursor optional_count) (\<lambda>(optional, cursor).
     and_then (validate_sorted_unique rts X2InvalidRoot) (\<lambda>_.
     and_then (validate_sorted_unique required X2InvalidCapabilitySet) (\<lambda>_.
     and_then (validate_sorted_unique optional X2InvalidCapabilitySet) (\<lambda>_.
     if \<exists>v \<in> set required. binary_search_ok optional v then Inl X2InvalidCapabilitySet else
     and_then (read_u64 bytes 8) (\<lambda>sequence.
     and_then (read_array 32 bytes 16) (\<lambda>parent_digest.
     and_then (read_u64 bytes 48) (\<lambda>previous_footer_offset.
     and_then (read_u64 bytes 56) (\<lambda>root_offset.
     and_then (read_u32 bytes 64) (\<lambda>root_len.
     and_then (read_u16 bytes 68) (\<lambda>root_level.
     and_then (read_array 32 bytes 72) (\<lambda>root_digest.
     Inr \<lparr>xs_sequence = sequence, xs_parent_snapshot_digest = parent_digest, xs_previous_footer_offset = previous_footer_offset,
       xs_directory_root_offset = root_offset, xs_directory_root_len = root_len, xs_directory_root_level = root_level,
       xs_directory_root_digest = root_digest, xs_roots = rts, xs_required_capabilities = required,
       xs_optional_capabilities = optional\<rparr>)))))))))))))))))))))))))))"

section \<open>Footers\<close>

record x2_footer =
  xf_commit_start :: u64
  xf_commit_len :: u64
  xf_snapshot_offset :: u64
  xf_snapshot_len :: u64
  xf_sequence :: u64
  xf_previous_footer_offset :: u64
  xf_record_count :: u64
  xf_snapshot_digest :: bytes
  xf_commit_digest :: bytes

definition footer_semantics :: "x2_footer \<Rightarrow> bytes" where
  "footer_semantics f =
     (let bytes = zeros 104;
          bytes = put_u16 bytes 0 160;
          bytes = put_u16 bytes 2 2;
          bytes = put_u32 bytes 4 0;
          bytes = put_u64 bytes 8 (xf_commit_start f);
          bytes = put_u64 bytes 16 (xf_commit_len f);
          bytes = put_u64 bytes 24 (xf_snapshot_offset f);
          bytes = put_u64 bytes 32 (xf_snapshot_len f);
          bytes = put_u64 bytes 40 (xf_sequence f);
          bytes = put_u64 bytes 48 (xf_previous_footer_offset f);
          bytes = put_u64 bytes 56 (xf_record_count f);
          bytes = put_u16 bytes 64 DIGEST_SHA256 in
      put_slice bytes 72 (xf_snapshot_digest f))"

definition footer_encode :: "x2_footer \<Rightarrow> bytes" where
  "footer_encode f =
     (let bytes = zeros X2_FOOTER_LEN;
          bytes = put_slice bytes 0 X2_FOOTER_MAGIC;
          bytes = put_slice bytes 8 (footer_semantics f) in
      put_slice bytes 112 (xf_commit_digest f))"

definition footer_parse :: "bytes \<Rightarrow> x2_footer x2_result" where
  "footer_parse bytes =
     and_then (require_len bytes X2_FOOTER_LEN) (\<lambda>_.
     if length bytes \<noteq> X2_FOOTER_LEN then Inl (X2InvalidLength ''footer'') else
     if slice bytes 0 8 \<noteq> X2_FOOTER_MAGIC then Inl (X2InvalidMagic ''footer'') else
     and_then (read_u16 bytes 8) (\<lambda>len.
     if unat len \<noteq> X2_FOOTER_LEN then Inl (X2InvalidLength ''footer'') else
     and_then (read_u16 bytes 10) (\<lambda>version.
     if version \<noteq> 2 then Inl X2InvalidVersion else
     and_then (read_u32 bytes 12) (\<lambda>flags.
     if flags \<noteq> 0 then Inl (X2InvalidFlags ''footer'') else
     and_then (read_u16 bytes 72) (\<lambda>digest.
     if digest \<noteq> DIGEST_SHA256 then Inl X2UnsupportedDigest else
     and_then (require_zero (slice bytes 74 80) ''footer'') (\<lambda>_.
     and_then (require_zero (slice bytes 144 160) ''footer'') (\<lambda>_.
     and_then (read_u64 bytes 16) (\<lambda>commit_start.
     and_then (read_u64 bytes 24) (\<lambda>commit_len.
     and_then (read_u64 bytes 32) (\<lambda>snapshot_offset.
     and_then (read_u64 bytes 40) (\<lambda>snapshot_len.
     and_then (read_u64 bytes 48) (\<lambda>sequence.
     and_then (read_u64 bytes 56) (\<lambda>previous_footer_offset.
     and_then (read_u64 bytes 64) (\<lambda>record_count.
     and_then (read_array 32 bytes 80) (\<lambda>snapshot_digest.
     and_then (read_array 32 bytes 112) (\<lambda>commit_digest.
     Inr \<lparr>xf_commit_start = commit_start, xf_commit_len = commit_len, xf_snapshot_offset = snapshot_offset,
       xf_snapshot_len = snapshot_len, xf_sequence = sequence, xf_previous_footer_offset = previous_footer_offset,
       xf_record_count = record_count, xf_snapshot_digest = snapshot_digest, xf_commit_digest = commit_digest\<rparr>))))))))))))))))"

end
