(* ===== verification/Ucof_Exp2_File.thy ===== *)
theory Ucof_Exp2_File
  imports Ucof_Exp2_Pages
begin

text \<open>
  \<open>exp0002.rs\<close>, continued: building a genesis file and an appended commit, and strict validation of the
  latest commit. \<open>sha\<close> is the SHA-256 function of the \<open>sha2\<close> crate; a hasher that is updated several times
  hashes the concatenation. The head of a list that models a stack is its top; a counter passed by mutable
  reference is threaded through.
\<close>

definition digest_bytes :: "(bytes \<Rightarrow> bytes) \<Rightarrow> bytes \<Rightarrow> bytes \<Rightarrow> bytes" where
  "digest_bytes sha domain bs = sha (domain @ bs)"

definition digest_commit :: "(bytes \<Rightarrow> bytes) \<Rightarrow> bytes \<Rightarrow> x2_footer \<Rightarrow> bytes" where
  "digest_commit sha commit_bytes f = sha (COMMIT_DOMAIN @ commit_bytes @ footer_semantics f)"

section \<open>Objects\<close>

fun write_records :: "(bytes \<Rightarrow> bytes) \<Rightarrow> object_input list \<Rightarrow> u64 option \<Rightarrow> bytes \<Rightarrow> leaf_entry list \<Rightarrow> (bytes \<times> leaf_entry list) x2_result" where
  "write_records sha [] previous_id bytes entries = Inr (bytes, entries)"
| "write_records sha (object # objects) previous_id bytes entries =
     (if oi_object_id object = 0 then Inl X2InvalidObjectId else
      if oi_kind object = 0 then Inl X2InvalidObjectKind else
      if previous_id = Some (oi_object_id object) then Inl (X2DuplicateObjectId (oi_object_id object)) else
      and_then (to_u64 (length (oi_payload object))) (\<lambda>payload_len.
      let header = object_header_encode \<lparr>oh_object_id = oi_object_id object, oh_kind = oi_kind object,
            oh_payload_len = payload_len, oh_logical_len = payload_len\<rparr> in
      and_then (to_u64 (length bytes)) (\<lambda>record_offset.
      let digest = sha (OBJECT_DOMAIN @ header @ oi_payload object);
          bytes = bytes @ header @ oi_payload object in
      and_then (ok_or X2ArithmeticOverflow (checked_add 48 payload_len)) (\<lambda>record_len.
      write_records sha objects (Some (oi_object_id object)) bytes
        (entries @ [\<lparr>le_object_id = oi_object_id object, le_kind = oi_kind object, le_record_offset = record_offset,
          le_record_len = record_len, le_logical_len = payload_len, le_record_digest = digest\<rparr>])))))"

definition write_object_records :: "(bytes \<Rightarrow> bytes) \<Rightarrow> bytes \<Rightarrow> object_input list \<Rightarrow> (bytes \<times> leaf_entry list) x2_result" where
  "write_object_records sha bytes objects = write_records sha (sort_key oi_object_id objects) None bytes []"

section \<open>Directory\<close>

fun write_leaves :: "(bytes \<Rightarrow> bytes) \<Rightarrow> u64 \<Rightarrow> leaf_entry list list \<Rightarrow> bytes \<Rightarrow> page_locator list \<Rightarrow> (bytes \<times> page_locator list) x2_result" where
  "write_leaves sha sequence [] bytes level = Inr (bytes, level)"
| "write_leaves sha sequence (chunk # rest) bytes level =
     and_then (encode_leaf_page chunk sequence) (\<lambda>page.
     and_then (to_u64 (length bytes)) (\<lambda>offset.
     let digest = digest_bytes sha PAGE_DOMAIN page in
     write_leaves sha sequence rest (bytes @ page)
       (level @ [\<lparr>pl_min_key = le_object_id (hd chunk), pl_max_key = le_object_id (last chunk), pl_offset = offset,
          pl_level = 0, pl_digest = digest\<rparr>])))"

fun write_internals :: "(bytes \<Rightarrow> bytes) \<Rightarrow> u64 \<Rightarrow> page_locator list list \<Rightarrow> bytes \<Rightarrow> page_locator list \<Rightarrow> (bytes \<times> page_locator list) x2_result" where
  "write_internals sha sequence [] bytes next_level = Inr (bytes, next_level)"
| "write_internals sha sequence (chunk # rest) bytes next_level =
     and_then (ok_or X2ArithmeticOverflow (checked_add (pl_level (hd chunk)) 1)) (\<lambda>parent_level.
     and_then (encode_internal_page chunk sequence parent_level) (\<lambda>page.
     and_then (to_u64 (length bytes)) (\<lambda>offset.
     let digest = digest_bytes sha PAGE_DOMAIN page in
     write_internals sha sequence rest (bytes @ page)
       (next_level @ [\<lparr>pl_min_key = pl_min_key (hd chunk), pl_max_key = pl_max_key (last chunk), pl_offset = offset,
          pl_level = parent_level, pl_digest = digest\<rparr>]))))"

lemma write_internals_length:
  "write_internals sha sequence css bytes level = Inr (bytes', level') \<Longrightarrow> length level' = length level + length css"
  by (induction css arbitrary: bytes level) (auto simp: Let_def result_simps)

function write_levels :: "(bytes \<Rightarrow> bytes) \<Rightarrow> u64 \<Rightarrow> bytes \<Rightarrow> page_locator list \<Rightarrow> (bytes \<times> page_locator list) x2_result" where
  "write_levels sha sequence bytes level =
     (if length level \<le> 1 then Inr (bytes, level) else
      case write_internals sha sequence (chunks INTERNAL_CAPACITY level) bytes [] of
        Inl e \<Rightarrow> Inl e
      | Inr (bytes, next_level) \<Rightarrow> write_levels sha sequence bytes next_level)"
  by pat_completeness auto
termination
proof (relation "measure (\<lambda>(sha, sequence, bytes, level). length level)")
  fix sha sequence bytes and level :: "page_locator list" and y bytes' next_level
  assume "\<not> length level \<le> 1" "write_internals sha sequence (chunks INTERNAL_CAPACITY level) bytes [] = Inr y" "(bytes', next_level) = y"
  then show "((sha, sequence, bytes', next_level), sha, sequence, bytes, level) \<in> measure (\<lambda>(sha, sequence, bytes, level). length level)"
    using write_internals_length [of sha sequence "chunks INTERNAL_CAPACITY level" bytes "[]" bytes' next_level]
      length_chunks_less [of INTERNAL_CAPACITY level] by auto
qed simp

declare write_levels.simps [simp del]

definition write_directory :: "(bytes \<Rightarrow> bytes) \<Rightarrow> bytes \<Rightarrow> leaf_entry list \<Rightarrow> u64 \<Rightarrow> (bytes \<times> page_locator) x2_result" where
  "write_directory sha bytes entries sequence =
     (if entries = [] then Inl X2EmptyObjectSet else
      and_then (write_leaves sha sequence (chunks LEAF_CAPACITY entries) bytes []) (\<lambda>(bytes, level).
      and_then (write_levels sha sequence bytes level) (\<lambda>(bytes, level).
      if level = [] then Inl X2EmptyObjectSet else Inr (bytes, last level))))"

section \<open>Commits\<close>

definition finish_commit :: "(bytes \<Rightarrow> bytes) \<Rightarrow> bytes \<Rightarrow> leaf_entry list \<Rightarrow> u64 list \<Rightarrow> u64 \<Rightarrow> bytes \<Rightarrow> u64 \<Rightarrow> u64 \<Rightarrow> u64 \<Rightarrow> bytes x2_result" where
  "finish_commit sha bytes entries rts sequence parent_snapshot_digest previous_footer_offset commit_start record_count =
     and_then (write_directory sha bytes entries sequence) (\<lambda>(bytes, root).
     and_then (snapshot_encode \<lparr>xs_sequence = sequence, xs_parent_snapshot_digest = parent_snapshot_digest,
         xs_previous_footer_offset = previous_footer_offset, xs_directory_root_offset = pl_offset root,
         xs_directory_root_len = 16384, xs_directory_root_level = pl_level root, xs_directory_root_digest = pl_digest root,
         xs_roots = rts, xs_required_capabilities = [], xs_optional_capabilities = []\<rparr>) (\<lambda>snapshot_bytes.
     and_then (to_u64 (length bytes)) (\<lambda>snapshot_offset.
     let snapshot_digest = digest_bytes sha SNAPSHOT_DOMAIN snapshot_bytes;
         bytes = bytes @ snapshot_bytes in
     and_then (to_u64 (length bytes)) (\<lambda>footer_offset.
     and_then (ok_or X2InvalidCommitRange (checked_sub footer_offset commit_start)) (\<lambda>commit_len.
     and_then (to_u64 (length snapshot_bytes)) (\<lambda>snapshot_len.
     let footer = \<lparr>xf_commit_start = commit_start, xf_commit_len = commit_len, xf_snapshot_offset = snapshot_offset,
           xf_snapshot_len = snapshot_len, xf_sequence = sequence, xf_previous_footer_offset = previous_footer_offset,
           xf_record_count = record_count, xf_snapshot_digest = snapshot_digest, xf_commit_digest = zeros 32\<rparr> in
     and_then (to_usize commit_start) (\<lambda>start.
     and_then (to_usize footer_offset) (\<lambda>stop.
     let footer = footer\<lparr>xf_commit_digest := digest_commit sha (slice bytes start stop) footer\<rparr> in
     Inr (bytes @ footer_encode footer)))))))))"

record verified_exp0002 =
  vx_header :: x2_file_header
  vx_footer_offset :: u64
  vx_footer :: x2_footer
  vx_snapshot :: x2_snapshot
  vx_objects :: "leaf_entry list"
  vx_pages_verified :: usize
  vx_bytes_hashed :: u64

definition build_commit :: "(bytes \<Rightarrow> bytes) \<Rightarrow> bytes \<Rightarrow> x2_file_header option \<Rightarrow> verified_exp0002 option \<Rightarrow> object_input list \<Rightarrow> bytes x2_result" where
  "build_commit sha bytes header previous objects =
     (if objects = [] then Inl X2EmptyObjectSet else
      and_then (ok_or X2InvalidParent header) (\<lambda>header.
      let bytes = bytes @ file_header_encode header;
          rts = map oi_object_id (filter oi_is_root objects) in
      and_then (canonical_values rts X2InvalidRoot) (\<lambda>rts.
      if rts = [] then Inl X2NoRootObjects else
      and_then (write_object_records sha bytes objects) (\<lambda>(bytes, entries).
      and_then (case previous of
          None \<Rightarrow> Inr (0, zeros 32, ABSENT_OFFSET, 0)
        | Some v \<Rightarrow>
          and_then (ok_or X2ArithmeticOverflow (checked_add (xs_sequence (vx_snapshot v)) 1)) (\<lambda>sequence.
          and_then (to_u64 (unat (vx_footer_offset v) + X2_FOOTER_LEN)) (\<lambda>commit_start.
          Inr (sequence, xf_snapshot_digest (vx_footer v), vx_footer_offset v, commit_start))))
        (\<lambda>(sequence, parent_digest, previous_footer_offset, commit_start).
      and_then (to_u64 (length entries)) (\<lambda>record_count.
      finish_commit sha bytes entries rts sequence parent_digest previous_footer_offset commit_start record_count))))))"

definition build_genesis :: "(bytes \<Rightarrow> bytes) \<Rightarrow> x2_file_header \<Rightarrow> object_input list \<Rightarrow> bytes x2_result" where
  "build_genesis sha header objects = build_commit sha [] (Some header) None objects"

section \<open>Validation\<close>

definition add_hashed :: "u64 \<Rightarrow> u64 \<Rightarrow> validation_limits \<Rightarrow> u64 x2_result" where
  "add_hashed hashed amount lim =
     (case checked_add hashed amount of
        None \<Rightarrow> Inl X2ArithmeticOverflow
      | Some hashed \<Rightarrow> if hashed > vl_max_hashed_bytes lim then Inl (X2ResourceLimit ''hashed bytes'') else Inr hashed)"

definition validate_parent_link :: "bytes \<Rightarrow> u64 \<Rightarrow> x2_footer \<Rightarrow> x2_snapshot \<Rightarrow> unit x2_result" where
  "validate_parent_link bytes footer_offset footer snapshot =
     (if xf_previous_footer_offset footer = ABSENT_OFFSET then
        (if xf_sequence footer \<noteq> 0 \<or> xf_commit_start footer \<noteq> 0 \<or> xs_parent_snapshot_digest snapshot \<noteq> zeros 32
         then Inl X2InvalidParent else Inr ()) else
      if xf_previous_footer_offset footer \<ge> footer_offset then Inl X2InvalidPreviousFooter else
      and_then (x2_checked_range (xf_previous_footer_offset footer) 160 (length bytes)) (\<lambda>(start, stop).
      and_then (to_usize footer_offset) (\<lambda>footer_start.
      if stop > footer_start then Inl X2InvalidPreviousFooter else
      and_then (footer_parse (slice bytes start stop)) (\<lambda>previous.
      if xf_snapshot_digest previous \<noteq> xs_parent_snapshot_digest snapshot then Inl X2InvalidParent else
      and_then (ok_or X2ArithmeticOverflow (checked_add (xf_sequence previous) 1)) (\<lambda>sequence.
      if sequence \<noteq> xf_sequence footer then Inl X2InvalidParent else
      and_then (ok_or X2ArithmeticOverflow (checked_add (xf_previous_footer_offset footer) 160)) (\<lambda>commit_start.
      if xf_commit_start footer \<noteq> commit_start then Inl X2InvalidParent else Inr ()))))))"

record expected_page =
  ep_offset :: u64
  ep_digest :: bytes
  ep_level :: u16
  ep_min_key :: u64
  ep_max_key :: u64
  ep_depth :: usize

record directory_validation =
  dv_entries :: "leaf_entry list"
  dv_page_ranges :: "(usize \<times> usize) list"
  dv_pages :: usize

lemma unvisited_page_less: "(x :: u64) \<notin> V \<Longrightarrow> card (- insert x V) < card (- V)"
  by (intro psubset_card_mono) auto

function directory_loop :: "(bytes \<Rightarrow> bytes) \<Rightarrow> bytes \<Rightarrow> x2_snapshot \<Rightarrow> validation_limits \<Rightarrow> expected_page list \<Rightarrow> u64 set
    \<Rightarrow> leaf_entry list \<Rightarrow> (usize \<times> usize) list \<Rightarrow> u64 \<Rightarrow> (u64 set \<times> leaf_entry list \<times> (usize \<times> usize) list \<times> u64) x2_result" where
  "directory_loop sha bytes snapshot lim [] visited entries page_ranges hashed = Inr (visited, entries, page_ranges, hashed)"
| "directory_loop sha bytes snapshot lim (expected # stack) visited entries page_ranges hashed =
     (if ep_depth expected > vl_max_page_depth lim then Inl (X2ResourceLimit ''page depth'') else
      if ep_offset expected \<in> visited then Inl X2PageCycle else
      let visited = insert (ep_offset expected) visited in
      if card visited > vl_max_pages lim then Inl (X2ResourceLimit ''pages'') else
      case x2_checked_range (ep_offset expected) 16384 (length bytes) of
        Inl e \<Rightarrow> Inl e
      | Inr (start, stop) \<Rightarrow>
        let page_bytes = slice bytes start stop in
        (case add_hashed hashed 16384 lim of
           Inl e \<Rightarrow> Inl e
         | Inr hashed \<Rightarrow>
           if digest_bytes sha PAGE_DOMAIN page_bytes \<noteq> ep_digest expected then Inl (X2DigestMismatch ''page'') else
           (case parse_page page_bytes of
              Inl e \<Rightarrow> Inl e
            | Inr page \<Rightarrow>
              let header = parsed_header page in
              if ucast (ph_level header) \<noteq> ep_level expected \<or>
                 (ep_min_key expected \<noteq> 0 \<and> ph_min_key header \<noteq> ep_min_key expected) \<or>
                 (ep_max_key expected \<noteq> - 1 \<and> ph_max_key header \<noteq> ep_max_key expected) \<or>
                 ph_sequence header \<noteq> xs_sequence snapshot
              then Inl X2InvalidPageReference else
              let page_ranges = page_ranges @ [(start, stop)] in
              (case page of
                 ParsedLeaf _ page_entries \<Rightarrow>
                   let entries = entries @ page_entries in
                   if length entries > vl_max_objects lim then Inl (X2ResourceLimit ''objects'') else
                   directory_loop sha bytes snapshot lim stack visited entries page_ranges hashed
               | ParsedInternal _ children \<Rightarrow>
                   directory_loop sha bytes snapshot lim
                     (map (\<lambda>child. \<lparr>ep_offset = ie_page_offset child, ep_digest = ie_page_digest child, ep_level = ie_level child,
                        ep_min_key = ie_min_key child, ep_max_key = ie_max_key child, ep_depth = ep_depth expected + 1\<rparr>) children @ stack)
                     visited entries page_ranges hashed))))"
  by pat_completeness auto
termination
  by (relation "measure (\<lambda>(sha, bytes, s, lim, stack, visited, es, rs, h). card (- visited))") (auto intro: unvisited_page_less)

declare directory_loop.simps(2) [simp del]

definition validate_directory :: "(bytes \<Rightarrow> bytes) \<Rightarrow> bytes \<Rightarrow> x2_snapshot \<Rightarrow> validation_limits \<Rightarrow> u64 \<Rightarrow> (directory_validation \<times> u64) x2_result" where
  "validate_directory sha bytes snapshot lim hashed =
     (case directory_loop sha bytes snapshot lim
         [\<lparr>ep_offset = xs_directory_root_offset snapshot, ep_digest = xs_directory_root_digest snapshot,
           ep_level = xs_directory_root_level snapshot, ep_min_key = 0, ep_max_key = - 1, ep_depth = 1\<rparr>] {} [] [] hashed of
        Inl e \<Rightarrow> Inl e
      | Inr (visited, entries, page_ranges, hashed) \<Rightarrow>
        let entries = sort_key le_object_id entries in
        (case List.find (\<lambda>(a, b). le_object_id a \<ge> le_object_id b) (windows2 entries) of
           Some (a, b) \<Rightarrow> Inl (X2DuplicateObjectId (le_object_id b))
         | None \<Rightarrow> Inr (\<lparr>dv_entries = entries, dv_page_ranges = page_ranges, dv_pages = card visited\<rparr>, hashed)))"

fun objects_loop :: "(bytes \<Rightarrow> bytes) \<Rightarrow> bytes \<Rightarrow> (usize \<times> usize) list \<Rightarrow> usize \<times> usize \<Rightarrow> usize \<times> usize \<Rightarrow> validation_limits
    \<Rightarrow> leaf_entry list \<Rightarrow> (usize \<times> usize) list \<Rightarrow> u64 \<Rightarrow> u64 \<Rightarrow> ((usize \<times> usize) list \<times> u64) x2_result" where
  "objects_loop sha bytes page_ranges snapshot_range footer_range lim [] physical payload_total hashed = Inr (physical, hashed)"
| "objects_loop sha bytes page_ranges snapshot_range footer_range lim (entry # entries) physical payload_total hashed =
     (if le_record_len entry < 48 then Inl (X2InvalidLength ''object record'') else
      and_then (x2_checked_range (le_record_offset entry) (le_record_len entry) (length bytes)) (\<lambda>(start, stop).
      if overlaps_any (start, stop) page_ranges \<or> ranges_overlap (start, stop) snapshot_range \<or> ranges_overlap (start, stop) footer_range
      then Inl X2PhysicalOverlap else
      and_then (object_header_parse (slice bytes start (start + OBJECT_HEADER_LEN))) (\<lambda>header.
      and_then (ok_or X2ArithmeticOverflow (checked_add 48 (oh_payload_len header))) (\<lambda>expected_len.
      if oh_object_id header \<noteq> le_object_id entry \<or> oh_kind header \<noteq> le_kind entry \<or>
         oh_logical_len header \<noteq> le_logical_len entry \<or> expected_len \<noteq> le_record_len entry
      then Inl (X2InvalidLength ''object locator'') else
      and_then (ok_or X2ArithmeticOverflow (checked_add payload_total (oh_payload_len header))) (\<lambda>payload_total.
      if payload_total > vl_max_payload_bytes lim then Inl (X2ResourceLimit ''payload bytes'') else
      and_then (add_hashed hashed (le_record_len entry) lim) (\<lambda>hashed.
      if digest_bytes sha OBJECT_DOMAIN (slice bytes start stop) \<noteq> le_record_digest entry then Inl (X2DigestMismatch ''object'') else
      objects_loop sha bytes page_ranges snapshot_range footer_range lim entries (physical @ [(start, stop)]) payload_total hashed))))))"

definition validate_objects :: "(bytes \<Rightarrow> bytes) \<Rightarrow> bytes \<Rightarrow> leaf_entry list \<Rightarrow> (usize \<times> usize) list \<Rightarrow> usize \<times> usize \<Rightarrow> usize \<times> usize
    \<Rightarrow> validation_limits \<Rightarrow> u64 \<Rightarrow> u64 x2_result" where
  "validate_objects sha bytes entries page_ranges snapshot_range footer_range lim hashed =
     and_then (objects_loop sha bytes page_ranges snapshot_range footer_range lim entries [] 0 hashed) (\<lambda>(physical, hashed).
     if \<exists>(a, b) \<in> set (windows2 (sort_key fst physical)). ranges_overlap a b then Inl X2PhysicalOverlap else Inr hashed)"

definition validate_strict :: "(bytes \<Rightarrow> bytes) \<Rightarrow> bytes \<Rightarrow> validation_limits \<Rightarrow> verified_exp0002 x2_result" where
  "validate_strict sha bytes lim =
     and_then (to_u64 (length bytes)) (\<lambda>file_len.
     if file_len > vl_max_file_bytes lim then Inl (X2ResourceLimit ''file bytes'') else
     if length bytes < FILE_HEADER_LEN + X2_FOOTER_LEN then Inl X2Truncated else
     and_then (file_header_parse (take FILE_HEADER_LEN bytes)) (\<lambda>header.
     let footer_start = length bytes - X2_FOOTER_LEN in
     and_then (to_u64 footer_start) (\<lambda>footer_offset.
     and_then (footer_parse (drop footer_start bytes)) (\<lambda>footer.
     and_then (ok_or X2ArithmeticOverflow (checked_add (xf_commit_start footer) (xf_commit_len footer))) (\<lambda>expected_commit_end.
     if expected_commit_end \<noteq> footer_offset \<or> xf_commit_len footer > vl_max_commit_bytes lim then
       Inl (if xf_commit_len footer > vl_max_commit_bytes lim then X2ResourceLimit ''commit bytes'' else X2InvalidCommitRange) else
     if xf_snapshot_offset footer < xf_commit_start footer then Inl X2InvalidCommitRange else
     and_then (x2_checked_range (xf_snapshot_offset footer) (xf_snapshot_len footer) (length bytes)) (\<lambda>(snapshot_start, snapshot_stop).
     if snapshot_stop > footer_start then Inl X2InvalidCommitRange else
     let snapshot_bytes = slice bytes snapshot_start snapshot_stop in
     if digest_bytes sha SNAPSHOT_DOMAIN snapshot_bytes \<noteq> xf_snapshot_digest footer then Inl (X2DigestMismatch ''snapshot'') else
     and_then (snapshot_parse snapshot_bytes lim) (\<lambda>snapshot.
     if xs_sequence snapshot \<noteq> xf_sequence footer \<or> xs_previous_footer_offset snapshot \<noteq> xf_previous_footer_offset footer
     then Inl X2InvalidSnapshotSequence else
     and_then (validate_parent_link bytes footer_offset footer snapshot) (\<lambda>_.
     if xf_commit_len footer > vl_max_hashed_bytes lim then Inl (X2ResourceLimit ''hashed bytes'') else
     and_then (x2_checked_range (xf_commit_start footer) (xf_commit_len footer) (length bytes)) (\<lambda>(commit_start, commit_stop).
     if digest_commit sha (slice bytes commit_start commit_stop) footer \<noteq> xf_commit_digest footer then Inl (X2DigestMismatch ''commit'') else
     and_then (validate_directory sha bytes snapshot lim (xf_commit_len footer)) (\<lambda>(directory, hashed).
     and_then (validate_objects sha bytes (dv_entries directory) (dv_page_ranges directory) (snapshot_start, snapshot_stop)
         (footer_start, length bytes) lim hashed) (\<lambda>hashed.
     let object_ids = set (map le_object_id (dv_entries directory)) in
     if xs_roots snapshot = [] \<or> (\<exists>root \<in> set (xs_roots snapshot). root \<notin> object_ids) then Inl X2InvalidRoot else
     Inr \<lparr>vx_header = header, vx_footer_offset = footer_offset, vx_footer = footer, vx_snapshot = snapshot,
       vx_objects = dv_entries directory, vx_pages_verified = dv_pages directory, vx_bytes_hashed = hashed\<rparr>)))))))))))"

section \<open>Appending\<close>

fun insert_new_ids :: "u64 set \<Rightarrow> object_input list \<Rightarrow> u64 set x2_result" where
  "insert_new_ids seen [] = Inr seen"
| "insert_new_ids seen (object # objects) =
     (if oi_object_id object \<in> seen then Inl (X2DuplicateObjectId (oi_object_id object))
      else insert_new_ids (insert (oi_object_id object) seen) objects)"

definition build_append :: "(bytes \<Rightarrow> bytes) \<Rightarrow> bytes \<Rightarrow> object_input list \<Rightarrow> u64 list \<Rightarrow> validation_limits \<Rightarrow> bytes x2_result" where
  "build_append sha previous_file new_objects rts lim =
     and_then (validate_strict sha previous_file lim) (\<lambda>previous.
     and_then (canonical_values rts X2InvalidRoot) (\<lambda>rts.
     if rts = [] then Inl X2NoRootObjects else
     let existing = vx_objects previous in
     and_then (insert_new_ids (set (map le_object_id existing)) new_objects) (\<lambda>seen.
     and_then (to_u64 (length previous_file)) (\<lambda>commit_start.
     and_then (write_object_records sha previous_file new_objects) (\<lambda>(bytes, added).
     let existing = sort_key le_object_id (existing @ added) in
     if \<exists>root \<in> set rts. root \<notin> set (map le_object_id existing) then Inl X2InvalidRoot else
     and_then (ok_or X2ArithmeticOverflow (checked_add (xs_sequence (vx_snapshot previous)) 1)) (\<lambda>sequence.
     and_then (to_u64 (card seen - length (vx_objects previous))) (\<lambda>record_count.
     finish_commit sha bytes existing rts sequence (xf_snapshot_digest (vx_footer previous)) (vx_footer_offset previous)
       commit_start record_count)))))))"

end
