(* ===== verification/Ucof_Exp2_Codec.thy ===== *)
theory Ucof_Exp2_Codec
  imports Ucof_Exp2_File
begin

text \<open>
  The records of EXP-0002 survive encoding: parsing what an encoder wrote returns the record.
\<close>

section \<open>Reading what was put\<close>

lemma length_zeros [simp]: "length (zeros n) = n"
  by (simp add: zeros_def)

lemma length_slice [simp]: "length (slice bs a b) = min (b - a) (length bs - a)"
  by (simp add: slice_def)

lemma slice_zeros: "b \<le> n \<Longrightarrow> slice (zeros n) a b = zeros (b - a)"
  by (simp add: slice_def zeros_def min_def)

lemma length_put_slice: "off + length img \<le> length bs \<Longrightarrow> length (put_slice bs off img) = length bs"
  by (simp add: put_slice_def)

lemma slice_put_inside:
  "off + length img \<le> length bs \<Longrightarrow> off \<le> a \<Longrightarrow> b \<le> off + length img \<Longrightarrow> slice (put_slice bs off img) a b = slice img (a - off) (b - off)"
  by (simp add: slice_def put_slice_def)

lemma slice_put_before: "off \<le> length bs \<Longrightarrow> b \<le> off \<Longrightarrow> slice (put_slice bs off img) a b = slice bs a b"
  by (cases "a \<le> b") (simp_all add: slice_def put_slice_def drop_take min_def)

lemma slice_put_after: "off + length img \<le> length bs \<Longrightarrow> off + length img \<le> a \<Longrightarrow> slice (put_slice bs off img) a b = slice bs a b"
  by (simp add: slice_def put_slice_def)

lemma slice_full: "b = length bs \<Longrightarrow> slice bs 0 b = bs"
  by (simp add: slice_def)

lemma slice_slice: "b \<le> d - c \<Longrightarrow> slice (slice bs c d) a b = slice bs (c + a) (c + b)"
  by (simp add: slice_def drop_take min_def add.commute)

text \<open>A sequence of writes into disjoint ranges of an array: the length stays, and a range that every write
  covers or misses reads what the last write that covers it has put there.\<close>

fun puts :: "bytes \<Rightarrow> (usize \<times> bytes) list \<Rightarrow> bytes" where
  "puts bs [] = bs"
| "puts bs ((off, img) # ps) = puts (put_slice bs off img) ps"

fun pick :: "(usize \<times> bytes) list \<Rightarrow> usize \<Rightarrow> usize \<Rightarrow> bytes option" where
  "pick [] a b = None"
| "pick ((off, img) # ps) a b =
     (case pick ps a b of
        Some x \<Rightarrow> Some x
      | None \<Rightarrow> if off \<le> a \<and> b \<le> off + length img then Some (slice img (a - off) (b - off)) else None)"

fun puts_fit :: "usize \<Rightarrow> (usize \<times> bytes) list \<Rightarrow> bool" where
  "puts_fit n [] \<longleftrightarrow> True"
| "puts_fit n ((off, img) # ps) \<longleftrightarrow> off + length img \<le> n \<and> puts_fit n ps"

fun puts_apart :: "usize \<Rightarrow> usize \<Rightarrow> (usize \<times> bytes) list \<Rightarrow> bool" where
  "puts_apart a b [] \<longleftrightarrow> True"
| "puts_apart a b ((off, img) # ps) \<longleftrightarrow> (b \<le> off \<or> off + length img \<le> a \<or> off \<le> a \<and> b \<le> off + length img) \<and> puts_apart a b ps"

lemma length_puts: "puts_fit (length bs) ps \<Longrightarrow> length (puts bs ps) = length bs"
  by (induction bs ps rule: puts.induct) (simp_all add: length_put_slice)

lemma slice_puts:
  "puts_fit (length bs) ps \<Longrightarrow> puts_apart a b ps \<Longrightarrow> slice (puts bs ps) a b = (case pick ps a b of Some x \<Rightarrow> x | None \<Rightarrow> slice bs a b)"
proof (induction bs ps rule: puts.induct)
  case (2 bs off img ps)
  then have fit: "off + length img \<le> length bs" by simp
  then have IH: "slice (puts (put_slice bs off img) ps) a b = (case pick ps a b of Some x \<Rightarrow> x | None \<Rightarrow> slice (put_slice bs off img) a b)"
    using 2 by (simp add: length_put_slice)
  have "slice (put_slice bs off img) a b = (if off \<le> a \<and> b \<le> off + length img then slice img (a - off) (b - off) else slice bs a b)"
    using "2.prems"(2) fit by (auto simp: slice_put_inside slice_put_before slice_put_after)
  with IH show ?case by (simp split: option.splits)
qed simp

declare puts.simps [simp del]

lemmas put_defs = put_u16_def put_u32_def put_u64_def puts.simps

lemma read_array_slice: "a + n \<le> length bs \<Longrightarrow> length bs < 2 ^ 64 \<Longrightarrow> read_array n bs a = Inr (slice bs a (a + n))"
  by (simp add: read_array_def usize_checked_add_def byte_get_def ok_or_def slice_def)

lemma read_u16_slice: "a + 2 \<le> length bs \<Longrightarrow> length bs < 2 ^ 64 \<Longrightarrow> read_u16 bs a = Inr (le_value (slice bs a (a + 2)))"
  by (simp add: read_u16_def read_array_slice)

lemma read_u32_slice: "a + 4 \<le> length bs \<Longrightarrow> length bs < 2 ^ 64 \<Longrightarrow> read_u32 bs a = Inr (le_value (slice bs a (a + 4)))"
  by (simp add: read_u32_def read_array_slice)

lemma read_u64_slice: "a + 8 \<le> length bs \<Longrightarrow> length bs < 2 ^ 64 \<Longrightarrow> read_u64 bs a = Inr (le_value (slice bs a (a + 8)))"
  by (simp add: read_u64_def read_array_slice)

lemma require_zero_zeros [simp]: "require_zero (zeros n) name = Inr ()"
  by (simp add: require_zero_def zeros_def)

lemma require_len_Ok [simp]: "n \<le> length bs \<Longrightarrow> require_len bs n = Inr ()"
  by (simp add: require_len_def)

lemma x2_magic_lengths [simp]:
  "length X2_FILE_MAGIC = 8" "length OBJECT_MAGIC = 4" "length PAGE_MAGIC = 4" "length SNAPSHOT_MAGIC = 4" "length X2_FOOTER_MAGIC = 8"
  by (simp_all add: X2_FILE_MAGIC_def OBJECT_MAGIC_def PAGE_MAGIC_def SNAPSHOT_MAGIC_def X2_FOOTER_MAGIC_def str_bytes_def)

lemmas read_slices = read_array_slice read_u16_slice read_u32_slice read_u64_slice
lemmas codec_simps = read_slices length_puts slice_puts slice_full slice_zeros wire_simps

section \<open>Headers\<close>

definition file_header_wf :: "x2_file_header \<Rightarrow> bool" where
  "file_header_wf h \<longleftrightarrow> length (fh_file_id h) = 16 \<and> length (fh_creation_nonce h) = 16"

lemma file_header_puts:
  "file_header_encode h = puts (zeros FILE_HEADER_LEN) [(0, X2_FILE_MAGIC), (8, le_image 2 (2 :: u16)), (10, le_image 2 (64 :: u16)), (12, le_image 4 (0 :: u32)),
     (16, le_image 4 (16384 :: u32)), (20, le_image 2 DIGEST_SHA256), (24, fh_file_id h), (40, fh_creation_nonce h)]"
  by (simp add: file_header_encode_def put_defs Let_def)

lemma length_file_header_encode: "file_header_wf h \<Longrightarrow> length (file_header_encode h) = FILE_HEADER_LEN"
  by (simp add: file_header_puts file_header_wf_def codec_simps)

lemma file_header_round_trip:
  assumes "file_header_wf h"
  shows "file_header_parse (file_header_encode h) = Inr h"
  using assms
  by (simp add: file_header_parse_def length_file_header_encode read_slices)
    (simp add: file_header_puts file_header_wf_def codec_simps)


definition object_header_wf :: "object_header \<Rightarrow> bool" where
  "object_header_wf h \<longleftrightarrow> oh_kind h \<noteq> 0 \<and> oh_object_id h \<noteq> 0 \<and> oh_logical_len h = oh_payload_len h"

lemma object_header_puts:
  "object_header_encode h = puts (zeros OBJECT_HEADER_LEN) [(0, OBJECT_MAGIC), (4, le_image 2 (48 :: u16)), (6, le_image 2 (oh_kind h)), (8, le_image 4 (0 :: u32)),
     (12, le_image 8 (oh_object_id h)), (20, le_image 8 (oh_payload_len h)), (28, le_image 8 (oh_logical_len h))]"
  by (simp add: object_header_encode_def put_defs Let_def)

lemma length_object_header_encode [simp]: "length (object_header_encode h) = OBJECT_HEADER_LEN"
  by (simp add: object_header_puts codec_simps)

lemma object_header_round_trip: "object_header_wf h \<Longrightarrow> object_header_parse (object_header_encode h) = Inr h"
  by (simp add: object_header_parse_def read_slices)
    (simp add: object_header_puts object_header_wf_def codec_simps)

section \<open>Directory entries\<close>

definition leaf_entry_wf :: "leaf_entry \<Rightarrow> bool" where
  "leaf_entry_wf e \<longleftrightarrow> le_object_id e \<noteq> 0 \<and> le_kind e \<noteq> 0 \<and> length (le_record_digest e) = 32"

lemma leaf_entry_puts:
  "leaf_entry_encode_into e bs = puts bs [(0, le_image 8 (le_object_id e)), (8, le_image 2 (le_kind e)), (10, le_image 2 (0 :: u16)), (12, le_image 4 (0 :: u32)),
     (16, le_image 8 (le_record_offset e)), (24, le_image 8 (le_record_len e)), (32, le_image 8 (le_logical_len e)), (40, le_record_digest e)]"
  by (simp add: leaf_entry_encode_into_def put_defs Let_def)

lemma length_leaf_entry_encode: "leaf_entry_wf e \<Longrightarrow> length bs = LEAF_ENTRY_LEN \<Longrightarrow> length (leaf_entry_encode_into e bs) = LEAF_ENTRY_LEN"
  by (simp add: leaf_entry_puts leaf_entry_wf_def codec_simps)

lemma leaf_entry_round_trip: "leaf_entry_wf e \<Longrightarrow> leaf_entry_parse (leaf_entry_encode_into e (zeros LEAF_ENTRY_LEN)) = Inr e"
  by (simp add: leaf_entry_parse_def length_leaf_entry_encode read_slices)
    (simp add: leaf_entry_puts leaf_entry_wf_def codec_simps)

definition internal_entry_wf :: "internal_entry \<Rightarrow> bool" where
  "internal_entry_wf e \<longleftrightarrow> ie_min_key e \<noteq> 0 \<and> ie_min_key e \<le> ie_max_key e \<and> ie_page_len e = 16384 \<and> length (ie_page_digest e) = 32"

lemma internal_entry_puts:
  "internal_entry_encode_into e bs = puts bs [(0, le_image 8 (ie_min_key e)), (8, le_image 8 (ie_max_key e)), (16, le_image 8 (ie_page_offset e)),
     (24, le_image 4 (ie_page_len e)), (28, le_image 2 (ie_level e)), (30, le_image 2 (0 :: u16)), (32, ie_page_digest e)]"
  by (simp add: internal_entry_encode_into_def put_defs Let_def)

lemma length_internal_entry_encode:
  "internal_entry_wf e \<Longrightarrow> length bs = INTERNAL_ENTRY_LEN \<Longrightarrow> length (internal_entry_encode_into e bs) = INTERNAL_ENTRY_LEN"
  by (simp add: internal_entry_puts internal_entry_wf_def codec_simps)

lemma internal_entry_round_trip:
  "internal_entry_wf e \<Longrightarrow> internal_entry_parse (internal_entry_encode_into e (zeros INTERNAL_ENTRY_LEN)) = Inr e"
  by (simp add: internal_entry_parse_def length_internal_entry_encode read_slices)
    (simp add: internal_entry_puts internal_entry_wf_def codec_simps not_less)

section \<open>Entries of a page\<close>

text \<open>A page whose slots from \<open>index\<close> on are still zero receives its entries one after the other.\<close>

lemma put_entries_spec:
  assumes "\<And>e bs. e \<in> set es \<Longrightarrow> length bs = n \<Longrightarrow> length (encode e bs) = n"
    and "64 + (index + length es) * n \<le> length page" and "slice page (64 + index * n) (64 + (index + length es) * n) = zeros (length es * n)"
  shows "length (put_entries encode n page index es) = length page \<and>
    (\<forall>b. b \<le> 64 + index * n \<longrightarrow> (\<forall>a. slice (put_entries encode n page index es) a b = slice page a b)) \<and>
    (\<forall>a b. 64 + (index + length es) * n \<le> a \<longrightarrow> slice (put_entries encode n page index es) a b = slice page a b) \<and>
    (\<forall>i < length es. slice (put_entries encode n page index es) (64 + (index + i) * n) (64 + (index + i) * n + n) = encode (es ! i) (zeros n))"
  using assms
proof (induction es arbitrary: page index)
  case (Cons e es)
  let ?s = "64 + index * n"
  let ?img = "encode e (slice page ?s (?s + n))"
  let ?page = "put_slice page ?s ?img"
  have fits: "?s + n \<le> length page" "?s + n \<le> 64 + (index + length (e # es)) * n" using Cons.prems(2) by (simp_all add: algebra_simps)
  have "slice page ?s (?s + n) = slice (slice page ?s (64 + (index + length (e # es)) * n)) 0 n"
    by (subst slice_slice) (simp_all add: algebra_simps)
  also have "\<dots> = zeros n" unfolding Cons.prems(3) by (simp add: slice_zeros)
  finally have z: "slice page ?s (?s + n) = zeros n" .
  have len: "length ?img = n" using Cons.prems(1) z by simp
  have lenp: "length ?page = length page" using len fits(1) by (simp add: length_put_slice)
  have rest: "slice ?page (64 + (index + 1) * n) (64 + (index + 1 + length es) * n) = zeros (length es * n)"
  proof -
    have "slice ?page (64 + (index + 1) * n) (64 + (index + 1 + length es) * n) = slice page (64 + (index + 1) * n) (64 + (index + 1 + length es) * n)"
      using len fits(1) by (intro slice_put_after) (simp_all add: algebra_simps)
    also have "\<dots> = slice (slice page ?s (64 + (index + length (e # es)) * n)) n (n + length es * n)"
      by (subst slice_slice) (simp_all add: algebra_simps)
    also have "\<dots> = zeros (length es * n)" unfolding Cons.prems(3) by (simp add: slice_zeros)
    finally show ?thesis .
  qed
  have bound: "64 + (index + 1 + length es) * n \<le> length ?page" using Cons.prems(2) lenp by simp
  note IH = Cons.IH [OF Cons.prems(1) bound rest, simplified]
  have run: "put_entries encode n page index (e # es) = put_entries encode n ?page (index + 1) es" by (simp add: Let_def)
  have first: "slice (put_entries encode n ?page (index + 1) es) ?s (?s + n) = encode e (zeros n)"
  proof -
    have "slice (put_entries encode n ?page (index + 1) es) ?s (?s + n) = slice ?page ?s (?s + n)"
      using IH by (simp add: algebra_simps)
    also have "\<dots> = slice ?img 0 n" using len fits(1) by (subst slice_put_inside) simp_all
    also have "\<dots> = encode e (zeros n)" using len z by (simp add: slice_full)
    finally show ?thesis .
  qed
  have before: "slice (put_entries encode n ?page (index + 1) es) a b = slice page a b" if "b \<le> ?s" for a b
  proof -
    have "slice (put_entries encode n ?page (index + 1) es) a b = slice ?page a b" using IH that by simp
    also have "\<dots> = slice page a b" using fits(1) that by (intro slice_put_before) simp_all
    finally show ?thesis .
  qed
  have after: "slice (put_entries encode n ?page (index + 1) es) a b = slice page a b" if "64 + (index + length (e # es)) * n \<le> a" for a b
  proof -
    have "slice (put_entries encode n ?page (index + 1) es) a b = slice ?page a b" using IH that by simp
    also have "\<dots> = slice page a b" using fits(1) le_trans [OF fits(2) that] len by (intro slice_put_after) simp_all
    finally show ?thesis .
  qed
  have slots: "slice (put_entries encode n ?page (index + 1) es) (64 + (index + i) * n) (64 + (index + i) * n + n) = encode ((e # es) ! i) (zeros n)"
    if "i < length (e # es)" for i
  proof (cases i)
    case 0
    then show ?thesis using first by simp
  next
    case (Suc j)
    then show ?thesis using IH that by simp
  qed
  show ?case unfolding run using IH lenp before after slots by simp
qed simp


lemma try_map_nth:
  assumes "\<And>i. i < length es \<Longrightarrow> f i = Inr (es ! i)"
  shows "try_map f [0..<length es] = Inr es"
proof -
  have "try_map f [k..<length es] = Inr (drop k es)" if "k \<le> length es" for k
    using that
  proof (induction "length es - k" arbitrary: k)
    case (Suc n)
    then have k: "k < length es" "n = length es - Suc k" by simp_all
    then have "try_map f [Suc k..<length es] = Inr (drop (Suc k) es)" by (intro Suc.hyps) simp_all
    then show ?case using k assms by (simp add: upt_conv_Cons Cons_nth_drop_Suc)
  qed simp
  from this [of 0] show ?thesis by simp
qed

section \<open>Pages\<close>

lemma encode_page_header_Ok:
  assumes "count < 2 ^ 16" and "sz < 2 ^ 16" and "encode_page_header (zeros PAGE_SIZE) kind level count sz min_key max_key sequence = Inr page"
  shows "length page = PAGE_SIZE" "slice page 0 4 = PAGE_MAGIC" "slice page 4 5 = [kind]" "slice page 5 6 = [level]"
    "slice page 6 8 = le_image 2 (64 :: u16)" "slice page 8 10 = le_image 2 (of_nat count :: u16)" "slice page 10 12 = le_image 2 (of_nat sz :: u16)"
    "slice page 12 16 = le_image 4 (0 :: u32)" "slice page 16 24 = le_image 8 min_key" "slice page 24 32 = le_image 8 max_key"
    "slice page 32 40 = le_image 8 sequence" "slice page 40 64 = zeros 24" "\<And>a b. a \<le> b \<Longrightarrow> b \<le> PAGE_SIZE \<Longrightarrow> 64 \<le> a \<Longrightarrow> slice page a b = zeros (b - a)"
proof -
  have page: "page = puts (zeros PAGE_SIZE) [(0, PAGE_MAGIC), (4, [kind]), (5, [level]), (6, le_image 2 (64 :: u16)), (8, le_image 2 (of_nat count :: u16)),
      (10, le_image 2 (of_nat sz :: u16)), (12, le_image 4 (0 :: u32)), (16, le_image 8 min_key), (24, le_image 8 max_key), (32, le_image 8 sequence)]"
    using assms by (auto simp: encode_page_header_def u16_from_usize_def ok_or_def put_defs Let_def)
  show "length page = PAGE_SIZE" "slice page 0 4 = PAGE_MAGIC" "slice page 4 5 = [kind]" "slice page 5 6 = [level]"
    "slice page 6 8 = le_image 2 (64 :: u16)" "slice page 8 10 = le_image 2 (of_nat count :: u16)" "slice page 10 12 = le_image 2 (of_nat sz :: u16)"
    "slice page 12 16 = le_image 4 (0 :: u32)" "slice page 16 24 = le_image 8 min_key" "slice page 24 32 = le_image 8 max_key"
    "slice page 32 40 = le_image 8 sequence" "slice page 40 64 = zeros 24" "\<And>a b. a \<le> b \<Longrightarrow> b \<le> PAGE_SIZE \<Longrightarrow> 64 \<le> a \<Longrightarrow> slice page a b = zeros (b - a)"
    unfolding page by (simp_all add: codec_simps)
qed

lemma slice_nth: "i < length bs \<Longrightarrow> slice bs i (Suc i) = [bs ! i]"
  by (simp add: slice_def take_Suc_conv_app_nth hd_drop_conv_nth take_Suc)


lemma nth_of_slice: "slice bs i (Suc i) = [b] \<Longrightarrow> bs ! i = b"
proof -
  assume s: "slice bs i (Suc i) = [b]"
  then have "i < length bs" by (cases "i < length bs") (simp_all add: slice_def)
  then show ?thesis using s by (simp add: slice_nth)
qed

lemma windows2_sorted: "(\<forall>(a, b) \<in> set (windows2 xs). f a < (f b :: 'b :: linorder)) \<longleftrightarrow> sorted_wrt (<) (map f xs)"
proof (induction xs rule: windows2.induct)
  case (1 x y xs)
  then show ?case by (auto intro: less_trans)
qed simp_all

lemma windows2_not_ge: "\<not> (\<exists>(a, b) \<in> set (windows2 xs). f a \<ge> (f b :: 'b :: linorder)) \<longleftrightarrow> sorted_wrt (<) (map f xs)"
  unfolding windows2_sorted [symmetric] by (auto simp: not_le)

lemma sorted_hd_last: "sorted_wrt (<) (map f xs) \<Longrightarrow> xs \<noteq> [] \<Longrightarrow> f (hd xs) \<le> (f (last xs) :: 'b :: linorder)"
  by (cases xs) (auto intro: less_imp_le)

lemma drop_slice: "drop n bs = slice bs n (length bs)"
  by (simp add: slice_def)

definition leaf_header :: "leaf_entry list \<Rightarrow> u64 \<Rightarrow> x2_page_header" where
  "leaf_header es sequence = \<lparr>ph_kind = 1, ph_level = 0, ph_entry_count = of_nat (length es), ph_min_key = le_object_id (hd es),
     ph_max_key = le_object_id (last es), ph_sequence = sequence\<rparr>"

lemma unat_of_nat_16: "n < 2 ^ 16 \<Longrightarrow> unat (of_nat n :: u16) = n"
  by (simp add: unat_of_nat take_bit_eq_mod)

lemma encode_leaf_page_Ok:
  assumes "encode_leaf_page es sequence = Inr page"
  shows "es \<noteq> []" "length es \<le> LEAF_CAPACITY" "sorted_wrt (<) (map le_object_id es)"
  using assms windows2_not_ge [of es le_object_id] by (auto simp: encode_leaf_page_def split: if_splits)

lemma leaf_page_round_trip:
  assumes "encode_leaf_page es sequence = Inr page" and "\<forall>e \<in> set es. leaf_entry_wf e"
  shows "length page = PAGE_SIZE" "parse_page page = Inr (ParsedLeaf (leaf_header es sequence) es)"
proof -
  note ok = encode_leaf_page_Ok [OF assms(1)]
  have n: "length es \<le> 185" using ok(2) by simp
  from assms(1) ok obtain p where p: "encode_page_header (zeros PAGE_SIZE) 1 0 (length es) LEAF_ENTRY_LEN (le_object_id (hd es)) (le_object_id (last es)) sequence = Inr p"
    and page: "page = put_entries leaf_entry_encode_into LEAF_ENTRY_LEN p 0 es"
    by (auto simp: encode_leaf_page_def result_simps split: if_splits)
  have "length es < 2 ^ 16" "LEAF_ENTRY_LEN < 2 ^ 16" using n by simp_all
  note hdr = encode_page_header_Ok [OF this p]
  have spec: "length page = PAGE_SIZE" "\<And>a b. b \<le> 64 \<Longrightarrow> slice page a b = slice p a b"
    "\<And>a b. 64 + length es * 88 \<le> a \<Longrightarrow> slice page a b = slice p a b"
    "\<And>i. i < length es \<Longrightarrow> slice page (64 + i * 88) (64 + i * 88 + 88) = leaf_entry_encode_into (es ! i) (zeros 88)"
    using put_entries_spec [of es 88 leaf_entry_encode_into 0 p] assms(2) length_leaf_entry_encode hdr(1,13) n unfolding page by simp_all
  show "length page = PAGE_SIZE" by (rule spec(1))
  have bytes: "page ! 4 = 1" "page ! 5 = 0" using nth_of_slice [of page 4] nth_of_slice [of page 5] spec(2) hdr(3,4) by simp_all
  have cnt: "unat (of_nat (length es) :: u16) = length es" using n by (simp add: unat_of_nat_16)
  then have cnt0: "(of_nat (length es) :: u16) \<noteq> 0" using ok(1) by (auto simp: word_unat_eq_iff)
  have pad: "drop (64 + length es * 88) page = zeros (PAGE_SIZE - (64 + length es * 88))"
    unfolding drop_slice using spec(1,3) hdr(13) n by simp
  have min: "le_object_id (hd es) \<noteq> 0" "\<not> le_object_id (last es) < le_object_id (hd es)"
    using assms(2) ok(1) sorted_hd_last [OF ok(3,1)] by (auto simp: leaf_entry_wf_def not_less)
  have entries: "try_map (\<lambda>index. leaf_entry_parse (slice page (64 + index * 88) (64 + index * 88 + 88))) [0..<length es] = Inr es"
    by (rule try_map_nth) (use spec(4) assms(2) leaf_entry_round_trip in simp)
  have order: "x2_validate_leaf_order (leaf_header es sequence) es = Inr ()"
    using ok windows2_not_ge [of es le_object_id] by (simp add: x2_validate_leaf_order_def leaf_header_def)
  show "parse_page page = Inr (ParsedLeaf (leaf_header es sequence) es)"
    unfolding parse_page_def
    using spec(1,2) hdr(2-12) bytes cnt cnt0 pad min entries order n
    by (simp add: read_slices wire_simps Let_def leaf_header_def)
qed


definition internal_of :: "page_locator \<Rightarrow> internal_entry" where
  "internal_of c = \<lparr>ie_min_key = pl_min_key c, ie_max_key = pl_max_key c, ie_page_offset = pl_offset c, ie_page_len = 16384,
     ie_level = pl_level c, ie_page_digest = pl_digest c\<rparr>"

definition internal_header :: "page_locator list \<Rightarrow> u64 \<Rightarrow> u16 \<Rightarrow> x2_page_header" where
  "internal_header cs sequence level = \<lparr>ph_kind = 2, ph_level = ucast level, ph_entry_count = of_nat (length cs),
     ph_min_key = pl_min_key (hd cs), ph_max_key = pl_max_key (last cs), ph_sequence = sequence\<rparr>"

definition locator_wf :: "page_locator \<Rightarrow> bool" where
  "locator_wf c \<longleftrightarrow> pl_min_key c \<noteq> 0 \<and> pl_min_key c \<le> pl_max_key c \<and> length (pl_digest c) = 32"

lemma locator_internal_wf: "locator_wf c \<Longrightarrow> internal_entry_wf (internal_of c)"
  by (simp add: locator_wf_def internal_entry_wf_def internal_of_def)

lemma chain_hd_last:
  assumes "\<forall>(a, b) \<in> set (windows2 cs). pl_max_key a < pl_min_key b" and "\<forall>c \<in> set cs. pl_min_key c \<le> pl_max_key c" and "cs \<noteq> []"
  shows "pl_min_key (hd cs) \<le> pl_max_key (last cs)"
  using assms
proof (induction cs rule: windows2.induct)
  case (1 x y xs)
  then have "pl_min_key x \<le> pl_max_key x" "pl_max_key x < pl_min_key y" "pl_min_key y \<le> pl_max_key (last (y # xs))" by simp_all
  then show ?case by simp
qed simp_all

lemma windows2_map: "windows2 (map f xs) = map (\<lambda>(a, b). (f a, f b)) (windows2 xs)"
  by (induction xs rule: windows2.induct) simp_all

lemma u16_level: "0 < level \<Longrightarrow> level \<le> 255 \<Longrightarrow> ucast (ucast (level :: u16) :: u8) = level \<and> (ucast level :: u8) \<noteq> 0 \<and> unat level < 256"
proof -
  assume l: "0 < level" "level \<le> 255"
  then have u: "unat level < 256" by (simp add: word_le_nat_alt)
  then have "unat (ucast level :: u8) = unat level" by (simp add: unsigned_ucast_eq take_bit_eq_mod)
  then show ?thesis using u l(1) by (auto simp: word_unat_eq_iff unsigned_ucast_eq take_bit_eq_mod word_less_nat_alt unat_mod)
qed

lemma internal_page_round_trip:
  assumes "encode_internal_page cs sequence level = Inr page" and "\<forall>c \<in> set cs. locator_wf c" and "\<forall>c \<in> set cs. checked_add (pl_level c) 1 = Some level"
  shows "length page = PAGE_SIZE" "parse_page page = Inr (ParsedInternal (internal_header cs sequence level) (map internal_of cs))"
proof -
  have ok: "cs \<noteq> []" "length cs \<le> 255" "0 < level" "level \<le> 255" "\<forall>(a, b) \<in> set (windows2 cs). pl_max_key a < pl_min_key b"
    using assms(1) by (auto simp: encode_internal_page_def not_le word_gt_0 split: if_splits)
  note lv = u16_level [OF ok(3,4)]
  from assms(1) ok lv obtain p where p: "encode_page_header (zeros PAGE_SIZE) 2 (ucast level) (length cs) INTERNAL_ENTRY_LEN (pl_min_key (hd cs)) (pl_max_key (last cs)) sequence = Inr p"
    and page: "page = put_entries (\<lambda>c. internal_entry_encode_into (internal_of c)) INTERNAL_ENTRY_LEN p 0 cs"
    by (auto simp: encode_internal_page_def result_simps u8_from_u16_def ok_or_def internal_of_def split: if_splits)
  have "length cs < 2 ^ 16" "INTERNAL_ENTRY_LEN < 2 ^ 16" using ok(2) by simp_all
  note hdr = encode_page_header_Ok [OF this p]
  have wf: "\<And>c. c \<in> set cs \<Longrightarrow> internal_entry_wf (internal_of c)" using assms(2) locator_internal_wf by blast
  have spec: "length page = PAGE_SIZE" "\<And>a b. b \<le> 64 \<Longrightarrow> slice page a b = slice p a b"
    "\<And>a b. 64 + length cs * 64 \<le> a \<Longrightarrow> slice page a b = slice p a b"
    "\<And>i. i < length cs \<Longrightarrow> slice page (64 + i * 64) (64 + i * 64 + 64) = internal_entry_encode_into (internal_of (cs ! i)) (zeros 64)"
    using put_entries_spec [of cs 64 "\<lambda>c. internal_entry_encode_into (internal_of c)" 0 p] wf length_internal_entry_encode hdr(1,13) ok(2) unfolding page by simp_all
  show "length page = PAGE_SIZE" by (rule spec(1))
  have bytes: "page ! 4 = 2" "page ! 5 = ucast level" using nth_of_slice [of page 4] nth_of_slice [of page 5] spec(2) hdr(3,4) by simp_all
  have cnt: "unat (of_nat (length cs) :: u16) = length cs" using ok(2) by (simp add: unat_of_nat_16)
  then have cnt0: "(of_nat (length cs) :: u16) \<noteq> 0" using ok(1) by (auto simp: word_unat_eq_iff)
  have pad: "drop (64 + length cs * 64) page = zeros (PAGE_SIZE - (64 + length cs * 64))"
    unfolding drop_slice using spec(1,3) hdr(13) ok(2) by simp
  have min: "pl_min_key (hd cs) \<noteq> 0" "\<not> pl_max_key (last cs) < pl_min_key (hd cs)"
    using assms(2) ok(1) chain_hd_last [OF ok(5)] by (auto simp: locator_wf_def not_less)
  have entries: "try_map (\<lambda>index. internal_entry_parse (slice page (64 + index * 64) (64 + index * 64 + 64))) [0..<length (map internal_of cs)] = Inr (map internal_of cs)"
    by (rule try_map_nth) (use spec(4) wf internal_entry_round_trip in simp)
  have order: "validate_internal_order (internal_header cs sequence level) (map internal_of cs) = Inr ()"
    using ok assms(3) lv by (fastforce simp: validate_internal_order_def internal_header_def internal_of_def windows2_map hd_map last_map not_le)
  show "parse_page page = Inr (ParsedInternal (internal_header cs sequence level) (map internal_of cs))"
    unfolding parse_page_def
    using spec(1,2) hdr(2-12) bytes cnt cnt0 pad min entries order ok(2) lv
    by (simp add: read_slices wire_simps Let_def internal_header_def)
qed

section \<open>Footers\<close>

definition footer_wf :: "x2_footer \<Rightarrow> bool" where
  "footer_wf f \<longleftrightarrow> length (xf_snapshot_digest f) = 32 \<and> length (xf_commit_digest f) = 32"

lemma footer_semantics_puts:
  "footer_semantics f = puts (zeros 104) [(0, le_image 2 (160 :: u16)), (2, le_image 2 (2 :: u16)), (4, le_image 4 (0 :: u32)), (8, le_image 8 (xf_commit_start f)),
     (16, le_image 8 (xf_commit_len f)), (24, le_image 8 (xf_snapshot_offset f)), (32, le_image 8 (xf_snapshot_len f)), (40, le_image 8 (xf_sequence f)),
     (48, le_image 8 (xf_previous_footer_offset f)), (56, le_image 8 (xf_record_count f)), (64, le_image 2 DIGEST_SHA256), (72, xf_snapshot_digest f)]"
  by (simp add: footer_semantics_def put_defs Let_def)

lemma footer_puts:
  "footer_encode f = puts (zeros X2_FOOTER_LEN) [(0, X2_FOOTER_MAGIC), (8, footer_semantics f), (112, xf_commit_digest f)]"
  by (simp add: footer_encode_def put_defs Let_def)

lemma length_footer_semantics: "footer_wf f \<Longrightarrow> length (footer_semantics f) = 104"
  by (simp add: footer_semantics_puts footer_wf_def codec_simps)

lemma length_footer_encode: "footer_wf f \<Longrightarrow> length (footer_encode f) = X2_FOOTER_LEN"
  by (simp add: footer_puts length_footer_semantics length_puts footer_wf_def)

lemma footer_slices:
  assumes "footer_wf f"
  shows "slice (footer_encode f) 0 8 = X2_FOOTER_MAGIC" "slice (footer_encode f) 112 144 = xf_commit_digest f" "slice (footer_encode f) 144 160 = zeros 16"
    "8 \<le> a \<Longrightarrow> a < b \<Longrightarrow> b \<le> 112 \<Longrightarrow> slice (footer_encode f) a b = slice (footer_semantics f) (a - 8) (b - 8)"
  using assms length_footer_semantics [OF assms] by (simp_all add: footer_puts footer_wf_def codec_simps)

lemma footer_round_trip: "footer_wf f \<Longrightarrow> footer_parse (footer_encode f) = Inr f"
  by (simp add: footer_parse_def length_footer_encode read_slices footer_slices)
    (simp add: footer_semantics_puts footer_wf_def codec_simps)

lemma footer_semantics_commit [simp]: "footer_semantics (f\<lparr>xf_commit_digest := d\<rparr>) = footer_semantics f"
  by (simp add: footer_semantics_def)

section \<open>Snapshots\<close>

lemma put_values_spec:
  assumes "cursor + 8 * length vs \<le> length bs"
  shows "length (put_values bs cursor vs) = length bs \<and>
    (\<forall>a b. b \<le> cursor \<longrightarrow> slice (put_values bs cursor vs) a b = slice bs a b) \<and>
    (\<forall>i < length vs. slice (put_values bs cursor vs) (cursor + 8 * i) (cursor + 8 * i + 8) = le_image 8 (vs ! i))"
  using assms
proof (induction vs arbitrary: bs cursor)
  case (Cons v vs)
  have len: "length (put_u64 bs cursor v) = length bs" using Cons.prems by (simp add: put_u64_def length_put_slice)
  then have IH: "length (put_values (put_u64 bs cursor v) (cursor + 8) vs) = length bs"
    "\<And>a b. b \<le> cursor + 8 \<Longrightarrow> slice (put_values (put_u64 bs cursor v) (cursor + 8) vs) a b = slice (put_u64 bs cursor v) a b"
    "\<And>i. i < length vs \<Longrightarrow> slice (put_values (put_u64 bs cursor v) (cursor + 8) vs) (cursor + 8 + 8 * i) (cursor + 8 + 8 * i + 8) = le_image 8 (vs ! i)"
    using Cons.IH [of "cursor + 8" "put_u64 bs cursor v"] Cons.prems by simp_all
  have first: "slice (put_u64 bs cursor v) cursor (cursor + 8) = le_image 8 v"
    using Cons.prems by (simp add: put_u64_def slice_put_inside slice_full)
  have before: "slice (put_u64 bs cursor v) a b = slice bs a b" if "b \<le> cursor" for a b
    using Cons.prems that by (simp add: put_u64_def slice_put_before)
  have "slice (put_values bs cursor (v # vs)) (cursor + 8 * i) (cursor + 8 * i + 8) = le_image 8 ((v # vs) ! i)" if "i < length (v # vs)" for i
    using that IH(2) [of "cursor + 8" cursor] IH(3) [of "i - 1"] first by (cases i) (simp_all add: algebra_simps)
  then show ?case using IH(1,2) before by simp
qed simp

lemma read_u64_array_Ok:
  assumes "\<And>i. i < length vs \<Longrightarrow> slice bs (cursor + 8 * i) (cursor + 8 * i + 8) = le_image 8 (vs ! i)"
    and "cursor + 8 * length vs \<le> length bs" and "length bs < 2 ^ 64"
  shows "read_u64_array bs cursor (length vs) = Inr (vs, cursor + 8 * length vs)"
  using assms
proof (induction vs arbitrary: cursor)
  case (Cons v vs)
  have "read_u64 bs cursor = Inr v" using Cons.prems(1) [of 0] Cons.prems(2,3) by (simp add: read_u64_slice wire_simps)
  moreover have "usize_checked_add cursor 8 = Some (cursor + 8)" using Cons.prems(2,3) by (simp add: usize_checked_add_def)
  moreover have "read_u64_array bs (cursor + 8) (length vs) = Inr (vs, cursor + 8 + 8 * length vs)"
  proof (rule Cons.IH)
    fix i assume "i < length vs"
    then show "slice bs (cursor + 8 + 8 * i) (cursor + 8 + 8 * i + 8) = le_image 8 (vs ! i)"
      using Cons.prems(1) [of "Suc i"] by (simp add: algebra_simps)
  qed (use Cons.prems in simp_all)
  ultimately show ?case by simp
qed simp

definition snapshot_fits :: "validation_limits \<Rightarrow> x2_snapshot \<Rightarrow> bool" where
  "snapshot_fits lim s \<longleftrightarrow> length (xs_roots s) \<le> vl_max_roots lim \<and>
     length (xs_required_capabilities s) + length (xs_optional_capabilities s) \<le> vl_max_capabilities lim \<and>
     160 + 8 * (length (xs_roots s) + length (xs_required_capabilities s) + length (xs_optional_capabilities s)) \<le> unat (vl_max_snapshot_bytes lim)"

definition snapshot_wf :: "x2_snapshot \<Rightarrow> bool" where
  "snapshot_wf s \<longleftrightarrow> length (xs_parent_snapshot_digest s) = 32 \<and> length (xs_directory_root_digest s) = 32 \<and> xs_directory_root_len s = 16384"

lemma unat_of_nat_32: "n < 2 ^ 32 \<Longrightarrow> unat (of_nat n :: u32) = n"
  by (simp add: unat_of_nat take_bit_eq_mod)

definition snapshot_values :: "x2_snapshot \<Rightarrow> u64 list" where
  "snapshot_values s = xs_roots s @ xs_required_capabilities s @ xs_optional_capabilities s"

text \<open>The fixed part of a snapshot and the identifiers behind it.\<close>

definition snapshot_puts :: "x2_snapshot \<Rightarrow> (usize \<times> bytes) list" where
  "snapshot_puts s = [(0, SNAPSHOT_MAGIC), (4, le_image 2 (160 :: u16)), (6, le_image 2 (0 :: u16)), (8, le_image 8 (xs_sequence s)),
     (16, xs_parent_snapshot_digest s), (48, le_image 8 (xs_previous_footer_offset s)), (56, le_image 8 (xs_directory_root_offset s)),
     (64, le_image 4 (xs_directory_root_len s)), (68, le_image 2 (xs_directory_root_level s)), (70, le_image 2 DIGEST_SHA256),
     (72, xs_directory_root_digest s), (104, le_image 4 (of_nat (length (xs_roots s)) :: u32)),
     (108, le_image 4 (of_nat (length (xs_required_capabilities s)) :: u32)), (112, le_image 4 (of_nat (length (xs_optional_capabilities s)) :: u32))]"

definition snapshot_valid :: "x2_snapshot \<Rightarrow> bool" where
  "snapshot_valid s \<longleftrightarrow> validate_sorted_unique (xs_roots s) X2InvalidRoot = Inr () \<and>
     validate_sorted_unique (xs_required_capabilities s) X2InvalidCapabilitySet = Inr () \<and>
     validate_sorted_unique (xs_optional_capabilities s) X2InvalidCapabilitySet = Inr () \<and>
     \<not> (\<exists>v \<in> set (xs_required_capabilities s). binary_search_ok (xs_optional_capabilities s) v) \<and>
     length (xs_roots s) < 2 ^ 32 \<and> length (xs_required_capabilities s) < 2 ^ 32 \<and> length (xs_optional_capabilities s) < 2 ^ 32"

lemma snapshot_encode_iff:
  "snapshot_encode s = Inr bs \<longleftrightarrow> snapshot_valid s \<and>
     bs = put_values (puts (zeros (160 + 8 * length (snapshot_values s))) (snapshot_puts s)) 160 (snapshot_values s)" (is "?l \<longleftrightarrow> ?r")
proof (cases "snapshot_valid s")
  case True
  then have n: "length (xs_roots s) + length (xs_required_capabilities s) + length (xs_optional_capabilities s) < 3 * 2 ^ 32" by (simp add: snapshot_valid_def)
  then show ?thesis
    using True by (auto simp: snapshot_encode_def snapshot_valid_def usize_checked_add_def usize_checked_mul_def ok_or_def u32_from_usize_def snapshot_puts_def
        put_defs Let_def snapshot_values_def algebra_simps)
next
  case False
  then show ?thesis by (auto simp: snapshot_encode_def snapshot_valid_def result_simps ok_or_def u32_from_usize_def split: if_splits option.splits)
qed

lemma snapshot_slices:
  assumes "snapshot_encode s = Inr bs" and "snapshot_wf s"
  shows "length bs = 160 + 8 * length (snapshot_values s)" "\<And>a b. b \<le> 160 \<Longrightarrow> puts_apart a b (snapshot_puts s) \<Longrightarrow>
      slice bs a b = (case pick (snapshot_puts s) a b of Some x \<Rightarrow> x | None \<Rightarrow> zeros (b - a))"
    "\<And>i. i < length (snapshot_values s) \<Longrightarrow> slice bs (160 + 8 * i) (160 + 8 * i + 8) = le_image 8 (snapshot_values s ! i)"
proof -
  let ?p = "puts (zeros (160 + 8 * length (snapshot_values s))) (snapshot_puts s)"
  have bs: "bs = put_values ?p 160 (snapshot_values s)" using assms(1) by (simp add: snapshot_encode_iff)
  have fit: "puts_fit (length (zeros (160 + 8 * length (snapshot_values s)))) (snapshot_puts s)" using assms(2) by (simp add: snapshot_puts_def snapshot_wf_def)
  then have len: "length ?p = 160 + 8 * length (snapshot_values s)" by (subst length_puts) simp_all
  note spec = put_values_spec [of 160 "snapshot_values s" ?p, unfolded len, simplified, folded bs]
  show "length bs = 160 + 8 * length (snapshot_values s)" using spec by simp
  show "slice bs (160 + 8 * i) (160 + 8 * i + 8) = le_image 8 (snapshot_values s ! i)" if "i < length (snapshot_values s)" for i
    using spec that by (simp add: add.commute add.left_commute)
  show "slice bs a b = (case pick (snapshot_puts s) a b of Some x \<Rightarrow> x | None \<Rightarrow> zeros (b - a))" if "b \<le> 160" "puts_apart a b (snapshot_puts s)" for a b
    using spec that slice_puts [OF fit that(2)] by (simp add: slice_zeros split: option.splits)
qed

lemma snapshot_round_trip:
  assumes "snapshot_encode s = Inr bs" and "snapshot_wf s" and "snapshot_fits lim s"
  shows "snapshot_parse bs lim = Inr s"
proof -
  note sl = snapshot_slices [OF assms(1,2)]
  have v: "snapshot_valid s" using assms(1) by (simp add: snapshot_encode_iff)
  let ?r = "length (xs_roots s)" and ?q = "length (xs_required_capabilities s)" and ?o = "length (xs_optional_capabilities s)"
  have small: "?r < 2 ^ 32" "?q < 2 ^ 32" "?o < 2 ^ 32" using v by (simp_all add: snapshot_valid_def)
  have len: "length bs = 160 + 8 * (?r + ?q + ?o)" using sl(1) by (simp add: snapshot_values_def)
  have lt: "length bs < 2 ^ 64" using len small by simp
  have fixed: "slice bs 0 4 = SNAPSHOT_MAGIC" "slice bs 4 6 = le_image 2 (160 :: u16)" "slice bs 6 8 = le_image 2 (0 :: u16)"
    "slice bs 8 16 = le_image 8 (xs_sequence s)" "slice bs 16 48 = xs_parent_snapshot_digest s" "slice bs 48 56 = le_image 8 (xs_previous_footer_offset s)"
    "slice bs 56 64 = le_image 8 (xs_directory_root_offset s)" "slice bs 64 68 = le_image 4 (16384 :: u32)"
    "slice bs 68 70 = le_image 2 (xs_directory_root_level s)" "slice bs 70 72 = le_image 2 (1 :: u16)" "slice bs 72 104 = xs_directory_root_digest s"
    "slice bs 104 108 = le_image 4 (of_nat ?r :: u32)" "slice bs 108 112 = le_image 4 (of_nat ?q :: u32)"
    "slice bs 112 116 = le_image 4 (of_nat ?o :: u32)" "slice bs 116 160 = zeros 44"
    using assms(2) by (simp_all add: sl(2) snapshot_puts_def snapshot_wf_def slice_full)
  have val: "slice bs (160 + 8 * i) (160 + 8 * i + 8) = le_image 8 (snapshot_values s ! i)" if "i < ?r + ?q + ?o" for i
    using sl(3) that by (simp add: snapshot_values_def)
  have r: "read_u64_array bs 160 ?r = Inr (xs_roots s, 160 + 8 * ?r)"
    by (rule read_u64_array_Ok) (use val len lt in \<open>auto simp: snapshot_values_def nth_append\<close>)
  have q: "read_u64_array bs (160 + 8 * ?r) ?q = Inr (xs_required_capabilities s, 160 + 8 * ?r + 8 * ?q)"
  proof (rule read_u64_array_Ok)
    fix i assume "i < ?q"
    then show "slice bs (160 + 8 * ?r + 8 * i) (160 + 8 * ?r + 8 * i + 8) = le_image 8 (xs_required_capabilities s ! i)"
      using val [of "?r + i"] by (simp add: snapshot_values_def nth_append algebra_simps)
  qed (use len lt in simp_all)
  have o: "read_u64_array bs (160 + 8 * ?r + 8 * ?q) ?o = Inr (xs_optional_capabilities s, 160 + 8 * ?r + 8 * ?q + 8 * ?o)"
  proof (rule read_u64_array_Ok)
    fix i assume "i < ?o"
    then show "slice bs (160 + 8 * ?r + 8 * ?q + 8 * i) (160 + 8 * ?r + 8 * ?q + 8 * i + 8) = le_image 8 (xs_optional_capabilities s ! i)"
      using val [of "?r + ?q + i"] by (simp add: snapshot_values_def nth_append algebra_simps)
  qed (use len lt in simp_all)
  have u: "unat (of_nat ?r :: u32) = ?r" "unat (of_nat ?q :: u32) = ?q" "unat (of_nat ?o :: u32) = ?o" using small by (simp_all add: unat_of_nat_32)
  have calc: "usize_checked_add ?q ?o = Some (?q + ?o)" "usize_checked_add ?r ?q = Some (?r + ?q)" "usize_checked_add (?r + ?q) ?o = Some (?r + ?q + ?o)"
    "usize_checked_mul (?r + ?q + ?o) 8 = Some ((?r + ?q + ?o) * 8)" "usize_checked_add 160 ((?r + ?q + ?o) * 8) = Some (length bs)"
    using small len by (simp_all add: usize_checked_add_def usize_checked_mul_def)
  have big: "\<not> vl_max_snapshot_bytes lim < of_nat (length bs)"
    using unat_of_nat_64 [OF lt] assms(3) len unfolding word_less_nat_alt by (simp add: snapshot_fits_def not_less del: unat_of_nat_64 of_nat_add)
  have wf: "xs_directory_root_len s = 16384" using assms(2) by (simp add: snapshot_wf_def)
  show ?thesis
    unfolding snapshot_parse_def
    using fixed len lt u calc big r q o v assms(3) wf
    by (simp add: read_slices wire_simps Let_def ok_or_def to_u64_def snapshot_fits_def snapshot_valid_def not_less)
qed

end
