(* ===== verification/Ucof_Exp2_Records.thy ===== *)
theory Ucof_Exp2_Records
  imports Ucof_Exp2_Codec "HOL-Library.Multiset"
begin

text \<open>
  Object records of EXP-0002: what the validator checks of a record, that the writer's records pass and
  stay valid when the file grows, and that records do not overlap.
\<close>

section \<open>Disjoint ranges\<close>

text \<open>A symmetric relation holds pairwise in a list independently of its order.\<close>

lemma pairwise_mset:
  assumes "symp P"
  shows "sorted_wrt P xs \<longleftrightarrow> (\<forall>x y M. mset xs = add_mset x (add_mset y M) \<longrightarrow> P x y)"
proof (induction xs)
  case (Cons z zs)
  show ?case
  proof
    assume l: "sorted_wrt P (z # zs)"
    show "\<forall>x y M. mset (z # zs) = add_mset x (add_mset y M) \<longrightarrow> P x y"
    proof (intro allI impI)
      fix x y M assume m: "mset (z # zs) = add_mset x (add_mset y M)"
      show "P x y"
      proof (cases "z = x")
        case True
        then have "y \<in># mset zs" using m by simp
        then show ?thesis using l True by simp
      next
        case zx: False
        show ?thesis
        proof (cases "z = y")
          case True
          then have "add_mset y (mset zs) = add_mset y (add_mset x M)" using m by (simp add: add_mset_commute [of x])
          then have "mset zs = add_mset x M" by simp
          then have "x \<in># mset zs" by simp
          then have "x \<in> set zs" by simp
          then show ?thesis using l True assms by (auto dest: sympD)
        next
          case False
          have "z \<in># add_mset x (add_mset y M)" unfolding m [symmetric] by simp
          then have "z \<in># M" using zx False by simp
          then obtain M' where M': "M = add_mset z M'" by (meson multi_member_split)
          have "add_mset z (mset zs) = add_mset z (add_mset x (add_mset y M'))" using m M' by (simp add: add_mset_commute)
          then have "mset zs = add_mset x (add_mset y M')" by simp
          then show ?thesis using Cons.IH l by auto
        qed
      qed
    qed
  next
    assume r: "\<forall>x y M. mset (z # zs) = add_mset x (add_mset y M) \<longrightarrow> P x y"
    have "P z y" if "y \<in> set zs" for y
    proof -
      have "y \<in># mset zs" using that by simp
      then obtain M where "mset zs = add_mset y M" by (meson multi_member_split)
      then show ?thesis using r by simp
    qed
    moreover have "sorted_wrt P zs" unfolding Cons.IH
    proof (intro allI impI)
      fix x y M assume "mset zs = add_mset x (add_mset y M)"
      then have "mset (z # zs) = add_mset x (add_mset y (add_mset z M))" by (simp add: add_mset_commute [of z])
      then show "P x y" using r by blast
    qed
    ultimately show "sorted_wrt P (z # zs)" by simp
  qed
qed simp

definition apart :: "usize \<times> usize \<Rightarrow> usize \<times> usize \<Rightarrow> bool" where
  "apart r s \<longleftrightarrow> \<not> ranges_overlap r s"

lemma symp_apart: "symp apart"
  by (auto simp: symp_def apart_def)

lemma apart_mset: "mset rs = mset ss \<Longrightarrow> sorted_wrt apart rs \<longleftrightarrow> sorted_wrt apart ss"
  by (simp add: pairwise_mset [OF symp_apart])

lemma sorted_windows_apart:
  assumes "sorted (map fst rs)" and "\<forall>(a, b) \<in> set rs. a < b"
  shows "(\<forall>(a, b) \<in> set (windows2 rs). apart a b) \<longleftrightarrow> sorted_wrt apart rs"
  using assms
proof (induction rs rule: windows2.induct)
  case (1 x y rs)
  obtain a b c d where x: "x = (a, b)" and y: "y = (c, d)" by fastforce
  have IH: "(\<forall>(a, b) \<in> set (windows2 (y # rs)). apart a b) \<longleftrightarrow> sorted_wrt apart (y # rs)" using 1 by simp
  have "apart x z" if "apart x y" "z \<in> set rs" for z
  proof -
    have "c \<le> fst z" "fst z < snd z" "a \<le> c" "c < d" using "1.prems" that(2) by (auto simp: x y)
    then show ?thesis using that(1) by (cases z) (auto simp: apart_def x y)
  qed
  then show ?case using IH by auto
qed simp_all

lemma overlap_check:
  assumes "\<forall>(a, b) \<in> set rs. a < b"
  shows "(\<exists>(a, b) \<in> set (windows2 (sort_key fst rs)). ranges_overlap a b) \<longleftrightarrow> \<not> sorted_wrt apart rs"
proof -
  have "(\<forall>(a, b) \<in> set (windows2 (sort_key fst rs)). apart a b) \<longleftrightarrow> sorted_wrt apart (sort_key fst rs)"
    using assms by (intro sorted_windows_apart) simp_all
  also have "\<dots> \<longleftrightarrow> sorted_wrt apart rs" by (rule apart_mset) simp
  finally show ?thesis by (auto simp: apart_def)
qed

section \<open>Records\<close>

definition record_range :: "leaf_entry \<Rightarrow> usize \<times> usize" where
  "record_range e = (unat (le_record_offset e), unat (le_record_offset e) + unat (le_record_len e))"

definition header_of_entry :: "leaf_entry \<Rightarrow> object_header" where
  "header_of_entry e = \<lparr>oh_object_id = le_object_id e, oh_kind = le_kind e, oh_payload_len = le_logical_len e, oh_logical_len = le_logical_len e\<rparr>"

text \<open>The record that an entry of the directory describes lies in the file, has the header the entry says,
  the length of its payload and the digest of its bytes.\<close>

definition record_at :: "(bytes \<Rightarrow> bytes) \<Rightarrow> bytes \<Rightarrow> leaf_entry \<Rightarrow> bool" where
  "record_at sha bs e \<longleftrightarrow> snd (record_range e) \<le> length bs \<and> unat (le_record_len e) = 48 + unat (le_logical_len e) \<and>
     object_header_parse (slice bs (fst (record_range e)) (fst (record_range e) + 48)) = Inr (header_of_entry e) \<and>
     digest_bytes sha OBJECT_DOMAIN (slice bs (fst (record_range e)) (snd (record_range e))) = le_record_digest e"

lemma slice_append: "b \<le> length bs \<Longrightarrow> slice (bs @ cs) a b = slice bs a b"
  by (cases "a \<le> length bs") (simp_all add: slice_def)

lemma record_at_append: "record_at sha bs e \<Longrightarrow> record_at sha (bs @ cs) e"
  by (auto simp: record_at_def record_range_def slice_append)

lemma record_range_nonempty: "record_at sha bs e \<Longrightarrow> fst (record_range e) < snd (record_range e)"
  by (auto simp: record_at_def record_range_def)

lemma object_header_parse_wf:
  assumes "object_header_parse bs = Inr h"
  shows "object_header_wf h"
  using assms by (auto simp: object_header_parse_def object_header_wf_def result_simps split: if_splits)

lemma record_at_wf:
  assumes "record_at sha bs e" and "\<And>x. length (sha x) = 32"
  shows "leaf_entry_wf e"
proof -
  have "object_header_wf (header_of_entry e)" using assms(1) object_header_parse_wf by (auto simp: record_at_def)
  moreover have "length (le_record_digest e) = 32" using assms(1) assms(2) [of "OBJECT_DOMAIN @ slice bs (fst (record_range e)) (snd (record_range e))"]
    by (simp add: record_at_def digest_bytes_def)
  ultimately show ?thesis by (simp add: leaf_entry_wf_def object_header_wf_def header_of_entry_def)
qed

text \<open>One step of the validator's loop over the entries, as a condition.\<close>

lemma x2_checked_range_Ok: "x2_checked_range off len n = Inr (a, b) \<longleftrightarrow> a = unat off \<and> b = unat off + unat len \<and> b \<le> n \<and> b < 2 ^ 64"
proof (cases "unat off + unat len < 2 ^ 64")
  case True
  then have "checked_add off len = Some (off + len)" "unat (off + len) = unat off + unat len"
    by (simp_all add: checked_add_def unat_add_no_overflow)
  then show ?thesis using True
    by (auto simp: x2_checked_range_def to_usize_def usize_try_from_def ok_or_def)
next
  case False
  then show ?thesis by (auto simp: x2_checked_range_def checked_add_def)
qed

lemma add_hashed_Ok: "add_hashed h n lim = Inr h' \<longleftrightarrow> unat h' = unat h + unat n \<and> unat h + unat n \<le> unat (vl_max_hashed_bytes lim)"
proof (cases "unat h + unat n < 2 ^ 64")
  case True
  then have "checked_add h n = Some (h + n)" "unat (h + n) = unat h + unat n" by (simp_all add: checked_add_def unat_add_no_overflow)
  then show ?thesis by (auto simp: add_hashed_def word_less_nat_alt not_less word_unat_eq_iff)
next
  case False
  then have "\<not> unat h + unat n \<le> unat (vl_max_hashed_bytes lim)" by (meson le_unat_64 order.trans)
  then show ?thesis using False by (auto simp: add_hashed_def checked_add_def)
qed

definition record_clear :: "(usize \<times> usize) list \<Rightarrow> usize \<times> usize \<Rightarrow> usize \<times> usize \<Rightarrow> leaf_entry \<Rightarrow> bool" where
  "record_clear pr sr fr e \<longleftrightarrow> snd (record_range e) < 2 ^ 64 \<and> \<not> overlaps_any (record_range e) pr \<and>
     \<not> ranges_overlap (record_range e) sr \<and> \<not> ranges_overlap (record_range e) fr"

lemma objects_loop_step:
  assumes "objects_loop sha bs pr sr fr lim (e # es) ph tot h = Inr res"
  obtains tot' h' where "record_at sha bs e" "record_clear pr sr fr e" "unat tot' = unat tot + unat (le_logical_len e)" "tot' \<le> vl_max_payload_bytes lim"
    "add_hashed h (le_record_len e) lim = Inr h'" "objects_loop sha bs pr sr fr lim es (ph @ [record_range e]) tot' h' = Inr res"
proof -
  from assms obtain a b hd len tot' h' where r: "x2_checked_range (le_record_offset e) (le_record_len e) (length bs) = Inr (a, b)"
    and clear: "\<not> (overlaps_any (a, b) pr \<or> ranges_overlap (a, b) sr \<or> ranges_overlap (a, b) fr)"
    and hd: "object_header_parse (slice bs a (a + 48)) = Inr hd" and len: "checked_add 48 (oh_payload_len hd) = Some len"
    and eq: "oh_object_id hd = le_object_id e" "oh_kind hd = le_kind e" "oh_logical_len hd = le_logical_len e" "len = le_record_len e"
    and tot: "checked_add tot (oh_payload_len hd) = Some tot'" "tot' \<le> vl_max_payload_bytes lim" and h: "add_hashed h (le_record_len e) lim = Inr h'"
    and dig: "digest_bytes sha OBJECT_DOMAIN (slice bs a b) = le_record_digest e"
    and rest: "objects_loop sha bs pr sr fr lim es (ph @ [(a, b)]) tot' h' = Inr res"
    by (auto simp: result_simps ok_or_def not_less split: if_splits option.splits)
  have ab: "(a, b) = record_range e" "b \<le> length bs" "b < 2 ^ 64" using r by (simp_all add: x2_checked_range_Ok record_range_def)
  have pay: "oh_payload_len hd = le_logical_len e" using object_header_parse_wf [OF hd] eq(3) by (simp add: object_header_wf_def)
  then have "hd = header_of_entry e" using eq by (cases hd) (simp add: header_of_entry_def)
  moreover have "unat (le_record_len e) = 48 + unat (le_logical_len e)" using len eq(4) pay by (simp add: checked_add_Some_iff)
  moreover have a: "a = fst (record_range e)" "b = snd (record_range e)" using ab(1) by (metis fst_conv, metis snd_conv)
  ultimately have "record_at sha bs e" using hd dig ab(2) by (simp add: record_at_def)
  moreover have "record_clear pr sr fr e" using clear ab by (simp add: record_clear_def a)
  moreover have "unat tot' = unat tot + unat (le_logical_len e)" using tot(1) pay by (simp add: checked_add_Some_iff)
  ultimately show thesis using that tot(2) h rest ab(1) by simp
qed

lemma objects_loop_step_Ok:
  assumes "record_at sha bs e" and "record_clear pr sr fr e" and "unat tot' = unat tot + unat (le_logical_len e)" and "tot' \<le> vl_max_payload_bytes lim"
    and "add_hashed h (le_record_len e) lim = Inr h'"
  shows "objects_loop sha bs pr sr fr lim (e # es) ph tot h = objects_loop sha bs pr sr fr lim es (ph @ [record_range e]) tot' h'"
proof -
  obtain a b where ab: "record_range e = (a, b)" by fastforce
  have r: "x2_checked_range (le_record_offset e) (le_record_len e) (length bs) = Inr (a, b)"
    using assms(1,2) ab by (auto simp: x2_checked_range_Ok record_at_def record_clear_def record_range_def)
  have hd: "object_header_parse (slice bs a (a + 48)) = Inr (header_of_entry e)" "digest_bytes sha OBJECT_DOMAIN (slice bs a b) = le_record_digest e"
    using assms(1) by (simp_all add: record_at_def ab)
  have len: "unat (le_record_len e) = 48 + unat (le_logical_len e)" using assms(1) by (simp add: record_at_def)
  have clear: "\<not> (overlaps_any (a, b) pr \<or> ranges_overlap (a, b) sr \<or> ranges_overlap (a, b) fr)" using assms(2) by (simp add: record_clear_def ab)
  have "checked_add 48 (le_logical_len e) = Some (le_record_len e)" using len by (simp add: checked_add_Some_iff)
  moreover have "checked_add tot (le_logical_len e) = Some tot'" using assms(3) by (simp add: checked_add_Some_iff)
  moreover have "\<not> le_record_len e < 48" using len by (simp add: word_less_nat_alt)
  ultimately show ?thesis using r hd clear assms(4,5) ab by (simp add: ok_or_def header_of_entry_def not_less leD)
qed

abbreviation payload_sum :: "leaf_entry list \<Rightarrow> nat" where
  "payload_sum es \<equiv> sum_list (map (\<lambda>e. unat (le_logical_len e)) es)"

abbreviation record_sum :: "leaf_entry list \<Rightarrow> nat" where
  "record_sum es \<equiv> sum_list (map (\<lambda>e. unat (le_record_len e)) es)"

lemma objects_loop_Ok:
  assumes "tot \<le> vl_max_payload_bytes lim" and "h \<le> vl_max_hashed_bytes lim"
  shows "objects_loop sha bs pr sr fr lim es ph tot h = Inr (ph', h') \<longleftrightarrow>
    (\<forall>e \<in> set es. record_at sha bs e \<and> record_clear pr sr fr e) \<and> unat tot + payload_sum es \<le> unat (vl_max_payload_bytes lim) \<and>
    unat h + record_sum es \<le> unat (vl_max_hashed_bytes lim) \<and> ph' = ph @ map record_range es \<and> unat h' = unat h + record_sum es"
  using assms
proof (induction es arbitrary: ph tot h)
  case Nil
  then show ?case by (auto simp: word_le_nat_alt word_unat_eq_iff)
next
  case (Cons e es)
  show ?case
  proof (cases "record_at sha bs e \<and> record_clear pr sr fr e \<and> unat tot + unat (le_logical_len e) \<le> unat (vl_max_payload_bytes lim) \<and>
      unat h + unat (le_record_len e) \<le> unat (vl_max_hashed_bytes lim)")
    case True
    define tot1 h1 where "tot1 = tot + le_logical_len e" and "h1 = h + le_record_len e"
    have "unat tot + unat (le_logical_len e) < 2 ^ 64" "unat h + unat (le_record_len e) < 2 ^ 64"
      using True le_unat_64 by blast+
    then have u: "unat tot1 = unat tot + unat (le_logical_len e)" "unat h1 = unat h + unat (le_record_len e)"
      by (simp_all add: tot1_def h1_def unat_add_no_overflow)
    then have le: "tot1 \<le> vl_max_payload_bytes lim" "h1 \<le> vl_max_hashed_bytes lim" using True by (simp_all add: word_le_nat_alt)
    have "add_hashed h (le_record_len e) lim = Inr h1" using True u by (simp add: add_hashed_Ok)
    from objects_loop_step_Ok [OF _ _ u(1) le(1) this] True Cons.IH [OF le, of "ph @ [record_range e]"] show ?thesis
      by (auto simp: u add.assoc)
  next
    case False
    have "objects_loop sha bs pr sr fr lim (e # es) ph tot h \<noteq> Inr (ph', h')"
    proof
      assume run: "objects_loop sha bs pr sr fr lim (e # es) ph tot h = Inr (ph', h')"
      show False by (rule objects_loop_step [OF run]) (use False in \<open>auto simp: add_hashed_Ok word_le_nat_alt\<close>)
    qed
    then show ?thesis using False by auto
  qed
qed

definition records_ok :: "(bytes \<Rightarrow> bytes) \<Rightarrow> bytes \<Rightarrow> leaf_entry list \<Rightarrow> bool" where
  "records_ok sha bs es \<longleftrightarrow> (\<forall>e \<in> set es. record_at sha bs e) \<and> sorted_wrt apart (map record_range es)"

lemma validate_objects_Ok:
  assumes "h \<le> vl_max_hashed_bytes lim"
  shows "validate_objects sha bs es pr sr fr lim h = Inr h' \<longleftrightarrow>
    records_ok sha bs es \<and> (\<forall>e \<in> set es. record_clear pr sr fr e) \<and> payload_sum es \<le> unat (vl_max_payload_bytes lim) \<and>
    unat h + record_sum es \<le> unat (vl_max_hashed_bytes lim) \<and> unat h' = unat h + record_sum es"
proof -
  have chk: "(\<exists>(a, b) \<in> set (windows2 (sort_key fst (map record_range es))). ranges_overlap a b) \<longleftrightarrow> \<not> sorted_wrt apart (map record_range es)"
    if "\<forall>e \<in> set es. record_at sha bs e" using that by (intro overlap_check) (auto dest!: bspec record_range_nonempty simp: case_prod_beta)
  have "validate_objects sha bs es pr sr fr lim h = Inr h' \<longleftrightarrow>
      objects_loop sha bs pr sr fr lim es [] 0 h = Inr (map record_range es, h') \<and>
      \<not> (\<exists>(a, b) \<in> set (windows2 (sort_key fst (map record_range es))). ranges_overlap a b)"
    using objects_loop_Ok [of 0 lim h sha bs pr sr fr es "[]"] assms by (auto simp: validate_objects_def result_simps split: if_splits)
  also have "\<dots> \<longleftrightarrow> records_ok sha bs es \<and> (\<forall>e \<in> set es. record_clear pr sr fr e) \<and> payload_sum es \<le> unat (vl_max_payload_bytes lim) \<and>
    unat h + record_sum es \<le> unat (vl_max_hashed_bytes lim) \<and> unat h' = unat h + record_sum es"
    using objects_loop_Ok [of 0 lim h sha bs pr sr fr es "[]" "map record_range es" h'] assms chk by (auto simp: records_ok_def)
  finally show ?thesis .
qed

end
