(* ===== verification/Ucof_Exp2_Tree.thy ===== *)
theory Ucof_Exp2_Tree
  imports Ucof_Exp2_Records Ucof_Directory_Tree
begin

text \<open>
  The directory of EXP-0002 as a tree of pages: when a file stores a tree, and that the validator's walk
  over the pages succeeds exactly on a stored tree within the limits, whose entries it then returns.
\<close>

datatype page_tree = LeafPage u64 "leaf_entry list" | NodePage u64 "page_tree list"

fun tree_entries :: "page_tree \<Rightarrow> leaf_entry list" where
  "tree_entries (LeafPage offset es) = es"
| "tree_entries (NodePage offset ts) = concat (map tree_entries ts)"

fun tree_pages :: "page_tree \<Rightarrow> u64 list" where
  "tree_pages (LeafPage offset es) = [offset]"
| "tree_pages (NodePage offset ts) = offset # concat (map tree_pages ts)"

abbreviation forest_entries :: "page_tree list \<Rightarrow> leaf_entry list" where
  "forest_entries ts \<equiv> concat (map tree_entries ts)"

abbreviation forest_pages :: "page_tree list \<Rightarrow> u64 list" where
  "forest_pages ts \<equiv> concat (map tree_pages ts)"

definition page_span :: "u64 \<Rightarrow> usize \<times> usize" where
  "page_span offset = (unat offset, unat offset + PAGE_SIZE)"

text \<open>The page an entry of the stack refers to is in the file, has the expected digest and header, and parses.\<close>

definition page_matches :: "(bytes \<Rightarrow> bytes) \<Rightarrow> bytes \<Rightarrow> u64 \<Rightarrow> expected_page \<Rightarrow> parsed_page \<Rightarrow> bool" where
  "page_matches sha bs sequence x p \<longleftrightarrow> snd (page_span (ep_offset x)) \<le> length bs \<and> snd (page_span (ep_offset x)) < 2 ^ 64 \<and>
     digest_bytes sha PAGE_DOMAIN (slice bs (fst (page_span (ep_offset x))) (snd (page_span (ep_offset x)))) = ep_digest x \<and>
     parse_page (slice bs (fst (page_span (ep_offset x))) (snd (page_span (ep_offset x)))) = Inr p \<and>
     ucast (ph_level (parsed_header p)) = ep_level x \<and> (ep_min_key x = 0 \<or> ph_min_key (parsed_header p) = ep_min_key x) \<and>
     (ep_max_key x = - 1 \<or> ph_max_key (parsed_header p) = ep_max_key x) \<and> ph_sequence (parsed_header p) = sequence"

definition expect_child :: "expected_page \<Rightarrow> internal_entry \<Rightarrow> expected_page" where
  "expect_child x c = \<lparr>ep_offset = ie_page_offset c, ep_digest = ie_page_digest c, ep_level = ie_level c,
     ep_min_key = ie_min_key c, ep_max_key = ie_max_key c, ep_depth = ep_depth x + 1\<rparr>"

fun stored :: "(bytes \<Rightarrow> bytes) \<Rightarrow> bytes \<Rightarrow> u64 \<Rightarrow> validation_limits \<Rightarrow> expected_page \<Rightarrow> page_tree \<Rightarrow> bool" where
  "stored sha bs sequence lim x (LeafPage offset es) \<longleftrightarrow> ep_depth x \<le> vl_max_page_depth lim \<and> ep_offset x = offset \<and>
     (\<exists>h. page_matches sha bs sequence x (ParsedLeaf h es))"
| "stored sha bs sequence lim x (NodePage offset ts) \<longleftrightarrow> ep_depth x \<le> vl_max_page_depth lim \<and> ep_offset x = offset \<and>
     (\<exists>h cs. page_matches sha bs sequence x (ParsedInternal h cs) \<and> list_all2 (\<lambda>c t. stored sha bs sequence lim (expect_child x c) t) cs ts)"

lemma page_matches_append: "page_matches sha bs sequence x p \<Longrightarrow> page_matches sha (bs @ cs) sequence x p"
  by (simp add: page_matches_def page_span_def slice_append)

lemma stored_append: "stored sha bs sequence lim x t \<Longrightarrow> stored sha (bs @ bs') sequence lim x t"
proof (induction t arbitrary: x)
  case (LeafPage offset es)
  then show ?case by (auto intro: page_matches_append)
next
  case (NodePage offset ts)
  then obtain h cs where m: "page_matches sha bs sequence x (ParsedInternal h cs)" and l: "list_all2 (\<lambda>c t. stored sha bs sequence lim (expect_child x c) t) cs ts"
    by auto
  have "list_all2 (\<lambda>c t. stored sha (bs @ bs') sequence lim (expect_child x c) t) cs ts"
    using l NodePage.IH by (auto simp: list_all2_conv_all_nth)
  then show ?case using NodePage.prems page_matches_append [OF m] by auto
qed

section \<open>The walk\<close>

lemma add_page_hashed: "add_hashed h 16384 lim = Inr h' \<longleftrightarrow> unat h' = unat h + PAGE_SIZE \<and> unat h + PAGE_SIZE \<le> unat (vl_max_hashed_bytes lim)"
  by (simp add: add_hashed_Ok)

text \<open>One step of the walk, as a condition.\<close>

definition may_visit :: "validation_limits \<Rightarrow> expected_page \<Rightarrow> u64 set \<Rightarrow> bool" where
  "may_visit lim x visited \<longleftrightarrow> ep_depth x \<le> vl_max_page_depth lim \<and> ep_offset x \<notin> visited \<and> card (insert (ep_offset x) visited) \<le> vl_max_pages lim"

lemma x2_page_span: "x2_checked_range off 16384 n = Inr (a, b) \<longleftrightarrow> page_span off = (a, b) \<and> b \<le> n \<and> b < 2 ^ 64"
  by (auto simp: x2_checked_range_Ok page_span_def)

lemma directory_loop_step:
  assumes "directory_loop sha bs s lim (x # stack) visited es rs h = Inr res"
  obtains p h' where "may_visit lim x visited" "page_matches sha bs (xs_sequence s) x p" "add_hashed h 16384 lim = Inr h'"
    "case p of ParsedLeaf hdr ps \<Rightarrow> length (es @ ps) \<le> vl_max_objects lim \<and>
        directory_loop sha bs s lim stack (insert (ep_offset x) visited) (es @ ps) (rs @ [page_span (ep_offset x)]) h' = Inr res
      | ParsedInternal hdr cs \<Rightarrow> directory_loop sha bs s lim (map (expect_child x) cs @ stack) (insert (ep_offset x) visited) es (rs @ [page_span (ep_offset x)]) h' = Inr res"
proof -
  from assms have v: "may_visit lim x visited"
    by (auto simp: directory_loop.simps(2) may_visit_def Let_def split: if_splits)
  with assms obtain a b where r: "x2_checked_range (ep_offset x) 16384 (length bs) = Inr (a, b)"
    by (auto simp: directory_loop.simps(2) may_visit_def Let_def split: if_splits sum.splits)
  with assms v obtain h' where h: "add_hashed h 16384 lim = Inr h'"
    by (auto simp: directory_loop.simps(2) may_visit_def Let_def split: if_splits sum.splits)
  with assms v r obtain p where p: "digest_bytes sha PAGE_DOMAIN (slice bs a b) = ep_digest x" "parse_page (slice bs a b) = Inr p"
    by (auto simp: directory_loop.simps(2) may_visit_def Let_def split: if_splits sum.splits)
  with assms v r h have hd: "ucast (ph_level (parsed_header p)) = ep_level x" "ep_min_key x = 0 \<or> ph_min_key (parsed_header p) = ep_min_key x"
     "ep_max_key x = - 1 \<or> ph_max_key (parsed_header p) = ep_max_key x" "ph_sequence (parsed_header p) = xs_sequence s"
    by (auto simp: directory_loop.simps(2) may_visit_def Let_def split: if_splits)
  have ab: "page_span (ep_offset x) = (a, b)" "b \<le> length bs" "b < 2 ^ 64" using r by (simp_all add: x2_page_span)
  have "page_matches sha bs (xs_sequence s) x p" using p hd ab by (simp add: page_matches_def)
  moreover have "case p of ParsedLeaf hdr ps \<Rightarrow> length (es @ ps) \<le> vl_max_objects lim \<and>
        directory_loop sha bs s lim stack (insert (ep_offset x) visited) (es @ ps) (rs @ [page_span (ep_offset x)]) h' = Inr res
      | ParsedInternal hdr cs \<Rightarrow> directory_loop sha bs s lim (map (expect_child x) cs @ stack) (insert (ep_offset x) visited) es (rs @ [page_span (ep_offset x)]) h' = Inr res"
    using assms v r h p hd ab by (simp add: directory_loop.simps(2) may_visit_def Let_def expect_child_def [abs_def] split: parsed_page.splits if_splits)
  ultimately show thesis using that v h by blast
qed

lemma directory_loop_step_Ok:
  assumes "may_visit lim x visited" and "page_matches sha bs (xs_sequence s) x p" and "add_hashed h 16384 lim = Inr h'"
    and "case p of ParsedLeaf hdr ps \<Rightarrow> length (es @ ps) \<le> vl_max_objects lim | ParsedInternal hdr cs \<Rightarrow> True"
  shows "directory_loop sha bs s lim (x # stack) visited es rs h =
    (case p of ParsedLeaf hdr ps \<Rightarrow> directory_loop sha bs s lim stack (insert (ep_offset x) visited) (es @ ps) (rs @ [page_span (ep_offset x)]) h'
      | ParsedInternal hdr cs \<Rightarrow> directory_loop sha bs s lim (map (expect_child x) cs @ stack) (insert (ep_offset x) visited) es (rs @ [page_span (ep_offset x)]) h')"
proof -
  obtain a b where ab: "page_span (ep_offset x) = (a, b)" by fastforce
  then have r: "x2_checked_range (ep_offset x) 16384 (length bs) = Inr (a, b)" using assms(2) by (simp add: x2_page_span page_matches_def)
  have p: "digest_bytes sha PAGE_DOMAIN (slice bs a b) = ep_digest x" "parse_page (slice bs a b) = Inr p" 
    "ucast (ph_level (parsed_header p)) = ep_level x" "ep_min_key x = 0 \<or> ph_min_key (parsed_header p) = ep_min_key x"
     "ep_max_key x = - 1 \<or> ph_max_key (parsed_header p) = ep_max_key x" "ph_sequence (parsed_header p) = xs_sequence s"
    using assms(2) by (simp_all add: page_matches_def ab)
  show ?thesis using assms(1,3,4) r p ab
    by (auto simp: directory_loop.simps(2) may_visit_def Let_def expect_child_def [abs_def] split: parsed_page.splits)
qed

section \<open>The walk and the stored tree\<close>

definition walk_fits :: "validation_limits \<Rightarrow> u64 set \<Rightarrow> leaf_entry list \<Rightarrow> u64 \<Rightarrow> page_tree list \<Rightarrow> bool" where
  "walk_fits lim visited es h ts \<longleftrightarrow> distinct (forest_pages ts) \<and> set (forest_pages ts) \<inter> visited = {} \<and>
     card visited + length (forest_pages ts) \<le> vl_max_pages lim \<and> length es + length (forest_entries ts) \<le> vl_max_objects lim \<and>
     unat h + PAGE_SIZE * length (forest_pages ts) \<le> unat (vl_max_hashed_bytes lim)"

definition walk_result :: "u64 set \<Rightarrow> leaf_entry list \<Rightarrow> (usize \<times> usize) list \<Rightarrow> u64 \<Rightarrow> page_tree list \<Rightarrow>
    u64 set \<times> leaf_entry list \<times> (usize \<times> usize) list \<times> u64 \<Rightarrow> bool" where
  "walk_result visited es rs h ts res \<longleftrightarrow> (case res of (visited', es', rs', h') \<Rightarrow>
     visited' = visited \<union> set (forest_pages ts) \<and> es' = es @ forest_entries ts \<and> rs' = rs @ map page_span (forest_pages ts) \<and>
     unat h' = unat h + PAGE_SIZE * length (forest_pages ts))"

lemma walk_leaf:
  assumes "offset \<notin> visited" and "unat h' = unat h + PAGE_SIZE"
  shows "walk_result visited es rs h (LeafPage offset ps # ts) res \<longleftrightarrow> walk_result (insert offset visited) (es @ ps) (rs @ [page_span offset]) h' ts res"
    "walk_fits lim visited es h (LeafPage offset ps # ts) \<longleftrightarrow> walk_fits lim (insert offset visited) (es @ ps) h' ts"
  using assms by (auto simp: walk_result_def walk_fits_def card_insert_if algebra_simps)

lemma walk_node:
  assumes "offset \<notin> visited" and "unat h' = unat h + PAGE_SIZE"
  shows "walk_result visited es rs h (NodePage offset cs # ts) res \<longleftrightarrow> walk_result (insert offset visited) es (rs @ [page_span offset]) h' (cs @ ts) res"
    "walk_fits lim visited es h (NodePage offset cs # ts) \<longleftrightarrow> walk_fits lim (insert offset visited) es h' (cs @ ts)"
  using assms by (auto simp: walk_result_def walk_fits_def card_insert_if algebra_simps)

lemma tree_pages_nonempty: "0 < length (tree_pages t)"
  by (cases t) simp_all

lemma directory_loop_complete:
  assumes "list_all2 (stored sha bs (xs_sequence s) lim) stack ts" and "walk_fits lim visited es h ts"
  shows "\<exists>res. directory_loop sha bs s lim stack visited es rs h = Inr res \<and> walk_result visited es rs h ts res"
  using assms
proof (induction "length (forest_pages ts)" arbitrary: stack ts visited es rs h rule: less_induct)
  case less
  show ?case
  proof (cases ts)
    case Nil
    then show ?thesis using less.prems by (simp add: walk_result_def)
  next
    case (Cons t ts')
    then obtain x stack' where st: "stack = x # stack'" "stored sha bs (xs_sequence s) lim x t" "list_all2 (stored sha bs (xs_sequence s) lim) stack' ts'"
      using less.prems(1) by (auto simp: list_all2_Cons2)
    let ?o = "ep_offset x"
    have room: "?o \<notin> visited" "?o \<in> set (tree_pages t)" "card visited + 1 \<le> vl_max_pages lim" "unat h + PAGE_SIZE \<le> unat (vl_max_hashed_bytes lim)"
      using less.prems(2) st(2) tree_pages_nonempty [of t] by (cases t; force simp: walk_fits_def Cons)+
    have "\<exists>h' :: u64. unat h' = unat h + PAGE_SIZE"
      using room(4) le_unat_64 [of "unat h + PAGE_SIZE" "vl_max_hashed_bytes lim"] by (intro exI [of _ "h + 16384"]) (simp add: unat_add_no_overflow)
    then obtain h' :: u64 where h': "unat h' = unat h + PAGE_SIZE" by blast
    have add: "add_hashed h 16384 lim = Inr h'" using h' room(4) by (simp add: add_page_hashed)
    have visit: "may_visit lim x visited" using room(1,3) st(2) by (cases t) (simp_all add: may_visit_def)
    show ?thesis
    proof (cases t)
      case (LeafPage offset ps)
      obtain hdr where m: "page_matches sha bs (xs_sequence s) x (ParsedLeaf hdr ps)" and o: "offset = ?o" using st(2) LeafPage by auto
      have "walk_fits lim (insert ?o visited) (es @ ps) h' ts'" using less.prems(2) walk_leaf(2) [OF room(1) h'] by (simp add: Cons LeafPage o)
      moreover have "length (es @ ps) \<le> vl_max_objects lim" using less.prems(2) by (simp add: walk_fits_def Cons LeafPage)
      ultimately show ?thesis
        using less.hyps [of ts' stack' "insert ?o visited" "es @ ps" h' "rs @ [page_span ?o]"] st(3) directory_loop_step_Ok [OF visit m add, of es stack' rs]
          walk_leaf(1) [OF room(1) h'] by (simp add: Cons LeafPage st(1) o)
    next
      case (NodePage offset cs)
      then obtain hdr ies where m: "page_matches sha bs (xs_sequence s) x (ParsedInternal hdr ies)" and o: "offset = ?o"
        and l: "list_all2 (\<lambda>c t. stored sha bs (xs_sequence s) lim (expect_child x c) t) ies cs" using st(2) by auto
      have "walk_fits lim (insert ?o visited) es h' (cs @ ts')" using less.prems(2) walk_node(2) [OF room(1) h'] by (simp add: Cons NodePage o)
      moreover have "list_all2 (stored sha bs (xs_sequence s) lim) (map (expect_child x) ies @ stack') (cs @ ts')"
        using l st(3) by (simp add: list_all2_appendI list_all2_map1)
      ultimately show ?thesis
        using less.hyps [of "cs @ ts'" "map (expect_child x) ies @ stack'" "insert ?o visited" es h' "rs @ [page_span ?o]"]
          directory_loop_step_Ok [OF visit m add, of es stack' rs] walk_node(1) [OF room(1) h'] by (simp add: Cons NodePage st(1) o)
    qed
  qed
qed

lemma directory_loop_sound:
  assumes "directory_loop sha bs s lim stack visited es rs h = Inr res"
    and "card visited \<le> vl_max_pages lim" and "length es \<le> vl_max_objects lim" and "h \<le> vl_max_hashed_bytes lim"
  shows "\<exists>ts. list_all2 (stored sha bs (xs_sequence s) lim) stack ts \<and> walk_fits lim visited es h ts \<and> walk_result visited es rs h ts res"
  using assms
proof (induction "card (- visited)" arbitrary: stack visited es rs h rule: less_induct)
  case less
  show ?case
  proof (cases stack)
    case Nil
    then show ?thesis using less.prems by (intro exI [of _ "[]"]) (auto simp: walk_fits_def walk_result_def word_le_nat_alt)
  next
    case (Cons x stack')
    let ?o = "ep_offset x"
    obtain p h' where v: "may_visit lim x visited" and m: "page_matches sha bs (xs_sequence s) x p" and add: "add_hashed h 16384 lim = Inr h'"
      and rest: "case p of ParsedLeaf hdr ps \<Rightarrow> length (es @ ps) \<le> vl_max_objects lim \<and>
          directory_loop sha bs s lim stack' (insert ?o visited) (es @ ps) (rs @ [page_span ?o]) h' = Inr res
        | ParsedInternal hdr cs \<Rightarrow> directory_loop sha bs s lim (map (expect_child x) cs @ stack') (insert ?o visited) es (rs @ [page_span ?o]) h' = Inr res"
      using directory_loop_step [OF less.prems(1) [unfolded Cons]] by blast
    have new: "?o \<notin> visited" "ep_depth x \<le> vl_max_page_depth lim" "card (insert ?o visited) \<le> vl_max_pages lim" using v unfolding may_visit_def by blast+
    have h': "unat h' = unat h + PAGE_SIZE" "h' \<le> vl_max_hashed_bytes lim" using add by (simp_all add: add_page_hashed word_le_nat_alt)
    note IH = less.hyps [OF unvisited_page_less [OF new(1)] _ new(3) _ h'(2)]
    show ?thesis
    proof (cases p)
      case (ParsedLeaf hdr ps)
      then obtain ts where ts: "list_all2 (stored sha bs (xs_sequence s) lim) stack' ts" "walk_fits lim (insert ?o visited) (es @ ps) h' ts"
        "walk_result (insert ?o visited) (es @ ps) (rs @ [page_span ?o]) h' ts res" using IH [of stack' "es @ ps" "rs @ [page_span ?o]"] rest by auto
      have "stored sha bs (xs_sequence s) lim x (LeafPage ?o ps)" using m new(2) ParsedLeaf by auto
      then show ?thesis using ts walk_leaf [OF new(1) h'(1)] Cons
        by (intro exI [of _ "LeafPage ?o ps # ts"]) (simp del: stored.simps)
    next
      case (ParsedInternal hdr cs)
      then obtain us where us: "list_all2 (stored sha bs (xs_sequence s) lim) (map (expect_child x) cs @ stack') us" "walk_fits lim (insert ?o visited) es h' us"
        "walk_result (insert ?o visited) es (rs @ [page_span ?o]) h' us res" using IH [of "map (expect_child x) cs @ stack'" es "rs @ [page_span ?o]"] rest less.prems(3) by auto
      then obtain ts ts' where ts: "us = ts @ ts'" "list_all2 (stored sha bs (xs_sequence s) lim) (map (expect_child x) cs) ts" "list_all2 (stored sha bs (xs_sequence s) lim) stack' ts'"
        by (auto simp: list_all2_append1)
      have "stored sha bs (xs_sequence s) lim x (NodePage ?o ts)" using m new(2) ParsedInternal ts(2) by (auto simp: list_all2_map1)
      then show ?thesis using us(2,3) ts(3) walk_node [OF new(1) h'(1)] Cons ts(1)
        by (intro exI [of _ "NodePage ?o ts # ts'"]) (simp del: stored.simps)
    qed
  qed
qed

end
