(* ===== verification/Ucof_Exp2_Tree_Writer.thy ===== *)
theory Ucof_Exp2_Tree_Writer
  imports Ucof_Exp2_Tree Ucof_Directory_Properties
begin

text \<open>
  What \<open>write_directory\<close> appends to a file: a tree of pages that stores the given entries, at offsets behind
  the previous end of the file, of a depth that is logarithmic in their number.
\<close>

section \<open>Located trees\<close>

definition refers :: "expected_page \<Rightarrow> page_locator \<Rightarrow> bool" where
  "refers x c \<longleftrightarrow> ep_offset x = pl_offset c \<and> ep_digest x = pl_digest c \<and> ep_level x = pl_level c \<and>
     (ep_min_key x = 0 \<or> ep_min_key x = pl_min_key c) \<and> (ep_max_key x = - 1 \<or> ep_max_key x = pl_max_key c)"

text \<open>A locator describes a tree: whoever refers to the locator's page, not too deep in the directory, finds the tree.\<close>

definition located :: "(bytes \<Rightarrow> bytes) \<Rightarrow> bytes \<Rightarrow> u64 \<Rightarrow> validation_limits \<Rightarrow> page_locator \<Rightarrow> page_tree \<Rightarrow> bool" where
  "located sha bs sequence lim c t \<longleftrightarrow>
     (\<forall>x. refers x c \<and> ep_depth x + unat (pl_level c) \<le> vl_max_page_depth lim \<longrightarrow> stored sha bs sequence lim x t) \<and>
     length (pl_digest c) = 32 \<and> tree_entries t \<noteq> [] \<and> pl_min_key c = le_object_id (hd (tree_entries t)) \<and>
     pl_max_key c = le_object_id (last (tree_entries t))"

lemma located_append: "located sha bs sequence lim c t \<Longrightarrow> located sha (bs @ bs') sequence lim c t"
  unfolding located_def using stored_append by blast

definition entries_ok :: "leaf_entry list \<Rightarrow> bool" where
  "entries_ok es \<longleftrightarrow> sorted_wrt (<) (map le_object_id es) \<and> (\<forall>e \<in> set es. leaf_entry_wf e)"

lemma entries_ok_append: "entries_ok (es @ fs) \<Longrightarrow> entries_ok es \<and> entries_ok fs"
  by (simp add: entries_ok_def sorted_wrt_append)

lemma entries_ok_concat: "entries_ok (concat ess) \<Longrightarrow> es \<in> set ess \<Longrightarrow> entries_ok es"
  by (induction ess) (auto dest: entries_ok_append)

lemma located_wf: "located sha bs sequence lim c t \<Longrightarrow> entries_ok (tree_entries t) \<Longrightarrow> locator_wf c"
  using sorted_hd_last [of le_object_id "tree_entries t"]
  by (auto simp: located_def locator_wf_def entries_ok_def leaf_entry_wf_def)

lemma new_page:
  assumes "length page = PAGE_SIZE" and "length (bs @ page) < 2 ^ 64"
  shows "page_span (of_nat (length bs)) = (length bs, length bs + PAGE_SIZE)" "slice (bs @ page) (length bs) (length bs + PAGE_SIZE) = page"
proof -
  have "unat (of_nat (length bs) :: u64) = length bs" using assms by (intro unat_of_nat_64) simp
  then show "page_span (of_nat (length bs)) = (length bs, length bs + PAGE_SIZE)" by (simp add: page_span_def)
  show "slice (bs @ page) (length bs) (length bs + PAGE_SIZE) = page" using assms by (simp add: slice_def)
qed

lemma located_leaf:
  assumes "encode_leaf_page es sequence = Inr page" and "\<forall>e \<in> set es. leaf_entry_wf e" and "length (bs @ page) < 2 ^ 64"
    and "\<And>x. length (sha x) = 32"
  shows "located sha (bs @ page) sequence lim \<lparr>pl_min_key = le_object_id (hd es), pl_max_key = le_object_id (last es),
    pl_offset = of_nat (length bs), pl_level = 0, pl_digest = digest_bytes sha PAGE_DOMAIN page\<rparr> (LeafPage (of_nat (length bs)) es)"
proof -
  note rt = leaf_page_round_trip [OF assms(1,2)] and np = new_page [OF leaf_page_round_trip(1) [OF assms(1,2)] assms(3)]
  have "es \<noteq> []" using encode_leaf_page_Ok [OF assms(1)] by simp
  moreover have "page_matches sha (bs @ page) sequence x (ParsedLeaf (leaf_header es sequence) es)"
    if "refers x \<lparr>pl_min_key = le_object_id (hd es), pl_max_key = le_object_id (last es),
      pl_offset = of_nat (length bs), pl_level = 0, pl_digest = digest_bytes sha PAGE_DOMAIN page\<rparr>" for x
    using that rt np assms(3) by (auto simp: refers_def page_matches_def leaf_header_def)
  ultimately show ?thesis by (auto simp: located_def digest_bytes_def assms(4) refers_def)
qed

lemma located_node:
  assumes "encode_internal_page (map fst S) sequence lev = Inr page" and "\<forall>(c, t) \<in> set S. located sha bs sequence lim c t"
    and "\<forall>(c, t) \<in> set S. checked_add (pl_level c) 1 = Some lev" and "entries_ok (forest_entries (map snd S))"
    and "length (bs @ page) < 2 ^ 64" and "\<And>x. length (sha x) = 32"
  shows "length page = PAGE_SIZE" "located sha (bs @ page) sequence lim \<lparr>pl_min_key = pl_min_key (hd (map fst S)), pl_max_key = pl_max_key (last (map fst S)),
    pl_offset = of_nat (length bs), pl_level = lev, pl_digest = digest_bytes sha PAGE_DOMAIN page\<rparr> (NodePage (of_nat (length bs)) (map snd S))"
proof -
  have ok: "entries_ok (tree_entries t)" if "(c, t) \<in> set S" for c t
    using entries_ok_concat [OF assms(4), of "tree_entries t"] that by force
  have wf: "\<forall>c \<in> set (map fst S). locator_wf c" "\<forall>c \<in> set (map fst S). checked_add (pl_level c) 1 = Some lev"
    using assms(2,3) located_wf ok by fastforce+
  note rt = internal_page_round_trip [OF assms(1) wf] and np = new_page [OF internal_page_round_trip(1) [OF assms(1) wf] assms(5)]
  show "length page = PAGE_SIZE" by (rule rt(1))
  have lv: "S \<noteq> []" "lev \<noteq> 0" "lev \<le> 255" using assms(1) by (auto simp: encode_internal_page_def split: if_splits)
  let ?c = "\<lparr>pl_min_key = pl_min_key (hd (map fst S)), pl_max_key = pl_max_key (last (map fst S)),
    pl_offset = of_nat (length bs), pl_level = lev, pl_digest = digest_bytes sha PAGE_DOMAIN page\<rparr>"
  have "stored sha (bs @ page) sequence lim x (NodePage (of_nat (length bs)) (map snd S))"
    if x: "refers x ?c" "ep_depth x + unat (pl_level ?c) \<le> vl_max_page_depth lim" for x
  proof -
    have pm: "page_matches sha (bs @ page) sequence x (ParsedInternal (internal_header (map fst S) sequence lev) (map internal_of (map fst S)))"
      using x rt np assms(5) u16_level [of lev] lv by (auto simp: refers_def page_matches_def internal_header_def word_gt_0)
    have child: "stored sha (bs @ page) sequence lim (expect_child x (internal_of c)) t" if ct: "(c, t) \<in> set S" for c t
    proof -
      have "refers (expect_child x (internal_of c)) c" by (simp add: refers_def expect_child_def internal_of_def)
      moreover have "ep_depth (expect_child x (internal_of c)) + unat (pl_level c) \<le> vl_max_page_depth lim"
        using assms(3) ct x(2) by (fastforce simp: expect_child_def checked_add_Some_iff)
      ultimately show ?thesis using assms(2) ct stored_append by (fastforce simp: located_def)
    qed
    have "list_all2 (\<lambda>c t. stored sha (bs @ page) sequence lim (expect_child x c) t) (map internal_of (map fst S)) (map snd S)"
      using child by (auto simp: list_all2_map1 list_all2_map2 list_all2_same)
    moreover have "ep_depth x \<le> vl_max_page_depth lim" "ep_offset x = of_nat (length bs)" using x by (simp_all add: refers_def)
    ultimately show ?thesis unfolding stored.simps using pm by blast
  qed
  moreover have ends: "located sha bs sequence lim (fst (hd S)) (snd (hd S))" "located sha bs sequence lim (fst (last S)) (snd (last S))"
    using assms(2) lv(1) by (metis case_prod_unfold list.set_sel(1), metis case_prod_unfold last_in_set)
  moreover have "hd (forest_entries (map snd S)) = hd (tree_entries (snd (hd S)))" "last (forest_entries (map snd S)) = last (tree_entries (snd (last S)))"
    "forest_entries (map snd S) \<noteq> []"
    using ends lv(1) hd_concat [of "map tree_entries (map snd S)"] last_concat [of "map tree_entries (map snd S)"]
    by (auto simp: located_def hd_map last_map dest: hd_in_set)
  ultimately show "located sha (bs @ page) sequence lim ?c (NodePage (of_nat (length bs)) (map snd S))"
    using lv by (simp add: located_def digest_bytes_def assms(6) hd_map last_map)
qed

section \<open>Page offsets\<close>

text \<open>The pages of a forest are all that follows position \<open>n\<close> of a file, at distinct offsets.\<close>

definition packed :: "usize \<Rightarrow> bytes \<Rightarrow> u64 list \<Rightarrow> bool" where
  "packed n bs ps \<longleftrightarrow> distinct ps \<and> (\<forall>offset \<in> set ps. n \<le> unat offset \<and> unat offset + PAGE_SIZE \<le> length bs) \<and>
     length bs = n + PAGE_SIZE * length ps"

lemma packed_Nil: "packed (length bs) bs []"
  by (simp add: packed_def)

lemma packed_new:
  assumes "packed n bs (ps @ qs)" and "length page = PAGE_SIZE" and "length (bs @ page) < 2 ^ 64"
  shows "packed n (bs @ page) (ps @ of_nat (length bs) # qs)"
proof -
  define offset :: u64 where "offset = of_nat (length bs)"
  have u: "unat offset = length bs" unfolding offset_def using assms(3) by (intro unat_of_nat_64) simp
  have old: "\<forall>p \<in> set (ps @ qs). n \<le> unat p \<and> unat p + PAGE_SIZE \<le> length bs" "length bs = n + PAGE_SIZE * length (ps @ qs)" "distinct (ps @ qs)"
    using assms(1) unfolding packed_def by blast+
  then have "offset \<notin> set (ps @ qs)" using u by fastforce
  then have "distinct (ps @ offset # qs)" using old(3) by auto
  moreover have "\<forall>p \<in> set (ps @ offset # qs). n \<le> unat p \<and> unat p + PAGE_SIZE \<le> length (bs @ page)"
  proof
    fix p assume "p \<in> set (ps @ offset # qs)"
    then consider "p = offset" | "p \<in> set (ps @ qs)" by auto
    then show "n \<le> unat p \<and> unat p + PAGE_SIZE \<le> length (bs @ page)"
    proof cases
      case 1
      then show ?thesis using u old(2) assms(2) by simp
    next
      case 2
      then have "n \<le> unat p \<and> unat p + PAGE_SIZE \<le> length bs" using old(1) by blast
      then show ?thesis by simp
    qed
  qed
  moreover have "length (bs @ page) = n + PAGE_SIZE * length (ps @ offset # qs)" using old(2) assms(2) by simp
  ultimately show ?thesis unfolding packed_def offset_def by blast
qed

definition at_level :: "(bytes \<Rightarrow> bytes) \<Rightarrow> bytes \<Rightarrow> u64 \<Rightarrow> validation_limits \<Rightarrow> u16 \<Rightarrow> (page_locator \<times> page_tree) list \<Rightarrow> bool" where
  "at_level sha bs sequence lim lev T \<longleftrightarrow> (\<forall>(c, t) \<in> set T. located sha bs sequence lim c t \<and> pl_level c = lev)"

lemma at_level_append: "at_level sha bs sequence lim lev T \<Longrightarrow> at_level sha (bs @ bs') sequence lim lev T"
  by (auto simp: at_level_def intro: located_append)

lemma at_level_simps [simp]:
  "at_level sha bs sequence lim lev []"
  "at_level sha bs sequence lim lev ((c, t) # T) \<longleftrightarrow> located sha bs sequence lim c t \<and> pl_level c = lev \<and> at_level sha bs sequence lim lev T"
  "at_level sha bs sequence lim lev (S @ T) \<longleftrightarrow> at_level sha bs sequence lim lev S \<and> at_level sha bs sequence lim lev T"
  by (auto simp: at_level_def)

lemma write_leaves_extends: "write_leaves sha sequence css bs L = Inr (bs', L') \<Longrightarrow> \<exists>P. bs' = bs @ P"
  by (induction css arbitrary: bs L) (fastforce simp: result_simps Let_def)+

lemma write_internals_extends: "write_internals sha sequence css bs L = Inr (bs', L') \<Longrightarrow> \<exists>P. bs' = bs @ P"
  by (induction css arbitrary: bs L) (fastforce simp: result_simps Let_def)+

lemma to_u64_Ok: "to_u64 n = Inr v \<longleftrightarrow> n < 2 ^ 64 \<and> v = of_nat n"
  by (auto simp: to_u64_def ok_or_def u64_try_from_def)

lemma write_leaves_spec:
  assumes "write_leaves sha sequence css bs (map fst T) = Inr (bs', L')" and "length bs' < 2 ^ 64" and "\<And>x. length (sha x) = 32"
    and "\<forall>es \<in> set css. \<forall>e \<in> set es. leaf_entry_wf e" and "at_level sha bs sequence lim 0 T" and "packed n bs (forest_pages (map snd T))"
  shows "\<exists>U. L' = map fst (T @ U) \<and> at_level sha bs' sequence lim 0 (T @ U) \<and> packed n bs' (forest_pages (map snd (T @ U))) \<and> map (\<lambda>p. tree_entries (snd p)) U = css"
  using assms(1,4-6)
proof (induction css arbitrary: bs T)
  case Nil
  then show ?case by (intro exI [of _ "[]"]) simp
next
  case (Cons es css)
  let ?o = "of_nat (length bs) :: u64"
  from Cons.prems(1) obtain page where page: "encode_leaf_page es sequence = Inr page"
    and rest: "write_leaves sha sequence css (bs @ page) (map fst T @ [\<lparr>pl_min_key = le_object_id (hd es), pl_max_key = le_object_id (last es),
      pl_offset = ?o, pl_level = 0, pl_digest = digest_bytes sha PAGE_DOMAIN page\<rparr>]) = Inr (bs', L')" (is "write_leaves _ _ _ _ (_ @ [?c]) = _")
    by (auto simp: result_simps Let_def to_u64_Ok)
  have wf: "\<forall>e \<in> set es. leaf_entry_wf e" using Cons.prems(2) by simp
  have size: "length (bs @ page) < 2 ^ 64" "length page = PAGE_SIZE"
    using write_leaves_extends [OF rest] assms(2) leaf_page_round_trip(1) [OF page wf] by auto
  let ?T = "T @ [(?c, LeafPage ?o es)]"
  have "at_level sha (bs @ page) sequence lim 0 ?T"
    using at_level_append [OF Cons.prems(3)] located_leaf [OF page wf size(1) assms(3)] by simp
  moreover have "packed n (bs @ page) (forest_pages (map snd ?T))" using packed_new [of n bs "forest_pages (map snd T)" "[]" page] size Cons.prems(4) by simp
  ultimately obtain U where U: "L' = map fst (?T @ U)" "at_level sha bs' sequence lim 0 (?T @ U)" "packed n bs' (forest_pages (map snd (?T @ U)))" "map (\<lambda>p. tree_entries (snd p)) U = css"
    using Cons.IH [of "bs @ page" ?T] rest Cons.prems(2) by (auto simp: comp_def)
  show ?case by (rule exI [of _ "(?c, LeafPage ?o es) # U"]) (use U in \<open>simp add: comp_def\<close>)
qed

lemma write_internals_spec:
  assumes "write_internals sha sequence (map (map fst) Ss) bs (map fst T) = Inr (bs', L')" and "length bs' < 2 ^ 64" and "\<And>x. length (sha x) = 32"
    and "\<forall>S \<in> set Ss. S \<noteq> []" and "at_level sha bs sequence lim lev (concat Ss)" and "at_level sha bs sequence lim (lev + 1) T"
    and "entries_ok (forest_entries (map snd (concat Ss)))" and "packed n bs (forest_pages (map snd (T @ concat Ss)))"
  shows "\<exists>U. L' = map fst (T @ U) \<and> at_level sha bs' sequence lim (lev + 1) (T @ U) \<and> packed n bs' (forest_pages (map snd (T @ U))) \<and>
    map (\<lambda>p. tree_entries (snd p)) U = map (\<lambda>S. forest_entries (map snd S)) Ss \<and> (Ss \<noteq> [] \<longrightarrow> unat (lev + 1) = unat lev + 1)"
  using assms(1,4-8)
proof (induction Ss arbitrary: bs T)
  case Nil
  then show ?case by (intro exI [of _ "[]"]) simp
next
  case (Cons S Ss)
  let ?o = "of_nat (length bs) :: u64"
  have lev: "\<forall>(c, t) \<in> set S. pl_level c = lev" using Cons.prems(3) by (auto simp: at_level_def)
  moreover have "hd S \<in> set S" "hd (map fst S) = fst (hd S)" using Cons.prems(2) by (simp_all add: hd_map)
  ultimately have hdl: "pl_level (hd (map fst S)) = lev" by (metis (mono_tags, lifting) case_prodD prod.collapse)
  from Cons.prems(1) hdl obtain lev' page where l: "checked_add lev 1 = Some lev'" and page: "encode_internal_page (map fst S) sequence lev' = Inr page"
    and rest: "write_internals sha sequence (map (map fst) Ss) (bs @ page) (map fst T @ [\<lparr>pl_min_key = pl_min_key (hd (map fst S)), pl_max_key = pl_max_key (last (map fst S)),
      pl_offset = ?o, pl_level = lev', pl_digest = digest_bytes sha PAGE_DOMAIN page\<rparr>]) = Inr (bs', L')" (is "write_internals _ _ _ _ (_ @ [?c]) = _")
    by (auto simp: result_simps Let_def to_u64_Ok)
  have l': "lev' = lev + 1" "unat (lev + 1) = unat lev + 1" using l checked_add_Some_iff [of lev 1 lev'] by (auto simp: checked_add_def split: if_splits)
  have ok: "entries_ok (forest_entries (map snd S))" "entries_ok (forest_entries (map snd (concat Ss)))" using Cons.prems(5) by (auto dest: entries_ok_append)
  have size: "length (bs @ page) < 2 ^ 64" using write_internals_extends [OF rest] assms(2) by auto
  have S: "\<forall>(c, t) \<in> set S. located sha bs sequence lim c t" "\<forall>(c, t) \<in> set S. checked_add (pl_level c) 1 = Some lev'"
    using Cons.prems(3) lev l by (auto simp: at_level_def)
  note node = located_node [OF page S ok(1) size assms(3)]
  let ?T = "T @ [(?c, NodePage ?o (map snd S))]"
  have "at_level sha (bs @ page) sequence lim (lev + 1) ?T" "at_level sha (bs @ page) sequence lim lev (concat Ss)"
    using at_level_append Cons.prems(3,4) node(2) l'(1) by simp_all
  moreover have "packed n (bs @ page) (forest_pages (map snd (?T @ concat Ss)))"
    using packed_new [of n bs "forest_pages (map snd T)" "forest_pages (map snd S) @ forest_pages (map snd (concat Ss))" page] node(1) size Cons.prems(6) by simp
  ultimately obtain U where U: "L' = map fst (?T @ U)" "at_level sha bs' sequence lim (lev + 1) (?T @ U)" "packed n bs' (forest_pages (map snd (?T @ U)))"
      "map (\<lambda>p. tree_entries (snd p)) U = map (\<lambda>S. forest_entries (map snd S)) Ss"
    using Cons.IH [of "bs @ page" ?T] rest Cons.prems(2) ok(2) l'(1) by (auto simp: comp_def)
  show ?case by (rule exI [of _ "(?c, NodePage ?o (map snd S)) # U"]) (use U l' in \<open>simp add: comp_def\<close>)
qed

lemma write_levels_extends: "write_levels sha sequence bs L = Inr (bs', L') \<Longrightarrow> \<exists>P. bs' = bs @ P"
proof (induction sha sequence bs L rule: write_levels.induct)
  case (1 sha sequence bs L)
  show ?case
  proof (cases "length L \<le> 1")
    case True
    then show ?thesis using "1.prems" by (simp add: write_levels.simps)
  next
    case False
    then obtain bs1 L1 where w: "write_internals sha sequence (chunks INTERNAL_CAPACITY L) bs [] = Inr (bs1, L1)" and r: "write_levels sha sequence bs1 L1 = Inr (bs', L')"
      using "1.prems" by (subst (asm) write_levels.simps) (auto split: sum.splits)
    have "\<exists>P. bs' = bs1 @ P" by (rule "1.IH" [OF False w refl r])
    then show ?thesis using write_internals_extends [OF w] by auto
  qed
qed

lemma forest_entries_concat: "forest_entries (map snd (concat Ss)) = concat (map (\<lambda>S. forest_entries (map snd S)) Ss)"
  by (induction Ss) simp_all

lemma forest_pages_length: "length ts \<le> length (forest_pages ts)"
proof (induction ts)
  case (Cons t ts)
  then show ?case using tree_pages_nonempty [of t] by (simp add: Suc_le_eq add_strict_increasing del: length_greater_0_conv)
qed simp

lemma write_levels_spec:
  assumes "write_levels sha sequence bs (map fst T) = Inr (bs', L')" and "length bs' < 2 ^ 64" and "\<And>x. length (sha x) = 32" and "T \<noteq> []"
    and "at_level sha bs sequence lim lev T" and "entries_ok (forest_entries (map snd T))" and "packed n bs (forest_pages (map snd T))" and "length T \<le> 255 ^ k"
  shows "\<exists>c t. L' = [c] \<and> located sha bs' sequence lim c t \<and> packed n bs' (tree_pages t) \<and> tree_entries t = forest_entries (map snd T) \<and>
    unat (pl_level c) \<le> unat lev + k"
  using assms(1,4-8)
proof (induction "length T" arbitrary: bs T lev k rule: less_induct)
  case less
  show ?case
  proof (cases "length T \<le> 1")
    case True
    then obtain c t where "T = [(c, t)]" using less.prems(2) by (cases T) auto
    then show ?thesis using less.prems by (auto simp: write_levels.simps)
  next
    case False
    let ?Ss = "chunks 255 T"
    have cat: "concat ?Ss = T" by (simp add: concat_chunks)
    have "chunks INTERNAL_CAPACITY (map fst T) = map (map fst) ?Ss" by (simp add: chunks_map)
    with less.prems(1) False obtain bs1 L1 where w: "write_internals sha sequence (map (map fst) ?Ss) bs (map fst ([] :: (page_locator \<times> page_tree) list)) = Inr (bs1, L1)"
      and r: "write_levels sha sequence bs1 L1 = Inr (bs', L')"
      by (subst (asm) write_levels.simps) (auto split: sum.splits)
    have size: "length bs1 < 2 ^ 64" using write_levels_extends [OF r] assms(2) by auto
    have ne: "\<forall>S \<in> set ?Ss. S \<noteq> []" "?Ss \<noteq> []" using chunks_nonempty [of 255 _ T] cat less.prems(2) by auto
    obtain U where U: "L1 = map fst U" "at_level sha bs1 sequence lim (lev + 1) U" "packed n bs1 (forest_pages (map snd U))"
        "map (\<lambda>p. tree_entries (snd p)) U = map (\<lambda>S. forest_entries (map snd S)) ?Ss" "unat (lev + 1) = unat lev + 1"
      using write_internals_spec [OF w size assms(3) ne(1), of lim lev n] less.prems(3-5) ne(2) cat by auto
    have es: "forest_entries (map snd U) = forest_entries (map snd T)"
      using U(4) arg_cong [OF cat, of "\<lambda>T. forest_entries (map snd T)"] unfolding forest_entries_concat by (simp add: comp_def)
    have lenU: "length U = length ?Ss" using arg_cong [OF U(4), of length] by simp
    obtain j where k: "k = Suc j" using less.prems(6) False by (cases k) auto
    have "length T \<le> 255 ^ j * 255" using less.prems(6) by (simp add: k mult.commute)
    then have small: "length U \<le> 255 ^ j" 
      using lenU length_chunks [of 255 T] ceil_le [of 255 "length T" "255 ^ j"] by linarith
    have shorter: "length U < length T" using lenU length_chunks_less [of 255 T] False by simp
    have "U \<noteq> []" using lenU ne(2) by auto
    then show ?thesis using less.hyps [OF shorter, of bs1 "lev + 1" j] r U es small less.prems(4) by (auto simp: k)
  qed
qed

lemma write_directory_spec:
  assumes "write_directory sha bs es sequence = Inr (bs', c)" and "length bs' < 2 ^ 64" and "\<And>x. length (sha x) = 32" and "entries_ok es"
  shows "\<exists>t. located sha bs' sequence lim c t \<and> packed (length bs) bs' (tree_pages t) \<and> tree_entries t = es \<and> unat (pl_level c) \<le> 7" "\<exists>P. bs' = bs @ P"
proof -
  let ?css = "chunks 185 es"
  from assms(1) obtain bs1 L1 L2 where w: "es \<noteq> []" "write_leaves sha sequence ?css bs (map fst ([] :: (page_locator \<times> page_tree) list)) = Inr (bs1, L1)" "write_levels sha sequence bs1 L1 = Inr (bs', L2)" "c = last L2"
    by (auto simp: write_directory_def result_simps split: if_splits)
  show ext: "\<exists>P. bs' = bs @ P" using write_leaves_extends [OF w(2)] write_levels_extends [OF w(3)] by auto
  have size: "length bs1 < 2 ^ 64" using write_levels_extends [OF w(3)] assms(2) by auto
  have cat: "concat ?css = es" by (simp add: concat_chunks)
  have wf: "\<forall>es \<in> set ?css. \<forall>e \<in> set es. leaf_entry_wf e" 
  proof (intro ballI)
    fix fs e assume "fs \<in> set ?css" "e \<in> set fs"
    then have "e \<in> set es" using cat by (metis UN_I set_concat)
    then show "leaf_entry_wf e" using assms(4) by (simp add: entries_ok_def)
  qed
  obtain U where U: "L1 = map fst U" "at_level sha bs1 sequence lim 0 U" "packed (length bs) bs1 (forest_pages (map snd U))" "map (\<lambda>p. tree_entries (snd p)) U = ?css"
    using write_leaves_spec [OF w(2) size assms(3) wf, of lim "length bs"] packed_Nil by auto
  have es: "forest_entries (map snd U) = es" using U(4) cat by (simp add: comp_def)
  have ne: "U \<noteq> []" using es w(1) by auto
  have "length U \<le> length (forest_pages (map snd U))" using forest_pages_length [of "map snd U"] by simp
  moreover have "length bs1 = length bs + PAGE_SIZE * length (forest_pages (map snd U))" using U(3) unfolding packed_def by blast
  ultimately have "PAGE_SIZE * length U < 2 ^ 64" using size by linarith
  then have len: "length U \<le> 255 ^ 7" by simp
  then obtain c' t where "L2 = [c']" "located sha bs' sequence lim c' t" "packed (length bs) bs' (tree_pages t)" "tree_entries t = es" "unat (pl_level c') \<le> 7"
    using write_levels_spec [OF w(3) [unfolded U(1)] assms(2,3) ne U(2) _ U(3) len] es assms(4) by auto
  then show "\<exists>t. located sha bs' sequence lim c t \<and> packed (length bs) bs' (tree_pages t) \<and> tree_entries t = es \<and> unat (pl_level c) \<le> 7" using w(4) by auto
qed

end
