(* ===== verification/Ucof_Exp2_Commit.thy ===== *)
theory Ucof_Exp2_Commit
  imports Ucof_Exp2_Tree_Writer
begin

text \<open>
  What the builders of EXP-0002 produce passes strict validation: object records, the commit around them, a
  genesis file and an appended commit.
\<close>

section \<open>Object records\<close>

text \<open>An object of the input is in the file, where the entry says.\<close>

definition object_stored :: "bytes \<Rightarrow> object_input \<Rightarrow> leaf_entry \<Rightarrow> bool" where
  "object_stored bs obj e \<longleftrightarrow> le_object_id e = oi_object_id obj \<and> le_kind e = oi_kind obj \<and> unat (le_logical_len e) = length (oi_payload obj) \<and>
     slice bs (fst (record_range e) + OBJECT_HEADER_LEN) (snd (record_range e)) = oi_payload obj"

lemma object_stored_append: "object_stored bs obj e \<Longrightarrow> record_at sha bs e \<Longrightarrow> object_stored (bs @ cs) obj e"
  by (simp add: object_stored_def record_at_def slice_append)

lemma new_record:
  assumes "oi_object_id obj \<noteq> 0" and "oi_kind obj \<noteq> 0" and "length (oi_payload obj) < 2 ^ 64" and "length bs < 2 ^ 64"
    and "checked_add 48 (of_nat (length (oi_payload obj)) :: u64) = Some len"
    and "hdr = object_header_encode \<lparr>oh_object_id = oi_object_id obj, oh_kind = oi_kind obj, oh_payload_len = of_nat (length (oi_payload obj)),
      oh_logical_len = of_nat (length (oi_payload obj))\<rparr>"
    and "e = \<lparr>le_object_id = oi_object_id obj, le_kind = oi_kind obj, le_record_offset = of_nat (length bs), le_record_len = len,
      le_logical_len = of_nat (length (oi_payload obj)), le_record_digest = sha (OBJECT_DOMAIN @ hdr @ oi_payload obj)\<rparr>"
  shows "record_at sha (bs @ hdr @ oi_payload obj) e" "object_stored (bs @ hdr @ oi_payload obj) obj e"
    "record_range e = (length bs, length (bs @ hdr @ oi_payload obj))"
proof -
  have u: "unat (of_nat (length (oi_payload obj)) :: u64) = length (oi_payload obj)" "unat (of_nat (length bs) :: u64) = length bs"
    by (rule unat_of_nat_64 [OF assms(3)], rule unat_of_nat_64 [OF assms(4)])
  have len: "unat len = 48 + length (oi_payload obj)" using assms(5) u(1) by (simp add: checked_add_Some_iff)
  have hl: "length hdr = 48" by (simp add: assms(6))
  show r: "record_range e = (length bs, length (bs @ hdr @ oi_payload obj))" using u len hl by (simp add: record_range_def assms(7))
  have parse: "object_header_parse hdr = Inr (header_of_entry e)"
    using object_header_round_trip [of "header_of_entry e"] assms(1,2) by (simp add: assms(6,7) header_of_entry_def object_header_wf_def)
  have sl: "slice (bs @ hdr @ oi_payload obj) (length bs) (length bs + 48) = hdr"
    "slice (bs @ hdr @ oi_payload obj) (length bs) (length (bs @ hdr @ oi_payload obj)) = hdr @ oi_payload obj"
    "slice (bs @ hdr @ oi_payload obj) (length bs + 48) (length (bs @ hdr @ oi_payload obj)) = oi_payload obj"
    using hl by (simp_all add: slice_def)
  show "record_at sha (bs @ hdr @ oi_payload obj) e"
    using parse sl len u hl unfolding record_at_def r by (simp add: digest_bytes_def) (simp add: assms(7))
  show "object_stored (bs @ hdr @ oi_payload obj) obj e"
    using sl u unfolding object_stored_def r by (simp add: assms(7))
qed

lemma write_records_spec:
  assumes "write_records sha objs prev bs es = Inr (bs', es')"
  shows "\<exists>us P. es' = es @ us \<and> bs' = bs @ P \<and> list_all2 (object_stored bs') objs us \<and>
    (\<forall>u \<in> set us. record_at sha bs' u \<and> length bs \<le> fst (record_range u)) \<and> sorted_wrt apart (map record_range us) \<and>
    length P = payload_sum us + 48 * length us"
  using assms
proof (induction objs arbitrary: prev bs es)
  case Nil
  then show ?case by (intro exI [of _ "[]"]) simp
next
  case (Cons obj objs)
  let ?n = "of_nat (length (oi_payload obj)) :: u64"
  define hdr where "hdr = object_header_encode \<lparr>oh_object_id = oi_object_id obj, oh_kind = oi_kind obj, oh_payload_len = ?n, oh_logical_len = ?n\<rparr>"
  from Cons.prems obtain len where ok: "oi_object_id obj \<noteq> 0" "oi_kind obj \<noteq> 0" "length (oi_payload obj) < 2 ^ 64" "length bs < 2 ^ 64"
      and len: "checked_add 48 ?n = Some len"
    and rest: "write_records sha objs (Some (oi_object_id obj)) (bs @ hdr @ oi_payload obj) (es @ [\<lparr>le_object_id = oi_object_id obj,
      le_kind = oi_kind obj, le_record_offset = of_nat (length bs), le_record_len = len, le_logical_len = ?n,
      le_record_digest = sha (OBJECT_DOMAIN @ hdr @ oi_payload obj)\<rparr>]) = Inr (bs', es')" (is "write_records _ _ _ ?bs (_ @ [?e]) = _")
    by (auto simp: result_simps Let_def to_u64_Ok hdr_def split: if_splits)
  note new = new_record [OF ok len hdr_def refl, of sha]
  obtain us P where IH: "es' = (es @ [?e]) @ us" "bs' = ?bs @ P" "list_all2 (object_stored bs') objs us"
     "\<forall>u \<in> set us. record_at sha bs' u \<and> length ?bs \<le> fst (record_range u)" "sorted_wrt apart (map record_range us)"
     "length P = payload_sum us + 48 * length us"
    using Cons.IH [OF rest] by blast
  have "object_stored bs' obj ?e" "record_at sha bs' ?e" "fst (record_range ?e) = length bs"
    using object_stored_append [OF new(2,1), of P] record_at_append [OF new(1), of P] new(3) IH(2) by simp_all
  moreover have "apart (record_range ?e) r" if "length ?bs \<le> fst r" for r
    using that unfolding new(3) by (cases r) (simp add: apart_def)
  moreover have "unat ?n = length (oi_payload obj)" by (rule unat_of_nat_64 [OF ok(3)])
  moreover have "length hdr = 48" by (simp add: hdr_def)
  ultimately show ?case using IH
    by (intro exI [of _ "?e # us"] exI [of _ "hdr @ oi_payload obj @ P"]) auto
qed

lemma write_records_strict:
  assumes "write_records sha objs prev bs es = Inr r" and "sorted (map oi_object_id objs)" and "\<And>p. prev = Some p \<Longrightarrow> \<forall>obj \<in> set objs. p \<le> oi_object_id obj"
  shows "sorted_wrt (<) (map oi_object_id objs) \<and> (\<forall>p. prev = Some p \<longrightarrow> (\<forall>obj \<in> set objs. p < oi_object_id obj))"
  using assms
proof (induction objs arbitrary: prev bs es)
  case (Cons obj objs)
  from Cons.prems(1) obtain bs1 es1 where ne: "prev \<noteq> Some (oi_object_id obj)" and rest: "write_records sha objs (Some (oi_object_id obj)) bs1 es1 = Inr r"
    by (auto simp: result_simps Let_def split: if_splits)
  have IH: "sorted_wrt (<) (map oi_object_id objs)" "\<forall>o' \<in> set objs. oi_object_id obj < oi_object_id o'"
    using Cons.IH [OF rest] Cons.prems(2) by auto
  have "p < oi_object_id obj" if "prev = Some p" for p using Cons.prems(3) [OF that] ne that by (auto simp: order_less_le)
  then show ?case using IH by (auto intro: order.strict_trans)
qed simp

lemma write_object_records_spec:
  assumes "write_object_records sha bs objs = Inr (bs', us)" and "\<And>x. length (sha x) = 32"
  shows "\<exists>P. bs' = bs @ P \<and> length P = payload_sum us + 48 * length us" "list_all2 (object_stored bs') (sort_key oi_object_id objs) us"
    "records_ok sha bs' us" "entries_ok us" "\<forall>u \<in> set us. length bs \<le> fst (record_range u)"
proof -
  let ?s = "sort_key oi_object_id objs"
  have w: "write_records sha ?s None bs [] = Inr (bs', us)" using assms(1) by (simp add: write_object_records_def)
  note spec = write_records_spec [OF w, simplified]
  show "\<exists>P. bs' = bs @ P \<and> length P = payload_sum us + 48 * length us" using spec by blast
  show l: "list_all2 (object_stored bs') ?s us" using spec by blast
  show rec: "records_ok sha bs' us" using spec by (auto simp: records_ok_def)
  show "\<forall>u \<in> set us. length bs \<le> fst (record_range u)" using spec by blast
  have "map le_object_id us = map oi_object_id ?s" using l by (auto simp: list_all2_conv_all_nth object_stored_def intro!: nth_equalityI)
  then have "sorted_wrt (<) (map le_object_id us)" using write_records_strict [OF w] by simp
  then show "entries_ok us" using rec record_at_wf [OF _ assms(2)] by (auto simp: entries_ok_def records_ok_def)
qed

section \<open>Commits\<close>

text \<open>Limits that a file of \<open>n\<close> bytes with \<open>count\<close> objects of \<open>payload\<close> bytes in all and with \<open>k\<close> roots stays within.
  Eight levels of pages are enough for every file.\<close>

definition limits_cover :: "validation_limits \<Rightarrow> nat \<Rightarrow> nat \<Rightarrow> nat \<Rightarrow> nat \<Rightarrow> bool" where
  "limits_cover lim n payload cnt k \<longleftrightarrow> n \<le> unat (vl_max_file_bytes lim) \<and> n \<le> unat (vl_max_commit_bytes lim) \<and>
     160 + 8 * k \<le> unat (vl_max_snapshot_bytes lim) \<and> k \<le> vl_max_roots lim \<and> n div PAGE_SIZE \<le> vl_max_pages lim \<and>
     8 \<le> vl_max_page_depth lim \<and> cnt \<le> vl_max_objects lim \<and> payload \<le> unat (vl_max_payload_bytes lim) \<and>
     2 * n + payload + 48 * cnt \<le> unat (vl_max_hashed_bytes lim)"

text \<open>A commit is the first one, or its parent is the commit whose footer ends where the new commit starts.\<close>

definition commit_parent :: "bytes \<Rightarrow> u64 \<Rightarrow> bytes \<Rightarrow> u64 \<Rightarrow> u64 \<Rightarrow> bool" where
  "commit_parent bs sequence digest previous start \<longleftrightarrow>
     previous = ABSENT_OFFSET \<and> sequence = 0 \<and> start = 0 \<and> digest = zeros 32 \<or>
     previous \<noteq> ABSENT_OFFSET \<and> unat start = unat previous + X2_FOOTER_LEN \<and> unat start \<le> length bs \<and>
     (\<exists>f. footer_parse (slice bs (unat previous) (unat start)) = Inr f \<and> xf_snapshot_digest f = digest \<and> checked_add (xf_sequence f) 1 = Some sequence)"

definition commit_snapshot :: "u64 \<Rightarrow> bytes \<Rightarrow> u64 \<Rightarrow> page_locator \<Rightarrow> u64 list \<Rightarrow> x2_snapshot" where
  "commit_snapshot sequence digest previous c rts = \<lparr>xs_sequence = sequence, xs_parent_snapshot_digest = digest,
     xs_previous_footer_offset = previous, xs_directory_root_offset = pl_offset c, xs_directory_root_len = 16384,
     xs_directory_root_level = pl_level c, xs_directory_root_digest = pl_digest c, xs_roots = rts,
     xs_required_capabilities = [], xs_optional_capabilities = []\<rparr>"

lemma finish_commit_shape:
  assumes "finish_commit sha bs es rts sequence digest previous start rc = Inr fil"
  obtains bs1 c sb f where "write_directory sha bs es sequence = Inr (bs1, c)"
    "snapshot_encode (commit_snapshot sequence digest previous c rts) = Inr sb" "length (bs1 @ sb) < 2 ^ 64" "unat start \<le> length (bs1 @ sb)"
    "xf_commit_start f = start" "unat (xf_commit_len f) = length (bs1 @ sb) - unat start" "unat (xf_snapshot_offset f) = length bs1"
    "unat (xf_snapshot_len f) = length sb" "xf_sequence f = sequence" "xf_previous_footer_offset f = previous" "xf_record_count f = rc"
    "xf_snapshot_digest f = digest_bytes sha SNAPSHOT_DOMAIN sb" "xf_commit_digest f = digest_commit sha (slice (bs1 @ sb) (unat start) (length (bs1 @ sb))) f"
    "fil = bs1 @ sb @ footer_encode f"
proof -
  from assms obtain bs1 c sb len where w: "write_directory sha bs es sequence = Inr (bs1, c)"
    and sb: "snapshot_encode (commit_snapshot sequence digest previous c rts) = Inr sb"
    and lt: "length bs1 < 2 ^ 64" "length (bs1 @ sb) < 2 ^ 64" "length sb < 2 ^ 64" and len: "checked_sub (of_nat (length (bs1 @ sb))) start = Some len"
    and fil: "fil = (let f = \<lparr>xf_commit_start = start, xf_commit_len = len, xf_snapshot_offset = of_nat (length bs1),
         xf_snapshot_len = of_nat (length sb), xf_sequence = sequence, xf_previous_footer_offset = previous,
         xf_record_count = rc, xf_snapshot_digest = digest_bytes sha SNAPSHOT_DOMAIN sb, xf_commit_digest = zeros 32\<rparr> in
         (bs1 @ sb) @ footer_encode (f\<lparr>xf_commit_digest := digest_commit sha (slice (bs1 @ sb) (unat start) (unat (of_nat (length (bs1 @ sb)) :: u64))) f\<rparr>))"
    by (auto simp: finish_commit_def result_simps to_u64_Ok to_usize_def usize_try_from_def commit_snapshot_def Let_def)
  note u = unat_of_nat_64 [OF lt(1)] unat_of_nat_64 [OF lt(2)] unat_of_nat_64 [OF lt(3)]
  have l: "unat start \<le> length (bs1 @ sb)" "unat len = length (bs1 @ sb) - unat start"
    using len u(2) by (auto simp: checked_sub_def unat_sub word_le_nat_alt split: if_splits)
  show thesis
    by (rule that [OF w sb lt(2) l(1), where f = "\<lparr>xf_commit_start = start, xf_commit_len = len, xf_snapshot_offset = of_nat (length bs1),
         xf_snapshot_len = of_nat (length sb), xf_sequence = sequence, xf_previous_footer_offset = previous,
         xf_record_count = rc, xf_snapshot_digest = digest_bytes sha SNAPSHOT_DOMAIN sb,
         xf_commit_digest = digest_commit sha (slice (bs1 @ sb) (unat start) (length (bs1 @ sb))) \<lparr>xf_commit_start = start, xf_commit_len = len, xf_snapshot_offset = of_nat (length bs1),
         xf_snapshot_len = of_nat (length sb), xf_sequence = sequence, xf_previous_footer_offset = previous,
         xf_record_count = rc, xf_snapshot_digest = digest_bytes sha SNAPSHOT_DOMAIN sb, xf_commit_digest = zeros 32\<rparr>\<rparr>"])
      (use u l in \<open>simp_all add: fil digest_commit_def footer_semantics_def Let_def del: unat_of_nat_64\<close>)
qed

text \<open>The directory of a snapshot whose root is located.\<close>

lemma validate_directory_Ok:
  assumes "located sha bs (xs_sequence s) lim c t" and "xs_directory_root_offset s = pl_offset c" and "xs_directory_root_digest s = pl_digest c"
    and "xs_directory_root_level s = pl_level c" and "1 + unat (pl_level c) \<le> vl_max_page_depth lim" and "distinct (tree_pages t)"
    and "length (tree_pages t) \<le> vl_max_pages lim" and "length (tree_entries t) \<le> vl_max_objects lim"
    and "unat h + PAGE_SIZE * length (tree_pages t) \<le> unat (vl_max_hashed_bytes lim)" and "entries_ok (tree_entries t)"
  shows "\<exists>h'. validate_directory sha bs s lim h = Inr (\<lparr>dv_entries = tree_entries t, dv_page_ranges = map page_span (tree_pages t),
    dv_pages = length (tree_pages t)\<rparr>, h') \<and> unat h' = unat h + PAGE_SIZE * length (tree_pages t)"
proof -
  let ?x = "\<lparr>ep_offset = xs_directory_root_offset s, ep_digest = xs_directory_root_digest s,
           ep_level = xs_directory_root_level s, ep_min_key = 0, ep_max_key = - 1, ep_depth = 1\<rparr>"
  have "stored sha bs (xs_sequence s) lim ?x t" using assms(1-5) by (simp add: located_def refers_def)
  moreover have "walk_fits lim {} [] h [t]" using assms(6-9) by (simp add: walk_fits_def)
  ultimately obtain res where res: "directory_loop sha bs s lim [?x] {} [] [] h = Inr res" "walk_result {} [] [] h [t] res"
    using directory_loop_complete [of sha bs s lim "[?x]" "[t]" "{}" "[]" h "[]"] by auto
  obtain h' where "res = (set (tree_pages t), tree_entries t, map page_span (tree_pages t), h')" and h': "unat h' = unat h + PAGE_SIZE * length (tree_pages t)"
    using res(2) by (auto simp: walk_result_def)
  note loop = res(1) [unfolded this(1)]
  have strict: "sorted_wrt (<) (map le_object_id (tree_entries t))" using assms(10) by (simp add: entries_ok_def)
  then have "sorted (map le_object_id (tree_entries t))" by (simp add: strict_sorted_imp_sorted)
  then have sort: "sort_key le_object_id (tree_entries t) = tree_entries t" by (rule sort_key_id_if_sorted)
  have find: "List.find (\<lambda>(a, b). le_object_id b \<le> le_object_id a) (windows2 (tree_entries t)) = None"
    using windows2_not_ge [of "tree_entries t" le_object_id] strict by (fastforce simp: find_None_iff)
  show ?thesis using loop sort find h' distinct_card [OF assms(6)] by (simp add: validate_directory_def Let_def)
qed

lemma validate_parent_link_Ok:
  assumes "commit_parent bs sequence digest previous start" and "xf_commit_start f = start" and "xf_sequence f = sequence"
    and "xf_previous_footer_offset f = previous" and "xs_parent_snapshot_digest s = digest" and "length bs \<le> unat offset" and "unat offset \<le> length (bs @ cs)"
  shows "validate_parent_link (bs @ cs) offset f s = Inr ()"
proof (cases "previous = ABSENT_OFFSET")
  case True
  then show ?thesis using assms by (simp add: validate_parent_link_def commit_parent_def)
next
  case False
  then obtain g where g: "unat start = unat previous + 160" "unat start \<le> length bs" "footer_parse (slice bs (unat previous) (unat start)) = Inr g"
    "xf_snapshot_digest g = digest" "checked_add (xf_sequence g) 1 = Some sequence" using assms(1) by (auto simp: commit_parent_def)
  have lt: "unat start < 2 ^ 64" by simp
  have r: "x2_checked_range previous 160 (length (bs @ cs)) = Inr (unat previous, unat start)" using g(1,2) lt by (simp add: x2_checked_range_Ok)
  have "checked_add previous 160 = Some start" using g(1) by (simp add: checked_add_Some_iff)
  moreover have "\<not> offset \<le> previous" using g(1,2) assms(6) unfolding word_le_nat_alt by linarith
  moreover have "slice (bs @ cs) (unat previous) (unat start) = slice bs (unat previous) (unat start)" using g(2) by (rule slice_append)
  moreover have "\<not> unat offset < unat start" using g(2) assms(6) by simp
  ultimately show ?thesis unfolding validate_parent_link_def using False assms(2-5) r g(3-5) by (simp add: to_usize_def usize_try_from_def)
qed

lemma record_sum_payload: "\<forall>e \<in> set es. record_at sha bs e \<Longrightarrow> record_sum es = payload_sum es + 48 * length es"
  by (induction es) (auto simp: record_at_def)

lemma finish_commit_valid:
  assumes run: "finish_commit sha bs es rts sequence digest previous start rc = Inr fil" and sha: "\<And>x. length (sha x) = 32" and es: "entries_ok es"
    and rec: "records_ok sha bs es" and parent: "commit_parent bs sequence digest previous start" "length digest = 32"
    and hdr: "file_header_parse (take FILE_HEADER_LEN bs) = Inr header" "FILE_HEADER_LEN \<le> length bs"
    and rts: "rts \<noteq> []" "set rts \<subseteq> set (map le_object_id es)"
    and lim: "limits_cover lim (length fil) (payload_sum es) (length es) (length rts)"
  shows "\<exists>v P. fil = bs @ P \<and> validate_strict sha fil lim = Inr v \<and> vx_header v = header \<and> vx_objects v = es \<and>
    xs_sequence (vx_snapshot v) = sequence \<and> xs_roots (vx_snapshot v) = rts \<and> xs_parent_snapshot_digest (vx_snapshot v) = digest \<and>
    xf_previous_footer_offset (vx_footer v) = previous \<and> xf_commit_start (vx_footer v) = start \<and> xf_record_count (vx_footer v) = rc"
proof -
  from finish_commit_shape [OF run] obtain bs1 c sb f where w: "write_directory sha bs es sequence = Inr (bs1, c)"
    and enc: "snapshot_encode (commit_snapshot sequence digest previous c rts) = Inr sb" and lt: "length (bs1 @ sb) < 2 ^ 64" and st: "unat start \<le> length (bs1 @ sb)"
    and f: "xf_commit_start f = start" "unat (xf_commit_len f) = length (bs1 @ sb) - unat start" "unat (xf_snapshot_offset f) = length bs1"
    "unat (xf_snapshot_len f) = length sb" "xf_sequence f = sequence" "xf_previous_footer_offset f = previous" "xf_record_count f = rc"
    and dig: "xf_snapshot_digest f = digest_bytes sha SNAPSHOT_DOMAIN sb" "xf_commit_digest f = digest_commit sha (slice (bs1 @ sb) (unat start) (length (bs1 @ sb))) f"
    and fil: "fil = bs1 @ sb @ footer_encode f" by blast
  let ?s = "commit_snapshot sequence digest previous c rts"
  have "length bs1 < 2 ^ 64" using lt by simp
  note dir = write_directory_spec(1) [OF w this sha es, of lim] write_directory_spec(2) [OF w this sha es]
  obtain t where t: "located sha bs1 sequence lim c t" "packed (length bs) bs1 (tree_pages t)" "tree_entries t = es" "unat (pl_level c) \<le> 7" using dir(1) by blast
  obtain P where P: "bs1 = bs @ P" using dir(2) by blast
  have fw: "footer_wf f" by (simp add: footer_wf_def dig digest_bytes_def digest_commit_def sha)
  have fl: "length (footer_encode f) = 160" using length_footer_encode [OF fw] .
  have len: "length fil = length (bs1 @ sb) + 160" using fil fl by simp
  define offset :: u64 where "offset = of_nat (length (bs1 @ sb))"
  have uo: "unat offset = length (bs1 @ sb)" unfolding offset_def by (rule unat_of_nat_64 [OF lt])
  have swf: "snapshot_wf ?s" "snapshot_fits lim ?s" using parent(2) t(1) lim
    by (simp_all add: snapshot_wf_def snapshot_fits_def commit_snapshot_def located_def limits_cover_def)
  have sp: "snapshot_parse sb lim = Inr ?s" by (rule snapshot_round_trip [OF enc swf])
  have start: "unat start \<le> length bs" using parent(1) by (auto simp: commit_parent_def)
  have lens: "length bs1 = length bs + PAGE_SIZE * length (tree_pages t)" "length bs1 + length sb + 160 = length fil" using t(2) len by (simp_all add: packed_def)
  have n: "length fil < 2 ^ 64" using lim le_unat_64 by (auto simp: limits_cover_def)
  have big: "\<not> vl_max_file_bytes lim < of_nat (length fil)" using lim unat_of_nat_64 [OF n] by (simp add: limits_cover_def word_less_nat_alt not_less)
  have tk: "take 64 fil = take 64 bs" using hdr(2) by (simp add: fil P)
  have ft: "drop (length (bs1 @ sb)) fil = footer_encode f" "length fil - 160 = length (bs1 @ sb)" using len by (simp_all add: fil)
  have clen: "checked_add start (xf_commit_len f) = Some offset" using uo f(2) st by (simp add: checked_add_Some_iff)
  have commit: "\<not> vl_max_commit_bytes lim < xf_commit_len f" "\<not> vl_max_hashed_bytes lim < xf_commit_len f" "\<not> xf_snapshot_offset f < start"
    using lim f(2,3) lens start by (auto simp: limits_cover_def word_less_nat_alt not_less)
  have snap: "x2_checked_range (xf_snapshot_offset f) (xf_snapshot_len f) (length fil) = Inr (length bs1, length (bs1 @ sb))"
    "x2_checked_range start (xf_commit_len f) (length fil) = Inr (unat start, length (bs1 @ sb))"
    using f(2-4) lens lt st by (simp_all add: x2_checked_range_Ok)
  have sl: "slice fil (length bs1) (length (bs1 @ sb)) = sb" "slice fil (unat start) (length (bs1 @ sb)) = slice (bs1 @ sb) (unat start) (length (bs1 @ sb))"
    by (simp add: fil slice_def) (use slice_append [of "length (bs1 @ sb)" "bs1 @ sb" "footer_encode f" "unat start"] in \<open>simp add: fil\<close>)
  have link: "validate_parent_link fil offset f ?s = Inr ()"
    unfolding fil P append_assoc by (rule validate_parent_link_Ok [OF parent(1) f(1,5,6)]) (simp_all add: commit_snapshot_def uo P)
  have "located sha fil sequence lim c t" using located_append [OF t(1)] by (simp add: fil)
  then have "\<exists>h'. validate_directory sha fil ?s lim (xf_commit_len f) = Inr (\<lparr>dv_entries = tree_entries t, dv_page_ranges = map page_span (tree_pages t),
      dv_pages = length (tree_pages t)\<rparr>, h') \<and> unat h' = unat (xf_commit_len f) + PAGE_SIZE * length (tree_pages t)"
    using lim t lens f(2) es by (intro validate_directory_Ok) (auto simp: commit_snapshot_def limits_cover_def packed_def)
  then obtain h1 where dirs: "validate_directory sha fil ?s lim (xf_commit_len f) = Inr (\<lparr>dv_entries = es, dv_page_ranges = map page_span (tree_pages t),
      dv_pages = length (tree_pages t)\<rparr>, h1)" and h1: "unat h1 = unat (xf_commit_len f) + PAGE_SIZE * length (tree_pages t)" using t(3) by auto
  have "\<exists>h2. validate_objects sha fil es (map page_span (tree_pages t)) (length bs1, length (bs1 @ sb)) (length (bs1 @ sb), length fil) lim h1 = Inr h2"
  proof -
    define h2 :: u64 where "h2 = h1 + of_nat (record_sum es)"
    have at: "\<forall>e \<in> set es. record_at sha fil e" using rec record_at_append [of sha bs _ "P @ sb @ footer_encode f"] by (simp add: records_ok_def fil P)
    have clear: "record_clear (map page_span (tree_pages t)) (length bs1, length (bs1 @ sb)) (length (bs1 @ sb), length fil) e" if "e \<in> set es" for e
    proof -
      have "snd (record_range e) \<le> length bs" using rec that by (simp add: records_ok_def record_at_def)
      moreover have "length bs \<le> unat p" if "p \<in> set (tree_pages t)" for p using t(2) that by (simp add: packed_def)
      ultimately show ?thesis using lens n
        by (cases "record_range e") (fastforce simp: record_clear_def overlaps_any_def page_span_def)
    qed
    have "unat (xf_commit_len f) \<le> length fil" "PAGE_SIZE * length (tree_pages t) \<le> length fil" using f(2) lens by simp_all
    moreover have "2 * length fil + payload_sum es + 48 * length es \<le> unat (vl_max_hashed_bytes lim)" using lim by (simp add: limits_cover_def)
    ultimately have sum: "unat h1 + record_sum es \<le> unat (vl_max_hashed_bytes lim)"
      using h1 record_sum_payload [OF at] by linarith
    then have "unat h1 + record_sum es < 2 ^ 64" by (rule le_unat_64)
    then have "unat h2 = unat h1 + record_sum es" unfolding h2_def
      by (simp add: unat_word_ariths unat_of_nat_64)
    moreover have "h1 \<le> vl_max_hashed_bytes lim" using sum by (simp add: word_le_nat_alt)
    moreover have "records_ok sha fil es" using at rec by (simp add: records_ok_def)
    ultimately have "validate_objects sha fil es (map page_span (tree_pages t)) (length bs1, length (bs1 @ sb)) (length (bs1 @ sb), length fil) lim h1 = Inr h2"
      using clear sum lim by (subst validate_objects_Ok) (auto simp: limits_cover_def)
    then show ?thesis by blast
  qed
  then obtain h2 where objs: "validate_objects sha fil es (map page_span (tree_pages t)) (length bs1, length (bs1 @ sb)) (length (bs1 @ sb), length fil) lim h1 = Inr h2"
    by blast
  have roots: "xs_roots ?s = rts" "\<not> (\<exists>root \<in> set rts. root \<notin> set (map le_object_id es))" using rts(2) by (auto simp: commit_snapshot_def)
  define v :: verified_exp0002 where "v = \<lparr>vx_header = header, vx_footer_offset = offset, vx_footer = f, vx_snapshot = ?s,
       vx_objects = es, vx_pages_verified = length (tree_pages t), vx_bytes_hashed = h2\<rparr>"
  define m where "m = length (bs1 @ sb)"
  have conv: "to_u64 (length fil) = Inr (of_nat (length fil))" "to_u64 m = Inr offset" "\<not> length fil < FILE_HEADER_LEN + X2_FOOTER_LEN"
    using n lt len hdr(2) P by (simp_all add: to_u64_Ok offset_def m_def)
  have sq: "xs_sequence ?s = sequence" "xs_previous_footer_offset ?s = previous" by (simp_all add: commit_snapshot_def)
  have "validate_strict sha fil lim = Inr v"
    unfolding validate_strict_def Let_def
    using conv big tk hdr(1) ft [folded m_def] footer_round_trip [OF fw] clen commit snap [folded m_def] sl [folded m_def] dig [folded m_def] sp link dirs
      objs [folded m_def] roots rts(1) f(1,5,6) sq by (simp add: v_def del: of_nat_add)
  then show ?thesis using f by (intro exI [of _ v] exI [of _ "P @ sb @ footer_encode f"]) (simp add: fil P commit_snapshot_def v_def)
qed

end
