(* ===== verification/Ucof_Exp2_Total.thy ===== *)
theory Ucof_Exp2_Total
  imports Ucof_Exp2_Commit
begin

text \<open>
  The builders of EXP-0002 return a file for every well-formed input that fits, with a bound on its length.
\<close>

section \<open>Pages\<close>

lemma encode_page_header_total: "n < 2 ^ 16 \<Longrightarrow> k < 2 ^ 16 \<Longrightarrow> \<exists>p. encode_page_header page kind lv n k a b s = Inr p"
  by (simp add: encode_page_header_def u16_from_usize_def ok_or_def Let_def)

lemma encode_leaf_page_total:
  assumes "es \<noteq> []" and "length es \<le> LEAF_CAPACITY" and "entries_ok es"
  shows "\<exists>page. encode_leaf_page es sequence = Inr page \<and> length page = PAGE_SIZE"
proof -
  have "\<not> (\<exists>(a, b) \<in> set (windows2 es). le_object_id b \<le> le_object_id a)"
    using assms(3) windows2_not_ge [of es le_object_id] by (simp add: entries_ok_def)
  moreover obtain p where "encode_page_header (zeros PAGE_SIZE) 1 0 (length es) LEAF_ENTRY_LEN (le_object_id (hd es)) (le_object_id (last es)) sequence = Inr p"
    using encode_page_header_total assms(2) by fastforce
  ultimately obtain page where "encode_leaf_page es sequence = Inr page" using assms(1,2) by (simp add: encode_leaf_page_def)
  then show ?thesis using leaf_page_round_trip(1) assms(3) by (auto simp: entries_ok_def)
qed

lemma write_leaves_total:
  assumes "\<forall>es \<in> set css. es \<noteq> [] \<and> length es \<le> LEAF_CAPACITY \<and> entries_ok es" and "length bs + PAGE_SIZE * length css < 2 ^ 64"
  shows "\<exists>bs' L'. write_leaves sha sequence css bs L = Inr (bs', L') \<and> length bs' = length bs + PAGE_SIZE * length css"
  using assms
proof (induction css arbitrary: bs L)
  case (Cons es css)
  obtain page where page: "encode_leaf_page es sequence = Inr page" "length page = PAGE_SIZE" using encode_leaf_page_total [of es] Cons.prems(1) by auto
  have n: "to_u64 (length bs) = Inr (of_nat (length bs))" using Cons.prems(2) by (simp add: to_u64_Ok)
  have "\<exists>bs' L'. write_leaves sha sequence css (bs @ page) (L @ [c]) = Inr (bs', L') \<and> length bs' = length (bs @ page) + PAGE_SIZE * length css" for c
    by (rule Cons.IH) (use Cons.prems page(2) in auto)
  then show ?case using page n by (simp add: Let_def add.assoc)
qed simp

text \<open>The key ranges of located trees follow each other like their entries.\<close>

lemma located_chain:
  assumes "\<forall>(c, t) \<in> set S. located sha bs sequence lim c t" and "entries_ok (forest_entries (map snd S))"
  shows "\<forall>(a, b) \<in> set (windows2 (map fst S)). pl_max_key a < pl_min_key b"
  using assms
proof (induction S rule: windows2.induct)
  case (1 x y S)
  obtain c t d u where x: "x = (c, t)" "y = (d, u)" by fastforce
  have "tree_entries t \<noteq> []" "tree_entries u \<noteq> []" "pl_max_key c = le_object_id (last (tree_entries t))" "pl_min_key d = le_object_id (hd (tree_entries u))"
    using "1.prems"(1) by (auto simp: x located_def)
  moreover have "\<forall>a \<in> set (tree_entries t). \<forall>b \<in> set (tree_entries u). le_object_id a < le_object_id b"
    using "1.prems"(2) by (auto simp: x entries_ok_def sorted_wrt_append)
  ultimately have "pl_max_key c < pl_min_key d" by simp
  moreover have "entries_ok (forest_entries (map snd (y # S)))" 
    using "1.prems"(2) entries_ok_append [of "tree_entries t" "forest_entries (map snd (y # S))"] by (simp add: x)
  ultimately show ?case using "1.IH" "1.prems"(1) by (simp add: x)
qed simp_all

lemma windows2_in: "(a, b) \<in> set (windows2 xs) \<Longrightarrow> a \<in> set xs \<and> b \<in> set xs"
  by (induction xs rule: windows2.induct) auto

lemma located_locators_wf:
  assumes "\<forall>(c, t) \<in> set S. located sha bs sequence lim c t" and "entries_ok (forest_entries (map snd S))"
  shows "\<forall>c \<in> set (map fst S). locator_wf c"
proof
  fix c assume "c \<in> set (map fst S)"
  then obtain t where t: "(c, t) \<in> set S" by auto
  then have "tree_entries t \<in> set (map tree_entries (map snd S))" by force
  then have "entries_ok (tree_entries t)" by (rule entries_ok_concat [OF assms(2)])
  then show "locator_wf c" using assms(1) t located_wf by blast
qed

lemma encode_internal_page_total:
  assumes "S \<noteq> []" and "length S \<le> INTERNAL_CAPACITY" and "\<forall>(c, t) \<in> set S. located sha bs sequence lim c t" and "entries_ok (forest_entries (map snd S))"
    and "\<forall>(c, t) \<in> set S. pl_level c = lev" and "unat lev < 255"
  shows "\<exists>page. encode_internal_page (map fst S) sequence (lev + 1) = Inr page \<and> length page = PAGE_SIZE" "checked_add lev 1 = Some (lev + 1)"
proof -
  have add: "unat (lev + 1) = unat lev + 1" using assms(6) by (simp add: unat_word_ariths)
  then show c1: "checked_add lev 1 = Some (lev + 1)" by (simp add: checked_add_Some_iff)
  have lev: "0 < lev + 1" "lev + 1 \<le> 255" using add assms(6) by (simp_all add: word_less_nat_alt word_le_nat_alt)
  have lv: "pl_level a = pl_level b" if "(a, b) \<in> set (windows2 (map fst S))" for a b
  proof -
    have "a \<in> set (map fst S)" "b \<in> set (map fst S)" using windows2_in [OF that] by simp_all
    moreover have "\<forall>c \<in> set (map fst S). pl_level c = lev" using assms(5) by auto
    ultimately show ?thesis by metis
  qed
  have chain: "\<not> (\<exists>(a, b) \<in> set (windows2 (map fst S)). pl_min_key b \<le> pl_max_key a \<or> pl_level a \<noteq> pl_level b)"
    using located_chain [OF assms(3,4)] lv by (fastforce simp: not_le)
  obtain p where "encode_page_header (zeros PAGE_SIZE) 2 (ucast (lev + 1)) (length S) INTERNAL_ENTRY_LEN (pl_min_key (hd (map fst S))) (pl_max_key (last (map fst S))) sequence = Inr p"
    using encode_page_header_total assms(2) by fastforce
  moreover have "u8_from_u16 (lev + 1) = Some (ucast (lev + 1))" using u16_level [OF lev] by (simp add: u8_from_u16_def)
  ultimately obtain page where page: "encode_internal_page (map fst S) sequence (lev + 1) = Inr page"
    using assms(1,2) chain lev by (simp add: encode_internal_page_def not_less word_gt_0)
  have "\<forall>c \<in> set (map fst S). locator_wf c" "\<forall>c \<in> set (map fst S). checked_add (pl_level c) 1 = Some (lev + 1)"
    using located_locators_wf [OF assms(3,4)] assms(5) c1 by auto
  then show "\<exists>page. encode_internal_page (map fst S) sequence (lev + 1) = Inr page \<and> length page = PAGE_SIZE"
    using page internal_page_round_trip(1) [OF page] by blast
qed

lemma write_internals_total:
  assumes "\<forall>S \<in> set Ss. S \<noteq> [] \<and> length S \<le> INTERNAL_CAPACITY" and "at_level sha bs0 sequence lim lev (concat Ss)"
    and "entries_ok (forest_entries (map snd (concat Ss)))" and "unat lev < 255" and "length bs + PAGE_SIZE * length Ss < 2 ^ 64"
  shows "\<exists>bs' L'. write_internals sha sequence (map (map fst) Ss) bs L = Inr (bs', L') \<and> length bs' = length bs + PAGE_SIZE * length Ss"
  using assms
proof (induction Ss arbitrary: bs L)
  case (Cons S Ss)
  have S: "\<forall>(c, t) \<in> set S. located sha bs0 sequence lim c t" "\<forall>(c, t) \<in> set S. pl_level c = lev" "entries_ok (forest_entries (map snd S))"
    using Cons.prems(2,3) by (auto simp: at_level_def dest: entries_ok_append)
  have ok: "entries_ok (forest_entries (map snd (concat Ss)))" using Cons.prems(3) by (auto dest: entries_ok_append)
  obtain page where page: "encode_internal_page (map fst S) sequence (lev + 1) = Inr page" "length page = PAGE_SIZE" "checked_add lev 1 = Some (lev + 1)"
    using encode_internal_page_total [OF _ _ S(1,3,2) Cons.prems(4)] Cons.prems(1) by auto
  have n: "to_u64 (length bs) = Inr (of_nat (length bs))" using Cons.prems(5) by (simp add: to_u64_Ok)
  have hdl: "pl_level (hd (map fst S)) = lev" using S(2) Cons.prems(1) by (cases S) auto
  have "\<exists>bs' L'. write_internals sha sequence (map (map fst) Ss) (bs @ page) (L @ [c]) = Inr (bs', L') \<and> length bs' = length (bs @ page) + PAGE_SIZE * length Ss" for c
    by (rule Cons.IH) (use Cons.prems page(2) ok in auto)
  then show ?case using page n hdl by (simp add: Let_def add.assoc)
qed simp

lemma chunk_lengths: "0 < n \<Longrightarrow> c \<in> set (chunks n xs) \<Longrightarrow> length c \<le> n"
proof (induction xs rule: length_induct)
  case (1 xs)
  then show ?case by (cases "xs = []") (auto simp: chunks_Cons dest: spec [of _ "drop n xs"])
qed

lemma write_levels_total:
  assumes "\<And>x. length (sha x) = 32" and "T \<noteq> []" and "at_level sha bs sequence lim lev T" and "entries_ok (forest_entries (map snd T))"
    and "packed n bs (forest_pages (map snd T))" and "length T \<le> 255 ^ k" and "unat lev + k \<le> 255" and "length bs + PAGE_SIZE * length T < 2 ^ 64"
  shows "\<exists>bs' L'. write_levels sha sequence bs (map fst T) = Inr (bs', L') \<and> length bs' + PAGE_SIZE \<le> length bs + PAGE_SIZE * length T"
  using assms(2-8)
proof (induction "length T" arbitrary: bs T lev k rule: less_induct)
  case less
  show ?case
  proof (cases "length T \<le> 1")
    case True
    then have "length T = 1" using less.prems(1) by (cases T) auto
    then show ?thesis by (simp add: write_levels.simps)
  next
    case False
    let ?Ss = "chunks 255 T"
    have cat: "concat ?Ss = T" by (simp add: concat_chunks)
    have ne: "\<forall>S \<in> set ?Ss. S \<noteq> []" "\<forall>S \<in> set ?Ss. S \<noteq> [] \<and> length S \<le> INTERNAL_CAPACITY" "?Ss \<noteq> []"
      using chunks_nonempty [of 255 _ T] chunk_lengths [of 255 _ T] cat less.prems(1) by auto
    obtain j where k: "k = Suc j" using less.prems(5) False by (cases k) auto
    have lev: "unat lev < 255" using less.prems(6) by (simp add: k)
    have half: "2 * length ?Ss \<le> length T" using length_chunks [of 255 T] False by simp
    have room: "length bs + PAGE_SIZE * length ?Ss < 2 ^ 64" using half less.prems(7) by simp
    obtain bs1 L1 where w: "write_internals sha sequence (map (map fst) ?Ss) bs (map fst ([] :: (page_locator \<times> page_tree) list)) = Inr (bs1, L1)"
      and len: "length bs1 = length bs + PAGE_SIZE * length ?Ss"
      using write_internals_total [OF ne(2) _ _ lev room, of sha bs sequence lim] less.prems(2,3) cat by fastforce
    have size: "length bs1 < 2 ^ 64" using room len by simp
    obtain U where U: "L1 = map fst U" "at_level sha bs1 sequence lim (lev + 1) U" "packed n bs1 (forest_pages (map snd U))"
        "map (\<lambda>p. tree_entries (snd p)) U = map (\<lambda>S. forest_entries (map snd S)) ?Ss" "unat (lev + 1) = unat lev + 1"
      using write_internals_spec [OF w size assms(1) ne(1), of lim lev n] less.prems(2-4) ne(3) cat by auto
    have es: "forest_entries (map snd U) = forest_entries (map snd T)"
      using U(4) arg_cong [OF cat, of "\<lambda>T. forest_entries (map snd T)"] unfolding forest_entries_concat by (simp add: comp_def)
    have lenU: "length U = length ?Ss" using arg_cong [OF U(4), of length] by simp
    have "length T \<le> 255 ^ j * 255" using less.prems(5) by (simp add: k mult.commute)
    then have small: "length U \<le> 255 ^ j" using lenU length_chunks [of 255 T] ceil_le [of 255 "length T" "255 ^ j"] by linarith
    have shorter: "length U < length T" using lenU half False by simp
    have "U \<noteq> []" using lenU ne(3) by auto
    moreover have "length bs1 + PAGE_SIZE * length U < 2 ^ 64" using len lenU half less.prems(7) by simp
    ultimately obtain bs2 L2 where r: "write_levels sha sequence bs1 (map fst U) = Inr (bs2, L2)" "length bs2 + PAGE_SIZE \<le> length bs1 + PAGE_SIZE * length U"
      using less.hyps [OF shorter, of bs1 "lev + 1" j] U es small less.prems(3,6) by (auto simp: k)
    have "write_levels sha sequence bs (map fst T) = Inr (bs2, L2)"
      using w r(1) U(1) False by (subst write_levels.simps) (simp add: chunks_map)
    moreover have "length bs2 + PAGE_SIZE \<le> length bs + PAGE_SIZE * length T" using r(2) len lenU half by simp
    ultimately show ?thesis by blast
  qed
qed

lemma write_directory_total:
  assumes "\<And>x. length (sha x) = 32" and "es \<noteq> []" and "entries_ok es" and "length bs + 2 * PAGE_SIZE * length es < 2 ^ 64"
  shows "\<exists>bs' c. write_directory sha bs es sequence = Inr (bs', c) \<and> length bs' \<le> length bs + 2 * PAGE_SIZE * length es"
proof -
  let ?css = "chunks 185 es"
  have cat: "concat ?css = es" by (simp add: concat_chunks)
  have few: "length ?css \<le> length es" using length_chunks [of 185 es] ceil_le [of 185 "length es" "length es"] by simp
  have css: "\<forall>es \<in> set ?css. es \<noteq> [] \<and> length es \<le> LEAF_CAPACITY \<and> entries_ok es"
    using chunks_nonempty [of 185 _ es] chunk_lengths [of 185 _ es] entries_ok_concat [of ?css] assms(3) cat by auto
  have room: "length bs + PAGE_SIZE * length ?css < 2 ^ 64" using few assms(4) by simp
  obtain bs1 L1 where w: "write_leaves sha sequence ?css bs (map fst ([] :: (page_locator \<times> page_tree) list)) = Inr (bs1, L1)"
    and len: "length bs1 = length bs + PAGE_SIZE * length ?css" using write_leaves_total [OF css room] by fastforce
  have size: "length bs1 < 2 ^ 64" using len room by simp
  have wf: "\<forall>es \<in> set ?css. \<forall>e \<in> set es. leaf_entry_wf e" using css by (auto simp: entries_ok_def)
  obtain U where U: "L1 = map fst U" "at_level sha bs1 sequence validation_limits_default 0 U" "packed (length bs) bs1 (forest_pages (map snd U))" "map (\<lambda>p. tree_entries (snd p)) U = ?css"
    using write_leaves_spec [OF w size assms(1) wf, of validation_limits_default "length bs"] packed_Nil by auto
  have es: "forest_entries (map snd U) = es" using U(4) cat by (simp add: comp_def)
  have ne: "U \<noteq> []" using es assms(2) by auto
  have lenU: "length U = length ?css" using arg_cong [OF U(4), of length] by simp
  have room2: "length bs1 + PAGE_SIZE * length U < 2 ^ 64" using len lenU few assms(4) by simp
  then have small: "length U \<le> 255 ^ 7" by simp
  obtain bs2 L2 where r: "write_levels sha sequence bs1 (map fst U) = Inr (bs2, L2)" "length bs2 + PAGE_SIZE \<le> length bs1 + PAGE_SIZE * length U"
    using write_levels_total [OF assms(1) ne U(2) _ U(3) small _ room2] es assms(3) by auto
  have "length bs2 < 2 ^ 64" using r(2) room2 by simp
  then have "L2 \<noteq> []" using write_levels_spec [OF r(1) _ assms(1) ne U(2) _ U(3) small] es assms(3) by auto
  then have "write_directory sha bs es sequence = Inr (bs2, last L2)" using w r(1) U(1) assms(2) by (simp add: write_directory_def)
  moreover have "length bs2 \<le> length bs + 2 * PAGE_SIZE * length es" using r(2) len lenU few by simp
  ultimately show ?thesis by blast
qed

section \<open>Commits\<close>

lemma canonical_values_Ok: "canonical_values vs err = Inr ws \<longleftrightarrow> ws = sort vs \<and> distinct vs \<and> 0 \<notin> set vs"
proof -
  have w: "\<not> (\<exists>(a, b) \<in> set (windows2 ws). a = b) \<longleftrightarrow> distinct ws" if "sorted ws" for ws :: "u64 list"
    using that
  proof (induction ws rule: windows2.induct)
    case (1 x y ws)
    then show ?case by (auto simp: order.antisym)
  qed simp_all
  have z: "\<not> (ws \<noteq> [] \<and> hd ws = 0) \<longleftrightarrow> 0 \<notin> set ws" if "sorted ws" for ws :: "u64 list"
    using that by (cases ws) auto
  show ?thesis using w [of "sort vs"] z [of "sort vs"] by (auto simp: canonical_values_def Let_def)
qed

lemma sorted_unique_Ok: "validate_sorted_unique vs err = Inr () \<longleftrightarrow> sorted_wrt (<) vs \<and> 0 \<notin> set vs"
proof -
  have "\<not> (vs \<noteq> [] \<and> hd vs = 0) \<longleftrightarrow> 0 \<notin> set vs" if "sorted_wrt (<) vs" using that by (cases vs) auto
  then show ?thesis using windows2_not_ge [of vs "\<lambda>x. x"] by (auto simp: validate_sorted_unique_def)
qed

lemma finish_commit_total:
  assumes "\<And>x. length (sha x) = 32" and "es \<noteq> []" and "entries_ok es" and "sorted_wrt (<) rts" and "0 \<notin> set rts" and "length rts < 2 ^ 32"
    and "length digest = 32" and "unat start \<le> length bs" and "length bs + 2 * PAGE_SIZE * length es + 8 * length rts + 320 < 2 ^ 64"
  shows "\<exists>fil. finish_commit sha bs es rts sequence digest previous start rc = Inr fil \<and>
    length fil \<le> length bs + 2 * PAGE_SIZE * length es + 8 * length rts + 320"
proof -
  obtain bs1 c where w: "write_directory sha bs es sequence = Inr (bs1, c)" and len: "length bs1 \<le> length bs + 2 * PAGE_SIZE * length es"
    using write_directory_total [where sha = sha and es = es and bs = bs and sequence = sequence] assms(1-3,9) by auto
  have lt1: "length bs1 < 2 ^ 64" using len assms(9) by simp
  obtain t where t: "located sha bs1 sequence validation_limits_default c t" using write_directory_spec(1) [OF w lt1 assms(1,3)] by blast
  obtain P where P: "bs1 = bs @ P" using write_directory_spec(2) [OF w lt1 assms(1,3)] by blast
  let ?s = "commit_snapshot sequence digest previous c rts"
  have "snapshot_valid ?s" using assms(4-6) by (simp add: snapshot_valid_def commit_snapshot_def sorted_unique_Ok)
  then obtain sb where sb: "snapshot_encode ?s = Inr sb" by (simp add: snapshot_encode_iff)
  have "snapshot_wf ?s" using t assms(7) by (simp add: snapshot_wf_def commit_snapshot_def located_def)
  then have lsb: "length sb = 160 + 8 * length rts" using snapshot_slices(1) [OF sb] by (simp add: snapshot_values_def commit_snapshot_def)
  have lt: "length (bs1 @ sb) < 2 ^ 64" using len lsb assms(9) by simp
  have u: "unat (of_nat (length (bs1 @ sb)) :: u64) = length (bs1 @ sb)" by (rule unat_of_nat_64 [OF lt])
  then have "\<exists>l. checked_sub (of_nat (length (bs1 @ sb))) start = Some l" using assms(8) P
    by (simp add: checked_sub_def word_le_nat_alt)
  then obtain l where l: "checked_sub (of_nat (length (bs1 @ sb))) start = Some l" by blast
  have conv: "to_u64 (length bs1) = Inr (of_nat (length bs1))" "to_u64 (length (bs1 @ sb)) = Inr (of_nat (length (bs1 @ sb)))"
    "to_u64 (length sb) = Inr (of_nat (length sb))" using lt lt1 lsb by (simp_all add: to_u64_Ok)
  obtain fil where fil: "finish_commit sha bs es rts sequence digest previous start rc = Inr fil"
    using w sb l conv by (auto simp: finish_commit_def commit_snapshot_def Let_def to_usize_def usize_try_from_def simp del: of_nat_add length_append)
  from finish_commit_shape [OF this] obtain f where "fil = bs1 @ sb @ footer_encode f" "footer_wf f"
    using w sb by (metis Inr_inject assms(1) digest_bytes_def digest_commit_def footer_wf_def prod.inject)
  then have "length fil = length (bs1 @ sb) + 160" using length_footer_encode by simp
  then show ?thesis using fil len lsb by simp
qed

lemma write_records_total:
  assumes "\<forall>obj \<in> set objs. oi_object_id obj \<noteq> 0 \<and> oi_kind obj \<noteq> 0" and "distinct (map oi_object_id objs)" and "\<And>p. prev = Some p \<Longrightarrow> p \<notin> oi_object_id ` set objs"
    and "length bs + sum_list (map (\<lambda>obj. 48 + length (oi_payload obj)) objs) < 2 ^ 64"
  shows "\<exists>r. write_records sha objs prev bs es = Inr r"
  using assms
proof (induction objs arbitrary: prev bs es)
  case (Cons obj objs)
  have lt: "length bs < 2 ^ 64" "length (oi_payload obj) < 2 ^ 64" "48 + length (oi_payload obj) < 2 ^ 64" using Cons.prems(4) by simp_all
  have u: "unat (of_nat (length (oi_payload obj)) :: u64) = length (oi_payload obj)" by (rule unat_of_nat_64 [OF lt(2)])
  have conv: "to_u64 (length bs) = Inr (of_nat (length bs))" "to_u64 (length (oi_payload obj)) = Inr (of_nat (length (oi_payload obj)))"
    using lt by (simp_all add: to_u64_Ok)
  have add: "\<exists>l. checked_add 48 (of_nat (length (oi_payload obj)) :: u64) = Some l" using u lt(3) by (simp add: checked_add_def del: unat_of_nat_64)
  have IH: "\<exists>r. write_records sha objs (Some (oi_object_id obj)) (bs @ object_header_encode h @ oi_payload obj) es' = Inr r" for h es'
    by (rule Cons.IH) (use Cons.prems in auto)
  show ?case using Cons.prems(1,3) conv add IH by (auto simp: Let_def)
qed simp

lemma write_object_records_total:
  assumes "\<forall>obj \<in> set objs. oi_object_id obj \<noteq> 0 \<and> oi_kind obj \<noteq> 0" and "distinct (map oi_object_id objs)"
    and "length bs + sum_list (map (\<lambda>obj. 48 + length (oi_payload obj)) objs) < 2 ^ 64"
  shows "\<exists>bs' us. write_object_records sha bs objs = Inr (bs', us)"
proof -
  have "distinct (map oi_object_id (sort_key oi_object_id objs))" using assms(2) by (simp add: distinct_map)
  then show ?thesis
    using write_records_total [of "sort_key oi_object_id objs" None bs sha "[]"] assms by (auto simp: write_object_records_def sum_list_sort_key)
qed

end
