(* ===== verification/Ucof_Exp2_Properties.thy ===== *)
theory Ucof_Exp2_Properties
  imports Ucof_Exp2_Total
begin

text \<open>
  EXP-0002 as a whole: what strict validation establishes of a file, and that genesis and append produce
  files that validate and hold the given objects.
\<close>

section \<open>What validation establishes\<close>

definition root_page :: "x2_snapshot \<Rightarrow> expected_page" where
  "root_page s = \<lparr>ep_offset = xs_directory_root_offset s, ep_digest = xs_directory_root_digest s,
     ep_level = xs_directory_root_level s, ep_min_key = 0, ep_max_key = - 1, ep_depth = 1\<rparr>"

definition snapshot_bytes :: "bytes \<Rightarrow> x2_footer \<Rightarrow> bytes" where
  "snapshot_bytes bs f = slice bs (unat (xf_snapshot_offset f)) (unat (xf_snapshot_offset f) + unat (xf_snapshot_len f))"

definition snapshot_span :: "x2_footer \<Rightarrow> usize \<times> usize" where
  "snapshot_span f = (unat (xf_snapshot_offset f), unat (xf_snapshot_offset f) + unat (xf_snapshot_len f))"

definition commit_bytes :: "bytes \<Rightarrow> x2_footer \<Rightarrow> bytes" where
  "commit_bytes bs f = slice bs (unat (xf_commit_start f)) (unat (xf_commit_start f) + unat (xf_commit_len f))"

text \<open>The latest commit of a file is valid: the commit ends at the footer, its digest, its snapshot and its parent are
  as the footer says, the directory is a tree of pages at distinct offsets, and its entries are records with
  increasing identifiers that overlap neither each other nor the pages, the snapshot and the footer; the bytes
  hashed are the commit, the pages and the records, within the limits.\<close>

definition commit_valid :: "(bytes \<Rightarrow> bytes) \<Rightarrow> bytes \<Rightarrow> validation_limits \<Rightarrow> verified_exp0002 \<Rightarrow> bool" where
  "commit_valid sha bs lim v \<longleftrightarrow> (let f = vx_footer v; s = vx_snapshot v in
     file_header_parse (take FILE_HEADER_LEN bs) = Inr (vx_header v) \<and> FILE_HEADER_LEN \<le> unat (vx_footer_offset v) \<and>
     unat (vx_footer_offset v) + X2_FOOTER_LEN = length bs \<and> footer_parse (drop (unat (vx_footer_offset v)) bs) = Inr f \<and>
     unat (xf_commit_start f) + unat (xf_commit_len f) = unat (vx_footer_offset v) \<and> digest_commit sha (commit_bytes bs f) f = xf_commit_digest f \<and>
     unat (xf_commit_start f) \<le> unat (xf_snapshot_offset f) \<and> unat (xf_snapshot_offset f) + unat (xf_snapshot_len f) \<le> unat (vx_footer_offset v) \<and>
     digest_bytes sha SNAPSHOT_DOMAIN (snapshot_bytes bs f) = xf_snapshot_digest f \<and> snapshot_parse (snapshot_bytes bs f) lim = Inr s \<and>
     xs_sequence s = xf_sequence f \<and> xs_previous_footer_offset s = xf_previous_footer_offset f \<and>
     commit_parent bs (xf_sequence f) (xs_parent_snapshot_digest s) (xf_previous_footer_offset f) (xf_commit_start f) \<and>
     (\<exists>t. stored sha bs (xs_sequence s) lim (root_page s) t \<and> distinct (tree_pages t) \<and> vx_pages_verified v = length (tree_pages t) \<and>
       vx_objects v = sort_key le_object_id (tree_entries t) \<and>
       (\<forall>e \<in> set (vx_objects v). record_clear (map page_span (tree_pages t)) (snapshot_span f) (unat (vx_footer_offset v), length bs) e)) \<and>
     sorted_wrt (<) (map le_object_id (vx_objects v)) \<and> records_ok sha bs (vx_objects v) \<and> payload_sum (vx_objects v) \<le> unat (vl_max_payload_bytes lim) \<and>
     unat (vx_bytes_hashed v) = unat (xf_commit_len f) + PAGE_SIZE * vx_pages_verified v + record_sum (vx_objects v) \<and>
     vx_bytes_hashed v \<le> vl_max_hashed_bytes lim \<and> vx_pages_verified v \<le> vl_max_pages lim \<and>
     xs_roots s \<noteq> [] \<and> set (xs_roots s) \<subseteq> set (map le_object_id (vx_objects v)))"

lemma parent_link_commit:
  assumes "validate_parent_link bs offset f s = Inr ()" and "xs_sequence s = xf_sequence f"
  shows "commit_parent bs (xf_sequence f) (xs_parent_snapshot_digest s) (xf_previous_footer_offset f) (xf_commit_start f)"
proof (cases "xf_previous_footer_offset f = ABSENT_OFFSET")
  case True
  then show ?thesis using assms by (auto simp: validate_parent_link_def commit_parent_def split: if_splits)
next
  case False
  then obtain a b g where r: "x2_checked_range (xf_previous_footer_offset f) 160 (length bs) = Inr (a, b)" and g: "footer_parse (slice bs a b) = Inr g"
    "xf_snapshot_digest g = xs_parent_snapshot_digest s" "checked_add (xf_sequence g) 1 = Some (xf_sequence f)"
    "checked_add (xf_previous_footer_offset f) 160 = Some (xf_commit_start f)"
    using assms(1) by (auto simp: validate_parent_link_def result_simps split: if_splits)
  have "unat (xf_commit_start f) = unat (xf_previous_footer_offset f) + 160" using g(4) by (simp add: checked_add_Some_iff)
  then show ?thesis using r g(1-3) False by (auto simp: commit_parent_def x2_checked_range_Ok)
qed

lemma validate_directory_sound:
  assumes "validate_directory sha bs s lim h = Inr (d, h')" and "h \<le> vl_max_hashed_bytes lim"
  shows "\<exists>t. stored sha bs (xs_sequence s) lim (root_page s) t \<and> distinct (tree_pages t) \<and> dv_pages d = length (tree_pages t) \<and>
    dv_entries d = sort_key le_object_id (tree_entries t) \<and> dv_page_ranges d = map page_span (tree_pages t)"
    "sorted_wrt (<) (map le_object_id (dv_entries d))" "h' \<le> vl_max_hashed_bytes lim"
    "unat h' = unat h + PAGE_SIZE * dv_pages d" "dv_pages d \<le> vl_max_pages lim"
proof -
  from assms(1) obtain vs es rs where loop: "directory_loop sha bs s lim [root_page s] {} [] [] h = Inr (vs, es, rs, h')"
    and find: "List.find (\<lambda>(a, b). le_object_id a \<ge> le_object_id b) (windows2 (sort_key le_object_id es)) = None"
    and d: "d = \<lparr>dv_entries = sort_key le_object_id es, dv_page_ranges = rs, dv_pages = card vs\<rparr>"
    by (auto simp: validate_directory_def root_page_def Let_def split: sum.splits option.splits prod.splits)
  obtain ts where "list_all2 (stored sha bs (xs_sequence s) lim) [root_page s] ts" and ts: "walk_fits lim {} [] h ts" "walk_result {} [] [] h ts (vs, es, rs, h')"
    using directory_loop_sound [OF loop _ _ assms(2)] by auto
  then obtain t where t: "ts = [t]" "stored sha bs (xs_sequence s) lim (root_page s) t" by (auto simp: list_all2_Cons1)
  then show "\<exists>t. stored sha bs (xs_sequence s) lim (root_page s) t \<and> distinct (tree_pages t) \<and> dv_pages d = length (tree_pages t) \<and>
    dv_entries d = sort_key le_object_id (tree_entries t) \<and> dv_page_ranges d = map page_span (tree_pages t)"
    using ts by (auto simp: walk_fits_def walk_result_def d distinct_card)
  show "sorted_wrt (<) (map le_object_id (dv_entries d))"
    using find windows2_not_ge [of "sort_key le_object_id es" le_object_id] by (auto simp: d find_None_iff)
  show "h' \<le> vl_max_hashed_bytes lim" "unat h' = unat h + PAGE_SIZE * dv_pages d" "dv_pages d \<le> vl_max_pages lim"
    using ts by (auto simp: walk_fits_def walk_result_def word_le_nat_alt d t(1) distinct_card)
qed

lemma validate_strict_valid:
  assumes "validate_strict sha bs lim = Inr v"
  shows "commit_valid sha bs lim v"
proof -
  from assms obtain header offset f a b s c d dir h h' where
    n: "length bs < 2 ^ 64" "\<not> length bs < 224" and hdr: "file_header_parse (take 64 bs) = Inr header"
    and off: "to_u64 (length bs - 160) = Inr offset" and f: "footer_parse (drop (length bs - 160) bs) = Inr f"
    and ce: "checked_add (xf_commit_start f) (xf_commit_len f) = Some offset" and so: "\<not> xf_snapshot_offset f < xf_commit_start f"
    and sr: "x2_checked_range (xf_snapshot_offset f) (xf_snapshot_len f) (length bs) = Inr (a, b)" "\<not> length bs - 160 < b"
    and sd: "digest_bytes sha SNAPSHOT_DOMAIN (slice bs a b) = xf_snapshot_digest f" and sp: "snapshot_parse (slice bs a b) lim = Inr s"
    and sq: "xs_sequence s = xf_sequence f" "xs_previous_footer_offset s = xf_previous_footer_offset f"
    and pl: "validate_parent_link bs offset f s = Inr ()" and hb: "\<not> vl_max_hashed_bytes lim < xf_commit_len f"
    and cr: "x2_checked_range (xf_commit_start f) (xf_commit_len f) (length bs) = Inr (c, d)" and cd: "digest_commit sha (slice bs c d) f = xf_commit_digest f"
    and vd: "validate_directory sha bs s lim (xf_commit_len f) = Inr (dir, h)"
    and vo: "validate_objects sha bs (dv_entries dir) (dv_page_ranges dir) (a, b) (length bs - 160, length bs) lim h = Inr h'"
    and rts: "xs_roots s \<noteq> []" "\<forall>root \<in> set (xs_roots s). root \<in> set (map le_object_id (dv_entries dir))"
    and v: "v = \<lparr>vx_header = header, vx_footer_offset = offset, vx_footer = f, vx_snapshot = s,
       vx_objects = dv_entries dir, vx_pages_verified = dv_pages dir, vx_bytes_hashed = h'\<rparr>"
    unfolding validate_strict_def Let_def
    by (clarsimp simp: result_simps to_u64_Ok simp del: set_map split: if_splits)
  have uo: "unat offset = length bs - 160" using off unfolding to_u64_Ok by (metis unat_of_nat_64)
  have rng: "a = unat (xf_snapshot_offset f)" "b = unat (xf_snapshot_offset f) + unat (xf_snapshot_len f)"
    "c = unat (xf_commit_start f)" "d = unat (xf_commit_start f) + unat (xf_commit_len f)" using sr(1) cr by (simp_all add: x2_checked_range_Ok)
  note dir = validate_directory_sound [OF vd, unfolded not_less [symmetric], OF hb]
  obtain t where t: "stored sha bs (xs_sequence s) lim (root_page s) t" "distinct (tree_pages t)" "dv_pages dir = length (tree_pages t)"
    "dv_entries dir = sort_key le_object_id (tree_entries t)" "dv_page_ranges dir = map page_span (tree_pages t)" using dir(1) by blast
  have rec: "records_ok sha bs (dv_entries dir)" "\<forall>e \<in> set (dv_entries dir). record_clear (dv_page_ranges dir) (a, b) (length bs - 160, length bs) e"
    and sums: "payload_sum (dv_entries dir) \<le> unat (vl_max_payload_bytes lim)" "unat h' = unat (xf_commit_len f) + PAGE_SIZE * dv_pages dir + record_sum (dv_entries dir)"
      "h' \<le> vl_max_hashed_bytes lim"
    using vo dir(3,4) by (simp_all add: validate_objects_Ok not_less word_le_nat_alt)
  have "\<exists>t. stored sha bs (xs_sequence s) lim (root_page s) t \<and> distinct (tree_pages t) \<and> vx_pages_verified v = length (tree_pages t) \<and>
       vx_objects v = sort_key le_object_id (tree_entries t) \<and>
       (\<forall>e \<in> set (vx_objects v). record_clear (map page_span (tree_pages t)) (snapshot_span f) (unat (vx_footer_offset v), length bs) e)"
    using t rec(2) uo rng by (intro exI [of _ t]) (simp add: v snapshot_span_def)
  moreover have "unat (xf_commit_start f) + unat (xf_commit_len f) = unat offset" using ce by (simp add: checked_add_Some_iff)
  moreover have "xs_roots s \<noteq> [] \<and> set (xs_roots s) \<subseteq> set (map le_object_id (dv_entries dir))" using rts by blast
  ultimately show ?thesis
    using hdr n uo f so sr(2) sd sp sq parent_link_commit [OF pl sq(1)] cd dir(2,5) rec(1) sums
    unfolding commit_valid_def Let_def snapshot_bytes_def commit_bytes_def rng
    by (simp add: v not_less word_le_nat_alt del: set_map)
qed

section \<open>Genesis\<close>

abbreviation payload_bytes :: "object_input list \<Rightarrow> nat" where
  "payload_bytes objs \<equiv> sum_list (map (\<lambda>obj. length (oi_payload obj)) objs)"

lemma stored_objects_sums:
  assumes "list_all2 (object_stored bs) (sort_key oi_object_id objs) us"
  shows "payload_sum us = payload_bytes objs" "length us = length objs" "set (map le_object_id us) = oi_object_id ` set objs"
proof -
  have "map (\<lambda>e. unat (le_logical_len e)) us = map (\<lambda>obj. length (oi_payload obj)) (sort_key oi_object_id objs)"
    "map le_object_id us = map oi_object_id (sort_key oi_object_id objs)"
    using assms by (auto simp: list_all2_conv_all_nth object_stored_def intro!: nth_equalityI)
  then show "payload_sum us = payload_bytes objs" "set (map le_object_id us) = oi_object_id ` set objs" by (simp_all add: sum_list_sort_key)
  show "length us = length objs" using list_all2_lengthD [OF assms] by simp
qed

lemma objects_stored_append:
  assumes "list_all2 (object_stored bs) objs us" and "records_ok sha bs us"
  shows "list_all2 (object_stored (bs @ cs)) objs us"
  using assms(1) by (rule list.rel_mono_strong) (use assms(2) object_stored_append in \<open>auto simp: records_ok_def\<close>)

lemma sort_eq_Nil: "sort vs = [] \<longleftrightarrow> vs = ([] :: u64 list)"
  by (metis set_empty set_sort)

lemma build_genesis_Ok:
  "build_genesis sha header objs = Inr fil \<longleftrightarrow> objs \<noteq> [] \<and> distinct (map oi_object_id (filter oi_is_root objs)) \<and>
     0 \<notin> oi_object_id ` set (filter oi_is_root objs) \<and> filter oi_is_root objs \<noteq> [] \<and>
     (\<exists>bs us. write_object_records sha (file_header_encode header) objs = Inr (bs, us) \<and> length us < 2 ^ 64 \<and>
       finish_commit sha bs us (sort (map oi_object_id (filter oi_is_root objs))) 0 (zeros 32) ABSENT_OFFSET 0 (of_nat (length us)) = Inr fil)"
  by (auto simp: build_genesis_def build_commit_def Let_def result_simps canonical_values_Ok to_u64_Ok sort_eq_Nil split: if_splits)

lemma genesis_parent: "commit_parent bs 0 (zeros 32) ABSENT_OFFSET 0"
  by (simp add: commit_parent_def)

lemma build_genesis_valid:
  assumes "build_genesis sha header objs = Inr fil" and "\<And>x. length (sha x) = 32" and "file_header_wf header"
    and "limits_cover lim (length fil) (payload_bytes objs) (length objs) (length (filter oi_is_root objs))"
  shows "\<exists>v. validate_strict sha fil lim = Inr v \<and> vx_header v = header \<and> xs_sequence (vx_snapshot v) = 0 \<and>
    xs_roots (vx_snapshot v) = sort (map oi_object_id (filter oi_is_root objs)) \<and> xf_record_count (vx_footer v) = of_nat (length objs) \<and>
    list_all2 (object_stored fil) (sort_key oi_object_id objs) (vx_objects v)"
proof -
  let ?rts = "sort (map oi_object_id (filter oi_is_root objs))"
  from assms(1) obtain bs us where rts: "filter oi_is_root objs \<noteq> []" and w: "write_object_records sha (file_header_encode header) objs = Inr (bs, us)"
    and run: "finish_commit sha bs us ?rts 0 (zeros 32) ABSENT_OFFSET 0 (of_nat (length us)) = Inr fil"
    unfolding build_genesis_Ok by blast
  note rec = write_object_records_spec [OF w assms(2)] and sums = stored_objects_sums [OF write_object_records_spec(2) [OF w assms(2)]]
  obtain P where P: "bs = file_header_encode header @ P" using rec(1) by blast
  have hl: "length (file_header_encode header) = 64" by (rule length_file_header_encode [OF assms(3)])
  have hdr: "file_header_parse (take 64 bs) = Inr header" "64 \<le> length bs" using hl file_header_round_trip [OF assms(3)] by (simp_all add: P)
  have ne: "?rts \<noteq> []" "set ?rts \<subseteq> set (map le_object_id us)" unfolding sums(3) using rts by (auto simp: sort_eq_Nil filter_empty_conv)
  have "limits_cover lim (length fil) (payload_sum us) (length us) (length ?rts)" using assms(4) sums(1,2) by simp
  from finish_commit_valid [OF run assms(2) rec(4,3) genesis_parent _ hdr ne this] obtain v P' where
    "fil = bs @ P'" "validate_strict sha fil lim = Inr v" "vx_header v = header" "vx_objects v = us" "xs_sequence (vx_snapshot v) = 0" "xs_roots (vx_snapshot v) = ?rts"
    "xf_record_count (vx_footer v) = of_nat (length us)" by auto
  then show ?thesis using objects_stored_append [OF rec(2,3), of P'] sums(2) by auto
qed

definition genesis_size :: "object_input list \<Rightarrow> nat" where
  "genesis_size objs = 384 + payload_bytes objs + 32824 * length objs"

lemma build_genesis_total:
  assumes "\<And>x. length (sha x) = 32" and "file_header_wf header" and "genesis_size objs < 2 ^ 64" and "length objs < 2 ^ 32"
    and "distinct (map oi_object_id objs)" and "\<forall>obj \<in> set objs. oi_object_id obj \<noteq> 0 \<and> oi_kind obj \<noteq> 0" and "\<exists>obj \<in> set objs. oi_is_root obj"
  shows "\<exists>fil. build_genesis sha header objs = Inr fil \<and> length fil \<le> genesis_size objs"
proof -
  let ?r = "filter oi_is_root objs"
  have hl: "length (file_header_encode header) = 64" by (rule length_file_header_encode [OF assms(2)])
  have sum: "sum_list (map (\<lambda>obj. 48 + length (oi_payload obj)) objs) = 48 * length objs + payload_bytes objs" by (induction objs) simp_all
  obtain bs us where w: "write_object_records sha (file_header_encode header) objs = Inr (bs, us)"
    using write_object_records_total [OF assms(6,5)] assms(3) sum hl by (fastforce simp: genesis_size_def)
  note rec = write_object_records_spec [OF w assms(1)] and sums = stored_objects_sums [OF write_object_records_spec(2) [OF w assms(1)]]
  have len: "length bs = 64 + payload_bytes objs + 48 * length objs" using rec(1) sums hl by auto
  have fl: "length ?r \<le> length objs" by simp
  have rt: "sorted_wrt (<) (sort (map oi_object_id ?r))" "0 \<notin> set (sort (map oi_object_id ?r))" "distinct (map oi_object_id ?r)"
    using assms(5,6) distinct_map_filter [of oi_object_id objs oi_is_root] by (auto simp: strict_sorted_iff)
  have size: "length bs + 2 * PAGE_SIZE * length us + 8 * length (sort (map oi_object_id ?r)) + 320 \<le> genesis_size objs"
    using len sums(2) fl by (simp add: genesis_size_def)
  have "us \<noteq> []" using assms(7) sums(2) by auto
  moreover have "length (sort (map oi_object_id ?r)) < 2 ^ 32" using order.strict_trans1 [OF fl assms(4)] by simp
  ultimately obtain fil where "finish_commit sha bs us (sort (map oi_object_id ?r)) 0 (zeros 32) ABSENT_OFFSET 0 (of_nat (length us)) = Inr fil"
    "length fil \<le> length bs + 2 * PAGE_SIZE * length us + 8 * length (sort (map oi_object_id ?r)) + 320"
    using finish_commit_total [where sha = sha and es = us and rts = "sort (map oi_object_id ?r)" and digest = "zeros 32" and start = 0 and bs = bs
        and sequence = 0 and previous = ABSENT_OFFSET and rc = "of_nat (length us)"] assms(1) rec(4) rt(1,2) size assms(3) by fastforce
  moreover have "length us < 2 ^ 64" using sums(2) assms(4) by simp
  ultimately show ?thesis using assms(6,7) rt(3) w size unfolding build_genesis_Ok by (fastforce simp: filter_empty_conv)
qed

section \<open>Append\<close>

lemma insert_new_ids_Ok:
  "insert_new_ids seen objs = Inr seen' \<longleftrightarrow> distinct (map oi_object_id objs) \<and> oi_object_id ` set objs \<inter> seen = {} \<and> seen' = seen \<union> oi_object_id ` set objs"
  by (induction objs arbitrary: seen) auto

lemma commit_valid_simps:
  assumes "commit_valid sha bs lim v" and "\<And>x. length (sha x) = 32"
  shows "file_header_parse (take FILE_HEADER_LEN bs) = Inr (vx_header v)" "FILE_HEADER_LEN \<le> length bs" "unat (vx_footer_offset v) + X2_FOOTER_LEN = length bs"
    "footer_parse (drop (unat (vx_footer_offset v)) bs) = Inr (vx_footer v)" "length (xf_snapshot_digest (vx_footer v)) = 32"
    "xs_sequence (vx_snapshot v) = xf_sequence (vx_footer v)" "records_ok sha bs (vx_objects v)" "sorted_wrt (<) (map le_object_id (vx_objects v))"
proof -
  show "length (xf_snapshot_digest (vx_footer v)) = 32"
    using assms(1) unfolding commit_valid_def Let_def by (metis assms(2) digest_bytes_def)
qed (use assms(1) in \<open>simp_all add: commit_valid_def Let_def\<close>)

lemma distinct_sort_key: "distinct (map f (sort_key f xs)) \<longleftrightarrow> distinct (map f xs)"
  by (simp add: distinct_map)

text \<open>Old and new entries, merged by identifier.\<close>

lemma merged_entries:
  assumes "records_ok sha bs es" and "sorted_wrt (<) (map le_object_id es)" and "records_ok sha (bs @ cs) us" and "entries_ok us"
    and "\<forall>u \<in> set us. length bs \<le> fst (record_range u)" and "set (map le_object_id es) \<inter> set (map le_object_id us) = {}" and "\<And>x. length (sha x) = 32"
  shows "entries_ok (sort_key le_object_id (es @ us))" "records_ok sha (bs @ cs) (sort_key le_object_id (es @ us))"
proof -
  have "distinct (map le_object_id (es @ us))" using assms(2,4,6) by (auto simp: entries_ok_def strict_sorted_iff)
  then have "sorted_wrt (<) (map le_object_id (sort_key le_object_id (es @ us)))" 
    by (simp add: strict_sorted_iff distinct_sort_key)
  moreover have at: "\<forall>e \<in> set (es @ us). record_at sha (bs @ cs) e" using assms(1,3) record_at_append by (auto simp: records_ok_def)
  ultimately show "entries_ok (sort_key le_object_id (es @ us))" using record_at_wf [where sha = sha, OF _ assms(7)] by (auto simp: entries_ok_def)
  have "apart (record_range e) (record_range u)" if "e \<in> set es" "u \<in> set us" for e u
  proof -
    have "snd (record_range e) \<le> length bs" "length bs \<le> fst (record_range u)" using assms(1,5) that by (auto simp: records_ok_def record_at_def)
    then show ?thesis by (cases "record_range e"; cases "record_range u") (simp add: apart_def)
  qed
  then have "sorted_wrt apart (map record_range (es @ us))" using assms(1,3) by (auto simp: records_ok_def sorted_wrt_append)
  then have "sorted_wrt apart (map record_range (sort_key le_object_id (es @ us)))"
    using apart_mset [of "map record_range (es @ us)" "map record_range (sort_key le_object_id (es @ us))"] by simp
  then show "records_ok sha (bs @ cs) (sort_key le_object_id (es @ us))" using at by (simp add: records_ok_def)
qed

lemma build_append_Ok:
  "build_append sha prev objs rts lim0 = Inr fil \<longleftrightarrow> (\<exists>v bs us sequence.
     validate_strict sha prev lim0 = Inr v \<and> distinct rts \<and> 0 \<notin> set rts \<and> rts \<noteq> [] \<and> distinct (map oi_object_id objs) \<and>
     oi_object_id ` set objs \<inter> set (map le_object_id (vx_objects v)) = {} \<and> length prev < 2 ^ 64 \<and> write_object_records sha prev objs = Inr (bs, us) \<and>
     set rts \<subseteq> set (map le_object_id (vx_objects v @ us)) \<and> checked_add (xs_sequence (vx_snapshot v)) 1 = Some sequence \<and>
     card (set (map le_object_id (vx_objects v)) \<union> oi_object_id ` set objs) - length (vx_objects v) < 2 ^ 64 \<and>
     finish_commit sha bs (sort_key le_object_id (vx_objects v @ us)) (sort rts) sequence (xf_snapshot_digest (vx_footer v)) (vx_footer_offset v)
       (of_nat (length prev)) (of_nat (card (set (map le_object_id (vx_objects v)) \<union> oi_object_id ` set objs) - length (vx_objects v))) = Inr fil)"
  unfolding build_append_def Let_def
  by (fastforce simp: result_simps canonical_values_Ok insert_new_ids_Ok to_u64_Ok sort_eq_Nil split: if_splits)

lemma append_parent:
  assumes "commit_valid sha prev lim v" and "\<And>x. length (sha x) = 32" and "length prev < 2 ^ 64" and "checked_add (xs_sequence (vx_snapshot v)) 1 = Some sequence"
  shows "commit_parent (prev @ cs) sequence (xf_snapshot_digest (vx_footer v)) (vx_footer_offset v) (of_nat (length prev))"
proof -
  note ok = commit_valid_simps [OF assms(1,2)]
  have u: "unat (of_nat (length prev) :: u64) = length prev" by (rule unat_of_nat_64 [OF assms(3)])
  have "unat (vx_footer_offset v) \<noteq> unat ABSENT_OFFSET" using ok(3) assms(3) by (simp add: unsigned_minus_1_eq_mask mask_eq_exp_minus_1)
  then have "vx_footer_offset v \<noteq> ABSENT_OFFSET" by auto
  moreover have "slice (prev @ cs) (unat (vx_footer_offset v)) (length prev) = drop (unat (vx_footer_offset v)) prev"
    using slice_append [of "length prev" prev cs] by (simp add: drop_slice)
  ultimately show ?thesis using ok(3,4,6) assms(4) u by (simp add: commit_parent_def)
qed

lemma build_append_total:
  assumes "\<And>x. length (sha x) = 32" and "validate_strict sha prev lim0 = Inr v0" and "xs_sequence (vx_snapshot v0) \<noteq> - 1"
    and "\<forall>obj \<in> set objs. oi_object_id obj \<noteq> 0 \<and> oi_kind obj \<noteq> 0" and "distinct (map oi_object_id objs)"
    and "oi_object_id ` set objs \<inter> set (map le_object_id (vx_objects v0)) = {}" and "distinct rts" and "0 \<notin> set rts" and "rts \<noteq> []"
    and "set rts \<subseteq> set (map le_object_id (vx_objects v0)) \<union> oi_object_id ` set objs" and "length rts < 2 ^ 32"
    and "length prev + payload_bytes objs + 48 * length objs + 2 * PAGE_SIZE * (length (vx_objects v0) + length objs) + 8 * length rts + 320 < 2 ^ 64"
  shows "\<exists>fil. build_append sha prev objs rts lim0 = Inr fil \<and> length fil \<le> length prev + payload_bytes objs + 48 * length objs +
    2 * PAGE_SIZE * (length (vx_objects v0) + length objs) + 8 * length rts + 320"
proof -
  have cv: "commit_valid sha prev lim0 v0" by (rule validate_strict_valid [OF assms(2)])
  note ok = commit_valid_simps [OF cv assms(1)]
  have lt: "length prev < 2 ^ 64" using assms(12) by simp
  have sum: "sum_list (map (\<lambda>obj. 48 + length (oi_payload obj)) objs) = 48 * length objs + payload_bytes objs" by (induction objs) simp_all
  obtain bs us where w: "write_object_records sha prev objs = Inr (bs, us)"
    using write_object_records_total [OF assms(4,5), of prev sha] assms(12) sum by auto
  note rec = write_object_records_spec [OF w assms(1)] and sums = stored_objects_sums [OF write_object_records_spec(2) [OF w assms(1)]]
  obtain P where P: "bs = prev @ P" "length P = payload_sum us + 48 * length us" using rec(1) by blast
  let ?es = "sort_key le_object_id (vx_objects v0 @ us)"
  have es: "entries_ok ?es" "records_ok sha bs ?es"
    using merged_entries [OF ok(7,8), of P us] rec(3-5) assms(1,6) sums(3) unfolding P by auto
  have "unat (xs_sequence (vx_snapshot v0)) \<noteq> 2 ^ 64 - 1" using assms(3) by (simp add: word_unat_eq_iff unsigned_minus_1_eq_mask mask_eq_exp_minus_1)
  moreover have "unat (xs_sequence (vx_snapshot v0)) < 2 ^ 64" by simp
  ultimately have "unat (xs_sequence (vx_snapshot v0)) + 1 < 2 ^ 64" by linarith
  then obtain sequence where sq: "checked_add (xs_sequence (vx_snapshot v0)) 1 = Some sequence" by (simp add: checked_add_def)
  have ids: "card (set (map le_object_id (vx_objects v0)) \<union> oi_object_id ` set objs) \<le> length (vx_objects v0) + length objs"
    by (metis card_Un_le card_length length_map list.set_map order.trans add_mono)
  have roots: "sorted_wrt (<) (sort rts)" "0 \<notin> set (sort rts)" "length (sort rts) < 2 ^ 32" "set rts \<subseteq> set (map le_object_id (vx_objects v0 @ us))"
    using assms(7,8,10,11) sums(3) by (auto simp: strict_sorted_iff)
  have "?es \<noteq> []" using roots(4) assms(9) by (metis empty_set list.map_disc_iff list.set_map set_empty set_sort subset_empty)
  moreover have size: "length bs + 2 * PAGE_SIZE * length ?es + 8 * length (sort rts) + 320 = length prev + payload_bytes objs + 48 * length objs +
      2 * PAGE_SIZE * (length (vx_objects v0) + length objs) + 8 * length rts + 320"
    using P sums by simp
  ultimately obtain fil where fil: "finish_commit sha bs ?es (sort rts) sequence (xf_snapshot_digest (vx_footer v0)) (vx_footer_offset v0)
       (of_nat (length prev)) (of_nat (card (set (map le_object_id (vx_objects v0)) \<union> oi_object_id ` set objs) - length (vx_objects v0))) = Inr fil"
      "length fil \<le> length bs + 2 * PAGE_SIZE * length ?es + 8 * length (sort rts) + 320"
    using finish_commit_total [where sha = sha and es = ?es and rts = "sort rts" and digest = "xf_snapshot_digest (vx_footer v0)" and start = "of_nat (length prev)" and bs = bs
        and sequence = sequence and previous = "vx_footer_offset v0"] assms(1,12) es(1) roots(1-3) ok(5) unat_of_nat_64 [OF lt] P(1) by fastforce
  have "build_append sha prev objs rts lim0 = Inr fil"
    unfolding build_append_Ok using assms(2,5-9,12) lt w roots(4) sq fil(1) ids
    by (intro exI [of _ v0] exI [of _ bs] exI [of _ us] exI [of _ sequence]) auto
  then show ?thesis using fil(2) size by auto
qed

section \<open>Properties\<close>

text \<open>
  C18. A genesis file passes strict validation: for a hash of 32 bytes and limits that cover the file, the file that
  \<open>build_genesis\<close> returns validates, as sequence 0 with the given header, the directory lists the objects in
  the order of their identifiers, each with its kind and with its payload in the file, and the roots are the
  objects that were marked as roots.
\<close>

theorem exp2_genesis_round_trip:
  assumes "build_genesis sha header objs = Inr fil" and "\<And>x. length (sha x) = 32" and "file_header_wf header"
    and "limits_cover lim (length fil) (payload_bytes objs) (length objs) (length (filter oi_is_root objs))"
  shows "\<exists>v. validate_strict sha fil lim = Inr v \<and> vx_header v = header \<and> xs_sequence (vx_snapshot v) = 0 \<and>
    xs_roots (vx_snapshot v) = sort (map oi_object_id (filter oi_is_root objs)) \<and> xf_record_count (vx_footer v) = of_nat (length objs) \<and>
    list_all2 (object_stored fil) (sort_key oi_object_id objs) (vx_objects v)"
  using build_genesis_valid [where sha = sha] assms by blast

text \<open>
  C39. When the sizes fit in 64 bits (and fewer than \<open>2 ^ 32\<close> objects are given), \<open>build_genesis\<close> returns a file exactly on
  a list of objects with pairwise different non-zero identifiers, non-zero kinds and at least one root; every
  other input is an error. The file is at most as long as \<open>genesis_size\<close> says.
\<close>

theorem exp2_genesis_exact:
  assumes "\<And>x. length (sha x) = 32" and "file_header_wf header" and "genesis_size objs < 2 ^ 64" and "length objs < 2 ^ 32"
  shows "(\<exists>fil. build_genesis sha header objs = Inr fil \<and> length fil \<le> genesis_size objs) \<longleftrightarrow>
      distinct (map oi_object_id objs) \<and> (\<forall>obj \<in> set objs. oi_object_id obj \<noteq> 0 \<and> oi_kind obj \<noteq> 0) \<and> (\<exists>obj \<in> set objs. oi_is_root obj)" (is "?l \<longleftrightarrow> ?r")
proof
  assume ?r
  then show ?l using build_genesis_total [where sha = sha] assms by blast
next
  assume ?l
  then obtain bs us where root: "filter oi_is_root objs \<noteq> []" and w: "write_object_records sha (file_header_encode header) objs = Inr (bs, us)"
    by (auto simp: build_genesis_Ok)
  note rec = write_object_records_spec [OF w assms(1)]
  have l: "list_all2 (object_stored bs) (sort_key oi_object_id objs) us" by (rule rec(2))
  have ids: "map le_object_id us = map oi_object_id (sort_key oi_object_id objs)"
    using l by (auto simp: list_all2_conv_all_nth object_stored_def intro!: nth_equalityI)
  have "distinct (map le_object_id us)" using rec(4) by (simp add: entries_ok_def strict_sorted_iff)
  then have "distinct (map oi_object_id objs)" unfolding ids by (simp add: distinct_map)
  moreover have "oi_object_id obj \<noteq> 0 \<and> oi_kind obj \<noteq> 0" if "obj \<in> set objs" for obj
  proof -
    have "obj \<in> set (sort_key oi_object_id objs)" using that by simp
    then obtain u where "u \<in> set us" "object_stored bs obj u" using l by (metis list_all2_conv_all_nth in_set_conv_nth)
    then show ?thesis using rec(4) by (auto simp: entries_ok_def leaf_entry_wf_def object_stored_def)
  qed
  ultimately show ?r using root by (auto simp: filter_empty_conv)
qed

text \<open>
  C19. Appending: the file that \<open>build_append\<close> returns starts with the previous file, byte for byte, and passes strict
  validation as the next sequence number, with the previous commit as its parent. Its directory holds exactly
  the entries of the previous directory, unchanged, and the new objects, in the order of their identifiers; the roots are the given ones.
\<close>

theorem exp2_append_round_trip:
  assumes "validate_strict sha prev lim0 = Inr v0" and "build_append sha prev objs rts lim0 = Inr fil" and "\<And>x. length (sha x) = 32"
    and "limits_cover lim (length fil) (payload_sum (vx_objects v0) + payload_bytes objs) (length (vx_objects v0) + length objs) (length rts)"
  shows "\<exists>v us. validate_strict sha fil lim = Inr v \<and> take (length prev) fil = prev \<and> vx_header v = vx_header v0 \<and>
    unat (xs_sequence (vx_snapshot v)) = unat (xs_sequence (vx_snapshot v0)) + 1 \<and> xs_roots (vx_snapshot v) = sort rts \<and>
    xf_previous_footer_offset (vx_footer v) = vx_footer_offset v0 \<and> xs_parent_snapshot_digest (vx_snapshot v) = xf_snapshot_digest (vx_footer v0) \<and>
    list_all2 (object_stored fil) (sort_key oi_object_id objs) us \<and> vx_objects v = sort_key le_object_id (vx_objects v0 @ us)"
proof -
  from assms(1,2) obtain bs us sequence rc where rts: "rts \<noteq> []" "set rts \<subseteq> set (map le_object_id (vx_objects v0 @ us))"
    and fresh: "oi_object_id ` set objs \<inter> set (map le_object_id (vx_objects v0)) = {}" and lt: "length prev < 2 ^ 64"
    and w: "write_object_records sha prev objs = Inr (bs, us)" and sq: "checked_add (xs_sequence (vx_snapshot v0)) 1 = Some sequence"
    and run: "finish_commit sha bs (sort_key le_object_id (vx_objects v0 @ us)) (sort rts) sequence (xf_snapshot_digest (vx_footer v0)) (vx_footer_offset v0)
       (of_nat (length prev)) rc = Inr fil"
    unfolding build_append_Ok by auto
  have cv: "commit_valid sha prev lim0 v0" by (rule validate_strict_valid [OF assms(1)])
  note ok = commit_valid_simps [OF cv assms(3)]
  note rec = write_object_records_spec [OF w assms(3)] and sums = stored_objects_sums [OF write_object_records_spec(2) [OF w assms(3)]]
  obtain P where P: "bs = prev @ P" using rec(1) by blast
  let ?es = "sort_key le_object_id (vx_objects v0 @ us)"
  have es: "entries_ok ?es" "records_ok sha bs ?es"
    using merged_entries [OF ok(7,8), of P us] rec(3-5) fresh assms(3) sums(3) unfolding P by auto
  have hdr: "file_header_parse (take 64 bs) = Inr (vx_header v0)" "64 \<le> length bs" using ok(1,2) by (simp_all add: P)
  have "payload_sum ?es = payload_sum (vx_objects v0) + payload_bytes objs" using sums(1) sum_list_sort_key [of _ le_object_id "vx_objects v0 @ us"] by simp
  then have cover: "limits_cover lim (length fil) (payload_sum ?es) (length ?es) (length (sort rts))" using assms(4) sums(2) by simp
  have roots: "sort rts \<noteq> []" "set (sort rts) \<subseteq> set (map le_object_id ?es)" using rts by (auto simp: sort_eq_Nil)
  have parent: "commit_parent bs sequence (xf_snapshot_digest (vx_footer v0)) (vx_footer_offset v0) (of_nat (length prev))"
    unfolding P by (rule append_parent [OF cv assms(3) lt sq])
  from finish_commit_valid [OF run assms(3) es parent ok(5) hdr roots cover] obtain v P' where v: "fil = bs @ P'" "validate_strict sha fil lim = Inr v"
    "vx_header v = vx_header v0" "vx_objects v = ?es" "xs_sequence (vx_snapshot v) = sequence" "xs_roots (vx_snapshot v) = sort rts"
    "xs_parent_snapshot_digest (vx_snapshot v) = xf_snapshot_digest (vx_footer v0)" "xf_previous_footer_offset (vx_footer v) = vx_footer_offset v0"
    by blast
  moreover have "list_all2 (object_stored fil) (sort_key oi_object_id objs) us" unfolding v(1) by (rule objects_stored_append [OF rec(2,3)])
  moreover have "take (length prev) fil = prev" using v(1) P by simp
  moreover have "unat sequence = unat (xs_sequence (vx_snapshot v0)) + 1" using sq by (simp add: checked_add_Some_iff)
  ultimately show ?thesis by blast
qed


text \<open>
  C20. Strict validation is sound: a file that \<open>validate_strict\<close> accepts has a valid latest commit, in the sense of
  \<open>commit_valid\<close>: header, footer, commit digest, snapshot and parent link agree, the directory walked from the
  root is a finite tree of distinct pages with matching digests, and every entry it lists is an intact record.
\<close>

theorem exp2_validate_sound:
  assumes "validate_strict sha bs lim = Inr v"
  shows "commit_valid sha bs lim v"
  using assms by (rule validate_strict_valid)

definition x2_sample_header :: x2_file_header where
  "x2_sample_header = \<lparr>fh_file_id = zeros 16, fh_creation_nonce = zeros 16\<rparr>"

definition x2_sample_objects :: "object_input list" where
  "x2_sample_objects = [\<lparr>oi_object_id = 7, oi_kind = 1, oi_payload = [1, 2, 3], oi_is_root = True\<rparr>,
     \<lparr>oi_object_id = 5, oi_kind = 2, oi_payload = [], oi_is_root = False\<rparr>]"

definition x2_sample_sha :: "bytes \<Rightarrow> bytes" where
  "x2_sample_sha bs = zeros 32"

lemma x2_sample_genesis:
  "\<And>x. length (x2_sample_sha x) = 32" "file_header_wf x2_sample_header" "genesis_size x2_sample_objects < 2 ^ 64" "length x2_sample_objects < 2 ^ 32"
  "distinct (map oi_object_id x2_sample_objects)" "\<forall>obj \<in> set x2_sample_objects. oi_object_id obj \<noteq> 0 \<and> oi_kind obj \<noteq> 0" "\<exists>obj \<in> set x2_sample_objects. oi_is_root obj"
  by (simp_all add: x2_sample_sha_def x2_sample_header_def x2_sample_objects_def file_header_wf_def genesis_size_def)

lemma x2_sample_limits:
  "n \<le> 1000000 \<Longrightarrow> k \<le> 1000 \<Longrightarrow> c \<le> 1000 \<Longrightarrow> r \<le> 1000 \<Longrightarrow> limits_cover validation_limits_default n k c r"
  by (simp add: limits_cover_def validation_limits_default_def)

lemma x2_sample_file:
  "\<exists>fil v. build_genesis x2_sample_sha x2_sample_header x2_sample_objects = Inr fil \<and> length fil \<le> 70000 \<and>
    limits_cover validation_limits_default (length fil) (payload_bytes x2_sample_objects) (length x2_sample_objects) (length (filter oi_is_root x2_sample_objects)) \<and>
    validate_strict x2_sample_sha fil validation_limits_default = Inr v \<and> xs_sequence (vx_snapshot v) = 0 \<and>
    payload_sum (vx_objects v) = 3 \<and> length (vx_objects v) = 2 \<and> set (map le_object_id (vx_objects v)) = {5, 7}"
proof -
  obtain fil where fil: "build_genesis x2_sample_sha x2_sample_header x2_sample_objects = Inr fil" "length fil \<le> genesis_size x2_sample_objects"
    using build_genesis_total [where sha = x2_sample_sha] x2_sample_genesis by blast
  have len: "length fil \<le> 70000" using fil(2) by (simp add: genesis_size_def x2_sample_objects_def)
  then have lim: "limits_cover validation_limits_default (length fil) (payload_bytes x2_sample_objects) (length x2_sample_objects) (length (filter oi_is_root x2_sample_objects))"
    by (intro x2_sample_limits) (simp_all add: x2_sample_objects_def)
  obtain v where v: "validate_strict x2_sample_sha fil validation_limits_default = Inr v" "xs_sequence (vx_snapshot v) = 0"
    "list_all2 (object_stored fil) (sort_key oi_object_id x2_sample_objects) (vx_objects v)"
    using build_genesis_valid [OF fil(1) x2_sample_genesis(1,2) lim] by blast
  show ?thesis using fil(1) len lim v stored_objects_sums [OF v(3)] by (auto simp: x2_sample_objects_def)
qed

theorem exp2_genesis_round_trip_witness:
  "\<exists>fil v. build_genesis x2_sample_sha x2_sample_header x2_sample_objects = Inr fil \<and> validate_strict x2_sample_sha fil validation_limits_default = Inr v \<and>
    xs_roots (vx_snapshot v) = [7] \<and> list_all2 (object_stored fil) (rev x2_sample_objects) (vx_objects v)"
proof -
  obtain fil where fil: "build_genesis x2_sample_sha x2_sample_header x2_sample_objects = Inr fil"
    and lim: "limits_cover validation_limits_default (length fil) (payload_bytes x2_sample_objects) (length x2_sample_objects) (length (filter oi_is_root x2_sample_objects))"
    using x2_sample_file by blast
  show ?thesis using fil exp2_genesis_round_trip [OF fil x2_sample_genesis(1,2) lim] by (auto simp: x2_sample_objects_def)
qed

theorem exp2_genesis_exact_witness:
  "\<exists>fil. build_genesis x2_sample_sha x2_sample_header x2_sample_objects = Inr fil \<and> length fil \<le> genesis_size x2_sample_objects"
  using exp2_genesis_exact [where sha = x2_sample_sha, OF x2_sample_genesis(1-4)] x2_sample_genesis(5-7) by blast

theorem exp2_append_round_trip_witness:
  "\<exists>prev fil v. build_genesis x2_sample_sha x2_sample_header x2_sample_objects = Inr prev \<and>
    build_append x2_sample_sha prev [\<lparr>oi_object_id = 6, oi_kind = 1, oi_payload = [9], oi_is_root = False\<rparr>] [7, 6] validation_limits_default = Inr fil \<and>
    validate_strict x2_sample_sha fil validation_limits_default = Inr v \<and> take (length prev) fil = prev \<and> xs_roots (vx_snapshot v) = [6, 7] \<and>
    unat (xs_sequence (vx_snapshot v)) = 1"
proof -
  let ?new = "[\<lparr>oi_object_id = 6, oi_kind = 1, oi_payload = [9], oi_is_root = False\<rparr>] :: object_input list"
  obtain prev v0 where prev: "build_genesis x2_sample_sha x2_sample_header x2_sample_objects = Inr prev" "length prev \<le> 70000"
    and v0: "validate_strict x2_sample_sha prev validation_limits_default = Inr v0" "xs_sequence (vx_snapshot v0) = 0"
    "payload_sum (vx_objects v0) = 3" "length (vx_objects v0) = 2" "set (map le_object_id (vx_objects v0)) = {5, 7}"
    using x2_sample_file by blast
  obtain fil where fil: "build_append x2_sample_sha prev ?new [7, 6] validation_limits_default = Inr fil" "length fil \<le> 1000000"
    using build_append_total [OF x2_sample_genesis(1) v0(1), of ?new "[7, 6]"] v0(2-5) prev(2) by auto
  have "limits_cover validation_limits_default (length fil) (payload_sum (vx_objects v0) + payload_bytes ?new) (length (vx_objects v0) + length ?new) (length [7 :: u64, 6])"
    using fil(2) v0 by (intro x2_sample_limits) simp_all
  from exp2_append_round_trip [OF v0(1) fil(1) x2_sample_genesis(1) this] show ?thesis using prev(1) fil(1) v0(2) by auto
qed

theorem exp2_validate_sound_witness:
  "\<exists>fil v. build_genesis x2_sample_sha x2_sample_header x2_sample_objects = Inr fil \<and> validate_strict x2_sample_sha fil validation_limits_default = Inr v \<and>
    commit_valid x2_sample_sha fil validation_limits_default v"
  using x2_sample_file exp2_validate_sound by blast

end
