(* ===== verification/Ucof_Exp2_Recovery.thy ===== *)
theory Ucof_Exp2_Recovery
  imports Ucof_Exp2_Properties "HOL-Library.Product_Lexorder"
begin

text \<open>
  \<open>exp0002_recovery.rs\<close>: the bounded scan for strictly valid prefixes of a damaged or interrupted file and the walk
  along the chain of previous footers. The order of the report compares sequence and footer offset, both
  descending; equal keys cannot occur, since the candidates end at different offsets.
\<close>

section \<open>Model\<close>

record exp0002_recovery_limits =
  xr_max_scan_bytes :: usize
  xr_max_magic_matches :: usize
  xr_max_candidate_validations :: usize
  xr_max_results :: usize
  xr_max_chain_depth :: usize

definition exp0002_recovery_limits_default :: exp0002_recovery_limits where
  "exp0002_recovery_limits_default = \<lparr>xr_max_scan_bytes = 4194304, xr_max_magic_matches = 4096, xr_max_candidate_validations = 256,
     xr_max_results = 64, xr_max_chain_depth = 64\<rparr>"

record exp0002_recovered_candidate =
  xc_footer_offset :: u64
  xc_prefix_len :: usize
  xc_sequence :: u64
  xc_snapshot_digest :: bytes

record exp0002_recovery_report =
  xp_bytes_scanned :: usize
  xp_magic_matches :: usize
  xp_candidates_validated :: usize
  xp_candidates :: "exp0002_recovered_candidate list"

definition xp_latest :: "exp0002_recovery_report \<Rightarrow> exp0002_recovered_candidate option" where
  "xp_latest report = (case xp_candidates report of [] \<Rightarrow> None | c # cs \<Rightarrow> Some c)"

definition candidate_from_verified :: "usize \<Rightarrow> verified_exp0002 \<Rightarrow> exp0002_recovered_candidate" where
  "candidate_from_verified prefix_len verified = \<lparr>xc_footer_offset = vx_footer_offset verified, xc_prefix_len = prefix_len,
     xc_sequence = xf_sequence (vx_footer verified), xc_snapshot_digest = xf_snapshot_digest (vx_footer verified)\<rparr>"

fun scan_prefixes :: "(bytes \<Rightarrow> bytes) \<Rightarrow> bytes \<Rightarrow> validation_limits \<Rightarrow> exp0002_recovery_limits \<Rightarrow> usize list \<Rightarrow> usize \<Rightarrow> usize
    \<Rightarrow> exp0002_recovered_candidate list \<Rightarrow> (usize \<times> usize \<times> exp0002_recovered_candidate list) x2_result" where
  "scan_prefixes sha bytes vl rl [] magic_matches validated candidates = Inr (magic_matches, validated, candidates)"
| "scan_prefixes sha bytes vl rl (offset # offsets) magic_matches validated candidates =
     (if slice bytes offset (offset + 8) \<noteq> X2_FOOTER_MAGIC then scan_prefixes sha bytes vl rl offsets magic_matches validated candidates else
      and_then (ok_or X2ArithmeticOverflow (usize_checked_add magic_matches 1)) (\<lambda>magic_matches.
      if magic_matches > xr_max_magic_matches rl then Inl (X2ResourceLimit ''recovery magic matches'') else
      and_then (ok_or X2ArithmeticOverflow (usize_checked_add offset X2_FOOTER_LEN)) (\<lambda>prefix_len.
      if prefix_len > length bytes then scan_prefixes sha bytes vl rl offsets magic_matches validated candidates else
      and_then (ok_or X2ArithmeticOverflow (usize_checked_add validated 1)) (\<lambda>validated.
      if validated > xr_max_candidate_validations rl then Inl (X2ResourceLimit ''recovery candidate validations'') else
      (case validate_strict sha (take prefix_len bytes) vl of
         Inr verified \<Rightarrow>
           let candidates = candidates @ [candidate_from_verified prefix_len verified] in
           if length candidates > xr_max_results rl then Inl (X2ResourceLimit ''recovery results'')
           else scan_prefixes sha bytes vl rl offsets magic_matches validated candidates
       | Inl e \<Rightarrow> scan_prefixes sha bytes vl rl offsets magic_matches validated candidates)))))"

definition newest_first :: "exp0002_recovered_candidate \<Rightarrow> int \<times> int" where
  "newest_first c = (- uint (xc_sequence c), - uint (xc_footer_offset c))"

definition scan_valid_prefixes :: "(bytes \<Rightarrow> bytes) \<Rightarrow> bytes \<Rightarrow> validation_limits \<Rightarrow> exp0002_recovery_limits \<Rightarrow> exp0002_recovery_report x2_result" where
  "scan_valid_prefixes sha bytes vl rl =
     (let scan_start = length bytes - xr_max_scan_bytes rl;
          bytes_scanned = length bytes - scan_start in
      and_then (if length bytes \<ge> 8 then scan_prefixes sha bytes vl rl (rev [scan_start..<length bytes - 8 + 1]) 0 0 [] else Inr (0, 0, []))
        (\<lambda>(magic_matches, validated, candidates).
      Inr \<lparr>xp_bytes_scanned = bytes_scanned, xp_magic_matches = magic_matches, xp_candidates_validated = validated,
        xp_candidates = sort_key newest_first candidates\<rparr>))"

definition current_parent_digest :: "(bytes \<Rightarrow> bytes) \<Rightarrow> bytes \<Rightarrow> exp0002_recovered_candidate \<Rightarrow> bytes x2_result" where
  "current_parent_digest sha bytes current =
     and_then (validate_strict sha (take (xc_prefix_len current) bytes)
         (validation_limits_default\<lparr>vl_max_file_bytes := of_nat (xc_prefix_len current)\<rparr>)) (\<lambda>verified.
     Inr (xs_parent_snapshot_digest (vx_snapshot verified)))"

function x2_chain_loop :: "(bytes \<Rightarrow> bytes) \<Rightarrow> bytes \<Rightarrow> validation_limits \<Rightarrow> exp0002_recovery_limits \<Rightarrow> exp0002_recovered_candidate \<Rightarrow> u64 \<Rightarrow> u64 set
    \<Rightarrow> exp0002_recovered_candidate list \<Rightarrow> exp0002_recovered_candidate list x2_result" where
  "x2_chain_loop sha bytes vl rl current previous_offset seen chain =
     (if previous_offset = ABSENT_OFFSET then Inr chain else
      if length chain \<ge> xr_max_chain_depth rl then Inl (X2ResourceLimit ''recovery chain depth'') else
      if previous_offset \<in> seen then Inl X2InvalidPreviousFooter else
      let seen = insert previous_offset seen in
      and_then (ok_or X2ArithmeticOverflow (usize_try_from previous_offset)) (\<lambda>offset.
      and_then (ok_or X2ArithmeticOverflow (usize_checked_add offset X2_FOOTER_LEN)) (\<lambda>prefix_len.
      if prefix_len > length bytes \<or> previous_offset \<ge> xc_footer_offset current then Inl X2InvalidPreviousFooter else
      and_then (validate_strict sha (take prefix_len bytes) vl) (\<lambda>verified.
      and_then (current_parent_digest sha bytes current) (\<lambda>parent_digest.
      if xf_snapshot_digest (vx_footer verified) \<noteq> parent_digest then Inl X2InvalidParent else
      and_then (ok_or X2ArithmeticOverflow (checked_add (xf_sequence (vx_footer verified)) 1)) (\<lambda>sequence.
      if sequence \<noteq> xc_sequence current then Inl X2InvalidParent else
      x2_chain_loop sha bytes vl rl (candidate_from_verified prefix_len verified) (xf_previous_footer_offset (vx_footer verified)) seen
        (chain @ [candidate_from_verified prefix_len verified])))))))"
  by pat_completeness auto
termination
  by (relation "measure (\<lambda>(sha, bytes, vl, rl, current, p, seen, chain). xr_max_chain_depth rl - length chain)") auto

declare x2_chain_loop.simps [simp del]

definition enumerate_previous_chain :: "(bytes \<Rightarrow> bytes) \<Rightarrow> bytes \<Rightarrow> verified_exp0002 \<Rightarrow> validation_limits \<Rightarrow> exp0002_recovery_limits
    \<Rightarrow> exp0002_recovered_candidate list x2_result" where
  "enumerate_previous_chain sha bytes exact_end vl rl =
     (let current = candidate_from_verified (length bytes) exact_end in
      x2_chain_loop sha bytes vl rl current (xf_previous_footer_offset (vx_footer exact_end)) {vx_footer_offset exact_end} [current])"

section \<open>The scan\<close>

definition magic_at :: "bytes \<Rightarrow> usize \<Rightarrow> bool" where
  "magic_at bs offset \<longleftrightarrow> slice bs offset (offset + 8) = X2_FOOTER_MAGIC"

definition candidate_of :: "(bytes \<Rightarrow> bytes) \<Rightarrow> bytes \<Rightarrow> validation_limits \<Rightarrow> usize \<Rightarrow> exp0002_recovered_candidate option" where
  "candidate_of sha bs vl offset = (case validate_strict sha (take (offset + X2_FOOTER_LEN) bs) vl of
     Inl e \<Rightarrow> None | Inr v \<Rightarrow> Some (candidate_from_verified (offset + X2_FOOTER_LEN) v))"

abbreviation complete_footers :: "bytes \<Rightarrow> usize list \<Rightarrow> usize list" where
  "complete_footers bs os \<equiv> filter (\<lambda>offset. magic_at bs offset \<and> offset + X2_FOOTER_LEN \<le> length bs) os"

lemma scan_prefixes_exact:
  assumes "length bs < 2 ^ 64 - X2_FOOTER_LEN" and "\<forall>offset \<in> set os. offset < length bs" and "mm + length os < 2 ^ 64" and "cv + length os < 2 ^ 64"
    and "mm \<le> xr_max_magic_matches rl" and "cv \<le> xr_max_candidate_validations rl" and "length cs \<le> xr_max_results rl"
  shows "scan_prefixes sha bs vl rl os mm cv cs = Inr (mm', cv', cs') \<longleftrightarrow>
    mm' = mm + length (filter (magic_at bs) os) \<and> mm' \<le> xr_max_magic_matches rl \<and>
    cv' = cv + length (complete_footers bs os) \<and> cv' \<le> xr_max_candidate_validations rl \<and>
    cs' = cs @ List.map_filter (candidate_of sha bs vl) (complete_footers bs os) \<and> length cs' \<le> xr_max_results rl"
  using assms(2-7)
proof (induction os arbitrary: mm cv cs)
  case Nil
  then show ?case by (auto simp: List.map_filter_def)
next
  case (Cons o' os)
  have "o' + 160 < 2 ^ 64" "mm + 1 < 2 ^ 64" "cv + 1 < 2 ^ 64" using Cons.prems(1-3) assms(1) by simp_all
  then have calc: "usize_checked_add o' 160 = Some (o' + 160)" "usize_checked_add mm 1 = Some (mm + 1)" "usize_checked_add cv 1 = Some (cv + 1)"
    by (simp_all add: usize_checked_add_def)
  consider (skip) "\<not> magic_at bs o'" | (many) "magic_at bs o'" "xr_max_magic_matches rl < mm + 1"
    | (short) "magic_at bs o'" "mm + 1 \<le> xr_max_magic_matches rl" "length bs < o' + 160"
    | (full) "magic_at bs o'" "mm + 1 \<le> xr_max_magic_matches rl" "o' + 160 \<le> length bs" "xr_max_candidate_validations rl < cv + 1"
    | (check) "magic_at bs o'" "mm + 1 \<le> xr_max_magic_matches rl" "o' + 160 \<le> length bs" "cv + 1 \<le> xr_max_candidate_validations rl"
    by linarith
  then show ?case
  proof cases
    case skip
    then show ?thesis using Cons.IH [of mm cv cs] Cons.prems by (simp add: magic_at_def)
  next
    case many
    then show ?thesis using calc by (auto simp: magic_at_def)
  next
    case short
    then show ?thesis using calc Cons.IH [of "mm + 1" cv cs] Cons.prems by (simp add: magic_at_def)
  next
    case full
    then show ?thesis using calc by (auto simp: magic_at_def)
  next
    case check
    show ?thesis
    proof (cases "validate_strict sha (take (o' + 160) bs) vl")
      case (Inl e)
      then have "candidate_of sha bs vl o' = None" by (simp add: candidate_of_def)
      then show ?thesis using check calc Inl Cons.IH [of "mm + 1" "cv + 1" cs] Cons.prems by (simp add: magic_at_def List.map_filter_simps)
    next
      case (Inr v)
      let ?c = "candidate_from_verified (o' + 160) v"
      have c: "candidate_of sha bs vl o' = Some ?c" using Inr by (simp add: candidate_of_def)
      show ?thesis
      proof (cases "length cs + 1 \<le> xr_max_results rl")
        case True
        then show ?thesis using check calc Inr c Cons.IH [of "mm + 1" "cv + 1" "cs @ [?c]"] Cons.prems by (simp add: magic_at_def List.map_filter_simps)
      next
        case False
        then show ?thesis using check calc Inr c by (auto simp: magic_at_def List.map_filter_simps)
      qed
    qed
  qed
qed

text \<open>A strictly valid prefix ends with a footer, so its magic is where the scan looks for it.\<close>

lemma footer_parse_magic: "footer_parse bs = Inr f \<Longrightarrow> length bs = X2_FOOTER_LEN \<and> slice bs 0 8 = X2_FOOTER_MAGIC"
  by (auto simp: footer_parse_def result_simps split: if_splits)

lemma valid_prefix_magic:
  assumes "validate_strict sha (take n bs) vl = Inr v" and "n \<le> length bs"
  shows "224 \<le> n" "magic_at bs (n - X2_FOOTER_LEN)" "unat (vx_footer_offset v) = n - X2_FOOTER_LEN"
proof -
  have cv: "64 \<le> unat (vx_footer_offset v)" "unat (vx_footer_offset v) + 160 = n" "footer_parse (drop (unat (vx_footer_offset v)) (take n bs)) = Inr (vx_footer v)"
    using validate_strict_valid [OF assms(1)] assms(2) by (simp_all add: commit_valid_def Let_def min_absorb2)
  then show "224 \<le> n" "unat (vx_footer_offset v) = n - X2_FOOTER_LEN" by simp_all
  have "slice (drop (unat (vx_footer_offset v)) (take n bs)) 0 8 = X2_FOOTER_MAGIC" using footer_parse_magic [OF cv(3)] by simp
  moreover have "slice (drop (unat (vx_footer_offset v)) (take n bs)) 0 8 = slice bs (n - 160) (n - 160 + 8)"
    using cv(2) assms(2) by (auto simp: slice_def take_drop min_def)
  ultimately show "magic_at bs (n - X2_FOOTER_LEN)" by (simp add: magic_at_def)
qed

definition scan_window :: "bytes \<Rightarrow> exp0002_recovery_limits \<Rightarrow> usize list" where
  "scan_window bs rl = rev [length bs - xr_max_scan_bytes rl..<length bs - 7]"

lemma scan_valid_prefixes_Ok:
  assumes "length bs + X2_FOOTER_LEN < 2 ^ 64"
  shows "scan_valid_prefixes sha bs vl rl = Inr report \<longleftrightarrow> length (filter (magic_at bs) (scan_window bs rl)) \<le> xr_max_magic_matches rl \<and>
    length (complete_footers bs (scan_window bs rl)) \<le> xr_max_candidate_validations rl \<and>
    length (List.map_filter (candidate_of sha bs vl) (complete_footers bs (scan_window bs rl))) \<le> xr_max_results rl \<and>
    report = \<lparr>xp_bytes_scanned = min (length bs) (xr_max_scan_bytes rl), xp_magic_matches = length (filter (magic_at bs) (scan_window bs rl)),
      xp_candidates_validated = length (complete_footers bs (scan_window bs rl)),
      xp_candidates = sort_key newest_first (List.map_filter (candidate_of sha bs vl) (complete_footers bs (scan_window bs rl)))\<rparr>"
proof -
  have n: "length bs - (length bs - xr_max_scan_bytes rl) = min (length bs) (xr_max_scan_bytes rl)" by simp
  show ?thesis
  proof (cases "8 \<le> length bs")
    case True
    have w: "rev [length bs - xr_max_scan_bytes rl..<length bs - 8 + 1] = scan_window bs rl" using True by (simp add: scan_window_def Suc_diff_le [symmetric])
    have lt: "\<forall>offset \<in> set (scan_window bs rl). offset < length bs" "length (scan_window bs rl) < 2 ^ 64" using assms True by (auto simp: scan_window_def)
    have exact: "scan_prefixes sha bs vl rl (scan_window bs rl) 0 0 [] = Inr (mm', cv', cs') \<longleftrightarrow>
      mm' = length (filter (magic_at bs) (scan_window bs rl)) \<and> mm' \<le> xr_max_magic_matches rl \<and>
      cv' = length (complete_footers bs (scan_window bs rl)) \<and> cv' \<le> xr_max_candidate_validations rl \<and>
      cs' = List.map_filter (candidate_of sha bs vl) (complete_footers bs (scan_window bs rl)) \<and> length cs' \<le> xr_max_results rl" for mm' cv' cs'
      using scan_prefixes_exact [of bs "scan_window bs rl" 0 0 rl "[]" sha vl mm' cv' cs'] assms lt by simp
    show ?thesis unfolding scan_valid_prefixes_def Let_def w n using True exact by (auto simp: result_simps)
  next
    case False
    then show ?thesis unfolding scan_valid_prefixes_def Let_def n by (auto simp: result_simps scan_window_def List.map_filter_def)
  qed
qed

lemma scanned_candidates:
  assumes "length bs + X2_FOOTER_LEN < 2 ^ 64"
  shows "c \<in> set (List.map_filter (candidate_of sha bs vl) (complete_footers bs (scan_window bs rl))) \<longleftrightarrow>
    (\<exists>n v. n \<le> length bs \<and> length bs + X2_FOOTER_LEN \<le> n + xr_max_scan_bytes rl \<and> validate_strict sha (take n bs) vl = Inr v \<and> c = candidate_from_verified n v)" (is "?l \<longleftrightarrow> ?r")
proof
  assume ?l
  then obtain o' where o': "o' \<in> set (scan_window bs rl)" "o' + 160 \<le> length bs" "candidate_of sha bs vl o' = Some c"
    by (auto simp: List.map_filter_def)
  then obtain v where v: "validate_strict sha (take (o' + 160) bs) vl = Inr v" "c = candidate_from_verified (o' + 160) v"
    by (auto simp: candidate_of_def split: sum.splits)
  have "length bs - xr_max_scan_bytes rl \<le> o'" using o'(1) by (simp add: scan_window_def)
  then show ?r using o'(2) v by (intro exI [of _ "o' + 160"] exI [of _ v]) simp
next
  assume ?r
  then obtain n v where n: "n \<le> length bs" "length bs + 160 \<le> n + xr_max_scan_bytes rl" and v: "validate_strict sha (take n bs) vl = Inr v" "c = candidate_from_verified n v"
    by blast
  note m = valid_prefix_magic [OF v(1) n(1)]
  have "n - 160 \<in> set (complete_footers bs (scan_window bs rl))" using m(1,2) n by (auto simp: scan_window_def)
  moreover have "candidate_of sha bs vl (n - 160) = Some c" using v m(1) by (simp add: candidate_of_def)
  ultimately show ?l by (force simp: List.map_filter_def)
qed

text \<open>
  C23. Recovery: the scan returns a report exactly when the magic matches, the complete footers and the valid candidates of
  its window stay within the limits. The report then lists exactly the prefixes of the file that are strictly
  valid and whose footer begins in the window, ordered from the newest sequence and the last footer backwards.
\<close>

theorem exp2_scan_exact:
  assumes "length bs + X2_FOOTER_LEN < 2 ^ 64"
  shows "((\<exists>report. scan_valid_prefixes sha bs vl rl = Inr report) \<longleftrightarrow>
      length (filter (magic_at bs) (scan_window bs rl)) \<le> xr_max_magic_matches rl \<and>
      length (complete_footers bs (scan_window bs rl)) \<le> xr_max_candidate_validations rl \<and>
      length (List.map_filter (candidate_of sha bs vl) (complete_footers bs (scan_window bs rl))) \<le> xr_max_results rl) \<and>
    (\<forall>report. scan_valid_prefixes sha bs vl rl = Inr report \<longrightarrow> sorted (map newest_first (xp_candidates report)) \<and>
      set (xp_candidates report) = {c. \<exists>n v. n \<le> length bs \<and> length bs + X2_FOOTER_LEN \<le> n + xr_max_scan_bytes rl \<and>
        validate_strict sha (take n bs) vl = Inr v \<and> c = candidate_from_verified n v})"
proof (intro conjI allI impI)
  show "(\<exists>report. scan_valid_prefixes sha bs vl rl = Inr report) \<longleftrightarrow>
      length (filter (magic_at bs) (scan_window bs rl)) \<le> xr_max_magic_matches rl \<and>
      length (complete_footers bs (scan_window bs rl)) \<le> xr_max_candidate_validations rl \<and>
      length (List.map_filter (candidate_of sha bs vl) (complete_footers bs (scan_window bs rl))) \<le> xr_max_results rl"
    unfolding scan_valid_prefixes_Ok [OF assms] by blast
next
  fix report assume "scan_valid_prefixes sha bs vl rl = Inr report"
  then have r: "xp_candidates report = sort_key newest_first (List.map_filter (candidate_of sha bs vl) (complete_footers bs (scan_window bs rl)))"
    unfolding scan_valid_prefixes_Ok [OF assms] by simp
  show "sorted (map newest_first (xp_candidates report))" unfolding r by simp
  show "set (xp_candidates report) = {c. \<exists>n v. n \<le> length bs \<and> length bs + X2_FOOTER_LEN \<le> n + xr_max_scan_bytes rl \<and>
        validate_strict sha (take n bs) vl = Inr v \<and> c = candidate_from_verified n v}"
    unfolding r set_sort using scanned_candidates [OF assms] by blast
qed

definition x2_sample_recovery :: exp0002_recovery_limits where
  "x2_sample_recovery = \<lparr>xr_max_scan_bytes = 1000000, xr_max_magic_matches = 1000000, xr_max_candidate_validations = 1000000,
     xr_max_results = 1000000, xr_max_chain_depth = 64\<rparr>"

lemma length_map_filter: "length (List.map_filter f xs) \<le> length xs"
  by (simp add: List.map_filter_def)

theorem exp2_scan_exact_witness:
  "\<exists>fil v report. build_genesis x2_sample_sha x2_sample_header x2_sample_objects = Inr fil \<and>
    validate_strict x2_sample_sha fil validation_limits_default = Inr v \<and>
    scan_valid_prefixes x2_sample_sha (fil @ [0, 0, 0]) validation_limits_default x2_sample_recovery = Inr report \<and>
    candidate_from_verified (length fil) v \<in> set (xp_candidates report)"
proof -
  obtain fil v where fil: "build_genesis x2_sample_sha x2_sample_header x2_sample_objects = Inr fil" "length fil \<le> 70000"
    and v: "validate_strict x2_sample_sha fil validation_limits_default = Inr v" using x2_sample_file by blast
  let ?bs = "fil @ [0, 0, 0]"
  have lt: "length ?bs + X2_FOOTER_LEN < 2 ^ 64" using fil(2) by simp
  have win: "length (scan_window ?bs x2_sample_recovery) \<le> 1000000" using fil(2) by (simp add: scan_window_def)
  have le: "length (filter P (scan_window ?bs x2_sample_recovery)) \<le> 1000000" for P using win length_filter_le order.trans by blast
  note exact = exp2_scan_exact [OF lt, of x2_sample_sha validation_limits_default x2_sample_recovery]
  have lim: "xr_max_magic_matches x2_sample_recovery = 1000000" "xr_max_candidate_validations x2_sample_recovery = 1000000"
    "xr_max_results x2_sample_recovery = 1000000" "xr_max_scan_bytes x2_sample_recovery = 1000000" by (simp_all add: x2_sample_recovery_def)
  have "\<exists>report. scan_valid_prefixes x2_sample_sha ?bs validation_limits_default x2_sample_recovery = Inr report"
    by (rule exact [THEN conjunct1, THEN iffD2]) (simp only: lim le order.trans [OF length_map_filter le] simp_thms)
  then obtain report where report: "scan_valid_prefixes x2_sample_sha ?bs validation_limits_default x2_sample_recovery = Inr report" by blast
  have set: "set (xp_candidates report) = {c. \<exists>n v. n \<le> length ?bs \<and> length ?bs + X2_FOOTER_LEN \<le> n + xr_max_scan_bytes x2_sample_recovery \<and>
        validate_strict x2_sample_sha (take n ?bs) validation_limits_default = Inr v \<and> c = candidate_from_verified n v}"
    using exact report by blast
  have "validate_strict x2_sample_sha (take (length fil) ?bs) validation_limits_default = Inr v" "length fil \<le> length ?bs"
    "length ?bs + X2_FOOTER_LEN \<le> length fil + xr_max_scan_bytes x2_sample_recovery" using v fil(2) by (simp_all add: lim)
  then have "candidate_from_verified (length fil) v \<in> set (xp_candidates report)" unfolding set by blast
  then show ?thesis using fil(1) v report by blast
qed

section \<open>The chain of previous footers\<close>

definition valid_candidate :: "(bytes \<Rightarrow> bytes) \<Rightarrow> bytes \<Rightarrow> validation_limits \<Rightarrow> exp0002_recovered_candidate \<Rightarrow> bool" where
  "valid_candidate sha bs vl c \<longleftrightarrow> xc_prefix_len c \<le> length bs \<and>
     (\<exists>v. validate_strict sha (take (xc_prefix_len c) bs) vl = Inr v \<and> c = candidate_from_verified (xc_prefix_len c) v)"

lemma chain_loop_sound:
  assumes "x2_chain_loop sha bs vl rl current previous seen chain = Inr chain'" and "validate_strict sha (take n bs) vl = Inr v" and "n \<le> length bs"
    and "current = candidate_from_verified n v" and "previous = xf_previous_footer_offset (vx_footer v)"
  shows "\<exists>rest. chain' = chain @ rest \<and> map (\<lambda>c. unat (xc_sequence c)) (current # rest) = rev [0..<Suc (unat (xc_sequence current))] \<and>
    sorted_wrt (\<lambda>c d. xc_prefix_len d < xc_prefix_len c) (current # rest) \<and> (\<forall>c \<in> set rest. valid_candidate sha bs vl c)"
  using assms
proof (induction sha bs vl rl current previous seen chain arbitrary: n v rule: x2_chain_loop.induct)
  case (1 sha bs vl rl current previous seen chain)
  show ?case
  proof (cases "previous = ABSENT_OFFSET")
    case True
    have "commit_parent (take n bs) (xf_sequence (vx_footer v)) (xs_parent_snapshot_digest (vx_snapshot v)) previous (xf_commit_start (vx_footer v))"
      using validate_strict_valid [OF "1.prems"(2)] "1.prems"(5) by (simp add: commit_valid_def Let_def)
    then have "xc_sequence current = 0" using True "1.prems"(4) by (simp add: commit_parent_def candidate_from_verified_def)
    then show ?thesis using "1.prems"(1) True by (simp add: x2_chain_loop.simps)
  next
    case False
    with "1.prems"(1) obtain m w where not: "\<not> xr_max_chain_depth rl \<le> length chain" "previous \<notin> seen"
      and m: "usize_checked_add (unat previous) 160 = Some m" "\<not> (length bs < m \<or> xc_footer_offset current \<le> previous)"
      and w: "validate_strict sha (take m bs) vl = Inr w"
      and pd: "current_parent_digest sha bs current = Inr (xf_snapshot_digest (vx_footer w))"
      and sq: "checked_add (xf_sequence (vx_footer w)) 1 = Some (xc_sequence current)"
      and rest: "x2_chain_loop sha bs vl rl (candidate_from_verified m w) (xf_previous_footer_offset (vx_footer w)) (insert previous seen)
        (chain @ [candidate_from_verified m w]) = Inr chain'"
      by (subst (asm) x2_chain_loop.simps) (auto simp: result_simps Let_def usize_try_from_def split: if_splits)
    let ?c = "candidate_from_verified m w"
    have calc: "ok_or X2ArithmeticOverflow (usize_try_from previous) = Inr (unat previous)" "ok_or X2ArithmeticOverflow (usize_checked_add (unat previous) 160) = Inr m"
      "ok_or X2ArithmeticOverflow (checked_add (xf_sequence (vx_footer w)) 1) = Inr (xc_sequence current)"
      using m(1) sq by (simp_all add: usize_try_from_def)
    have le: "m \<le> length bs" using m(2) by simp
    obtain r where r: "chain' = (chain @ [?c]) @ r" "map (\<lambda>c. unat (xc_sequence c)) (?c # r) = rev [0..<Suc (unat (xc_sequence ?c))]"
      "sorted_wrt (\<lambda>c d. xc_prefix_len d < xc_prefix_len c) (?c # r)" "\<forall>c \<in> set r. valid_candidate sha bs vl c"
      using "1.IH" [OF False not refl calc(1,2) m(2) w pd _ calc(3) _ rest w le refl refl] by auto
    have seq: "unat (xc_sequence current) = Suc (unat (xc_sequence ?c))" using sq by (simp add: checked_add_Some_iff candidate_from_verified_def)
    have "xc_footer_offset current = vx_footer_offset v" "xc_prefix_len current = n" "xc_prefix_len ?c = m" by (simp_all add: "1.prems"(4) candidate_from_verified_def)
    moreover have "m = unat previous + 160" using m(1) by (simp add: usize_checked_add_def split: if_splits)
    moreover have "unat (vx_footer_offset v) + 160 = n" using valid_prefix_magic [OF "1.prems"(2,3)] by simp
    moreover have "unat previous < unat (xc_footer_offset current)" using m(2) by (simp add: word_less_nat_alt not_le)
    ultimately have len: "xc_prefix_len ?c < xc_prefix_len current" by simp
    then have srt: "sorted_wrt (\<lambda>c d. xc_prefix_len d < xc_prefix_len c) (current # ?c # r)" using r(3) by auto
    have "valid_candidate sha bs vl ?c" using w le by (auto simp: valid_candidate_def candidate_from_verified_def)
    then show ?thesis using r srt seq by (intro exI [of _ "?c # r"]) simp
  qed
qed

text \<open>
  C40. The chain of a strictly valid file: \<open>enumerate_previous_chain\<close> lists the commits from the latest to the first one,
  one for every sequence number from the latest down to zero, each a strictly valid prefix of the file that is shorter than
  the one before it.
\<close>

theorem exp2_chain_sound:
  assumes "validate_strict sha bs vl = Inr v" and "enumerate_previous_chain sha bs v vl rl = Inr chain"
  shows "map (\<lambda>c. unat (xc_sequence c)) chain = rev [0..<Suc (unat (xs_sequence (vx_snapshot v)))] \<and>
    sorted_wrt (\<lambda>c d. xc_prefix_len d < xc_prefix_len c) chain \<and> (\<forall>c \<in> set chain. valid_candidate sha bs vl c) \<and>
    hd chain = candidate_from_verified (length bs) v"
proof -
  let ?c = "candidate_from_verified (length bs) v"
  have v: "validate_strict sha (take (length bs) bs) vl = Inr v" using assms(1) by simp
  obtain rest where r: "chain = [?c] @ rest" "map (\<lambda>c. unat (xc_sequence c)) (?c # rest) = rev [0..<Suc (unat (xc_sequence ?c))]"
    "sorted_wrt (\<lambda>c d. xc_prefix_len d < xc_prefix_len c) (?c # rest)" "\<forall>c \<in> set rest. valid_candidate sha bs vl c"
    using chain_loop_sound [OF assms(2) [unfolded enumerate_previous_chain_def Let_def] v order.refl refl refl] by blast
  have "xc_sequence ?c = xs_sequence (vx_snapshot v)"
    using validate_strict_valid [OF assms(1)] by (simp add: commit_valid_def Let_def candidate_from_verified_def)
  moreover have "valid_candidate sha bs vl ?c" using v by (auto simp: valid_candidate_def candidate_from_verified_def)
  ultimately show ?thesis using r by simp
qed

theorem exp2_chain_sound_witness:
  "\<exists>fil v. build_genesis x2_sample_sha x2_sample_header x2_sample_objects = Inr fil \<and> validate_strict x2_sample_sha fil validation_limits_default = Inr v \<and>
    enumerate_previous_chain x2_sample_sha fil v validation_limits_default x2_sample_recovery = Inr [candidate_from_verified (length fil) v] \<and>
    valid_candidate x2_sample_sha fil validation_limits_default (candidate_from_verified (length fil) v)"
proof -
  obtain fil v where fil: "build_genesis x2_sample_sha x2_sample_header x2_sample_objects = Inr fil"
    and v: "validate_strict x2_sample_sha fil validation_limits_default = Inr v" "xs_sequence (vx_snapshot v) = 0" using x2_sample_file by blast
  have "commit_parent fil (xf_sequence (vx_footer v)) (xs_parent_snapshot_digest (vx_snapshot v)) (xf_previous_footer_offset (vx_footer v)) (xf_commit_start (vx_footer v))"
    using validate_strict_valid [OF v(1)] by (simp add: commit_valid_def Let_def)
  moreover have "xf_sequence (vx_footer v) = 0" using validate_strict_valid [OF v(1)] v(2) by (simp add: commit_valid_def Let_def)
  ultimately have "xf_previous_footer_offset (vx_footer v) = ABSENT_OFFSET" by (auto simp: commit_parent_def checked_add_Some_iff)
  then have chain: "enumerate_previous_chain x2_sample_sha fil v validation_limits_default x2_sample_recovery = Inr [candidate_from_verified (length fil) v]"
    by (simp add: enumerate_previous_chain_def x2_chain_loop.simps Let_def)
  show ?thesis using fil v(1) chain exp2_chain_sound [OF v(1) chain] by auto
qed

end
