(* ===== verification/Ucof_Exp2_Lookup.thy ===== *)
theory Ucof_Exp2_Lookup
  imports Ucof_Exp2_Properties
begin

text \<open>
  \<open>exp0002_lookup.rs\<close>: authenticated lookup of one object, which verifies the commit, the snapshot, one path of
  directory pages and the selected record. The file repeats the readers, range checks and digests of
  \<open>exp0002.rs\<close> word for word; their models are shared. A closure over \<open>footer[a..b]\<close> is a slice.
\<close>

section \<open>Data\<close>

record authenticated_lookup_limits =
  al_validation :: validation_limits
  al_max_page_reads :: usize

definition authenticated_lookup_limits_default :: authenticated_lookup_limits where
  "authenticated_lookup_limits_default = \<lparr>al_validation = validation_limits_default, al_max_page_reads = 32\<rparr>"

record authenticated_object_lookup =
  au_object_id :: u64
  au_kind :: u16
  au_record_offset :: u64
  au_record_len :: u64
  au_payload_offset :: u64
  au_payload_len :: u64
  au_logical_len :: u64
  au_sequence :: u64
  au_pages_read :: usize
  au_bytes_hashed :: u64

record lookup_expected_page =
  lx_offset :: u64
  lx_digest :: bytes
  lx_level :: u16
  lx_minimum :: "u64 option"
  lx_maximum :: "u64 option"

record selected_leaf =
  sl_object_id :: u64
  sl_kind :: u16
  sl_record_offset :: u64
  sl_record_len :: u64
  sl_logical_len :: u64
  sl_digest :: bytes

record lookup_page_header =
  lh_kind :: u8
  lh_level :: u8
  lh_count :: usize
  lh_entry_size :: usize
  lh_minimum :: u64
  lh_maximum :: u64

section \<open>Pages\<close>

definition check_hashed :: "u64 \<Rightarrow> authenticated_lookup_limits \<Rightarrow> unit x2_result" where
  "check_hashed bytes_hashed lim = (if bytes_hashed > vl_max_hashed_bytes (al_validation lim) then Inl (X2ResourceLimit ''hashed bytes'') else Inr ())"

definition lookup_parse_page_header :: "bytes \<Rightarrow> u64 \<Rightarrow> lookup_page_header x2_result" where
  "lookup_parse_page_header page sequence =
     (if length page \<noteq> PAGE_SIZE \<or> slice page 0 4 \<noteq> PAGE_MAGIC then Inl (X2InvalidMagic ''page'') else
      let kind = page ! 4; lev = page ! 5 in
      and_then (read_u16 page 6) (\<lambda>header_len.
      if unat header_len \<noteq> PAGE_HEADER_LEN then Inl (X2InvalidLength ''page header'') else
      and_then (read_u16 page 8) (\<lambda>cnt.
      if unat cnt = 0 then Inl X2InvalidEntryCount else
      and_then (read_u16 page 10) (\<lambda>entry_size.
      and_then (read_u32 page 12) (\<lambda>flags.
      if flags \<noteq> 0 then Inl (X2InvalidFlags ''page'') else
      and_then (read_u64 page 32) (\<lambda>page_sequence.
      if page_sequence \<noteq> sequence then Inl (X2InvalidFlags ''page'') else
      and_then (read_u64 page 16) (\<lambda>minimum.
      and_then (read_u64 page 24) (\<lambda>maximum.
      if minimum = 0 \<or> minimum > maximum then Inl X2InvalidPageRange else
      and_then (require_zero (slice page 40 64) ''page header'') (\<lambda>_.
      Inr \<lparr>lh_kind = kind, lh_level = lev, lh_count = unat cnt, lh_entry_size = unat entry_size, lh_minimum = minimum, lh_maximum = maximum\<rparr>)))))))))"

fun select_leaf_loop :: "bytes \<Rightarrow> u64 \<Rightarrow> usize list \<Rightarrow> u64 option \<Rightarrow> selected_leaf option \<Rightarrow> selected_leaf option x2_result" where
  "select_leaf_loop page object_id [] previous selected = Inr selected"
| "select_leaf_loop page object_id (index # indices) previous selected =
     (let start = PAGE_HEADER_LEN + index * LEAF_ENTRY_LEN; entry = slice page start (start + LEAF_ENTRY_LEN) in
      and_then (read_u64 entry 0) (\<lambda>key.
      if key = 0 \<or> (case previous of None \<Rightarrow> False | Some p \<Rightarrow> p \<ge> key) then Inl X2UnorderedEntries else
      and_then (read_u16 entry 8) (\<lambda>kind.
      if kind = 0 then Inl (X2InvalidFlags ''leaf entry'') else
      and_then (read_u16 entry 10) (\<lambda>flags.
      if flags \<noteq> 0 then Inl (X2InvalidFlags ''leaf entry'') else
      and_then (read_u32 entry 12) (\<lambda>flags.
      if flags \<noteq> 0 then Inl (X2InvalidFlags ''leaf entry'') else
      and_then (require_zero (slice entry 72 88) ''leaf entry'') (\<lambda>_.
      and_then (if key = object_id then
          and_then (read_u16 entry 8) (\<lambda>kind.
          and_then (read_u64 entry 16) (\<lambda>record_offset.
          and_then (read_u64 entry 24) (\<lambda>record_len.
          and_then (read_u64 entry 32) (\<lambda>logical_len.
          and_then (read_array 32 entry 40) (\<lambda>digest.
          Inr (Some \<lparr>sl_object_id = key, sl_kind = kind, sl_record_offset = record_offset, sl_record_len = record_len,
            sl_logical_len = logical_len, sl_digest = digest\<rparr>))))))
        else Inr selected) (\<lambda>selected.
      select_leaf_loop page object_id indices (Some key) selected)))))))"

definition select_leaf :: "bytes \<Rightarrow> lookup_page_header \<Rightarrow> u64 \<Rightarrow> selected_leaf option x2_result" where
  "select_leaf page header object_id =
     (let capacity = (PAGE_SIZE - PAGE_HEADER_LEN) div LEAF_ENTRY_LEN in
      if lh_level header \<noteq> 0 \<or> lh_entry_size header \<noteq> LEAF_ENTRY_LEN \<or> lh_count header > capacity then Inl X2InvalidEntrySize else
      and_then (ok_or X2ArithmeticOverflow (usize_checked_mul (lh_count header) LEAF_ENTRY_LEN)) (\<lambda>entry_bytes.
      and_then (ok_or X2ArithmeticOverflow (usize_checked_add PAGE_HEADER_LEN entry_bytes)) (\<lambda>used.
      and_then (require_zero (drop used page) ''page padding'') (\<lambda>_.
      and_then (select_leaf_loop page object_id [0..<lh_count header] None None) (\<lambda>selected.
      and_then (read_u64 (drop PAGE_HEADER_LEN page) 0) (\<lambda>first.
      if first \<noteq> lh_minimum header then Inl X2InvalidPageRange else
      let last = PAGE_HEADER_LEN + (lh_count header - 1) * LEAF_ENTRY_LEN in
      and_then (read_u64 page last) (\<lambda>maximum.
      if maximum \<noteq> lh_maximum header then Inl X2InvalidPageRange else Inr selected)))))))"

fun select_internal_loop :: "bytes \<Rightarrow> lookup_page_header \<Rightarrow> u64 \<Rightarrow> usize list \<Rightarrow> u64 option \<Rightarrow> lookup_expected_page option \<Rightarrow> u64 option \<Rightarrow> u64 option
    \<Rightarrow> (lookup_expected_page option \<times> u64 option \<times> u64 option) x2_result" where
  "select_internal_loop page header object_id [] previous_max selected first_min last_max = Inr (selected, first_min, last_max)"
| "select_internal_loop page header object_id (index # indices) previous_max selected first_min last_max =
     (let start = PAGE_HEADER_LEN + index * INTERNAL_ENTRY_LEN; entry = slice page start (start + INTERNAL_ENTRY_LEN) in
      and_then (read_u64 entry 0) (\<lambda>minimum.
      and_then (read_u64 entry 8) (\<lambda>maximum.
      if minimum = 0 \<or> minimum > maximum \<or> (case previous_max of None \<Rightarrow> False | Some p \<Rightarrow> p \<ge> minimum) then Inl X2OverlappingRanges else
      and_then (read_u32 entry 24) (\<lambda>page_len.
      if unat page_len \<noteq> PAGE_SIZE then Inl X2InvalidPageReference else
      and_then (read_u16 entry 28) (\<lambda>lev.
      if checked_add lev 1 \<noteq> Some (ucast (lh_level header)) then Inl X2InvalidPageReference else
      and_then (read_u16 entry 30) (\<lambda>flags.
      if flags \<noteq> 0 then Inl X2InvalidPageReference else
      and_then (if minimum \<le> object_id \<and> object_id \<le> maximum then
          and_then (read_u64 entry 16) (\<lambda>offset.
          and_then (read_array 32 entry 32) (\<lambda>digest.
          and_then (read_u16 entry 28) (\<lambda>lev.
          Inr (Some \<lparr>lx_offset = offset, lx_digest = digest, lx_level = lev, lx_minimum = Some minimum, lx_maximum = Some maximum\<rparr>))))
        else Inr selected) (\<lambda>selected.
      select_internal_loop page header object_id indices (Some maximum) selected
        (case first_min of None \<Rightarrow> Some minimum | Some m \<Rightarrow> Some m) (Some maximum))))))))"

definition select_internal :: "bytes \<Rightarrow> lookup_page_header \<Rightarrow> u64 \<Rightarrow> lookup_expected_page option x2_result" where
  "select_internal page header object_id =
     (let capacity = (PAGE_SIZE - PAGE_HEADER_LEN) div INTERNAL_ENTRY_LEN in
      if lh_level header = 0 \<or> lh_entry_size header \<noteq> INTERNAL_ENTRY_LEN \<or> lh_count header > capacity then Inl X2InvalidEntrySize else
      and_then (ok_or X2ArithmeticOverflow (usize_checked_mul (lh_count header) INTERNAL_ENTRY_LEN)) (\<lambda>entry_bytes.
      and_then (ok_or X2ArithmeticOverflow (usize_checked_add PAGE_HEADER_LEN entry_bytes)) (\<lambda>used.
      and_then (require_zero (drop used page) ''page padding'') (\<lambda>_.
      and_then (select_internal_loop page header object_id [0..<lh_count header] None None None None) (\<lambda>(selected, first_min, last_max).
      if first_min \<noteq> Some (lh_minimum header) \<or> last_max \<noteq> Some (lh_maximum header) then Inl X2InvalidPageRange else Inr selected)))))"

section \<open>Records and footers\<close>

definition validate_selected_object :: "(bytes \<Rightarrow> bytes) \<Rightarrow> bytes \<Rightarrow> selected_leaf \<Rightarrow> validation_limits \<Rightarrow> unit x2_result" where
  "validate_selected_object sha record selected lim =
     (if length record < OBJECT_HEADER_LEN \<or> slice record 0 4 \<noteq> OBJECT_MAGIC then Inl (X2InvalidMagic ''object'') else
      and_then (read_u16 record 4) (\<lambda>header_len.
      if unat header_len \<noteq> OBJECT_HEADER_LEN then Inl (X2InvalidLength ''object header'') else
      and_then (read_u16 record 6) (\<lambda>kind.
      if kind \<noteq> sl_kind selected then Inl (X2InvalidLength ''object header'') else
      and_then (read_u32 record 8) (\<lambda>flags.
      if flags \<noteq> 0 then Inl (X2InvalidLength ''object header'') else
      and_then (read_u64 record 12) (\<lambda>object_id.
      if object_id \<noteq> sl_object_id selected then Inl (X2InvalidLength ''object header'') else
      and_then (read_u64 record 20) (\<lambda>payload_len.
      and_then (read_u64 record 28) (\<lambda>logical_len.
      if payload_len \<noteq> logical_len \<or> logical_len \<noteq> sl_logical_len selected \<or> payload_len > vl_max_payload_bytes lim then Inl X2LogicalLengthMismatch else
      and_then (ok_or X2ArithmeticOverflow (checked_add 48 payload_len)) (\<lambda>record_len.
      if record_len \<noteq> sl_record_len selected then Inl X2LogicalLengthMismatch else
      and_then (require_zero (slice record 36 48) ''object'') (\<lambda>_.
      if digest_bytes sha OBJECT_DOMAIN record \<noteq> sl_digest selected then Inl (X2DigestMismatch ''object'') else Inr ())))))))))"

definition validate_footer_structure :: "bytes \<Rightarrow> unit x2_result" where
  "validate_footer_structure footer =
     (if length footer \<noteq> X2_FOOTER_LEN \<or> slice footer 0 8 \<noteq> X2_FOOTER_MAGIC then Inl (X2InvalidMagic ''footer'') else
      and_then (read_u16 footer 8) (\<lambda>len.
      if unat len \<noteq> X2_FOOTER_LEN then Inl X2InvalidVersion else
      and_then (read_u16 footer 10) (\<lambda>version.
      if version \<noteq> 2 then Inl X2InvalidVersion else
      and_then (read_u32 footer 12) (\<lambda>flags.
      if flags \<noteq> 0 then Inl (X2InvalidFlags ''footer'') else
      and_then (read_u16 footer 72) (\<lambda>algorithm.
      if algorithm \<noteq> 1 then Inl (X2InvalidFlags ''footer'') else
      and_then (require_zero (slice footer 74 80) ''footer'') (\<lambda>_.
      require_zero (slice footer 144 160) ''footer''))))))"

definition lookup_validate_parent_link :: "bytes \<Rightarrow> usize \<Rightarrow> u64 \<Rightarrow> u64 \<Rightarrow> u64 \<Rightarrow> bytes \<Rightarrow> unit x2_result" where
  "lookup_validate_parent_link bytes footer_offset commit_start sequence previous_footer_offset parent_snapshot_digest =
     (if previous_footer_offset = ABSENT_OFFSET then
        (if sequence \<noteq> 0 \<or> commit_start \<noteq> 0 \<or> parent_snapshot_digest \<noteq> zeros 32 then Inl X2InvalidParent else Inr ()) else
      and_then (to_u64 footer_offset) (\<lambda>offset.
      if previous_footer_offset \<ge> offset then Inl X2InvalidPreviousFooter else
      and_then (ok_or X2ArithmeticOverflow (checked_add previous_footer_offset 160)) (\<lambda>expected_start.
      if commit_start \<noteq> expected_start then Inl X2InvalidPreviousFooter else
      and_then (x2_checked_range previous_footer_offset 160 (length bytes)) (\<lambda>(start, stop).
      let previous = slice bytes start stop in
      and_then (validate_footer_structure previous) (\<lambda>_.
      and_then (read_u64 previous 48) (\<lambda>previous_sequence.
      and_then (ok_or X2ArithmeticOverflow (checked_add previous_sequence 1)) (\<lambda>next_sequence.
      if next_sequence \<noteq> sequence then Inl X2InvalidParent else
      and_then (read_array 32 previous 80) (\<lambda>digest.
      if digest \<noteq> parent_snapshot_digest then Inl X2InvalidParent else Inr ()))))))))"

section \<open>Lookup\<close>

definition lookup_selected :: "(bytes \<Rightarrow> bytes) \<Rightarrow> bytes \<Rightarrow> authenticated_lookup_limits \<Rightarrow> u64 \<Rightarrow> usize \<times> usize \<Rightarrow> usize \<Rightarrow> usize \<Rightarrow> u64
    \<Rightarrow> (usize \<times> usize) list \<Rightarrow> selected_leaf \<Rightarrow> authenticated_object_lookup option x2_result" where
  "lookup_selected sha bytes lim sequence snapshot_range footer_offset pages_read bytes_hashed page_ranges selected =
     and_then (x2_checked_range (sl_record_offset selected) (sl_record_len selected) (length bytes)) (\<lambda>(start, stop).
     if overlaps_any (start, stop) page_ranges \<or> ranges_overlap (start, stop) snapshot_range \<or> ranges_overlap (start, stop) (footer_offset, length bytes)
     then Inl X2PhysicalOverlap else
     and_then (ok_or X2ArithmeticOverflow (checked_add bytes_hashed (sl_record_len selected))) (\<lambda>bytes_hashed.
     and_then (check_hashed bytes_hashed lim) (\<lambda>_.
     and_then (validate_selected_object sha (slice bytes start stop) selected (al_validation lim)) (\<lambda>_.
     and_then (ok_or X2ArithmeticOverflow (checked_add (sl_record_offset selected) 48)) (\<lambda>payload_offset.
     and_then (ok_or (X2InvalidLength ''object record'') (checked_sub (sl_record_len selected) 48)) (\<lambda>payload_len.
     Inr (Some \<lparr>au_object_id = sl_object_id selected, au_kind = sl_kind selected, au_record_offset = sl_record_offset selected,
       au_record_len = sl_record_len selected, au_payload_offset = payload_offset, au_payload_len = payload_len,
       au_logical_len = sl_logical_len selected, au_sequence = sequence, au_pages_read = pages_read, au_bytes_hashed = bytes_hashed\<rparr>)))))))"

function lookup_pages :: "(bytes \<Rightarrow> bytes) \<Rightarrow> bytes \<Rightarrow> u64 \<Rightarrow> authenticated_lookup_limits \<Rightarrow> u64 \<Rightarrow> usize \<times> usize \<Rightarrow> usize \<Rightarrow> lookup_expected_page \<Rightarrow> usize \<Rightarrow> u64
    \<Rightarrow> (usize \<times> usize) list \<Rightarrow> authenticated_object_lookup option x2_result" where
  "lookup_pages sha bytes object_id lim sequence snapshot_range footer_offset expected pages_read bytes_hashed page_ranges =
     and_then (ok_or X2ArithmeticOverflow (usize_checked_add pages_read 1)) (\<lambda>pages_read.
     if pages_read > al_max_page_reads lim \<or> pages_read > vl_max_page_depth (al_validation lim) \<or> pages_read > vl_max_pages (al_validation lim)
     then Inl (X2ResourceLimit ''lookup pages'') else
     and_then (x2_checked_range (lx_offset expected) 16384 (length bytes)) (\<lambda>(start, stop).
     let page_ranges = page_ranges @ [(start, stop)]; page = slice bytes start stop in
     and_then (ok_or X2ArithmeticOverflow (checked_add bytes_hashed 16384)) (\<lambda>bytes_hashed.
     and_then (check_hashed bytes_hashed lim) (\<lambda>_.
     if digest_bytes sha PAGE_DOMAIN page \<noteq> lx_digest expected then Inl (X2DigestMismatch ''page'') else
     and_then (lookup_parse_page_header page sequence) (\<lambda>header.
     if ucast (lh_level header) \<noteq> lx_level expected \<or> (case lx_minimum expected of None \<Rightarrow> False | Some v \<Rightarrow> v \<noteq> lh_minimum header) \<or>
        (case lx_maximum expected of None \<Rightarrow> False | Some v \<Rightarrow> v \<noteq> lh_maximum header)
     then Inl X2InvalidPageReference else
     if object_id < lh_minimum header \<or> object_id > lh_maximum header then Inr None else
     if lh_kind header = 1 then
       and_then (select_leaf page header object_id) (\<lambda>selected.
       case selected of None \<Rightarrow> Inr None
       | Some selected \<Rightarrow> lookup_selected sha bytes lim sequence snapshot_range footer_offset pages_read bytes_hashed page_ranges selected)
     else if lh_kind header = 2 then
       and_then (select_internal page header object_id) (\<lambda>child.
       case child of None \<Rightarrow> Inr None
       | Some child \<Rightarrow> lookup_pages sha bytes object_id lim sequence snapshot_range footer_offset child pages_read bytes_hashed page_ranges)
     else Inl X2InvalidPageKind)))))"
  by pat_completeness auto
termination
  by (relation "measure (\<lambda>(sha, bytes, i, lim, s, sr, fo, x, n, h, rs). al_max_page_reads lim - n)")
    (auto simp: usize_checked_add_def split: if_splits)

declare lookup_pages.simps [simp del]

definition lookup_authenticated :: "(bytes \<Rightarrow> bytes) \<Rightarrow> bytes \<Rightarrow> u64 \<Rightarrow> authenticated_lookup_limits \<Rightarrow> authenticated_object_lookup option x2_result" where
  "lookup_authenticated sha bytes object_id lim =
     (if object_id = 0 then Inl X2InvalidObjectId else
      and_then (to_u64 (length bytes)) (\<lambda>file_len.
      if file_len > vl_max_file_bytes (al_validation lim) then Inl (X2ResourceLimit ''file bytes'') else
      if length bytes < 64 + X2_FOOTER_LEN then Inl X2Truncated else
      and_then (file_header_parse bytes) (\<lambda>_.
      let footer_offset = length bytes - X2_FOOTER_LEN; footer = drop footer_offset bytes in
      and_then (validate_footer_structure footer) (\<lambda>_.
      and_then (read_u64 footer 16) (\<lambda>commit_start.
      and_then (read_u64 footer 24) (\<lambda>commit_len.
      and_then (read_u64 footer 32) (\<lambda>snapshot_offset.
      and_then (read_u64 footer 40) (\<lambda>snapshot_len.
      and_then (read_u64 footer 48) (\<lambda>sequence.
      and_then (read_u64 footer 56) (\<lambda>previous_footer_offset.
      and_then (read_array 32 footer 80) (\<lambda>snapshot_digest.
      and_then (read_array 32 footer 112) (\<lambda>commit_digest.
      and_then (ok_or X2ArithmeticOverflow (checked_add commit_start commit_len)) (\<lambda>commit_end.
      and_then (to_u64 footer_offset) (\<lambda>footer_start.
      if commit_end \<noteq> footer_start then Inl X2InvalidCommitRange else
      if commit_len > vl_max_commit_bytes (al_validation lim) then Inl (X2ResourceLimit ''commit bytes'') else
      and_then (check_hashed commit_len lim) (\<lambda>_.
      and_then (x2_checked_range commit_start commit_len (length bytes)) (\<lambda>(start, stop).
      if sha (COMMIT_DOMAIN @ slice bytes start stop @ slice footer 8 112) \<noteq> commit_digest then Inl (X2DigestMismatch ''commit'') else
      and_then (x2_checked_range snapshot_offset snapshot_len (length bytes)) (\<lambda>(snapshot_start, snapshot_stop).
      if snapshot_offset < commit_start \<or> snapshot_stop > footer_offset then Inl X2InvalidCommitRange else
      let snapshot_bytes = slice bytes snapshot_start snapshot_stop in
      if digest_bytes sha SNAPSHOT_DOMAIN snapshot_bytes \<noteq> snapshot_digest then Inl (X2DigestMismatch ''snapshot'') else
      and_then (ok_or X2ArithmeticOverflow (checked_add commit_len snapshot_len)) (\<lambda>bytes_hashed.
      and_then (check_hashed bytes_hashed lim) (\<lambda>_.
      and_then (snapshot_parse snapshot_bytes (al_validation lim)) (\<lambda>snapshot.
      if xs_sequence snapshot \<noteq> sequence \<or> xs_previous_footer_offset snapshot \<noteq> previous_footer_offset then Inl X2InvalidSnapshotSequence else
      and_then (lookup_validate_parent_link bytes footer_offset commit_start sequence previous_footer_offset (xs_parent_snapshot_digest snapshot)) (\<lambda>_.
      lookup_pages sha bytes object_id lim sequence (snapshot_start, snapshot_stop) footer_offset
        \<lparr>lx_offset = xs_directory_root_offset snapshot, lx_digest = xs_directory_root_digest snapshot,
          lx_level = xs_directory_root_level snapshot, lx_minimum = None, lx_maximum = None\<rparr> 0 bytes_hashed [])))))))))))))))))))))"

section \<open>Agreement on a page\<close>

lemma leaf_entry_reads:
  assumes "leaf_entry_parse bs = Inr e"
  shows "read_u64 bs 0 = Inr (le_object_id e)" "read_u16 bs 8 = Inr (le_kind e)" "read_u64 bs 16 = Inr (le_record_offset e)" "read_u64 bs 24 = Inr (le_record_len e)"
    "read_u64 bs 32 = Inr (le_logical_len e)" "read_array 32 bs 40 = Inr (le_record_digest e)"
  using assms by (auto simp: leaf_entry_parse_def result_simps split: if_splits)

lemma internal_entry_reads:
  assumes "internal_entry_parse bs = Inr e"
  shows "read_u64 bs 0 = Inr (ie_min_key e)" "read_u64 bs 8 = Inr (ie_max_key e)" "read_u64 bs 16 = Inr (ie_page_offset e)" "read_u16 bs 28 = Inr (ie_level e)"
    "read_array 32 bs 32 = Inr (ie_page_digest e)" "ie_min_key e \<noteq> 0" "ie_min_key e \<le> ie_max_key e"
  using assms by (auto simp: internal_entry_parse_def result_simps split: if_splits)

lemma parse_page_leaf:
  assumes "parse_page page = Inr (ParsedLeaf ph es)"
  shows "x2_validate_leaf_order ph es = Inr ()" "page ! 4 = 1" "read_u64 page 16 = Inr (ph_min_key ph)" "read_u64 page 24 = Inr (ph_max_key ph)"
    "\<exists>cnt. read_u16 page 8 = Inr cnt \<and> try_map (\<lambda>index. leaf_entry_parse (slice page (PAGE_HEADER_LEN + index * LEAF_ENTRY_LEN) (PAGE_HEADER_LEN + index * LEAF_ENTRY_LEN + LEAF_ENTRY_LEN))) [0..<unat cnt] = Inr es"
  using assms unfolding parse_page_def Let_def by (clarsimp simp: result_simps split: if_splits)+

lemma parse_page_internal:
  assumes "parse_page page = Inr (ParsedInternal ph cs)"
  shows "validate_internal_order ph cs = Inr ()" "page ! 4 = 2" "read_u64 page 16 = Inr (ph_min_key ph)" "read_u64 page 24 = Inr (ph_max_key ph)"
    "\<exists>cnt. read_u16 page 8 = Inr cnt \<and> try_map (\<lambda>index. internal_entry_parse (slice page (PAGE_HEADER_LEN + index * INTERNAL_ENTRY_LEN) (PAGE_HEADER_LEN + index * INTERNAL_ENTRY_LEN + INTERNAL_ENTRY_LEN))) [0..<unat cnt] = Inr cs"
  using assms unfolding parse_page_def Let_def by (clarsimp simp: result_simps split: if_splits)+

lemma parse_page_children:
  assumes "parse_page page = Inr (ParsedInternal ph cs)"
  shows "\<forall>c \<in> set cs. ie_min_key c \<noteq> 0 \<and> ie_min_key c \<le> ie_max_key c"
proof -
  obtain cnt :: u16 where "try_map (\<lambda>index. internal_entry_parse (slice page (PAGE_HEADER_LEN + index * INTERNAL_ENTRY_LEN)
      (PAGE_HEADER_LEN + index * INTERNAL_ENTRY_LEN + INTERNAL_ENTRY_LEN))) [0..<unat cnt] = Inr cs" using parse_page_internal(5) [OF assms] by blast
  then show ?thesis using internal_entry_reads(6,7) by (fastforce simp: try_map_Ok_iff list_all2_conv_all_nth in_set_conv_nth)
qed

lemma lookup_header_reads:
  assumes "lookup_parse_page_header page sequence = Inr h"
  shows "lh_kind h = page ! 4" "read_u64 page 16 = Inr (lh_minimum h)" "read_u64 page 24 = Inr (lh_maximum h)"
    "\<exists>cnt. read_u16 page 8 = Inr cnt \<and> lh_count h = unat cnt"
  using assms by (auto simp: lookup_parse_page_header_def result_simps Let_def split: if_splits)

text \<open>A scan that keeps the last match.\<close>

lemma keep_last:
  "(case foldl (\<lambda>s x. if P x then Some (f x) else s) None xs of None \<Rightarrow> \<forall>x \<in> set xs. \<not> P x | Some y \<Rightarrow> \<exists>x \<in> set xs. P x \<and> y = f x)"
  by (induction xs rule: rev_induct) (auto split: option.splits)

lemma foldl_nth: "foldl (\<lambda>s k. f s (xs ! k)) s [0..<length xs] = foldl f s xs"
  using foldl_map [of f s "(!) xs" "[0..<length xs]"] by (simp add: map_nth)

definition leaf_selection :: "leaf_entry \<Rightarrow> selected_leaf" where
  "leaf_selection e = \<lparr>sl_object_id = le_object_id e, sl_kind = le_kind e, sl_record_offset = le_record_offset e, sl_record_len = le_record_len e,
     sl_logical_len = le_logical_len e, sl_digest = le_record_digest e\<rparr>"

definition child_selection :: "internal_entry \<Rightarrow> lookup_expected_page" where
  "child_selection c = \<lparr>lx_offset = ie_page_offset c, lx_digest = ie_page_digest c, lx_level = ie_level c, lx_minimum = Some (ie_min_key c), lx_maximum = Some (ie_max_key c)\<rparr>"

lemma select_leaf_loop_spec:
  assumes "select_leaf_loop page i is prev sel = Inr sel'"
    and "\<forall>k \<in> set is. leaf_entry_parse (slice page (PAGE_HEADER_LEN + k * LEAF_ENTRY_LEN) (PAGE_HEADER_LEN + k * LEAF_ENTRY_LEN + LEAF_ENTRY_LEN)) = Inr (e k)"
  shows "sel' = foldl (\<lambda>s k. if le_object_id (e k) = i then Some (leaf_selection (e k)) else s) sel is"
  using assms
proof (induction "is" arbitrary: prev sel)
  case (Cons k ks)
  have r: "leaf_entry_parse (slice page (PAGE_HEADER_LEN + k * LEAF_ENTRY_LEN) (PAGE_HEADER_LEN + k * LEAF_ENTRY_LEN + LEAF_ENTRY_LEN)) = Inr (e k)" using Cons.prems(2) by simp
  obtain sel1 where "sel1 = (if le_object_id (e k) = i then Some (leaf_selection (e k)) else sel)"
      and rest: "select_leaf_loop page i ks (Some (le_object_id (e k))) sel1 = Inr sel'"
    using Cons.prems(1) leaf_entry_reads [OF r] by (auto simp: result_simps Let_def leaf_selection_def split: if_splits)
  then show ?case using Cons.IH [OF rest] Cons.prems(2) by simp
qed simp

lemma select_leaf_spec:
  assumes "parse_page page = Inr (ParsedLeaf ph es)" and "lookup_parse_page_header page sequence = Inr h" and "select_leaf page h i = Inr sel"
  shows "case sel of None \<Rightarrow> i \<notin> set (map le_object_id es) | Some s \<Rightarrow> \<exists>e \<in> set es. le_object_id e = i \<and> s = leaf_selection e"
proof -
  obtain cnt where cnt: "read_u16 page 8 = Inr cnt" and es: "try_map (\<lambda>index. leaf_entry_parse (slice page (PAGE_HEADER_LEN + index * LEAF_ENTRY_LEN)
      (PAGE_HEADER_LEN + index * LEAF_ENTRY_LEN + LEAF_ENTRY_LEN))) [0..<unat cnt] = Inr es" using parse_page_leaf(5) [OF assms(1)] by blast
  have n: "lh_count h = unat cnt" "length es = unat cnt" using lookup_header_reads(4) [OF assms(2)] cnt try_map_length [OF es] by auto
  have all: "\<forall>k \<in> set [0..<unat cnt]. leaf_entry_parse (slice page (PAGE_HEADER_LEN + k * LEAF_ENTRY_LEN) (PAGE_HEADER_LEN + k * LEAF_ENTRY_LEN + LEAF_ENTRY_LEN)) = Inr (es ! k)"
    using es by (simp add: try_map_Ok_iff list_all2_conv_all_nth)
  have "select_leaf_loop page i [0..<unat cnt] None None = Inr sel" using assms(3) n(1) by (auto simp: select_leaf_def result_simps Let_def split: if_splits)
  from select_leaf_loop_spec [OF this all] have "sel = foldl (\<lambda>s e. if le_object_id e = i then Some (leaf_selection e) else s) None es"
    using foldl_nth [of "\<lambda>s e. if le_object_id e = i then Some (leaf_selection e) else s" es None] n(2) by simp
  then show ?thesis using keep_last [where P = "\<lambda>e. le_object_id e = i" and f = leaf_selection and xs = es] by (auto split: option.splits)
qed

lemma select_internal_loop_spec:
  assumes "select_internal_loop page h i is prev sel a b = Inr (sel', a', b')"
    and "\<forall>k \<in> set is. internal_entry_parse (slice page (PAGE_HEADER_LEN + k * INTERNAL_ENTRY_LEN) (PAGE_HEADER_LEN + k * INTERNAL_ENTRY_LEN + INTERNAL_ENTRY_LEN)) = Inr (e k)"
  shows "sel' = foldl (\<lambda>s k. if ie_min_key (e k) \<le> i \<and> i \<le> ie_max_key (e k) then Some (child_selection (e k)) else s) sel is"
  using assms
proof (induction "is" arbitrary: prev sel a b)
  case (Cons k ks)
  have r: "internal_entry_parse (slice page (PAGE_HEADER_LEN + k * INTERNAL_ENTRY_LEN) (PAGE_HEADER_LEN + k * INTERNAL_ENTRY_LEN + INTERNAL_ENTRY_LEN)) = Inr (e k)" using Cons.prems(2) by simp
  obtain sel1 a1 where "sel1 = (if ie_min_key (e k) \<le> i \<and> i \<le> ie_max_key (e k) then Some (child_selection (e k)) else sel)"
      and rest: "select_internal_loop page h i ks (Some (ie_max_key (e k))) sel1 a1 (Some (ie_max_key (e k))) = Inr (sel', a', b')"
    using Cons.prems(1) internal_entry_reads [OF r] by (auto simp: result_simps Let_def child_selection_def split: if_splits)
  then show ?case using Cons.IH [OF rest] Cons.prems(2) by simp
qed simp

lemma select_internal_spec:
  assumes "parse_page page = Inr (ParsedInternal ph cs)" and "lookup_parse_page_header page sequence = Inr h" and "select_internal page h i = Inr sel"
  shows "case sel of None \<Rightarrow> \<forall>c \<in> set cs. \<not> (ie_min_key c \<le> i \<and> i \<le> ie_max_key c)
    | Some s \<Rightarrow> \<exists>c \<in> set cs. ie_min_key c \<le> i \<and> i \<le> ie_max_key c \<and> s = child_selection c"
proof -
  obtain cnt where cnt: "read_u16 page 8 = Inr cnt" and cs: "try_map (\<lambda>index. internal_entry_parse (slice page (PAGE_HEADER_LEN + index * INTERNAL_ENTRY_LEN)
      (PAGE_HEADER_LEN + index * INTERNAL_ENTRY_LEN + INTERNAL_ENTRY_LEN))) [0..<unat cnt] = Inr cs" using parse_page_internal(5) [OF assms(1)] by blast
  have n: "lh_count h = unat cnt" "length cs = unat cnt" using lookup_header_reads(4) [OF assms(2)] cnt try_map_length [OF cs] by auto
  have all: "\<forall>k \<in> set [0..<unat cnt]. internal_entry_parse (slice page (PAGE_HEADER_LEN + k * INTERNAL_ENTRY_LEN) (PAGE_HEADER_LEN + k * INTERNAL_ENTRY_LEN + INTERNAL_ENTRY_LEN)) = Inr (cs ! k)"
    using cs by (simp add: try_map_Ok_iff list_all2_conv_all_nth)
  obtain a b where "select_internal_loop page h i [0..<unat cnt] None None None None = Inr (sel, a, b)"
    using assms(3) n(1) by (auto simp: select_internal_def result_simps Let_def split: if_splits)
  from select_internal_loop_spec [OF this all] have "sel = foldl (\<lambda>s c. if ie_min_key c \<le> i \<and> i \<le> ie_max_key c then Some (child_selection c) else s) None cs"
    using foldl_nth [of "\<lambda>s c. if ie_min_key c \<le> i \<and> i \<le> ie_max_key c then Some (child_selection c) else s" cs None] n(2) by simp
  then show ?thesis using keep_last [where P = "\<lambda>c. ie_min_key c \<le> i \<and> i \<le> ie_max_key c" and f = child_selection and xs = cs] by (auto split: option.splits)
qed

section \<open>Keys of a stored tree\<close>

lemma leaf_order_keys:
  assumes "x2_validate_leaf_order ph es = Inr ()" and "e \<in> set es"
  shows "ph_min_key ph \<le> le_object_id e \<and> le_object_id e \<le> ph_max_key ph"
proof -
  have ne: "es \<noteq> []" "le_object_id (hd es) = ph_min_key ph" "le_object_id (last es) = ph_max_key ph" "sorted_wrt (<) (map le_object_id es)"
    using assms(1) windows2_not_ge [of es le_object_id] by (auto simp: x2_validate_leaf_order_def split: if_splits)
  obtain k where k: "k < length es" "es ! k = e" using assms(2) by (auto simp: in_set_conv_nth)
  have "sorted (map le_object_id es)" using ne(4) by (simp add: strict_sorted_imp_sorted)
  then have "le_object_id (es ! 0) \<le> le_object_id (es ! k)" "le_object_id (es ! k) \<le> le_object_id (es ! (length es - 1))"
    using k(1) ne(1) sorted_nth_mono [of "map le_object_id es" 0 k] sorted_nth_mono [of "map le_object_id es" k "length es - 1"]
    by (simp_all add: Suc_leI)
  then show ?thesis using ne(1-3) k(2) by (simp add: hd_conv_nth last_conv_nth)
qed

lemma chain_within:
  assumes "\<forall>(a, b) \<in> set (windows2 cs). ie_max_key a < ie_min_key b" and "\<forall>c \<in> set cs. ie_min_key c \<le> ie_max_key c"
  shows "\<forall>c \<in> set cs. ie_min_key (hd cs) \<le> ie_min_key c \<and> ie_max_key c \<le> ie_max_key (last cs)"
  using assms
proof (induction cs rule: windows2.induct)
  case (1 x y cs)
  have IH: "\<forall>c \<in> set (y # cs). ie_min_key y \<le> ie_min_key c \<and> ie_max_key c \<le> ie_max_key (last (y # cs))"
    using "1.IH" "1.prems" by simp
  have x: "ie_min_key x \<le> ie_max_key x" "ie_max_key x < ie_min_key y" "ie_min_key y \<le> ie_max_key y" using "1.prems" by simp_all
  have "ie_max_key y \<le> ie_max_key (last (y # cs))" using IH by simp
  then have "ie_max_key x \<le> ie_max_key (last (y # cs))" "ie_min_key x \<le> ie_min_key y" using x by order+
  then have "ie_min_key x \<le> ie_min_key c \<and> ie_max_key c \<le> ie_max_key (last (y # cs))" if "c \<in> set (x # y # cs)" for c
    using IH that x by (metis order.refl order.trans set_ConsD)
  then show ?case by simp
qed simp_all

lemma internal_chain_sorted:
  assumes "\<forall>(a, b) \<in> set (windows2 cs). ie_max_key a < ie_min_key b" and "\<forall>c \<in> set cs. ie_min_key c \<le> ie_max_key c"
  shows "sorted_wrt (\<lambda>a b. ie_max_key a < ie_min_key b) cs"
  using assms
proof (induction cs rule: windows2.induct)
  case (1 x y cs)
  have "\<forall>c \<in> set (y # cs). ie_min_key y \<le> ie_min_key c" using chain_within [of "y # cs"] "1.prems" by simp
  moreover have "ie_max_key x < ie_min_key y" using "1.prems"(1) by simp
  ultimately have "\<forall>c \<in> set (y # cs). ie_max_key x < ie_min_key c" by (meson order.strict_trans2)
  then show ?case using "1.IH" "1.prems" by simp
qed simp_all

lemma chain_disjoint:
  assumes "\<forall>(a, b) \<in> set (windows2 cs). ie_max_key a < ie_min_key b" and "\<forall>c \<in> set cs. ie_min_key c \<le> ie_max_key c"
    and "j < length cs" and "k < length cs" and "ie_min_key (cs ! j) \<le> i \<and> i \<le> ie_max_key (cs ! j)" and "ie_min_key (cs ! k) \<le> i \<and> i \<le> ie_max_key (cs ! k)"
  shows "j = k"
proof -
  note sw = internal_chain_sorted [OF assms(1,2)]
  have "\<not> j < k" "\<not> k < j" using sorted_wrt_nth_less [OF sw, of j k] sorted_wrt_nth_less [OF sw, of k j] assms(3-6) by (meson leD order.trans)+
  then show ?thesis by simp
qed

lemma stored_keys:
  assumes "stored sha bs sequence lim x t"
  shows "\<exists>p. page_matches sha bs sequence x p \<and> (\<forall>e \<in> set (tree_entries t). ph_min_key (parsed_header p) \<le> le_object_id e \<and> le_object_id e \<le> ph_max_key (parsed_header p))"
  using assms
proof (induction t arbitrary: x)
  case (LeafPage offset es)
  then obtain h where m: "page_matches sha bs sequence x (ParsedLeaf h es)" by auto
  then have "x2_validate_leaf_order h es = Inr ()" using parse_page_leaf(1) by (auto simp: page_matches_def)
  then show ?case using m leaf_order_keys by (intro exI [of _ "ParsedLeaf h es"]) auto
next
  case (NodePage offset ts)
  then obtain h cs where m: "page_matches sha bs sequence x (ParsedInternal h cs)" and l: "list_all2 (\<lambda>c t. stored sha bs sequence lim (expect_child x c) t) cs ts" by auto
  let ?page = "slice bs (fst (page_span (ep_offset x))) (snd (page_span (ep_offset x)))"
  have pg: "parse_page ?page = Inr (ParsedInternal h cs)" using m by (simp add: page_matches_def)
  have order: "cs \<noteq> []" "ie_min_key (hd cs) = ph_min_key h" "ie_max_key (last cs) = ph_max_key h" "\<forall>(a, b) \<in> set (windows2 cs). ie_max_key a < ie_min_key b"
    using parse_page_internal(1) [OF pg] by (auto simp: validate_internal_order_def not_le split: if_splits)
  have cs: "\<forall>c \<in> set cs. ie_min_key c \<noteq> 0 \<and> ie_min_key c \<le> ie_max_key c" using parse_page_children [OF pg] .
  have "ph_min_key h \<le> le_object_id e \<and> le_object_id e \<le> ph_max_key h" if t: "t \<in> set ts" "e \<in> set (tree_entries t)" for t e
  proof -
    obtain c where c: "c \<in> set cs" "stored sha bs sequence lim (expect_child x c) t" using l t(1) by (metis in_set_conv_nth list_all2_conv_all_nth)
    obtain p where "page_matches sha bs sequence (expect_child x c) p" "ph_min_key (parsed_header p) \<le> le_object_id e" "le_object_id e \<le> ph_max_key (parsed_header p)"
      using NodePage.IH [OF t(1) c(2)] t(2) by blast
    then have "ie_min_key c \<le> le_object_id e" "le_object_id e \<le> ie_max_key c" using cs c(1) by (auto simp: page_matches_def expect_child_def)
    moreover have "ph_min_key h \<le> ie_min_key c \<and> ie_max_key c \<le> ph_max_key h" using chain_within [OF order(4)] cs c(1) order(2,3) by auto
    ultimately show ?thesis by (meson order.trans)
  qed
  then show ?case using m by (intro exI [of _ "ParsedInternal h cs"]) auto
qed

text \<open>What a child of an internal page stores lies in the key range that the page records for it.\<close>

lemma child_keys:
  assumes "stored sha bs sequence lim (expect_child x c) t" and "ie_min_key c \<noteq> 0" and "e \<in> set (tree_entries t)"
  shows "ie_min_key c \<le> le_object_id e \<and> le_object_id e \<le> ie_max_key c"
  using stored_keys [OF assms(1)] assms(2,3) by (auto simp: page_matches_def expect_child_def)

section \<open>The walk down\<close>

definition describes :: "authenticated_object_lookup \<Rightarrow> leaf_entry \<Rightarrow> u64 \<Rightarrow> bool" where
  "describes r e sequence \<longleftrightarrow> au_object_id r = le_object_id e \<and> au_kind r = le_kind e \<and> au_record_offset r = le_record_offset e \<and>
     au_record_len r = le_record_len e \<and> au_logical_len r = le_logical_len e \<and> au_sequence r = sequence \<and>
     unat (au_payload_offset r) = unat (le_record_offset e) + OBJECT_HEADER_LEN \<and> unat (au_payload_len r) + OBJECT_HEADER_LEN = unat (le_record_len e)"

lemma lookup_pages_step:
  assumes "lookup_pages sha bs i lim sequence sr fo x n hashed rs = Inr res"
  obtains h where "lookup_parse_page_header (slice bs (fst (page_span (lx_offset x))) (snd (page_span (lx_offset x)))) sequence = Inr h"
    "i < lh_minimum h \<or> lh_maximum h < i \<Longrightarrow> res = None"
    "\<And>e. lh_kind h = 1 \<Longrightarrow> lh_minimum h \<le> i \<Longrightarrow> i \<le> lh_maximum h \<Longrightarrow>
      \<exists>sel. select_leaf (slice bs (fst (page_span (lx_offset x))) (snd (page_span (lx_offset x)))) h i = Inr sel \<and> (sel = None \<longrightarrow> res = None) \<and>
        (sel = Some (leaf_selection e) \<longrightarrow> (\<exists>r. res = Some r \<and> describes r e sequence))"
    "lh_kind h \<noteq> 1 \<Longrightarrow> lh_minimum h \<le> i \<Longrightarrow> i \<le> lh_maximum h \<Longrightarrow>
      \<exists>child. select_internal (slice bs (fst (page_span (lx_offset x))) (snd (page_span (lx_offset x)))) h i = Inr child \<and> (child = None \<longrightarrow> res = None) \<and>
        (\<forall>c. child = Some c \<longrightarrow> (\<exists>n' h' rs'. lookup_pages sha bs i lim sequence sr fo c n' h' rs' = Inr res))"
proof -
  let ?page = "slice bs (fst (page_span (lx_offset x))) (snd (page_span (lx_offset x)))"
  note run = assms [unfolded lookup_pages.simps [of sha bs i lim sequence sr fo x] Let_def]
  from run obtain a b where r: "x2_checked_range (lx_offset x) 16384 (length bs) = Inr (a, b)" by (auto simp: and_then_Ok_iff split: if_splits prod.splits)
  have ab: "page_span (lx_offset x) = (a, b)" using r by (simp add: x2_page_span)
  from run r ab obtain h where h: "lookup_parse_page_header ?page sequence = Inr h" by (auto simp: and_then_Ok_iff split: if_splits)
  show thesis
  proof (rule that [OF h])
    assume "i < lh_minimum h \<or> lh_maximum h < i"
    then show "res = None" using run r ab h by (auto simp: and_then_Ok_iff split: if_splits)
  next
    fix e assume k: "lh_kind h = 1" "lh_minimum h \<le> i" "i \<le> lh_maximum h"
    then obtain sel where sel: "select_leaf ?page h i = Inr sel" using run r ab h by (auto simp: and_then_Ok_iff not_less split: if_splits)
    moreover have "res = None" if "sel = None" using run r ab h k sel that by (auto simp: and_then_Ok_iff not_less split: if_splits)
    moreover have "\<exists>r. res = Some r \<and> describes r e sequence" if "sel = Some (leaf_selection e)"
      using run r ab h k sel that by (auto simp: and_then_Ok_iff ok_or_Ok_iff not_less lookup_selected_def describes_def leaf_selection_def checked_add_Some_iff checked_sub_Some_iff split: if_splits)
    ultimately show "\<exists>sel. select_leaf ?page h i = Inr sel \<and> (sel = None \<longrightarrow> res = None) \<and> (sel = Some (leaf_selection e) \<longrightarrow> (\<exists>r. res = Some r \<and> describes r e sequence))"
      by blast
  next
    assume k: "lh_kind h \<noteq> 1" "lh_minimum h \<le> i" "i \<le> lh_maximum h"
    then obtain child where child: "select_internal ?page h i = Inr child" using run r ab h by (auto simp: and_then_Ok_iff not_less split: if_splits)
    moreover have "res = None" if "child = None" using run r ab h k child that by (auto simp: and_then_Ok_iff not_less split: if_splits)
    moreover have "\<exists>n' h' rs'. lookup_pages sha bs i lim sequence sr fo c n' h' rs' = Inr res" if "child = Some c" for c
      using run r ab h k child that by (auto simp: and_then_Ok_iff not_less split: if_splits)
    ultimately show "\<exists>child. select_internal ?page h i = Inr child \<and> (child = None \<longrightarrow> res = None) \<and>
        (\<forall>c. child = Some c \<longrightarrow> (\<exists>n' h' rs'. lookup_pages sha bs i lim sequence sr fo c n' h' rs' = Inr res))" by blast
  qed
qed

lemma forest_absent:
  assumes "\<And>k. k < length ts \<Longrightarrow> i \<notin> set (map le_object_id (tree_entries (ts ! k)))"
  shows "i \<notin> set (map le_object_id (forest_entries ts))"
proof
  assume "i \<in> set (map le_object_id (forest_entries ts))"
  then obtain t where "t \<in> set ts" "i \<in> set (map le_object_id (tree_entries t))" by auto
  then show False using assms by (metis in_set_conv_nth)
qed

lemma lookup_pages_agrees:
  assumes "lookup_pages sha bs i lim sequence sr fo x n hashed rs = Inr res" and "stored sha bs sequence vl y t" and "lx_offset x = ep_offset y"
  shows "case res of None \<Rightarrow> i \<notin> set (map le_object_id (tree_entries t)) | Some r \<Rightarrow> \<exists>e \<in> set (tree_entries t). le_object_id e = i \<and> describes r e sequence"
  using assms
proof (induction t arbitrary: x y n hashed rs)
  case (LeafPage offset es)
  let ?page = "slice bs (fst (page_span (lx_offset x))) (snd (page_span (lx_offset x)))"
  obtain ph where p: "parse_page ?page = Inr (ParsedLeaf ph es)" using LeafPage.prems(2,3) by (auto simp: page_matches_def)
  obtain h where h: "lookup_parse_page_header ?page sequence = Inr h" "i < lh_minimum h \<or> lh_maximum h < i \<Longrightarrow> res = None"
    and sel: "\<And>e. lh_kind h = 1 \<Longrightarrow> lh_minimum h \<le> i \<Longrightarrow> i \<le> lh_maximum h \<Longrightarrow> \<exists>sel. select_leaf ?page h i = Inr sel \<and> (sel = None \<longrightarrow> res = None) \<and>
        (sel = Some (leaf_selection e) \<longrightarrow> (\<exists>r. res = Some r \<and> describes r e sequence))"
    by (rule lookup_pages_step [OF LeafPage.prems(1)]) blast
  have hd: "lh_kind h = 1" "lh_minimum h = ph_min_key ph" "lh_maximum h = ph_max_key ph"
    using lookup_header_reads [OF h(1)] parse_page_leaf [OF p] by auto
  show ?case
  proof (cases "lh_minimum h \<le> i \<and> i \<le> lh_maximum h")
    case True
    obtain s where s: "select_leaf ?page h i = Inr s" using sel [of "es ! 0"] hd(1) True by auto
    show ?thesis
    proof (cases s)
      case None
      then show ?thesis using sel [of "es ! 0"] hd(1) True s select_leaf_spec [OF p h(1) s] by auto
    next
      case (Some a)
      then obtain e where "e \<in> set es" "le_object_id e = i" "s = Some (leaf_selection e)" using select_leaf_spec [OF p h(1) s] by auto
      then show ?thesis using sel [of e] hd(1) True s by auto
    qed
  next
    case False
    then have "res = None" using h(2) by (auto simp: not_le)
    then show ?thesis using False leaf_order_keys [OF parse_page_leaf(1) [OF p]] hd by auto
  qed
next
  case (NodePage offset ts)
  let ?page = "slice bs (fst (page_span (lx_offset x))) (snd (page_span (lx_offset x)))"
  obtain ph cs where m: "page_matches sha bs sequence y (ParsedInternal ph cs)" and l: "list_all2 (\<lambda>c t. stored sha bs sequence vl (expect_child y c) t) cs ts"
    using NodePage.prems(2) by auto
  have p: "parse_page ?page = Inr (ParsedInternal ph cs)" using m NodePage.prems(3) by (simp add: page_matches_def)
  obtain h where h: "lookup_parse_page_header ?page sequence = Inr h" "i < lh_minimum h \<or> lh_maximum h < i \<Longrightarrow> res = None"
    and sel: "lh_kind h \<noteq> 1 \<Longrightarrow> lh_minimum h \<le> i \<Longrightarrow> i \<le> lh_maximum h \<Longrightarrow> \<exists>child. select_internal ?page h i = Inr child \<and> (child = None \<longrightarrow> res = None) \<and>
        (\<forall>c. child = Some c \<longrightarrow> (\<exists>n' h' rs'. lookup_pages sha bs i lim sequence sr fo c n' h' rs' = Inr res))"
    by (rule lookup_pages_step [OF NodePage.prems(1)]) blast
  have hd: "lh_kind h = 2" "lh_minimum h = ph_min_key ph" "lh_maximum h = ph_max_key ph"
    using lookup_header_reads [OF h(1)] parse_page_internal [OF p] by auto
  have cs: "\<forall>c \<in> set cs. ie_min_key c \<noteq> 0" using parse_page_children [OF p] by blast
  have order: "\<forall>(a, b) \<in> set (windows2 cs). ie_max_key a < ie_min_key b" "\<forall>c \<in> set cs. ie_min_key c \<le> ie_max_key c"
    using parse_page_internal(1) [OF p] parse_page_children [OF p] by (auto simp: validate_internal_order_def not_le split: if_splits)
  show ?case
  proof (cases "lh_minimum h \<le> i \<and> i \<le> lh_maximum h")
    case True
    then obtain child where child: "select_internal ?page h i = Inr child" "child = None \<longrightarrow> res = None"
      "\<forall>c. child = Some c \<longrightarrow> (\<exists>n' h' rs'. lookup_pages sha bs i lim sequence sr fo c n' h' rs' = Inr res)" using sel hd(1) by auto
    note spec = select_internal_spec [OF p h(1) child(1)]
    have keys: "ie_min_key (cs ! k) \<le> i \<and> i \<le> ie_max_key (cs ! k)" if "k < length ts" "i \<in> set (map le_object_id (tree_entries (ts ! k)))" for k
      using child_keys that l cs by (fastforce simp: list_all2_conv_all_nth)
    show ?thesis
    proof (cases child)
      case None
      then have none: "\<forall>c \<in> set cs. \<not> (ie_min_key c \<le> i \<and> i \<le> ie_max_key c)" using spec by simp
      have "i \<notin> set (map le_object_id (tree_entries (ts ! k)))" if "k < length ts" for k
      proof
        assume "i \<in> set (map le_object_id (tree_entries (ts ! k)))"
        from keys [OF that this] have "ie_min_key (cs ! k) \<le> i \<and> i \<le> ie_max_key (cs ! k)" .
        moreover have "cs ! k \<in> set cs" using that list_all2_lengthD [OF l] by simp
        ultimately show False using none by blast
      qed
      then have "i \<notin> set (map le_object_id (forest_entries ts))" by (rule forest_absent)
      then show ?thesis using None child(2) by simp
    next
      case (Some a)
      then obtain c where c: "c \<in> set cs" "ie_min_key c \<le> i" "i \<le> ie_max_key c" "a = child_selection c" using spec by auto
      then obtain k where k: "k < length cs" "cs ! k = c" by (auto simp: in_set_conv_nth)
      have kt: "k < length ts" "stored sha bs sequence vl (expect_child y c) (ts ! k)" using k l by (auto simp: list_all2_conv_all_nth)
      obtain n' h' rs' where run: "lookup_pages sha bs i lim sequence sr fo a n' h' rs' = Inr res" using child(3) Some by blast
      have IH: "case res of None \<Rightarrow> i \<notin> set (map le_object_id (tree_entries (ts ! k))) | Some r \<Rightarrow> \<exists>e \<in> set (tree_entries (ts ! k)). le_object_id e = i \<and> describes r e sequence"
        by (rule NodePage.IH [OF nth_mem [OF kt(1)] run kt(2)]) (simp add: c(4) child_selection_def expect_child_def)
      have only: "j = k" if "j < length ts" "i \<in> set (map le_object_id (tree_entries (ts ! j)))" for j
        using keys [OF that] chain_disjoint [OF order, of j k i] k c that(1) list_all2_lengthD [OF l] by simp
      show ?thesis
      proof (cases res)
        case None
        then have "i \<notin> set (map le_object_id (tree_entries (ts ! j)))" if "j < length ts" for j using IH only [OF that] by auto
        then have "i \<notin> set (map le_object_id (forest_entries ts))" by (rule forest_absent)
        then show ?thesis using None by simp
      next
        case (Some r)
        then show ?thesis using IH nth_mem [OF kt(1)] by auto
      qed
    qed
  next
    case False
    then have "res = None" using h(2) by (auto simp: not_le)
    moreover have "i \<notin> set (map le_object_id (tree_entries (NodePage offset ts)))"
    proof
      assume "i \<in> set (map le_object_id (tree_entries (NodePage offset ts)))"
      then obtain e where e: "e \<in> set (tree_entries (NodePage offset ts))" "le_object_id e = i" by auto
      obtain q where q: "page_matches sha bs sequence y q" "ph_min_key (parsed_header q) \<le> le_object_id e" "le_object_id e \<le> ph_max_key (parsed_header q)"
        using stored_keys [OF NodePage.prems(2)] e(1) by blast
      have "q = ParsedInternal ph cs" using q(1) m by (simp add: page_matches_def)
      then show False using q(2,3) e(2) False hd by simp
    qed
    ultimately show ?thesis by simp
  qed
qed

end
