(* ===== verification/Ucof_Exp2_Lookup_Total.thy ===== *)
theory Ucof_Exp2_Lookup_Total
  imports Ucof_Exp2_Lookup
begin

text \<open>
  Authenticated lookup against strict validation: a lookup that returns agrees with the directory that strict validation
  walks, and a walk over stored pages with room in the limits returns.
\<close>

section \<open>Footers\<close>

lemma footer_parse_reads:
  assumes "footer_parse bs = Inr f"
  shows "length bs = X2_FOOTER_LEN" "slice bs 0 8 = X2_FOOTER_MAGIC" "\<exists>len. read_u16 bs 8 = Inr len \<and> unat len = X2_FOOTER_LEN" "read_u16 bs 10 = Inr 2" "read_u32 bs 12 = Inr 0"
    "read_u16 bs 72 = Inr 1" "require_zero (slice bs 74 80) ''footer'' = Inr ()" "require_zero (slice bs 144 160) ''footer'' = Inr ()"
    "read_u64 bs 16 = Inr (xf_commit_start f)" "read_u64 bs 24 = Inr (xf_commit_len f)" "read_u64 bs 32 = Inr (xf_snapshot_offset f)"
    "read_u64 bs 40 = Inr (xf_snapshot_len f)" "read_u64 bs 48 = Inr (xf_sequence f)" "read_u64 bs 56 = Inr (xf_previous_footer_offset f)"
    "read_u64 bs 64 = Inr (xf_record_count f)" "read_array 32 bs 80 = Inr (xf_snapshot_digest f)" "read_array 32 bs 112 = Inr (xf_commit_digest f)"
  using assms by (auto simp: footer_parse_def result_simps split: if_splits)

lemma validate_footer_structure_Ok:
  assumes "footer_parse bs = Inr f"
  shows "validate_footer_structure bs = Inr ()"
  using footer_parse_reads [OF assms] by (auto simp: validate_footer_structure_def and_then_Ok_iff)

section \<open>Agreement\<close>

lemma lookup_authenticated_pages:
  assumes "lookup_authenticated sha bs i lim = Inr res" and "validate_strict sha bs vl = Inr v"
  shows "\<exists>s sr fo hashed. snapshot_parse (snapshot_bytes bs (vx_footer v)) (al_validation lim) = Inr s \<and> xs_sequence s = xf_sequence (vx_footer v) \<and>
    lookup_pages sha bs i lim (xf_sequence (vx_footer v)) sr fo \<lparr>lx_offset = xs_directory_root_offset s, lx_digest = xs_directory_root_digest s,
      lx_level = xs_directory_root_level s, lx_minimum = None, lx_maximum = None\<rparr> 0 hashed [] = Inr res"
proof -
  have cv: "unat (vx_footer_offset v) + X2_FOOTER_LEN = length bs" "footer_parse (drop (unat (vx_footer_offset v)) bs) = Inr (vx_footer v)"
    using validate_strict_valid [OF assms(2)] by (simp_all add: commit_valid_def Let_def)
  have d: "drop (length bs - 160) bs = drop (unat (vx_footer_offset v)) bs" using cv(1) by (metis add_diff_cancel_right')
  note reads = footer_parse_reads(9-17) [OF cv(2)]
  from assms(1) show ?thesis unfolding lookup_authenticated_def Let_def d
    by (clarsimp simp: result_simps reads x2_checked_range_Ok snapshot_bytes_def split: if_splits) blast
qed

lemma lookup_agrees:
  assumes "lookup_authenticated sha bs i lim = Inr res" and "validate_strict sha bs (al_validation lim) = Inr v"
  shows "case res of None \<Rightarrow> i \<notin> set (map le_object_id (vx_objects v)) | Some r \<Rightarrow> \<exists>e \<in> set (vx_objects v). le_object_id e = i \<and> describes r e (xs_sequence (vx_snapshot v))"
proof -
  obtain s sr fo hashed where s: "snapshot_parse (snapshot_bytes bs (vx_footer v)) (al_validation lim) = Inr s"
    and run: "lookup_pages sha bs i lim (xf_sequence (vx_footer v)) sr fo \<lparr>lx_offset = xs_directory_root_offset s, lx_digest = xs_directory_root_digest s,
      lx_level = xs_directory_root_level s, lx_minimum = None, lx_maximum = None\<rparr> 0 hashed [] = Inr res"
    using lookup_authenticated_pages [OF assms] by blast
  from validate_strict_valid [OF assms(2)] obtain t where cv: "snapshot_parse (snapshot_bytes bs (vx_footer v)) (al_validation lim) = Inr (vx_snapshot v)"
    "xs_sequence (vx_snapshot v) = xf_sequence (vx_footer v)" and t: "stored sha bs (xs_sequence (vx_snapshot v)) (al_validation lim) (root_page (vx_snapshot v)) t"
    "vx_objects v = sort_key le_object_id (tree_entries t)"
    unfolding commit_valid_def Let_def by blast
  have [simp]: "s = vx_snapshot v" using s cv(1) by simp
  show ?thesis using lookup_pages_agrees [OF run t(1) [unfolded cv(2)]] cv(2) by (auto simp: root_page_def t(2) split: option.splits)
qed

section \<open>Every page of a valid file is readable\<close>

lemma leaf_entry_checks:
  assumes "leaf_entry_parse bs = Inr e"
  shows "le_object_id e \<noteq> 0" "le_kind e \<noteq> 0" "read_u16 bs 10 = Inr 0" "read_u32 bs 12 = Inr 0" "require_zero (slice bs 72 88) ''leaf entry'' = Inr ()"
  using assms by (auto simp: leaf_entry_parse_def result_simps split: if_splits)

lemma internal_entry_checks:
  assumes "internal_entry_parse bs = Inr e"
  shows "\<exists>len. read_u32 bs 24 = Inr len \<and> unat len = PAGE_SIZE" "read_u16 bs 30 = Inr 0"
  using assms by (auto simp: internal_entry_parse_def result_simps split: if_splits)

lemma lookup_header_total:
  assumes "parse_page page = Inr p"
  shows "\<exists>h. lookup_parse_page_header page (ph_sequence (parsed_header p)) = Inr h \<and> lh_level h = ph_level (parsed_header p) \<and>
    lh_minimum h = ph_min_key (parsed_header p) \<and> lh_maximum h = ph_max_key (parsed_header p)"
  using assms unfolding parse_page_def lookup_parse_page_header_def Let_def
  by (clarsimp simp: result_simps split: if_splits) (auto simp: unat_gt_0)

lemma parse_page_leaf_shape:
  assumes "parse_page page = Inr (ParsedLeaf ph es)" and "lookup_parse_page_header page sequence = Inr h"
  shows "lh_level h = 0" "lh_entry_size h = LEAF_ENTRY_LEN" "lh_count h \<le> LEAF_CAPACITY" "lh_count h = length es" "length page = PAGE_SIZE"
    "require_zero (drop (PAGE_HEADER_LEN + lh_count h * LEAF_ENTRY_LEN) page) ''page padding'' = Inr ()"
  using assms unfolding parse_page_def lookup_parse_page_header_def Let_def
  by (clarsimp simp: result_simps dest!: try_map_length split: if_splits)+

lemma parse_page_internal_shape:
  assumes "parse_page page = Inr (ParsedInternal ph cs)" and "lookup_parse_page_header page sequence = Inr h"
  shows "lh_level h \<noteq> 0" "lh_entry_size h = INTERNAL_ENTRY_LEN" "lh_count h \<le> INTERNAL_CAPACITY" "lh_count h = length cs" "lh_level h = ph_level ph"
    "require_zero (drop (PAGE_HEADER_LEN + lh_count h * INTERNAL_ENTRY_LEN) page) ''page padding'' = Inr ()"
  using assms unfolding parse_page_def lookup_parse_page_header_def Let_def
  by (clarsimp simp: result_simps dest!: try_map_length split: if_splits)+

lemma select_leaf_loop_total:
  assumes "\<forall>k \<in> set is. leaf_entry_parse (slice page (PAGE_HEADER_LEN + k * LEAF_ENTRY_LEN) (PAGE_HEADER_LEN + k * LEAF_ENTRY_LEN + LEAF_ENTRY_LEN)) = Inr (e k)"
    and "sorted_wrt (<) (map (\<lambda>k. le_object_id (e k)) is)" and "\<And>p k. prev = Some p \<Longrightarrow> k \<in> set is \<Longrightarrow> p < le_object_id (e k)"
  shows "\<exists>sel'. select_leaf_loop page i is prev sel = Inr sel'"
  using assms
proof (induction "is" arbitrary: prev sel)
  case (Cons k ks)
  have r: "leaf_entry_parse (slice page (PAGE_HEADER_LEN + k * LEAF_ENTRY_LEN) (PAGE_HEADER_LEN + k * LEAF_ENTRY_LEN + LEAF_ENTRY_LEN)) = Inr (e k)" using Cons.prems(1) by simp
  have "\<not> (case prev of None \<Rightarrow> False | Some p \<Rightarrow> p \<ge> le_object_id (e k))" using Cons.prems(3) by (auto simp: not_le split: option.splits)
  moreover have "\<exists>sel'. select_leaf_loop page i ks (Some (le_object_id (e k))) sel1 = Inr sel'" for sel1
    using Cons.prems(1,2) by (intro Cons.IH) auto
  ultimately show ?case using leaf_entry_reads [OF r] leaf_entry_checks [OF r] by (auto simp: Let_def)
qed simp

lemma entry_key:
  assumes "leaf_entry_parse (slice page a (a + LEAF_ENTRY_LEN)) = Inr e" and "length page = PAGE_SIZE" and "a + LEAF_ENTRY_LEN \<le> PAGE_SIZE"
  shows "read_u64 page a = Inr (le_object_id e)" "read_u64 (drop a page) 0 = Inr (le_object_id e)"
proof -
  have "length (slice page a (a + 88)) = 88" using assms(2,3) by (simp add: slice_def)
  then have "read_u64 (slice page a (a + 88)) 0 = Inr (le_value (slice (slice page a (a + 88)) 0 8))" by (simp add: read_u64_slice)
  then have v: "le_value (slice page a (a + 8)) = le_object_id e" using leaf_entry_reads(1) [OF assms(1)] by (simp add: slice_slice)
  show "read_u64 page a = Inr (le_object_id e)" using assms(2,3) v by (simp add: read_u64_slice)
  show "read_u64 (drop a page) 0 = Inr (le_object_id e)" using assms(2,3) v by (simp add: read_u64_slice slice_def)
qed

lemma select_leaf_total:
  assumes "parse_page page = Inr (ParsedLeaf ph es)" and "lookup_parse_page_header page sequence = Inr h"
  shows "\<exists>sel. select_leaf page h i = Inr sel"
proof -
  note shape = parse_page_leaf_shape [OF assms]
  obtain cnt where cnt: "read_u16 page 8 = Inr cnt" and es: "try_map (\<lambda>index. leaf_entry_parse (slice page (PAGE_HEADER_LEN + index * LEAF_ENTRY_LEN)
      (PAGE_HEADER_LEN + index * LEAF_ENTRY_LEN + LEAF_ENTRY_LEN))) [0..<unat cnt] = Inr es" using parse_page_leaf(5) [OF assms(1)] by blast
  have n: "unat cnt = length es" using try_map_length [OF es] by simp
  have all: "\<forall>k \<in> set [0..<length es]. leaf_entry_parse (slice page (PAGE_HEADER_LEN + k * LEAF_ENTRY_LEN) (PAGE_HEADER_LEN + k * LEAF_ENTRY_LEN + LEAF_ENTRY_LEN)) = Inr (es ! k)"
    using es n by (simp add: try_map_Ok_iff list_all2_conv_all_nth)
  have ord: "es \<noteq> []" "le_object_id (hd es) = ph_min_key ph" "le_object_id (last es) = ph_max_key ph" "sorted_wrt (<) (map le_object_id es)"
    using parse_page_leaf(1) [OF assms(1)] windows2_not_ge [of es le_object_id] by (auto simp: x2_validate_leaf_order_def split: if_splits)
  have "map (\<lambda>k. le_object_id (es ! k)) [0..<length es] = map le_object_id es" by (rule nth_equalityI) simp_all
  then have strict: "sorted_wrt (<) (map (\<lambda>k. le_object_id (es ! k)) [0..<length es])" using ord(4) by simp
  have "\<exists>sel. select_leaf_loop page i [0..<length es] None None = Inr sel" by (rule select_leaf_loop_total [OF all strict]) simp
  moreover have room: "PAGE_HEADER_LEN + k * LEAF_ENTRY_LEN + LEAF_ENTRY_LEN \<le> PAGE_SIZE" if "k < length es" for k
    using that shape(3,4) by simp
  have keys: "read_u64 page (PAGE_HEADER_LEN + k * LEAF_ENTRY_LEN) = Inr (le_object_id (es ! k))"
      "read_u64 (drop (PAGE_HEADER_LEN + k * LEAF_ENTRY_LEN) page) 0 = Inr (le_object_id (es ! k))" if "k < length es" for k
    using entry_key [of page "PAGE_HEADER_LEN + k * LEAF_ENTRY_LEN" "es ! k"] all that shape(5) room [OF that] by simp_all
  have ends: "read_u64 (drop PAGE_HEADER_LEN page) 0 = Inr (lh_minimum h)" "read_u64 page (PAGE_HEADER_LEN + (length es - 1) * LEAF_ENTRY_LEN) = Inr (lh_maximum h)"
    using keys(2) [of 0] keys(1) [of "length es - 1"] ord(1-3) lookup_header_reads(2,3) [OF assms(2)] parse_page_leaf(3,4) [OF assms(1)]
    by (simp_all add: hd_conv_nth last_conv_nth)
  ultimately show ?thesis using shape ends
    by (auto simp: select_leaf_def Let_def usize_checked_mul_def usize_checked_add_def ok_or_def)
qed

lemma select_internal_loop_total:
  assumes "\<forall>k \<in> set is. internal_entry_parse (slice page (PAGE_HEADER_LEN + k * INTERNAL_ENTRY_LEN) (PAGE_HEADER_LEN + k * INTERNAL_ENTRY_LEN + INTERNAL_ENTRY_LEN)) = Inr (e k)"
    and "\<forall>k \<in> set is. checked_add (ie_level (e k)) 1 = Some (ucast (lh_level h))"
    and "sorted_wrt (\<lambda>a b. ie_max_key a < ie_min_key b) (map e is)" and "\<And>p k. prev = Some p \<Longrightarrow> k \<in> set is \<Longrightarrow> p < ie_min_key (e k)"
  shows "\<exists>sel'. select_internal_loop page h i is prev sel a b = Inr (sel', case a of None \<Rightarrow> (case is of [] \<Rightarrow> None | k # ks \<Rightarrow> Some (ie_min_key (e k))) | Some m \<Rightarrow> Some m,
    if is = [] then b else Some (ie_max_key (e (last is))))"
  using assms
proof (induction "is" arbitrary: prev sel a b)
  case (Cons k ks)
  have r: "internal_entry_parse (slice page (PAGE_HEADER_LEN + k * INTERNAL_ENTRY_LEN) (PAGE_HEADER_LEN + k * INTERNAL_ENTRY_LEN + INTERNAL_ENTRY_LEN)) = Inr (e k)" using Cons.prems(1) by simp
  have p: "\<not> (case prev of None \<Rightarrow> False | Some p \<Rightarrow> p \<ge> ie_min_key (e k))" using Cons.prems(4) by (auto simp: not_le split: option.splits)
  let ?a = "case a of None \<Rightarrow> Some (ie_min_key (e k)) | Some m \<Rightarrow> Some m"
  have rest: "\<exists>sel'. select_internal_loop page h i ks (Some (ie_max_key (e k))) sel1 ?a (Some (ie_max_key (e k))) =
      Inr (sel', case ?a of None \<Rightarrow> (case ks of [] \<Rightarrow> None | k # ks \<Rightarrow> Some (ie_min_key (e k))) | Some m \<Rightarrow> Some m,
        if ks = [] then Some (ie_max_key (e k)) else Some (ie_max_key (e (last ks))))" for sel1
    using Cons.prems(1-3) by (intro Cons.IH) auto
  obtain len where len: "read_u32 (slice page (PAGE_HEADER_LEN + k * INTERNAL_ENTRY_LEN) (PAGE_HEADER_LEN + k * INTERNAL_ENTRY_LEN + INTERNAL_ENTRY_LEN)) 24 = Inr len"
    "unat len = PAGE_SIZE" using internal_entry_checks(1) [OF r] by blast
  show ?case using internal_entry_reads [OF r] internal_entry_checks(2) [OF r] len p rest Cons.prems(2)
    by (auto simp: Let_def not_less split: option.splits)
qed (auto split: option.splits)

lemma select_internal_loop_ends:
  assumes "\<forall>k \<in> set is. internal_entry_parse (slice page (PAGE_HEADER_LEN + k * INTERNAL_ENTRY_LEN) (PAGE_HEADER_LEN + k * INTERNAL_ENTRY_LEN + INTERNAL_ENTRY_LEN)) = Inr (e k)"
    and "\<forall>k \<in> set is. checked_add (ie_level (e k)) 1 = Some (ucast (lh_level h))"
    and "sorted_wrt (\<lambda>a b. ie_max_key a < ie_min_key b) (map e is)" and "is \<noteq> []"
  shows "\<exists>sel. select_internal_loop page h i is None None None None = Inr (sel, Some (ie_min_key (e (hd is))), Some (ie_max_key (e (last is))))"
proof -
  have "\<exists>sel. select_internal_loop page h i is None None None None = Inr (sel, case None of None \<Rightarrow> (case is of [] \<Rightarrow> None | k # ks \<Rightarrow> Some (ie_min_key (e k))) | Some m \<Rightarrow> Some m,
    if is = [] then None else Some (ie_max_key (e (last is))))"
    by (rule select_internal_loop_total [OF assms(1-3)]) simp
  then show ?thesis using assms(4) by (cases "is") (simp_all del: select_internal_loop.simps)
qed

lemma select_internal_total:
  assumes "parse_page page = Inr (ParsedInternal ph cs)" and "lookup_parse_page_header page sequence = Inr h"
  shows "\<exists>sel. select_internal page h i = Inr sel"
proof -
  note shape = parse_page_internal_shape [OF assms]
  obtain cnt where cnt: "read_u16 page 8 = Inr cnt" and cs: "try_map (\<lambda>index. internal_entry_parse (slice page (PAGE_HEADER_LEN + index * INTERNAL_ENTRY_LEN)
      (PAGE_HEADER_LEN + index * INTERNAL_ENTRY_LEN + INTERNAL_ENTRY_LEN))) [0..<unat cnt] = Inr cs" using parse_page_internal(5) [OF assms(1)] by blast
  have n: "unat cnt = length cs" using try_map_length [OF cs] by simp
  have all: "\<forall>k \<in> set [0..<length cs]. internal_entry_parse (slice page (PAGE_HEADER_LEN + k * INTERNAL_ENTRY_LEN) (PAGE_HEADER_LEN + k * INTERNAL_ENTRY_LEN + INTERNAL_ENTRY_LEN)) = Inr (cs ! k)"
    using cs n by (simp add: try_map_Ok_iff list_all2_conv_all_nth)
  have ord: "cs \<noteq> []" "ie_min_key (hd cs) = ph_min_key ph" "ie_max_key (last cs) = ph_max_key ph" "\<forall>(a, b) \<in> set (windows2 cs). ie_max_key a < ie_min_key b"
    "\<forall>c \<in> set cs. checked_add (ie_level c) 1 = Some (ucast (ph_level ph))"
    using parse_page_internal(1) [OF assms(1)] by (auto simp: validate_internal_order_def not_le split: if_splits)
  have lev: "\<forall>k \<in> set [0..<length cs]. checked_add (ie_level (cs ! k)) 1 = Some (ucast (lh_level h))" using ord(5) shape(5) by simp
  have "sorted_wrt (\<lambda>a b. ie_max_key a < ie_min_key b) cs" using internal_chain_sorted [OF ord(4)] parse_page_children [OF assms(1)] by blast
  then have srt: "sorted_wrt (\<lambda>a b. ie_max_key a < ie_min_key b) (map ((!) cs) [0..<length cs])" by (simp add: map_nth)
  have rng: "lh_minimum h = ph_min_key ph" "lh_maximum h = ph_max_key ph"
    using lookup_header_reads(2,3) [OF assms(2)] parse_page_internal(3,4) [OF assms(1)] by simp_all
  have ne: "[0..<length cs] \<noteq> []" and ends: "hd [0..<length cs] = 0" "last [0..<length cs] = length cs - 1" using ord(1) by simp_all
  have keys: "ie_min_key (cs ! 0) = lh_minimum h" "ie_max_key (cs ! (length cs - 1)) = lh_maximum h" using ord(1-3) rng by (simp_all add: hd_conv_nth last_conv_nth)
  obtain sel where loop: "select_internal_loop page h i [0..<length cs] None None None None = Inr (sel, Some (lh_minimum h), Some (lh_maximum h))"
    using select_internal_loop_ends [OF all lev srt ne, of i] unfolding ends keys by blast
  have sz: "usize_checked_mul (length cs) INTERNAL_ENTRY_LEN = Some (length cs * INTERNAL_ENTRY_LEN)"
    "usize_checked_add PAGE_HEADER_LEN (length cs * INTERNAL_ENTRY_LEN) = Some (PAGE_HEADER_LEN + length cs * INTERNAL_ENTRY_LEN)"
    using shape(3,4) by (simp_all add: usize_checked_mul_def usize_checked_add_def)
  have "select_internal page h i = Inr sel"
    unfolding select_internal_def Let_def shape(4) using shape loop sz by (simp add: ok_or_def)
  then show ?thesis ..
qed

section \<open>The record\<close>

lemma slice_read:
  assumes "b \<le> length bs" and "a \<le> b" and "c + n \<le> b - a" and "length bs < 2 ^ 64"
  shows "read_array n (slice bs a b) c = Inr (slice bs (a + c) (a + c + n))"
proof -
  have "length (slice bs a b) = b - a" using assms by (simp add: slice_def)
  then show ?thesis using assms by (simp add: read_array_slice slice_slice add.assoc)
qed

lemma validate_selected_object_total:
  assumes "record_at sha bs e" and "unat (le_logical_len e) \<le> unat (vl_max_payload_bytes lim)" and "length bs < 2 ^ 64"
  shows "validate_selected_object sha (slice bs (fst (record_range e)) (snd (record_range e))) (leaf_selection e) lim = Inr ()"
proof -
  define a where "a = fst (record_range e)"
  define b where "b = snd (record_range e)"
  have r: "b \<le> length bs" "unat (le_record_len e) = 48 + unat (le_logical_len e)" "b = a + unat (le_record_len e)"
    and parse: "object_header_parse (slice bs a (a + 48)) = Inr (header_of_entry e)"
    using assms(1) by (simp_all add: record_at_def a_def b_def record_range_def)
  have dig: "digest_bytes sha OBJECT_DOMAIN (slice bs a b) = le_record_digest e" using assms(1) by (simp only: record_at_def a_def b_def)
  define R where "R = slice bs a b"
  define H where "H = slice bs a (a + 48)"
  have lens: "\<not> length R < 48" using r by (simp add: R_def slice_def)
  have rd: "read_array n R c = read_array n H c" if "c + n \<le> 48" for n c
    using that r assms(3) slice_read [of b bs a c n] slice_read [of "a + 48" bs a c n] by (simp add: R_def H_def)
  have sl: "slice R x y = slice H x y" if "y \<le> 48" for x y
    using that r by (simp add: R_def H_def slice_slice)
  have add: "checked_add 48 (le_logical_len e) = Some (le_record_len e)" using r(2) by (simp add: checked_add_Some_iff)
  have small: "\<not> vl_max_payload_bytes lim < le_logical_len e" using assms(2) by (simp add: word_less_nat_alt)
  show ?thesis unfolding a_def [symmetric] b_def [symmetric] R_def [symmetric]
    using parse [folded H_def] dig [folded R_def] add small lens
    by (auto simp: validate_selected_object_def object_header_parse_def read_u16_def read_u32_def read_u64_def rd sl leaf_selection_def header_of_entry_def result_simps
        ok_or_def split: if_splits)
qed

section \<open>The walk returns\<close>

definition expects :: "lookup_expected_page \<Rightarrow> expected_page \<Rightarrow> bool" where
  "expects x y \<longleftrightarrow> lx_offset x = ep_offset y \<and> lx_digest x = ep_digest y \<and> lx_level x = ep_level y \<and>
     (case lx_minimum x of None \<Rightarrow> True | Some k \<Rightarrow> k = ep_min_key y \<and> k \<noteq> 0) \<and> (case lx_maximum x of None \<Rightarrow> True | Some k \<Rightarrow> k = ep_max_key y \<and> k \<noteq> - 1)"

text \<open>The budget of a lookup before it reads a page.\<close>

definition may_read :: "authenticated_lookup_limits \<Rightarrow> usize \<Rightarrow> u64 \<Rightarrow> bool" where
  "may_read lim n hashed \<longleftrightarrow> n + 1 \<le> al_max_page_reads lim \<and> n + 1 \<le> vl_max_page_depth (al_validation lim) \<and> n + 1 \<le> vl_max_pages (al_validation lim) \<and>
     n + 1 < 2 ^ 64 \<and> unat hashed + PAGE_SIZE \<le> unat (vl_max_hashed_bytes (al_validation lim))"

definition may_select :: "(bytes \<Rightarrow> bytes) \<Rightarrow> bytes \<Rightarrow> authenticated_lookup_limits \<Rightarrow> usize \<times> usize \<Rightarrow> usize \<Rightarrow> u64 \<Rightarrow> (usize \<times> usize) list \<Rightarrow> leaf_entry \<Rightarrow> bool" where
  "may_select sha bs lim sr fo hashed rs e \<longleftrightarrow> record_at sha bs e \<and> record_clear rs sr (fo, length bs) e \<and>
     unat (le_logical_len e) \<le> unat (vl_max_payload_bytes (al_validation lim)) \<and> unat hashed + unat (le_record_len e) \<le> unat (vl_max_hashed_bytes (al_validation lim))"

lemma lookup_selected_total:
  assumes "may_select sha bs lim sr fo hashed rs e" and "length bs < 2 ^ 64"
  shows "\<exists>r. lookup_selected sha bs lim sequence sr fo n hashed rs (leaf_selection e) = Inr (Some r)"
proof -
  have at: "record_at sha bs e" and clear: "record_clear rs sr (fo, length bs) e" and small: "unat (le_logical_len e) \<le> unat (vl_max_payload_bytes (al_validation lim))"
    and fits: "unat hashed + unat (le_record_len e) \<le> unat (vl_max_hashed_bytes (al_validation lim))" using assms(1) by (simp_all add: may_select_def)
  obtain a b where ab: "record_range e = (a, b)" by (cases "record_range e")
  then have rng: "a = unat (le_record_offset e)" "b = a + unat (le_record_len e)" "b \<le> length bs" "unat (le_record_len e) = 48 + unat (le_logical_len e)"
    using at by (auto simp: record_range_def record_at_def)
  have r: "x2_checked_range (le_record_offset e) (le_record_len e) (length bs) = Inr (a, b)" using rng assms(2) by (simp add: x2_checked_range_Ok)
  have cl: "\<not> overlaps_any (a, b) rs" "\<not> ranges_overlap (a, b) sr" "\<not> ranges_overlap (a, b) (fo, length bs)" using clear ab by (simp_all add: record_clear_def)
  define hashed' where "hashed' = hashed + le_record_len e"
  have "unat hashed + unat (le_record_len e) < 2 ^ 64" using fits by (rule le_unat_64)
  then have u: "unat hashed' = unat hashed + unat (le_record_len e)" by (simp add: hashed'_def unat_word_ariths)
  have add: "checked_add hashed (le_record_len e) = Some hashed'" using u by (simp add: checked_add_Some_iff)
  have chk: "check_hashed hashed' lim = Inr ()" using u fits by (simp add: check_hashed_def word_less_nat_alt)
  have obj: "validate_selected_object sha (slice bs a b) (leaf_selection e) (al_validation lim) = Inr ()"
    using validate_selected_object_total [OF at small assms(2)] ab by simp
  have "\<exists>v. checked_add (le_record_offset e) 48 = Some v" using rng assms(2) by (simp add: checked_add_def unat_word_ariths)
  moreover have "\<exists>v. checked_sub (le_record_len e) 48 = Some v" using rng(4) by (simp add: checked_sub_def word_le_nat_alt)
  ultimately show ?thesis using r cl add chk obj by (auto simp: lookup_selected_def leaf_selection_def ok_or_def)
qed

lemma lookup_pages_enter:
  assumes m: "page_matches sha bs sequence y p" and x: "expects x y" and b: "may_read lim n hashed" and lt: "length bs < 2 ^ 64"
  obtains h hashed' where "lookup_parse_page_header (slice bs (fst (page_span (ep_offset y))) (snd (page_span (ep_offset y)))) sequence = Inr h"
    "unat hashed' = unat hashed + PAGE_SIZE" "lh_minimum h = ph_min_key (parsed_header p)" "lh_maximum h = ph_max_key (parsed_header p)"
    "i < lh_minimum h \<or> lh_maximum h < i \<Longrightarrow> lookup_pages sha bs i lim sequence sr fo x n hashed rs = Inr None"
    "lh_minimum h \<le> i \<Longrightarrow> i \<le> lh_maximum h \<Longrightarrow> lh_kind h = 1 \<Longrightarrow>
      select_leaf (slice bs (fst (page_span (ep_offset y))) (snd (page_span (ep_offset y)))) h i = Inr None \<Longrightarrow>
      lookup_pages sha bs i lim sequence sr fo x n hashed rs = Inr None"
    "\<And>e. lh_minimum h \<le> i \<Longrightarrow> i \<le> lh_maximum h \<Longrightarrow> lh_kind h = 1 \<Longrightarrow>
      select_leaf (slice bs (fst (page_span (ep_offset y))) (snd (page_span (ep_offset y)))) h i = Inr (Some (leaf_selection e)) \<Longrightarrow>
      may_select sha bs lim sr fo hashed' (rs @ [page_span (ep_offset y)]) e \<Longrightarrow> \<exists>r. lookup_pages sha bs i lim sequence sr fo x n hashed rs = Inr (Some r)"
    "lh_minimum h \<le> i \<Longrightarrow> i \<le> lh_maximum h \<Longrightarrow> lh_kind h = 2 \<Longrightarrow>
      select_internal (slice bs (fst (page_span (ep_offset y))) (snd (page_span (ep_offset y)))) h i = Inr None \<Longrightarrow>
      lookup_pages sha bs i lim sequence sr fo x n hashed rs = Inr None"
    "\<And>c. lh_minimum h \<le> i \<Longrightarrow> i \<le> lh_maximum h \<Longrightarrow> lh_kind h = 2 \<Longrightarrow>
      select_internal (slice bs (fst (page_span (ep_offset y))) (snd (page_span (ep_offset y)))) h i = Inr (Some c) \<Longrightarrow>
      lookup_pages sha bs i lim sequence sr fo x n hashed rs = lookup_pages sha bs i lim sequence sr fo c (n + 1) hashed' (rs @ [page_span (ep_offset y)])"
proof -
  define page where "page = slice bs (fst (page_span (ep_offset y))) (snd (page_span (ep_offset y)))"
  define hashed' where "hashed' = hashed + (16384 :: u64)"
  obtain a s where span: "page_span (ep_offset y) = (a, s)" by (cases "page_span (ep_offset y)")
  have rng: "x2_checked_range (lx_offset x) 16384 (length bs) = Inr (a, s)" using m x span by (simp add: x2_page_span page_matches_def expects_def)
  have pg: "slice bs a s = page" using span by (simp add: page_def)
  have fits: "unat hashed + 16384 \<le> unat (vl_max_hashed_bytes (al_validation lim))" using b by (simp add: may_read_def)
  then have "unat hashed + 16384 < 2 ^ 64" by (rule le_unat_64)
  then have u: "unat hashed' = unat hashed + 16384" by (simp add: hashed'_def unat_word_ariths)
  then have add: "checked_add hashed 16384 = Some hashed'" by (simp add: checked_add_Some_iff)
  have chk: "check_hashed hashed' lim = Inr ()" using u fits by (simp add: check_hashed_def word_less_nat_alt)
  have n1: "usize_checked_add n 1 = Some (n + 1)" "\<not> (n + 1 > al_max_page_reads lim \<or> n + 1 > vl_max_page_depth (al_validation lim) \<or> n + 1 > vl_max_pages (al_validation lim))"
    using b by (simp_all add: may_read_def usize_checked_add_def)
  have pp: "parse_page page = Inr p" "digest_bytes sha PAGE_DOMAIN page = lx_digest x" "ph_sequence (parsed_header p) = sequence"
    using m x by (simp_all add: page_matches_def page_def expects_def)
  obtain h where h: "lookup_parse_page_header page sequence = Inr h" "lh_level h = ph_level (parsed_header p)" "lh_minimum h = ph_min_key (parsed_header p)"
    "lh_maximum h = ph_max_key (parsed_header p)" using lookup_header_total [OF pp(1)] pp(3) by blast
  have ok: "\<not> (ucast (lh_level h) \<noteq> lx_level x \<or> (case lx_minimum x of None \<Rightarrow> False | Some v \<Rightarrow> v \<noteq> lh_minimum h) \<or>
        (case lx_maximum x of None \<Rightarrow> False | Some v \<Rightarrow> v \<noteq> lh_maximum h))"
    using m x h(2-4) by (auto simp: page_matches_def expects_def split: option.splits)
  have run: "lookup_pages sha bs i lim sequence sr fo x n hashed rs = (if i < lh_minimum h \<or> lh_maximum h < i then Inr None else
     if lh_kind h = 1 then
       and_then (select_leaf page h i) (\<lambda>selected.
       case selected of None \<Rightarrow> Inr None
       | Some selected \<Rightarrow> lookup_selected sha bs lim sequence sr fo (n + 1) hashed' (rs @ [(a, s)]) selected)
     else if lh_kind h = 2 then
       and_then (select_internal page h i) (\<lambda>child.
       case child of None \<Rightarrow> Inr None
       | Some child \<Rightarrow> lookup_pages sha bs i lim sequence sr fo child (n + 1) hashed' (rs @ [(a, s)]))
     else Inl X2InvalidPageKind)"
    by (subst lookup_pages.simps) (simp only: n1 rng add chk h(1) ok pg pp(2) ok_or_def option.case and_then_simps Let_def if_False prod.case refl simp_thms)
  show thesis
  proof (rule that [OF h(1) [unfolded page_def] u h(3,4)])
    fix e assume e: "lh_minimum h \<le> i" "i \<le> lh_maximum h" "lh_kind h = 1" "select_leaf (slice bs (fst (page_span (ep_offset y))) (snd (page_span (ep_offset y)))) h i = Inr (Some (leaf_selection e))"
      and sel: "may_select sha bs lim sr fo hashed' (rs @ [page_span (ep_offset y)]) e"
    then show "\<exists>r. lookup_pages sha bs i lim sequence sr fo x n hashed rs = Inr (Some r)"
      using lookup_selected_total [OF sel lt] run span by (simp add: page_def not_less)
  qed (use run span page_def in \<open>auto simp: not_less\<close>)
qed

text \<open>The budget of a lookup before it walks a tree: the pages and records of the tree fit, and no record overlaps the pages.\<close>

definition may_walk :: "(bytes \<Rightarrow> bytes) \<Rightarrow> bytes \<Rightarrow> authenticated_lookup_limits \<Rightarrow> usize \<times> usize \<Rightarrow> usize \<Rightarrow> usize \<Rightarrow> u64 \<Rightarrow> (usize \<times> usize) list \<Rightarrow> page_tree \<Rightarrow> bool" where
  "may_walk sha bs lim sr fo n hashed R t \<longleftrightarrow> n + length (tree_pages t) \<le> vl_max_pages (al_validation lim) \<and> n + length (tree_pages t) < 2 ^ 64 \<and>
     page_span ` set (tree_pages t) \<subseteq> set R \<and>
     unat hashed + PAGE_SIZE * length (tree_pages t) + record_sum (tree_entries t) \<le> unat (vl_max_hashed_bytes (al_validation lim)) \<and>
     (\<forall>e \<in> set (tree_entries t). record_at sha bs e \<and> record_clear R sr (fo, length bs) e \<and> unat (le_logical_len e) \<le> unat (vl_max_payload_bytes (al_validation lim)))"

lemma record_sum_member: "e \<in> set es \<Longrightarrow> unat (le_record_len e) \<le> record_sum es"
  by (induction es) auto

lemma forest_sums:
  assumes "t \<in> set ts"
  shows "length (tree_pages t) \<le> length (forest_pages ts)" "record_sum (tree_entries t) \<le> record_sum (forest_entries ts)"
  using assms by (induction ts) auto

lemma may_walk_child:
  assumes "may_walk sha bs lim sr fo n hashed R (NodePage off ts)" and "t \<in> set ts" and "unat hashed' = unat hashed + PAGE_SIZE"
  shows "may_walk sha bs lim sr fo (n + 1) hashed' R t"
proof -
  note sums = forest_sums [OF assms(2)]
  have "page_span ` set (tree_pages t) \<subseteq> set R" using assms(1,2) by (auto simp: may_walk_def)
  moreover have "\<forall>e \<in> set (tree_entries t). record_at sha bs e \<and> record_clear R sr (fo, length bs) e \<and> unat (le_logical_len e) \<le> unat (vl_max_payload_bytes (al_validation lim))"
    using assms(1,2) by (auto simp: may_walk_def)
  moreover have "unat hashed' + PAGE_SIZE * length (tree_pages t) + record_sum (tree_entries t) \<le> unat (vl_max_hashed_bytes (al_validation lim))"
    using assms(1,3) sums by (simp add: may_walk_def)
  ultimately show ?thesis using assms(1) sums(1) by (simp add: may_walk_def)
qed

lemma may_walk_read:
  assumes "may_walk sha bs lim sr fo n hashed R t" and "stored sha bs sequence (al_validation lim) y t" and "ep_depth y = n + 1"
    and "vl_max_page_depth (al_validation lim) \<le> al_max_page_reads lim"
  shows "may_read lim n hashed"
  using assms by (cases t) (simp_all add: may_walk_def may_read_def)

lemma may_walk_select:
  assumes "may_walk sha bs lim sr fo n hashed R (LeafPage off es)" and "e \<in> set es" and "unat hashed' = unat hashed + PAGE_SIZE" and "set rs \<subseteq> set R"
  shows "may_select sha bs lim sr fo hashed' (rs @ [page_span off]) e"
proof -
  have "record_clear R sr (fo, length bs) e" "page_span off \<in> set R" using assms(1,2) by (simp_all add: may_walk_def)
  then have "record_clear (rs @ [page_span off]) sr (fo, length bs) e" using assms(4) by (auto simp: record_clear_def overlaps_any_def)
  then show ?thesis using assms(1-3) record_sum_member [OF assms(2)] by (simp add: may_walk_def may_select_def)
qed

lemma child_max_key:
  assumes "parse_page page = Inr (ParsedInternal ph cs)" and "c \<in> set cs"
  shows "ph_max_key ph \<noteq> - 1 \<Longrightarrow> ie_max_key c \<noteq> - 1"
proof -
  have order: "ie_max_key (last cs) = ph_max_key ph" "\<forall>(a, b) \<in> set (windows2 cs). ie_max_key a < ie_min_key b" "\<forall>c \<in> set cs. ie_min_key c \<le> ie_max_key c"
    using parse_page_internal(1) [OF assms(1)] parse_page_children [OF assms(1)] by (auto simp: validate_internal_order_def not_le split: if_splits)
  then have le: "ie_max_key c \<le> ph_max_key ph" using chain_within [OF order(2,3)] assms(2) by simp
  assume "ph_max_key ph \<noteq> - 1"
  then show "ie_max_key c \<noteq> - 1" using le by (metis max_word_max order.antisym)
qed

lemma lookup_pages_total:
  assumes "stored sha bs sequence (al_validation lim) y t" and "expects x y" and "ep_depth y = n + 1" and "may_walk sha bs lim sr fo n hashed R t" and "set rs \<subseteq> set R"
    and "\<And>p. page_matches sha bs sequence y p \<Longrightarrow> ph_max_key (parsed_header p) \<noteq> - 1"
    and "vl_max_page_depth (al_validation lim) \<le> al_max_page_reads lim" and "length bs < 2 ^ 64"
  shows "\<exists>res. lookup_pages sha bs i lim sequence sr fo x n hashed rs = Inr res"
  using assms
proof (induction t arbitrary: x y n hashed rs)
  case (LeafPage off es)
  let ?page = "slice bs (fst (page_span (ep_offset y))) (snd (page_span (ep_offset y)))"
  obtain ph where m: "page_matches sha bs sequence y (ParsedLeaf ph es)" and off: "ep_offset y = off" using LeafPage.prems(1) by auto
  have p: "parse_page ?page = Inr (ParsedLeaf ph es)" using m by (simp add: page_matches_def)
  have b: "may_read lim n hashed" by (rule may_walk_read [OF LeafPage.prems(4,1,3,7)])
  show ?case
  proof (rule lookup_pages_enter [OF m LeafPage.prems(2) b LeafPage.prems(8), of i sr fo rs])
    fix h hashed' assume h: "lookup_parse_page_header ?page sequence = Inr h" and u: "unat hashed' = unat hashed + PAGE_SIZE"
      and out: "i < lh_minimum h \<or> lh_maximum h < i \<Longrightarrow> lookup_pages sha bs i lim sequence sr fo x n hashed rs = Inr None"
      and none: "lh_minimum h \<le> i \<Longrightarrow> i \<le> lh_maximum h \<Longrightarrow> lh_kind h = 1 \<Longrightarrow> select_leaf ?page h i = Inr None \<Longrightarrow>
        lookup_pages sha bs i lim sequence sr fo x n hashed rs = Inr None"
      and some: "\<And>e. lh_minimum h \<le> i \<Longrightarrow> i \<le> lh_maximum h \<Longrightarrow> lh_kind h = 1 \<Longrightarrow> select_leaf ?page h i = Inr (Some (leaf_selection e)) \<Longrightarrow>
        may_select sha bs lim sr fo hashed' (rs @ [page_span (ep_offset y)]) e \<Longrightarrow> \<exists>r. lookup_pages sha bs i lim sequence sr fo x n hashed rs = Inr (Some r)"
    have k: "lh_kind h = 1" using lookup_header_reads(1) [OF h] parse_page_leaf(2) [OF p] by simp
    obtain sel where sel: "select_leaf ?page h i = Inr sel" using select_leaf_total [OF p h] by blast
    show ?thesis
    proof (cases "lh_minimum h \<le> i \<and> i \<le> lh_maximum h")
      case True
      then show ?thesis
      proof (cases sel)
        case (Some a)
        then obtain e where "e \<in> set es" "select_leaf ?page h i = Inr (Some (leaf_selection e))" using select_leaf_spec [OF p h sel] sel by auto
        then show ?thesis using some [OF _ _ k] True may_walk_select [OF LeafPage.prems(4) _ u LeafPage.prems(5)] off by blast
      qed (use none k sel in blast)
    qed (use out in \<open>auto simp: not_le\<close>)
  qed
next
  case (NodePage off ts)
  let ?page = "slice bs (fst (page_span (ep_offset y))) (snd (page_span (ep_offset y)))"
  obtain ph cs where m: "page_matches sha bs sequence y (ParsedInternal ph cs)" and off: "ep_offset y = off"
    and l: "list_all2 (\<lambda>c t. stored sha bs sequence (al_validation lim) (expect_child y c) t) cs ts" using NodePage.prems(1) by auto
  have p: "parse_page ?page = Inr (ParsedInternal ph cs)" using m by (simp add: page_matches_def)
  have b: "may_read lim n hashed" by (rule may_walk_read [OF NodePage.prems(4,1,3,7)])
  show ?case
  proof (rule lookup_pages_enter [OF m NodePage.prems(2) b NodePage.prems(8), of i sr fo rs])
    fix h hashed' assume h: "lookup_parse_page_header ?page sequence = Inr h" and u: "unat hashed' = unat hashed + PAGE_SIZE"
      and out: "i < lh_minimum h \<or> lh_maximum h < i \<Longrightarrow> lookup_pages sha bs i lim sequence sr fo x n hashed rs = Inr None"
      and none: "lh_minimum h \<le> i \<Longrightarrow> i \<le> lh_maximum h \<Longrightarrow> lh_kind h = 2 \<Longrightarrow> select_internal ?page h i = Inr None \<Longrightarrow>
        lookup_pages sha bs i lim sequence sr fo x n hashed rs = Inr None"
      and some: "\<And>c. lh_minimum h \<le> i \<Longrightarrow> i \<le> lh_maximum h \<Longrightarrow> lh_kind h = 2 \<Longrightarrow> select_internal ?page h i = Inr (Some c) \<Longrightarrow>
        lookup_pages sha bs i lim sequence sr fo x n hashed rs = lookup_pages sha bs i lim sequence sr fo c (n + 1) hashed' (rs @ [page_span (ep_offset y)])"
    have k: "lh_kind h = 2" using lookup_header_reads(1) [OF h] parse_page_internal(2) [OF p] by simp
    obtain sel where sel: "select_internal ?page h i = Inr sel" using select_internal_total [OF p h] by blast
    show ?thesis
    proof (cases "lh_minimum h \<le> i \<and> i \<le> lh_maximum h")
      case True
      then show ?thesis
      proof (cases sel)
        case (Some a)
        then obtain c where c: "c \<in> set cs" "a = child_selection c" using select_internal_spec [OF p h sel] by auto
        obtain t where t: "t \<in> set ts" "stored sha bs sequence (al_validation lim) (expect_child y c) t"
          using c(1) l by (metis in_set_conv_nth list_all2_conv_all_nth)
        have max: "ie_max_key c \<noteq> - 1" using child_max_key [OF p c(1)] NodePage.prems(6) [OF m] by simp
        have "ie_min_key c \<noteq> 0" using parse_page_children [OF p] c(1) by blast
        then have x: "expects a (expect_child y c)" using max by (simp add: expects_def c(2) child_selection_def expect_child_def)
        have "\<exists>res. lookup_pages sha bs i lim sequence sr fo a (n + 1) hashed' (rs @ [page_span (ep_offset y)]) = Inr res"
        proof (rule NodePage.IH [OF t(1,2) x _ may_walk_child [OF NodePage.prems(4) t(1) u] _ _ NodePage.prems(7,8)])
          show "ep_depth (expect_child y c) = n + 1 + 1" using NodePage.prems(3) by (simp add: expect_child_def)
          show "set (rs @ [page_span (ep_offset y)]) \<subseteq> set R" using NodePage.prems(4,5) off by (simp add: may_walk_def)
          show "ph_max_key (parsed_header q) \<noteq> - 1" if "page_matches sha bs sequence (expect_child y c) q" for q
            using that max by (simp add: page_matches_def expect_child_def)
        qed
        then show ?thesis using some [OF _ _ k] True sel Some by simp
      qed (use none k sel in blast)
    qed (use out in \<open>auto simp: not_le\<close>)
  qed
qed

end
