(* ===== verification/Ucof_Exp2_Rewrite.thy ===== *)
theory Ucof_Exp2_Rewrite
  imports Ucof_Exp2_Properties
begin

text \<open>
  \<open>exp0002_rewrite.rs\<close>: repair of a verified source into a new genesis file and rewriting of a selection of its
  objects, and that the new file holds exactly the selected objects with their bytes.
\<close>

section \<open>Model\<close>

record rewrite_limits =
  rl_validation :: validation_limits
  rl_max_objects_copied :: usize
  rl_max_payload_bytes_copied :: u64
  rl_max_output_bytes :: u64

definition rewrite_limits_default :: rewrite_limits where
  "rewrite_limits_default = \<lparr>rl_validation = validation_limits_default, rl_max_objects_copied = 10000000,
     rl_max_payload_bytes_copied = 17179869184, rl_max_output_bytes = 17179869184\<rparr>"

record rewrite_report =
  rw_output :: bytes
  rw_source_snapshot_digest :: bytes
  rw_output_snapshot_digest :: bytes
  rw_source_commit_digest :: bytes
  rw_output_commit_digest :: bytes
  rw_snapshot_digest_preserved :: bool
  rw_commit_digest_preserved :: bool
  rw_byte_scoped_signatures_preserved :: bool
  rw_source_object_count :: usize
  rw_output_object_count :: usize
  rw_payload_bytes_copied :: u64

text \<open>The loop over the retained entries: bytes copied so far and the inputs of the new file.\<close>

fun copy_objects :: "bytes \<Rightarrow> u64 set \<Rightarrow> rewrite_limits \<Rightarrow> leaf_entry list \<Rightarrow> u64 \<Rightarrow> object_input list \<Rightarrow> (u64 \<times> object_input list) x2_result" where
  "copy_objects source rts lim [] copied inputs = Inr (copied, inputs)"
| "copy_objects source rts lim (entry # entries) copied inputs =
     and_then (ok_or (X2InvalidLength ''object record'') (checked_sub (le_record_len entry) 48)) (\<lambda>payload_len.
     and_then (ok_or X2ArithmeticOverflow (checked_add copied payload_len)) (\<lambda>copied.
     if copied > rl_max_payload_bytes_copied lim then Inl (X2ResourceLimit ''rewrite payload bytes'') else
     and_then (ok_or X2ArithmeticOverflow (checked_add (le_record_offset entry) 48)) (\<lambda>payload_start.
     and_then (ok_or X2ArithmeticOverflow (checked_add payload_start payload_len)) (\<lambda>payload_end.
     and_then (ok_or X2ArithmeticOverflow (usize_try_from payload_start)) (\<lambda>start.
     and_then (ok_or X2ArithmeticOverflow (usize_try_from payload_end)) (\<lambda>stop.
     and_then (ok_or X2Truncated (byte_get source start stop)) (\<lambda>payload.
     copy_objects source rts lim entries copied
       (inputs @ [\<lparr>oi_object_id = le_object_id entry, oi_kind = le_kind entry, oi_payload = payload, oi_is_root = le_object_id entry \<in> rts\<rparr>]))))))))"

definition rewrite_verified :: "(bytes \<Rightarrow> bytes) \<Rightarrow> bytes \<Rightarrow> verified_exp0002 \<Rightarrow> x2_file_header \<Rightarrow> u64 list \<Rightarrow> u64 list \<Rightarrow> rewrite_limits \<Rightarrow> rewrite_report x2_result" where
  "rewrite_verified sha source verified output_header retained_object_ids output_roots lim =
     (if length retained_object_ids > rl_max_objects_copied lim then Inl (X2ResourceLimit ''rewrite objects'') else
      let retained = set retained_object_ids; rts = set output_roots in
      and_then (copy_objects source rts lim (filter (\<lambda>entry. le_object_id entry \<in> retained) (vx_objects verified)) 0 []) (\<lambda>(copied, inputs).
      if length inputs \<noteq> length retained_object_ids then Inl X2InvalidObjectId else
      and_then (build_genesis sha output_header inputs) (\<lambda>output.
      and_then (ok_or X2ArithmeticOverflow (u64_try_from (length output))) (\<lambda>output_len.
      if output_len > rl_max_output_bytes lim then Inl (X2ResourceLimit ''rewrite output bytes'') else
      and_then (validate_strict sha output (rl_validation lim)) (\<lambda>output_verified.
      let source_snapshot_digest = xf_snapshot_digest (vx_footer verified);
          output_snapshot_digest = xf_snapshot_digest (vx_footer output_verified);
          source_commit_digest = xf_commit_digest (vx_footer verified);
          output_commit_digest = xf_commit_digest (vx_footer output_verified) in
      Inr \<lparr>rw_output = output, rw_source_snapshot_digest = source_snapshot_digest, rw_output_snapshot_digest = output_snapshot_digest,
        rw_source_commit_digest = source_commit_digest, rw_output_commit_digest = output_commit_digest,
        rw_snapshot_digest_preserved = (source_snapshot_digest = output_snapshot_digest),
        rw_commit_digest_preserved = (source_commit_digest = output_commit_digest),
        rw_byte_scoped_signatures_preserved = False, rw_source_object_count = length (vx_objects verified),
        rw_output_object_count = length (vx_objects output_verified), rw_payload_bytes_copied = copied\<rparr>)))))"

definition validate_canonical_ids :: "u64 list \<Rightarrow> string \<Rightarrow> unit x2_result" where
  "validate_canonical_ids values name =
     (if (values \<noteq> [] \<and> hd values = 0) \<or> (\<exists>(a, b) \<in> set (windows2 values). a \<ge> b)
      then Inl (if name = ''output roots'' then X2InvalidRoot else X2InvalidObjectId) else Inr ())"

definition repair_all_to_new_file :: "(bytes \<Rightarrow> bytes) \<Rightarrow> bytes \<Rightarrow> x2_file_header \<Rightarrow> rewrite_limits \<Rightarrow> rewrite_report x2_result" where
  "repair_all_to_new_file sha source output_header lim =
     and_then (validate_strict sha source (rl_validation lim)) (\<lambda>verified.
     let retained = map le_object_id (vx_objects verified) in
     rewrite_verified sha source verified output_header retained (xs_roots (vx_snapshot verified)) lim)"

definition rewrite_selected_to_new_file :: "(bytes \<Rightarrow> bytes) \<Rightarrow> bytes \<Rightarrow> x2_file_header \<Rightarrow> u64 list \<Rightarrow> u64 list \<Rightarrow> rewrite_limits \<Rightarrow> rewrite_report x2_result" where
  "rewrite_selected_to_new_file sha source output_header retained_object_ids output_roots lim =
     and_then (validate_strict sha source (rl_validation lim)) (\<lambda>verified.
     and_then (validate_canonical_ids retained_object_ids ''retained object identifiers'') (\<lambda>_.
     and_then (validate_canonical_ids output_roots ''output roots'') (\<lambda>_.
     if retained_object_ids = [] then Inl X2EmptyObjectSet else
     if output_roots = [] then Inl X2NoRootObjects else
     if \<exists>root \<in> set output_roots. root \<notin> set retained_object_ids then Inl X2InvalidRoot else
     if \<exists>object_id \<in> set retained_object_ids. object_id \<notin> set (map le_object_id (vx_objects verified)) then Inl X2InvalidObjectId else
     rewrite_verified sha source verified output_header retained_object_ids output_roots lim)))"

section \<open>What validation returns does not depend on the limits\<close>

lemma stored_unique: "stored sha bs sequence lim x t \<Longrightarrow> stored sha bs sequence lim' x t' \<Longrightarrow> t = t'"
proof (induction t arbitrary: x t')
  case (LeafPage offset es)
  then show ?case by (cases t') (auto simp: page_matches_def)
next
  case (NodePage offset ts)
  obtain h cs where m: "page_matches sha bs sequence x (ParsedInternal h cs)" "ep_offset x = offset"
    and l: "list_all2 (\<lambda>c t. stored sha bs sequence lim (expect_child x c) t) cs ts" using NodePage.prems(1) by auto
  obtain ts' where t': "t' = NodePage offset ts'" and l': "list_all2 (\<lambda>c t. stored sha bs sequence lim' (expect_child x c) t) cs ts'"
    using NodePage.prems(2) m by (cases t') (auto simp: page_matches_def)
  have "ts = ts'"
  proof (rule nth_equalityI)
    show "length ts = length ts'" using list_all2_lengthD [OF l] list_all2_lengthD [OF l'] by simp
    show "ts ! i = ts' ! i" if "i < length ts" for i
      using that l l' NodePage.IH [OF nth_mem [OF that]] by (auto simp: list_all2_conv_all_nth)
  qed
  then show ?case using t' by simp
qed

lemma snapshot_parse_unique: "snapshot_parse bs lim = Inr s \<Longrightarrow> snapshot_parse bs lim' = Inr s' \<Longrightarrow> s = s'"
  unfolding snapshot_parse_def by (clarsimp simp: result_simps Let_def split: if_splits prod.splits)

definition generous_limits :: validation_limits where
  "generous_limits = \<lparr>vl_max_file_bytes = - 1, vl_max_commit_bytes = - 1, vl_max_snapshot_bytes = - 1, vl_max_pages = 2 ^ 64,
     vl_max_page_depth = 8, vl_max_objects = 2 ^ 64, vl_max_payload_bytes = - 1, vl_max_hashed_bytes = - 1, vl_max_roots = 2 ^ 32,
     vl_max_capabilities = 0\<rparr>"

text \<open>What validation finds in a file that a builder finished is what the builder put there.\<close>

lemma finish_commit_contents:
  assumes run: "finish_commit sha bs es rts sequence digest previous start rc = Inr fil" and sha: "\<And>x. length (sha x) = 32" and es: "entries_ok es"
    and dig: "length digest = 32" and hdr: "FILE_HEADER_LEN \<le> length bs" and valid: "validate_strict sha fil lim = Inr v"
  shows "vx_objects v = es" "xs_roots (vx_snapshot v) = rts" "xs_sequence (vx_snapshot v) = sequence" "\<exists>P. fil = bs @ P"
    "file_header_parse (take FILE_HEADER_LEN bs) = Inr (vx_header v)"
    "le_object_id (last es) \<noteq> - 1 \<Longrightarrow> \<exists>p. page_matches sha fil sequence (root_page (vx_snapshot v)) p \<and> ph_max_key (parsed_header p) = le_object_id (last es)"
proof -
  from finish_commit_shape [OF run] obtain bs1 c sb f where w: "write_directory sha bs es sequence = Inr (bs1, c)"
    and enc: "snapshot_encode (commit_snapshot sequence digest previous c rts) = Inr sb" and lt: "length (bs1 @ sb) < 2 ^ 64" "unat start \<le> length (bs1 @ sb)"
    and f: "xf_commit_start f = start" "unat (xf_commit_len f) = length (bs1 @ sb) - unat start" "unat (xf_snapshot_offset f) = length bs1"
    "unat (xf_snapshot_len f) = length sb" "xf_sequence f = sequence" "xf_previous_footer_offset f = previous" "xf_record_count f = rc"
    and fd: "xf_snapshot_digest f = digest_bytes sha SNAPSHOT_DOMAIN sb" "xf_commit_digest f = digest_commit sha (slice (bs1 @ sb) (unat start) (length (bs1 @ sb))) f"
    and fil: "fil = bs1 @ sb @ footer_encode f" by blast
  let ?s = "commit_snapshot sequence digest previous c rts"
  have "length bs1 < 2 ^ 64" using lt by simp
  note dir = write_directory_spec(1) [OF w this sha es, of generous_limits] write_directory_spec(2) [OF w this sha es]
  obtain t where t: "located sha bs1 sequence generous_limits c t" "tree_entries t = es" "unat (pl_level c) \<le> 7" using dir(1) by blast
  obtain P where P: "bs1 = bs @ P" using dir(2) by blast
  show "\<exists>P. fil = bs @ P" using fil P by simp
  have cv: "commit_valid sha fil lim v" by (rule validate_strict_valid [OF valid])
  have fw: "footer_wf f" by (simp add: footer_wf_def fd digest_bytes_def digest_commit_def sha)
  have "unat (vx_footer_offset v) + 160 = length fil" using cv by (simp add: commit_valid_def Let_def)
  then have off: "unat (vx_footer_offset v) = length (bs1 @ sb)" using length_footer_encode [OF fw] by (simp add: fil)
  then have "drop (unat (vx_footer_offset v)) fil = footer_encode f" by (simp add: fil)
  then have vf: "vx_footer v = f" using cv footer_round_trip [OF fw] by (simp add: commit_valid_def Let_def)
  have "snapshot_bytes fil f = sb" by (simp add: snapshot_bytes_def f fil slice_def)
  then have sp: "snapshot_parse sb lim = Inr (vx_snapshot v)" using cv vf by (simp add: commit_valid_def Let_def)
  have "snapshot_valid ?s" using enc by (simp add: snapshot_encode_iff)
  then have "length rts < 2 ^ 32" by (simp add: snapshot_valid_def commit_snapshot_def)
  then have "snapshot_fits generous_limits ?s" by (simp add: snapshot_fits_def generous_limits_def commit_snapshot_def unsigned_minus_1_eq_mask mask_eq_exp_minus_1)
  moreover have "snapshot_wf ?s" using dig t(1) by (simp add: snapshot_wf_def commit_snapshot_def located_def)
  ultimately have "snapshot_parse sb generous_limits = Inr ?s" using snapshot_round_trip [OF enc] by blast
  then have vs: "vx_snapshot v = ?s" using snapshot_parse_unique [OF sp] by blast
  then show "xs_roots (vx_snapshot v) = rts" "xs_sequence (vx_snapshot v) = sequence" by (simp_all add: commit_snapshot_def)
  obtain t' where t': "stored sha fil sequence lim (root_page ?s) t'" "vx_objects v = sort_key le_object_id (tree_entries t')"
    using cv vs by (auto simp: commit_valid_def Let_def commit_snapshot_def)
  have loc: "located sha fil sequence generous_limits c t" using located_append [OF t(1)] by (simp add: fil)
  moreover have "refers (root_page ?s) c" "ep_depth (root_page ?s) + unat (pl_level c) \<le> vl_max_page_depth generous_limits"
    using t(3) by (simp_all add: refers_def root_page_def commit_snapshot_def generous_limits_def)
  ultimately have "stored sha fil sequence generous_limits (root_page ?s) t" unfolding located_def by blast
  then have "t' = t" using stored_unique t'(1) by blast
  moreover have "sort_key le_object_id es = es" using es by (intro sort_key_id_if_sorted) (simp add: entries_ok_def strict_sorted_imp_sorted)
  ultimately show "vx_objects v = es" using t'(2) t(2) by simp
  have "take 64 fil = take 64 bs" using hdr by (simp add: fil P)
  then show "file_header_parse (take FILE_HEADER_LEN bs) = Inr (vx_header v)" using cv by (simp add: commit_valid_def Let_def)
  let ?x = "(root_page ?s)\<lparr>ep_max_key := pl_max_key c\<rparr>"
  have "refers ?x c" "ep_depth ?x + unat (pl_level c) \<le> vl_max_page_depth generous_limits" "pl_max_key c = le_object_id (last es)"
    using t(2,3) loc by (simp_all add: refers_def root_page_def commit_snapshot_def generous_limits_def located_def)
  then have "stored sha fil sequence generous_limits ?x t" and mx: "pl_max_key c = le_object_id (last es)" using loc unfolding located_def by blast+
  then obtain p where "page_matches sha fil sequence ?x p" by (cases t) auto
  moreover assume "le_object_id (last es) \<noteq> - 1"
  ultimately show "\<exists>p. page_matches sha fil sequence (root_page (vx_snapshot v)) p \<and> ph_max_key (parsed_header p) = le_object_id (last es)"
    using mx vs by (auto simp: page_matches_def root_page_def)
qed

lemma build_genesis_contents:
  assumes "build_genesis sha header objs = Inr fil" and "\<And>x. length (sha x) = 32" and "file_header_wf header" and "validate_strict sha fil lim = Inr v"
  shows "vx_header v = header" "xs_sequence (vx_snapshot v) = 0" "xs_roots (vx_snapshot v) = sort (map oi_object_id (filter oi_is_root objs))"
    "list_all2 (object_stored fil) (sort_key oi_object_id objs) (vx_objects v)"
    "- 1 \<notin> oi_object_id ` set objs \<Longrightarrow> \<exists>p. page_matches sha fil 0 (root_page (vx_snapshot v)) p \<and> ph_max_key (parsed_header p) \<noteq> - 1"
proof -
  let ?rts = "sort (map oi_object_id (filter oi_is_root objs))"
  from assms(1) obtain bs us where ne: "objs \<noteq> []" and w: "write_object_records sha (file_header_encode header) objs = Inr (bs, us)"
    and run: "finish_commit sha bs us ?rts 0 (zeros 32) ABSENT_OFFSET 0 (of_nat (length us)) = Inr fil"
    unfolding build_genesis_Ok by blast
  note rec = write_object_records_spec [OF w assms(2)]
  obtain P where P: "bs = file_header_encode header @ P" using rec(1) by blast
  have hl: "length (file_header_encode header) = 64" by (rule length_file_header_encode [OF assms(3)])
  then have hdr: "64 \<le> length bs" by (simp add: P)
  have z: "length (zeros 32) = 32" by simp
  note con = finish_commit_contents [OF run assms(2) rec(4) z hdr assms(4)]
  show "vx_header v = header" using con(5) hl file_header_round_trip [OF assms(3)] by (simp add: P)
  show "xs_sequence (vx_snapshot v) = 0" "xs_roots (vx_snapshot v) = ?rts" by (fact con(3), fact con(2))
  show "list_all2 (object_stored fil) (sort_key oi_object_id objs) (vx_objects v)"
    using con(1,4) objects_stored_append [OF rec(2,3)] by auto
  note sums = stored_objects_sums [OF rec(2)]
  have "us \<noteq> []" using ne sums(2) by auto
  then have "le_object_id (last us) \<in> oi_object_id ` set objs" using sums(3) last_in_set by (metis image_eqI set_map)
  moreover assume "- 1 \<notin> oi_object_id ` set objs"
  ultimately show "\<exists>p. page_matches sha fil 0 (root_page (vx_snapshot v)) p \<and> ph_max_key (parsed_header p) \<noteq> - 1" using con(6) by metis
qed

section \<open>Copying\<close>

text \<open>The payload that an entry describes in a file, and the input that copies it.\<close>

definition record_payload :: "bytes \<Rightarrow> leaf_entry \<Rightarrow> bytes" where
  "record_payload bs e = slice bs (fst (record_range e) + OBJECT_HEADER_LEN) (snd (record_range e))"

definition copied_object :: "bytes \<Rightarrow> u64 set \<Rightarrow> leaf_entry \<Rightarrow> object_input" where
  "copied_object bs rts e = \<lparr>oi_object_id = le_object_id e, oi_kind = le_kind e, oi_payload = record_payload bs e, oi_is_root = le_object_id e \<in> rts\<rparr>"

lemma copy_objects_Ok:
  assumes "copy_objects source rts lim es copied inputs = Inr (copied', inputs')"
  shows "inputs' = inputs @ map (copied_object source rts) es \<and> unat copied' = unat copied + sum_list (map (\<lambda>e. length (record_payload source e)) es)"
  using assms
proof (induction es arbitrary: copied inputs)
  case (Cons e es)
  from Cons.prems obtain len copied1 a b payload where len: "checked_sub (le_record_len e) 48 = Some len" and cp: "checked_add copied len = Some copied1"
    and ab: "checked_add (le_record_offset e) 48 = Some a" "checked_add a len = Some b" and get: "byte_get source (unat a) (unat b) = Some payload"
    and rest: "copy_objects source rts lim es copied1 (inputs @ [\<lparr>oi_object_id = le_object_id e, oi_kind = le_kind e, oi_payload = payload, oi_is_root = le_object_id e \<in> rts\<rparr>]) = Inr (copied', inputs')"
    by (auto simp: result_simps usize_try_from_def split: if_splits)
  have u: "unat (le_record_len e) = unat len + 48" "unat a = unat (le_record_offset e) + 48" "unat b = unat a + unat len"
    using len ab by (auto simp: checked_add_Some_iff checked_sub_Some_iff)
  then have p: "payload = record_payload source e" using get by (auto simp: byte_get_Some_iff record_payload_def record_range_def slice_def)
  moreover have "length payload = unat len" using get u by (auto simp: byte_get_Some_iff)
  moreover have "unat copied1 = unat copied + unat len" using cp by (simp add: checked_add_Some_iff)
  ultimately show ?case using Cons.IH [OF rest] by (auto simp: copied_object_def)
qed simp

section \<open>The rewritten file\<close>

definition same_object :: "bytes \<Rightarrow> bytes \<Rightarrow> leaf_entry \<Rightarrow> leaf_entry \<Rightarrow> bool" where
  "same_object source output e e' \<longleftrightarrow> le_object_id e' = le_object_id e \<and> le_kind e' = le_kind e \<and> record_payload output e' = record_payload source e"

text \<open>The output of a rewrite is a valid first commit with the given header, roots and identifiers, whose objects
  have the kinds and payloads that they have in the source.\<close>

definition rewritten :: "(bytes \<Rightarrow> bytes) \<Rightarrow> bytes \<Rightarrow> verified_exp0002 \<Rightarrow> x2_file_header \<Rightarrow> u64 list \<Rightarrow> u64 list \<Rightarrow> rewrite_limits \<Rightarrow> rewrite_report \<Rightarrow> bool" where
  "rewritten sha source v0 header ids rts lim r \<longleftrightarrow> (\<exists>v. validate_strict sha (rw_output r) (rl_validation lim) = Inr v \<and> vx_header v = header \<and>
     xs_sequence (vx_snapshot v) = 0 \<and> xs_roots (vx_snapshot v) = rts \<and> map le_object_id (vx_objects v) = ids \<and>
     list_all2 (same_object source (rw_output r)) (filter (\<lambda>e. le_object_id e \<in> set ids) (vx_objects v0)) (vx_objects v) \<and>
     length (rw_output r) \<le> unat (rl_max_output_bytes lim) \<and> rw_output_object_count r = length ids \<and>
     unat (rw_payload_bytes_copied r) = sum_list (map (\<lambda>e. length (record_payload (rw_output r) e)) (vx_objects v)) \<and> \<not> rw_byte_scoped_signatures_preserved r)"

lemma canonical_ids_Ok: "validate_canonical_ids vs name = Inr u \<longleftrightarrow> sorted_wrt (<) vs \<and> 0 \<notin> set vs"
  using sorted_unique_Ok [of vs X2InvalidRoot] by (auto simp: validate_canonical_ids_def validate_sorted_unique_def split: if_splits)

lemma snapshot_parse_roots: "snapshot_parse bs lim = Inr s \<Longrightarrow> sorted_wrt (<) (xs_roots s)"
  unfolding snapshot_parse_def by (clarsimp simp: result_simps Let_def sorted_unique_Ok split: if_splits prod.splits)

lemma strict_sorted_eq: "sorted_wrt (<) xs \<Longrightarrow> sorted_wrt (<) ys \<Longrightarrow> set xs = set ys \<Longrightarrow> xs = (ys :: u64 list)"
  by (simp add: strict_sorted_iff sorted_distinct_set_unique)

lemma rewrite_verified_spec:
  assumes "rewrite_verified sha source v0 header ids rts lim = Inr r" and "\<And>x. length (sha x) = 32" and "file_header_wf header"
    and "sorted_wrt (<) (map le_object_id (vx_objects v0))" and "sorted_wrt (<) ids" and "sorted_wrt (<) rts" and "set rts \<subseteq> set ids"
    and "set ids \<subseteq> set (map le_object_id (vx_objects v0))"
  shows "rewritten sha source v0 header ids rts lim r"
proof -
  let ?es = "filter (\<lambda>e. le_object_id e \<in> set ids) (vx_objects v0)" and ?out = "rw_output r"
  from assms(1) obtain copied inputs v where cp: "copy_objects source (set rts) lim ?es 0 [] = Inr (copied, inputs)"
    and gen: "build_genesis sha header inputs = Inr ?out" and size: "length ?out \<le> unat (rl_max_output_bytes lim)"
    and val: "validate_strict sha ?out (rl_validation lim) = Inr v"
    and r: "rw_output_object_count r = length (vx_objects v)" "rw_payload_bytes_copied r = copied" "\<not> rw_byte_scoped_signatures_preserved r"
    by (auto simp: rewrite_verified_def Let_def result_simps u64_try_from_Some_iff word_less_nat_alt not_less split: if_splits)
  have inputs: "inputs = map (copied_object source (set rts)) ?es" "unat copied = sum_list (map (\<lambda>e. length (record_payload source e)) ?es)"
    using copy_objects_Ok [OF cp] by simp_all
  note con = build_genesis_contents [OF gen assms(2,3) val]
  have srt: "sorted_wrt (<) (map le_object_id ?es)" using assms(4) sorted_wrt_filter [of "\<lambda>a b. le_object_id a < le_object_id b"] by (simp add: sorted_wrt_map)
  have inp: "map oi_object_id inputs = map le_object_id ?es" by (simp add: inputs copied_object_def)
  have sort: "sort_key oi_object_id inputs = inputs" using srt by (intro sort_key_id_if_sorted) (simp add: inp strict_sorted_imp_sorted)
  have l: "list_all2 (object_stored ?out) inputs (vx_objects v)" using con(4) by (simp add: sort)
  have same: "list_all2 (same_object source ?out) ?es (vx_objects v)"
    using l unfolding inputs(1) list_all2_map1 by (rule list.rel_mono_strong) (simp add: object_stored_def copied_object_def same_object_def record_payload_def)
  have ids: "map le_object_id (vx_objects v) = map le_object_id ?es" "map (\<lambda>e. length (record_payload ?out e)) (vx_objects v) = map (\<lambda>e. length (record_payload source e)) ?es"
    using same by (auto simp: list_all2_conv_all_nth same_object_def intro!: nth_equalityI)
  have idset: "map le_object_id ?es = ids" using srt assms(5,8) by (intro strict_sorted_eq) auto
  have "map oi_object_id (filter oi_is_root inputs) = filter (\<lambda>i. i \<in> set rts) (map le_object_id ?es)"
    by (simp add: inputs(1) filter_map comp_def copied_object_def)
  also have "\<dots> = rts" unfolding idset using assms(5-7) by (intro strict_sorted_eq sorted_wrt_filter) auto
  finally have "map oi_object_id (filter oi_is_root inputs) = rts" .
  then have rts: "sort (map oi_object_id (filter oi_is_root inputs)) = rts" using assms(6) by (simp add: strict_sorted_imp_sorted sorted_sort_id)
  have "length (vx_objects v) = length ids" using ids(1) idset by (metis length_map)
  then show ?thesis unfolding rewritten_def using val con(1-3) rts ids idset same size r inputs(2) by (intro exI [of _ v]) simp
qed

section \<open>Rewriting succeeds\<close>

lemma copy_objects_total:
  assumes "\<forall>e \<in> set es. record_at sha source e" and "length source < 2 ^ 64" and "unat copied + payload_sum es \<le> unat (rl_max_payload_bytes_copied lim)"
  shows "\<exists>r. copy_objects source rts lim es copied inputs = Inr r"
  using assms(1,3)
proof (induction es arbitrary: copied inputs)
  case (Cons e es)
  have at: "unat (le_record_len e) = 48 + unat (le_logical_len e)" "unat (le_record_offset e) + unat (le_record_len e) \<le> length source"
    using Cons.prems(1) by (auto simp: record_at_def record_range_def)
  have "unat copied + unat (le_logical_len e) < 2 ^ 64" using Cons.prems(2) le_unat_64 [of "unat copied + unat (le_logical_len e)" "rl_max_payload_bytes_copied lim"] by simp
  then have u: "unat (copied + le_logical_len e) = unat copied + unat (le_logical_len e)" "unat (le_record_offset e + 48) = unat (le_record_offset e) + 48"
    "unat (le_record_offset e + 48 + le_logical_len e) = unat (le_record_offset e) + 48 + unat (le_logical_len e)"
    using at assms(2) by (simp_all add: unat_word_ariths)
  have len: "checked_sub (le_record_len e) 48 = Some (le_logical_len e)" using at(1) by (simp add: checked_sub_Some_iff)
  have adds: "checked_add copied (le_logical_len e) = Some (copied + le_logical_len e)" "checked_add (le_record_offset e) 48 = Some (le_record_offset e + 48)"
    "checked_add (le_record_offset e + 48) (le_logical_len e) = Some (le_record_offset e + 48 + le_logical_len e)"
    using u by (simp_all add: checked_add_Some_iff)
  have get: "\<exists>p. byte_get source (unat (le_record_offset e + 48)) (unat (le_record_offset e + 48 + le_logical_len e)) = Some p"
    using u at by (simp add: byte_get_def)
  have "\<not> rl_max_payload_bytes_copied lim < copied + le_logical_len e" using Cons.prems(2) u(1) by (simp add: word_less_nat_alt)
  moreover have "\<exists>r. copy_objects source rts lim es (copied + le_logical_len e) inputs' = Inr r" for inputs'
    by (rule Cons.IH) (use Cons.prems u(1) in auto)
  ultimately show ?case using len adds get by (auto simp: usize_try_from_def ok_or_def)
qed simp

lemma record_payload_length: "record_at sha bs e \<Longrightarrow> length (record_payload bs e) = unat (le_logical_len e)"
  by (auto simp: record_at_def record_payload_def record_range_def)

lemma repair_all_total:
  assumes "\<And>x. length (sha x) = 32" and "file_header_wf header" and "validate_strict sha source (rl_validation lim) = Inr v0"
    and "length (vx_objects v0) \<le> rl_max_objects_copied lim" and "payload_sum (vx_objects v0) \<le> unat (rl_max_payload_bytes_copied lim)"
    and "n = 384 + payload_sum (vx_objects v0) + 32824 * length (vx_objects v0)" and "n \<le> unat (rl_max_output_bytes lim)" and "length (vx_objects v0) < 2 ^ 32"
    and "\<And>m. m \<le> n \<Longrightarrow> limits_cover (rl_validation lim) m (payload_sum (vx_objects v0)) (length (vx_objects v0)) (length (xs_roots (vx_snapshot v0)))"
  shows "\<exists>r. repair_all_to_new_file sha source header lim = Inr r"
proof -
  let ?es = "vx_objects v0" and ?rts = "set (xs_roots (vx_snapshot v0))"
  have cv: "commit_valid sha source (rl_validation lim) v0" by (rule validate_strict_valid [OF assms(3)])
  have rec: "\<forall>e \<in> set ?es. record_at sha source e" using cv by (simp add: commit_valid_def Let_def records_ok_def)
  have lt: "length source < 2 ^ 64" using assms(3) by (auto simp: validate_strict_def result_simps to_u64_Ok)
  have zero: "unat (0 :: u64) + payload_sum ?es \<le> unat (rl_max_payload_bytes_copied lim)" using assms(5) by simp
  have flt: "filter (\<lambda>e. le_object_id e \<in> set (map le_object_id ?es)) ?es = ?es" by (auto simp: filter_id_conv)
  let ?in = "map (copied_object source ?rts) ?es"
  obtain copied where cp: "copy_objects source ?rts lim ?es 0 [] = Inr (copied, ?in)"
    using copy_objects_total [OF rec lt zero, of ?rts "[]"] copy_objects_Ok by (metis append_Nil surj_pair)
  have sorted: "sorted_wrt (<) (map le_object_id ?es)" and roots: "?rts \<subseteq> set (map le_object_id ?es)" "xs_roots (vx_snapshot v0) \<noteq> []" and
    sp: "snapshot_parse (snapshot_bytes source (vx_footer v0)) (rl_validation lim) = Inr (vx_snapshot v0)"
    using cv by (simp_all add: commit_valid_def Let_def)
  have pay: "payload_bytes ?in = payload_sum ?es"

  proof -
    have "map (\<lambda>e. length (record_payload source e)) ?es = map (\<lambda>e. unat (le_logical_len e)) ?es"
      by (rule map_cong [OF refl]) (use rec record_payload_length in blast)
    then have "sum_list (map (\<lambda>e. length (record_payload source e)) ?es) = payload_sum ?es" by (rule arg_cong)
    then show ?thesis by (simp add: copied_object_def comp_def)
  qed
  have ids: "map oi_object_id ?in = map le_object_id ?es" by (simp add: copied_object_def)
  have gs: "genesis_size ?in = n" using pay assms(6) by (simp add: genesis_size_def)
  have nz: "n < 2 ^ 64" by (rule le_unat_64 [OF assms(7)])
  have wf: "\<forall>obj \<in> set ?in. oi_object_id obj \<noteq> 0 \<and> oi_kind obj \<noteq> 0"
    using rec record_at_wf [where sha = sha, OF _ assms(1)] by (auto simp: copied_object_def leaf_entry_wf_def)
  have root: "\<exists>obj \<in> set ?in. oi_is_root obj"

  proof -
    have "hd (xs_roots (vx_snapshot v0)) \<in> le_object_id ` set ?es" "hd (xs_roots (vx_snapshot v0)) \<in> ?rts"
      using roots(1) hd_in_set [OF roots(2)] by auto
    then show ?thesis by (auto simp: copied_object_def)
  qed
  have dist: "distinct (map oi_object_id ?in)" unfolding ids using sorted by (simp add: strict_sorted_iff)
  obtain out where out: "build_genesis sha header ?in = Inr out" "length out \<le> n"
    using build_genesis_total [where sha = sha and objs = ?in, OF assms(1,2) _ _ dist wf root] nz assms(8) gs by auto
  have "map oi_object_id (filter oi_is_root ?in) = filter (\<lambda>i. i \<in> ?rts) (map le_object_id ?es)" by (simp add: filter_map comp_def copied_object_def)
  also have "\<dots> = xs_roots (vx_snapshot v0)" using sorted snapshot_parse_roots [OF sp] roots(1) by (intro strict_sorted_eq sorted_wrt_filter) auto
  finally have "length (filter oi_is_root ?in) = length (xs_roots (vx_snapshot v0))" by (metis length_map)
  then have "limits_cover (rl_validation lim) (length out) (payload_bytes ?in) (length ?in) (length (filter oi_is_root ?in))"
    using assms(9) [OF out(2)] pay by simp
  then obtain v where v: "validate_strict sha out (rl_validation lim) = Inr v" using build_genesis_valid [OF out(1) assms(1,2)] by blast
  have small: "u64_try_from (length out) = Some (of_nat (length out))" "\<not> rl_max_output_bytes lim < of_nat (length out)"
    using out(2) nz assms(7) by (simp_all add: u64_try_from_def word_less_nat_alt not_less unat_of_nat_64)
  then show ?thesis using assms(3,4) cp out(1) v flt
    by (simp add: repair_all_to_new_file_def rewrite_verified_def Let_def ok_or_def not_less)
qed

text \<open>
  C22. A rewrite preserves what it keeps: from a strictly valid source, rewriting a selection of objects, and repair of all
  of them, return a file that is strictly valid as a first commit, has the requested header and roots, contains
  exactly the requested identifiers, each with the kind and the payload it has in the source, and
  counts the payload bytes copied; signatures over the source's bytes are reported as not preserved.
\<close>

theorem exp2_rewrite_preserves:
  assumes "\<And>x. length (sha x) = 32" and "file_header_wf header"
  shows "(rewrite_selected_to_new_file sha source header ids rts lim = Inr r \<longrightarrow>
      (\<exists>v0. validate_strict sha source (rl_validation lim) = Inr v0 \<and> rewritten sha source v0 header ids rts lim r)) \<and>
    (repair_all_to_new_file sha source header lim = Inr r \<longrightarrow>
      (\<exists>v0. validate_strict sha source (rl_validation lim) = Inr v0 \<and>
        rewritten sha source v0 header (map le_object_id (vx_objects v0)) (xs_roots (vx_snapshot v0)) lim r))"
proof (intro conjI impI)
  assume "rewrite_selected_to_new_file sha source header ids rts lim = Inr r"
  then obtain v0 where v0: "validate_strict sha source (rl_validation lim) = Inr v0" and run: "rewrite_verified sha source v0 header ids rts lim = Inr r"
    and ok: "sorted_wrt (<) ids" "sorted_wrt (<) rts" "set rts \<subseteq> set ids" "set ids \<subseteq> set (map le_object_id (vx_objects v0))"
    by (auto simp: rewrite_selected_to_new_file_def result_simps canonical_ids_Ok split: if_splits)
  have "sorted_wrt (<) (map le_object_id (vx_objects v0))" using validate_strict_valid [OF v0] by (simp add: commit_valid_def Let_def)
  then show "\<exists>v0. validate_strict sha source (rl_validation lim) = Inr v0 \<and> rewritten sha source v0 header ids rts lim r"
    using v0 rewrite_verified_spec [OF run assms _ ok] by blast
next
  assume "repair_all_to_new_file sha source header lim = Inr r"
  then obtain v0 where v0: "validate_strict sha source (rl_validation lim) = Inr v0"
    and run: "rewrite_verified sha source v0 header (map le_object_id (vx_objects v0)) (xs_roots (vx_snapshot v0)) lim = Inr r"
    by (auto simp: repair_all_to_new_file_def result_simps Let_def)
  have cv: "sorted_wrt (<) (map le_object_id (vx_objects v0))" "set (xs_roots (vx_snapshot v0)) \<subseteq> set (map le_object_id (vx_objects v0))"
    "snapshot_parse (snapshot_bytes source (vx_footer v0)) (rl_validation lim) = Inr (vx_snapshot v0)"
    using validate_strict_valid [OF v0] by (simp_all add: commit_valid_def Let_def)
  show "\<exists>v0. validate_strict sha source (rl_validation lim) = Inr v0 \<and>
      rewritten sha source v0 header (map le_object_id (vx_objects v0)) (xs_roots (vx_snapshot v0)) lim r"
    using v0 rewrite_verified_spec [OF run assms cv(1,1) snapshot_parse_roots [OF cv(3)] cv(2)] by blast
qed

theorem exp2_rewrite_preserves_witness:
  "\<exists>source v0 r. build_genesis x2_sample_sha x2_sample_header x2_sample_objects = Inr source \<and>
    validate_strict x2_sample_sha source validation_limits_default = Inr v0 \<and>
    repair_all_to_new_file x2_sample_sha source x2_sample_header rewrite_limits_default = Inr r \<and>
    rewritten x2_sample_sha source v0 x2_sample_header (map le_object_id (vx_objects v0)) (xs_roots (vx_snapshot v0)) rewrite_limits_default r"
proof -
  have dflt: "rl_validation rewrite_limits_default = validation_limits_default" by (simp add: rewrite_limits_default_def)
  obtain source v0 where src: "build_genesis x2_sample_sha x2_sample_header x2_sample_objects = Inr source"
    and v0: "validate_strict x2_sample_sha source validation_limits_default = Inr v0" "payload_sum (vx_objects v0) = 3" "length (vx_objects v0) = 2"
    using x2_sample_file by blast
  have roots: "length (xs_roots (vx_snapshot v0)) = 1"
    using build_genesis_contents(3) [OF src x2_sample_genesis(1,2) v0(1)] by (simp add: x2_sample_objects_def)
  obtain r where r: "repair_all_to_new_file x2_sample_sha source x2_sample_header rewrite_limits_default = Inr r"
    using repair_all_total [where sha = x2_sample_sha and source = source and lim = rewrite_limits_default and n = 66035, OF x2_sample_genesis(1,2)] v0 roots x2_sample_limits
    by (auto simp: rewrite_limits_default_def)
  show ?thesis using exp2_rewrite_preserves [where sha = x2_sample_sha and source = source and lim = rewrite_limits_default and r = r, OF x2_sample_genesis(1,2)] src v0(1) r by (auto simp: dflt)
qed

end
