(* ===== verification/Ucof_Exp2_Lookup_Properties.thy ===== *)
theory Ucof_Exp2_Lookup_Properties
  imports Ucof_Exp2_Lookup_Total Ucof_Exp2_Rewrite
begin

text \<open>
  On a strictly valid file the authenticated lookup of an identifier returns, and finds the entry that the whole
  directory has for it, or nothing when the directory has none.
\<close>

section \<open>The commit digest\<close>

lemma slice_join: "a \<le> b \<Longrightarrow> b \<le> c \<Longrightarrow> slice bs a c = slice bs a b @ slice bs b c"
  using take_add [of "b - a" "c - b" "drop a bs"] by (simp add: slice_def)

lemma slice_cuts:
  "sorted (a # cuts) \<Longrightarrow> slice bs a (last (a # cuts)) = concat (map (\<lambda>(p, q). slice bs p q) (zip (a # cuts) cuts))"
proof (induction cuts arbitrary: a)
  case (Cons b cuts)
  have le: "a \<le> b" "b \<le> last (b # cuts)" using Cons.prems by auto
  show ?case using slice_join [OF le, of bs] Cons.IH [of b] Cons.prems by simp
qed (simp add: slice_def)

lemma footer_parse_image:
  assumes "footer_parse bs = Inr f"
  shows "slice bs 8 10 = le_image 2 (160 :: u16)" "slice bs 10 12 = le_image 2 (2 :: u16)" "slice bs 12 16 = le_image 4 (0 :: u32)"
    "slice bs 16 24 = le_image 8 (xf_commit_start f)" "slice bs 24 32 = le_image 8 (xf_commit_len f)" "slice bs 32 40 = le_image 8 (xf_snapshot_offset f)"
    "slice bs 40 48 = le_image 8 (xf_snapshot_len f)" "slice bs 48 56 = le_image 8 (xf_sequence f)" "slice bs 56 64 = le_image 8 (xf_previous_footer_offset f)"
    "slice bs 64 72 = le_image 8 (xf_record_count f)" "slice bs 72 74 = le_image 2 DIGEST_SHA256" "slice bs 74 80 = zeros 6" "slice bs 80 112 = xf_snapshot_digest f"
proof -
  note r = footer_parse_reads [OF assms]
  have len: "length bs = 160" using r(1) by simp
  have w2: "slice bs a (a + 2) = le_image 2 (v :: u16)" if "read_u16 bs a = Inr v" "a + 2 \<le> 160" for a v
    using that len le_image_value [of "slice bs a (a + 2)" 2, where 'a = 16] by (simp add: read_u16_slice slice_def)
  have w4: "slice bs a (a + 4) = le_image 4 (v :: u32)" if "read_u32 bs a = Inr v" "a + 4 \<le> 160" for a v
    using that len le_image_value [of "slice bs a (a + 4)" 4, where 'a = 32] by (simp add: read_u32_slice slice_def)
  have w8: "slice bs a (a + 8) = le_image 8 (v :: u64)" if "read_u64 bs a = Inr v" "a + 8 \<le> 160" for a v
    using that len le_image_value [of "slice bs a (a + 8)" 8, where 'a = 64] by (simp add: read_u64_slice slice_def)
  obtain l :: u16 where l: "read_u16 bs 8 = Inr l" "unat l = 160" using r(3) by auto
  have "l = 160" using l(2) by (simp add: word_unat_eq_iff)
  then show "slice bs 8 10 = le_image 2 (160 :: u16)" using w2 [OF l(1)] by simp
  show "slice bs 10 12 = le_image 2 (2 :: u16)" "slice bs 12 16 = le_image 4 (0 :: u32)" "slice bs 72 74 = le_image 2 DIGEST_SHA256"
    using w2 [OF r(4)] w4 [OF r(5)] w2 [OF r(6)] by simp_all
  show "slice bs 16 24 = le_image 8 (xf_commit_start f)" "slice bs 24 32 = le_image 8 (xf_commit_len f)" "slice bs 32 40 = le_image 8 (xf_snapshot_offset f)"
    "slice bs 40 48 = le_image 8 (xf_snapshot_len f)" "slice bs 48 56 = le_image 8 (xf_sequence f)" "slice bs 56 64 = le_image 8 (xf_previous_footer_offset f)"
    "slice bs 64 72 = le_image 8 (xf_record_count f)"
    using w8 [OF r(9)] w8 [OF r(10)] w8 [OF r(11)] w8 [OF r(12)] w8 [OF r(13)] w8 [OF r(14)] w8 [OF r(15)] by simp_all
  have "set (slice bs 74 80) \<subseteq> {0}" using r(7) by (auto simp: require_zero_def split: if_splits)
  moreover have "length (slice bs 74 80) = 6" using len by (simp add: slice_def)
  ultimately show "slice bs 74 80 = zeros 6" unfolding zeros_def by (intro replicate_eqI) auto
  show "slice bs 80 112 = xf_snapshot_digest f" using r(16) len by (simp add: read_array_slice)
qed

lemma footer_parse_semantics:
  assumes "footer_parse bs = Inr f"
  shows "slice bs 8 112 = footer_semantics f"
proof -
  have "length (xf_snapshot_digest f) = 32" using arg_cong [OF footer_parse_image(13) [OF assms], of length] footer_parse_reads(1) [OF assms] by (simp add: slice_def)
  then have sl: "slice (footer_semantics f) 0 2 = le_image 2 (160 :: u16)" "slice (footer_semantics f) 2 4 = le_image 2 (2 :: u16)" "slice (footer_semantics f) 4 8 = le_image 4 (0 :: u32)"
    "slice (footer_semantics f) 8 16 = le_image 8 (xf_commit_start f)" "slice (footer_semantics f) 16 24 = le_image 8 (xf_commit_len f)"
    "slice (footer_semantics f) 24 32 = le_image 8 (xf_snapshot_offset f)" "slice (footer_semantics f) 32 40 = le_image 8 (xf_snapshot_len f)"
    "slice (footer_semantics f) 40 48 = le_image 8 (xf_sequence f)" "slice (footer_semantics f) 48 56 = le_image 8 (xf_previous_footer_offset f)"
    "slice (footer_semantics f) 56 64 = le_image 8 (xf_record_count f)" "slice (footer_semantics f) 64 66 = le_image 2 DIGEST_SHA256"
    "slice (footer_semantics f) 66 72 = zeros 6" "slice (footer_semantics f) 72 104 = xf_snapshot_digest f" "length (footer_semantics f) = 104"
    by (simp_all add: footer_semantics_puts codec_simps)
  have "slice (footer_semantics f) 0 104 = footer_semantics f" using sl(14) by (simp add: slice_full)
  then show ?thesis
    using slice_cuts [of 8 "[10, 12, 16, 24, 32, 40, 48, 56, 64, 72, 74, 80, 112]" bs] slice_cuts [of 0 "[2, 4, 8, 16, 24, 32, 40, 48, 56, 64, 66, 72, 104]" "footer_semantics f"]
      footer_parse_image [OF assms] sl(1-13) by simp
qed

section \<open>Lookup of a valid file returns\<close>

lemma lookup_parent_link_Ok:
  assumes "commit_parent bs sequence digest previous start" and "unat start \<le> offset" and "offset < 2 ^ 64"
  shows "lookup_validate_parent_link bs offset start sequence previous digest = Inr ()"
proof (cases "previous = ABSENT_OFFSET")
  case True
  then show ?thesis using assms by (auto simp: lookup_validate_parent_link_def commit_parent_def)
next
  case False
  then obtain g where g: "unat start = unat previous + 160" "unat start \<le> length bs" "footer_parse (slice bs (unat previous) (unat start)) = Inr g"
    "xf_snapshot_digest g = digest" "checked_add (xf_sequence g) 1 = Some sequence" using assms(1) by (auto simp: commit_parent_def)
  have lt: "unat start < 2 ^ 64" by simp
  have r: "x2_checked_range previous 160 (length bs) = Inr (unat previous, unat start)" using g(1,2) lt by (simp add: x2_checked_range_Ok)
  have "checked_add previous 160 = Some start" using g(1) by (simp add: checked_add_Some_iff)
  moreover have "to_u64 offset = Inr (of_nat offset)" using assms(3) by (simp add: to_u64_Ok)
  moreover have "\<not> (of_nat offset :: u64) \<le> previous" using g(1) assms(2) unat_of_nat_64 [OF assms(3)] unfolding word_le_nat_alt by linarith
  ultimately show ?thesis unfolding lookup_validate_parent_link_def
    using False r g(4,5) footer_parse_reads(13,16) [OF g(3)] validate_footer_structure_Ok [OF g(3)] by (simp add: ok_or_def)
qed

lemma file_header_parse_prefix:
  assumes "file_header_parse (take FILE_HEADER_LEN bs) = Inr h" and "FILE_HEADER_LEN \<le> length bs"
  shows "file_header_parse bs = Inr h"
proof -
  have rd: "read_array n (take 64 bs) a = read_array n bs a" if "a + n \<le> 64" for n a
    using that assms(2) by (simp add: read_array_def usize_checked_add_def byte_get_def drop_take min_def)
  have sl: "slice (take 64 bs) a b = slice bs a b" if "b \<le> 64" for a b using that assms(2) by (simp add: slice_def drop_take min_def)
  show ?thesis using assms unfolding file_header_parse_def read_u16_def read_u32_def by (auto simp: result_simps rd sl split: if_splits)
qed

lemma validate_strict_size:
  assumes "validate_strict sha bs lim = Inr v"
  shows "length bs < 2 ^ 64" "\<not> vl_max_file_bytes lim < of_nat (length bs)" "\<not> vl_max_commit_bytes lim < xf_commit_len (vx_footer v)"
  using assms unfolding validate_strict_def Let_def by (clarsimp simp: result_simps to_u64_Ok split: if_splits)+

definition root_max_key :: "bytes \<Rightarrow> verified_exp0002 \<Rightarrow> u64" where
  "root_max_key bs v = (case parse_page (slice bs (fst (page_span (xs_directory_root_offset (vx_snapshot v)))) (snd (page_span (xs_directory_root_offset (vx_snapshot v))))) of
     Inl _ \<Rightarrow> 0 | Inr p \<Rightarrow> ph_max_key (parsed_header p))"

lemma payload_sum_member: "e \<in> set es \<Longrightarrow> unat (le_logical_len e) \<le> payload_sum es"
  by (induction es) auto

lemma root_may_walk:
  assumes "commit_valid sha bs (al_validation lim) v" and "unat (vx_bytes_hashed v) + unat (xf_snapshot_len (vx_footer v)) \<le> unat (vl_max_hashed_bytes (al_validation lim))"
    and "unat hashed = unat (xf_commit_len (vx_footer v)) + unat (xf_snapshot_len (vx_footer v))"
  shows "\<exists>t. stored sha bs (xs_sequence (vx_snapshot v)) (al_validation lim) (root_page (vx_snapshot v)) t \<and>
    may_walk sha bs lim (snapshot_span (vx_footer v)) (unat (vx_footer_offset v)) 0 hashed (map page_span (tree_pages t)) t"
proof -
  from assms(1) obtain t where t: "stored sha bs (xs_sequence (vx_snapshot v)) (al_validation lim) (root_page (vx_snapshot v)) t"
    "vx_pages_verified v = length (tree_pages t)" "vx_objects v = sort_key le_object_id (tree_entries t)"
    "\<forall>e \<in> set (vx_objects v). record_clear (map page_span (tree_pages t)) (snapshot_span (vx_footer v)) (unat (vx_footer_offset v), length bs) e"
    and ok: "records_ok sha bs (vx_objects v)" "payload_sum (vx_objects v) \<le> unat (vl_max_payload_bytes (al_validation lim))"
      "unat (vx_bytes_hashed v) = unat (xf_commit_len (vx_footer v)) + PAGE_SIZE * vx_pages_verified v + record_sum (vx_objects v)"
      "vx_pages_verified v \<le> vl_max_pages (al_validation lim)"
    unfolding commit_valid_def Let_def by blast
  have es: "set (tree_entries t) = set (vx_objects v)" "record_sum (tree_entries t) = record_sum (vx_objects v)" unfolding t(3) by (simp_all add: sum_list_sort_key)
  have "unat (vx_bytes_hashed v) < 2 ^ 64" by simp
  then have "length (tree_pages t) < 2 ^ 64" using ok(3) t(2) by linarith
  moreover have "\<forall>e \<in> set (tree_entries t). record_at sha bs e \<and> record_clear (map page_span (tree_pages t)) (snapshot_span (vx_footer v)) (unat (vx_footer_offset v), length bs) e \<and>
      unat (le_logical_len e) \<le> unat (vl_max_payload_bytes (al_validation lim))"
    unfolding es(1) using ok(1,2) t(4) payload_sum_member order.trans by (fastforce simp: records_ok_def)
  ultimately have "may_walk sha bs lim (snapshot_span (vx_footer v)) (unat (vx_footer_offset v)) 0 hashed (map page_span (tree_pages t)) t"
    using assms(2,3) ok(3,4) t(2) es(2) by (simp add: may_walk_def)
  then show ?thesis using t(1) by blast
qed

lemma lookup_total:
  assumes "validate_strict sha bs (al_validation lim) = Inr v" and "i \<noteq> 0" and "vl_max_page_depth (al_validation lim) \<le> al_max_page_reads lim"
    and "unat (vx_bytes_hashed v) + unat (xf_snapshot_len (vx_footer v)) \<le> unat (vl_max_hashed_bytes (al_validation lim))" and "root_max_key bs v \<noteq> - 1"
  shows "\<exists>res. lookup_authenticated sha bs i lim = Inr res"
proof -
  let ?f = "vx_footer v" and ?s = "vx_snapshot v" and ?lim = "al_validation lim"
  define fo where "fo = unat (vx_footer_offset v)"
  have cv: "commit_valid sha bs ?lim v" by (rule validate_strict_valid [OF assms(1)])
  note size = validate_strict_size [OF assms(1)]
  have len: "to_u64 (length bs) = Inr (of_nat (length bs))" using size(1) by (simp add: to_u64_Ok)
  have off: "fo + 160 = length bs" "64 \<le> fo" "footer_parse (drop fo bs) = Inr ?f" "unat (xf_commit_start ?f) + unat (xf_commit_len ?f) = fo"
    "digest_commit sha (commit_bytes bs ?f) ?f = xf_commit_digest ?f" "unat (xf_commit_start ?f) \<le> unat (xf_snapshot_offset ?f)"
    "unat (xf_snapshot_offset ?f) + unat (xf_snapshot_len ?f) \<le> fo" "digest_bytes sha SNAPSHOT_DOMAIN (snapshot_bytes bs ?f) = xf_snapshot_digest ?f"
    "snapshot_parse (snapshot_bytes bs ?f) ?lim = Inr ?s" "xs_sequence ?s = xf_sequence ?f" "xs_previous_footer_offset ?s = xf_previous_footer_offset ?f"
    "commit_parent bs (xf_sequence ?f) (xs_parent_snapshot_digest ?s) (xf_previous_footer_offset ?f) (xf_commit_start ?f)"
    using cv by (simp_all add: commit_valid_def Let_def fo_def)
  have lt: "fo < 2 ^ 64" using off(1) size(1) by simp
  have "file_header_parse (take 64 bs) = Inr (vx_header v)" using cv by (simp add: commit_valid_def Let_def)
  then have hdr: "file_header_parse bs = Inr (vx_header v)" by (rule file_header_parse_prefix) (use off(1,2) in simp)
  have fo: "length bs - 160 = fo" "to_u64 fo = Inr (vx_footer_offset v)" "\<not> length bs < 64 + 160" using off(1,2) lt by (simp_all add: to_u64_Ok fo_def)
  note reads = footer_parse_reads [OF off(3)]
  have commit: "checked_add (xf_commit_start ?f) (xf_commit_len ?f) = Some (vx_footer_offset v)" using off(4) by (simp add: checked_add_Some_iff fo_def)
  have rng: "x2_checked_range (xf_commit_start ?f) (xf_commit_len ?f) (length bs) = Inr (unat (xf_commit_start ?f), fo)"
    "x2_checked_range (xf_snapshot_offset ?f) (xf_snapshot_len ?f) (length bs) = Inr (unat (xf_snapshot_offset ?f), unat (xf_snapshot_offset ?f) + unat (xf_snapshot_len ?f))"
    using off(1,4,7) lt by (simp_all add: x2_checked_range_Ok)
  have dig: "sha (COMMIT_DOMAIN @ slice bs (unat (xf_commit_start ?f)) fo @ slice (drop fo bs) 8 112) = xf_commit_digest ?f"
    using off(4,5) footer_parse_semantics [OF off(3)] by (simp add: digest_commit_def commit_bytes_def)
  define hashed where "hashed = xf_commit_len ?f + xf_snapshot_len ?f"
  have sum: "unat (xf_commit_len ?f) + unat (xf_snapshot_len ?f) \<le> unat (vl_max_hashed_bytes ?lim)" using assms(4) cv by (simp add: commit_valid_def Let_def)
  then have "unat (xf_commit_len ?f) + unat (xf_snapshot_len ?f) < 2 ^ 64" by (rule le_unat_64)
  then have u: "unat hashed = unat (xf_commit_len ?f) + unat (xf_snapshot_len ?f)" by (simp add: hashed_def unat_word_ariths)
  have hash: "checked_add (xf_commit_len ?f) (xf_snapshot_len ?f) = Some hashed" "check_hashed hashed lim = Inr ()" "check_hashed (xf_commit_len ?f) lim = Inr ()"
    using u sum by (simp_all add: checked_add_Some_iff check_hashed_def word_less_nat_alt)
  have link: "lookup_validate_parent_link bs fo (xf_commit_start ?f) (xf_sequence ?f) (xf_previous_footer_offset ?f) (xs_parent_snapshot_digest ?s) = Inr ()"
    using lookup_parent_link_Ok [OF off(12) _ lt] off(4) by simp
  obtain t where t: "stored sha bs (xs_sequence ?s) ?lim (root_page ?s) t" "may_walk sha bs lim (snapshot_span ?f) fo 0 hashed (map page_span (tree_pages t)) t"
    using root_may_walk [OF cv assms(4) u] by (auto simp: fo_def)
  have max: "ph_max_key (parsed_header p) \<noteq> - 1" if "page_matches sha bs (xf_sequence ?f) (root_page ?s) p" for p
    using assms(5) that by (simp add: root_max_key_def page_matches_def root_page_def)
  have "\<exists>res. lookup_pages sha bs i lim (xf_sequence ?f) (snapshot_span ?f) fo \<lparr>lx_offset = xs_directory_root_offset ?s, lx_digest = xs_directory_root_digest ?s,
      lx_level = xs_directory_root_level ?s, lx_minimum = None, lx_maximum = None\<rparr> 0 hashed [] = Inr res"
    by (rule lookup_pages_total [OF t(1) [unfolded off(10)] _ _ t(2) _ max assms(3) size(1)]) (simp_all add: expects_def root_page_def)
  moreover have "\<not> xf_snapshot_offset ?f < xf_commit_start ?f" using off(6) by (simp add: word_less_nat_alt)
  ultimately show ?thesis
    unfolding lookup_authenticated_def Let_def fo(1) using assms(2) size(2,3) len hdr fo(2,3) reads(9-17) validate_footer_structure_Ok [OF off(3)] commit rng dig hash off(7-11) link
    by (auto simp: ok_or_def snapshot_bytes_def snapshot_span_def)
qed

text \<open>
  C21. Authenticated lookup is exact: in a strictly valid file whose directory does not use the largest key, under limits that
  allow the depth of the directory and the bytes hashed, the lookup of a non-zero identifier returns. It returns
  nothing exactly when the directory has no entry for the identifier; otherwise it describes that entry: kind,
  place and lengths of record and payload, and the sequence of the snapshot.
\<close>

theorem exp2_lookup_exact:
  assumes "validate_strict sha bs (al_validation lim) = Inr v" and "i \<noteq> 0" and "vl_max_page_depth (al_validation lim) \<le> al_max_page_reads lim"
    and "unat (vx_bytes_hashed v) + unat (xf_snapshot_len (vx_footer v)) \<le> unat (vl_max_hashed_bytes (al_validation lim))" and "root_max_key bs v \<noteq> - 1"
  shows "\<exists>res. lookup_authenticated sha bs i lim = Inr res \<and>
    (case res of None \<Rightarrow> i \<notin> set (map le_object_id (vx_objects v))
     | Some r \<Rightarrow> \<exists>e \<in> set (vx_objects v). le_object_id e = i \<and> describes r e (xs_sequence (vx_snapshot v)))"
  using lookup_total [OF assms] lookup_agrees [OF _ assms(1)] by blast

theorem exp2_lookup_exact_witness:
  "\<exists>fil r. build_genesis x2_sample_sha x2_sample_header x2_sample_objects = Inr fil \<and>
    lookup_authenticated x2_sample_sha fil 7 authenticated_lookup_limits_default = Inr (Some r) \<and> au_object_id r = 7 \<and> au_kind r = 1 \<and>
    lookup_authenticated x2_sample_sha fil 6 authenticated_lookup_limits_default = Inr None"
proof -
  let ?lim = authenticated_lookup_limits_default
  have al: "al_validation ?lim = validation_limits_default" by (simp add: authenticated_lookup_limits_default_def)
  obtain fil v where fil: "build_genesis x2_sample_sha x2_sample_header x2_sample_objects = Inr fil" "length fil \<le> 70000"
    and v: "validate_strict x2_sample_sha fil validation_limits_default = Inr v" "payload_sum (vx_objects v) = 3" "length (vx_objects v) = 2"
      "set (map le_object_id (vx_objects v)) = {5, 7}" using x2_sample_file by blast
  note con = build_genesis_contents [OF fil(1) x2_sample_genesis(1,2) v(1)]
  have cv: "commit_valid x2_sample_sha fil validation_limits_default v" by (rule validate_strict_valid [OF v(1)])
  have "(- 1 :: u64) \<notin> oi_object_id ` set x2_sample_objects" by (simp add: x2_sample_objects_def)
  then obtain p where p: "page_matches x2_sample_sha fil 0 (root_page (vx_snapshot v)) p" "ph_max_key (parsed_header p) \<noteq> - 1" using con(5) by blast
  have mx: "root_max_key fil v \<noteq> - 1" using p by (simp add: root_max_key_def page_matches_def root_page_def)
  have "record_sum (vx_objects v) = 99" using record_sum_payload [of "vx_objects v" x2_sample_sha fil] cv v(2,3) by (simp add: commit_valid_def Let_def records_ok_def)
  moreover have "vx_pages_verified v \<le> 1000000" using cv by (simp add: commit_valid_def Let_def validation_limits_default_def)
  moreover have "unat (xf_commit_len (vx_footer v)) \<le> 70000" "unat (xf_snapshot_len (vx_footer v)) \<le> 70000"
    using cv fil(2) by (simp_all add: commit_valid_def Let_def)
  moreover have "unat (vx_bytes_hashed v) = unat (xf_commit_len (vx_footer v)) + PAGE_SIZE * vx_pages_verified v + record_sum (vx_objects v)"
    using cv by (simp add: commit_valid_def Let_def)
  ultimately have hashed: "unat (vx_bytes_hashed v) + unat (xf_snapshot_len (vx_footer v)) \<le> unat (vl_max_hashed_bytes validation_limits_default)"
    by (simp add: validation_limits_default_def)
  have depth: "vl_max_page_depth validation_limits_default \<le> al_max_page_reads ?lim" by (simp add: authenticated_lookup_limits_default_def validation_limits_default_def)
  note exact = exp2_lookup_exact [where lim = ?lim, unfolded al, OF v(1) _ depth hashed mx]
  obtain res where six: "lookup_authenticated x2_sample_sha fil 6 ?lim = Inr res"
      "case res of None \<Rightarrow> 6 \<notin> set (map le_object_id (vx_objects v)) | Some r \<Rightarrow> \<exists>e \<in> set (vx_objects v). le_object_id e = 6 \<and> describes r e (xs_sequence (vx_snapshot v))"
    using exact [of 6] by auto
  have "6 \<notin> set (map le_object_id (vx_objects v))" unfolding v(4) by simp
  then have "res = None" using six(2) by (cases res) auto
  moreover obtain res' where seven: "lookup_authenticated x2_sample_sha fil 7 ?lim = Inr res'"
      "case res' of None \<Rightarrow> 7 \<notin> set (map le_object_id (vx_objects v)) | Some r \<Rightarrow> \<exists>e \<in> set (vx_objects v). le_object_id e = 7 \<and> describes r e (xs_sequence (vx_snapshot v))"
    using exact [of 7] by auto
  then obtain r e where r: "res' = Some r" "e \<in> set (vx_objects v)" "le_object_id e = 7" "describes r e (xs_sequence (vx_snapshot v))"
    unfolding v(4) by (auto split: option.splits)
  moreover have "le_kind e = 1" using con(4) r(2,3) by (auto simp: x2_sample_objects_def object_stored_def list_all2_Cons1)
  ultimately show ?thesis using fil(1) six(1) seven(1) by (auto simp: describes_def)
qed

end
