(* ===== verification/Spec2Isabelle.thy ===== *)
theory Spec2Isabelle
  imports Ucof_Well_Formed Ucof_Source_Properties Ucof_Stream_Properties Ucof_Stream_Writer_Sound Ucof_Salvage Ucof_Root_Selection Ucof_Publication_Order Ucof_Directory_Properties Ucof_Recovery Ucof_Repair Ucof_Root_Enumeration Ucof_Exp2_Recovery Ucof_Exp2_Lookup_Properties
begin

text \<open>
  UCOF is a container format for immutable objects with a canonical CBOR manifest. The repository
  holds the reference implementation of epoch EXP-0001 (\<open>src/crates/ucof-core\<close>: in-memory reader and
  writer, random-access inspector and validator, sequential reader, streaming writer, diagnostics and
  salvage), models of the next epochs (\<open>src/crates/ucof-experiments\<close>), a command line tool and fuzz
  targets. This development models all of \<open>ucof-core\<close> and, in \<open>ucof-experiments\<close>, the paged directory,
  snapshot selection and enumeration, publication, recovery, compaction and repair models and the byte
  candidate EXP-0002 with its rewrite, recovery and authenticated lookup, definition by definition, and
  proves what makes them correct.

  \<^bold>\<open>A file.\<close> 32 bytes of header, records (a 40-byte header and a payload each), a directory record whose
  payload lists the records, and an 80-byte footer that locates the directory, names the active manifest
  and holds the SHA-256 of everything before it. \<open>Ucof_Writer\<close> defines this layout as a function of a list
  of records (\<open>file_image\<close>, \<open>body_image\<close>, \<open>layout\<close>); every reader and writer is proved against it.
  SHA-256 (the \<open>sha2\<close> crate) is a parameter \<open>sha\<close>, of which only the digest length is ever assumed.

  \<^bold>\<open>The theories, in the order of the code.\<close>
  \<^item> \<open>Ucof_Prelude\<close>: results and their sequencing (the \<open>?\<close> operator), checked arithmetic on 64-bit words,
    slices, little- and big-endian images. \<open>Ucof_Error\<close> (\<open>error.rs\<close>, \<open>limits.rs\<close>), \<open>Ucof_Format\<close>
    (\<open>format.rs\<close>), \<open>Ucof_Model\<close> (\<open>model.rs\<close>).
  \<^item> \<open>Ucof_Cbor\<close> (\<open>cbor.rs\<close>): encoder and decoder. \<open>Ucof_Cbor_Canonical\<close> shows that decoding inverts encoding
    and conversely, \<open>Ucof_Metadata\<close> the same for manifests and directories, \<open>Ucof_Well_Formed\<close> that the
    decoder accepts exactly the canonical encodings within its limits.
  \<^item> \<open>Ucof_Reader\<close> (\<open>reader.rs\<close>, \<open>ValidatedFile::parse\<close>), \<open>Ucof_Writer\<close> (\<open>writer.rs\<close>), and \<open>Ucof_File\<close>: what
    \<open>parse\<close> accepts is exactly the layout of its records. \<open>Ucof_Sample\<close> is the file the witnesses use.
  \<^item> \<open>Ucof_Io\<close>: operations with \<open>&mut self\<close> as state functions that return a result and the state they
    leave, also when they fail. \<open>Ucof_Source\<close> and \<open>Ucof_Source_Validate\<close> (\<open>source.rs\<close>, \<open>source_validate.rs\<close>):
    inspection and validation over a random-access source; \<open>Ucof_Source_Sound\<close> (locales \<open>read_at_source\<close>,
    \<open>stable_source\<close>, \<open>ready_source\<close> and \<open>seekable\<close> for the contract of a source, interpreted on byte slices and
    seek-based readers), \<open>Ucof_Source_Complete\<close>, \<open>Ucof_Source_Properties\<close>.
  \<^item> \<open>Ucof_Stream\<close> (\<open>stream.rs\<close>): the sequential reader as a state machine whose step is \<open>next_event\<close>;
    \<open>Ucof_Stream_Sound\<close> (locale \<open>byte_reader\<close> for the contract of \<open>Read\<close>, the runs \<open>streams\<close> and their
    invariant), \<open>Ucof_Stream_Complete\<close> (locale \<open>ready_reader\<close>; every streamable input reaches its commit),
    \<open>Ucof_Stream_Properties\<close>.
  \<^item> \<open>Ucof_Stream_Writer\<close> (\<open>stream_writer.rs\<close>) and \<open>Ucof_Stream_Writer_Sound\<close> (locale \<open>byte_sink\<close> for the
    contract of \<open>write_all\<close>; the streaming writer refines the in-memory writer).
  \<^item> \<open>Ucof_Diagnostic\<close> (\<open>diagnostic.rs\<close>) and \<open>Ucof_Salvage\<close>: diagnosis is faithful, salvage sound and complete.
  \<^item> \<open>Ucof_Snapshots\<close> (\<open>snapshots.rs\<close>) and \<open>Ucof_Root_Selection\<close>: selection of the active snapshot equals its
    specification. \<open>Ucof_Publication\<close> (\<open>publication.rs\<close>) and \<open>Ucof_Publication_Order\<close>: the order of an append
    as a step relation with its invariant.
  \<^item> \<open>Ucof_Directory\<close> (\<open>directory.rs\<close>), \<open>Ucof_Directory_Tree\<close> and \<open>Ucof_Directory_Properties\<close>: a built paged
    directory answers like the list of its locators, validates, and has the shape
    that the estimate gives where it does not overflow.
  \<^item> \<open>Ucof_Recovery\<close> (\<open>recovery.rs\<close>): the backward scan is exact. \<open>Ucof_Compaction\<close> (\<open>compaction.rs\<close>,
    \<open>repair.rs\<close>) and \<open>Ucof_Repair\<close>: plans hold exactly what the selected roots reach. \<open>Ucof_Enumeration\<close>
    (\<open>enumeration.rs\<close>) and \<open>Ucof_Root_Enumeration\<close>: every candidate has the status of its specification, and
    enumeration agrees with selection.
  \<^item> \<open>Ucof_Exp2_Format\<close>, \<open>Ucof_Exp2_Pages\<close> and \<open>Ucof_Exp2_File\<close> (\<open>exp0002.rs\<close>): records, directory pages, snapshots,
    footers, the builders and strict validation of EXP-0002. \<open>Ucof_Exp2_Codec\<close> (round trips of the records),
    \<open>Ucof_Exp2_Records\<close> (object records), \<open>Ucof_Exp2_Tree\<close> and \<open>Ucof_Exp2_Tree_Writer\<close> (the directory as a tree of
    pages, \<open>stored\<close>), \<open>Ucof_Exp2_Commit\<close> and \<open>Ucof_Exp2_Total\<close> (built files validate, and building succeeds on every
    input that fits), \<open>Ucof_Exp2_Properties\<close> (what validation means, \<open>commit_valid\<close>).
  \<^item> \<open>Ucof_Exp2_Rewrite\<close> (\<open>exp0002_rewrite.rs\<close>): a rewritten file holds what it kept. \<open>Ucof_Exp2_Recovery\<close>
    (\<open>exp0002_recovery.rs\<close>): the scan is exact and the chain of previous commits valid. \<open>Ucof_Exp2_Lookup\<close>
    (\<open>exp0002_lookup.rs\<close>), \<open>Ucof_Exp2_Lookup_Total\<close> and \<open>Ucof_Exp2_Lookup_Properties\<close>: a lookup along one path of
    pages returns and finds exactly what the whole directory holds.

  \<^bold>\<open>State and errors.\<close> Structs are records, enums datatypes, \<open>u64\<close> a 64-bit word with the checked,
  saturating or wrapping operation the code uses; \<open>usize\<close> is a natural number with the 64-bit bound
  written out. Every early return is a branch of the model, errors are values of the code's error type.
  A \<open>BTreeMap\<close> is a map, a \<open>BTreeSet\<close> a set, the hasher the list of bytes fed to it. Sources, readers and
  sinks are records of functions on a state, so that a failing or lying implementation is an instance.

  \<^bold>\<open>Loops.\<close> No definition uses fuel: the loops are structural or have a termination proof (bytes that
  remain, nesting depth that remains, records that remain). The calls a client makes are inductive
  relations (\<open>writes\<close>, \<open>sw_writes\<close>, \<open>streams\<close>, \<open>publication_runs\<close>), with failed calls as steps.

  \<^bold>\<open>What is assumed.\<close> Only the contracts of code outside the repository: a digest has 32 bytes; a source
  that answers returns the bytes of its content; \<open>read\<close> returns the next bytes and \<open>write_all\<close> appends.
  Liveness theorems also assume that the source answers. Each theorem has a witness on a concrete file.

  \<^bold>\<open>Not modelled.\<close> \<open>ucof-cli\<close> and the \<open>ucof-exp0002\<close> tool (argument parsing and printing), the fuzz targets,
  tests and examples; in \<open>ucof-experiments\<close> the range-source versions of EXP-0002 (\<open>exp0002_source*.rs\<close>, which
  repeat the byte-slice versions behind bounded reads), the immutable successor (\<open>immutable_successor/*\<close>,
  including its HTTP and S3 adapters, with the plans \<open>mixed_*.rs\<close> and \<open>semantic_*.rs\<close> that serve it) and the
  copy-on-write measurement model \<open>cow_reuse.rs\<close>. Panics on exhausted memory and the text of foreign I/O
  errors are not modelled.
\<close>

section \<open>Writing and reading a file\<close>

text \<open>
  C1. Whatever sequence of calls built the writer, the file that \<open>finish\<close> returns is accepted by
  \<open>ValidatedFile::parse\<close>, with the selected manifest, and \<open>object\<close> returns exactly the payloads that
  were added, under their identifiers. The conditions are on what the writer does not check: the selected
  record encodes a manifest that requires no capabilities (\<open>parse\<close> supports none) and whose roots are
  written identifiers, and the limits of the reader are large enough for the file.
\<close>

theorem writer_round_trip:
  assumes "writes w rs" and "writer_finish sha w mid = Inr bs" and "\<And>x. length (sha x) = 32"
    and "limits_admit lim rs bs" and "(Manifest, mid, p) \<in> set rs"
    and "encode_canonical (manifest_to_cbor m) = Inr p" and "validate_shape m = Inr ()" and "manifest_fits lim m"
    and "required_capabilities m = []" and "set (roots m) \<subseteq> spec_id ` set rs"
  shows "\<exists>vf. parse sha bs lim = Inr vf \<and> vf_manifest_id vf = mid \<and> vf_manifest vf = m \<and>
    (\<forall>oid q. vf_object vf oid = Some q \<longleftrightarrow> (\<exists>k. (k, oid, q) \<in> set rs))"
proof -
  have inv: "writer_inv w rs" using assms(1) by (rule writes_inv)
  from writer_finish_Ok [OF inv assms(2)] obtain d where
    d: "encode_canonical (directory_value (layout 32 rs)) = Inr d" and bs: "bs = file_image sha rs d mid" .
  have "accepted lim rs d mid m"
    using writer_accepted [OF inv d assms(3) assms(4) [unfolded bs]] assms(5-) by blast
  moreover have len: "length bs \<le> unat (max_file_bytes lim)" using assms(4) by (simp add: limits_admit_def)
  ultimately have "parse sha bs lim = Inr (view sha rs d mid m)"
    unfolding bs by (intro parse_complete assms(3)) auto
  moreover have "vf_object (view sha rs d mid m) oid = Some q \<longleftrightarrow> (\<exists>k. (k, oid, q) \<in> set rs)" for oid q
  proof -
    have "k \<noteq> Directory" if "(k, oid, q) \<in> set rs" for k
      using inv that by (auto simp: writer_inv_def image_iff)
    then show ?thesis
      using object_view [OF writer_inv_ids_ok [OF inv], of sha d mid m oid q] assms(3) le_unat_64 [OF len] bs by auto
  qed
  ultimately show ?thesis by (auto simp: view_def)
qed

theorem writer_round_trip_witness:
  "\<exists>vf. parse sample_sha sample_file default_limits = Inr vf \<and> vf_manifest_id vf = 1 \<and>
     vf_manifest vf = sample_manifest \<and>
     (\<forall>oid q. vf_object vf oid = Some q \<longleftrightarrow> (\<exists>k. (k, oid, q) \<in> set sample_records))"
  by (rule writer_round_trip [OF sample_writes sample_finish sample_sha_length sample_limits sample_roots(3)
        sample_manifest_encode sample_manifest_shape sample_manifest_fits sample_roots(1,2)])

text \<open>
  C2. Strictness: a file that \<open>parse\<close> accepts is byte for byte the layout of its records, with the
  canonical encoding of its own directory and of the active manifest, the digest of everything
  before the footer, distinct non-zero identifiers and no required capability; and \<open>object\<close> returns
  exactly the payloads of those records.
\<close>

theorem parse_is_written:
  assumes "parse sha bs lim = Inr vf"
  shows "\<exists>rs d p. bs = file_image sha rs d (vf_manifest_id vf) \<and>
    encode_canonical (directory_value (layout 32 rs)) = Inr d \<and>
    (Manifest, vf_manifest_id vf, p) \<in> set rs \<and> encode_canonical (manifest_to_cbor (vf_manifest vf)) = Inr p \<and>
    ids_ok {} rs \<and> set (roots (vf_manifest vf)) \<subseteq> spec_id ` set rs \<and> required_capabilities (vf_manifest vf) = [] \<and>
    (\<forall>oid q. vf_object vf oid = Some q \<longleftrightarrow> (\<exists>k. (k, oid, q) \<in> set rs \<and> k \<noteq> Directory))"
proof -
  from parse_sound [OF assms] obtain rs d where
    bs: "bs = file_image sha rs d (vf_manifest_id vf)" and len: "length bs \<le> unat (max_file_bytes lim)"
    and acc: "accepted lim rs d (vf_manifest_id vf) (vf_manifest vf)"
    and vf: "vf = view sha rs d (vf_manifest_id vf) (vf_manifest vf)"
    and dig: "length (sha (body_image (rs @ [(Directory, 0, d)]))) = 32" .
  from acc obtain p where p: "(Manifest, vf_manifest_id vf, p) \<in> set rs"
    and pm: "and_then (decode_canonical p lim) parse_manifest = Inr (vf_manifest vf)"
    by (auto simp: accepted_def)
  have "encode_canonical (directory_value (layout 32 rs)) = Inr d"
    using acc by (auto simp: accepted_def result_simps dest: parse_directory_encode decode_canonical_encode)
  moreover have "encode_canonical (manifest_to_cbor (vf_manifest vf)) = Inr p"
    using pm by (auto simp: result_simps dest: parse_manifest_encode decode_canonical_encode)
  moreover have "vf_object vf oid = Some q \<longleftrightarrow> (\<exists>k. (k, oid, q) \<in> set rs \<and> k \<noteq> Directory)" for oid q
    using object_view [of rs sha d "vf_manifest_id vf" "vf_manifest vf" oid q] acc dig le_unat_64 [OF len] vf bs
    by (simp add: accepted_def)
  ultimately show ?thesis using bs acc p by (auto simp: accepted_def)
qed

theorem parse_is_written_witness:
  "\<exists>vf rs d p. parse sample_sha sample_file default_limits = Inr vf \<and>
     sample_file = file_image sample_sha rs d (vf_manifest_id vf) \<and>
     encode_canonical (directory_value (layout 32 rs)) = Inr d \<and> (Manifest, vf_manifest_id vf, p) \<in> set rs"
  using sample_parse parse_is_written [OF sample_parse] by blast

section \<open>Streaming out and back in\<close>

text \<open>
  C6. A file that the streaming writer finished on an empty sink is read back by the sequential reader: it
  reaches its commit, having delivered exactly the records that were added, in order, and then the
  directory, and names the manifest and the roots. As the writer does not check this, the selected record
  must encode a manifest that requires no capabilities and whose roots are written identifiers, every other
  manifest record must decode too, and the limits of the reader must be large enough for the file.
\<close>

theorem streaming_round_trip:
  assumes "byte_sink W written" and "byte_reader R rest" and "sw_writes W R rest inner lim w rs" and "written inner = []"
    and "streaming_finish sha W mid w = (Inr fw, w')" and "\<And>x. length (sha x) = 32"
    and "ready_reader R' rest'" and "rest' src = written (fw_inner fw)"
    and "limits_admit lim' rs (rest' src)" and "(Manifest, mid, p) \<in> set rs"
    and "encode_canonical (manifest_to_cbor m) = Inr p" and "validate_shape m = Inr ()" and "manifest_fits lim' m"
    and "required_capabilities m = []" and "set (roots m) \<subseteq> spec_id ` set rs"
    and "\<And>i q. (Manifest, i, q) \<in> set rs \<Longrightarrow> \<exists>m. and_then (decode_canonical q lim') parse_manifest = Inr m"
    and "length (rest' src) \<le> unat (max_total_bytes_read lim')" and "length (rest' src) \<le> unat (max_logical_decoded_bytes lim')"
    and "length (rest' src) \<le> unat (max_allocation_bytes lim')" and "0 < max_stream_chunk_bytes lim'"
  shows "\<exists>evs c r d. streams sha R' (sequential_new src lim') (evs @ [Commit c]) r \<and>
    delivered evs = rs @ [(Directory, 0, d)] \<and> sc_manifest_id c = mid \<and> sc_roots c = roots m"
proof -
  have "\<not> sw_failed w" using assms(5) by (auto simp: streaming_finish_def ensure_open_def op_bind_Ok_iff op_run split: if_splits)
  then have inv: "sw_inv written [] rs w" and wr: "writes (sw_abs w) rs"
    using sw_writes_inv [OF assms(1-3)] assms(4) by simp_all
  obtain d where d: "encode_canonical (directory_value (layout 32 rs)) = Inr d" "written (fw_inner fw) = [] @ file_image sha rs d mid"
    by (rule streaming_finish_Ok [OF assms(1) inv assms(5)])
  then have X: "rest' src = file_image sha rs d mid" using assms(8) by simp
  have acc: "accepted lim' rs d mid m"
    by (rule writer_accepted [OF writes_inv [OF wr] d(1) assms(6) assms(9) [unfolded X] assms(10-15)])
  have room: "length (rest' src) \<le> unat (max_file_bytes lim')" "length (rest' src) \<le> unat (max_metadata_bytes lim')"
    using assms(9) by (simp_all add: limits_admit_def)
  have "stream_limits lim' (rs @ [(Directory, 0, d)]) (rest' src)"
    by (rule file_stream_limits [OF X room(1) assms(17,18) room(2) assms(19,20)])
  then have st: "streamable sha lim' (rest' src) rs d mid m"
    using X assms(6,16) acc inv by (simp add: streamable_def accepted_iff sw_inv_def)
  obtain evs c r where run: "streams sha R' (sequential_new src lim') (evs @ [Commit c]) r"
    using ready_reader.stream_completes [OF assms(7) st] by blast
  from commit_describes(1) [OF ready_reader.axioms(1) [OF assms(7)] run] obtain rs' d' where
    del: "delivered evs = rs' @ [(Directory, 0, d')]" and c: "committed sha lim' (rest' src) rs' d' c" by blast
  with run committed_unique [OF st c] show ?thesis by blast
qed

theorem streaming_round_trip_witness:
  "\<exists>w fw w' evs c r d. sw_writes vec_write_all slice_reader (\<lambda>s. s) [] default_limits w sample_records \<and>
     streaming_finish sample_sha vec_write_all 1 w = (Inr fw, w') \<and>
     streams sample_sha slice_reader (sequential_new (fw_inner fw) default_limits) (evs @ [Commit c]) r \<and>
     delivered evs = sample_records @ [(Directory, 0, d)]"
proof -
  obtain w where w: "sw_writes vec_write_all slice_reader (\<lambda>s. s) [] default_limits w sample_records" "\<not> sw_failed w" "sw_limits w = default_limits"
    using sample_sw_writes by blast
  obtain fw w' where fin: "streaming_finish sample_sha vec_write_all 1 w = (Inr fw, w')" using sample_sw_finish [OF w] by blast
  have inv: "sw_inv (\<lambda>s. s) [] sample_records w"
    using sw_writes_inv [OF vec_sink.byte_sink_axioms slice_in.byte_reader_axioms w(1)] w(2) by simp
  obtain d where "encode_canonical (directory_value (layout 32 sample_records)) = Inr d" "fw_inner fw = [] @ file_image sample_sha sample_records d 1"
    by (rule streaming_finish_Ok [OF vec_sink.byte_sink_axioms inv fin])
  then have X: "fw_inner fw = sample_file" using sample_directory_encode by (simp add: sample_file_def)
  have dec: "\<exists>m. and_then (decode_canonical q default_limits) parse_manifest = Inr m" if "(Manifest, i, q) \<in> set sample_records" for i q
    using that sample_streamable by (auto simp: streamable_def)
  have fit: "length sample_file \<le> unat (max_logical_decoded_bytes default_limits)" "length sample_file \<le> unat (max_total_bytes_read default_limits)"
    by (simp_all add: default_limits_def sample_file_def file_image_def Let_def body_image_def
        sample_records_def sample_manifest_bytes_def sample_directory_def)
  have "\<exists>evs c r d. streams sample_sha slice_reader (sequential_new (fw_inner fw) default_limits) (evs @ [Commit c]) r \<and>
      delivered evs = sample_records @ [(Directory, 0, d)] \<and> sc_manifest_id c = 1 \<and> sc_roots c = roots sample_manifest"
    by (rule streaming_round_trip [OF vec_sink.byte_sink_axioms slice_in.byte_reader_axioms w(1) refl fin sample_sha_length
          slice_ready.ready_reader_axioms refl sample_limits [folded X] sample_roots(3) sample_manifest_encode sample_manifest_shape
          sample_manifest_fits sample_roots(1,2)]) (use dec fit X sample_room(2,4) in simp_all)
  with w(1) fin show ?thesis by blast
qed

end
